(* ===== verification/Prelude.thy ===== *)
theory Prelude
  imports Main "HOL-Library.Word" "HOL-Library.Monad_Syntax"
begin

text \<open>
  Shared vocabulary of the development: bytes and byte buffers with bounds-checked access
  (a C pointer is an offset into a buffer, an access outside the buffer is \<^term>\<open>None\<close>,
  which stands for undefined behaviour), the byte-wise exclusive or, the big-endian reading of a
  byte string, the fixed-width digest of a 256-bit hash, and the arithmetic of the C type \<open>int\<close>, whose
  overflow is undefined.
\<close>

unbundle bit_operations_syntax

named_theorems buf_simps "reads after writes on byte buffers"
named_theorems len_simps "lengths of byte strings"

type_synonym byte = "8 word"
type_synonym bytes = "8 word list"

text \<open>The digest type of SHA-256 and of RandomX: 32 bytes, whatever the function computes.\<close>
type_synonym digest256 = "256 word"

type_synonym hash_fn = "8 word list \<Rightarrow> 256 word"

section \<open>Buffers\<close>

definition rd :: "bytes \<Rightarrow> int \<Rightarrow> nat \<Rightarrow> bytes option" where
  "rd buf off n =
     (if 0 \<le> off \<and> nat off + n \<le> length buf then Some (take n (drop (nat off) buf)) else None)"

definition wr :: "bytes \<Rightarrow> int \<Rightarrow> bytes \<Rightarrow> bytes option" where
  "wr buf off bs =
     (if 0 \<le> off \<and> nat off + length bs \<le> length buf
      then Some (take (nat off) buf @ bs @ drop (nat off + length bs) buf) else None)"

lemma rd_nat [buf_simps]:
  "off + n \<le> length buf \<Longrightarrow> rd buf (int off) n = Some (take n (drop off buf))"
  by (simp add: rd_def)

lemma wr_nat [buf_simps]:
  "off + length bs \<le> length buf \<Longrightarrow>
   wr buf (int off) bs = Some (take off buf @ bs @ drop (off + length bs) buf)"
  by (simp add: wr_def)

lemma rd_Some_length: "rd buf off n = Some bs \<Longrightarrow> length bs = n"
  by (auto simp: rd_def split: if_splits)

lemma wr_Some_length: "wr buf off bs = Some buf' \<Longrightarrow> length buf' = length buf"
  by (auto simp: wr_def split: if_splits)

lemma rd_None_negative: "off < 0 \<Longrightarrow> rd buf off n = None"
  by (simp add: rd_def)

lemma rd_None_beyond: "length buf < n \<Longrightarrow> rd buf off n = None"
  by (simp add: rd_def)

lemma rd_wr_same: "wr buf off bs = Some buf' \<Longrightarrow> rd buf' off (length bs) = Some bs"
  by (auto simp: rd_def wr_def split: if_splits)

lemma rd_wr_other:
  assumes "wr buf off bs = Some buf'" and "o2 + int n \<le> off \<or> off + int (length bs) \<le> o2"
  shows "rd buf' o2 n = rd buf o2 n"
proof (cases "0 \<le> o2")
  case True
  have off: "0 \<le> off" "nat off + length bs \<le> length buf"
    and buf': "buf' = take (nat off) buf @ bs @ drop (nat off + length bs) buf"
    using assms(1) by (auto simp: wr_def split: if_splits)
  have len: "length buf' = length buf"
    using assms(1) by (rule wr_Some_length)
  have "take n (drop (nat o2) buf') = take n (drop (nat o2) buf)" if "nat o2 + n \<le> length buf"
  proof (rule nth_equalityI)
    show "length (take n (drop (nat o2) buf')) = length (take n (drop (nat o2) buf))"
      by (simp add: len)
  next
    fix i assume "i < length (take n (drop (nat o2) buf'))"
    then have "i < n" "nat o2 + i < length buf" using len by auto
    have a: "take n (drop (nat o2) b) ! i = b ! (nat o2 + i)" if "length b = length buf" for b
      using that \<open>i < n\<close> \<open>nat o2 + i < length buf\<close> by simp
    have "buf' ! (nat o2 + i) = buf ! (nat o2 + i)"
    proof (cases "o2 + int n \<le> off")
      case True
      then have "nat o2 + i < nat off" using \<open>i < n\<close> \<open>0 \<le> o2\<close> by linarith
      then show ?thesis using off by (simp add: buf' nth_append)
    next
      case False
      then have "nat off + length bs \<le> nat o2" using assms(2) off \<open>0 \<le> o2\<close> by linarith
      then obtain k where "nat o2 + i = nat off + length bs + k"
        by (metis add.assoc le_iff_add)
      then show ?thesis using off by (simp add: buf' nth_append)
    qed
    then show "take n (drop (nat o2) buf') ! i = take n (drop (nat o2) buf) ! i"
      using a [of buf] a [of buf'] len by simp
  qed
  then show ?thesis by (simp add: rd_def len)
qed (simp add: rd_def)

section \<open>Byte-wise exclusive or\<close>

definition xor_bytes :: "bytes \<Rightarrow> bytes \<Rightarrow> bytes" where
  "xor_bytes = map2 (\<lambda>a b. a XOR b)"

lemma length_xor_bytes [simp, len_simps]:
  "length (xor_bytes a b) = min (length a) (length b)"
  by (simp add: xor_bytes_def)

lemma nth_xor_bytes [simp]:
  "i < length a \<Longrightarrow> i < length b \<Longrightarrow> xor_bytes a b ! i = a ! i XOR b ! i"
  by (simp add: xor_bytes_def)

lemma xor_bytes_cancel [simp]:
  "length a \<le> length h \<Longrightarrow> xor_bytes (xor_bytes a h) h = a"
  by (rule nth_equalityI) (auto simp: xor.assoc)

lemma xor_bytes_zero [simp]: "length a \<le> n \<Longrightarrow> xor_bytes a (replicate n 0) = a"
  by (rule nth_equalityI) auto

section \<open>Big-endian numbers\<close>

definition be_val :: "bytes \<Rightarrow> nat" where
  "be_val bs = foldl (\<lambda>acc b. acc * 256 + unat b) 0 bs"

lemma foldl_be_val:
  "foldl (\<lambda>acc b. acc * 256 + unat b) v bs = v * 256 ^ length bs + be_val bs"
proof (induction bs arbitrary: v rule: rev_induct)
  case Nil
  then show ?case by (simp add: be_val_def)
next
  case (snoc b bs)
  then show ?case by (simp add: be_val_def [of "bs @ [b]"] algebra_simps)
qed

lemma be_val_Nil [simp]: "be_val [] = 0"
  by (simp add: be_val_def)

lemma be_val_snoc [simp]: "be_val (bs @ [b]) = be_val bs * 256 + unat b"
  by (simp add: be_val_def)

lemma be_val_Cons: "be_val (b # bs) = unat b * 256 ^ length bs + be_val bs"
  using foldl_be_val [of "unat b" bs] by (simp add: be_val_def)

lemma be_val_append: "be_val (a @ b) = be_val a * 256 ^ length b + be_val b"
  using foldl_be_val [of "be_val a" b] by (simp add: be_val_def)

lemma unat_byte_less [simp]: "unat (b :: byte) < 256"
  using unsigned_less [of b] by simp

lemma unat_ucast_byte [simp]:
  "unat (ucast (b :: byte) :: 32 word) = unat b" "unat (ucast (b :: byte) :: 64 word) = unat b"
proof -
  have "unat b < 2 ^ 32" by (rule less_trans [OF unat_byte_less]) simp
  moreover have "unat b < 2 ^ 64" by (rule less_trans [OF unat_byte_less]) simp
  ultimately show "unat (ucast b :: 32 word) = unat b" "unat (ucast b :: 64 word) = unat b"
    by (simp_all add: unsigned_ucast_eq take_bit_eq_mod)
qed

lemma be_val_bound: "be_val bs < 256 ^ length bs"
proof (induction bs rule: rev_induct)
  case (snoc b bs)
  have "be_val bs * 256 + unat b < be_val bs * 256 + 256" by simp
  also have "\<dots> \<le> 256 ^ length bs * 256" using snoc by simp
  finally show ?case by (simp add: mult.commute)
qed simp

text \<open>\<open>be_bytes n v\<close>: the \<open>n\<close> low bytes of \<open>v\<close>, most significant first.\<close>

fun be_bytes :: "nat \<Rightarrow> nat \<Rightarrow> bytes" where
  "be_bytes 0 v = []"
| "be_bytes (Suc n) v = be_bytes n (v div 256) @ [of_nat (v mod 256)]"

lemma length_be_bytes [simp, len_simps]: "length (be_bytes n v) = n"
  by (induction n arbitrary: v) auto

lemma be_val_be_bytes: "be_val (be_bytes n v) = v mod 256 ^ n"
proof (induction n arbitrary: v)
  case (Suc n)
  have b: "unat (of_nat (v mod 256) :: byte) = v mod 256"
    by (simp add: unat_of_nat)
  have "v mod (256 * 256 ^ n) = 256 * (v div 256 mod 256 ^ n) + v mod 256"
    by (rule mod_mult2_eq)
  then show ?case by (simp add: Suc b mult.commute)
qed simp

lemma be_bytes_be_val [simp]: "be_bytes (length bs) (be_val bs) = bs"
proof (induction bs rule: rev_induct)
  case (snoc b bs)
  have "(be_val bs * 256 + unat b) div 256 = be_val bs" by simp
  moreover have "(of_nat ((be_val bs * 256 + unat b) mod 256) :: byte) = b"
    by simp
  ultimately show ?case using snoc by simp
qed simp

lemma be_val_inject: "length a = length b \<Longrightarrow> be_val a = be_val b \<longleftrightarrow> a = b"
  by (metis be_bytes_be_val)

section \<open>Digests\<close>

text \<open>\<open>digest w\<close>: the 32 bytes that \<open>SHA256_Final\<close> stores for the hash value \<open>w\<close>.\<close>

definition digest :: "digest256 \<Rightarrow> bytes" where
  "digest w = map (\<lambda>i. ucast (drop_bit (8 * (31 - i)) w)) [0..<32]"

lemma length_digest [simp, len_simps]: "length (digest w) = 32"
  by (simp add: digest_def)

section \<open>Iteration\<close>

lemma funpow_Suc_inner: "(f ^^ Suc n) x = (f ^^ n) (f x)"
  by (simp add: funpow_swap1)

section \<open>Integers of type \<open>int\<close>\<close>

text \<open>An \<open>int\<close> computation that overflows is undefined.\<close>

definition c_int :: "int \<Rightarrow> int option" where
  "c_int x = (if - (2 ^ 31) \<le> x \<and> x < 2 ^ 31 then Some x else None)"

lemma c_int_Some: "- (2 ^ 31) \<le> x \<Longrightarrow> x < 2 ^ 31 \<Longrightarrow> c_int x = Some x"
  by (simp add: c_int_def)

lemma c_int_nat: "n < 2 ^ 31 \<Longrightarrow> c_int (int n) = Some (int n)"
  by (simp add: c_int_def)

text \<open>Reading and writing at a pointer plus an offset that is computed as an \<open>int\<close>.\<close>

definition rd_int :: "bytes \<Rightarrow> int \<Rightarrow> nat \<Rightarrow> bytes option" where
  "rd_int buf offset n = do { offset \<leftarrow> c_int offset; rd buf offset n }"

definition wr_int :: "bytes \<Rightarrow> int \<Rightarrow> bytes \<Rightarrow> bytes option" where
  "wr_int buf offset bs = do { offset \<leftarrow> c_int offset; wr buf offset bs }"

lemma rd_int_nat: "m < 2 ^ 31 \<Longrightarrow> rd_int buf (int m) n = rd buf (int m) n"
  and wr_int_nat: "m < 2 ^ 31 \<Longrightarrow> wr_int buf (int m) bs = wr buf (int m) bs"
  by (simp_all add: rd_int_def wr_int_def c_int_nat)

end
