(* ===== verification/Nif.thy ===== *)
theory Nif
  imports Prelude
begin

text \<open>
  The interface between the native functions and the Erlang VM. \<open>erl_nif\<close> is not part of the
  repository: its functions are the parameter \<open>e\<close>, a record of functions on an arbitrary type of
  terms \<open>'t\<close>. A reader function returns \<^term>\<open>None\<close> where the C function returns 0. Then the utility
  functions at the end of \<open>ar_mine_randomx.c\<close>. A result \<^term>\<open>None\<close> of a native function stands for undefined behaviour or
  an aborted VM.
\<close>

record 't enif =
  enif_inspect_binary :: "'t \<Rightarrow> bytes option"
  enif_inspect_iolist_as_binary :: "'t \<Rightarrow> bytes option"
  enif_get_int :: "'t \<Rightarrow> int option"
  enif_get_uint :: "'t \<Rightarrow> nat option"
  enif_get_resource :: "'t \<Rightarrow> nat option"
  enif_get_list_length :: "'t \<Rightarrow> nat option"
  enif_get_list_cell :: "'t \<Rightarrow> ('t \<times> 't) option"
  enif_get_local_pid :: "'t \<Rightarrow> nat option"
  enif_make_badarg :: 't
  enif_make_atom :: "string \<Rightarrow> 't"
  enif_make_string :: "string \<Rightarrow> 't"
  enif_make_tuple :: "'t list \<Rightarrow> 't"
  enif_make_binary :: "bytes \<Rightarrow> 't"
  enif_make_pid :: "nat \<Rightarrow> 't"
  enif_make_resource :: "nat \<Rightarrow> 't"
  fresh_bytes :: "nat \<Rightarrow> bytes"

text \<open>
  The early return of an argument check: \<open>if (!get(\<dots>, &x)) return r;\<close>
\<close>

definition need :: "'a option \<Rightarrow> 'r \<Rightarrow> ('a \<Rightarrow> 'r) \<Rightarrow> 'r" where
  "need x r k = (case x of None \<Rightarrow> r | Some a \<Rightarrow> k a)"

lemma need_simps [simp]: "need None r k = r" "need (Some a) r k = k a"
  by (simp_all add: need_def)

lemma need_split: "P (need x r k) \<longleftrightarrow> (x = None \<longrightarrow> P r) \<and> (\<forall>a. x = Some a \<longrightarrow> P (k a))"
  by (cases x) simp_all

text \<open>
  A buffer of \<open>sz\<close> bytes whose contents are not defined yet (\<open>enif_make_new_binary\<close>, \<open>malloc\<close>, an
  array on the stack). A negative \<open>int\<close> becomes a \<open>size_t\<close> above \<open>2 ^ 63\<close>, which no allocator can serve.
\<close>

definition new_buffer :: "'t enif \<Rightarrow> int \<Rightarrow> bytes option" where
  "new_buffer e sz = (if 0 \<le> sz then Some (fresh_bytes e (nat sz)) else None)"

definition fresh_lengths :: "'t enif \<Rightarrow> bool" where
  "fresh_lengths e \<longleftrightarrow> (\<forall>n. length (fresh_bytes e n) = n)"

lemma new_buffer_length: "fresh_lengths e \<Longrightarrow> new_buffer e sz = Some b \<Longrightarrow> length b = nat sz"
  by (auto simp: new_buffer_def fresh_lengths_def split: if_splits)

lemma new_buffer_nat [simp]: "new_buffer e (int n) = Some (fresh_bytes e n)"
  by (simp add: new_buffer_def)

section \<open>Utility functions\<close>

definition solution_tuple :: "'t enif \<Rightarrow> 't \<Rightarrow> 't" where
  "solution_tuple e hashTerm = enif_make_tuple e [enif_make_atom e ''true'', hashTerm]"

definition ok_tuple :: "'t enif \<Rightarrow> 't \<Rightarrow> 't" where
  "ok_tuple e term = enif_make_tuple e [enif_make_atom e ''ok'', term]"

definition ok_tuple2 :: "'t enif \<Rightarrow> 't \<Rightarrow> 't \<Rightarrow> 't" where
  "ok_tuple2 e term1 term2 = enif_make_tuple e [enif_make_atom e ''ok'', term1, term2]"

definition error_tuple :: "'t enif \<Rightarrow> 't \<Rightarrow> 't" where
  "error_tuple e term = enif_make_tuple e [enif_make_atom e ''error'', term]"

definition error_nif :: "'t enif \<Rightarrow> string \<Rightarrow> 't" where
  "error_nif e reason = error_tuple e (enif_make_string e reason)"

text \<open>Allocates \<open>sz\<close> bytes and copies as many from \<open>dataPtr\<close>; the copy overwrites the whole binary.\<close>

definition make_output_binary :: "'t enif \<Rightarrow> bytes \<Rightarrow> int \<Rightarrow> 't option" where
  "make_output_binary e dataPtr sz = do {
     outputTermDataPtr \<leftarrow> new_buffer e sz;
     bs \<leftarrow> rd dataPtr 0 (nat sz);
     outputTermDataPtr \<leftarrow> wr outputTermDataPtr 0 bs;
     Some (enif_make_binary e outputTermDataPtr) }"

text \<open>\<open>memcmp\<close>: the sign of the first difference, bytes read as unsigned.\<close>

fun memcmp :: "bytes \<Rightarrow> bytes \<Rightarrow> nat \<Rightarrow> int option" where
  "memcmp a b 0 = Some 0"
| "memcmp (x # a) (y # b) (Suc n) = (if x = y then memcmp a b n else Some (if x < y then -1 else 1))"
| "memcmp _ _ (Suc n) = None"

definition validate_hash :: "bytes \<Rightarrow> bytes \<Rightarrow> int option" where
  "validate_hash hash difficulty = memcmp hash difficulty 32"

section \<open>Lemmas\<close>

lemma make_output_binary_nat:
  assumes "fresh_lengths e" "n \<le> length dat"
  shows "make_output_binary e dat (int n) = Some (enif_make_binary e (take n dat))"
  using assms rd_nat [of 0 n dat] wr_nat [of 0 "take n dat" "fresh_bytes e n"]
  by (simp add: make_output_binary_def fresh_lengths_def)

lemma make_output_binary_negative: "sz < 0 \<Longrightarrow> make_output_binary e dat sz = None"
  by (simp add: make_output_binary_def new_buffer_def)

lemma make_output_binary_beyond: "int (length dat) < sz \<Longrightarrow> make_output_binary e dat sz = None"
  using rd_None_beyond [of dat "nat sz" 0] by (simp add: make_output_binary_def new_buffer_def)

text \<open>\<open>memcmp\<close> compares two equally long byte strings as big-endian numbers.\<close>

lemma memcmp_be_val:
  assumes "length a = n" "length b = n"
  shows "memcmp a b n = Some (if be_val a = be_val b then 0 else if be_val a < be_val b then -1 else 1)"
  using assms
proof (induction a b n rule: memcmp.induct)
  case (2 x a y b n)
  have l: "length a = n" "length b = n" using 2 by simp_all
  have bd: "be_val a < 256 ^ n" "be_val b < 256 ^ n"
    using be_val_bound [of a] be_val_bound [of b] l by simp_all
  have lt: "be_val (u # p) < be_val (v # q)" if "u < v" "length p = n" "length q = n" "be_val p < 256 ^ n" for u v p q
  proof -
    have "Suc (unat u) \<le> unat v" using that(1) by (simp add: word_less_nat_alt)
    then have "Suc (unat u) * 256 ^ n \<le> unat v * 256 ^ n" by (rule mult_le_mono1)
    moreover have "be_val (u # p) = unat u * 256 ^ n + be_val p" "be_val (v # q) = unat v * 256 ^ n + be_val q"
      using that(2,3) by (simp_all add: be_val_Cons)
    ultimately show ?thesis using that(4) by simp
  qed
  show ?case
  proof (cases "x = y")
    case True
    have "be_val (y # a) = unat y * 256 ^ n + be_val a" "be_val (y # b) = unat y * 256 ^ n + be_val b"
      using l by (simp_all add: be_val_Cons)
    then show ?thesis using True 2 l by simp
  next
    case False
    then consider "x < y" | "y < x" by (meson linorder_neqE)
    then show ?thesis
    proof cases
      case 1
      then show ?thesis using False lt [OF 1 l bd(1)] by simp
    next
      case b: 2
      then show ?thesis using False lt [OF b l(2,1) bd(2)] by (auto simp: not_less_iff_gr_or_eq)
    qed
  qed
qed (auto)

lemma validate_hash_be_val:
  assumes "length hash = 32" "length difficulty = 32"
  shows "\<exists>r. validate_hash hash difficulty = Some r \<and> (r > 0 \<longleftrightarrow> be_val difficulty < be_val hash)"
  using memcmp_be_val [OF assms] by (auto simp: validate_hash_def)

end
