(* ===== verification/Feistel.thy ===== *)
theory Feistel
  imports Prelude
begin

text \<open>
  The Feistel cipher that packs chunks (\<open>feistel_msgsize_key_cipher.cpp\<close>): the two-round block
  cipher on 64-byte blocks, and the chained encryption and decryption of a whole message, which
  walk pointers over the plaintext, key and ciphertext buffers. SHA-256 (OpenSSL) is the parameter
  \<open>sha256\<close>; a digest has 32 bytes by its type.
\<close>

section \<open>The block cipher\<close>

definition FEISTEL_BLOCK_LENGTH :: nat where
  "FEISTEL_BLOCK_LENGTH = 32"

declare FEISTEL_BLOCK_LENGTH_def [simp]

definition feistel_hash :: "hash_fn \<Rightarrow> bytes \<Rightarrow> bytes \<Rightarrow> bytes" where
  "feistel_hash sha256 in_r in_k = digest (sha256 (take 32 in_r @ take 32 in_k))"

lemma length_feistel_hash [simp, len_simps]: "length (feistel_hash sha256 r k) = 32"
  by (simp add: feistel_hash_def)

definition feistel_encrypt_block ::
  "hash_fn \<Rightarrow> bytes \<Rightarrow> bytes \<Rightarrow> bytes \<Rightarrow> bytes \<times> bytes" where
  "feistel_encrypt_block sha256 in_left in_right in_key =
     (let key_hash = feistel_hash sha256 in_right in_key;
          right = xor_bytes in_left key_hash;
          left = in_right;
          key = drop FEISTEL_BLOCK_LENGTH in_key;
          key_hash = feistel_hash sha256 right key;
          out_right = xor_bytes left key_hash;
          out_left = right
      in (out_left, out_right))"

definition feistel_decrypt_block ::
  "hash_fn \<Rightarrow> bytes \<Rightarrow> bytes \<Rightarrow> bytes \<Rightarrow> bytes \<times> bytes" where
  "feistel_decrypt_block sha256 in_left in_right in_key =
     (let key_hash = feistel_hash sha256 in_left (drop FEISTEL_BLOCK_LENGTH in_key);
          left = xor_bytes in_right key_hash;
          right = in_left;
          key_hash = feistel_hash sha256 left in_key;
          out_left = xor_bytes right key_hash;
          out_right = left
      in (out_left, out_right))"

section \<open>The chained message cipher\<close>

text \<open>
  The loop of \<open>feistel_encrypt\<close>: \<open>n\<close> iterations remain, \<open>inp\<close>, \<open>out\<close> and \<open>key\<close> are the three
  pointers, as offsets into the plaintext, ciphertext and key buffers.
\<close>

fun feistel_encrypt_loop ::
  "hash_fn \<Rightarrow> bytes \<Rightarrow> bytes \<Rightarrow> nat \<Rightarrow> int \<Rightarrow> int \<Rightarrow> int \<Rightarrow> bytes \<Rightarrow> bytes option" where
  "feistel_encrypt_loop sha256 plaintext in_key 0 inp out key ciphertext = Some ciphertext"
| "feistel_encrypt_loop sha256 plaintext in_key (Suc n) inp out key ciphertext = do {
     kb \<leftarrow> rd in_key key (2 * FEISTEL_BLOCK_LENGTH);
     ob \<leftarrow> rd ciphertext out (2 * FEISTEL_BLOCK_LENGTH);
     let feed_key = xor_bytes kb ob;
     let out = out + 64;
     l \<leftarrow> rd plaintext inp FEISTEL_BLOCK_LENGTH;
     r \<leftarrow> rd plaintext (inp + 32) FEISTEL_BLOCK_LENGTH;
     let (ol, orr) = feistel_encrypt_block sha256 l r feed_key;
     c1 \<leftarrow> wr ciphertext out ol;
     c2 \<leftarrow> wr c1 (out + 32) orr;
     feistel_encrypt_loop sha256 plaintext in_key n (inp + 64) out (key + 64) c2 }"

definition feistel_encrypt :: "hash_fn \<Rightarrow> bytes \<Rightarrow> nat \<Rightarrow> bytes \<Rightarrow> bytes \<Rightarrow> bytes option" where
  "feistel_encrypt sha256 plaintext plaintext_len in_key ciphertext = do {
     let block_count = plaintext_len div (2 * FEISTEL_BLOCK_LENGTH);
     l \<leftarrow> rd plaintext 0 FEISTEL_BLOCK_LENGTH;
     r \<leftarrow> rd plaintext 32 FEISTEL_BLOCK_LENGTH;
     kb \<leftarrow> rd in_key 0 (2 * FEISTEL_BLOCK_LENGTH);
     let (ol, orr) = feistel_encrypt_block sha256 l r kb;
     c1 \<leftarrow> wr ciphertext 0 ol;
     c2 \<leftarrow> wr c1 32 orr;
     feistel_encrypt_loop sha256 plaintext in_key (block_count - 1) 64 0 64 c2 }"

text \<open>
  The loop of \<open>feistel_decrypt\<close> runs backwards; the three pointers of the code always hold the
  same offset, and the previous ciphertext block is read at a negative offset from \<open>in\<close>. The
  result is the plaintext buffer and the final offset.
\<close>

fun feistel_decrypt_loop ::
  "hash_fn \<Rightarrow> bytes \<Rightarrow> bytes \<Rightarrow> nat \<Rightarrow> int \<Rightarrow> bytes \<Rightarrow> (int \<times> bytes) option" where
  "feistel_decrypt_loop sha256 ciphertext in_key 0 pos plaintext = Some (pos, plaintext)"
| "feistel_decrypt_loop sha256 ciphertext in_key (Suc n) pos plaintext = do {
     kb \<leftarrow> rd in_key pos (2 * FEISTEL_BLOCK_LENGTH);
     pb \<leftarrow> rd ciphertext (pos - 64) (2 * FEISTEL_BLOCK_LENGTH);
     let feed_key = xor_bytes kb pb;
     l \<leftarrow> rd ciphertext pos FEISTEL_BLOCK_LENGTH;
     r \<leftarrow> rd ciphertext (pos + 32) FEISTEL_BLOCK_LENGTH;
     let (ol, orr) = feistel_decrypt_block sha256 l r feed_key;
     p1 \<leftarrow> wr plaintext pos ol;
     p2 \<leftarrow> wr p1 (pos + 32) orr;
     feistel_decrypt_loop sha256 ciphertext in_key n (pos - 64) p2 }"

text \<open>The loop bound \<open>block_count-1\<close> is computed in \<open>size_t\<close>: it wraps for an empty message.\<close>

definition feistel_decrypt :: "hash_fn \<Rightarrow> bytes \<Rightarrow> nat \<Rightarrow> bytes \<Rightarrow> bytes \<Rightarrow> bytes option" where
  "feistel_decrypt sha256 ciphertext ciphertext_len in_key plaintext = do {
     let block_count = ciphertext_len div (2 * FEISTEL_BLOCK_LENGTH);
     let bound = unat (of_nat block_count - 1 :: 64 word);
     (pos, p) \<leftarrow> feistel_decrypt_loop sha256 ciphertext in_key bound (int ciphertext_len - 64) plaintext;
     l \<leftarrow> rd ciphertext pos FEISTEL_BLOCK_LENGTH;
     r \<leftarrow> rd ciphertext (pos + 32) FEISTEL_BLOCK_LENGTH;
     kb \<leftarrow> rd in_key pos (2 * FEISTEL_BLOCK_LENGTH);
     let (ol, orr) = feistel_decrypt_block sha256 l r kb;
     p1 \<leftarrow> wr p pos ol;
     wr p1 (pos + 32) orr }"


section \<open>The abstract cipher: chaining over blocks\<close>

text \<open>
  What the two loops compute, said without buffers and pointers: block \<open>i\<close> is encrypted under
  the key block \<open>i\<close> xored with the ciphertext block \<open>i - 1\<close> (zeros for the first block).
\<close>

fun cbc_encrypt :: "(bytes \<Rightarrow> bytes \<Rightarrow> bytes) \<Rightarrow> nat \<Rightarrow> bytes \<Rightarrow> bytes \<Rightarrow> bytes \<Rightarrow> bytes" where
  "cbc_encrypt enc 0 feed pt key = []"
| "cbc_encrypt enc (Suc n) feed pt key =
     (let c = enc (take 64 pt) (xor_bytes (take 64 key) feed)
      in c @ cbc_encrypt enc n c (drop 64 pt) (drop 64 key))"

fun cbc_decrypt :: "(bytes \<Rightarrow> bytes \<Rightarrow> bytes) \<Rightarrow> nat \<Rightarrow> bytes \<Rightarrow> bytes \<Rightarrow> bytes \<Rightarrow> bytes" where
  "cbc_decrypt dec 0 feed ct key = []"
| "cbc_decrypt dec (Suc n) feed ct key =
     dec (take 64 ct) (xor_bytes (take 64 key) feed) @
     cbc_decrypt dec n (take 64 ct) (drop 64 ct) (drop 64 key)"

text \<open>The contract of a block cipher on 64-byte blocks and 64-byte keys.\<close>

locale block_cipher =
  fixes enc dec :: "bytes \<Rightarrow> bytes \<Rightarrow> bytes"
  assumes length_enc: "length b = 64 \<Longrightarrow> length (enc b k) = 64"
    and length_dec: "length b = 64 \<Longrightarrow> length (dec b k) = 64"
    and dec_enc: "length b = 64 \<Longrightarrow> dec (enc b k) k = b"
    and enc_dec: "length b = 64 \<Longrightarrow> enc (dec b k) k = b"
begin

lemma length_cbc_encrypt:
  "64 * n \<le> length pt \<Longrightarrow> length (cbc_encrypt enc n feed pt key) = 64 * n"
proof (induction n arbitrary: feed pt key)
  case (Suc n)
  then show ?case by (simp add: Let_def length_enc)
qed simp

lemma length_cbc_decrypt:
  "64 * n \<le> length ct \<Longrightarrow> length (cbc_decrypt dec n feed ct key) = 64 * n"
proof (induction n arbitrary: feed ct key)
  case (Suc n)
  then show ?case by (simp add: length_dec)
qed simp

lemma cbc_decrypt_encrypt:
  "64 * n \<le> length pt \<Longrightarrow>
   cbc_decrypt dec n feed (cbc_encrypt enc n feed pt key @ rest) key = take (64 * n) pt"
proof (induction n arbitrary: feed pt key)
  case (Suc n)
  let ?k = "xor_bytes (take 64 key) feed"
  let ?c = "enc (take 64 pt) ?k"
  have c: "length ?c = 64" "dec ?c ?k = take 64 pt"
    using Suc.prems by (simp_all add: length_enc dec_enc)
  have "64 * n \<le> length (drop 64 pt)" using Suc.prems by simp
  from Suc.IH [OF this, of ?c "drop 64 key"] show ?case
    using c by (simp add: Let_def take_add)
qed simp

lemma cbc_encrypt_decrypt:
  "64 * n \<le> length ct \<Longrightarrow>
   cbc_encrypt enc n feed (cbc_decrypt dec n feed ct key @ rest) key = take (64 * n) ct"
proof (induction n arbitrary: feed ct key)
  case (Suc n)
  let ?k = "xor_bytes (take 64 key) feed"
  let ?p = "dec (take 64 ct) ?k"
  have p: "length ?p = 64" "enc ?p ?k = take 64 ct"
    using Suc.prems by (simp_all add: length_dec enc_dec)
  have "64 * n \<le> length (drop 64 ct)" using Suc.prems by simp
  from Suc.IH [OF this, of "take 64 ct" "drop 64 key"] show ?case
    using p by (simp add: Let_def take_add)
qed simp

end

text \<open>The Feistel block operations as functions of a 64-byte block.\<close>

definition enc64 :: "hash_fn \<Rightarrow> bytes \<Rightarrow> bytes \<Rightarrow> bytes" where
  "enc64 sha256 b k =
     (case feistel_encrypt_block sha256 (take 32 b) (drop 32 b) k of (l, r) \<Rightarrow> l @ r)"

definition dec64 :: "hash_fn \<Rightarrow> bytes \<Rightarrow> bytes \<Rightarrow> bytes" where
  "dec64 sha256 b k =
     (case feistel_decrypt_block sha256 (take 32 b) (drop 32 b) k of (l, r) \<Rightarrow> l @ r)"

lemma feistel_encrypt_block_length:
  "length l = 32 \<Longrightarrow> length r = 32 \<Longrightarrow> feistel_encrypt_block sha256 l r k = (ol, orr) \<Longrightarrow>
   length ol = 32 \<and> length orr = 32"
  by (auto simp: feistel_encrypt_block_def Let_def)

lemma feistel_decrypt_block_length:
  "length l = 32 \<Longrightarrow> length r = 32 \<Longrightarrow> feistel_decrypt_block sha256 l r k = (ol, orr) \<Longrightarrow>
   length ol = 32 \<and> length orr = 32"
  by (auto simp: feistel_decrypt_block_def Let_def)

lemma feistel_block_inverse:
  assumes "length l = 32" "length r = 32"
  shows "case feistel_encrypt_block sha256 l r k of (ol, orr) \<Rightarrow>
           feistel_decrypt_block sha256 ol orr k = (l, r)"
    and "case feistel_decrypt_block sha256 l r k of (ol, orr) \<Rightarrow>
           feistel_encrypt_block sha256 ol orr k = (l, r)"
  using assms by (simp_all add: feistel_encrypt_block_def feistel_decrypt_block_def Let_def)

interpretation feistel: block_cipher "enc64 sha256" "dec64 sha256" for sha256
proof unfold_locales
  fix b k :: bytes assume b: "length b = 64"
  then have lr: "length (take 32 b) = 32" "length (drop 32 b) = 32" by simp_all
  obtain el er where e: "feistel_encrypt_block sha256 (take 32 b) (drop 32 b) k = (el, er)"
    by fastforce
  obtain dl dr where d: "feistel_decrypt_block sha256 (take 32 b) (drop 32 b) k = (dl, dr)"
    by fastforce
  note inv = feistel_block_inverse [OF lr, of sha256 k]
  note len = feistel_encrypt_block_length [OF lr e] feistel_decrypt_block_length [OF lr d]
  show "length (enc64 sha256 b k) = 64" using len by (simp add: enc64_def e)
  show "length (dec64 sha256 b k) = 64" using len by (simp add: dec64_def d)
  show "dec64 sha256 (enc64 sha256 b k) k = b"
    using inv(1) len by (simp add: enc64_def dec64_def e)
  show "enc64 sha256 (dec64 sha256 b k) k = b"
    using inv(2) len by (simp add: enc64_def dec64_def d)
qed

section \<open>The pointer loops compute the chained cipher\<close>

lemma wr_block:
  assumes "length a = 32" "length b = 32" "o64 + 64 \<le> length buf"
  shows "(wr buf (int o64) a \<bind> (\<lambda>c. wr c (int o64 + 32) b)) =
         Some (take o64 buf @ (a @ b) @ drop (o64 + 64) buf)"
proof -
  have m: "min (length buf) o64 = o64" using assms by simp
  have w1: "wr buf (int o64) a = Some (take o64 buf @ a @ drop (o64 + 32) buf)"
    using assms by (simp add: wr_nat)
  have "wr (take o64 buf @ a @ drop (o64 + 32) buf) (int (o64 + 32)) b =
        Some (take o64 buf @ (a @ b) @ drop (o64 + 64) buf)"
    by (subst wr_nat) (use assms m in \<open>simp_all add: add.commute [of 64 o64]\<close>)
  then show ?thesis by (simp add: w1)
qed

lemma rd_halves:
  assumes "o64 + 64 \<le> length buf"
  shows "rd buf (int o64) 32 = Some (take 32 (take 64 (drop o64 buf)))"
    and "rd buf (int o64 + 32) 32 = Some (drop 32 (take 64 (drop o64 buf)))"
    and "rd buf (int o64) 64 = Some (take 64 (drop o64 buf))"
proof -
  have "rd buf (int (o64 + 32)) 32 = Some (take 32 (drop (o64 + 32) buf))"
    using assms by (subst rd_nat) auto
  then show "rd buf (int o64 + 32) 32 = Some (drop 32 (take 64 (drop o64 buf)))"
    by (simp add: drop_take ac_simps)
qed (use assms in \<open>simp_all add: rd_nat\<close>)

text \<open>One block step of either direction: read a block, transform it, write it back.\<close>

lemma enc_block_step:
  assumes "inp + 64 \<le> length pt" "out + 64 \<le> length ct"
  shows "do { l \<leftarrow> rd pt (int inp) 32; r \<leftarrow> rd pt (int inp + 32) 32;
              let (ol, orr) = feistel_encrypt_block sha256 l r k;
              c1 \<leftarrow> wr ct (int out) ol; c2 \<leftarrow> wr c1 (int out + 32) orr; f c2 } =
         f (take out ct @ enc64 sha256 (take 64 (drop inp pt)) k @ drop (out + 64) ct)"
proof -
  let ?b = "take 64 (drop inp pt)"
  have lr: "length (take 32 ?b) = 32" "length (drop 32 ?b) = 32" using assms by auto
  obtain ol orr where e: "feistel_encrypt_block sha256 (take 32 ?b) (drop 32 ?b) k = (ol, orr)"
    by fastforce
  have "(wr ct (int out) ol \<bind> (\<lambda>c1. wr c1 (int out + 32) orr \<bind> f)) =
        ((wr ct (int out) ol \<bind> (\<lambda>c1. wr c1 (int out + 32) orr)) \<bind> f)"
    by (cases "wr ct (int out) ol") simp_all
  also have "\<dots> = f (take out ct @ (ol @ orr) @ drop (out + 64) ct)"
    using feistel_encrypt_block_length [OF lr e] assms by (subst wr_block) auto
  finally show ?thesis
    using assms e by (simp add: rd_halves [OF assms(1)] enc64_def)
qed

lemma dec_block_step:
  assumes "pos + 64 \<le> length ct" "pos + 64 \<le> length pt"
  shows "do { l \<leftarrow> rd ct (int pos) 32; r \<leftarrow> rd ct (int pos + 32) 32;
              let (ol, orr) = feistel_decrypt_block sha256 l r k;
              c1 \<leftarrow> wr pt (int pos) ol; c2 \<leftarrow> wr c1 (int pos + 32) orr; f c2 } =
         f (take pos pt @ dec64 sha256 (take 64 (drop pos ct)) k @ drop (pos + 64) pt)"
proof -
  let ?b = "take 64 (drop pos ct)"
  have lr: "length (take 32 ?b) = 32" "length (drop 32 ?b) = 32" using assms by auto
  obtain ol orr where e: "feistel_decrypt_block sha256 (take 32 ?b) (drop 32 ?b) k = (ol, orr)"
    by fastforce
  have "(wr pt (int pos) ol \<bind> (\<lambda>c1. wr c1 (int pos + 32) orr \<bind> f)) =
        ((wr pt (int pos) ol \<bind> (\<lambda>c1. wr c1 (int pos + 32) orr)) \<bind> f)"
    by (cases "wr pt (int pos) ol") simp_all
  also have "\<dots> = f (take pos pt @ (ol @ orr) @ drop (pos + 64) pt)"
    using feistel_decrypt_block_length [OF lr e] assms by (subst wr_block) auto
  finally show ?thesis
    using assms e by (simp add: rd_halves [OF assms(1)] dec64_def)
qed


lemma feistel_encrypt_loop_cbc:
  assumes "out + 64 + 64 * n \<le> length pt" "out + 64 + 64 * n \<le> length key"
    and "out + 64 + 64 * n \<le> length ct"
  shows "feistel_encrypt_loop sha256 pt key n (int out + 64) (int out) (int out + 64) ct =
         Some (take (out + 64) ct @
               cbc_encrypt (enc64 sha256) n (take 64 (drop out ct))
                 (drop (out + 64) pt) (drop (out + 64) key) @
               drop (out + 64 + 64 * n) ct)"
  using assms
proof (induction n arbitrary: out ct)
  case (Suc n)
  let ?k = "xor_bytes (take 64 (drop (out + 64) key)) (take 64 (drop out ct))"
  let ?e = "enc64 sha256 (take 64 (drop (out + 64) pt)) ?k"
  let ?ct = "take (out + 64) ct @ ?e @ drop (out + 64 + 64) ct"
  have len_e: "length ?e = 64" using Suc.prems by (intro feistel.length_enc) simp
  have len: "length ?ct = length ct" using Suc.prems len_e by simp
  have "feistel_encrypt_loop sha256 pt key (Suc n) (int out + 64) (int out) (int out + 64) ct =
        feistel_encrypt_loop sha256 pt key n (int (out + 64) + 64) (int (out + 64)) (int (out + 64) + 64) ?ct"
    using Suc.prems enc_block_step [of "out + 64" pt "out + 64" ct sha256 ?k]
      rd_halves(3) [of "out + 64" key] rd_halves(3) [of out ct]
    by (simp add: Let_def add.commute add.left_commute)
  also have "\<dots> = Some (take (out + 64 + 64) ?ct @
      cbc_encrypt (enc64 sha256) n (take 64 (drop (out + 64) ?ct))
        (drop (out + 64 + 64) pt) (drop (out + 64 + 64) key) @
      drop (out + 64 + 64 + 64 * n) ?ct)"
    by (rule Suc.IH) (use Suc.prems len in simp_all)
  also have "take 64 (drop (out + 64) ?ct) = ?e"
    using Suc.prems len_e by simp
  also have "take (out + 64 + 64) ?ct = take (out + 64) ct @ ?e"
    using Suc.prems len_e by simp
  also have "drop (out + 64 + 64 + 64 * n) ?ct = drop (out + 64 + 64 * Suc n) ct"
    using Suc.prems len_e by (simp add: ac_simps)
  finally show ?case by (simp add: Let_def)
qed simp


lemma feistel_encrypt_cbc:
  assumes "64 * Suc n \<le> length pt" "64 * Suc n \<le> length key" "64 * Suc n \<le> length ct"
  shows "feistel_encrypt sha256 pt (64 * Suc n) key ct =
         Some (cbc_encrypt (enc64 sha256) (Suc n) (replicate 64 0) pt key @ drop (64 * Suc n) ct)"
proof -
  let ?e = "enc64 sha256 (take 64 pt) (take 64 key)"
  let ?ct = "?e @ drop 64 ct"
  have len_e: "length ?e = 64" using assms by (intro feistel.length_enc) simp
  have len: "length ?ct = length ct" using assms len_e by simp
  have "feistel_encrypt sha256 pt (64 * Suc n) key ct =
        feistel_encrypt_loop sha256 pt key n 64 0 64 ?ct"
    using assms enc_block_step [of 0 pt 0 ct sha256 "take 64 key"] rd_halves(3) [of 0 key]
    by (simp add: feistel_encrypt_def Let_def)
  also have "\<dots> = Some (take 64 ?ct @
      cbc_encrypt (enc64 sha256) n (take 64 ?ct) (drop 64 pt) (drop 64 key) @
      drop (64 + 64 * n) ?ct)"
    using feistel_encrypt_loop_cbc [of 0 n pt key ?ct sha256] assms len by simp
  finally show ?thesis using len_e by (simp add: Let_def add.commute [of "64 * n"])
qed

lemma cbc_decrypt_snoc:
  assumes "o64 + 64 + 64 * n \<le> length ct"
  shows "cbc_decrypt dec (Suc n) (take 64 (drop o64 ct)) (drop (o64 + 64) ct) (drop (o64 + 64) key) =
         cbc_decrypt dec n (take 64 (drop o64 ct)) (drop (o64 + 64) ct) (drop (o64 + 64) key) @
         dec (take 64 (drop (o64 + 64 + 64 * n) ct))
           (xor_bytes (take 64 (drop (o64 + 64 + 64 * n) key)) (take 64 (drop (o64 + 64 * n) ct)))"
  using assms
proof (induction n arbitrary: o64)
  case (Suc n)
  have "o64 + 64 + 64 + 64 * n \<le> length ct" using Suc.prems by simp
  from Suc.IH [OF this] show ?case
    by (simp add: ac_simps)
qed simp

lemma feistel_decrypt_loop_cbc:
  assumes "pos + 64 + 64 * n \<le> length ct" "pos + 64 + 64 * n \<le> length key"
    and "pos + 64 + 64 * n \<le> length pt"
  shows "feistel_decrypt_loop sha256 ct key n (int (pos + 64 * n)) pt =
         Some (int pos, take (pos + 64) pt @
               cbc_decrypt (dec64 sha256) n (take 64 (drop pos ct))
                 (drop (pos + 64) ct) (drop (pos + 64) key) @
               drop (pos + 64 + 64 * n) pt)"
  using assms
proof (induction n arbitrary: pt)
  case (Suc n)
  let ?p = "pos + 64 + 64 * n"
  let ?k = "xor_bytes (take 64 (drop ?p key)) (take 64 (drop (pos + 64 * n) ct))"
  let ?d = "dec64 sha256 (take 64 (drop ?p ct)) ?k"
  let ?pt = "take ?p pt @ ?d @ drop (?p + 64) pt"
  have len_d: "length ?d = 64" using Suc.prems by (intro feistel.length_dec) simp
  have len: "length ?pt = length pt" using Suc.prems len_d by simp
  have p: "int (pos + 64 * Suc n) = int ?p" "int ?p - 64 = int (pos + 64 * n)" by simp_all
  have "feistel_decrypt_loop sha256 ct key (Suc n) (int (pos + 64 * Suc n)) pt =
        feistel_decrypt_loop sha256 ct key n (int (pos + 64 * n)) ?pt"
    using Suc.prems dec_block_step [of ?p ct pt sha256 ?k]
      rd_halves(3) [of ?p key] rd_halves(3) [of "pos + 64 * n" ct]
    unfolding p feistel_decrypt_loop.simps by (simp add: Let_def)
  also have "\<dots> = Some (int pos, take (pos + 64) ?pt @
      cbc_decrypt (dec64 sha256) n (take 64 (drop pos ct)) (drop (pos + 64) ct) (drop (pos + 64) key) @
      drop ?p ?pt)"
    by (rule Suc.IH) (use Suc.prems len in simp_all)
  also have "take (pos + 64) ?pt = take (pos + 64) pt"
    using Suc.prems by (simp add: min_def)
  also have "drop ?p ?pt = ?d @ drop (?p + 64) pt"
    using Suc.prems by simp
  finally show ?case
    using cbc_decrypt_snoc [of pos n ct "dec64 sha256" key] Suc.prems by (simp add: ac_simps)
qed simp

lemma feistel_decrypt_cbc:
  assumes "64 * Suc n \<le> length ct" "64 * Suc n \<le> length key" "64 * Suc n \<le> length pt"
    and "64 * Suc n < 2 ^ 64"
  shows "feistel_decrypt sha256 ct (64 * Suc n) key pt =
         Some (cbc_decrypt (dec64 sha256) (Suc n) (replicate 64 0) ct key @ drop (64 * Suc n) pt)"
proof -
  let ?l = "cbc_decrypt (dec64 sha256) n (take 64 ct) (drop 64 ct) (drop 64 key)"
  let ?pt = "take 64 pt @ ?l @ drop (64 + 64 * n) pt"
  have b: "unat (of_nat (64 * Suc n div (2 * FEISTEL_BLOCK_LENGTH)) - 1 :: 64 word) = n"
    using assms(4) by (simp add: unat_of_nat take_bit_nat_eq_self)
  have "feistel_decrypt_loop sha256 ct key n (int (64 * Suc n) - 64) pt = Some (0, ?pt)"
    using feistel_decrypt_loop_cbc [of 0 n ct key pt sha256] assms by simp
  moreover have "length ?pt = length pt"
    using assms feistel.length_cbc_decrypt [of n "drop 64 ct"] by simp
  ultimately have "feistel_decrypt sha256 ct (64 * Suc n) key pt =
      Some (take 0 ?pt @ dec64 sha256 (take 64 (drop 0 ct)) (take 64 key) @ drop (0 + 64) ?pt)"
    using assms dec_block_step [of 0 ct ?pt sha256 "take 64 key" Some] rd_halves(3) [of 0 key] b
    by (simp add: feistel_decrypt_def Let_def)
  then show ?thesis using assms by simp
qed


lemma feistel_inverse:
  assumes "length pt = 64 * Suc n" "length pt \<le> length key" "length pt \<le> length ct"
    and "length pt \<le> length buf" "length pt < 2 ^ 64"
  shows "\<exists>c. feistel_encrypt sha256 pt (length pt) key ct = Some c \<and> length c = length ct \<and>
             feistel_decrypt sha256 c (length pt) key buf = Some (pt @ drop (length pt) buf)"
proof -
  let ?e = "cbc_encrypt (enc64 sha256) (Suc n) (replicate 64 0) pt key"
  let ?c = "?e @ drop (length pt) ct"
  have len: "length ?c = length ct"
    using assms feistel.length_cbc_encrypt [of "Suc n" pt] by (simp del: cbc_encrypt.simps)
  have "feistel_encrypt sha256 pt (length pt) key ct = Some ?c"
    using feistel_encrypt_cbc [of n pt key ct sha256] assms by simp
  moreover have "feistel_decrypt sha256 ?c (length pt) key buf = Some (pt @ drop (length pt) buf)"
    using feistel_decrypt_cbc [of n ?c key buf sha256] assms len
      feistel.cbc_decrypt_encrypt [of "Suc n" pt]
    by (simp del: cbc_encrypt.simps cbc_decrypt.simps)
  ultimately show ?thesis using len by blast
qed

section \<open>Properties\<close>

text \<open>
  Property C18: packing is invertible. For every hash function, every message of one or more whole
  64-byte blocks and every key at least as long, \<open>feistel_encrypt\<close> stays inside its buffers and
  \<open>feistel_decrypt\<close> of its output under the same key stores the message again.
\<close>

theorem feistel_decrypt_encrypt:
  assumes "length pt = 64 * Suc n" "length pt \<le> length key" "length pt \<le> length ct"
    and "length pt \<le> length buf" "length pt < 2 ^ 64"
  shows "\<exists>c. feistel_encrypt sha256 pt (length pt) key ct = Some c \<and> length c = length ct \<and>
             feistel_decrypt sha256 c (length pt) key buf = Some (pt @ drop (length pt) buf)"
  using assms by (rule feistel_inverse)

theorem feistel_decrypt_encrypt_witness:
  "\<exists>c. feistel_encrypt (\<lambda>bs. of_nat (be_val bs)) (replicate 128 7) 128 (replicate 128 3) (replicate 128 0) = Some c
     \<and> length c = 128 \<and>
       feistel_decrypt (\<lambda>bs. of_nat (be_val bs)) c 128 (replicate 128 3) (replicate 128 0) = Some (replicate 128 7)"
  using feistel_decrypt_encrypt [of "replicate 128 7" 1 "replicate 128 3" "replicate 128 0"
      "replicate 128 0" "\<lambda>bs. of_nat (be_val bs)"] by simp

text \<open>
  Property C38: unpacking is invertible too, so for a fixed key the cipher is a bijection on
  messages of whole blocks: encrypting what \<open>feistel_decrypt\<close> produced gives the ciphertext back.
\<close>

theorem feistel_encrypt_decrypt:
  assumes "length ct = 64 * Suc n" "length ct \<le> length key" "length ct \<le> length pt"
    and "length ct \<le> length buf" "length ct < 2 ^ 64"
  shows "\<exists>p. feistel_decrypt sha256 ct (length ct) key pt = Some p \<and> length p = length pt \<and>
             feistel_encrypt sha256 p (length ct) key buf = Some (ct @ drop (length ct) buf)"
proof -
  let ?d = "cbc_decrypt (dec64 sha256) (Suc n) (replicate 64 0) ct key"
  let ?p = "?d @ drop (length ct) pt"
  have len: "length ?p = length pt"
    using assms feistel.length_cbc_decrypt [of "Suc n" ct] by (simp del: cbc_decrypt.simps)
  have "feistel_decrypt sha256 ct (length ct) key pt = Some ?p"
    using feistel_decrypt_cbc [of n ct key pt sha256] assms by simp
  moreover have "feistel_encrypt sha256 ?p (length ct) key buf = Some (ct @ drop (length ct) buf)"
    using feistel_encrypt_cbc [of n ?p key buf sha256] assms len
      feistel.cbc_encrypt_decrypt [of "Suc n" ct]
    by (simp del: cbc_encrypt.simps cbc_decrypt.simps)
  ultimately show ?thesis using len by blast
qed

theorem feistel_encrypt_decrypt_witness:
  "\<exists>p. feistel_decrypt (\<lambda>bs. of_nat (be_val bs)) (replicate 64 9) 64 (replicate 64 3) (replicate 64 0) = Some p
     \<and> length p = 64 \<and>
       feistel_encrypt (\<lambda>bs. of_nat (be_val bs)) p 64 (replicate 64 3) (replicate 64 0) = Some (replicate 64 9)"
  using feistel_encrypt_decrypt [of "replicate 64 9" 0 "replicate 64 3" "replicate 64 0"
      "replicate 64 0" "\<lambda>bs. of_nat (be_val bs)"] by simp

text \<open>
  \<open>feistel_decrypt\<close> on a message shorter than one block has no defined result. Its
  bound \<open>block_count-1\<close> wraps to the largest \<open>size_t\<close> and its pointers start before their
  buffers, so the first access is already out of bounds.
\<close>

theorem feistel_decrypt_short_undefined:
  assumes "len < 64"
  shows "feistel_decrypt sha256 ct len key pt = None"
proof -
  have b: "unat (of_nat (len div (2 * FEISTEL_BLOCK_LENGTH)) - 1 :: 64 word) = Suc (2 ^ 64 - 2)"
    using assms by (simp add: unsigned_minus_1_eq_mask mask_eq_exp_minus_1)
  have n: "feistel_decrypt_loop sha256 ct key (Suc m) (int len - 64) pt = None" for m
    using assms by (simp add: rd_None_negative)
  show ?thesis unfolding feistel_decrypt_def Let_def b n by simp
qed

theorem feistel_decrypt_short_undefined_witness:
  "feistel_decrypt (\<lambda>_. 5) [] 0 (replicate 64 1) (replicate 64 0) = None"
  using feistel_decrypt_short_undefined [of 0] by simp

end
