(* ===== verification/Rx_Long.thy ===== *)
theory Rx_Long
  imports Feistel
begin

text \<open>
  The long RandomX hash with entropy (\<open>randomx_long_with_entropy.cpp\<close>). The RandomX virtual
  machine and Blake2b come from a git submodule, so the machine's methods are the parameter
  \<open>rx\<close>, a record of functions on an arbitrary machine core \<open>'m\<close>; a method that gets a
  pointer to a seed may change the seed, and returns it. A \<open>randomx_vm\<close> is its core and the
  \<open>tempHash\<close> member that the pipelined calls use. A failed \<open>assert\<close> is \<^term>\<open>None\<close>.
\<close>

definition RANDOMX_HASH_SIZE :: nat where
  "RANDOMX_HASH_SIZE = 32"

definition RANDOMX_ENTROPY_SIZE :: nat where
  "RANDOMX_ENTROPY_SIZE = 256 * 1024"

record 'm rx_machine =
  blake2b :: "bytes \<Rightarrow> int \<times> bytes"
  initScratchpad :: "bytes \<Rightarrow> 'm \<Rightarrow> bytes \<times> 'm"
  resetRoundingMode :: "'m \<Rightarrow> 'm"
  run :: "bytes \<Rightarrow> 'm \<Rightarrow> bytes \<times> 'm"
  getRegisterFile :: "'m \<Rightarrow> bytes"
  getFinalResult :: "'m \<Rightarrow> digest256 \<times> 'm"
  getScratchpad :: "'m \<Rightarrow> bytes"
  hashAndFill :: "bytes \<Rightarrow> 'm \<Rightarrow> digest256 \<times> bytes \<times> 'm"

record 'm randomx_vm =
  core :: 'm
  tempHash :: bytes

definition assert_that :: "bool \<Rightarrow> unit option" where
  "assert_that b = (if b then Some () else None)"

lemma assert_that_simps [simp]: "assert_that True = Some ()" "assert_that False = None"
  by (simp_all add: assert_that_def)

section \<open>The functions of the file\<close>

text \<open>The chain loop of the three stand-alone functions: \<open>n\<close> programs, each result re-hashed.\<close>

fun hash_chain :: "'m rx_machine \<Rightarrow> nat \<Rightarrow> bytes \<Rightarrow> 'm \<Rightarrow> (bytes \<times> 'm) option" where
  "hash_chain rx 0 th m = Some (th, m)"
| "hash_chain rx (Suc n) th m = do {
     let (th, m) = run rx th m;
     let (blakeResult, th) = blake2b rx (getRegisterFile rx m);
     assert_that (blakeResult = 0);
     hash_chain rx n th m }"

definition randomx_calculate_hash_long ::
  "'m rx_machine \<Rightarrow> 'm randomx_vm \<Rightarrow> bytes \<Rightarrow> int \<Rightarrow> (digest256 \<times> 'm randomx_vm) option" where
  "randomx_calculate_hash_long rx machine input randomxProgramCount = do {
     let (blakeResult, th) = blake2b rx input;
     assert_that (blakeResult = 0);
     let (th, m) = initScratchpad rx th (core machine);
     let m = resetRoundingMode rx m;
     (th, m) \<leftarrow> hash_chain rx (nat (randomxProgramCount - 1)) th m;
     let (th, m) = run rx th m;
     let (output, m) = getFinalResult rx m;
     Some (output, machine\<lparr>core := m\<rparr>) }"

definition randomx_calculate_hash_long_with_entropy ::
  "'m rx_machine \<Rightarrow> 'm randomx_vm \<Rightarrow> bytes \<Rightarrow> int \<Rightarrow> (digest256 \<times> bytes \<times> 'm randomx_vm) option" where
  "randomx_calculate_hash_long_with_entropy rx machine input randomxProgramCount = do {
     let (blakeResult, th) = blake2b rx input;
     assert_that (blakeResult = 0);
     let (th, m) = initScratchpad rx th (core machine);
     let m = resetRoundingMode rx m;
     (th, m) \<leftarrow> hash_chain rx (nat (randomxProgramCount - 1)) th m;
     let (th, m) = run rx th m;
     let (output, m) = getFinalResult rx m;
     let outputEntropy = take RANDOMX_ENTROPY_SIZE (getScratchpad rx m);
     Some (output, outputEntropy, machine\<lparr>core := m\<rparr>) }"

text \<open>Returns the machine's own scratchpad, not a copy.\<close>

definition randomx_calculate_hash_long_with_entropy_get_entropy ::
  "'m rx_machine \<Rightarrow> 'm randomx_vm \<Rightarrow> bytes \<Rightarrow> int \<Rightarrow> (bytes \<times> 'm randomx_vm) option" where
  "randomx_calculate_hash_long_with_entropy_get_entropy rx machine input randomxProgramCount = do {
     let (blakeResult, th) = blake2b rx input;
     assert_that (blakeResult = 0);
     let (th, m) = initScratchpad rx th (core machine);
     let m = resetRoundingMode rx m;
     (th, m) \<leftarrow> hash_chain rx (nat (randomxProgramCount - 1)) th m;
     let (th, m) = run rx th m;
     let (output, m) = getFinalResult rx m;
     Some (getScratchpad rx m, machine\<lparr>core := m\<rparr>) }"

definition randomx_calculate_hash_long_with_entropy_first ::
  "'m rx_machine \<Rightarrow> 'm randomx_vm \<Rightarrow> bytes \<Rightarrow> 'm randomx_vm" where
  "randomx_calculate_hash_long_with_entropy_first rx machine input =
     (let (_, th) = blake2b rx input;
          (th, m) = initScratchpad rx th (core machine)
      in \<lparr>core = m, tempHash = th\<rparr>)"

text \<open>The loop of the pipelined functions works on the \<open>tempHash\<close> member and asserts nothing.\<close>

fun pipeline_chain :: "'m rx_machine \<Rightarrow> nat \<Rightarrow> 'm randomx_vm \<Rightarrow> 'm randomx_vm" where
  "pipeline_chain rx 0 machine = machine"
| "pipeline_chain rx (Suc n) machine =
     (let (th, m) = run rx (tempHash machine) (core machine);
          (_, th) = blake2b rx (getRegisterFile rx m)
      in pipeline_chain rx n \<lparr>core = m, tempHash = th\<rparr>)"

definition randomx_calculate_hash_long_with_entropy_next ::
  "'m rx_machine \<Rightarrow> 'm randomx_vm \<Rightarrow> bytes \<Rightarrow> int \<Rightarrow> digest256 \<times> bytes \<times> 'm randomx_vm" where
  "randomx_calculate_hash_long_with_entropy_next rx machine nextInput randomxProgramCount =
     (let machine = machine\<lparr>core := resetRoundingMode rx (core machine)\<rparr>;
          machine = pipeline_chain rx (nat (randomxProgramCount - 1)) machine;
          (th, m) = run rx (tempHash machine) (core machine);
          (_, th) = blake2b rx nextInput;
          outputEntropy = take RANDOMX_ENTROPY_SIZE (getScratchpad rx m);
          (output, th, m) = hashAndFill rx th m
      in (output, outputEntropy, \<lparr>core = m, tempHash = th\<rparr>))"

definition randomx_calculate_hash_long_with_entropy_last ::
  "'m rx_machine \<Rightarrow> 'm randomx_vm \<Rightarrow> int \<Rightarrow> digest256 \<times> bytes \<times> 'm randomx_vm" where
  "randomx_calculate_hash_long_with_entropy_last rx machine randomxProgramCount =
     (let machine = machine\<lparr>core := resetRoundingMode rx (core machine)\<rparr>;
          machine = pipeline_chain rx (nat (randomxProgramCount - 1)) machine;
          (th, m) = run rx (tempHash machine) (core machine);
          (output, m) = getFinalResult rx m;
          outputEntropy = take RANDOMX_ENTROPY_SIZE (getScratchpad rx m)
      in (output, outputEntropy, \<lparr>core = m, tempHash = th\<rparr>))"

definition randomx_encrypt_chunk ::
  "hash_fn \<Rightarrow> 'm rx_machine \<Rightarrow> 'm randomx_vm \<Rightarrow> bytes \<Rightarrow> bytes \<Rightarrow> nat \<Rightarrow> bytes \<Rightarrow> int
   \<Rightarrow> (bytes \<times> 'm randomx_vm) option" where
  "randomx_encrypt_chunk sha256 rx machine input inChunk inChunkSize outChunk randomxProgramCount = do {
     assert_that (inChunkSize \<le> RANDOMX_ENTROPY_SIZE);
     assert_that (inChunkSize mod (2 * FEISTEL_BLOCK_LENGTH) = 0);
     (outputEntropy, machine) \<leftarrow>
       randomx_calculate_hash_long_with_entropy_get_entropy rx machine input randomxProgramCount;
     out \<leftarrow> feistel_encrypt sha256 inChunk inChunkSize outputEntropy outChunk;
     Some (out, machine) }"

definition randomx_decrypt_chunk ::
  "hash_fn \<Rightarrow> 'm rx_machine \<Rightarrow> 'm randomx_vm \<Rightarrow> bytes \<Rightarrow> bytes \<Rightarrow> nat \<Rightarrow> bytes \<Rightarrow> int
   \<Rightarrow> (bytes \<times> 'm randomx_vm) option" where
  "randomx_decrypt_chunk sha256 rx machine input inChunk inChunkSize outChunk randomxProgramCount = do {
     assert_that (inChunkSize \<le> RANDOMX_ENTROPY_SIZE);
     assert_that (inChunkSize mod (2 * FEISTEL_BLOCK_LENGTH) = 0);
     (outputEntropy, machine) \<leftarrow>
       randomx_calculate_hash_long_with_entropy_get_entropy rx machine input randomxProgramCount;
     out \<leftarrow> feistel_decrypt sha256 inChunk inChunkSize outputEntropy outChunk;
     Some (out, machine) }"

section \<open>What the code relies on from RandomX\<close>

text \<open>
  Documented behaviour of the submodule: Blake2b with a 64-byte output and no key succeeds,
  \<open>getFinalResult\<close> only reads the scratchpad, and \<open>hashAndFill\<close> does in one pass what
  \<open>getFinalResult\<close> followed by \<open>initScratchpad\<close> does.
\<close>

definition blake2b_succeeds :: "'m rx_machine \<Rightarrow> bool" where
  "blake2b_succeeds rx \<longleftrightarrow> (\<forall>bs. fst (blake2b rx bs) = 0)"

definition final_result_keeps_scratchpad :: "'m rx_machine \<Rightarrow> bool" where
  "final_result_keeps_scratchpad rx \<longleftrightarrow>
     (\<forall>m. getScratchpad rx (snd (getFinalResult rx m)) = getScratchpad rx m)"

definition hashAndFill_fused :: "'m rx_machine \<Rightarrow> bool" where
  "hashAndFill_fused rx \<longleftrightarrow>
     (\<forall>th m. hashAndFill rx th m =
        (fst (getFinalResult rx m), initScratchpad rx th (snd (getFinalResult rx m))))"

text \<open>
  RandomX computes a function of the dataset and the input. For the methods of a machine this means the following, for
  the machines over one dataset, which \<open>D\<close> singles out, whatever their flags and whatever ran on them before.
  \<open>initScratchpad\<close> fills the whole scratchpad from the seed, so afterwards two machines agree in their scratchpads
  (\<open>pad\<close>); \<open>resetRoundingMode\<close> then makes them agree in all that a program reads (\<open>same\<close>); two machines that agree and
  run the program of the same seed agree again, and in the register file and the final result; \<open>getFinalResult\<close> changes
  both in the same way. Before the scratchpad is filled or while the rounding mode is left from an earlier
  program nothing is said.
\<close>

definition programs_deterministic ::
  "'m rx_machine \<Rightarrow> ('m \<Rightarrow> bool) \<Rightarrow> ('m \<Rightarrow> 'm \<Rightarrow> bool) \<Rightarrow> ('m \<Rightarrow> 'm \<Rightarrow> bool) \<Rightarrow> bool" where
  "programs_deterministic rx D pad same \<longleftrightarrow>
     (\<forall>th m1 m2. D m1 \<longrightarrow> D m2 \<longrightarrow>
        fst (initScratchpad rx th m1) = fst (initScratchpad rx th m2) \<and>
        pad (snd (initScratchpad rx th m1)) (snd (initScratchpad rx th m2))) \<and>
     (\<forall>m1 m2. pad m1 m2 \<longrightarrow> same (resetRoundingMode rx m1) (resetRoundingMode rx m2)) \<and>
     (\<forall>th m1 m2. same m1 m2 \<longrightarrow>
        fst (run rx th m1) = fst (run rx th m2) \<and> same (snd (run rx th m1)) (snd (run rx th m2)) \<and>
        getRegisterFile rx (snd (run rx th m1)) = getRegisterFile rx (snd (run rx th m2)) \<and>
        fst (getFinalResult rx (snd (run rx th m1))) = fst (getFinalResult rx (snd (run rx th m2)))) \<and>
     (\<forall>m1 m2. same m1 m2 \<longrightarrow>
        same (snd (getFinalResult rx m1)) (snd (getFinalResult rx m2)) \<and> getScratchpad rx m1 = getScratchpad rx m2)"

text \<open>No method exchanges the dataset of a machine.\<close>

definition methods_keep_dataset :: "'m rx_machine \<Rightarrow> ('m \<Rightarrow> bool) \<Rightarrow> bool" where
  "methods_keep_dataset rx D \<longleftrightarrow>
     (\<forall>th m. D m \<longrightarrow> D (snd (initScratchpad rx th m))) \<and> (\<forall>m. D m \<longrightarrow> D (resetRoundingMode rx m)) \<and>
     (\<forall>th m. D m \<longrightarrow> D (snd (run rx th m))) \<and> (\<forall>m. D m \<longrightarrow> D (snd (getFinalResult rx m)))"

definition scratchpad_holds_entropy :: "'m rx_machine \<Rightarrow> bool" where
  "scratchpad_holds_entropy rx \<longleftrightarrow> (\<forall>m. RANDOMX_ENTROPY_SIZE \<le> length (getScratchpad rx m))"

section \<open>The stand-alone functions agree\<close>

lemma hash_long_defs_agree:
  "randomx_calculate_hash_long rx v input pc =
     map_option (\<lambda>(h, e, v'). (h, v')) (randomx_calculate_hash_long_with_entropy rx v input pc)"
  "map_option (\<lambda>(e, v'). (take RANDOMX_ENTROPY_SIZE e, v'))
     (randomx_calculate_hash_long_with_entropy_get_entropy rx v input pc) =
   map_option (\<lambda>(h, e, v'). (e, v')) (randomx_calculate_hash_long_with_entropy rx v input pc)"
  unfolding randomx_calculate_hash_long_def randomx_calculate_hash_long_with_entropy_def
    randomx_calculate_hash_long_with_entropy_get_entropy_def Let_def case_prod_beta
  by (simp_all add: assert_that_def split: Option.bind_split)

section \<open>The functions of the file are deterministic\<close>

lemma programs_deterministicD:
  assumes "programs_deterministic rx D pad same"
  shows "D m1 \<Longrightarrow> D m2 \<Longrightarrow> fst (initScratchpad rx th m1) = fst (initScratchpad rx th m2)"
    and "D m1 \<Longrightarrow> D m2 \<Longrightarrow> same (resetRoundingMode rx (snd (initScratchpad rx th m1)))
           (resetRoundingMode rx (snd (initScratchpad rx th m2)))"
    and "same m1 m2 \<Longrightarrow> same (snd (run rx th m1)) (snd (run rx th m2))"
    and "same m1 m2 \<Longrightarrow> getRegisterFile rx (snd (run rx th m1)) = getRegisterFile rx (snd (run rx th m2))"
    and "same m1 m2 \<Longrightarrow> fst (getFinalResult rx (snd (run rx th m1))) = fst (getFinalResult rx (snd (run rx th m2)))"
    and "same m1 m2 \<Longrightarrow> getScratchpad rx (snd (getFinalResult rx m1)) = getScratchpad rx (snd (getFinalResult rx m2))"
  using assms unfolding programs_deterministic_def by meson+

lemma hash_chain_same:
  assumes "programs_deterministic rx D pad same" "same m1 m2"
  shows "(hash_chain rx n th m1 = None \<and> hash_chain rx n th m2 = None) \<or>
    (\<exists>t m1' m2'. hash_chain rx n th m1 = Some (t, m1') \<and> hash_chain rx n th m2 = Some (t, m2') \<and> same m1' m2')"
  using assms(2)
proof (induction n arbitrary: th m1 m2)
  case (Suc n)
  have r: "same (snd (run rx th m1)) (snd (run rx th m2))"
      "getRegisterFile rx (snd (run rx th m1)) = getRegisterFile rx (snd (run rx th m2))"
    using programs_deterministicD [OF assms(1)] Suc.prems by blast+
  then show ?case
    using Suc.IH [OF r(1)] by (auto simp: Let_def case_prod_beta assert_that_def)
qed simp

lemma hash_chain_keeps_dataset:
  assumes "methods_keep_dataset rx D" "D m" "hash_chain rx n th m = Some (t, m')"
  shows "D m'"
  using assms(2,3)
proof (induction n arbitrary: th m)
  case (Suc n)
  have "D (snd (run rx th m))" using assms(1) Suc.prems(1) by (simp add: methods_keep_dataset_def)
  then show ?case using Suc by (auto simp: Let_def case_prod_beta assert_that_def split: if_splits)
qed simp

text \<open>The part that the long hash functions share, on two machines over one dataset.\<close>

lemma long_run_agrees:
  assumes "programs_deterministic rx D pad same" "methods_keep_dataset rx D" "D c1" "D c2"
    and "hash_chain rx n (fst (initScratchpad rx th c1)) (resetRoundingMode rx (snd (initScratchpad rx th c1))) = Some (t, m1)"
  obtains m2 where "hash_chain rx n (fst (initScratchpad rx th c2)) (resetRoundingMode rx (snd (initScratchpad rx th c2))) = Some (t, m2)"
    "fst (getFinalResult rx (snd (run rx t m1))) = fst (getFinalResult rx (snd (run rx t m2)))"
    "getScratchpad rx (snd (getFinalResult rx (snd (run rx t m1)))) = getScratchpad rx (snd (getFinalResult rx (snd (run rx t m2))))"
    "D (snd (getFinalResult rx (snd (run rx t m1))))"
proof -
  let ?i1 = "initScratchpad rx th c1" and ?i2 = "initScratchpad rx th c2"
  note det = programs_deterministicD [OF assms(1)]
  obtain m2 where c: "hash_chain rx n (fst ?i2) (resetRoundingMode rx (snd ?i2)) = Some (t, m2)" "same m1 m2"
    using hash_chain_same [OF assms(1) det(2) [OF assms(3,4)], of n "fst ?i1" th] assms(5) det(1) [OF assms(3,4), of th] by auto
  have "D (resetRoundingMode rx (snd ?i1))" using assms(2,3) by (simp add: methods_keep_dataset_def)
  from hash_chain_keeps_dataset [OF assms(2) this assms(5)]
  have "D (snd (getFinalResult rx (snd (run rx t m1))))" using assms(2) by (simp add: methods_keep_dataset_def)
  with c show ?thesis using that det(5) [OF c(2)] det(6) [OF det(3) [OF c(2)]] by blast
qed

text \<open>The same hash and the same scratchpad, and the machines keep their dataset.\<close>

lemma with_entropy_deterministic:
  fixes v1 v2 :: "'m randomx_vm"
  assumes "programs_deterministic rx D pad same" "methods_keep_dataset rx D" "D (core v1)" "D (core v2)"
    and "randomx_calculate_hash_long_with_entropy rx v1 x pc = Some (h, ent, v1')"
  shows "D (core v1') \<and> (\<exists>v2'. randomx_calculate_hash_long_with_entropy rx v2 x pc = Some (h, ent, v2'))"
proof -
  obtain t m1 where m1: "hash_chain rx (nat (pc - 1)) (fst (initScratchpad rx (snd (blake2b rx x)) (core v1)))
      (resetRoundingMode rx (snd (initScratchpad rx (snd (blake2b rx x)) (core v1)))) = Some (t, m1)" "fst (blake2b rx x) = 0"
    using assms(5) by (auto simp: randomx_calculate_hash_long_with_entropy_def Let_def case_prod_beta
        assert_that_def bind_eq_Some_conv split: if_splits)
  obtain m2 where "hash_chain rx (nat (pc - 1)) (fst (initScratchpad rx (snd (blake2b rx x)) (core v2)))
      (resetRoundingMode rx (snd (initScratchpad rx (snd (blake2b rx x)) (core v2)))) = Some (t, m2)"
    "fst (getFinalResult rx (snd (run rx t m1))) = fst (getFinalResult rx (snd (run rx t m2)))"
    "getScratchpad rx (snd (getFinalResult rx (snd (run rx t m1)))) = getScratchpad rx (snd (getFinalResult rx (snd (run rx t m2))))"
    "D (snd (getFinalResult rx (snd (run rx t m1))))"
    by (rule long_run_agrees [OF assms(1-4) m1(1)])
  then show ?thesis
    using assms(5) m1 by (auto simp: randomx_calculate_hash_long_with_entropy_def Let_def case_prod_beta)
qed

lemma get_entropy_deterministic:
  fixes v1 v2 :: "'m randomx_vm"
  assumes "programs_deterministic rx D pad same" "methods_keep_dataset rx D" "D (core v1)" "D (core v2)"
    and "randomx_calculate_hash_long_with_entropy_get_entropy rx v1 x pc = Some (ent, v1')"
  shows "D (core v1') \<and> (\<exists>v2'. randomx_calculate_hash_long_with_entropy_get_entropy rx v2 x pc = Some (ent, v2'))"
proof -
  obtain t m1 where m1: "hash_chain rx (nat (pc - 1)) (fst (initScratchpad rx (snd (blake2b rx x)) (core v1)))
      (resetRoundingMode rx (snd (initScratchpad rx (snd (blake2b rx x)) (core v1)))) = Some (t, m1)" "fst (blake2b rx x) = 0"
    using assms(5) by (auto simp: randomx_calculate_hash_long_with_entropy_get_entropy_def Let_def case_prod_beta
        assert_that_def bind_eq_Some_conv split: if_splits)
  obtain m2 where "hash_chain rx (nat (pc - 1)) (fst (initScratchpad rx (snd (blake2b rx x)) (core v2)))
      (resetRoundingMode rx (snd (initScratchpad rx (snd (blake2b rx x)) (core v2)))) = Some (t, m2)"
    "fst (getFinalResult rx (snd (run rx t m1))) = fst (getFinalResult rx (snd (run rx t m2)))"
    "getScratchpad rx (snd (getFinalResult rx (snd (run rx t m1)))) = getScratchpad rx (snd (getFinalResult rx (snd (run rx t m2))))"
    "D (snd (getFinalResult rx (snd (run rx t m1))))"
    by (rule long_run_agrees [OF assms(1-4) m1(1)])
  then show ?thesis
    using assms(5) m1 by (auto simp: randomx_calculate_hash_long_with_entropy_get_entropy_def Let_def case_prod_beta)
qed

section \<open>The pipelined functions against the stand-alone one\<close>

lemma hash_chain_pipeline:
  assumes "blake2b_succeeds rx"
  shows "hash_chain rx n th m =
         Some (tempHash (pipeline_chain rx n \<lparr>core = m, tempHash = th\<rparr>),
               core (pipeline_chain rx n \<lparr>core = m, tempHash = th\<rparr>))"
proof (induction n arbitrary: th m)
  case (Suc n)
  from assms have "fst (blake2b rx bs) = 0" for bs by (simp add: blake2b_succeeds_def)
  with Suc show ?case by (simp add: Let_def case_prod_beta)
qed simp

text \<open>The machine just before \<open>getFinalResult\<close>, when the machine was primed with an input.\<close>

definition primed_run :: "'m rx_machine \<Rightarrow> 'm randomx_vm \<Rightarrow> int \<Rightarrow> bytes \<times> 'm" where
  "primed_run rx v pc =
     (let w = pipeline_chain rx (nat (pc - 1)) (v\<lparr>core := resetRoundingMode rx (core v)\<rparr>)
      in run rx (tempHash w) (core w))"

lemma with_entropy_primed:
  assumes "blake2b_succeeds rx"
  shows "randomx_calculate_hash_long_with_entropy rx v x pc =
     (let m = snd (primed_run rx (randomx_calculate_hash_long_with_entropy_first rx v x) pc);
          (h, m') = getFinalResult rx m
      in Some (h, take RANDOMX_ENTROPY_SIZE (getScratchpad rx m'), v\<lparr>core := m'\<rparr>))"
proof -
  have "fst (blake2b rx bs) = 0" for bs using assms by (simp add: blake2b_succeeds_def)
  then show ?thesis
    by (simp add: randomx_calculate_hash_long_with_entropy_def hash_chain_pipeline [OF assms]
        primed_run_def randomx_calculate_hash_long_with_entropy_first_def Let_def case_prod_beta)
qed

lemma next_primed:
  assumes "final_result_keeps_scratchpad rx" "hashAndFill_fused rx"
  shows "randomx_calculate_hash_long_with_entropy_next rx w y pc =
     (let m = snd (primed_run rx w pc); (h, m') = getFinalResult rx m
      in (h, take RANDOMX_ENTROPY_SIZE (getScratchpad rx m'),
          randomx_calculate_hash_long_with_entropy_first rx (v\<lparr>core := m'\<rparr>) y))"
proof -
  have "getScratchpad rx (snd (getFinalResult rx m)) = getScratchpad rx m" for m
    using assms(1) by (simp add: final_result_keeps_scratchpad_def)
  moreover have "hashAndFill rx th m =
      (fst (getFinalResult rx m), initScratchpad rx th (snd (getFinalResult rx m)))" for th m
    using assms(2) by (simp add: hashAndFill_fused_def)
  ultimately show ?thesis
    by (simp add: randomx_calculate_hash_long_with_entropy_next_def primed_run_def
        randomx_calculate_hash_long_with_entropy_first_def Let_def case_prod_beta)
qed

lemma last_primed:
  "randomx_calculate_hash_long_with_entropy_last rx w pc =
     (let m = snd (primed_run rx w pc); (h, m') = getFinalResult rx m
      in (h, take RANDOMX_ENTROPY_SIZE (getScratchpad rx m'),
          \<lparr>core = m', tempHash = fst (primed_run rx w pc)\<rparr>))"
  by (simp add: randomx_calculate_hash_long_with_entropy_last_def primed_run_def Let_def
      case_prod_beta)

text \<open>
  A batch of inputs the way \<open>bulk_hash_fast_long_with_entropy_nif\<close> hashes it: the machine is
  primed with the first input, each \<open>next\<close> finishes one hash and primes the following one,
  \<open>last\<close> finishes the batch; and the same batch by stand-alone calls.
\<close>

fun hash_pipeline :: "'m rx_machine \<Rightarrow> int \<Rightarrow> 'm randomx_vm \<Rightarrow> bytes list
    \<Rightarrow> (digest256 \<times> bytes) list \<times> 'm" where
  "hash_pipeline rx pc w [] =
     (let (h, e, w') = randomx_calculate_hash_long_with_entropy_last rx w pc in ([(h, e)], core w'))"
| "hash_pipeline rx pc w (y # ys) =
     (let (h, e, w') = randomx_calculate_hash_long_with_entropy_next rx w y pc;
          (rs, c) = hash_pipeline rx pc w' ys
      in ((h, e) # rs, c))"

fun hash_sequence :: "'m rx_machine \<Rightarrow> int \<Rightarrow> 'm randomx_vm \<Rightarrow> bytes list
    \<Rightarrow> ((digest256 \<times> bytes) list \<times> 'm) option" where
  "hash_sequence rx pc v [] = Some ([], core v)"
| "hash_sequence rx pc v (x # xs) = do {
     (h, e, v') \<leftarrow> randomx_calculate_hash_long_with_entropy rx v x pc;
     (rs, c) \<leftarrow> hash_sequence rx pc v' xs;
     Some ((h, e) # rs, c) }"

text \<open>
  Property C32: the pipelined calls of a batch compute, for every input of the batch, the hash and
  the entropy of the stand-alone \<open>randomx_calculate_hash_long_with_entropy\<close>, and leave the machine
  in the same state. The hypotheses are the documented behaviour of Blake2b, \<open>getFinalResult\<close> and
  \<open>hashAndFill\<close>.
\<close>

theorem pipelined_hashes_equal_stand_alone:
  assumes "blake2b_succeeds rx" "final_result_keeps_scratchpad rx" "hashAndFill_fused rx"
  shows "hash_sequence rx pc v (x # xs) =
         Some (hash_pipeline rx pc (randomx_calculate_hash_long_with_entropy_first rx v x) xs)"
proof (induction xs arbitrary: v x)
  case Nil
  show ?case
    by (simp add: with_entropy_primed [OF assms(1)] last_primed Let_def case_prod_beta)
next
  case (Cons y ys)
  define m where "m = snd (primed_run rx (randomx_calculate_hash_long_with_entropy_first rx v x) pc)"
  have "hash_sequence rx pc v (x # y # ys) =
     do { (rs, c) \<leftarrow> hash_sequence rx pc (v\<lparr>core := snd (getFinalResult rx m)\<rparr>) (y # ys);
          Some ((fst (getFinalResult rx m),
                 take RANDOMX_ENTROPY_SIZE (getScratchpad rx (snd (getFinalResult rx m)))) # rs, c) }"
    by (subst hash_sequence.simps)
       (simp add: with_entropy_primed [OF assms(1)] m_def Let_def case_prod_beta del: hash_sequence.simps)
  then show ?case
    using next_primed [OF assms(2,3), of _ y pc v]
    by (simp add: Cons.IH m_def Let_def case_prod_beta del: hash_sequence.simps)
qed

text \<open>A machine on which the hypotheses hold: the scratchpad is the core, a digest its length.\<close>

definition toy_machine :: "bytes rx_machine" where
  "toy_machine =
     \<lparr>blake2b = (\<lambda>bs. (0, take 64 (bs @ replicate 64 1))),
      initScratchpad = (\<lambda>th m. (th, concat (replicate 4096 (take 64 (th @ replicate 64 0))))),
      resetRoundingMode = (\<lambda>m. m),
      run = (\<lambda>th m. (th, map (\<lambda>b. b + hd (th @ [3])) m)),
      getRegisterFile = (\<lambda>m. take 64 m),
      getFinalResult = (\<lambda>m. (of_nat (be_val (take 32 m)), m)),
      getScratchpad = (\<lambda>m. take 262144 m @ replicate (262144 - length m) 0),
      hashAndFill = (\<lambda>th m. (of_nat (be_val (take 32 m)), th,
        concat (replicate 4096 (take 64 (th @ replicate 64 0)))))\<rparr>"

lemma toy_machine_documented:
  "blake2b_succeeds toy_machine" "final_result_keeps_scratchpad toy_machine"
  "hashAndFill_fused toy_machine" "scratchpad_holds_entropy toy_machine"
  by (auto simp: toy_machine_def blake2b_succeeds_def final_result_keeps_scratchpad_def
      hashAndFill_fused_def scratchpad_holds_entropy_def RANDOMX_ENTROPY_SIZE_def min_def)

lemma toy_machine_deterministic: "programs_deterministic toy_machine (\<lambda>_. True) (=) (=)" "methods_keep_dataset toy_machine (\<lambda>_. True)"
  by (simp_all add: programs_deterministic_def methods_keep_dataset_def toy_machine_def)

theorem pipelined_hashes_equal_stand_alone_witness:
  "hash_sequence toy_machine 8 \<lparr>core = [], tempHash = []\<rparr> [[1, 2], [3], []] =
   Some (hash_pipeline toy_machine 8
     (randomx_calculate_hash_long_with_entropy_first toy_machine \<lparr>core = [], tempHash = []\<rparr> [1, 2])
     [[3], []])"
  by (rule pipelined_hashes_equal_stand_alone) (rule toy_machine_documented)+


section \<open>Packing and unpacking a chunk\<close>

lemma get_entropy_defined:
  assumes "blake2b_succeeds rx" "scratchpad_holds_entropy rx"
  shows "\<exists>e v'. randomx_calculate_hash_long_with_entropy_get_entropy rx v input pc = Some (e, v') \<and>
                RANDOMX_ENTROPY_SIZE \<le> length e"
proof -
  have "fst (blake2b rx bs) = 0" for bs using assms by (simp add: blake2b_succeeds_def)
  then show ?thesis using assms(2)
    by (simp add: randomx_calculate_hash_long_with_entropy_get_entropy_def Let_def case_prod_beta
        hash_chain_pipeline [OF assms(1)] scratchpad_holds_entropy_def)
qed

text \<open>What the code relies on from RandomX when it packs.\<close>

definition randomx_documented ::
  "'m rx_machine \<Rightarrow> ('m \<Rightarrow> bool) \<Rightarrow> ('m \<Rightarrow> 'm \<Rightarrow> bool) \<Rightarrow> ('m \<Rightarrow> 'm \<Rightarrow> bool) \<Rightarrow> bool" where
  "randomx_documented rx D pad same \<longleftrightarrow>
     blake2b_succeeds rx \<and> scratchpad_holds_entropy rx \<and> programs_deterministic rx D pad same \<and> methods_keep_dataset rx D"

lemma toy_randomx_documented [simp]: "randomx_documented toy_machine (\<lambda>_. True) (=) (=)"
  by (simp add: randomx_documented_def toy_machine_documented toy_machine_deterministic)

text \<open>The entropy that machines over one dataset share.\<close>

lemma shared_entropy:
  fixes v1 :: "'m randomx_vm"
  assumes "randomx_documented rx D pad same" "D (core v1)"
  obtains e where "RANDOMX_ENTROPY_SIZE \<le> length e"
    "\<And>v. D (core v) \<Longrightarrow>
       \<exists>v'. D (core v') \<and> randomx_calculate_hash_long_with_entropy_get_entropy rx v input pc = Some (e, v')"
proof -
  have doc: "blake2b_succeeds rx" "scratchpad_holds_entropy rx" "programs_deterministic rx D pad same" "methods_keep_dataset rx D"
    using assms(1) by (simp_all add: randomx_documented_def)
  obtain e v1' where e: "randomx_calculate_hash_long_with_entropy_get_entropy rx v1 input pc = Some (e, v1')"
      and le: "RANDOMX_ENTROPY_SIZE \<le> length e"
    using get_entropy_defined [OF doc(1,2)] by blast
  have "\<exists>v'. D (core v') \<and> randomx_calculate_hash_long_with_entropy_get_entropy rx v input pc = Some (e, v')" if "D (core v)" for v
    using get_entropy_deterministic [OF doc(3,4) assms(2) that e] get_entropy_deterministic [OF doc(3,4) that that] by blast
  with le that show ?thesis by blast
qed

lemma encrypt_decrypt_with_entropy:
  assumes "length chunk = 64 * Suc n" "length chunk \<le> RANDOMX_ENTROPY_SIZE" "RANDOMX_ENTROPY_SIZE \<le> length e"
    and "length chunk \<le> length out" "length chunk \<le> length buf"
    and "randomx_calculate_hash_long_with_entropy_get_entropy rx v1 input pc = Some (e, v1')"
    and "randomx_calculate_hash_long_with_entropy_get_entropy rx v2 input pc = Some (e, v2')"
  shows "\<exists>c. randomx_encrypt_chunk sha256 rx v1 input chunk (length chunk) out pc = Some (c, v1') \<and>
     length c = length out \<and>
     randomx_decrypt_chunk sha256 rx v2 input c (length chunk) buf pc =
       Some (chunk @ drop (length chunk) buf, v2')"
proof -
  have "length chunk < 2 ^ 64" using assms(2) by (simp add: RANDOMX_ENTROPY_SIZE_def)
  then obtain c where
      "feistel_encrypt sha256 chunk (length chunk) e out = Some c" "length c = length out"
      "feistel_decrypt sha256 c (length chunk) e buf = Some (chunk @ drop (length chunk) buf)"
    using feistel_inverse [of chunk n e out buf sha256] assms by auto
  then show ?thesis
    using assms by (simp add: randomx_encrypt_chunk_def randomx_decrypt_chunk_def)
qed

text \<open>
  A chunk packed under a key input and unpacked under the same input and program count
  is the chunk again, also when the two runs use different machines in different states, provided
  they share the dataset. The chunk has a positive multiple of 64 bytes and at most the entropy
  size, the lengths the asserts allow.
\<close>

theorem randomx_decrypt_encrypt_chunk:
  fixes v1 v2 :: "'m randomx_vm"
  assumes "randomx_documented rx D pad same" "D (core v1)" "D (core v2)"
    and "length chunk = 64 * Suc n" "length chunk \<le> RANDOMX_ENTROPY_SIZE"
    and "length chunk \<le> length out" "length chunk \<le> length buf"
  shows "\<exists>c v1' v2'.
     randomx_encrypt_chunk sha256 rx v1 input chunk (length chunk) out pc = Some (c, v1') \<and>
     length c = length out \<and>
     randomx_decrypt_chunk sha256 rx v2 input c (length chunk) buf pc =
       Some (chunk @ drop (length chunk) buf, v2')"
proof -
  obtain e where e: "RANDOMX_ENTROPY_SIZE \<le> length e"
    "\<And>v. D (core v) \<Longrightarrow>
       \<exists>v'. D (core v') \<and> randomx_calculate_hash_long_with_entropy_get_entropy rx v input pc = Some (e, v')"
    using shared_entropy [OF assms(1,2), of input pc] by blast
  then show ?thesis
    using encrypt_decrypt_with_entropy [OF assms(4,5) e(1) assms(6,7)] e(2) [OF assms(2)] e(2) [OF assms(3)] by blast
qed

theorem randomx_decrypt_encrypt_chunk_witness:
  "\<exists>c v1' v2'.
     randomx_encrypt_chunk (\<lambda>bs. of_nat (be_val bs)) toy_machine \<lparr>core = [], tempHash = []\<rparr> [1, 2]
       (replicate 128 7) 128 (replicate 128 0) 20 = Some (c, v1') \<and> length c = 128 \<and>
     randomx_decrypt_chunk (\<lambda>bs. of_nat (be_val bs)) toy_machine \<lparr>core = [5], tempHash = []\<rparr> [1, 2]
       c 128 (replicate 128 0) 20 = Some (replicate 128 7, v2')"
  using randomx_decrypt_encrypt_chunk [OF toy_randomx_documented,
      where ?v1.0 = "\<lparr>core = [], tempHash = []\<rparr>" and ?v2.0 = "\<lparr>core = [5], tempHash = []\<rparr>"
        and chunk = "replicate 128 7" and n = 1 and out = "replicate 128 0" and buf = "replicate 128 0"
        and ?sha256.0 = "\<lambda>bs. of_nat (be_val bs)" and input = "[1, 2]" and pc = 20]
  by (simp add: RANDOMX_ENTROPY_SIZE_def)

end
