(* ===== verification/Rx_State.thy ===== *)
theory Rx_State
  imports Nif Rx_Long
begin

text \<open>
  The RandomX state of \<open>ar_mine_randomx.c\<close>: the Erlang resource \<open>struct state\<close> with its
  read-write lock, cache and dataset; \<open>init\<close>, the dataset workers, \<open>init_failed\<close>, \<open>release_randomx\<close>,
  the destructor, \<open>create_vm\<close>, \<open>destroy_vm\<close> and \<open>release_state_nif\<close>.

  The objects that the code obtains from RandomX and from \<open>erl_nif\<close> are entries of a ledger of live
  objects: an allocation adds a fresh entry or fails as the parameter \<open>sys\<close> decides, a release of
  an object that is not live is undefined behaviour (\<^term>\<open>None\<close>). Nothing else is assumed of
  these libraries here.
\<close>

section \<open>The world\<close>

datatype obj = Lock nat | Cache nat | Dataset nat | Vm nat | Mem nat | ThreadOpts nat | Thread nat | Resource nat | Mpz nat

fun obj_id :: "obj \<Rightarrow> nat" where
  "obj_id (Lock n) = n"
| "obj_id (Cache n) = n"
| "obj_id (Dataset n) = n"
| "obj_id (Vm n) = n"
| "obj_id (Mem n) = n"
| "obj_id (ThreadOpts n) = n"
| "obj_id (Thread n) = n"
| "obj_id (Resource n) = n"
| "obj_id (Mpz n) = n"

text \<open>\<open>struct state\<close>; a NULL pointer is \<^term>\<open>None\<close>.\<close>

record rx_state =
  lockPtr :: "nat option"
  isRandomxReleased :: int
  datasetPtr :: "nat option"
  cachePtr :: "nat option"

datatype rx_flag = LARGE_PAGES | HARD_AES | FULL_MEM | JIT | SECURE

text \<open>
  The world the native functions act on: the ledger of live objects, the resource states with their
  reference counts, the locks, the log of \<open>randomx_init_cache\<close> (the cache, the flags it was allocated with,
  the key), the log of \<open>randomx_init_dataset\<close> (the dataset, the cache, the first item, the number of items)
  and the messages sent.
\<close>

record 't world =
  live :: "obj set"
  next_id :: nat
  states :: "nat \<Rightarrow> rx_state option"
  refs :: "nat \<Rightarrow> nat"
  readers :: "nat \<Rightarrow> nat"
  writer :: "nat \<Rightarrow> bool"
  cache_inits :: "(nat \<times> rx_flag set \<times> bytes) list"
  dataset_inits :: "(nat \<times> nat \<times> nat \<times> nat) list"
  outbox :: "(nat \<times> 't) list"

text \<open>
  Which calls fail, by the number of allocations before them: \<open>fails\<close> for the calls whose failure the
  code checks, \<open>oom\<close> for the memory allocations whose result it dereferences unchecked, \<open>join_fails\<close>
  for \<open>enif_thread_join\<close>, by thread.
\<close>

record sys =
  fails :: "nat \<Rightarrow> bool"
  oom :: "nat \<Rightarrow> bool"
  join_fails :: "nat \<Rightarrow> bool"

datatype hashing_mode = HASHING_MODE_FAST | HASHING_MODE_LIGHT

text \<open>What is used of the RandomX library besides the machine's methods.\<close>

record 'm rx_lib =
  machine :: "'m rx_machine"
  vm_fresh :: "rx_flag set \<Rightarrow> nat option \<Rightarrow> nat option \<Rightarrow> 'm randomx_vm"
  randomx_calculate_hash :: "'m randomx_vm \<Rightarrow> bytes \<Rightarrow> digest256 \<times> 'm randomx_vm"
  randomx_calculate_hash_first :: "'m randomx_vm \<Rightarrow> bytes \<Rightarrow> 'm randomx_vm"
  randomx_calculate_hash_next :: "'m randomx_vm \<Rightarrow> bytes \<Rightarrow> digest256 \<times> 'm randomx_vm"
  randomx_calculate_hash_last :: "'m randomx_vm \<Rightarrow> digest256 \<times> 'm randomx_vm"
  randomx_dataset_item_count :: nat
  force_secure :: bool

text \<open>
  \<open>load\<close>: the status the runtime is given and the global \<open>stateType\<close>, from what \<open>enif_open_resource_type\<close>
  returned for the resource type with destructor \<open>state_dtor\<close>.
\<close>

definition load :: "'ty option \<Rightarrow> int \<times> 'ty option" where
  "load opened = (let stateType = opened in if stateType = None then (1, stateType) else (0, stateType))"

definition acquire :: "(nat \<Rightarrow> bool) \<Rightarrow> (nat \<Rightarrow> obj) \<Rightarrow> 't world \<Rightarrow> nat option \<times> 't world" where
  "acquire fail mk w =
     (let n = next_id w
      in if fail n then (None, w\<lparr>next_id := Suc n\<rparr>)
         else (Some n, w\<lparr>next_id := Suc n, live := insert (mk n) (live w)\<rparr>))"

definition release :: "obj \<Rightarrow> 't world \<Rightarrow> 't world option" where
  "release ob w = (if ob \<in> live w then Some (w\<lparr>live := live w - {ob}\<rparr>) else None)"

text \<open>Memory whose NULL the code does not check.\<close>

definition acquire_unchecked :: "sys \<Rightarrow> (nat \<Rightarrow> obj) \<Rightarrow> 't world \<Rightarrow> (nat \<times> 't world) option" where
  "acquire_unchecked sys mk w = (case acquire (oom sys) mk w of (None, _) \<Rightarrow> None | (Some n, w) \<Rightarrow> Some (n, w))"

text \<open>
  The read-write lock. \<open>enif_rwlock_rlock\<close> blocks while a writer holds the lock, which a single thread
  never leaves; \<open>enif_rwlock_tryrwlock\<close> returns whether it got the lock.
\<close>

definition enif_rwlock_rlock :: "nat option \<Rightarrow> 't world \<Rightarrow> 't world option" where
  "enif_rwlock_rlock lk w = do {
     l \<leftarrow> lk;
     if Lock l \<in> live w \<and> \<not> writer w l then Some (w\<lparr>readers := (readers w)(l := Suc (readers w l))\<rparr>) else None }"

definition enif_rwlock_runlock :: "nat option \<Rightarrow> 't world \<Rightarrow> 't world option" where
  "enif_rwlock_runlock lk w = do {
     l \<leftarrow> lk;
     if Lock l \<in> live w \<and> 0 < readers w l then Some (w\<lparr>readers := (readers w)(l := readers w l - 1)\<rparr>) else None }"

definition enif_rwlock_tryrwlock :: "nat option \<Rightarrow> 't world \<Rightarrow> (bool \<times> 't world) option" where
  "enif_rwlock_tryrwlock lk w = do {
     l \<leftarrow> lk;
     if Lock l \<notin> live w then None
     else if writer w l \<or> 0 < readers w l then Some (False, w)
     else Some (True, w\<lparr>writer := (writer w)(l := True)\<rparr>) }"

definition enif_rwlock_rwunlock :: "nat option \<Rightarrow> 't world \<Rightarrow> 't world option" where
  "enif_rwlock_rwunlock lk w = do {
     l \<leftarrow> lk;
     if Lock l \<in> live w \<and> writer w l then Some (w\<lparr>writer := (writer w)(l := False)\<rparr>) else None }"

definition enif_rwlock_destroy :: "nat \<Rightarrow> 't world \<Rightarrow> 't world option" where
  "enif_rwlock_destroy l w = (if writer w l \<or> 0 < readers w l then None else release (Lock l) w)"

definition put_state :: "nat \<Rightarrow> rx_state \<Rightarrow> 't world \<Rightarrow> 't world" where
  "put_state s st w = w\<lparr>states := (states w)(s \<mapsto> st)\<rparr>"

section \<open>Release\<close>

definition release_randomx :: "nat \<Rightarrow> 't world \<Rightarrow> 't world option" where
  "release_randomx s w = do {
     st \<leftarrow> states w s;
     w \<leftarrow> (case datasetPtr st of None \<Rightarrow> Some w | Some d \<Rightarrow> release (Dataset d) w);
     let st = st\<lparr>datasetPtr := None\<rparr>;
     w \<leftarrow> (case cachePtr st of None \<Rightarrow> Some w | Some c \<Rightarrow> release (Cache c) w);
     let st = st\<lparr>cachePtr := None\<rparr>;
     let st = st\<lparr>isRandomxReleased := 1\<rparr>;
     Some (put_state s st w) }"

definition state_dtor :: "nat \<Rightarrow> 't world \<Rightarrow> 't world option" where
  "state_dtor s w = do {
     w \<leftarrow> release_randomx s w;
     st \<leftarrow> states w s;
     case lockPtr st of
       None \<Rightarrow> Some w
     | Some l \<Rightarrow> do { w \<leftarrow> enif_rwlock_destroy l w; Some (put_state s (st\<lparr>lockPtr := None\<rparr>) w) } }"

text \<open>
  The reference count of a resource: one from the allocation, one from every term; the last release
  runs the destructor and frees the object.
\<close>

definition enif_alloc_resource :: "'t world \<Rightarrow> nat \<times> 't world" where
  "enif_alloc_resource w =
     (let s = next_id w
      in (s, w\<lparr>next_id := Suc s, live := insert (Resource s) (live w), refs := (refs w)(s := 1)\<rparr>))"

definition enif_keep_term :: "nat \<Rightarrow> 't world \<Rightarrow> 't world" where
  "enif_keep_term s w = w\<lparr>refs := (refs w)(s := Suc (refs w s))\<rparr>"

definition enif_release_resource :: "nat \<Rightarrow> 't world \<Rightarrow> 't world option" where
  "enif_release_resource s w =
     (if refs w s = 0 then None
      else if refs w s = 1 then do {
        w \<leftarrow> state_dtor s w;
        w \<leftarrow> release (Resource s) w;
        Some (w\<lparr>refs := (refs w)(s := 0), states := (states w)(s := None)\<rparr>) }
      else Some (w\<lparr>refs := (refs w)(s := refs w s - 1)\<rparr>))"

section \<open>Initialisation\<close>

definition init_failed :: "'t enif \<Rightarrow> nat \<Rightarrow> string \<Rightarrow> 't world \<Rightarrow> ('t \<times> 't world) option" where
  "init_failed e s reason w = do {
     st \<leftarrow> states w s;
     w \<leftarrow> (case lockPtr st of None \<Rightarrow> Some w | Some l \<Rightarrow> enif_rwlock_destroy l w);
     let st = st\<lparr>lockPtr := None\<rparr>;
     w \<leftarrow> (case cachePtr st of None \<Rightarrow> Some w | Some c \<Rightarrow> release (Cache c) w);
     let st = st\<lparr>cachePtr := None\<rparr>;
     w \<leftarrow> (case datasetPtr st of None \<Rightarrow> Some w | Some d \<Rightarrow> release (Dataset d) w);
     let st = st\<lparr>datasetPtr := None\<rparr>;
     w \<leftarrow> enif_release_resource s (put_state s st w);
     Some (error_nif e reason, w) }"

text \<open>\<open>struct workerThread\<close>, with the memory that holds it.\<close>

record workerThread =
  worker_mem :: nat
  threadId :: nat
  optsPtr :: nat
  worker_cachePtr :: nat
  worker_datasetPtr :: nat
  datasetInitStartItem :: nat
  datasetInitItemCount :: nat

text \<open>\<open>init_dataset_thread\<close>: what a worker's thread has done once it is joined.\<close>

definition init_dataset_thread :: "workerThread \<Rightarrow> 't world \<Rightarrow> 't world option" where
  "init_dataset_thread wk w =
     (if Dataset (worker_datasetPtr wk) \<in> live w \<and> Cache (worker_cachePtr wk) \<in> live w then
        Some (w\<lparr>dataset_inits := dataset_inits w @
                 [(worker_datasetPtr wk, worker_cachePtr wk, datasetInitStartItem wk, datasetInitItemCount wk)]\<rparr>)
      else None)"

text \<open>The first loop of \<open>init_dataset\<close>: \<open>i\<close> counts up to \<open>numWorkers\<close>.\<close>

function init_dataset_spawn ::
  "sys \<Rightarrow> nat \<Rightarrow> nat \<Rightarrow> nat \<Rightarrow> nat \<Rightarrow> nat \<Rightarrow> nat \<Rightarrow> nat \<Rightarrow> 't world
   \<Rightarrow> (workerThread option list \<times> 't world) option" where
  "init_dataset_spawn sys ds ca numWorkers itemsPerThread itemsRemainder i startItem w =
     (if i < numWorkers then do {
        (m, w) \<leftarrow> acquire_unchecked sys Mem w;
        let itemCount = (if i + 1 = numWorkers then itemsPerThread + itemsRemainder else itemsPerThread);
        (opts, w) \<leftarrow> acquire_unchecked sys ThreadOpts w;
        let (tid, w) = acquire (fails sys) Thread w;
        (wk, w) \<leftarrow> (case tid of
            Some t \<Rightarrow> Some (Some \<lparr>worker_mem = m, threadId = t, optsPtr = opts, worker_cachePtr = ca,
              worker_datasetPtr = ds, datasetInitStartItem = startItem, datasetInitItemCount = itemCount\<rparr>, w)
          | None \<Rightarrow> do { w \<leftarrow> release (ThreadOpts opts) w; w \<leftarrow> release (Mem m) w; Some (None, w) });
        (wks, w) \<leftarrow> init_dataset_spawn sys ds ca numWorkers itemsPerThread itemsRemainder (i + 1)
                      ((startItem + itemCount) mod 2 ^ 64) w;
        Some (wk # wks, w) }
      else Some ([], w))"
  by pat_completeness auto
termination
  by (relation "measure (\<lambda>(sys, ds, ca, numWorkers, per, rem, i, start, w). numWorkers - i)") auto

declare init_dataset_spawn.simps [simp del]

text \<open>The second loop: join every started worker and free it.\<close>

fun init_dataset_join ::
  "sys \<Rightarrow> workerThread option list \<Rightarrow> bool \<Rightarrow> 't world \<Rightarrow> (bool \<times> 't world) option" where
  "init_dataset_join sys [] anyThreadFailed w = Some (anyThreadFailed, w)"
| "init_dataset_join sys (None # wks) anyThreadFailed w = init_dataset_join sys wks True w"
| "init_dataset_join sys (Some wk # wks) anyThreadFailed w = do {
     (anyThreadFailed, w) \<leftarrow>
       (if join_fails sys (threadId wk) then Some (True, w)
        else do { w \<leftarrow> init_dataset_thread wk w; w \<leftarrow> release (Thread (threadId wk)) w;
                  Some (anyThreadFailed, w) });
     w \<leftarrow> release (ThreadOpts (optsPtr wk)) w;
     w \<leftarrow> release (Mem (worker_mem wk)) w;
     init_dataset_join sys wks anyThreadFailed w }"

text \<open>
  Division by zero workers is undefined, and so is a count that does not fit the \<open>int\<close> loop counter.
\<close>

definition init_dataset ::
  "sys \<Rightarrow> 'm rx_lib \<Rightarrow> nat \<Rightarrow> nat \<Rightarrow> nat \<Rightarrow> 't world \<Rightarrow> (bool \<times> 't world) option" where
  "init_dataset sys lib ds ca numWorkers w = do {
     (workerPtrPtr, w) \<leftarrow> acquire_unchecked sys Mem w;
     assert_that (numWorkers \<noteq> 0 \<and> numWorkers < 2 ^ 31);
     let itemsPerThread = randomx_dataset_item_count lib div numWorkers;
     let itemsRemainder = randomx_dataset_item_count lib mod numWorkers;
     (wks, w) \<leftarrow> init_dataset_spawn sys ds ca numWorkers itemsPerThread itemsRemainder 0 0 w;
     (anyThreadFailed, w) \<leftarrow> init_dataset_join sys wks False w;
     w \<leftarrow> release (Mem workerPtrPtr) w;
     Some (\<not> anyThreadFailed, w) }"

definition randomx_init_cache :: "nat \<Rightarrow> rx_flag set \<Rightarrow> bytes \<Rightarrow> 't world \<Rightarrow> 't world option" where
  "randomx_init_cache c flags key w =
     (if Cache c \<in> live w then Some (w\<lparr>cache_inits := cache_inits w @ [(c, flags, key)]\<rparr>) else None)"

definition jit_flags :: "'m rx_lib \<Rightarrow> int \<Rightarrow> rx_flag set" where
  "jit_flags lib jitEnabled =
     (if jitEnabled \<noteq> 0 then (if force_secure lib then {JIT, SECURE} else {JIT}) else {})"

text \<open>\<open>init\<close> after its argument checks.\<close>

definition init_state ::
  "'t enif \<Rightarrow> sys \<Rightarrow> 'm rx_lib \<Rightarrow> hashing_mode \<Rightarrow> bytes \<Rightarrow> nat \<Rightarrow> int \<Rightarrow> int \<Rightarrow> 't world
   \<Rightarrow> ('t \<times> 't world) option" where
  "init_state e sys lib mode key numWorkers jitEnabled largePagesEnabled w =
     (let (s, w) = enif_alloc_resource w;
          (lk, w) = acquire (fails sys) Lock w;
          st = \<lparr>lockPtr = lk, isRandomxReleased = 0, datasetPtr = None, cachePtr = None\<rparr>;
          w = put_state s st w
      in if lk = None then init_failed e s ''enif_rwlock_create failed'' w
         else
           let flags = jit_flags lib jitEnabled \<union> (if largePagesEnabled \<noteq> 0 then {LARGE_PAGES} else {});
               (ca, w) = acquire (fails sys) Cache w;
               st = st\<lparr>cachePtr := ca\<rparr>;
               w = put_state s st w
           in case ca of
                None \<Rightarrow> init_failed e s ''randomx_alloc_cache failed'' w
              | Some c \<Rightarrow> do {
                  w \<leftarrow> randomx_init_cache c flags key w;
                  (outcome, st, w) \<leftarrow>
                    (if mode = HASHING_MODE_FAST then
                       let (da, w) = acquire (fails sys) Dataset w;
                           st = st\<lparr>datasetPtr := da\<rparr>;
                           w = put_state s st w
                       in case da of
                            None \<Rightarrow> Some (Some ''randomx_alloc_dataset failed'', st, w)
                          | Some d \<Rightarrow> do {
                              (ok, w) \<leftarrow> init_dataset sys lib d c numWorkers w;
                              if \<not> ok then Some (Some ''init_dataset failed'', st, w)
                              else do {
                                w \<leftarrow> release (Cache c) w;
                                let st = st\<lparr>cachePtr := None\<rparr>;
                                Some (None, st, put_state s st w) } }
                     else Some (None, st\<lparr>datasetPtr := None\<rparr>, put_state s (st\<lparr>datasetPtr := None\<rparr>) w));
                  case outcome of
                    Some reason \<Rightarrow> init_failed e s reason w
                  | None \<Rightarrow> do {
                      let resource = enif_make_resource e s;
                      w \<leftarrow> enif_release_resource s (enif_keep_term s w);
                      Some (ok_tuple e resource, w) } })"

definition init ::
  "'t enif \<Rightarrow> sys \<Rightarrow> 'm rx_lib \<Rightarrow> 't list \<Rightarrow> hashing_mode \<Rightarrow> 't world \<Rightarrow> ('t \<times> 't world) option" where
  "init e sys lib argv mode w =
     (let badarg = Some (enif_make_badarg e, w)
      in if mode = HASHING_MODE_FAST \<and> length argv \<noteq> 4 then badarg
         else if mode = HASHING_MODE_LIGHT \<and> length argv \<noteq> 3 then badarg
         else need (enif_inspect_binary e (argv ! 0)) badarg (\<lambda>key.
              need (if mode = HASHING_MODE_FAST then enif_get_uint e (argv ! 3) else Some 0) badarg (\<lambda>numWorkers.
              need (enif_get_int e (argv ! 1)) badarg (\<lambda>jitEnabled.
              need (enif_get_int e (argv ! 2)) badarg (\<lambda>largePagesEnabled.
              init_state e sys lib mode key numWorkers jitEnabled largePagesEnabled w)))))"

definition init_fast_nif ::
  "'t enif \<Rightarrow> sys \<Rightarrow> 'm rx_lib \<Rightarrow> 't list \<Rightarrow> 't world \<Rightarrow> ('t \<times> 't world) option" where
  "init_fast_nif e sys lib argv w = init e sys lib argv HASHING_MODE_FAST w"

definition init_light_nif ::
  "'t enif \<Rightarrow> sys \<Rightarrow> 'm rx_lib \<Rightarrow> 't list \<Rightarrow> 't world \<Rightarrow> ('t \<times> 't world) option" where
  "init_light_nif e sys lib argv w = init e sys lib argv HASHING_MODE_LIGHT w"

section \<open>Virtual machines and release\<close>

text \<open>
  \<open>randomx_create_vm\<close> asks for a live dataset in full-memory mode and for a live cache otherwise.
\<close>

definition randomx_create_vm ::
  "sys \<Rightarrow> 'm rx_lib \<Rightarrow> rx_flag set \<Rightarrow> nat option \<Rightarrow> nat option \<Rightarrow> 't world
   \<Rightarrow> ((nat \<times> 'm randomx_vm) option \<times> 't world) option" where
  "randomx_create_vm sys lib flags cache dataset w = do {
     (if FULL_MEM \<in> flags then do { d \<leftarrow> dataset; assert_that (Dataset d \<in> live w) }
      else do { c \<leftarrow> cache; assert_that (Cache c \<in> live w) });
     let (v, w) = acquire (fails sys) Vm w;
     Some (map_option (\<lambda>n. (n, vm_fresh lib flags cache dataset)) v, w) }"

text \<open>The result: the \<open>isRandomxReleased\<close> output parameter, and the machine with its ledger entry.\<close>

definition create_vm ::
  "sys \<Rightarrow> 'm rx_lib \<Rightarrow> nat \<Rightarrow> bool \<Rightarrow> int \<Rightarrow> int \<Rightarrow> int \<Rightarrow> 't world
   \<Rightarrow> (int \<times> (nat \<times> 'm randomx_vm) option \<times> 't world) option" where
  "create_vm sys lib s fullMemEnabled jitEnabled largePagesEnabled hardwareAESEnabled w = do {
     st \<leftarrow> states w s;
     w \<leftarrow> enif_rwlock_rlock (lockPtr st) w;
     let released = isRandomxReleased st;
     if released \<noteq> 0 then do { w \<leftarrow> enif_rwlock_runlock (lockPtr st) w; Some (released, None, w) }
     else do {
       let flags = (if fullMemEnabled then {FULL_MEM} else {}) \<union> (if hardwareAESEnabled \<noteq> 0 then {HARD_AES} else {})
             \<union> jit_flags lib jitEnabled \<union> (if largePagesEnabled \<noteq> 0 then {LARGE_PAGES} else {});
       (vmPtr, w) \<leftarrow> randomx_create_vm sys lib flags (cachePtr st) (datasetPtr st) w;
       case vmPtr of
         None \<Rightarrow> do { w \<leftarrow> enif_rwlock_runlock (lockPtr st) w; Some (released, None, w) }
       | Some _ \<Rightarrow> Some (released, vmPtr, w) } }"

definition destroy_vm :: "nat \<Rightarrow> nat \<Rightarrow> 't world \<Rightarrow> 't world option" where
  "destroy_vm s v w = do {
     st \<leftarrow> states w s;
     w \<leftarrow> release (Vm v) w;
     enif_rwlock_runlock (lockPtr st) w }"

definition release_state_nif :: "'t enif \<Rightarrow> 't list \<Rightarrow> 't world \<Rightarrow> ('t \<times> 't world) option" where
  "release_state_nif e argv w =
     (if length argv \<noteq> 1 then Some (enif_make_badarg e, w)
      else need (enif_get_resource e (argv ! 0)) (Some (error_nif e ''failed to read state'', w)) (\<lambda>s. do {
        st \<leftarrow> states w s;
        (got, w) \<leftarrow> enif_rwlock_tryrwlock (lockPtr st) w;
        if \<not> got then Some (error_nif e ''failed to acquire the state lock, the state is being used'', w)
        else do {
          w \<leftarrow> release_randomx s w;
          w \<leftarrow> enif_rwlock_rwunlock (lockPtr st) w;
          Some (enif_make_atom e ''ok'', w) } }))"


section \<open>The ledger under initialisation\<close>

text \<open>Identifiers are handed out once.\<close>

definition ledger_ok :: "'t world \<Rightarrow> bool" where
  "ledger_ok w \<longleftrightarrow> (\<forall>ob \<in> live w. obj_id ob < next_id w)"

definition worker_objs :: "workerThread option \<Rightarrow> obj set" where
  "worker_objs wk = (case wk of None \<Rightarrow> {}
     | Some k \<Rightarrow> {Thread (threadId k), ThreadOpts (optsPtr k), Mem (worker_mem k)})"

lemma worker_objs_simps [simp]:
  "worker_objs None = {}"
  "worker_objs (Some k) = {Thread (threadId k), ThreadOpts (optsPtr k), Mem (worker_mem k)}"
  by (simp_all add: worker_objs_def)

fun separate :: "workerThread option list \<Rightarrow> bool" where
  "separate [] = True"
| "separate (wk # wks) = (worker_objs wk \<inter> \<Union> (worker_objs ` set wks) = {} \<and> separate wks)"

text \<open>The items that worker \<open>i\<close> is to initialise: the first item and the number of items.\<close>

definition item_range :: "nat \<Rightarrow> nat \<Rightarrow> nat \<Rightarrow> nat \<times> nat" where
  "item_range items n i = (i * (items div n), items div n + (if i + 1 = n then items mod n else 0))"

definition worker_follows :: "nat \<Rightarrow> nat \<Rightarrow> workerThread option \<Rightarrow> nat \<times> nat \<Rightarrow> bool" where
  "worker_follows ds ca wk r = (case wk of None \<Rightarrow> True
     | Some k \<Rightarrow> worker_datasetPtr k = ds \<and> worker_cachePtr k = ca \<and>
                (datasetInitStartItem k, datasetInitItemCount k) = r)"

lemma worker_follows_simps [simp]:
  "worker_follows ds ca None r"
  "worker_follows ds ca (Some k) r \<longleftrightarrow> worker_datasetPtr k = ds \<and> worker_cachePtr k = ca \<and>
                (datasetInitStartItem k, datasetInitItemCount k) = r"
  by (simp_all add: worker_follows_def)

lemma ledger_ok_simp:
  "ledger_ok w \<Longrightarrow> next_id w \<le> n \<Longrightarrow> (\<And>ob. ob \<in> X \<Longrightarrow> obj_id ob < n) \<Longrightarrow>
   ledger_ok (w\<lparr>next_id := n, live := live w \<union> X\<rparr>)"
  by (auto simp: ledger_ok_def)

lemma acquire_unchecked_runs:
  "\<not> oom sys (next_id w) \<Longrightarrow> acquire_unchecked sys mk w =
   Some (next_id w, w\<lparr>next_id := Suc (next_id w), live := insert (mk (next_id w)) (live w)\<rparr>)"
  by (simp add: acquire_unchecked_def acquire_def Let_def)

lemma not_live_fresh: "ledger_ok w \<Longrightarrow> next_id w \<le> obj_id ob \<Longrightarrow> ob \<notin> live w"
  by (auto simp: ledger_ok_def)

lemma spawn_runs:
  assumes "\<And>n. \<not> oom sys n" "ledger_ok w" "i \<le> nw" "items < 2 ^ 64"
    and "start = (if i < nw then i * (items div nw) else start)"
  shows "\<exists>wks n'. init_dataset_spawn sys ds ca nw (items div nw) (items mod nw) i start w =
           Some (wks, w\<lparr>next_id := n', live := live w \<union> \<Union> (worker_objs ` set wks)\<rparr>) \<and>
         separate wks \<and> (\<forall>ob \<in> \<Union> (worker_objs ` set wks). next_id w \<le> obj_id ob \<and> obj_id ob < n') \<and>
         next_id w \<le> n' \<and> list_all2 (worker_follows ds ca) wks (map (item_range items nw) [i..<nw])"
  using assms(2,3,5)
proof (induction "nw - i" arbitrary: i start w)
  case 0
  then show ?case by (subst init_dataset_spawn.simps) (auto intro!: exI [of _ "next_id w"])
next
  case (Suc k)
  have i: "i < nw" using Suc.hyps(2) by simp
  let ?n = "next_id w"
  let ?c = "if i + 1 = nw then items div nw + items mod nw else items div nw"
  let ?failed = "fails sys (Suc (Suc ?n))"
  let ?wk = "if ?failed then None else Some \<lparr>worker_mem = ?n, threadId = Suc (Suc ?n), optsPtr = Suc ?n,
      worker_cachePtr = ca, worker_datasetPtr = ds, datasetInitStartItem = start, datasetInitItemCount = ?c\<rparr>"
  let ?w = "w\<lparr>next_id := Suc (Suc (Suc ?n)), live := live w \<union> worker_objs ?wk\<rparr>"
  have fresh: "Mem ?n \<notin> live w" "ThreadOpts (Suc ?n) \<notin> live w"
    using not_live_fresh [OF Suc.prems(1), of "Mem ?n"] not_live_fresh [OF Suc.prems(1), of "ThreadOpts (Suc ?n)"]
    by simp_all
  have ok: "ledger_ok ?w" using Suc.prems(1) by (intro ledger_ok_simp) (auto split: if_splits)
  have start: "(start + ?c) mod 2 ^ 64 = (if Suc i < nw then Suc i * (items div nw) else (start + ?c) mod 2 ^ 64)"
  proof -
    have "Suc i * (items div nw) < 2 ^ 64" if "Suc i < nw"
    proof -
      have "Suc i * (items div nw) \<le> nw * (items div nw)" using that by (intro mult_le_mono1) simp
      then show ?thesis using assms(4) times_div_less_eq_dividend [of nw items] by linarith
    qed
    then show ?thesis using Suc.prems(3) i by (simp add: algebra_simps)
  qed
  obtain wks n' where IH: "init_dataset_spawn sys ds ca nw (items div nw) (items mod nw) (Suc i) ((start + ?c) mod 2 ^ 64) ?w =
           Some (wks, ?w\<lparr>next_id := n', live := live ?w \<union> \<Union> (worker_objs ` set wks)\<rparr>)"
         "separate wks" "\<forall>ob \<in> \<Union> (worker_objs ` set wks). next_id ?w \<le> obj_id ob \<and> obj_id ob < n'"
         "next_id ?w \<le> n'" "list_all2 (worker_follows ds ca) wks (map (item_range items nw) [Suc i..<nw])"
  proof -
    have "k = nw - Suc i" "Suc i \<le> nw" using Suc.hyps(2) i by simp_all
    from Suc.hyps(1) [OF this(1) ok this(2) start] that show ?thesis by blast
  qed
  have "init_dataset_spawn sys ds ca nw (items div nw) (items mod nw) i start w =
      Some (?wk # wks, w\<lparr>next_id := n', live := live w \<union> \<Union> (worker_objs ` set (?wk # wks))\<rparr>)"
    using IH(1) i fresh
    by (subst init_dataset_spawn.simps)
       (auto simp: acquire_unchecked_runs assms(1) acquire_def release_def Let_def Un_assoc insert_Diff_if)
  moreover have "separate (?wk # wks)" using IH(2,3) by (fastforce split: if_splits)
  moreover have "\<forall>ob \<in> \<Union> (worker_objs ` set (?wk # wks)). next_id w \<le> obj_id ob \<and> obj_id ob < n'"
    using IH(3,4) by (fastforce split: if_splits)
  moreover have "list_all2 (worker_follows ds ca) (?wk # wks) (map (item_range items nw) [i..<nw])"
    using IH(5) i Suc.prems(3) by (simp add: upt_conv_Cons item_range_def)
  ultimately show ?case using IH(4) by fastforce
qed


text \<open>The updates of a world in the order of its fields.\<close>

lemma world_order:
  fixes w :: "'t world"
  shows
  "w\<lparr>live := l, next_id := n\<rparr> = w\<lparr>next_id := n, live := l\<rparr>"
  "w\<lparr>states := s, next_id := n\<rparr> = w\<lparr>next_id := n, states := s\<rparr>"
  "w\<lparr>states := s, live := l\<rparr> = w\<lparr>live := l, states := s\<rparr>"
  "w\<lparr>refs := r, next_id := n\<rparr> = w\<lparr>next_id := n, refs := r\<rparr>"
  "w\<lparr>refs := r, live := l\<rparr> = w\<lparr>live := l, refs := r\<rparr>"
  "w\<lparr>refs := r, states := s\<rparr> = w\<lparr>states := s, refs := r\<rparr>"
  "w\<lparr>dataset_inits := d, next_id := n\<rparr> = w\<lparr>next_id := n, dataset_inits := d\<rparr>"
  "w\<lparr>dataset_inits := d, live := l\<rparr> = w\<lparr>live := l, dataset_inits := d\<rparr>"
  "w\<lparr>dataset_inits := d, states := s\<rparr> = w\<lparr>states := s, dataset_inits := d\<rparr>"
  "w\<lparr>dataset_inits := d, refs := r\<rparr> = w\<lparr>refs := r, dataset_inits := d\<rparr>"
  "w\<lparr>cache_inits := ci, next_id := n\<rparr> = w\<lparr>next_id := n, cache_inits := ci\<rparr>"
  "w\<lparr>cache_inits := ci, live := l\<rparr> = w\<lparr>live := l, cache_inits := ci\<rparr>"
  "w\<lparr>cache_inits := ci, states := s\<rparr> = w\<lparr>states := s, cache_inits := ci\<rparr>"
  "w\<lparr>cache_inits := ci, refs := r\<rparr> = w\<lparr>refs := r, cache_inits := ci\<rparr>"
  "w\<lparr>dataset_inits := d, cache_inits := ci\<rparr> = w\<lparr>cache_inits := ci, dataset_inits := d\<rparr>"
  by simp_all

definition range_log :: "nat \<Rightarrow> nat \<Rightarrow> nat \<times> nat \<Rightarrow> nat \<times> nat \<times> nat \<times> nat" where
  "range_log ds ca r = (ds, ca, r)"

text \<open>Joining frees what spawning allocated; without a failed thread every range was initialised.\<close>

lemma join_runs:
  assumes "\<And>n. \<not> join_fails sys n" "list_all2 (worker_follows ds ca) wks rs"
    and "separate wks" "\<Union> (worker_objs ` set wks) \<subseteq> live w" "Dataset ds \<in> live w" "Cache ca \<in> live w"
  shows "\<exists>lg. init_dataset_join sys wks f w =
           Some (f \<or> None \<in> set wks,
             w\<lparr>live := live w - \<Union> (worker_objs ` set wks), dataset_inits := dataset_inits w @ lg\<rparr>) \<and>
         (None \<notin> set wks \<longrightarrow> lg = map (range_log ds ca) rs)"
  using assms(2-)
proof (induction wks rs arbitrary: f w rule: list_all2_induct)
  case Nil
  then show ?case by simp
next
  case (Cons wk wks r rs)
  show ?case
  proof (cases wk)
    case None
    then show ?thesis using Cons.IH [of w True] Cons.prems by auto
  next
    case (Some k)
    let ?w = "w\<lparr>live := live w - worker_objs wk, dataset_inits := dataset_inits w @ [range_log ds ca r]\<rparr>"
    have "\<Union> (worker_objs ` set wks) \<subseteq> live ?w" using Cons.prems(1,2) by auto
    moreover have "Dataset ds \<in> live ?w" "Cache ca \<in> live ?w" using Cons.prems(3,4) Some by simp_all
    ultimately obtain lg where lg: "init_dataset_join sys wks f ?w =
           Some (f \<or> None \<in> set wks, ?w\<lparr>live := live ?w - \<Union> (worker_objs ` set wks), dataset_inits := dataset_inits ?w @ lg\<rparr>)"
         "None \<notin> set wks \<longrightarrow> lg = map (range_log ds ca) rs"
      using Cons.IH [of ?w f] Cons.prems(1) by auto
    have "init_dataset_join sys (wk # wks) f w = init_dataset_join sys wks f ?w"
    proof -
      have "{Thread (threadId k), ThreadOpts (optsPtr k), Mem (worker_mem k)} \<subseteq> live w"
        using Cons.prems(2) Some by simp
      moreover have "live w - {Thread (threadId k)} - {ThreadOpts (optsPtr k)} - {Mem (worker_mem k)} =
          live w - {Thread (threadId k), ThreadOpts (optsPtr k), Mem (worker_mem k)}" by blast
      ultimately show ?thesis
        using Some Cons.hyps(1) Cons.prems(3,4) assms(1)
        by (auto simp: init_dataset_thread_def release_def range_log_def world_order)
    qed
    then show ?thesis using lg Some by (auto simp: Diff_Diff_Int set_diff_eq)
  qed
qed

text \<open>The ranges partition the dataset.\<close>

lemma item_ranges_partition:
  assumes "0 < n"
  shows "concat (map (\<lambda>i. case item_range items n i of (a, k) \<Rightarrow> [a..<a + k]) [0..<n]) = [0..<items]"
proof -
  let ?q = "items div n"
  have full: "concat (map (\<lambda>i. [i * ?q..<i * ?q + ?q]) [0..<m]) = [0..<m * ?q]" for m
  proof (induction m)
    case (Suc m)
    then show ?case using upt_add_eq_append [of 0 "m * ?q" ?q] by (simp add: add.commute)
  qed simp
  obtain m where m: "n = Suc m" using assms by (cases n) auto
  have "map (\<lambda>i. case item_range items n i of (a, k) \<Rightarrow> [a..<a + k]) [0..<m] = map (\<lambda>i. [i * ?q..<i * ?q + ?q]) [0..<m]"
    using m by (intro map_cong) (auto simp: item_range_def)
  moreover have "m * ?q + (?q + items mod n) = items"
    using m by (metis add.assoc add.commute mult.commute div_mult_mod_eq mult_Suc)
  moreover have "[0..<items] = [0..<m * ?q] @ [m * ?q..<m * ?q + (?q + items mod n)]"
    using calculation(2) upt_add_eq_append [of 0 "m * ?q" "?q + items mod n"] by simp
  moreover have "(case item_range items n m of (a, k) \<Rightarrow> [a..<a + k]) = [m * ?q..<m * ?q + (?q + items mod n)]"
    using m by (simp add: item_range_def)
  moreover have "[0..<n] = [0..<m] @ [m]" using m by simp
  ultimately show ?thesis using full [of m] by (simp only: map_append concat_append) simp
qed

lemma init_dataset_runs:
  fixes lib :: "'m rx_lib"
  assumes "\<And>n. \<not> oom sys n" "\<And>n. \<not> join_fails sys n" "ledger_ok w" "0 < nw" "nw < 2 ^ 31"
    and "randomx_dataset_item_count lib < 2 ^ 64" "Dataset ds \<in> live w" "Cache ca \<in> live w"
  shows "\<exists>ok n' lg. init_dataset sys lib ds ca nw w =
           Some (ok, w\<lparr>next_id := n', dataset_inits := dataset_inits w @ lg\<rparr>) \<and> next_id w \<le> n' \<and>
         (ok \<longrightarrow> lg = map (\<lambda>i. range_log ds ca (item_range (randomx_dataset_item_count lib) nw i)) [0..<nw])"
proof -
  let ?n = "next_id w" and ?items = "randomx_dataset_item_count lib"
  let ?w = "w\<lparr>next_id := Suc ?n, live := insert (Mem ?n) (live w)\<rparr>"
  have "ledger_ok ?w" using assms(3) by (auto simp: ledger_ok_def)
  then have "\<exists>wks n'. init_dataset_spawn sys ds ca nw (?items div nw) (?items mod nw) 0 0 ?w =
      Some (wks, ?w\<lparr>next_id := n', live := live ?w \<union> \<Union> (worker_objs ` set wks)\<rparr>) \<and>
    separate wks \<and> (\<forall>ob \<in> \<Union> (worker_objs ` set wks). next_id ?w \<le> obj_id ob \<and> obj_id ob < n') \<and>
    next_id ?w \<le> n' \<and> list_all2 (worker_follows ds ca) wks (map (item_range ?items nw) [0..<nw])"
    by (intro spawn_runs assms(1,6)) auto
  then obtain wks n' where sp:
    "init_dataset_spawn sys ds ca nw (?items div nw) (?items mod nw) 0 0 ?w =
       Some (wks, ?w\<lparr>next_id := n', live := live ?w \<union> \<Union> (worker_objs ` set wks)\<rparr>)"
    "separate wks" "\<forall>ob \<in> \<Union> (worker_objs ` set wks). next_id ?w \<le> obj_id ob \<and> obj_id ob < n'" "next_id ?w \<le> n'"
    "list_all2 (worker_follows ds ca) wks (map (item_range ?items nw) [0..<nw])"
    by (elim exE conjE)
  let ?O = "\<Union> (worker_objs ` set wks)"
  let ?w2 = "?w\<lparr>next_id := n', live := live ?w \<union> ?O\<rparr>"
  obtain lg where jn: "init_dataset_join sys wks False ?w2 =
      Some (None \<in> set wks, ?w2\<lparr>live := live ?w2 - ?O, dataset_inits := dataset_inits ?w2 @ lg\<rparr>)"
      "None \<notin> set wks \<longrightarrow> lg = map (range_log ds ca) (map (item_range ?items nw) [0..<nw])"
    using join_runs [OF assms(2) sp(5,2), of ?w2 False] assms(7,8) by auto
  have disj: "ob \<notin> ?O" if "ob \<in> insert (Mem ?n) (live w)" for ob
    using that sp(3) assms(3) by (fastforce simp: ledger_ok_def)
  then have "insert (Mem ?n) (live w) \<union> ?O - ?O = insert (Mem ?n) (live w)" by blast
  moreover have "insert (Mem ?n) (live w) - {Mem ?n} = live w" using not_live_fresh [OF assms(3), of "Mem ?n"] by auto
  ultimately have "init_dataset sys lib ds ca nw w =
      Some (None \<notin> set wks, w\<lparr>next_id := n', dataset_inits := dataset_inits w @ lg\<rparr>)"
    using sp(1) jn(1) assms(4,5)
    by (simp add: init_dataset_def acquire_unchecked_runs assms(1) release_def)
  then show ?thesis using jn(2) sp(4) by (auto simp: o_def intro!: exI [of _ n'])
qed


section \<open>Initialisation owns what it keeps and frees the rest\<close>

definition opt_obj :: "(nat \<Rightarrow> obj) \<Rightarrow> nat option \<Rightarrow> obj set" where
  "opt_obj mk p = (case p of None \<Rightarrow> {} | Some n \<Rightarrow> {mk n})"

lemma opt_obj_simps [simp]: "opt_obj mk None = {}" "opt_obj mk (Some n) = {mk n}"
  by (simp_all add: opt_obj_def)

definition owned :: "nat \<Rightarrow> rx_state \<Rightarrow> obj set" where
  "owned s st = {Resource s} \<union> opt_obj Lock (lockPtr st) \<union> opt_obj Dataset (datasetPtr st) \<union> opt_obj Cache (cachePtr st)"

definition wf_world :: "'t world \<Rightarrow> bool" where
  "wf_world w \<longleftrightarrow> ledger_ok w \<and>
     (\<forall>n \<ge> next_id w. states w n = None \<and> refs w n = 0 \<and> readers w n = 0 \<and> \<not> writer w n)"

lemma release_opt:
  "opt_obj mk p \<subseteq> live w \<Longrightarrow>
   (case p of None \<Rightarrow> Some w | Some n \<Rightarrow> release (mk n) w) = Some (w\<lparr>live := live w - opt_obj mk p\<rparr>)"
  by (auto simp: release_def split: option.split)

definition lock_idle :: "nat option \<Rightarrow> 't world \<Rightarrow> bool" where
  "lock_idle lk w \<longleftrightarrow> (\<forall>l. lk = Some l \<longrightarrow> readers w l = 0 \<and> \<not> writer w l)"

lemma destroy_opt:
  assumes "opt_obj Lock lk \<subseteq> live w" "lock_idle lk w"
  shows "(case lk of None \<Rightarrow> Some w | Some l \<Rightarrow> enif_rwlock_destroy l w) = Some (w\<lparr>live := live w - opt_obj Lock lk\<rparr>)"
  using assms by (auto simp: release_def enif_rwlock_destroy_def lock_idle_def split: option.split)

lemma release_resource_cleared:
  assumes "states w s = Some st" "lockPtr st = None" "datasetPtr st = None" "cachePtr st = None"
    and "refs w s = 1" "Resource s \<in> live w"
  shows "enif_release_resource s w =
         Some (w\<lparr>live := live w - {Resource s}, refs := (refs w)(s := 0), states := (states w)(s := None)\<rparr>)"
  using assms by (simp add: enif_release_resource_def state_dtor_def release_randomx_def put_state_def release_def)

lemma init_failed_runs:
  assumes "states w s = Some st" "owned s st \<subseteq> live w" "lock_idle (lockPtr st) w" "refs w s = 1"
  shows "init_failed e s reason w =
         Some (error_nif e reason,
           w\<lparr>live := live w - owned s st, refs := (refs w)(s := 0), states := (states w)(s := None)\<rparr>)"
proof -
  let ?l = "opt_obj Lock (lockPtr st)" and ?c = "opt_obj Cache (cachePtr st)" and ?d = "opt_obj Dataset (datasetPtr st)"
  let ?w1 = "w\<lparr>live := live w - ?l\<rparr>"
  let ?w2 = "w\<lparr>live := live w - ?l - ?c\<rparr>"
  let ?w3 = "w\<lparr>live := live w - ?l - ?c - ?d\<rparr>"
  let ?st = "st\<lparr>lockPtr := None, cachePtr := None, datasetPtr := None\<rparr>"
  have sub: "?l \<subseteq> live w" "?c \<subseteq> live ?w1" "?d \<subseteq> live ?w2" "Resource s \<in> live ?w3"
    using assms(2) by (auto simp: owned_def opt_obj_def split: option.splits)
  have "enif_release_resource s (put_state s ?st ?w3) =
      Some (w\<lparr>live := live w - ?l - ?c - ?d - {Resource s}, refs := (refs w)(s := 0), states := (states w)(s := None)\<rparr>)"
    using release_resource_cleared [of "put_state s ?st ?w3" s ?st] sub(4) assms(4) by (simp add: put_state_def)
  moreover have "live w - ?l - ?c - ?d - {Resource s} = live w - owned s st" by (auto simp: owned_def)
  ultimately show ?thesis
    using assms(1) destroy_opt [OF sub(1) assms(3)] release_opt [OF sub(2)] release_opt [OF sub(3)]
    by (simp add: init_failed_def)
qed

text \<open>What a successful \<open>init\<close> leaves in the new state.\<close>

definition initialised ::
  "'m rx_lib \<Rightarrow> hashing_mode \<Rightarrow> nat \<Rightarrow> rx_flag set \<Rightarrow> bytes \<Rightarrow> 't world \<Rightarrow> rx_state \<Rightarrow> 't world \<Rightarrow> bool" where
  "initialised lib mode numWorkers flags key w st w' \<longleftrightarrow>
     lockPtr st \<noteq> None \<and> isRandomxReleased st = 0 \<and>
     (case mode of
        HASHING_MODE_FAST \<Rightarrow> cachePtr st = None \<and>
          (\<exists>d c. datasetPtr st = Some d \<and> cache_inits w' = cache_inits w @ [(c, flags, key)] \<and>
             dataset_inits w' = dataset_inits w @
               map (\<lambda>i. (d, c, item_range (randomx_dataset_item_count lib) numWorkers i)) [0..<numWorkers])
      | HASHING_MODE_LIGHT \<Rightarrow> datasetPtr st = None \<and> dataset_inits w' = dataset_inits w \<and>
          (\<exists>c. cachePtr st = Some c \<and> cache_inits w' = cache_inits w @ [(c, flags, key)]))"

definition init_outcome ::
  "'t enif \<Rightarrow> 'm rx_lib \<Rightarrow> hashing_mode \<Rightarrow> nat \<Rightarrow> rx_flag set \<Rightarrow> bytes \<Rightarrow> 't world \<Rightarrow> 't \<Rightarrow> 't world \<Rightarrow> bool" where
  "init_outcome e lib mode numWorkers flags key w r w' \<longleftrightarrow>
     ((\<exists>reason. r = error_nif e reason) \<and> live w' = live w \<and> states w' = states w \<and> refs w' = refs w \<or>
      (\<exists>s st. r = ok_tuple e (enif_make_resource e s) \<and> next_id w \<le> s \<and> states w' = (states w)(s \<mapsto> st) \<and>
         refs w' = (refs w)(s := 1) \<and> live w' = live w \<union> owned s st \<and> initialised lib mode numWorkers flags key w st w'))"


lemma acquire_cases:
  obtains (failed) "fails sys (next_id w)" "acquire (fails sys) mk w = (None, w\<lparr>next_id := Suc (next_id w)\<rparr>)"
  | (got) "\<not> fails sys (next_id w)"
      "acquire (fails sys) mk w = (Some (next_id w), w\<lparr>next_id := Suc (next_id w), live := insert (mk (next_id w)) (live w)\<rparr>)"
  by (cases "fails sys (next_id w)") (auto simp: acquire_def Let_def)

text \<open>
  The world after \<open>init\<close> has set up the resource \<open>s\<close> with the state \<open>st\<close>: the old world, the new
  objects, and nothing else but used-up identifiers and dataset initialisations.
\<close>

definition grown :: "'t world \<Rightarrow> nat \<Rightarrow> rx_state \<Rightarrow> nat \<Rightarrow> 't world \<Rightarrow> bool" where
  "grown w s st n w' \<longleftrightarrow>
     (\<exists>cl lg. w' = w\<lparr>next_id := n, live := live w \<union> owned s st, states := (states w)(s \<mapsto> st), refs := (refs w)(s := 1),
                cache_inits := cache_inits w @ cl, dataset_inits := dataset_inits w @ lg\<rparr>)"

lemma failed_grown:
  assumes "wf_world w" "next_id w \<le> s" "grown w s st n w'"
    and "\<And>ob. ob \<in> owned s st \<Longrightarrow> next_id w \<le> obj_id ob"
  shows "\<exists>w''. init_failed e s reason w' = Some (error_nif e reason, w'') \<and> init_outcome e lib mode k flags key w (error_nif e reason) w''"
proof -
  have fresh: "states w s = None" "refs w s = 0" using assms(1,2) by (simp_all add: wf_world_def)
  have w': "states w' s = Some st" "refs w' s = 1" "owned s st \<subseteq> live w'" "live w' = live w \<union> owned s st"
    "readers w' = readers w" "writer w' = writer w" "states w' = (states w)(s \<mapsto> st)" "refs w' = (refs w)(s := 1)"
    using assms(3) by (auto simp: grown_def)
  have "lock_idle (lockPtr st) w'"
    using assms(1) assms(4) [of "Lock l" for l] w'(5,6) by (auto simp: lock_idle_def wf_world_def owned_def)
  note run = init_failed_runs [OF w'(1,3) this w'(2), of e reason]
  have "ob \<notin> owned s st" if "ob \<in> live w" for ob
    using that assms(1) assms(4) [of ob] by (force simp: wf_world_def ledger_ok_def)
  then have "live w' - owned s st = live w" using w'(4) by auto
  moreover have "(refs w')(s := 0) = refs w" "(states w')(s := None) = states w"
    using w'(7,8) fresh by (simp_all add: fun_upd_idem)
  ultimately show ?thesis using run by (auto simp: init_outcome_def)
qed


lemma init_cases:
  "init e sys lib argv mode w = Some (enif_make_badarg e, w) \<or>
   (\<exists>key k jit large. init e sys lib argv mode w = init_state e sys lib mode key k jit large w \<and>
      enif_inspect_binary e (argv ! 0) = Some key \<and> enif_get_int e (argv ! 1) = Some jit \<and> enif_get_int e (argv ! 2) = Some large \<and>
      (mode = HASHING_MODE_FAST \<longrightarrow> enif_get_uint e (argv ! 3) = Some k))"
  unfolding init_def Let_def by (auto split: need_split if_split_asm)

lemmas init_state_unfold = init_state_def randomx_init_cache_def enif_alloc_resource_def acquire_def put_state_def world_order

lemma init_state_runs:
  fixes lib :: "'m rx_lib"
  assumes "\<And>n. \<not> oom sys n" "\<And>n. \<not> join_fails sys n" "wf_world w"
    and items: "randomx_dataset_item_count lib < 2 ^ 64"
    and workers: "mode = HASHING_MODE_FAST \<Longrightarrow> 0 < k \<and> k < 2 ^ 31"
  shows "\<exists>r w'. init_state e sys lib mode key k jit large w = Some (r, w') \<and>
           init_outcome e lib mode k (jit_flags lib jit \<union> (if large \<noteq> 0 then {LARGE_PAGES} else {})) key w r w'"
proof -
  let ?n = "next_id w" and ?f = "jit_flags lib jit \<union> (if large \<noteq> 0 then {LARGE_PAGES} else {})"
  let ?st = "\<lambda>lk da ca. \<lparr>lockPtr = lk, isRandomxReleased = 0, datasetPtr = da, cachePtr = ca\<rparr>"
  let ?W = "\<lambda>n st cl. w\<lparr>next_id := n, live := live w \<union> owned ?n st, states := (states w)(?n \<mapsto> st), refs := (refs w)(?n := 1),
      cache_inits := cache_inits w @ cl\<rparr>"
  let ?cl = "[(Suc (Suc ?n), ?f, key)]"
  have grown: "grown w ?n st m (?W m st cl)" for st m cl unfolding grown_def by (rule exI [of _ cl], rule exI [of _ "[]"]) simp
  have fail: "\<exists>r w'. init_failed e ?n reason w2 = Some (r, w') \<and> init_outcome e lib mode k ?f key w r w'"
    if "grown w ?n st m w2" "\<And>ob. ob \<in> owned ?n st \<Longrightarrow> ?n \<le> obj_id ob" for st m reason w2
    using failed_grown [OF assms(3) order_refl that, of e reason lib mode k ?f key] by blast
  have succeed: "init_outcome e lib mode k ?f key w (ok_tuple e (enif_make_resource e ?n)) w2"
    if "grown w ?n st m w2" "initialised lib mode k ?f key w st w2" for st m w2
    unfolding init_outcome_def by (rule disjI2, rule exI [of _ ?n], rule exI [of _ st]) (use that in \<open>auto simp: grown_def\<close>)
  consider (lock) "fails sys (Suc ?n)" | (cache) "\<not> fails sys (Suc ?n)" "fails sys (Suc (Suc ?n))"
    | (light) "\<not> fails sys (Suc ?n)" "\<not> fails sys (Suc (Suc ?n))" "mode = HASHING_MODE_LIGHT"
    | (dataset) "\<not> fails sys (Suc ?n)" "\<not> fails sys (Suc (Suc ?n))" "mode = HASHING_MODE_FAST" "fails sys (Suc (Suc (Suc ?n)))"
    | (fast) "\<not> fails sys (Suc ?n)" "\<not> fails sys (Suc (Suc ?n))" "mode = HASHING_MODE_FAST" "\<not> fails sys (Suc (Suc (Suc ?n)))"
    by (cases mode) auto
  then show ?thesis
  proof cases
    case lock
    let ?s = "?st None None None"
    have "init_state e sys lib mode key k jit large w = init_failed e ?n ''enif_rwlock_create failed'' (?W (Suc (Suc ?n)) ?s [])"
      using lock by (simp add: init_state_unfold Let_def owned_def)
    then show ?thesis by (simp only:) (rule fail [OF grown]; auto simp: owned_def)
  next
    case cache
    let ?s = "?st (Some (Suc ?n)) None None"
    have "init_state e sys lib mode key k jit large w =
        init_failed e ?n ''randomx_alloc_cache failed'' (?W (Suc (Suc (Suc ?n))) ?s [])"
      using cache by (simp add: init_state_unfold Let_def owned_def insert_commute)
    then show ?thesis by (simp only:) (rule fail [OF grown]; auto simp: owned_def)
  next
    case light
    let ?s = "?st (Some (Suc ?n)) None (Some (Suc (Suc ?n)))"
    have "init_state e sys lib mode key k jit large w =
        Some (ok_tuple e (enif_make_resource e ?n), ?W (Suc (Suc (Suc ?n))) ?s ?cl)"
      using light by (simp add: init_state_unfold Let_def owned_def insert_commute enif_keep_term_def enif_release_resource_def)
    moreover have "initialised lib mode k ?f key w ?s (?W (Suc (Suc (Suc ?n))) ?s ?cl)" using light(3) by (simp add: initialised_def)
    ultimately show ?thesis using succeed [OF grown] by blast
  next
    case dataset
    let ?s = "?st (Some (Suc ?n)) None (Some (Suc (Suc ?n)))"
    have "init_state e sys lib mode key k jit large w =
        init_failed e ?n ''randomx_alloc_dataset failed'' (?W (Suc (Suc (Suc (Suc ?n)))) ?s ?cl)"
      using dataset by (simp add: init_state_unfold Let_def owned_def insert_commute)
    then show ?thesis by (simp only:) (rule fail [OF grown]; auto simp: owned_def)
  next
    case fast
    let ?s = "?st (Some (Suc ?n)) (Some (Suc (Suc (Suc ?n)))) (Some (Suc (Suc ?n)))"
    let ?w = "?W (Suc (Suc (Suc (Suc ?n)))) ?s ?cl"
    let ?d = "Suc (Suc (Suc ?n))" and ?c = "Suc (Suc ?n)"
    have "ledger_ok ?w" using assms(3) by (auto simp: ledger_ok_def wf_world_def owned_def)
    from init_dataset_runs [OF assms(1,2) this _ _ items, of k ?d ?c] workers fast(3) obtain ok n' lg where
      ds: "init_dataset sys lib ?d ?c k ?w = Some (ok, ?w\<lparr>next_id := n', dataset_inits := dataset_inits ?w @ lg\<rparr>)"
      "ok \<longrightarrow> lg = map (\<lambda>i. range_log ?d ?c (item_range (randomx_dataset_item_count lib) k i)) [0..<k]"
      by (auto simp: owned_def)
    let ?w2 = "?w\<lparr>next_id := n', dataset_inits := dataset_inits w @ lg\<rparr>"
    show ?thesis
    proof (cases ok)
      case False
      have run: "init_state e sys lib mode key k jit large w = init_failed e ?n ''init_dataset failed'' ?w2"
        using fast ds(1) False by (simp add: init_state_unfold Let_def owned_def insert_commute)
      have g: "grown w ?n ?s n' ?w2" by (auto simp: grown_def world_order)
      have "?n \<le> obj_id ob" if "ob \<in> owned ?n ?s" for ob using that by (auto simp: owned_def)
      from fail [OF g this] run show ?thesis by (simp only:)
    next
      case True
      let ?s2 = "?s\<lparr>cachePtr := None\<rparr>"
      have "Cache ?c \<notin> live w" using assms(3) not_live_fresh [of w "Cache ?c"] by (simp add: wf_world_def)
      then have run: "init_state e sys lib mode key k jit large w =
          Some (ok_tuple e (enif_make_resource e ?n), (?W n' ?s2 ?cl)\<lparr>dataset_inits := dataset_inits w @ lg\<rparr>)"
        using fast ds(1) True
        by (auto simp: init_state_unfold Let_def owned_def insert_commute release_def enif_keep_term_def
            enif_release_resource_def insert_Diff_if)
      have "grown w ?n ?s2 n' ((?W n' ?s2 ?cl)\<lparr>dataset_inits := dataset_inits w @ lg\<rparr>)" by (auto simp: grown_def world_order)
      moreover have "initialised lib mode k ?f key w ?s2 ((?W n' ?s2 ?cl)\<lparr>dataset_inits := dataset_inits w @ lg\<rparr>)"
        using ds(2) True fast(3) by (auto simp: initialised_def range_log_def)
      ultimately show ?thesis using succeed run by blast
    qed
  qed
qed


section \<open>Properties\<close>

text \<open>A world with nothing in it, and libraries for the witnesses.\<close>

definition empty_world :: "'t world" where
  "empty_world = \<lparr>live = {}, next_id = 0, states = (\<lambda>_. None), refs = (\<lambda>_. 0), readers = (\<lambda>_. 0),
     writer = (\<lambda>_. False), cache_inits = [], dataset_inits = [], outbox = []\<rparr>"

lemma wf_empty_world [simp]: "wf_world empty_world"
  by (simp add: wf_world_def ledger_ok_def empty_world_def)

definition lib_with_items :: "nat \<Rightarrow> bytes rx_lib" where
  "lib_with_items n = \<lparr>machine = toy_machine, vm_fresh = (\<lambda>_ _ _. \<lparr>core = [], tempHash = []\<rparr>),
     randomx_calculate_hash = (\<lambda>v inp. (of_nat (be_val inp), v)),
     randomx_calculate_hash_first = (\<lambda>v inp. v\<lparr>tempHash := inp\<rparr>),
     randomx_calculate_hash_next = (\<lambda>v inp. (of_nat (be_val (tempHash v)), v\<lparr>tempHash := inp\<rparr>)),
     randomx_calculate_hash_last = (\<lambda>v. (of_nat (be_val (tempHash v)), v)),
     randomx_dataset_item_count = n, force_secure = False\<rparr>"

lemma lib_with_items_simps [simp]:
  "randomx_dataset_item_count (lib_with_items n) = n"
  "machine (lib_with_items n) = toy_machine"
  by (simp_all add: lib_with_items_def)

datatype toy_term = Bin bytes | Num int | Atom string | Str string | Tup "toy_term list" | Pid nat | Res nat | Lst "toy_term list"

abbreviation toy_world :: "toy_term world" where
  "toy_world \<equiv> empty_world"

definition toy_enif :: "toy_term enif" where
  "toy_enif = \<lparr>
     enif_inspect_binary = (\<lambda>t. case t of Bin b \<Rightarrow> Some b | _ \<Rightarrow> None),
     enif_inspect_iolist_as_binary = (\<lambda>t. case t of Bin b \<Rightarrow> Some b | _ \<Rightarrow> None),
     enif_get_int = (\<lambda>t. case t of Num i \<Rightarrow> c_int i | _ \<Rightarrow> None),
     enif_get_uint = (\<lambda>t. case t of Num i \<Rightarrow> if 0 \<le> i \<and> i < 2 ^ 32 then Some (nat i) else None | _ \<Rightarrow> None),
     enif_get_resource = (\<lambda>t. case t of Res n \<Rightarrow> Some n | _ \<Rightarrow> None),
     enif_get_list_length = (\<lambda>t. case t of Lst l \<Rightarrow> Some (length l) | _ \<Rightarrow> None),
     enif_get_list_cell = (\<lambda>t. case t of Lst (x # l) \<Rightarrow> Some (x, Lst l) | _ \<Rightarrow> None),
     enif_get_local_pid = (\<lambda>t. case t of Pid n \<Rightarrow> Some n | _ \<Rightarrow> None),
     enif_make_badarg = Atom ''badarg'', enif_make_atom = Atom, enif_make_string = Str, enif_make_tuple = Tup,
     enif_make_binary = Bin, enif_make_pid = Pid, enif_make_resource = Res, fresh_bytes = (\<lambda>n. replicate n 0)\<rparr>"

lemma toy_enif_simps [simp]:
  "enif_inspect_binary toy_enif (Bin b) = Some b" "enif_inspect_iolist_as_binary toy_enif (Bin b) = Some b"
  "enif_get_int toy_enif (Num i) = c_int i" "enif_get_resource toy_enif (Res n) = Some n"
  "enif_get_list_length toy_enif (Lst l) = Some (length l)"
  "enif_get_list_cell toy_enif (Lst (x # l)) = Some (x, Lst l)"
  "enif_get_local_pid toy_enif (Pid n) = Some n" "enif_make_binary toy_enif b = Bin b"
  "enif_make_tuple toy_enif ts = Tup ts" "enif_make_atom toy_enif a = Atom a" "enif_make_pid toy_enif n = Pid n"
  "fresh_bytes toy_enif n = replicate n 0"
  by (simp_all add: toy_enif_def)

lemma fresh_lengths_toy [simp]: "fresh_lengths toy_enif"
  by (simp add: fresh_lengths_def)

text \<open>
  Property C24: \<open>init\<close> never leaks and never frees twice when what it checks fails. For any arguments (in fast mode
  with at least one worker and fewer than \<open>2 ^ 31\<close>) and whichever of the creations of the lock, the cache, the
  dataset and the worker threads fail, \<open>init\<close> returns; after \<open>badarg\<close> or an error tuple the objects, states and
  reference counts are those of before the call; after success the only new objects are those that the returned
  state owns, with a lock, not released, and a dataset (fast mode, the cache being freed) or a cache (light mode).
  The cache was initialised exactly once, with the key and the flags of the arguments, and the dataset was filled
  from that cache. Not covered are a failing \<open>enif_alloc\<close>, whose result \<open>init_dataset\<close> uses unchecked, and a failing
  \<open>enif_thread_join\<close>.
\<close>

theorem init_never_leaks:
  fixes lib :: "'m rx_lib"
  assumes "\<forall>n. \<not> oom sys n" "\<forall>n. \<not> join_fails sys n" "wf_world w"
    and "randomx_dataset_item_count lib < 2 ^ 64"
    and "mode = HASHING_MODE_FAST \<Longrightarrow> \<forall>k. enif_get_uint e (argv ! 3) = Some k \<longrightarrow> 0 < k \<and> k < 2 ^ 31"
  shows "\<exists>r w'. init e sys lib argv mode w = Some (r, w') \<and>
           ((r = enif_make_badarg e \<or> (\<exists>reason. r = error_nif e reason)) \<and>
              live w' = live w \<and> states w' = states w \<and> refs w' = refs w \<or>
            (\<exists>s st k key jit large. r = ok_tuple e (enif_make_resource e s) \<and> next_id w \<le> s \<and> states w' = (states w)(s \<mapsto> st) \<and>
               refs w' = (refs w)(s := 1) \<and> live w' = live w \<union> owned s st \<and>
               initialised lib mode k (jit_flags lib jit \<union> (if large \<noteq> 0 then {LARGE_PAGES} else {})) key w st w' \<and>
               enif_inspect_binary e (argv ! 0) = Some key \<and> enif_get_int e (argv ! 1) = Some jit \<and> enif_get_int e (argv ! 2) = Some large \<and>
               (mode = HASHING_MODE_FAST \<longrightarrow> enif_get_uint e (argv ! 3) = Some k)))"
proof -
  have run: "\<exists>r w'. init_state e sys lib mode key k jit large w = Some (r, w') \<and>
      init_outcome e lib mode k (jit_flags lib jit \<union> (if large \<noteq> 0 then {LARGE_PAGES} else {})) key w r w'"
    if "mode = HASHING_MODE_FAST \<Longrightarrow> 0 < k \<and> k < 2 ^ 31" for key k jit large
    using assms(1-4) that by (intro init_state_runs) auto
  consider "init e sys lib argv mode w = Some (enif_make_badarg e, w)"
    | key k jit large where "init e sys lib argv mode w = init_state e sys lib mode key k jit large w"
        "enif_inspect_binary e (argv ! 0) = Some key" "enif_get_int e (argv ! 1) = Some jit" "enif_get_int e (argv ! 2) = Some large"
        "mode = HASHING_MODE_FAST \<longrightarrow> enif_get_uint e (argv ! 3) = Some k"
    using init_cases by blast
  then show ?thesis
  proof cases
    case 2
    then have "mode = HASHING_MODE_FAST \<Longrightarrow> 0 < k \<and> k < 2 ^ 31" using assms(5) by blast
    from run [OF this, of key jit large] obtain r w' where
      "init e sys lib argv mode w = Some (r, w')" "init_outcome e lib mode k (jit_flags lib jit \<union> (if large \<noteq> 0 then {LARGE_PAGES} else {})) key w r w'"
      using 2(1) by auto
    then show ?thesis using 2(2-) unfolding init_outcome_def by (intro exI [of _ r] exI [of _ w']) blast
  qed auto
qed

theorem init_never_leaks_witness:
  "\<exists>r w'. init toy_enif \<lparr>fails = (\<lambda>n. n = 5), oom = (\<lambda>_. False), join_fails = (\<lambda>_. False)\<rparr> (lib_with_items 10)
      [Bin [1, 2], Num 1, Num 0, Num 3] HASHING_MODE_FAST toy_world = Some (r, w') \<and>
     ((r = enif_make_badarg toy_enif \<or> (\<exists>reason. r = error_nif toy_enif reason)) \<and>
        live w' = live toy_world \<and> states w' = states toy_world \<and> refs w' = refs toy_world \<or>
      (\<exists>s st k key jit large. r = ok_tuple toy_enif (enif_make_resource toy_enif s) \<and> next_id toy_world \<le> s \<and>
         states w' = (states toy_world)(s \<mapsto> st) \<and> refs w' = (refs toy_world)(s := 1) \<and>
         live w' = live toy_world \<union> owned s st \<and>
         initialised (lib_with_items 10) HASHING_MODE_FAST k
           (jit_flags (lib_with_items 10) jit \<union> (if large \<noteq> 0 then {LARGE_PAGES} else {})) key toy_world st w' \<and>
         enif_inspect_binary toy_enif ([Bin [1, 2], Num 1, Num 0, Num 3] ! 0) = Some key \<and>
         enif_get_int toy_enif ([Bin [1, 2], Num 1, Num 0, Num 3] ! 1) = Some jit \<and>
         enif_get_int toy_enif ([Bin [1, 2], Num 1, Num 0, Num 3] ! 2) = Some large \<and>
         (HASHING_MODE_FAST = HASHING_MODE_FAST \<longrightarrow>
            enif_get_uint toy_enif ([Bin [1, 2], Num 1, Num 0, Num 3] ! 3) = Some k)))"
  by (rule init_never_leaks) (simp_all add: toy_enif_def)

text \<open>
  Property C35: the workers of \<open>init_dataset\<close> initialise every item of the dataset exactly once. When
  \<open>init_dataset\<close> reports success, the ranges its threads were given, laid end to end, are the items
  from 0 to the item count, for every positive number of workers; all its memory is free again.
\<close>

theorem init_dataset_covers:
  fixes lib :: "'m rx_lib"
  assumes "\<forall>n. \<not> oom sys n" "\<forall>n. \<not> join_fails sys n" "ledger_ok w" "0 < nw" "nw < 2 ^ 31"
    and "randomx_dataset_item_count lib < 2 ^ 64" "Dataset ds \<in> live w" "Cache ca \<in> live w"
  shows "\<exists>ok w'. init_dataset sys lib ds ca nw w = Some (ok, w') \<and> live w' = live w \<and>
           (ok \<longrightarrow> (\<exists>lg. dataset_inits w' = dataset_inits w @ lg \<and> length lg = nw \<and>
              (\<forall>(d, c, r) \<in> set lg. d = ds \<and> c = ca) \<and>
              concat (map (\<lambda>(d, c, a, k). [a..<a + k]) lg) = [0..<randomx_dataset_item_count lib]))"
proof -
  let ?items = "randomx_dataset_item_count lib"
  have "\<exists>ok n' lg. init_dataset sys lib ds ca nw w =
           Some (ok, w\<lparr>next_id := n', dataset_inits := dataset_inits w @ lg\<rparr>) \<and> next_id w \<le> n' \<and>
         (ok \<longrightarrow> lg = map (\<lambda>i. range_log ds ca (item_range ?items nw i)) [0..<nw])"
    using assms by (intro init_dataset_runs) auto
  then obtain ok n' lg where r: "init_dataset sys lib ds ca nw w = Some (ok, w\<lparr>next_id := n', dataset_inits := dataset_inits w @ lg\<rparr>)"
     "ok \<longrightarrow> lg = map (\<lambda>i. range_log ds ca (item_range ?items nw i)) [0..<nw]" by blast
  show ?thesis
    using r item_ranges_partition [OF assms(4), of ?items]
    by (auto simp: range_log_def o_def intro!: exI [of _ lg])
qed

theorem init_dataset_covers_witness:
  "\<exists>ok w'. init_dataset \<lparr>fails = (\<lambda>_. False), oom = (\<lambda>_. False), join_fails = (\<lambda>_. False)\<rparr> (lib_with_items 10) 0 1 3
       (toy_world\<lparr>live := {Dataset 0, Cache 1}, next_id := 2\<rparr>) = Some (ok, w') \<and>
     live w' = live (toy_world\<lparr>live := {Dataset 0, Cache 1}, next_id := 2\<rparr>) \<and>
     (ok \<longrightarrow> (\<exists>lg. dataset_inits w' = dataset_inits (toy_world\<lparr>live := {Dataset 0, Cache 1}, next_id := 2\<rparr>) @ lg \<and>
        length lg = 3 \<and> (\<forall>(d, c, r) \<in> set lg. d = 0 \<and> c = 1) \<and>
        concat (map (\<lambda>(d, c, a, k). [a..<a + k]) lg) = [0..<randomx_dataset_item_count (lib_with_items 10)]))"
  by (rule init_dataset_covers) (auto simp: ledger_ok_def empty_world_def)

end
