(* ===== verification/Rx_Nifs.thy ===== *)
theory Rx_Nifs
  imports Rx_State
begin

text \<open>
  The native functions of \<open>ar_mine_randomx.c\<close> that hash one input or pack, unpack and repack one
  chunk. Each checks its arguments in the order of the code, obtains a machine under the read lock
  of the state, computes, and destroys the machine.
\<close>

definition MAX_CHUNK_SIZE :: nat where
  "MAX_CHUNK_SIZE = 256 * 1024"

text \<open>
  The section that the single-input functions share: \<open>create_vm\<close>, the two error returns, the
  computation on the machine, \<open>destroy_vm\<close>.
\<close>

definition with_vm ::
  "'t enif \<Rightarrow> sys \<Rightarrow> 'm rx_lib \<Rightarrow> nat \<Rightarrow> bool \<Rightarrow> int \<Rightarrow> int \<Rightarrow> int
   \<Rightarrow> ('m randomx_vm \<Rightarrow> 't world \<Rightarrow> ('t \<times> 't world) option) \<Rightarrow> 't world \<Rightarrow> ('t \<times> 't world) option" where
  "with_vm e sys lib s fullMemEnabled jitEnabled largePagesEnabled hardwareAESEnabled body w = do {
     (released, vmPtr, w) \<leftarrow> create_vm sys lib s fullMemEnabled jitEnabled largePagesEnabled hardwareAESEnabled w;
     case vmPtr of
       None \<Rightarrow> (if released \<noteq> 0 then Some (error_nif e ''state has been released'', w)
                else Some (error_nif e ''randomx_create_vm failed'', w))
     | Some (v, vm) \<Rightarrow> do {
         (r, w) \<leftarrow> body vm w;
         w \<leftarrow> destroy_vm s v w;
         Some (r, w) } }"

section \<open>Chunks\<close>

definition decrypt_chunk ::
  "'t enif \<Rightarrow> hash_fn \<Rightarrow> 'm rx_lib \<Rightarrow> 'm randomx_vm \<Rightarrow> bytes \<Rightarrow> bytes \<Rightarrow> nat \<Rightarrow> bytes \<Rightarrow> int \<Rightarrow> int
   \<Rightarrow> ('t \<times> bytes \<times> 'm randomx_vm) option" where
  "decrypt_chunk e sha256 lib vm input inChunk inChunkSize outChunk outChunkSize randomxProgramCount = do {
     (outChunk, vm) \<leftarrow> randomx_decrypt_chunk sha256 (machine lib) vm input inChunk inChunkSize outChunk randomxProgramCount;
     r \<leftarrow> make_output_binary e outChunk outChunkSize;
     Some (r, outChunk, vm) }"

text \<open>
  A short chunk is padded with zeros to the full size, in a block that is freed afterwards; the result of
  \<open>malloc\<close> is used unchecked. The output always has the full size.
\<close>

definition encrypt_chunk ::
  "'t enif \<Rightarrow> sys \<Rightarrow> hash_fn \<Rightarrow> 'm rx_lib \<Rightarrow> 'm randomx_vm \<Rightarrow> bytes \<Rightarrow> bytes \<Rightarrow> nat \<Rightarrow> int \<Rightarrow> 't world
   \<Rightarrow> ('t \<times> 'm randomx_vm \<times> 't world) option" where
  "encrypt_chunk e sys sha256 lib vm input inChunk inChunkSize randomxProgramCount w = do {
     let encryptedChunk = fresh_bytes e MAX_CHUNK_SIZE;
     (encryptedChunk, vm, w) \<leftarrow>
       (if inChunkSize < MAX_CHUNK_SIZE then do {
          (p, w) \<leftarrow> acquire_unchecked sys Mem w;
          let paddedInChunk = replicate MAX_CHUNK_SIZE 0;
          src \<leftarrow> rd inChunk 0 inChunkSize;
          paddedInChunk \<leftarrow> wr paddedInChunk 0 src;
          (encryptedChunk, vm) \<leftarrow> randomx_encrypt_chunk sha256 (machine lib) vm input paddedInChunk MAX_CHUNK_SIZE
            encryptedChunk randomxProgramCount;
          w \<leftarrow> release (Mem p) w;
          Some (encryptedChunk, vm, w) }
        else do {
          (encryptedChunk, vm) \<leftarrow> randomx_encrypt_chunk sha256 (machine lib) vm input inChunk inChunkSize
            encryptedChunk randomxProgramCount;
          Some (encryptedChunk, vm, w) });
     Some (enif_make_binary e encryptedChunk, vm, w) }"

section \<open>Hashing\<close>

definition randomx_hash_nif ::
  "'t enif \<Rightarrow> sys \<Rightarrow> 'm rx_lib \<Rightarrow> 't list \<Rightarrow> hashing_mode \<Rightarrow> 't world \<Rightarrow> ('t \<times> 't world) option" where
  "randomx_hash_nif e sys lib argv hashingMode w =
     (let badarg = Some (enif_make_badarg e, w)
      in if length argv \<noteq> 5 then badarg
         else need (enif_get_resource e (argv ! 0)) (Some (error_nif e ''failed to read state'', w)) (\<lambda>s.
              need (enif_inspect_binary e (argv ! 1)) badarg (\<lambda>inputData.
              need (enif_get_int e (argv ! 2)) badarg (\<lambda>jitEnabled.
              need (enif_get_int e (argv ! 3)) badarg (\<lambda>largePagesEnabled.
              need (enif_get_int e (argv ! 4)) badarg (\<lambda>hardwareAESEnabled.
              with_vm e sys lib s (hashingMode = HASHING_MODE_FAST) jitEnabled largePagesEnabled hardwareAESEnabled
                (\<lambda>vm w. do {
                   let (hash, vm) = randomx_calculate_hash lib vm inputData;
                   h \<leftarrow> make_output_binary e (digest hash) 32;
                   Some (ok_tuple e h, w) }) w))))))"

definition hash_fast_nif :: "'t enif \<Rightarrow> sys \<Rightarrow> 'm rx_lib \<Rightarrow> 't list \<Rightarrow> 't world \<Rightarrow> ('t \<times> 't world) option" where
  "hash_fast_nif e sys lib argv w = randomx_hash_nif e sys lib argv HASHING_MODE_FAST w"

definition hash_light_nif :: "'t enif \<Rightarrow> sys \<Rightarrow> 'm rx_lib \<Rightarrow> 't list \<Rightarrow> 't world \<Rightarrow> ('t \<times> 't world) option" where
  "hash_light_nif e sys lib argv w = randomx_hash_nif e sys lib argv HASHING_MODE_LIGHT w"

text \<open>The hash must exceed the difficulty; here an unreadable state is \<open>badarg\<close>.\<close>

definition hash_fast_verify_nif ::
  "'t enif \<Rightarrow> sys \<Rightarrow> 'm rx_lib \<Rightarrow> 't list \<Rightarrow> 't world \<Rightarrow> ('t \<times> 't world) option" where
  "hash_fast_verify_nif e sys lib argv w =
     (let badarg = Some (enif_make_badarg e, w)
      in if length argv \<noteq> 6 then badarg
         else need (enif_get_resource e (argv ! 0)) badarg (\<lambda>s.
              need (enif_inspect_binary e (argv ! 1)) badarg (\<lambda>difficulty.
              if length difficulty \<noteq> 32 then badarg else
              need (enif_inspect_iolist_as_binary e (argv ! 2)) badarg (\<lambda>inputData.
              need (enif_get_int e (argv ! 3)) badarg (\<lambda>jitEnabled.
              need (enif_get_int e (argv ! 4)) badarg (\<lambda>largePagesEnabled.
              need (enif_get_int e (argv ! 5)) badarg (\<lambda>hardwareAESEnabled.
              with_vm e sys lib s True jitEnabled largePagesEnabled hardwareAESEnabled
                (\<lambda>vm w. do {
                   let (hash, vm) = randomx_calculate_hash lib vm inputData;
                   r \<leftarrow> validate_hash (digest hash) difficulty;
                   if r > 0 then do {
                     hashTerm \<leftarrow> make_output_binary e (digest hash) 32;
                     Some (solution_tuple e hashTerm, w) }
                   else Some (enif_make_atom e ''false'', w) }) w)))))))"

definition randomx_hash_long_with_entropy_nif ::
  "'t enif \<Rightarrow> sys \<Rightarrow> 'm rx_lib \<Rightarrow> 't list \<Rightarrow> hashing_mode \<Rightarrow> 't world \<Rightarrow> ('t \<times> 't world) option" where
  "randomx_hash_long_with_entropy_nif e sys lib argv hashingMode w =
     (let badarg = Some (enif_make_badarg e, w)
      in if length argv \<noteq> 6 then badarg
         else need (enif_get_resource e (argv ! 0)) (Some (error_nif e ''failed to read state'', w)) (\<lambda>s.
              need (enif_inspect_binary e (argv ! 1)) badarg (\<lambda>inputData.
              need (enif_get_int e (argv ! 2)) badarg (\<lambda>randomxRoundCount.
              need (enif_get_int e (argv ! 3)) badarg (\<lambda>jitEnabled.
              need (enif_get_int e (argv ! 4)) badarg (\<lambda>largePagesEnabled.
              need (enif_get_int e (argv ! 5)) badarg (\<lambda>hardwareAESEnabled.
              with_vm e sys lib s (hashingMode = HASHING_MODE_FAST) jitEnabled largePagesEnabled hardwareAESEnabled
                (\<lambda>vm w. do {
                   let entropyPtr = fresh_bytes e RANDOMX_ENTROPY_SIZE;
                   (hash, entropy, vm) \<leftarrow>
                     randomx_calculate_hash_long_with_entropy (machine lib) vm inputData randomxRoundCount;
                   entropyPtr \<leftarrow> wr entropyPtr 0 entropy;
                   h \<leftarrow> make_output_binary e (digest hash) 32;
                   Some (ok_tuple2 e h (enif_make_binary e entropyPtr), w) }) w)))))))"

definition hash_fast_long_with_entropy_nif ::
  "'t enif \<Rightarrow> sys \<Rightarrow> 'm rx_lib \<Rightarrow> 't list \<Rightarrow> 't world \<Rightarrow> ('t \<times> 't world) option" where
  "hash_fast_long_with_entropy_nif e sys lib argv w =
     randomx_hash_long_with_entropy_nif e sys lib argv HASHING_MODE_FAST w"

definition hash_light_long_with_entropy_nif ::
  "'t enif \<Rightarrow> sys \<Rightarrow> 'm rx_lib \<Rightarrow> 't list \<Rightarrow> 't world \<Rightarrow> ('t \<times> 't world) option" where
  "hash_light_long_with_entropy_nif e sys lib argv w =
     randomx_hash_long_with_entropy_nif e sys lib argv HASHING_MODE_LIGHT w"

section \<open>Packing\<close>

definition randomx_encrypt_chunk_nif ::
  "'t enif \<Rightarrow> sys \<Rightarrow> hash_fn \<Rightarrow> 'm rx_lib \<Rightarrow> 't list \<Rightarrow> 't world \<Rightarrow> ('t \<times> 't world) option" where
  "randomx_encrypt_chunk_nif e sys sha256 lib argv w =
     (let badarg = Some (enif_make_badarg e, w)
      in if length argv \<noteq> 7 then badarg
         else need (enif_get_resource e (argv ! 0)) (Some (error_nif e ''failed to read state'', w)) (\<lambda>s.
              need (enif_inspect_binary e (argv ! 1)) badarg (\<lambda>inputData.
              need (enif_inspect_binary e (argv ! 2)) badarg (\<lambda>inputChunk.
              if length inputChunk = 0 \<or> length inputChunk > MAX_CHUNK_SIZE then badarg else
              need (enif_get_int e (argv ! 3)) badarg (\<lambda>randomxRoundCount.
              need (enif_get_int e (argv ! 4)) badarg (\<lambda>jitEnabled.
              need (enif_get_int e (argv ! 5)) badarg (\<lambda>largePagesEnabled.
              need (enif_get_int e (argv ! 6)) badarg (\<lambda>hardwareAESEnabled.
              with_vm e sys lib s True jitEnabled largePagesEnabled hardwareAESEnabled
                (\<lambda>vm w. do {
                   (outChunkTerm, vm, w) \<leftarrow>
                     encrypt_chunk e sys sha256 lib vm inputData inputChunk (length inputChunk) randomxRoundCount w;
                   Some (ok_tuple e outChunkTerm, w) }) w))))))))"

definition randomx_decrypt_chunk_nif ::
  "'t enif \<Rightarrow> sys \<Rightarrow> hash_fn \<Rightarrow> 'm rx_lib \<Rightarrow> 't list \<Rightarrow> 't world \<Rightarrow> ('t \<times> 't world) option" where
  "randomx_decrypt_chunk_nif e sys sha256 lib argv w =
     (let badarg = Some (enif_make_badarg e, w)
      in if length argv \<noteq> 8 then badarg
         else need (enif_get_resource e (argv ! 0)) (Some (error_nif e ''failed to read state'', w)) (\<lambda>s.
              need (enif_inspect_binary e (argv ! 1)) badarg (\<lambda>inputData.
              need (enif_inspect_binary e (argv ! 2)) badarg (\<lambda>inputChunk.
              need (enif_get_int e (argv ! 3)) badarg (\<lambda>outChunkLen.
              need (enif_get_int e (argv ! 4)) badarg (\<lambda>randomxRoundCount.
              need (enif_get_int e (argv ! 5)) badarg (\<lambda>jitEnabled.
              need (enif_get_int e (argv ! 6)) badarg (\<lambda>largePagesEnabled.
              need (enif_get_int e (argv ! 7)) badarg (\<lambda>hardwareAESEnabled.
              with_vm e sys lib s True jitEnabled largePagesEnabled hardwareAESEnabled
                (\<lambda>vm w. do {
                   let outChunk = fresh_bytes e MAX_CHUNK_SIZE;
                   (decryptedChunkTerm, outChunk, vm) \<leftarrow>
                     decrypt_chunk e sha256 lib vm inputData inputChunk (length inputChunk) outChunk outChunkLen randomxRoundCount;
                   Some (ok_tuple e decryptedChunkTerm, w) }) w)))))))))"

definition randomx_reencrypt_chunk_nif ::
  "'t enif \<Rightarrow> sys \<Rightarrow> hash_fn \<Rightarrow> 'm rx_lib \<Rightarrow> 't list \<Rightarrow> 't world \<Rightarrow> ('t \<times> 't world) option" where
  "randomx_reencrypt_chunk_nif e sys sha256 lib argv w =
     (let badarg = Some (enif_make_badarg e, w)
      in if length argv \<noteq> 10 then badarg
         else need (enif_get_resource e (argv ! 0)) (Some (error_nif e ''failed to read state'', w)) (\<lambda>s.
              need (enif_inspect_binary e (argv ! 1)) badarg (\<lambda>decryptKey.
              need (enif_inspect_binary e (argv ! 2)) badarg (\<lambda>encryptKey.
              need (enif_inspect_binary e (argv ! 3)) badarg (\<lambda>inputChunk.
              if length inputChunk = 0 then badarg else
              need (enif_get_int e (argv ! 4)) badarg (\<lambda>chunkSize.
              if chunkSize = 0 \<or> chunkSize > int MAX_CHUNK_SIZE then badarg else
              need (enif_get_int e (argv ! 5)) badarg (\<lambda>decryptRandomxRoundCount.
              need (enif_get_int e (argv ! 6)) badarg (\<lambda>encryptRandomxRoundCount.
              need (enif_get_int e (argv ! 7)) badarg (\<lambda>jitEnabled.
              need (enif_get_int e (argv ! 8)) badarg (\<lambda>largePagesEnabled.
              need (enif_get_int e (argv ! 9)) badarg (\<lambda>hardwareAESEnabled.
              with_vm e sys lib s True jitEnabled largePagesEnabled hardwareAESEnabled
                (\<lambda>vm w. do {
                   let decryptedChunk = fresh_bytes e MAX_CHUNK_SIZE;
                   (decryptedChunkTerm, decryptedChunk, vm) \<leftarrow>
                     decrypt_chunk e sha256 lib vm decryptKey inputChunk (length inputChunk) decryptedChunk chunkSize
                       decryptRandomxRoundCount;
                   (reencryptedChunkTerm, vm, w) \<leftarrow>
                     encrypt_chunk e sys sha256 lib vm encryptKey decryptedChunk (nat chunkSize) encryptRandomxRoundCount w;
                   Some (ok_tuple2 e reencryptedChunkTerm decryptedChunkTerm, w) }) w)))))))))))"


section \<open>The machine section\<close>

definition vm_flags :: "'m rx_lib \<Rightarrow> bool \<Rightarrow> int \<Rightarrow> int \<Rightarrow> int \<Rightarrow> rx_flag set" where
  "vm_flags lib full jit large aes =
     (if full then {FULL_MEM} else {}) \<union> (if aes \<noteq> 0 then {HARD_AES} else {})
       \<union> jit_flags lib jit \<union> (if large \<noteq> 0 then {LARGE_PAGES} else {})"

lemma full_mem_vm_flags [simp]: "FULL_MEM \<in> vm_flags lib full jit large aes \<longleftrightarrow> full"
  by (auto simp: vm_flags_def jit_flags_def)

text \<open>
  A state a call can use: its lock exists and no writer holds it; unless it was released, the dataset
  (full memory) or the cache (light) is live.
\<close>

definition state_usable :: "nat \<Rightarrow> rx_state \<Rightarrow> bool \<Rightarrow> 't world \<Rightarrow> bool" where
  "state_usable s st full w \<longleftrightarrow>
     states w s = Some st \<and> (\<exists>l. lockPtr st = Some l \<and> Lock l \<in> live w \<and> \<not> writer w l) \<and>
     (isRandomxReleased st = 0 \<longrightarrow>
        (if full then \<exists>d. datasetPtr st = Some d \<and> Dataset d \<in> live w
         else \<exists>c. cachePtr st = Some c \<and> Cache c \<in> live w))"

definition vm_for :: "'m rx_lib \<Rightarrow> rx_state \<Rightarrow> bool \<Rightarrow> int \<Rightarrow> int \<Rightarrow> int \<Rightarrow> 'm randomx_vm" where
  "vm_for lib st full jit large aes = vm_fresh lib (vm_flags lib full jit large aes) (cachePtr st) (datasetPtr st)"

text \<open>The world in which the computation runs: with the read lock and a new machine.\<close>

definition holding :: "rx_state \<Rightarrow> 't world \<Rightarrow> 't world" where
  "holding st w = (let l = the (lockPtr st); n = next_id w
     in w\<lparr>readers := (readers w)(l := Suc (readers w l)), next_id := Suc n, live := insert (Vm n) (live w)\<rparr>)"

text \<open>All branches of the section.\<close>

lemma with_vm_cases:
  assumes "state_usable s st full w"
  shows "with_vm e sys lib s full jit large aes body w =
     (if isRandomxReleased st \<noteq> 0 then Some (error_nif e ''state has been released'', w)
      else if fails sys (next_id w) then Some (error_nif e ''randomx_create_vm failed'', w\<lparr>next_id := Suc (next_id w)\<rparr>)
      else do { (r, w2) \<leftarrow> body (vm_for lib st full jit large aes) (holding st w);
                w2 \<leftarrow> destroy_vm s (next_id w) w2; Some (r, w2) })"
proof -
  obtain l where l: "states w s = Some st" "lockPtr st = Some l" "Lock l \<in> live w" "\<not> writer w l"
    using assms(1) by (auto simp: state_usable_def)
  let ?w = "w\<lparr>readers := (readers w)(l := Suc (readers w l))\<rparr>"
  have lock: "enif_rwlock_rlock (lockPtr st) w = Some ?w" using l by (simp add: enif_rwlock_rlock_def)
  have unlock: "enif_rwlock_runlock (lockPtr st) (?w\<lparr>next_id := n\<rparr>) = Some (w\<lparr>next_id := n\<rparr>)" for n
    using l by (simp add: enif_rwlock_runlock_def)
  have unlock0: "enif_rwlock_runlock (lockPtr st) ?w = Some w" using unlock [of "next_id w"] by simp
  show ?thesis
  proof (cases "isRandomxReleased st = 0")
    case False
    then show ?thesis using l(1) lock unlock0 by (simp add: with_vm_def create_vm_def)
  next
    case True
    have vm: "randomx_create_vm sys lib (vm_flags lib full jit large aes) (cachePtr st) (datasetPtr st) ?w =
       (if fails sys (next_id w) then Some (None, ?w\<lparr>next_id := Suc (next_id w)\<rparr>)
        else Some (Some (next_id w, vm_for lib st full jit large aes), holding st w))"
      using assms(1) True l(2)
      by (auto simp: randomx_create_vm_def acquire_def Let_def state_usable_def vm_for_def holding_def split: if_splits)
    have "create_vm sys lib s full jit large aes w =
       (if fails sys (next_id w) then Some (0, None, w\<lparr>next_id := Suc (next_id w)\<rparr>)
        else Some (0, Some (next_id w, vm_for lib st full jit large aes), holding st w))"
      using l(1) lock unlock vm True unfolding create_vm_def vm_flags_def by simp
    then show ?thesis using True by (simp add: with_vm_def)
  qed
qed

lemma holding_simps [simp]: "next_id (holding st w) = Suc (next_id w)" "ledger_ok w \<Longrightarrow> ledger_ok (holding st w)"
  by (auto simp: holding_def Let_def ledger_ok_def less_SucI)

text \<open>Destroying the machine undoes \<open>holding\<close>, whatever identifiers the computation has used up.\<close>

lemma destroy_holding:
  assumes "state_usable s st full w" "ledger_ok w"
  shows "destroy_vm s (next_id w) (holding st w\<lparr>next_id := n\<rparr>) = Some (w\<lparr>next_id := n\<rparr>)"
proof -
  have "Vm (next_id w) \<notin> live w" using assms(2) not_live_fresh [of w "Vm (next_id w)"] by simp
  then show ?thesis
    using assms(1) by (auto simp: state_usable_def holding_def Let_def destroy_vm_def release_def enif_rwlock_runlock_def)
qed

lemma destroy_holding_now:
  assumes "state_usable s st full w" "ledger_ok w"
  shows "destroy_vm s (next_id w) (holding st w) = Some (w\<lparr>next_id := Suc (next_id w)\<rparr>)"
proof -
  have "holding st w\<lparr>next_id := Suc (next_id w)\<rparr> = holding st w" by (simp add: holding_def Let_def)
  then show ?thesis using destroy_holding [OF assms, of "Suc (next_id w)"] by (simp only:)
qed

lemma with_vm_returns:
  assumes "state_usable s st full w" "ledger_ok w" "isRandomxReleased st = 0" "\<not> fails sys (next_id w)"
    and "body (vm_for lib st full jit large aes) (holding st w) = Some (r, holding st w\<lparr>next_id := n\<rparr>)"
  shows "with_vm e sys lib s full jit large aes body w = Some (r, w\<lparr>next_id := n\<rparr>)"
  using assms destroy_holding [OF assms(1,2)] by (simp add: with_vm_cases [OF assms(1)])

text \<open>Whatever the state, a call that returns has put everything back.\<close>

definition same_but_id :: "'t world \<Rightarrow> 't world \<Rightarrow> bool" where
  "same_but_id w w' \<longleftrightarrow> (\<exists>n \<ge> next_id w. w' = w\<lparr>next_id := n\<rparr>)"

lemma same_but_id_refl [simp]: "same_but_id w w"
  by (auto simp: same_but_id_def intro: exI [of _ "next_id w"])

lemma same_but_id_Suc [simp]: "same_but_id w (w\<lparr>next_id := Suc (next_id w)\<rparr>)"
  by (auto simp: same_but_id_def intro: exI [of _ "Suc (next_id w)"])

lemma rlock_keeps:
  "enif_rwlock_rlock lk w = Some w1 \<Longrightarrow>
   \<exists>l. lk = Some l \<and> w1 = w\<lparr>readers := (readers w)(l := Suc (readers w l))\<rparr> \<and> Lock l \<in> live w \<and> \<not> writer w l"
  by (cases lk) (auto simp: enif_rwlock_rlock_def split: if_splits)

text \<open>A computation that frees what it allocates.\<close>

definition restoring :: "('m randomx_vm \<Rightarrow> 't world \<Rightarrow> ('t \<times> 't world) option) \<Rightarrow> bool" where
  "restoring body \<longleftrightarrow> (\<forall>vm w r w'. ledger_ok w \<longrightarrow> body vm w = Some (r, w') \<longrightarrow> same_but_id w w')"

lemma with_vm_same:
  assumes "with_vm e sys lib s full jit large aes body w = Some (r, w')" "ledger_ok w" "restoring body"
  shows "same_but_id w w'"
proof -
  obtain st w1 where st: "states w s = Some st" "enif_rwlock_rlock (lockPtr st) w = Some w1"
    using assms(1) by (auto simp: with_vm_def create_vm_def bind_eq_Some_conv)
  then obtain l where l: "lockPtr st = Some l" "Lock l \<in> live w" "\<not> writer w l" using rlock_keeps by blast
  have u: "state_usable s st full w"
    using assms(1) st l
    by (auto simp: with_vm_def create_vm_def randomx_create_vm_def state_usable_def bind_eq_Some_conv assert_that_def
        vm_flags_def jit_flags_def enif_rwlock_rlock_def split: if_splits)
  note res = assms(1) [unfolded with_vm_cases [OF u]]
  show ?thesis
  proof (cases "isRandomxReleased st \<noteq> 0 \<or> fails sys (next_id w)")
    case True
    then show ?thesis using res by (auto split: if_splits)
  next
    case False
    then obtain w2 where w2: "body (vm_for lib st full jit large aes) (holding st w) = Some (r, w2)"
        "destroy_vm s (next_id w) w2 = Some w'" using res by (auto simp: bind_eq_Some_conv)
    then obtain n where "w2 = holding st w\<lparr>next_id := n\<rparr>" "Suc (next_id w) \<le> n"
      using assms(2,3) unfolding restoring_def same_but_id_def by (metis holding_simps)
    then show ?thesis using w2(2) destroy_holding [OF u assms(2)] by (auto simp: same_but_id_def intro!: exI [of _ n])
  qed
qed

definition restores :: "'t world \<Rightarrow> ('t \<times> 't world) option \<Rightarrow> bool" where
  "restores w res \<longleftrightarrow> (\<forall>r w'. res = Some (r, w') \<longrightarrow> same_but_id w w')"

lemma restores_simps [simp]: "restores w None" "restores w (Some (r, w))"
  by (simp_all add: restores_def)

lemma restores_with_vm: "ledger_ok w \<Longrightarrow> restoring body \<Longrightarrow> restores w (with_vm e sys lib s full jit large aes body w)"
  by (simp add: restores_def with_vm_same)

section \<open>Chunks of any length up to the maximum\<close>

definition pad_chunk :: "bytes \<Rightarrow> bytes" where
  "pad_chunk chunk = chunk @ replicate (MAX_CHUNK_SIZE - length chunk) 0"

lemma length_pad_chunk: "length chunk \<le> MAX_CHUNK_SIZE \<Longrightarrow> length (pad_chunk chunk) = 64 * Suc 4095"
  by (simp add: pad_chunk_def MAX_CHUNK_SIZE_def)

lemma padding_block:
  assumes "ledger_ok w" "\<not> oom sys (next_id w)"
  shows "acquire_unchecked sys Mem w = Some (p, w1) \<Longrightarrow> release (Mem p) w1 = Some (w\<lparr>next_id := Suc (next_id w)\<rparr>)"
  using assms not_live_fresh [OF assms(1), of "Mem (next_id w)"] by (auto simp: acquire_unchecked_runs release_def)

lemma encrypt_chunk_padded:
  assumes "length chunk \<le> MAX_CHUNK_SIZE" "length chunk \<le> length buf" "chunk = take (length chunk) buf"
    and "MAX_CHUNK_SIZE \<le> length chunk \<Longrightarrow> buf = chunk" "ledger_ok w" "\<not> oom sys (next_id w)"
    and "randomx_encrypt_chunk sha256 (machine lib) vm key (pad_chunk chunk) MAX_CHUNK_SIZE (fresh_bytes e MAX_CHUNK_SIZE) pc =
      Some (packed, vm')"
  shows "\<exists>n \<ge> next_id w. encrypt_chunk e sys sha256 lib vm key buf (length chunk) pc w =
     Some (enif_make_binary e packed, vm', w\<lparr>next_id := n\<rparr>)"
proof (cases "length chunk < MAX_CHUNK_SIZE")
  case True
  have "wr (replicate MAX_CHUNK_SIZE 0) 0 chunk = Some (pad_chunk chunk)"
    using True wr_nat [of 0 chunk "replicate MAX_CHUNK_SIZE 0"] by (simp add: pad_chunk_def)
  moreover have "rd buf 0 (length chunk) = Some chunk"
    using assms(2,3) rd_nat [of 0 "length chunk" buf] by simp
  ultimately have "encrypt_chunk e sys sha256 lib vm key buf (length chunk) pc w =
      Some (enif_make_binary e packed, vm', w\<lparr>next_id := Suc (next_id w)\<rparr>)"
    using True assms(7) padding_block [OF assms(5,6)] by (simp add: encrypt_chunk_def acquire_unchecked_runs [OF assms(6)])
  then show ?thesis by (intro exI [of _ "Suc (next_id w)"]) simp
next
  case False
  then have "length chunk = MAX_CHUNK_SIZE" "buf = chunk" using assms(1,4) by simp_all
  then have "encrypt_chunk e sys sha256 lib vm key buf (length chunk) pc w = Some (enif_make_binary e packed, vm', w)"
    using assms(7) by (simp add: encrypt_chunk_def pad_chunk_def)
  then show ?thesis by (intro exI [of _ "next_id w"]) simp
qed

text \<open>On every path that returns, the padding block is freed.\<close>

lemma encrypt_chunk_same:
  assumes "encrypt_chunk e sys sha256 lib vm key buf n pc w = Some (t, vm', w')" "ledger_ok w"
  shows "same_but_id w w'"
proof (cases "n < MAX_CHUNK_SIZE")
  case True
  then obtain p w1 where p: "acquire_unchecked sys Mem w = Some (p, w1)" "release (Mem p) w1 = Some w'"
    using assms(1) by (auto simp: encrypt_chunk_def bind_eq_Some_conv)
  then have "\<not> oom sys (next_id w)" by (auto simp: acquire_unchecked_def acquire_def Let_def split: if_splits)
  then show ?thesis using padding_block [OF assms(2) _ p(1)] p(2) by simp
next
  case False
  then show ?thesis using assms(1) by (auto simp: encrypt_chunk_def bind_eq_Some_conv)
qed

text \<open>The documented behaviour of the library and of the Erlang interface that packing relies on.\<close>

definition packing_documented ::
  "'t enif \<Rightarrow> 'm rx_lib \<Rightarrow> ('m \<Rightarrow> bool) \<Rightarrow> ('m \<Rightarrow> 'm \<Rightarrow> bool) \<Rightarrow> ('m \<Rightarrow> 'm \<Rightarrow> bool) \<Rightarrow> bool" where
  "packing_documented e lib D pad same \<longleftrightarrow>
     fresh_lengths e \<and> (\<forall>b. enif_inspect_binary e (enif_make_binary e b) = Some b) \<and>
     randomx_documented (machine lib) D pad same"

lemma pack_unpack_core:
  fixes v1 :: "'m randomx_vm"
  assumes "packing_documented e lib D pad same" "D (core v1)" "length chunk \<le> MAX_CHUNK_SIZE"
  shows "\<exists>packed. length packed = MAX_CHUNK_SIZE \<and>
     (\<forall>v. D (core v) \<longrightarrow> (\<exists>v'. randomx_encrypt_chunk sha256 (machine lib) v key (pad_chunk chunk) MAX_CHUNK_SIZE
              (fresh_bytes e MAX_CHUNK_SIZE) pc = Some (packed, v'))) \<and>
     (\<forall>v. D (core v) \<longrightarrow> (\<exists>v'. randomx_decrypt_chunk sha256 (machine lib) v key packed MAX_CHUNK_SIZE
              (fresh_bytes e MAX_CHUNK_SIZE) pc = Some (pad_chunk chunk, v')))"
proof -
  have doc: "randomx_documented (machine lib) D pad same" and fl: "length (fresh_bytes e n) = n" for n
    using assms(1) by (auto simp: packing_documented_def fresh_lengths_def)
  obtain ent where e: "RANDOMX_ENTROPY_SIZE \<le> length ent"
    "\<And>v. D (core v) \<Longrightarrow>
       \<exists>v'. D (core v') \<and> randomx_calculate_hash_long_with_entropy_get_entropy (machine lib) v key pc = Some (ent, v')"
    using shared_entropy [OF doc assms(2), of key pc] by blast
  have len: "length (pad_chunk chunk) = 64 * Suc 4095" by (rule length_pad_chunk [OF assms(3)])
  then have sz: "length (pad_chunk chunk) = MAX_CHUNK_SIZE" "length (pad_chunk chunk) \<le> RANDOMX_ENTROPY_SIZE"
    by (simp_all add: MAX_CHUNK_SIZE_def RANDOMX_ENTROPY_SIZE_def)
  note both = encrypt_decrypt_with_entropy [OF len sz(2) e(1), of "fresh_bytes e MAX_CHUNK_SIZE" "fresh_bytes e MAX_CHUNK_SIZE"
      "machine lib" _ key pc _ _ _ sha256, unfolded sz(1) fl, simplified]
  obtain v1' where v1': "randomx_calculate_hash_long_with_entropy_get_entropy (machine lib) v1 key pc = Some (ent, v1')"
    using e(2) [OF assms(2)] by blast
  obtain packed where p: "randomx_encrypt_chunk sha256 (machine lib) v1 key (pad_chunk chunk) MAX_CHUNK_SIZE
      (fresh_bytes e MAX_CHUNK_SIZE) pc = Some (packed, v1')" "length packed = MAX_CHUNK_SIZE"
    using both [OF v1' v1'] by blast
  then have fe: "feistel_encrypt sha256 (pad_chunk chunk) MAX_CHUNK_SIZE ent (fresh_bytes e MAX_CHUNK_SIZE) = Some packed"
    using v1' by (auto simp: randomx_encrypt_chunk_def bind_eq_Some_conv)
  have "\<exists>v'. randomx_encrypt_chunk sha256 (machine lib) v key (pad_chunk chunk) MAX_CHUNK_SIZE
      (fresh_bytes e MAX_CHUNK_SIZE) pc = Some (packed, v')" if "D (core v)" for v
    using e(2) [OF that] fe p(1) by (auto simp: randomx_encrypt_chunk_def bind_eq_Some_conv)
  moreover have "\<exists>v'. randomx_decrypt_chunk sha256 (machine lib) v key packed MAX_CHUNK_SIZE
      (fresh_bytes e MAX_CHUNK_SIZE) pc = Some (pad_chunk chunk, v')" if K: "D (core v)" for v
  proof -
    obtain v' where v': "randomx_calculate_hash_long_with_entropy_get_entropy (machine lib) v key pc = Some (ent, v')"
      using e(2) [OF K] by blast
    show ?thesis using both [OF v1' v'] p(1) sz(1) fl by auto
  qed
  ultimately show ?thesis using p(2) by blast
qed

text \<open>Any binary of whole blocks can be unpacked, with the same result on all machines over the dataset.\<close>

lemma unpack_core:
  fixes v1 :: "'m randomx_vm"
  assumes "packing_documented e lib D pad same" "D (core v1)" "length packed = 64 * Suc n" "length packed \<le> MAX_CHUNK_SIZE"
  shows "\<exists>dec. length dec = MAX_CHUNK_SIZE \<and>
     (\<forall>v. D (core v) \<longrightarrow> (\<exists>v'. D (core v') \<and> randomx_decrypt_chunk sha256 (machine lib) v key packed (length packed)
              (fresh_bytes e MAX_CHUNK_SIZE) pc = Some (dec, v')))"
proof -
  have doc: "randomx_documented (machine lib) D pad same" and fl: "length (fresh_bytes e n) = n" for n
    using assms(1) by (auto simp: packing_documented_def fresh_lengths_def)
  obtain ent where e: "RANDOMX_ENTROPY_SIZE \<le> length ent"
    "\<And>v. D (core v) \<Longrightarrow>
       \<exists>v'. D (core v') \<and> randomx_calculate_hash_long_with_entropy_get_entropy (machine lib) v key pc = Some (ent, v')"
    using shared_entropy [OF doc assms(2), of key pc] by blast
  have sz: "length packed \<le> RANDOMX_ENTROPY_SIZE" "length packed < 2 ^ 64"
    using assms(4) by (simp_all add: MAX_CHUNK_SIZE_def RANDOMX_ENTROPY_SIZE_def)
  let ?dec = "cbc_decrypt (dec64 sha256) (Suc n) (replicate 64 0) packed ent @ drop (64 * Suc n) (fresh_bytes e MAX_CHUNK_SIZE)"
  have d: "feistel_decrypt sha256 packed (length packed) ent (fresh_bytes e MAX_CHUNK_SIZE) = Some ?dec"
    using feistel_decrypt_cbc [of n packed ent "fresh_bytes e MAX_CHUNK_SIZE" sha256] assms(3,4) e(1) sz fl
    by (simp del: cbc_decrypt.simps)
  have l: "length ?dec = MAX_CHUNK_SIZE"
    using feistel.length_cbc_decrypt [of "Suc n" packed] assms(3,4) fl e(1) sz(1) by (simp del: cbc_decrypt.simps)
  have "\<exists>v'. D (core v') \<and> randomx_decrypt_chunk sha256 (machine lib) v key packed (length packed)
      (fresh_bytes e MAX_CHUNK_SIZE) pc = Some (?dec, v')" if "D (core v)" for v
    using e(2) [OF that] d sz(1) assms(3) by (auto simp: randomx_decrypt_chunk_def)
  then show ?thesis using l by blast
qed

lemma take_pad_chunk: "take (length chunk) (pad_chunk chunk) = chunk"
  by (simp add: pad_chunk_def)


text \<open>The three chunk functions on well-formed arguments and a usable state.\<close>

definition reads_ints :: "'t enif \<Rightarrow> 't list \<Rightarrow> int list \<Rightarrow> bool" where
  "reads_ints e ts is \<longleftrightarrow> map (enif_get_int e) ts = map Some is"

definition vm_ready :: "'t enif \<Rightarrow> sys \<Rightarrow> 't \<Rightarrow> nat \<Rightarrow> rx_state \<Rightarrow> 't world \<Rightarrow> bool" where
  "vm_ready e sys stateT s st w \<longleftrightarrow>
     enif_get_resource e stateT = Some s \<and> state_usable s st True w \<and> isRandomxReleased st = 0 \<and> ledger_ok w \<and>
     \<not> fails sys (next_id w)"

text \<open>A call that packs also allocates the padding block.\<close>

definition pack_ready :: "'t enif \<Rightarrow> sys \<Rightarrow> 't \<Rightarrow> nat \<Rightarrow> rx_state \<Rightarrow> 't world \<Rightarrow> bool" where
  "pack_ready e sys stateT s st w \<longleftrightarrow> vm_ready e sys stateT s st w \<and> \<not> oom sys (Suc (next_id w))"

lemma with_vm_ready:
  assumes "vm_ready e sys stateT s st w"
    and "body (vm_for lib st True jit large aes) (holding st w) = Some (r, holding st w\<lparr>next_id := n\<rparr>)"
  shows "with_vm e sys lib s True jit large aes body w = Some (r, w\<lparr>next_id := n\<rparr>)"
  using assms with_vm_returns [of s st True w sys body lib jit large aes] by (simp add: vm_ready_def)

lemma with_vm_ready_pure:
  assumes "vm_ready e sys stateT s st w" "\<And>w. body (vm_for lib st True jit large aes) w = Some (r, w)"
  shows "with_vm e sys lib s True jit large aes body w = Some (r, w\<lparr>next_id := Suc (next_id w)\<rparr>)"
  using with_vm_ready [OF assms(1), of body lib jit large aes r "Suc (next_id w)"] assms(2) by (simp add: holding_def Let_def)

lemma encrypt_nif_runs:
  assumes "pack_ready e sys stateT s st w" "reads_ints e [roundsT, jitT, largeT, aesT] [pc, jit, large, aes]"
    and "enif_inspect_binary e keyT = Some key" "enif_inspect_binary e chunkT = Some chunk"
    and "chunk \<noteq> []" "length chunk \<le> MAX_CHUNK_SIZE"
    and "randomx_encrypt_chunk sha256 (machine lib) (vm_for lib st True jit large aes) key (pad_chunk chunk) MAX_CHUNK_SIZE
           (fresh_bytes e MAX_CHUNK_SIZE) pc = Some (packed, v')"
  shows "\<exists>n. randomx_encrypt_chunk_nif e sys sha256 lib [stateT, keyT, chunkT, roundsT, jitT, largeT, aesT] w =
         Some (ok_tuple e (enif_make_binary e packed), w\<lparr>next_id := n\<rparr>)"
proof -
  have r: "vm_ready e sys stateT s st w" "\<not> oom sys (next_id (holding st w))" "ledger_ok (holding st w)"
    using assms(1) by (simp_all add: pack_ready_def vm_ready_def)
  obtain n where n: "encrypt_chunk e sys sha256 lib (vm_for lib st True jit large aes) key chunk (length chunk) pc (holding st w) =
      Some (enif_make_binary e packed, v', holding st w\<lparr>next_id := n\<rparr>)"
    using encrypt_chunk_padded [OF assms(6) _ _ _ r(3,2) assms(7), of chunk] by auto
  have "with_vm e sys lib s True jit large aes
     (\<lambda>vm w. do { (outChunkTerm, vm, w) \<leftarrow> encrypt_chunk e sys sha256 lib vm key chunk (length chunk) pc w;
                  Some (ok_tuple e outChunkTerm, w) }) w = Some (ok_tuple e (enif_make_binary e packed), w\<lparr>next_id := n\<rparr>)"
    by (rule with_vm_ready [OF r(1)]) (simp add: n)
  then show ?thesis
    using assms(2-6) r(1) by (auto simp: randomx_encrypt_chunk_nif_def vm_ready_def reads_ints_def)
qed

lemma decrypt_nif_runs:
  assumes "vm_ready e sys stateT s st w" "reads_ints e [lenT, roundsT, jitT, largeT, aesT] [int len, pc, jit, large, aes]"
    and "enif_inspect_binary e keyT = Some key" "enif_inspect_binary e packedT = Some packed"
    and "fresh_lengths e" "len \<le> length dec"
    and "randomx_decrypt_chunk sha256 (machine lib) (vm_for lib st True jit large aes) key packed (length packed)
           (fresh_bytes e MAX_CHUNK_SIZE) pc = Some (dec, v')"
  shows "randomx_decrypt_chunk_nif e sys sha256 lib [stateT, keyT, packedT, lenT, roundsT, jitT, largeT, aesT] w =
         Some (ok_tuple e (enif_make_binary e (take len dec)), w\<lparr>next_id := Suc (next_id w)\<rparr>)"
proof -
  note out = make_output_binary_nat [OF assms(5,6)]
  have "with_vm e sys lib s True jit large aes
     (\<lambda>vm w. do {
        let outChunk = fresh_bytes e MAX_CHUNK_SIZE;
        (decryptedChunkTerm, outChunk, vm) \<leftarrow> decrypt_chunk e sha256 lib vm key packed (length packed) outChunk (int len) pc;
        Some (ok_tuple e decryptedChunkTerm, w) }) w =
     Some (ok_tuple e (enif_make_binary e (take len dec)), w\<lparr>next_id := Suc (next_id w)\<rparr>)"
    by (rule with_vm_ready_pure [OF assms(1)]) (simp add: decrypt_chunk_def assms(7) out)
  then show ?thesis
    using assms(1-4) by (auto simp: randomx_decrypt_chunk_nif_def vm_ready_def reads_ints_def)
qed

lemma reencrypt_nif_runs:
  assumes "pack_ready e sys stateT s st w"
    and "reads_ints e [lenT, dRoundsT, eRoundsT, jitT, largeT, aesT] [int len, pc, pc2, jit, large, aes]"
    and "enif_inspect_binary e dKeyT = Some dKey" "enif_inspect_binary e eKeyT = Some eKey"
    and "enif_inspect_binary e packedT = Some packed" "packed \<noteq> []"
    and "fresh_lengths e" "0 < len" "len \<le> MAX_CHUNK_SIZE" "length dec = MAX_CHUNK_SIZE"
    and "randomx_decrypt_chunk sha256 (machine lib) (vm_for lib st True jit large aes) dKey packed (length packed)
           (fresh_bytes e MAX_CHUNK_SIZE) pc = Some (dec, v')"
    and "randomx_encrypt_chunk sha256 (machine lib) v' eKey (pad_chunk (take len dec)) MAX_CHUNK_SIZE
           (fresh_bytes e MAX_CHUNK_SIZE) pc2 = Some (packed2, v'')"
  shows "\<exists>n. randomx_reencrypt_chunk_nif e sys sha256 lib
           [stateT, dKeyT, eKeyT, packedT, lenT, dRoundsT, eRoundsT, jitT, largeT, aesT] w =
         Some (ok_tuple2 e (enif_make_binary e packed2) (enif_make_binary e (take len dec)), w\<lparr>next_id := n\<rparr>)"
proof -
  have r: "vm_ready e sys stateT s st w" "\<not> oom sys (next_id (holding st w))" "ledger_ok (holding st w)"
    using assms(1) by (simp_all add: pack_ready_def vm_ready_def)
  have l: "length (take len dec) = len" using assms(9,10) by simp
  have out: "make_output_binary e dec (int len) = Some (enif_make_binary e (take len dec))"
    using make_output_binary_nat [OF assms(7), of len dec] assms(9,10) by simp
  obtain n where n: "encrypt_chunk e sys sha256 lib v' eKey dec len pc2 (holding st w) =
      Some (enif_make_binary e packed2, v'', holding st w\<lparr>next_id := n\<rparr>)"
    using encrypt_chunk_padded [of "take len dec" dec "holding st w" sys sha256 lib v' eKey e pc2 packed2 v''] assms(9,10,12) l r(2,3)
    by auto
  have "with_vm e sys lib s True jit large aes
     (\<lambda>vm w. do {
        let decryptedChunk = fresh_bytes e MAX_CHUNK_SIZE;
        (decryptedChunkTerm, decryptedChunk, vm) \<leftarrow>
          decrypt_chunk e sha256 lib vm dKey packed (length packed) decryptedChunk (int len) pc;
        (reencryptedChunkTerm, vm, w) \<leftarrow> encrypt_chunk e sys sha256 lib vm eKey decryptedChunk (nat (int len)) pc2 w;
        Some (ok_tuple2 e reencryptedChunkTerm decryptedChunkTerm, w) }) w =
     Some (ok_tuple2 e (enif_make_binary e packed2) (enif_make_binary e (take len dec)), w\<lparr>next_id := n\<rparr>)"
    by (rule with_vm_ready [OF r(1)]) (simp add: decrypt_chunk_def assms(11) out n)
  then show ?thesis
    using assms(2-6,8,9) r(1) by (auto simp: randomx_reencrypt_chunk_nif_def vm_ready_def reads_ints_def)
qed

section \<open>Properties\<close>

lemma lib_packing_documented [simp]: "packing_documented toy_enif (lib_with_items n) (\<lambda>_. True) (=) (=)"
  by (simp add: packing_documented_def)

text \<open>
  Property C19: what the packing function returns, the unpacking function turns back. For every chunk of
  1 to 262144 bytes \<open>randomx_encrypt_chunk_nif\<close> returns a binary of the full chunk size (short chunks
  are padded with zeros), and \<open>randomx_decrypt_chunk_nif\<close> on that binary with the same key and number of rounds
  and a requested length of up to 262144 bytes returns the padded chunk cut to that length, so the
  chunk itself for its own length. This holds on any later world and whatever the flags of the two machines.
  Of RandomX it uses that a machine's methods depend on the dataset and their inputs once the scratchpad is filled and the
  rounding mode is reset (\<open>randomx_documented\<close>); a machine and the padding block can be allocated.
\<close>

theorem unpack_nif_inverts_pack_nif:
  fixes lib :: "'m rx_lib"
  assumes "packing_documented e lib D pad same" "\<forall>jit large aes. D (core (vm_for lib st True jit large aes))"
    and "pack_ready e sys stateT s st w" "vm_ready e sys stateT s st w2"
    and "reads_ints e [roundsT, jitT, largeT, aesT] [pc, jit, large, aes]"
    and "reads_ints e [lenT, roundsT, jitT2, largeT2, aesT2] [int len, pc, jit2, large2, aes2]"
    and "enif_inspect_binary e keyT = Some key" "enif_inspect_binary e chunkT = Some chunk"
    and "chunk \<noteq> []" "length chunk \<le> MAX_CHUNK_SIZE" "len \<le> MAX_CHUNK_SIZE"
  shows "\<exists>packed w' w2'. length packed = MAX_CHUNK_SIZE \<and>
     randomx_encrypt_chunk_nif e sys sha256 lib [stateT, keyT, chunkT, roundsT, jitT, largeT, aesT] w =
       Some (ok_tuple e (enif_make_binary e packed), w') \<and>
     randomx_decrypt_chunk_nif e sys sha256 lib
       [stateT, keyT, enif_make_binary e packed, lenT, roundsT, jitT2, largeT2, aesT2] w2 =
       Some (ok_tuple e (enif_make_binary e (take len (chunk @ replicate (MAX_CHUNK_SIZE - length chunk) 0))), w2')"
proof -
  let ?v = "vm_for lib st True jit large aes" and ?v2 = "vm_for lib st True jit2 large2 aes2"
  have D: "D (core ?v)" "D (core ?v2)" using assms(2) by blast+
  obtain packed where p: "length packed = MAX_CHUNK_SIZE"
    "\<forall>v. D (core v) \<longrightarrow> (\<exists>v'. randomx_encrypt_chunk sha256 (machine lib) v key (pad_chunk chunk) MAX_CHUNK_SIZE
        (fresh_bytes e MAX_CHUNK_SIZE) pc = Some (packed, v'))"
    "\<forall>v. D (core v) \<longrightarrow> (\<exists>v'. randomx_decrypt_chunk sha256 (machine lib) v key packed MAX_CHUNK_SIZE
        (fresh_bytes e MAX_CHUNK_SIZE) pc = Some (pad_chunk chunk, v'))"
    using pack_unpack_core [OF assms(1) D(1) assms(10), of sha256 key pc] by blast
  obtain v' v2' where v: "randomx_encrypt_chunk sha256 (machine lib) ?v key (pad_chunk chunk) MAX_CHUNK_SIZE
        (fresh_bytes e MAX_CHUNK_SIZE) pc = Some (packed, v')"
      "randomx_decrypt_chunk sha256 (machine lib) ?v2 key packed (length packed)
        (fresh_bytes e MAX_CHUNK_SIZE) pc = Some (pad_chunk chunk, v2')"
    using p D by metis
  have e: "enif_inspect_binary e (enif_make_binary e packed) = Some packed" "fresh_lengths e"
    using assms(1) by (simp_all add: packing_documented_def)
  have len: "len \<le> length (pad_chunk chunk)" using assms(10,11) by (simp add: pad_chunk_def)
  from encrypt_nif_runs [OF assms(3,5,7,8,9,10) v(1)] decrypt_nif_runs [OF assms(4,6,7) e(1,2) len v(2)] p(1)
  show ?thesis unfolding pad_chunk_def by blast
qed

definition toy_fast_world :: "toy_term world" where
  "toy_fast_world = empty_world\<lparr>live := {Resource 0, Lock 1, Dataset 2}, next_id := 3,
     states := [0 \<mapsto> \<lparr>lockPtr = Some 1, isRandomxReleased = 0, datasetPtr = Some 2, cachePtr = None\<rparr>],
     refs := (\<lambda>_. 0)(0 := 1)\<rparr>"

definition no_failures :: sys where
  "no_failures = \<lparr>fails = (\<lambda>_. False), oom = (\<lambda>_. False), join_fails = (\<lambda>_. False)\<rparr>"

lemma no_failures_simps [simp]: "\<not> fails no_failures n" "\<not> oom no_failures n" "\<not> join_fails no_failures n"
  by (simp_all add: no_failures_def)

definition toy_fast_state :: rx_state where
  "toy_fast_state = \<lparr>lockPtr = Some 1, isRandomxReleased = 0, datasetPtr = Some 2, cachePtr = None\<rparr>"

lemma toy_vm_ready [simp]: "vm_ready toy_enif no_failures (Res 0) 0 toy_fast_state toy_fast_world"
    "pack_ready toy_enif no_failures (Res 0) 0 toy_fast_state toy_fast_world"
  by (simp_all add: pack_ready_def vm_ready_def state_usable_def toy_fast_world_def toy_fast_state_def toy_enif_def no_failures_def
      ledger_ok_def empty_world_def)

theorem unpack_nif_inverts_pack_nif_witness:
  "\<exists>packed w' w2'. length packed = MAX_CHUNK_SIZE \<and>
     randomx_encrypt_chunk_nif toy_enif no_failures (\<lambda>bs. of_nat (be_val bs)) (lib_with_items 1)
       [Res 0, Bin [1], Bin [5, 6, 7], Num 2, Num 0, Num 0, Num 1] toy_fast_world =
       Some (ok_tuple toy_enif (enif_make_binary toy_enif packed), w') \<and>
     randomx_decrypt_chunk_nif toy_enif no_failures (\<lambda>bs. of_nat (be_val bs)) (lib_with_items 1)
       [Res 0, Bin [1], enif_make_binary toy_enif packed, Num 3, Num 2, Num 1, Num 1, Num 0] toy_fast_world =
       Some (ok_tuple toy_enif (enif_make_binary toy_enif [5, 6, 7]), w2')"
proof -
  have "take 3 ([5, 6, 7] @ replicate (MAX_CHUNK_SIZE - length ([5, 6, 7] :: bytes)) 0) = ([5, 6, 7] :: bytes)" by simp
  moreover have "\<exists>packed w' w2'. length packed = MAX_CHUNK_SIZE \<and>
     randomx_encrypt_chunk_nif toy_enif no_failures (\<lambda>bs. of_nat (be_val bs)) (lib_with_items 1)
       [Res 0, Bin [1], Bin [5, 6, 7], Num 2, Num 0, Num 0, Num 1] toy_fast_world =
       Some (ok_tuple toy_enif (enif_make_binary toy_enif packed), w') \<and>
     randomx_decrypt_chunk_nif toy_enif no_failures (\<lambda>bs. of_nat (be_val bs)) (lib_with_items 1)
       [Res 0, Bin [1], enif_make_binary toy_enif packed, Num 3, Num 2, Num 1, Num 1, Num 0] toy_fast_world =
       Some (ok_tuple toy_enif (enif_make_binary toy_enif
         (take 3 ([5, 6, 7] @ replicate (MAX_CHUNK_SIZE - length ([5, 6, 7] :: bytes)) 0))), w2')"
    by (rule unpack_nif_inverts_pack_nif [OF lib_packing_documented _ toy_vm_ready(2,1),
          where pc = 2 and jit = 0 and large = 0 and aes = 1 and ?jit2.0 = 1 and ?large2.0 = 1 and ?aes2.0 = 0 and key = "[1]"])
       (simp_all add: reads_ints_def toy_enif_def c_int_def MAX_CHUNK_SIZE_def)
  ultimately show ?thesis by (simp only:)
qed

text \<open>
  Property C28: repacking is unpacking followed by packing. For any binary of whole 64-byte blocks, of at most 262144
  bytes, and any requested length from 1 to the length of the binary: \<open>randomx_decrypt_chunk_nif\<close> returns some chunk,
  \<open>randomx_encrypt_chunk_nif\<close> on that chunk with the new key and number of rounds returns some packed binary, and
  \<open>randomx_reencrypt_chunk_nif\<close> returns exactly this packed binary and this chunk; the three calls may run on
  different worlds.
\<close>

theorem repack_nif_is_unpack_then_pack:
  fixes lib :: "'m rx_lib"
  assumes "packing_documented e lib D pad same" "\<forall>jit large aes. D (core (vm_for lib st True jit large aes))"
    and "vm_ready e sys stateT s st w" "pack_ready e sys stateT s st w2" "pack_ready e sys stateT s st w3"
    and "reads_ints e [lenT, roundsT, roundsT2, jitT, largeT, aesT] [int len, pc, pc2, jit, large, aes]"
    and "enif_inspect_binary e keyT = Some key" "enif_inspect_binary e keyT2 = Some key2"
    and "enif_inspect_binary e packedT = Some packed" "length packed = 64 * Suc n" "length packed \<le> MAX_CHUNK_SIZE"
    and "0 < len" "len \<le> length packed"
  shows "\<exists>chunk packed2 w' w2' w3'. length chunk = len \<and>
     randomx_decrypt_chunk_nif e sys sha256 lib [stateT, keyT, packedT, lenT, roundsT, jitT, largeT, aesT] w =
       Some (ok_tuple e (enif_make_binary e chunk), w') \<and>
     randomx_encrypt_chunk_nif e sys sha256 lib [stateT, keyT2, enif_make_binary e chunk, roundsT2, jitT, largeT, aesT] w2 =
       Some (ok_tuple e (enif_make_binary e packed2), w2') \<and>
     randomx_reencrypt_chunk_nif e sys sha256 lib
       [stateT, keyT, keyT2, packedT, lenT, roundsT, roundsT2, jitT, largeT, aesT] w3 =
       Some (ok_tuple2 e (enif_make_binary e packed2) (enif_make_binary e chunk), w3')"
proof -
  let ?v = "vm_for lib st True jit large aes"
  have D: "D (core ?v)" using assms(2) by blast
  have ints: "reads_ints e [lenT, roundsT, jitT, largeT, aesT] [int len, pc, jit, large, aes]"
    "reads_ints e [roundsT2, jitT, largeT, aesT] [pc2, jit, large, aes]"
    using assms(6) by (simp_all add: reads_ints_def)
  have e: "enif_inspect_binary e (enif_make_binary e b) = Some b" "fresh_lengths e" for b
    using assms(1) by (simp_all add: packing_documented_def)
  obtain dec v' where dec: "length dec = MAX_CHUNK_SIZE" "D (core v')" "randomx_decrypt_chunk sha256 (machine lib) ?v key packed
      (length packed) (fresh_bytes e MAX_CHUNK_SIZE) pc = Some (dec, v')"
    using unpack_core [OF assms(1) D assms(10,11), of sha256 key pc] D by blast
  let ?chunk = "take len dec"
  have len: "length ?chunk = len" "len \<le> MAX_CHUNK_SIZE" "len \<le> length dec" "?chunk \<noteq> []" "length ?chunk \<le> MAX_CHUNK_SIZE"
    using assms(11-13) dec(1) by auto
  obtain packed2 where all: "\<forall>v. D (core v) \<longrightarrow> (\<exists>v'. randomx_encrypt_chunk sha256 (machine lib) v key2 (pad_chunk ?chunk)
        MAX_CHUNK_SIZE (fresh_bytes e MAX_CHUNK_SIZE) pc2 = Some (packed2, v'))"
    using pack_unpack_core [OF assms(1) D len(5), of sha256 key2 pc2] by (elim exE conjE)
  obtain u where p2: "randomx_encrypt_chunk sha256 (machine lib) ?v key2 (pad_chunk ?chunk) MAX_CHUNK_SIZE
        (fresh_bytes e MAX_CHUNK_SIZE) pc2 = Some (packed2, u)"
    using all [rule_format, OF D] by (elim exE)
  obtain u' where p2': "randomx_encrypt_chunk sha256 (machine lib) v' key2 (pad_chunk ?chunk) MAX_CHUNK_SIZE
        (fresh_bytes e MAX_CHUNK_SIZE) pc2 = Some (packed2, u')"
    using all [rule_format, OF dec(2)] by (elim exE)
  have ne: "packed \<noteq> []" using assms(10) by auto
  note decrypted = decrypt_nif_runs [OF assms(3) ints(1) assms(7,9) e(2) len(3) dec(3)]
  obtain i where encrypted: "randomx_encrypt_chunk_nif e sys sha256 lib [stateT, keyT2, enif_make_binary e ?chunk, roundsT2, jitT, largeT, aesT] w2 =
      Some (ok_tuple e (enif_make_binary e packed2), w2\<lparr>next_id := i\<rparr>)"
    using encrypt_nif_runs [OF assms(4) ints(2) assms(8) e(1) len(4,5) p2] by (elim exE)
  obtain k where "randomx_reencrypt_chunk_nif e sys sha256 lib
      [stateT, keyT, keyT2, packedT, lenT, roundsT, roundsT2, jitT, largeT, aesT] w3 =
      Some (ok_tuple2 e (enif_make_binary e packed2) (enif_make_binary e ?chunk), w3\<lparr>next_id := k\<rparr>)"
    using reencrypt_nif_runs [OF assms(5,6,7,8,9) ne e(2) assms(12) len(2) dec(1,3) p2'] by (elim exE)
  then show ?thesis by (intro exI conjI) (rule len(1) decrypted encrypted | assumption)+
qed

theorem repack_nif_is_unpack_then_pack_witness:
  "\<exists>chunk packed2 w' w2' w3'. length chunk = 100 \<and>
     randomx_decrypt_chunk_nif toy_enif no_failures (\<lambda>bs. of_nat (be_val bs)) (lib_with_items 1)
       [Res 0, Bin [1], Bin (replicate 128 4), Num 100, Num 2, Num 0, Num 0, Num 1] toy_fast_world =
       Some (ok_tuple toy_enif (enif_make_binary toy_enif chunk), w') \<and>
     randomx_encrypt_chunk_nif toy_enif no_failures (\<lambda>bs. of_nat (be_val bs)) (lib_with_items 1)
       [Res 0, Bin [9], enif_make_binary toy_enif chunk, Num 4, Num 0, Num 0, Num 1] toy_fast_world =
       Some (ok_tuple toy_enif (enif_make_binary toy_enif packed2), w2') \<and>
     randomx_reencrypt_chunk_nif toy_enif no_failures (\<lambda>bs. of_nat (be_val bs)) (lib_with_items 1)
       [Res 0, Bin [1], Bin [9], Bin (replicate 128 4), Num 100, Num 2, Num 4, Num 0, Num 0, Num 1] toy_fast_world =
       Some (ok_tuple2 toy_enif (enif_make_binary toy_enif packed2) (enif_make_binary toy_enif chunk), w3')"
  by (rule repack_nif_is_unpack_then_pack [OF lib_packing_documented _ toy_vm_ready(1,2,2),
        where pc = 2 and ?pc2.0 = 4 and jit = 0 and large = 0 and aes = 1 and key = "[1]" and ?key2.0 = "[9]"
          and packed = "replicate 128 4" and n = 1])
     (simp_all add: reads_ints_def toy_enif_def c_int_def MAX_CHUNK_SIZE_def)

text \<open>
  Property C29: a call that returns gives everything back. Each of the six functions that work on one
  input leaves the world as it found it, on every branch on which it returns: no machine and no padding block is left,
  the read lock is released as often as it was taken, the state is untouched; only identifiers are used up.
\<close>

theorem single_call_nifs_restore_world:
  assumes "ledger_ok w"
  shows "restores w (randomx_hash_nif e sys lib argv mode w) \<and>
    restores w (hash_fast_verify_nif e sys lib argv w) \<and>
    restores w (randomx_hash_long_with_entropy_nif e sys lib argv mode w) \<and>
    restores w (randomx_encrypt_chunk_nif e sys sha256 lib argv w) \<and>
    restores w (randomx_decrypt_chunk_nif e sys sha256 lib argv w) \<and>
    restores w (randomx_reencrypt_chunk_nif e sys sha256 lib argv w)"
  unfolding randomx_hash_nif_def hash_fast_verify_nif_def randomx_hash_long_with_entropy_nif_def
    randomx_encrypt_chunk_nif_def randomx_decrypt_chunk_nif_def randomx_reencrypt_chunk_nif_def Let_def
  by (intro conjI)
     (auto simp: Let_def restoring_def bind_eq_Some_conv intro!: restores_with_vm [OF assms] dest: encrypt_chunk_same
       split: need_split if_splits prod.splits)

theorem single_call_nifs_restore_world_witness:
  "\<exists>r w'. randomx_hash_nif toy_enif no_failures (lib_with_items 1) [Res 0, Bin [1], Num 0, Num 0, Num 1] HASHING_MODE_FAST
     toy_fast_world = Some (r, w') \<and> same_but_id toy_fast_world w'"
proof -
  have l: "ledger_ok toy_fast_world" and u: "state_usable 0 toy_fast_state True toy_fast_world"
    by (simp_all add: toy_fast_world_def toy_fast_state_def ledger_ok_def empty_world_def state_usable_def)
  have "make_output_binary toy_enif (digest h) 32 = Some (enif_make_binary toy_enif (digest h))" for h
    using make_output_binary_nat [of toy_enif 32 "digest h"] by simp
  then have "\<exists>r w'. randomx_hash_nif toy_enif no_failures (lib_with_items 1) [Res 0, Bin [1], Num 0, Num 0, Num 1]
      HASHING_MODE_FAST toy_fast_world = Some (r, w')"
    by (simp add: randomx_hash_nif_def c_int_def with_vm_cases [OF u] destroy_holding_now [OF u l] case_prod_beta)
  then show ?thesis
    using single_call_nifs_restore_world [OF l, of toy_enif no_failures "lib_with_items 1"] unfolding restores_def by blast
qed

text \<open>
  \<open>hash_fast_verify_nif\<close> accepts exactly the hashes above the difficulty, both read as
  big-endian numbers, on a state that was not released; it reports a released state and a machine
  that could not be created.
\<close>

theorem hash_fast_verify_outcome:
  assumes "fresh_lengths e" "ledger_ok w" "state_usable s st True w"
    and "enif_get_resource e stateT = Some s" "reads_ints e [jitT, largeT, aesT] [jit, large, aes]"
    and "enif_inspect_binary e diffT = Some difficulty" "length difficulty = 32"
    and "enif_inspect_iolist_as_binary e inputT = Some input"
  shows "\<exists>w'. hash_fast_verify_nif e sys lib [stateT, diffT, inputT, jitT, largeT, aesT] w =
     Some (if isRandomxReleased st \<noteq> 0 then error_nif e ''state has been released''
           else if fails sys (next_id w) then error_nif e ''randomx_create_vm failed''
           else let h = digest (fst (randomx_calculate_hash lib (vm_for lib st True jit large aes) input))
                in if be_val difficulty < be_val h then solution_tuple e (enif_make_binary e h)
                   else enif_make_atom e ''false'', w')"
proof -
  let ?h = "digest (fst (randomx_calculate_hash lib (vm_for lib st True jit large aes) input))"
  have "make_output_binary e ?h 32 = Some (enif_make_binary e ?h)"
    using make_output_binary_nat [OF assms(1), of 32 ?h] by simp
  moreover obtain r where "validate_hash ?h difficulty = Some r" "r > 0 \<longleftrightarrow> be_val difficulty < be_val ?h"
    using validate_hash_be_val [of ?h difficulty] assms(7) by auto
  ultimately show ?thesis
    using assms(4-8)
    by (simp add: hash_fast_verify_nif_def reads_ints_def with_vm_cases [OF assms(3)] destroy_holding_now [OF assms(3,2)] case_prod_beta
        Let_def)
qed

theorem hash_fast_verify_outcome_witness:
  "\<exists>w'. hash_fast_verify_nif toy_enif no_failures (lib_with_items 1)
       [Res 0, Bin (be_bytes 32 6), Bin [7], Num 0, Num 0, Num 1] toy_fast_world =
     Some (if isRandomxReleased toy_fast_state \<noteq> 0 then error_nif toy_enif ''state has been released''
           else if fails no_failures (next_id toy_fast_world) then error_nif toy_enif ''randomx_create_vm failed''
           else let h = digest (fst (randomx_calculate_hash (lib_with_items 1) (vm_for (lib_with_items 1) toy_fast_state True 0 0 1) [7]))
                in if be_val (be_bytes 32 6) < be_val h then solution_tuple toy_enif (enif_make_binary toy_enif h)
                   else enif_make_atom toy_enif ''false'', w')"
  by (rule hash_fast_verify_outcome [where s = 0])
     (simp_all add: toy_fast_world_def ledger_ok_def empty_world_def toy_enif_def fresh_lengths_def state_usable_def
       toy_fast_state_def reads_ints_def c_int_def)

text \<open>
  Property C34: releasing a state. When nobody uses the state, \<open>release_state_nif\<close> succeeds and frees its
  dataset and cache and nothing else; releasing it again succeeds and frees nothing; and every later
  hash on it is refused with the message that the state has been released. While a call holds the
  read lock the release is refused and changes nothing.
\<close>

theorem release_state_frees_once:
  assumes "wf_world w" "states w s = Some st" "lockPtr st = Some l" "Lock l \<in> live w" "\<not> writer w l"
    and "opt_obj Dataset (datasetPtr st) \<union> opt_obj Cache (cachePtr st) \<subseteq> live w"
    and "enif_get_resource e stateT = Some s"
  shows "(if readers w l > 0
          then release_state_nif e [stateT] w =
            Some (error_nif e ''failed to acquire the state lock, the state is being used'', w)
          else \<exists>w'. release_state_nif e [stateT] w = Some (enif_make_atom e ''ok'', w') \<and>
            live w' = live w - opt_obj Dataset (datasetPtr st) - opt_obj Cache (cachePtr st) \<and>
            release_state_nif e [stateT] w' = Some (enif_make_atom e ''ok'', w') \<and>
            (\<forall>full jit large aes body. with_vm e sys lib s full jit large aes body w' =
               Some (error_nif e ''state has been released'', w')))"
proof (cases "readers w l > 0")
  case True
  then show ?thesis
    using assms by (simp add: release_state_nif_def enif_rwlock_tryrwlock_def)
next
  case False
  let ?st = "st\<lparr>datasetPtr := None, cachePtr := None, isRandomxReleased := 1\<rparr>"
  let ?d = "opt_obj Dataset (datasetPtr st)" and ?c = "opt_obj Cache (cachePtr st)"
  let ?w' = "w\<lparr>live := live w - ?d - ?c, states := (states w)(s \<mapsto> ?st)\<rparr>"
  have l': "Lock l \<in> live w - ?d - ?c" using assms(4) by (auto simp: opt_obj_def split: option.splits)
  let ?w1 = "w\<lparr>writer := (writer w)(l := True)\<rparr>"
  have sub: "?d \<subseteq> live ?w1" "?c \<subseteq> live (?w1\<lparr>live := live w - ?d\<rparr>)"
    using assms(6) by (auto simp: opt_obj_def split: option.splits)
  have "release_randomx s ?w1 = Some (?w1\<lparr>live := live w - ?d - ?c, states := (states w)(s \<mapsto> ?st)\<rparr>)"
    using assms(2) release_opt [OF sub(1)] release_opt [OF sub(2)]
    by (simp add: release_randomx_def put_state_def)
  then have r: "release_state_nif e [stateT] w = Some (enif_make_atom e ''ok'', ?w')"
    using assms(2-5,7) False l'
    by (simp add: release_state_nif_def enif_rwlock_tryrwlock_def enif_rwlock_rwunlock_def fun_upd_idem)
  have "release_randomx s (?w'\<lparr>writer := (writer w)(l := True)\<rparr>) = Some (?w'\<lparr>writer := (writer w)(l := True)\<rparr>)"
    by (simp add: release_randomx_def put_state_def)
  then have r2: "release_state_nif e [stateT] ?w' = Some (enif_make_atom e ''ok'', ?w')"
    using assms(3,5,7) False l'
    by (simp add: release_state_nif_def enif_rwlock_tryrwlock_def enif_rwlock_rwunlock_def fun_upd_idem)
  have "state_usable s ?st full ?w'" for full using assms(3,5) l' by (simp add: state_usable_def)
  then have "with_vm e sys lib s full jit large aes body ?w' = Some (error_nif e ''state has been released'', ?w')"
    for full jit large aes body
    using with_vm_cases [of s ?st full ?w' e sys lib jit large aes body] by simp
  with r r2 False show ?thesis by auto
qed

theorem release_state_frees_once_witness:
  "if readers toy_fast_world 1 > 0
   then release_state_nif toy_enif [Res 0] toy_fast_world =
     Some (error_nif toy_enif ''failed to acquire the state lock, the state is being used'', toy_fast_world)
   else \<exists>w'. release_state_nif toy_enif [Res 0] toy_fast_world = Some (enif_make_atom toy_enif ''ok'', w') \<and>
     live w' = live toy_fast_world - opt_obj Dataset (datasetPtr toy_fast_state) - opt_obj Cache (cachePtr toy_fast_state) \<and>
     release_state_nif toy_enif [Res 0] w' = Some (enif_make_atom toy_enif ''ok'', w') \<and>
     (\<forall>full jit large aes body. with_vm toy_enif no_failures (lib_with_items 1) 0 full jit large aes body w' =
        Some (error_nif toy_enif ''state has been released'', w'))"
  by (rule release_state_frees_once)
     (simp_all add: toy_fast_world_def toy_fast_state_def toy_enif_def empty_world_def wf_world_def ledger_ok_def)

end
