(* ===== verification/Rx_Concurrent.thy ===== *)
theory Rx_Concurrent
  imports Rx_Nifs
begin

text \<open>
  Concurrent native calls on one state. The functions of \<open>ar_mine_randomx.c\<close> run on dirty schedulers,
  any number of them at once on the same \<open>struct state\<close>: hashing and packing calls go through
  \<open>create_vm\<close> and \<open>destroy_vm\<close>, \<open>release_state_nif\<close> tries the write lock, and the garbage collector runs
  the destructor when no call holds the state. A call is its program point; a step runs one call
  from one point to the next, with the primitives of the sequential model.
\<close>

section \<open>Program points and steps\<close>

datatype call =
    Enter            \<comment> \<open>\<open>create_vm\<close>, before the read lock\<close>
  | Check            \<comment> \<open>with the read lock, before the flag is read\<close>
  | Hash nat obj     \<comment> \<open>computing on a machine over a dataset or cache\<close>
  | Leave nat        \<comment> \<open>\<open>destroy_vm\<close>, before the machine is destroyed\<close>
  | Unlock           \<comment> \<open>before the read lock is released\<close>
  | TryRelease       \<comment> \<open>\<open>release_state_nif\<close>, before the write lock\<close>
  | Releasing        \<comment> \<open>with the write lock, before \<open>release_randomx\<close>\<close>
  | RwUnlock         \<comment> \<open>before the write lock is released\<close>
  | Return           \<comment> \<open>the function has returned, its argument still refers to the state\<close>
  | Finished         \<comment> \<open>the argument has been dropped\<close>

datatype 't outcome = Blocked | Crash | Go call "'t world"

fun go :: "call \<Rightarrow> 't world option \<Rightarrow> 't outcome" where
  "go c None = Crash"
| "go c (Some w) = Go c w"

definition vm_source :: "bool \<Rightarrow> rx_state \<Rightarrow> obj" where
  "vm_source fast st = (if fast then Dataset (the (datasetPtr st)) else Cache (the (cachePtr st)))"

text \<open>
  The next step of a call on the state \<open>s\<close>; \<open>fast\<close> says whether the calls use full memory. \<open>Crash\<close> is
  undefined behaviour: a lock, machine, dataset or cache that does not exist any more. The last step
  drops the reference that the call's argument held; when it was the last one, the runtime
  runs \<open>state_dtor\<close>.
\<close>

fun call_step :: "sys \<Rightarrow> 'm rx_lib \<Rightarrow> nat \<Rightarrow> bool \<Rightarrow> rx_flag set \<Rightarrow> rx_state \<Rightarrow> call \<Rightarrow> 't world \<Rightarrow> 't outcome" where
  "call_step sys lib s fast flags st Enter w =
     (if \<exists>l. lockPtr st = Some l \<and> Lock l \<in> live w \<and> writer w l then Blocked
      else go Check (enif_rwlock_rlock (lockPtr st) w))"
| "call_step sys lib s fast flags st Check w =
     (if isRandomxReleased st \<noteq> 0 then go Return (enif_rwlock_runlock (lockPtr st) w)
      else case randomx_create_vm sys lib flags (cachePtr st) (datasetPtr st) w of
             None \<Rightarrow> Crash
           | Some (None, w) \<Rightarrow> go Return (enif_rwlock_runlock (lockPtr st) w)
           | Some (Some (v, vm), w) \<Rightarrow> Go (Hash v (vm_source fast st)) w)"
| "call_step sys lib s fast flags st (Hash v src) w = (if Vm v \<in> live w \<and> src \<in> live w then Go (Leave v) w else Crash)"
| "call_step sys lib s fast flags st (Leave v) w = go Unlock (release (Vm v) w)"
| "call_step sys lib s fast flags st Unlock w = go Return (enif_rwlock_runlock (lockPtr st) w)"
| "call_step sys lib s fast flags st TryRelease w =
     (case enif_rwlock_tryrwlock (lockPtr st) w of
        None \<Rightarrow> Crash | Some (True, w) \<Rightarrow> Go Releasing w | Some (False, w) \<Rightarrow> Go Return w)"
| "call_step sys lib s fast flags st Releasing w = go RwUnlock (release_randomx s w)"
| "call_step sys lib s fast flags st RwUnlock w = go Return (enif_rwlock_rwunlock (lockPtr st) w)"
| "call_step sys lib s fast flags st Return w = go Finished (enif_release_resource s w)"
| "call_step sys lib s fast flags st Finished w = Blocked"

text \<open>A call that is not finished reads the structure, which has to exist.\<close>

definition thread_step :: "sys \<Rightarrow> 'm rx_lib \<Rightarrow> nat \<Rightarrow> bool \<Rightarrow> call \<Rightarrow> rx_flag set \<Rightarrow> 't world \<Rightarrow> 't outcome" where
  "thread_step sys lib s fast c flags w =
     (if c = Finished then Blocked
      else case states w s of None \<Rightarrow> Crash | Some st \<Rightarrow> call_step sys lib s fast flags st c w)"

definition count :: "(call \<Rightarrow> bool) \<Rightarrow> call list \<Rightarrow> nat" where
  "count p cs = length (filter p cs)"

abbreviation in_progress :: "call \<Rightarrow> bool" where
  "in_progress c \<equiv> c \<noteq> Finished"

text \<open>
  References beyond those of the calls in progress are terms on the heaps of Erlang processes.
\<close>

definition term_exists :: "nat \<Rightarrow> 't world \<Rightarrow> call list \<Rightarrow> bool" where
  "term_exists s w cs \<longleftrightarrow> count in_progress cs < refs w s"

text \<open>
  The system: a world and the calls that were made. As long as a process has a term for the state, it may at any time
  call a function with it, with any flags that agree with the mode; it may send the term on; and the
  garbage collector may drop a term, also while calls are running.
\<close>

inductive rx_step :: "sys \<Rightarrow> 'm rx_lib \<Rightarrow> nat \<Rightarrow> bool \<Rightarrow> 't world \<times> call list \<Rightarrow> 't world \<times> call list \<Rightarrow> bool"
  for sys :: sys and lib :: "'m rx_lib" and s :: nat and fast :: bool where
  arrive: "term_exists s w cs \<Longrightarrow> c = Enter \<or> c = TryRelease \<Longrightarrow> rx_step sys lib s fast (w, cs) (enif_keep_term s w, cs @ [c])"
| copy: "term_exists s w cs \<Longrightarrow> rx_step sys lib s fast (w, cs) (enif_keep_term s w, cs)"
| collect: "term_exists s w cs \<Longrightarrow> enif_release_resource s w = Some w' \<Longrightarrow> rx_step sys lib s fast (w, cs) (w', cs)"
| advance: "thread_step sys lib s fast c flags w = Go c' w' \<Longrightarrow> FULL_MEM \<in> flags \<longleftrightarrow> fast \<Longrightarrow>
    rx_step sys lib s fast (w, xs @ c # ys) (w', xs @ c' # ys)"

inductive_cases rx_stepE: "rx_step sys lib s fast c c'"

inductive rx_reach :: "sys \<Rightarrow> 'm rx_lib \<Rightarrow> nat \<Rightarrow> bool \<Rightarrow> 't world \<Rightarrow> 't world \<times> call list \<Rightarrow> bool"
  for sys :: sys and lib :: "'m rx_lib" and s :: nat and fast :: bool and w0 :: "'t world" where
  start: "rx_reach sys lib s fast w0 (w0, [])"
| onward: "rx_reach sys lib s fast w0 c \<Longrightarrow> rx_step sys lib s fast c c' \<Longrightarrow> rx_reach sys lib s fast w0 c'"

section \<open>The invariant\<close>

fun reading :: "call \<Rightarrow> bool" where
  "reading Check = True"
| "reading (Hash v src) = True"
| "reading (Leave v) = True"
| "reading Unlock = True"
| "reading c = False"

fun writing :: "call \<Rightarrow> bool" where
  "writing Releasing = True"
| "writing RwUnlock = True"
| "writing c = False"

fun vms_of :: "call \<Rightarrow> nat list" where
  "vms_of (Hash v src) = [v]"
| "vms_of (Leave v) = [v]"
| "vms_of c = []"

lemma count_simps [simp]:
  "count p [] = 0" "count p (c # cs) = (if p c then Suc (count p cs) else count p cs)"
  "count p (xs @ ys) = count p xs + count p ys"
  by (simp_all add: count_def)

lemma count_zero: "count p cs = 0 \<longleftrightarrow> (\<forall>c \<in> set cs. \<not> p c)"
  by (simp add: count_def filter_empty_conv)

definition resources_ok :: "bool \<Rightarrow> rx_state \<Rightarrow> 't world \<Rightarrow> bool" where
  "resources_ok fast st w \<longleftrightarrow>
     (if isRandomxReleased st = 0
      then (if fast then (\<exists>d. datasetPtr st = Some d \<and> Dataset d \<in> live w) \<and> cachePtr st = None
            else (\<exists>c. cachePtr st = Some c \<and> Cache c \<in> live w) \<and> datasetPtr st = None)
      else datasetPtr st = None \<and> cachePtr st = None)"

definition call_ok :: "bool \<Rightarrow> rx_state \<Rightarrow> 't world \<Rightarrow> call \<Rightarrow> bool" where
  "call_ok fast st w c \<longleftrightarrow>
     (\<forall>v \<in> set (vms_of c). Vm v \<in> live w) \<and>
     (\<forall>v src. c = Hash v src \<longrightarrow> isRandomxReleased st = 0 \<and> src = vm_source fast st)"

text \<open>
  The account of the ledger: beside the objects \<open>L\<close> that have nothing to do with the state there are what the state
  owns and the machines of the calls, and nothing more.
\<close>

definition machines :: "call list \<Rightarrow> obj set" where
  "machines cs = Vm ` set (concat (map vms_of cs))"

definition accounted :: "nat \<Rightarrow> rx_state \<Rightarrow> obj set \<Rightarrow> obj set \<Rightarrow> call list \<Rightarrow> bool" where
  "accounted s st L ls cs \<longleftrightarrow> L \<inter> (owned s st \<union> machines cs) = {} \<and> ls = L \<union> owned s st \<union> machines cs"

definition in_use :: "nat \<Rightarrow> bool \<Rightarrow> obj set \<Rightarrow> 't world \<Rightarrow> call list \<Rightarrow> bool" where
  "in_use s fast L w cs \<longleftrightarrow>
     (\<exists>st l. states w s = Some st \<and> lockPtr st = Some l \<and> Lock l \<in> live w \<and> Resource s \<in> live w \<and>
        readers w l = count reading cs \<and> (writer w l \<longleftrightarrow> count writing cs = 1) \<and> count writing cs \<le> 1 \<and>
        (count writing cs = 1 \<longrightarrow> count reading cs = 0) \<and>
        resources_ok fast st w \<and> (\<forall>c \<in> set cs. call_ok fast st w c) \<and> distinct (concat (map vms_of cs)) \<and>
        accounted s st L (live w) cs)"

text \<open>
  Every call in progress counts as a reference. As long as there is one the state is intact; without any,
  the destructor has run and only \<open>L\<close> is left.
\<close>

definition rx_inv :: "nat \<Rightarrow> bool \<Rightarrow> obj set \<Rightarrow> 't world \<times> call list \<Rightarrow> bool" where
  "rx_inv s fast L wc \<longleftrightarrow> (case wc of (w, cs) \<Rightarrow>
     ledger_ok w \<and> count in_progress cs \<le> refs w s \<and>
     (if refs w s = 0 then states w s = None \<and> live w = L else in_use s fast L w cs))"

lemma accounted_append [simp]: "machines (xs @ ys) = machines xs \<union> machines ys"
  "machines (c # cs) = Vm ` set (vms_of c) \<union> machines cs" "machines [] = {}"
  by (auto simp: machines_def)

lemma rx_inv_in_use:
  "in_progress c \<Longrightarrow> rx_inv s fast L (w, xs @ c # ys) \<longleftrightarrow>
    ledger_ok w \<and> Suc (count in_progress (xs @ ys)) \<le> refs w s \<and> in_use s fast L w (xs @ c # ys)"
  by (auto simp: rx_inv_def)

lemma call_ok_mono: "call_ok fast st w c \<Longrightarrow> (\<And>v. v \<in> set (vms_of c) \<Longrightarrow> Vm v \<in> live w \<Longrightarrow> Vm v \<in> live w') \<Longrightarrow> call_ok fast st w' c"
  by (auto simp: call_ok_def)

lemma call_ok_frame [simp]:
  "call_ok fast st (w\<lparr>readers := r\<rparr>) c = call_ok fast st w c" "call_ok fast st (w\<lparr>writer := x\<rparr>) c = call_ok fast st w c"
  "call_ok fast st (w\<lparr>next_id := n\<rparr>) c = call_ok fast st w c"
  by (simp_all add: call_ok_def)

lemma call_ok_idle [simp]: "vms_of c = [] \<Longrightarrow> call_ok fast st w c"
  by (cases c) (auto simp: call_ok_def)

lemma resources_ok_frame [simp]:
  "resources_ok fast st (w\<lparr>readers := r\<rparr>) = resources_ok fast st w" "resources_ok fast st (w\<lparr>writer := x\<rparr>) = resources_ok fast st w"
  "resources_ok fast st (w\<lparr>next_id := n\<rparr>) = resources_ok fast st w"
  by (simp_all add: resources_ok_def)

lemma ledger_ok_frame [simp]:
  "ledger_ok (w\<lparr>readers := r\<rparr>) = ledger_ok w" "ledger_ok (w\<lparr>writer := x\<rparr>) = ledger_ok w"
  by (simp_all add: ledger_ok_def)

text \<open>
  Any call in progress of a system that satisfies the invariant makes a defined step that keeps it, or
  waits.
\<close>

definition step_fine :: "nat \<Rightarrow> bool \<Rightarrow> obj set \<Rightarrow> call list \<Rightarrow> call list \<Rightarrow> 't outcome \<Rightarrow> bool" where
  "step_fine s fast L xs ys out \<longleftrightarrow>
     (case out of Blocked \<Rightarrow> True | Crash \<Rightarrow> False | Go c' w' \<Rightarrow> rx_inv s fast L (w', xs @ c' # ys))"

text \<open>Dropping a reference, also the last one, which runs the destructor.\<close>

lemma destructor_runs:
  assumes "in_use s fast L w cs" "ledger_ok w" "\<forall>c \<in> set cs. c = Finished" "refs w s = 1"
  shows "\<exists>w'. enif_release_resource s w = Some w' \<and> rx_inv s fast L (w', cs)"
proof -
  have idle: "count reading cs = 0" "count writing cs = 0" "machines cs = {}"
    using assms(3) by (auto simp: count_zero machines_def)
  then obtain st l where st: "states w s = Some st" "lockPtr st = Some l" "Lock l \<in> live w" "readers w l = 0" "\<not> writer w l"
      "resources_ok fast st w" "Resource s \<in> live w" "accounted s st L (live w) cs"
    using assms(1) by (auto simp: in_use_def)
  let ?d = "opt_obj Dataset (datasetPtr st)" and ?c = "opt_obj Cache (cachePtr st)"
  have sub: "?d \<subseteq> live w" "?c \<subseteq> live (w\<lparr>live := live w - ?d\<rparr>)"
    using st(6) by (auto simp: resources_ok_def opt_obj_def split: if_splits option.splits)
  have keep: "Lock l \<in> live w - ?d - ?c" "Resource s \<in> live w - ?d - ?c - {Lock l}"
    using st(3,7) by (auto simp: opt_obj_def split: option.splits)
  have L: "live w - ?d - ?c - {Lock l} - {Resource s} = L" using st(2,8) idle(3) by (auto simp: owned_def accounted_def)
  have fin: "count in_progress cs = 0" using assms(3) by (simp add: count_zero)
  have "ledger_ok (w'\<lparr>live := L\<rparr>)" if "next_id w' = next_id w" for w' :: "'a world"
    using assms(2) that L by (auto simp: ledger_ok_def)
  then show ?thesis
    using st keep release_opt [OF sub(1)] release_opt [OF sub(2)] assms(4) L fin
    by (simp add: enif_release_resource_def state_dtor_def release_randomx_def put_state_def enif_rwlock_destroy_def
        release_def rx_inv_def ledger_ok_def)
qed

lemma in_use_frame [simp]: "in_use s fast L (w\<lparr>refs := r\<rparr>) cs = in_use s fast L w cs"
  by (simp add: in_use_def resources_ok_def call_ok_def)

lemma drop_reference:
  assumes "rx_inv s fast L (w, cs)" "term_exists s w cs"
  shows "\<exists>w'. enif_release_resource s w = Some w' \<and> rx_inv s fast L (w', cs)"
proof (cases "refs w s = 1")
  case True
  then have "\<forall>c \<in> set cs. c = Finished" using assms(2) by (simp add: term_exists_def count_zero)
  then show ?thesis using destructor_runs [of s fast L w cs] assms(1) True by (simp add: rx_inv_def)
next
  case False
  then show ?thesis using assms by (auto simp: enif_release_resource_def rx_inv_def term_exists_def ledger_ok_def)
qed

lemma return_fine:
  assumes "rx_inv s fast L (w, xs @ Return # ys)"
  shows "step_fine s fast L xs ys (go Finished (enif_release_resource s w))"
proof -
  have "rx_inv s fast L (w, xs @ Finished # ys)" "term_exists s w (xs @ Finished # ys)"
    using assms by (auto simp: rx_inv_def in_use_def term_exists_def accounted_def)
  from drop_reference [OF this] show ?thesis by (auto simp: step_fine_def)
qed

text \<open>The other steps keep the references.\<close>

lemma runlock_fine:
  assumes "rx_inv s fast L (w, xs @ c # ys)" "reading c" "states w s = Some st" "vms_of c = []"
  shows "step_fine s fast L xs ys (go Return (enif_rwlock_runlock (lockPtr st) w))"
proof -
  have c: "in_progress c" using assms(2) by auto
  obtain l where l: "lockPtr st = Some l" "Lock l \<in> live w" "readers w l = Suc (count reading xs + count reading ys)"
      "\<not> writer w l" "count writing xs = 0" "count writing ys = 0"
    using assms(1-3) by (cases c) (auto simp: rx_inv_def in_use_def split: if_splits)
  then have "enif_rwlock_runlock (lockPtr st) w = Some (w\<lparr>readers := (readers w)(l := count reading xs + count reading ys)\<rparr>)"
    by (simp add: enif_rwlock_runlock_def)
  moreover have "\<not> writing c" using assms(2) by (cases c) auto
  ultimately show ?thesis
    using assms(1) [unfolded rx_inv_in_use [OF c]] assms(2-) l
    by (auto simp: step_fine_def rx_inv_in_use in_use_def accounted_def)
qed

lemma check_fine:
  assumes "rx_inv s fast L (w, xs @ Check # ys)" "FULL_MEM \<in> flags \<longleftrightarrow> fast" "states w s = Some st"
  shows "step_fine s fast L xs ys (call_step sys lib s fast flags st Check w)"
proof (cases "isRandomxReleased st = 0")
  case False
  then show ?thesis using runlock_fine [OF assms(1) _ assms(3)] by simp
next
  case True
  let ?n = "next_id w"
  let ?w1 = "w\<lparr>next_id := Suc ?n\<rparr>" and ?w2 = "w\<lparr>next_id := Suc ?n, live := insert (Vm ?n) (live w)\<rparr>"
  have ok: "ledger_ok w" "resources_ok fast st w" using assms(1,3) by (auto simp: rx_inv_in_use in_use_def)
  have vm: "randomx_create_vm sys lib flags (cachePtr st) (datasetPtr st) w =
      (if fails sys ?n then Some (None, ?w1) else Some (Some (?n, vm_fresh lib flags (cachePtr st) (datasetPtr st)), ?w2))"
    using ok(2) True assms(2)
    by (auto simp: randomx_create_vm_def resources_ok_def acquire_def Let_def split: if_splits)
  show ?thesis
  proof (cases "fails sys ?n")
    case f: True
    have "rx_inv s fast L (?w1, xs @ Check # ys)" using assms(1) by (auto simp: rx_inv_in_use in_use_def ledger_ok_def)
    then show ?thesis using runlock_fine [of s fast L ?w1 xs Check ys st] True f vm assms(3) by simp
  next
    case f: False
    have fresh: "Vm ?n \<notin> live w" using not_live_fresh [OF ok(1), of "Vm ?n"] by simp
    then have "?n \<notin> set (concat (map vms_of (xs @ ys)))"
      using assms(1) by (fastforce simp: rx_inv_in_use in_use_def call_ok_def)
    moreover have "accounted s st L (insert (Vm ?n) (live w)) (xs @ Hash ?n (vm_source fast st) # ys)"
      using assms(1,3) fresh by (auto simp: rx_inv_in_use in_use_def accounted_def)
    ultimately have "rx_inv s fast L (?w2, xs @ Hash ?n (vm_source fast st) # ys)"
      using assms(1,3) True
      by (auto simp: rx_inv_in_use in_use_def ledger_ok_def resources_ok_def call_ok_def less_SucI split: if_splits)
    then show ?thesis using True f vm by (simp add: step_fine_def)
  qed
qed

lemma leave_fine:
  assumes "rx_inv s fast L (w, xs @ Leave v # ys)"
  shows "step_fine s fast L xs ys (go Unlock (release (Vm v) w))"
proof -
  have v: "Vm v \<in> live w" "v \<notin> set (concat (map vms_of (xs @ ys)))"
    using assms by (auto simp: rx_inv_in_use in_use_def call_ok_def)
  have "call_ok fast st (w\<lparr>live := live w - {Vm v}\<rparr>) c" if "call_ok fast st w c" "c \<in> set (xs @ ys)" for st c
    using that v by (auto simp: call_ok_def)
  moreover have "Vm v \<notin> owned s st" for st by (auto simp: owned_def opt_obj_def split: option.splits)
  then have "accounted s st L (live w - {Vm v}) (xs @ Unlock # ys)" if "accounted s st L (live w) (xs @ Leave v # ys)" for st
    using that v(2) by (auto simp: accounted_def machines_def)
  ultimately show ?thesis
    using assms v(1)
    by (auto simp: step_fine_def release_def rx_inv_in_use in_use_def ledger_ok_def resources_ok_def split: if_splits)
qed

lemma releasing_fine:
  assumes "rx_inv s fast L (w, xs @ Releasing # ys)"
  shows "step_fine s fast L xs ys (go RwUnlock (release_randomx s w))"
proof -
  obtain st l where st: "states w s = Some st" "lockPtr st = Some l" "Lock l \<in> live w" "readers w l = 0" "writer w l"
      "resources_ok fast st w" "\<And>c. c \<in> set (xs @ ys) \<Longrightarrow> \<not> reading c" "count writing xs = 0" "count writing ys = 0"
      "accounted s st L (live w) (xs @ Releasing # ys)" "Resource s \<in> live w" "ledger_ok w"
      "count in_progress (xs @ ys) < refs w s"
  proof -
    obtain st l where "states w s = Some st" "lockPtr st = Some l" "Lock l \<in> live w" "readers w l = count reading (xs @ ys)" "writer w l"
        "resources_ok fast st w" "count reading (xs @ ys) = 0" "count writing (xs @ ys) = 0"
        "accounted s st L (live w) (xs @ Releasing # ys)" "Resource s \<in> live w"
      using assms by (auto simp: rx_inv_in_use in_use_def)
    moreover have "ledger_ok w" "count in_progress (xs @ ys) < refs w s" using assms by (auto simp: rx_inv_in_use)
    moreover have "\<not> reading c" if "c \<in> set (xs @ ys)" for c using calculation(7) that count_zero [of reading "xs @ ys"] by blast
    ultimately show ?thesis using that [of st l] by simp
  qed
  let ?st = "st\<lparr>datasetPtr := None, cachePtr := None, isRandomxReleased := 1\<rparr>"
  let ?d = "opt_obj Dataset (datasetPtr st)" and ?c = "opt_obj Cache (cachePtr st)"
  let ?w = "w\<lparr>live := live w - ?d - ?c, states := (states w)(s \<mapsto> ?st)\<rparr>"
  have sub: "?d \<subseteq> live w" "?c \<subseteq> live (w\<lparr>live := live w - ?d\<rparr>)"
    using st(6) by (auto simp: resources_ok_def opt_obj_def split: if_splits option.splits)
  have r: "release_randomx s w = Some ?w"
    using st(1) release_opt [OF sub(1)] release_opt [OF sub(2)] by (simp add: release_randomx_def put_state_def)
  have idle: "vms_of c = []" if "c \<in> set (xs @ ys)" for c using st(7) [OF that] by (cases c) auto
  have keep: "Lock l \<in> live ?w" "Resource s \<in> live ?w"
    using st(3,11) by (auto simp: opt_obj_def split: option.splits)
  have "machines (xs @ ys) = {}" using idle by (auto simp: machines_def)
  then have acc: "accounted s ?st L (live ?w) (xs @ RwUnlock # ys)"
    using st(2,10) by (auto simp: accounted_def owned_def opt_obj_def split: option.splits)
  have "concat (map vms_of xs) = []" "concat (map vms_of ys) = []" using idle by simp_all
  then have "distinct (concat (map vms_of xs))" "distinct (concat (map vms_of ys))" by (metis distinct.simps(1))+
  then have "in_use s fast L ?w (xs @ RwUnlock # ys)"
    using st keep idle acc by (auto simp: in_use_def resources_ok_def count_zero)
  moreover have "ledger_ok ?w" using st(12) by (auto simp: ledger_ok_def)
  ultimately show ?thesis using r st(13) by (simp add: step_fine_def rx_inv_in_use)
qed

lemma any_step_fine:
  assumes "rx_inv s fast L (w, xs @ c # ys)" "FULL_MEM \<in> flags \<longleftrightarrow> fast"
  shows "step_fine s fast L xs ys (thread_step sys lib s fast c flags w)"
proof (cases "c = Finished")
  case True
  then show ?thesis by (simp add: thread_step_def step_fine_def)
next
  case False
  note inv = assms(1) [unfolded rx_inv_in_use [OF False]]
  obtain st l where st: "states w s = Some st" "lockPtr st = Some l" "Lock l \<in> live w"
    using inv by (auto simp: in_use_def)
  have "step_fine s fast L xs ys (call_step sys lib s fast flags st c w)"
  proof (cases c)
    case Enter
    then show ?thesis using inv st by (auto simp: enif_rwlock_rlock_def step_fine_def rx_inv_in_use in_use_def accounted_def)
  next
    case Check
    show ?thesis unfolding Check by (rule check_fine) (use assms st Check in simp_all)
  next
    case (Hash v src)
    have "src \<in> live w" "Vm v \<in> live w"
      using inv st Hash by (auto simp: in_use_def call_ok_def resources_ok_def vm_source_def split: if_splits)
    moreover have "rx_inv s fast L (w, xs @ Leave v # ys)"
      using inv Hash by (auto simp: rx_inv_in_use in_use_def call_ok_def accounted_def)
    ultimately show ?thesis using Hash by (simp add: step_fine_def)
  next
    case (Leave v)
    then show ?thesis using leave_fine assms(1) by simp
  next
    case Unlock
    then show ?thesis using runlock_fine [OF assms(1) _ st(1)] by simp
  next
    case TryRelease
    then show ?thesis
      using inv st by (auto simp: enif_rwlock_tryrwlock_def step_fine_def rx_inv_in_use in_use_def accounted_def)
  next
    case Releasing
    then show ?thesis using releasing_fine assms(1) by simp
  next
    case RwUnlock
    then show ?thesis
      using inv st by (auto simp: enif_rwlock_rwunlock_def step_fine_def rx_inv_in_use in_use_def accounted_def)
  next
    case Return
    then show ?thesis using return_fine assms(1) by simp
  next
    case Finished
    then show ?thesis by (simp add: step_fine_def)
  qed
  then show ?thesis using st(1) False by (simp add: thread_step_def)
qed

lemma keep_term_fine:
  assumes "rx_inv s fast L (w, cs)" "term_exists s w cs"
  shows "rx_inv s fast L (enif_keep_term s w, cs) \<and>
    (c = Enter \<or> c = TryRelease \<longrightarrow> rx_inv s fast L (enif_keep_term s w, cs @ [c]))"
proof -
  have "in_use s fast L w cs" "ledger_ok w" "count in_progress cs < refs w s"
    using assms by (auto simp: rx_inv_def term_exists_def)
  moreover from this(1) have "in_use s fast L w (cs @ [c])" if "c = Enter \<or> c = TryRelease"
    using that by (auto simp: in_use_def accounted_def)
  ultimately show ?thesis by (auto simp: rx_inv_def enif_keep_term_def ledger_ok_def)
qed

lemma rx_inv_reach:
  assumes "rx_reach sys lib s fast w0 c" "rx_inv s fast L (w0, [])"
  shows "rx_inv s fast L c"
  using assms(1)
proof induction
  case start
  then show ?case by (rule assms(2))
next
  case (onward c c')
  from onward.hyps(2) show ?case
  proof (cases rule: rx_step.cases)
    case (arrive w cs c)
    then show ?thesis using onward.IH keep_term_fine by blast
  next
    case (copy w cs)
    then show ?thesis using onward.IH keep_term_fine by blast
  next
    case (collect w cs w')
    then show ?thesis using onward.IH drop_reference by fastforce
  next
    case (advance c flags w c' w' xs ys)
    then show ?thesis using any_step_fine [of s fast L w xs c ys flags sys lib] onward.IH by (simp add: step_fine_def)
  qed
qed


text \<open>An idle state: nobody holds the lock, the resource is referenced by one term.\<close>

definition idle_state :: "nat \<Rightarrow> bool \<Rightarrow> 't world \<Rightarrow> bool" where
  "idle_state s fast w \<longleftrightarrow>
     ledger_ok w \<and> Resource s \<in> live w \<and> refs w s = 1 \<and>
     (\<exists>st l. states w s = Some st \<and> lockPtr st = Some l \<and> Lock l \<in> live w \<and> readers w l = 0 \<and> \<not> writer w l \<and>
        resources_ok fast st w)"

text \<open>What there is besides the state.\<close>

definition others :: "nat \<Rightarrow> 't world \<Rightarrow> obj set" where
  "others s w = live w - (case states w s of None \<Rightarrow> {} | Some st \<Rightarrow> owned s st)"

lemma idle_rx_inv:
  assumes "idle_state s fast w"
  shows "rx_inv s fast (others s w) (w, [])"
proof -
  obtain st l where st: "states w s = Some st" "lockPtr st = Some l" "Lock l \<in> live w" "Resource s \<in> live w" "resources_ok fast st w"
    using assms by (auto simp: idle_state_def)
  then have "owned s st \<subseteq> live w" by (auto simp: owned_def resources_ok_def split: if_splits)
  then have "accounted s st (others s w) (live w) []" using st(1) by (auto simp: accounted_def others_def)
  then show ?thesis using assms st by (auto simp: idle_state_def rx_inv_def in_use_def)
qed

text \<open>A state that \<open>init\<close> has just returned is idle.\<close>

lemma initialised_idle:
  assumes "wf_world w" "next_id w \<le> s" "states w' = (states w)(s \<mapsto> st)" "refs w' = (refs w)(s := 1)"
    and "live w' = live w \<union> owned s st" "initialised lib mode k flags key w st w'" "readers w' = readers w" "writer w' = writer w"
    and "ledger_ok w'" "\<And>l. lockPtr st = Some l \<Longrightarrow> next_id w \<le> l"
  shows "idle_state s (mode = HASHING_MODE_FAST) w'"
  using assms
  by (cases mode) (auto simp: idle_state_def initialised_def owned_def resources_ok_def wf_world_def)

lemma reach_inv: "idle_state s fast w0 \<Longrightarrow> rx_reach sys lib s fast w0 c \<Longrightarrow> rx_inv s fast (others s w0) c"
  using rx_inv_reach idle_rx_inv by blast

section \<open>Progress\<close>

abbreviation rx_run :: "sys \<Rightarrow> 'm rx_lib \<Rightarrow> nat \<Rightarrow> bool \<Rightarrow> 't world \<times> call list \<Rightarrow> 't world \<times> call list \<Rightarrow> bool" where
  "rx_run sys lib s fast \<equiv> (rx_step sys lib s fast)\<^sup>*\<^sup>*"

lemma advance_run:
  assumes "thread_step sys lib s fast c flags w = Go c' w'" "FULL_MEM \<in> flags \<longleftrightarrow> fast"
    and "rx_run sys lib s fast (w', xs @ c' # ys) z"
  shows "rx_run sys lib s fast (w, xs @ c # ys) z"
  using rx_step.advance [OF assms(1,2)] assms(3) by (rule converse_rtranclp_into_rtranclp)

lemma reach_run: "rx_reach sys lib s fast w0 c \<Longrightarrow> rx_run sys lib s fast c c' \<Longrightarrow> rx_reach sys lib s fast w0 c'"
  by (rotate_tac 1, induction rule: rtranclp_induct) (auto intro: rx_reach.onward)

text \<open>How many steps a call is away from its end.\<close>

fun rank :: "call \<Rightarrow> nat" where
  "rank Enter = 6"
| "rank Check = 5"
| "rank (Hash v src) = 4"
| "rank (Leave v) = 3"
| "rank Unlock = 2"
| "rank TryRelease = 4"
| "rank Releasing = 3"
| "rank RwUnlock = 2"
| "rank Return = 1"
| "rank Finished = 0"

lemma go_Go: "go c x = Go c' w' \<Longrightarrow> c' = c"
  by (cases x) auto

lemma step_lowers_rank: "thread_step sys lib s fast c flags w = Go c' w' \<Longrightarrow> rank c' < rank c"
  by (cases c) (auto simp: thread_step_def dest!: go_Go split: option.splits if_splits bool.splits prod.splits)

lemma some_call_moves:
  assumes inv: "rx_inv s fast L (w, cs)" and "\<exists>c \<in> set cs. c \<noteq> Finished" and "FULL_MEM \<in> flags \<longleftrightarrow> fast"
  shows "\<exists>c \<in> set cs. \<exists>c' w'. thread_step sys lib s fast c flags w = Go c' w'"
proof -
  have "0 < count in_progress cs" using assms(2) count_zero [of in_progress cs] by auto
  then obtain st l where st: "states w s = Some st" "lockPtr st = Some l" "Lock l \<in> live w"
    "writer w l \<longleftrightarrow> count writing cs = 1" using inv by (auto simp: rx_inv_def in_use_def split: if_splits)
  have fine: "thread_step sys lib s fast c flags w \<noteq> Crash" if m: "c \<in> set cs" for c
  proof -
    obtain xs ys where "cs = xs @ c # ys" using split_list [OF m] by blast
    then show ?thesis using any_step_fine [of s fast L w xs c ys flags sys lib] inv assms(3) by (auto simp: step_fine_def)
  qed
  have moves: "\<exists>c' w'. thread_step sys lib s fast c flags w = Go c' w'"
    if "c \<in> set cs" "thread_step sys lib s fast c flags w \<noteq> Blocked" for c
    using fine [OF that(1)] that(2) by (cases "thread_step sys lib s fast c flags w") auto
  have go: "go c x \<noteq> Blocked" for c and x :: "'a world option" by (cases x) auto
  show ?thesis
  proof (cases "count writing cs = 0")
    case True
    obtain c where c: "c \<in> set cs" "c \<noteq> Finished" using assms(2) by blast
    have "thread_step sys lib s fast c flags w \<noteq> Blocked"
      using c(2) st True go by (cases c) (auto simp: thread_step_def split: option.splits bool.splits)
    then show ?thesis using moves c(1) by blast
  next
    case False
    then obtain c where c: "c \<in> set cs" "writing c" by (auto simp: count_zero)
    have "thread_step sys lib s fast c flags w \<noteq> Blocked" using c(2) st(1) go by (cases c) (auto simp: thread_step_def)
    then show ?thesis using moves c(1) by blast
  qed
qed

lemma calls_can_finish:
  assumes "rx_inv s fast L (w, cs)"
  shows "\<exists>w'. rx_run sys lib s fast (w, cs) (w', replicate (length cs) Finished)"
  using assms
proof (induction "sum_list (map rank cs)" arbitrary: w cs rule: less_induct)
  case less
  show ?case
  proof (cases "\<exists>c \<in> set cs. c \<noteq> Finished")
    case False
    then have "cs = replicate (length cs) Finished" by (induction cs) auto
    then show ?thesis by (metis rtranclp.rtrancl_refl)
  next
    case True
    let ?fl = "if fast then {FULL_MEM} else {}"
    have fl: "FULL_MEM \<in> ?fl \<longleftrightarrow> fast" by simp
    obtain c c' w' where m: "c \<in> set cs" "thread_step sys lib s fast c ?fl w = Go c' w'"
      using some_call_moves [OF less.prems True fl] by blast
    obtain xs ys where cs: "cs = xs @ c # ys" using split_list [OF m(1)] by blast
    have "rx_inv s fast L (w', xs @ c' # ys)"
      using any_step_fine [of s fast L w xs c ys ?fl sys lib] less.prems fl m(2) cs by (auto simp: step_fine_def)
    moreover have "sum_list (map rank (xs @ c' # ys)) < sum_list (map rank cs)"
      using step_lowers_rank [OF m(2)] cs by simp
    ultimately obtain w'' where
      "rx_run sys lib s fast (w', xs @ c' # ys) (w'', replicate (length (xs @ c' # ys)) Finished)" using less.hyps by blast
    from advance_run [OF m(2) fl this] show ?thesis using cs by (intro exI [of _ w'']) simp
  qed
qed

text \<open>Without calls in progress the collector can drop the remaining terms, one after the other.\<close>

lemma release_lowers_refs: "enif_release_resource s w = Some w' \<Longrightarrow> refs w' s < refs w s"
  by (auto simp: enif_release_resource_def state_dtor_def release_randomx_def put_state_def enif_rwlock_destroy_def release_def
      split: if_splits option.splits Option.bind_splits)

lemma terms_can_be_collected:
  assumes "rx_inv s fast L (w, cs)" "\<forall>c \<in> set cs. c = Finished"
  shows "\<exists>w'. rx_run sys lib s fast (w, cs) (w', cs) \<and> refs w' s = 0 \<and> rx_inv s fast L (w', cs)"
  using assms
proof (induction "refs w s" arbitrary: w rule: less_induct)
  case less
  show ?case
  proof (cases "refs w s = 0")
    case True
    then show ?thesis using less.prems(1) by blast
  next
    case False
    then have t: "term_exists s w cs" using less.prems(2) count_zero [of in_progress cs] by (simp add: term_exists_def)
    then obtain w1 where w1: "enif_release_resource s w = Some w1" "rx_inv s fast L (w1, cs)"
      using drop_reference [OF less.prems(1)] by blast
    from less.hyps [OF release_lowers_refs [OF w1(1)] w1(2) less.prems(2)] rx_step.collect [OF t w1(1)]
    show ?thesis by (meson converse_rtranclp_into_rtranclp)
  qed
qed

section \<open>Properties\<close>

text \<open>
  Property C1: no use after free, whatever the interleaving. In every state that any number of hashing,
  packing and releasing calls, copies of the term and garbage collections can reach, no call can take an
  undefined step; a call that is not finished finds the structure allocated; a call that computes has its machine and
  the dataset or cache under it alive; and dropping a term, which runs the destructor when it is the
  last reference, is defined as well.
\<close>

theorem no_use_after_free:
  assumes "idle_state s fast w0" "rx_reach sys lib s fast w0 (w, cs)" "c \<in> set cs" "FULL_MEM \<in> flags \<longleftrightarrow> fast"
  shows "thread_step sys lib s fast c flags w \<noteq> Crash \<and>
    (c \<noteq> Finished \<longrightarrow> Resource s \<in> live w \<and> (\<exists>st l. states w s = Some st \<and> lockPtr st = Some l \<and> Lock l \<in> live w)) \<and>
    (\<forall>v src. c = Hash v src \<longrightarrow> Vm v \<in> live w \<and> src \<in> live w) \<and>
    (term_exists s w cs \<longrightarrow> (\<exists>w'. enif_release_resource s w = Some w'))"
proof -
  obtain xs ys where cs: "cs = xs @ c # ys" using split_list [OF assms(3)] by blast
  have inv: "rx_inv s fast (others s w0) (w, xs @ c # ys)" using reach_inv [OF assms(1,2)] cs by simp
  have nc: "thread_step sys lib s fast c' flags w \<noteq> Crash" if "c' = c" for c'
    using any_step_fine [OF inv assms(4), of sys lib] that by (auto simp: step_fine_def)
  have alive: "c \<noteq> Finished \<longrightarrow> Resource s \<in> live w \<and> (\<exists>st l. states w s = Some st \<and> lockPtr st = Some l \<and> Lock l \<in> live w)"
    using inv by (auto simp: rx_inv_in_use in_use_def)
  moreover have "Vm v \<in> live w \<and> src \<in> live w" if "c = Hash v src" for v src
    using nc that alive by (auto simp: thread_step_def split: if_splits)
  ultimately show ?thesis using nc drop_reference [OF inv] cs by auto
qed

lemma toy_fast_idle [simp]: "idle_state 0 True toy_fast_world"
  by (simp add: idle_state_def toy_fast_world_def empty_world_def ledger_ok_def resources_ok_def)

text \<open>A run of the witnesses: a hash and a release are called and the process drops its term while they run.\<close>

definition toy_busy_world :: "toy_term world" where
  "toy_busy_world = toy_fast_world\<lparr>refs := (refs toy_fast_world)(0 := 2)\<rparr>"

lemma toy_busy:
  "rx_reach no_failures (lib_with_items 1) 0 True toy_fast_world (toy_busy_world, [Enter, TryRelease])"
proof -
  let ?w1 = "enif_keep_term 0 toy_fast_world" and ?w2 = "enif_keep_term 0 (enif_keep_term 0 toy_fast_world)"
  have refs: "refs toy_fast_world 0 = 1" by (simp add: toy_fast_world_def)
  have "rx_step no_failures (lib_with_items 1) 0 True (toy_fast_world, []) (?w1, [] @ [Enter])"
    by (rule rx_step.arrive) (simp_all add: term_exists_def refs)
  moreover have "rx_step no_failures (lib_with_items 1) 0 True (?w1, [Enter]) (?w2, [Enter] @ [TryRelease])"
    by (rule rx_step.arrive) (simp_all add: term_exists_def refs enif_keep_term_def)
  moreover have "rx_step no_failures (lib_with_items 1) 0 True (?w2, [Enter, TryRelease]) (toy_busy_world, [Enter, TryRelease])"
    by (rule rx_step.collect)
       (simp_all add: term_exists_def refs enif_keep_term_def enif_release_resource_def toy_busy_world_def numeral_2_eq_2)
  ultimately show ?thesis
    using rx_reach.onward [OF rx_reach.onward [OF rx_reach.onward [OF rx_reach.start]]] by auto
qed

lemma toy_hashing:
  "\<exists>w. rx_reach no_failures (lib_with_items 1) 0 True toy_fast_world (w, [Hash 3 (Dataset 2), TryRelease])"
proof -
  have at: "rx_reach no_failures (lib_with_items 1) 0 True toy_fast_world (toy_busy_world, [] @ Enter # [TryRelease])"
    using toy_busy by simp
  have step: "rx_reach no_failures (lib_with_items 1) 0 True toy_fast_world (w', [] @ c' # [TryRelease])"
    if "rx_reach no_failures (lib_with_items 1) 0 True toy_fast_world (w, [] @ c # [TryRelease])"
      "thread_step no_failures (lib_with_items 1) 0 True c {FULL_MEM} w = Go c' w'" for w c w' c'
    by (rule rx_reach.onward [OF that(1) rx_step.advance [OF that(2)]]) simp
  let ?w1 = "toy_busy_world\<lparr>readers := (readers toy_busy_world)(1 := Suc (readers toy_busy_world 1))\<rparr>"
  let ?w2 = "?w1\<lparr>next_id := 4, live := insert (Vm 3) (live ?w1)\<rparr>"
  note toy = thread_step_def toy_busy_world_def toy_fast_world_def empty_world_def
  have "thread_step no_failures (lib_with_items 1) 0 True Enter {FULL_MEM} toy_busy_world = Go Check ?w1"
    by (simp add: toy enif_rwlock_rlock_def)
  moreover have "thread_step no_failures (lib_with_items 1) 0 True Check {FULL_MEM} ?w1 = Go (Hash 3 (Dataset 2)) ?w2"
    by (simp add: toy randomx_create_vm_def acquire_def vm_source_def assert_that_def)
  ultimately show ?thesis using step [OF step [OF at]] by auto
qed

theorem no_use_after_free_witness:
  "\<exists>w. rx_reach no_failures (lib_with_items 1) 0 True toy_fast_world (w, [Hash 3 (Dataset 2), TryRelease]) \<and>
    thread_step no_failures (lib_with_items 1) 0 True (Hash 3 (Dataset 2)) {FULL_MEM} w \<noteq> Crash \<and>
    Resource 0 \<in> live w \<and> Vm 3 \<in> live w \<and> Dataset 2 \<in> live w"
proof -
  obtain w where "rx_reach no_failures (lib_with_items 1) 0 True toy_fast_world (w, [Hash 3 (Dataset 2), TryRelease])"
    using toy_hashing by blast
  from this no_use_after_free [OF toy_fast_idle this, of "Hash 3 (Dataset 2)" "{FULL_MEM}"]
  show ?thesis by auto
qed

text \<open>
  Property C20: no deadlock, and every call ends. As long as a call is not finished, some call can make a
  step; every step of a call brings it closer to its end, so calls cannot go on forever; and from every
  reachable state all calls in progress can be run to their end.
\<close>

theorem calls_always_finish:
  assumes "idle_state s fast w0" "rx_reach sys lib s fast w0 (w, cs)" "FULL_MEM \<in> flags \<longleftrightarrow> fast"
  shows "((\<exists>c \<in> set cs. c \<noteq> Finished) \<longrightarrow> (\<exists>c \<in> set cs. \<exists>c' w'. thread_step sys lib s fast c flags w = Go c' w')) \<and>
    (\<forall>c c' w'. thread_step sys lib s fast c flags w = Go c' w' \<longrightarrow> rank c' < rank c) \<and>
    (\<exists>w'. rx_run sys lib s fast (w, cs) (w', replicate (length cs) Finished))"
  using some_call_moves [OF reach_inv [OF assms(1,2)] _ assms(3), of sys lib] step_lowers_rank
    calls_can_finish [OF reach_inv [OF assms(1,2)]] by blast

theorem calls_always_finish_witness:
  "(\<exists>c \<in> set [Enter, TryRelease]. \<exists>c' w'. thread_step no_failures (lib_with_items 1) 0 True c {FULL_MEM} toy_busy_world = Go c' w') \<and>
   (\<exists>w'. rx_run no_failures (lib_with_items 1) 0 True (toy_busy_world, [Enter, TryRelease]) (w', [Finished, Finished]))"
  using calls_always_finish [OF toy_fast_idle toy_busy, of "{FULL_MEM}"] by (simp add: numeral_2_eq_2)

text \<open>
  Property C22: what is freed, and when. A releasing call and a computing call exclude each other. Once
  nothing refers to the state any more, its structure is gone and the live objects are those that existed at the
  start without the ones the state owned then: the lock, dataset, cache and resource and every machine that any
  call created have been freed, and nothing else. Such an end can be reached from every reachable state.
\<close>

theorem collected_state_frees_everything:
  assumes "idle_state s fast w0" "states w0 s = Some st0" "rx_reach sys lib s fast w0 (w, cs)"
  shows "(\<forall>c \<in> set cs. \<forall>d \<in> set cs. \<not> (writing c \<and> reading d)) \<and>
    (refs w s = 0 \<longrightarrow> states w s = None \<and> live w = live w0 - owned s st0 \<and> (\<forall>c \<in> set cs. c = Finished)) \<and>
    (\<exists>w'. rx_run sys lib s fast (w, cs) (w', replicate (length cs) Finished) \<and> refs w' s = 0 \<and>
       live w' = live w0 - owned s st0)"
proof (intro conjI impI)
  note inv = reach_inv [OF assms(1,3)]
  have L: "others s w0 = live w0 - owned s st0" using assms(2) by (simp add: others_def)
  show "\<forall>c \<in> set cs. \<forall>d \<in> set cs. \<not> (writing c \<and> reading d)"
  proof (cases "refs w s = 0")
    case True
    then have "\<forall>c \<in> set cs. c = Finished" using inv by (simp add: rx_inv_def count_zero)
    then show ?thesis by auto
  next
    case False
    then obtain n where "count writing cs \<le> 1" "count writing cs = 1 \<longrightarrow> count reading cs = 0"
      using inv by (auto simp: rx_inv_def in_use_def)
    then have "count writing cs = 0 \<or> count reading cs = 0" by auto
    then show ?thesis by (auto simp: count_zero)
  qed
  show "states w s = None" "live w = live w0 - owned s st0" "\<forall>c \<in> set cs. c = Finished" if "refs w s = 0"
    using inv that L by (simp_all add: rx_inv_def count_zero)
  obtain w1 where w1: "rx_run sys lib s fast (w, cs) (w1, replicate (length cs) Finished)"
    using calls_can_finish [OF inv] by blast
  note inv1 = reach_inv [OF assms(1) reach_run [OF assms(3) w1]]
  obtain w2 where "rx_run sys lib s fast (w1, replicate (length cs) Finished) (w2, replicate (length cs) Finished)"
      "refs w2 s = 0" "rx_inv s fast (others s w0) (w2, replicate (length cs) Finished)"
    using terms_can_be_collected [OF inv1, of sys lib] by auto
  with w1 L show "\<exists>w'. rx_run sys lib s fast (w, cs) (w', replicate (length cs) Finished) \<and> refs w' s = 0 \<and>
      live w' = live w0 - owned s st0"
    by (intro exI [of _ w2]) (auto simp: rx_inv_def)
qed

theorem collected_state_frees_everything_witness:
  "\<exists>w'. rx_run no_failures (lib_with_items 1) 0 True (toy_busy_world, [Enter, TryRelease]) (w', [Finished, Finished]) \<and>
     refs w' 0 = 0 \<and> live w' = {}"
proof -
  have "states toy_fast_world 0 = Some toy_fast_state" "live toy_fast_world - owned 0 toy_fast_state = {}"
    by (auto simp: toy_fast_world_def toy_fast_state_def owned_def)
  with collected_state_frees_everything [OF toy_fast_idle this(1) toy_busy] show ?thesis by (simp add: numeral_2_eq_2)
qed

end
