(* ===== verification/Rx_Bulk.thy ===== *)
theory Rx_Bulk
  imports Rx_Nifs
begin

text \<open>
  The two batch functions of \<open>ar_mine_randomx.c\<close>: \<open>bulk_hash_fast_nif\<close> and
  \<open>bulk_hash_fast_long_with_entropy_nif\<close>. A batch hashes a chain of nonces, computes for every hash
  the recall byte of the search space, and sends the results round robin to a list of processes. The
  multi-precision arithmetic comes from GMP, which is the parameter \<open>g\<close>; a division by zero aborts
  (\<^term>\<open>None\<close>). SHA-256 is the parameter \<open>sha256\<close>.
\<close>

definition BIG_NUM_SIZE :: nat where "BIG_NUM_SIZE = 32"
definition ARWEAVE_INPUT_DATA_SIZE :: nat where "ARWEAVE_INPUT_DATA_SIZE = 48"
definition ARWEAVE_HASH_SIZE :: nat where "ARWEAVE_HASH_SIZE = 48"
definition SPORA_SUBSPACES_COUNT :: int where "SPORA_SUBSPACES_COUNT = 1024"
definition SPORA_SEARCH_SPACE_SHARE :: int where "SPORA_SEARCH_SPACE_SHARE = 10"

lemmas bulk_constants = BIG_NUM_SIZE_def ARWEAVE_INPUT_DATA_SIZE_def ARWEAVE_HASH_SIZE_def
  SPORA_SUBSPACES_COUNT_def SPORA_SEARCH_SPACE_SHARE_def

text \<open>
  \<open>mpz_import\<close> and \<open>mpz_export\<close> with the arguments of the code: one byte per word, most significant
  first. \<open>mpz_export\<close> returns the bytes it writes.
\<close>

record gmp =
  mpz_import :: "bytes \<Rightarrow> int"
  mpz_export :: "int \<Rightarrow> bytes"
  mpz_fdiv_q :: "int \<Rightarrow> int \<Rightarrow> int option"
  mpz_fdiv_r :: "int \<Rightarrow> int \<Rightarrow> int option"
  mpz_mul :: "int \<Rightarrow> int \<Rightarrow> int"
  mpz_add :: "int \<Rightarrow> int \<Rightarrow> int"
  mpz_sub :: "int \<Rightarrow> int \<Rightarrow> int"
  mpz_cmp :: "int \<Rightarrow> int \<Rightarrow> int"

section \<open>The recall byte\<close>

text \<open>The sizes derived from the upper bound before the loop.\<close>

record space =
  upperBound :: int
  evenSubspaceSize :: int
  searchSubspaceSize :: int

definition search_space :: "gmp \<Rightarrow> bytes \<Rightarrow> space option" where
  "search_space g searchSpaceUpperBound = do {
     let mpzSearchSpaceUpperBound = mpz_import g searchSpaceUpperBound;
     mpzEvenSubspaceSize \<leftarrow> mpz_fdiv_q g mpzSearchSpaceUpperBound SPORA_SUBSPACES_COUNT;
     mpzSearchSpaceSize \<leftarrow> mpz_fdiv_q g mpzSearchSpaceUpperBound SPORA_SEARCH_SPACE_SHARE;
     mpzSearchSubspaceSize \<leftarrow> mpz_fdiv_q g mpzSearchSpaceSize SPORA_SUBSPACES_COUNT;
     Some \<lparr>upperBound = mpzSearchSpaceUpperBound, evenSubspaceSize = mpzEvenSubspaceSize,
           searchSubspaceSize = mpzSearchSubspaceSize\<rparr> }"

text \<open>
  One iteration's arithmetic, from the import of the hash to the export of the result. The buffers:
  \<open>encodedSubspaceNumber\<close> and \<open>byte\<close> have 32 bytes, \<open>bin\<close> has 80.
\<close>

definition recall_byte :: "gmp \<Rightarrow> hash_fn \<Rightarrow> space \<Rightarrow> bytes \<Rightarrow> bytes \<Rightarrow> bytes option" where
  "recall_byte g sha256 sp prevH hashPtr = do {
     h \<leftarrow> rd hashPtr 0 BIG_NUM_SIZE;
     let mpzH = mpz_import g h;
     mpzSubspaceNumber \<leftarrow> mpz_fdiv_r g mpzH SPORA_SUBSPACES_COUNT;
     let mpzSubspaceStart = mpz_mul g mpzSubspaceNumber (evenSubspaceSize sp);
     let diff = mpz_sub g (upperBound sp) mpzSubspaceStart;
     let mpzSubspaceSize = (if mpz_cmp g diff (evenSubspaceSize sp) \<le> 0 then diff else evenSubspaceSize sp);
     let encodedSubspaceNumber = mpz_export g mpzSubspaceNumber;
     assert_that (length encodedSubspaceNumber \<le> 32);
     bin \<leftarrow> wr (replicate 80 0) 0 prevH;
     bin \<leftarrow> (if length encodedSubspaceNumber = 0 then wr bin (int ARWEAVE_HASH_SIZE) [0]
             else wr bin (int ARWEAVE_HASH_SIZE) encodedSubspaceNumber);
     let encodedSubspaceNumberLen = (if length encodedSubspaceNumber = 0 then 1 else length encodedSubspaceNumber);
     seedInput \<leftarrow> rd bin 0 (ARWEAVE_HASH_SIZE + encodedSubspaceNumberLen);
     let mpzSeed = mpz_import g (digest (sha256 seedInput));
     mpzSearchSubspaceStart \<leftarrow> mpz_fdiv_r g mpzSeed mpzSubspaceSize;
     let mpzSearchSubspaceByteSeed = mpz_import g (digest (sha256 h));
     mpzSearchSubspaceByte \<leftarrow> mpz_fdiv_r g mpzSearchSubspaceByteSeed (searchSubspaceSize sp);
     let sum1 = mpz_add g mpzSearchSubspaceStart mpzSearchSubspaceByte;
     rem \<leftarrow> mpz_fdiv_r g sum1 mpzSubspaceSize;
     let result = mpz_add g mpzSubspaceStart rem;
     let byt = mpz_export g result;
     assert_that (length byt \<le> 32);
     Some byt }"

section \<open>The loop\<close>

text \<open>
  What differs between the two functions: how a hash is computed (with the extra terms that go into the
  message after the hash).
\<close>

record ('m, 't) hasher =
  hash_first :: "'m randomx_vm \<Rightarrow> bytes \<Rightarrow> 'm randomx_vm"
  hash_next :: "'m randomx_vm \<Rightarrow> bytes \<Rightarrow> (digest256 \<times> 't list \<times> 'm randomx_vm) option"
  hash_last :: "'m randomx_vm \<Rightarrow> (digest256 \<times> 't list \<times> 'm randomx_vm) option"

record 't batch =
  secondNonce :: bytes
  inputData :: bytes
  prevHash :: bytes
  pids :: "nat list"
  proxyPIDs :: "nat list"
  reference :: 't
  hashingIterations :: int

record 'm bulk_state =
  vm :: "'m randomx_vm"
  nonce :: bytes
  hashBuf :: bytes
  pidCursor :: nat
  proxyPIDCursor :: nat

definition nth_opt :: "'a list \<Rightarrow> nat \<Rightarrow> 'a option" where
  "nth_opt xs i = (if i < length xs then Some (xs ! i) else None)"

definition next_cursor :: "nat \<Rightarrow> nat \<Rightarrow> nat" where
  "next_cursor cursor n = (if cursor + 1 = n then 0 else cursor + 1)"

text \<open>One iteration: the new state and the message with its receiver.\<close>

definition bulk_iteration ::
  "'t enif \<Rightarrow> gmp \<Rightarrow> hash_fn \<Rightarrow> ('m, 't) hasher \<Rightarrow> space \<Rightarrow> 't batch \<Rightarrow> int \<Rightarrow> 'm bulk_state
   \<Rightarrow> ((nat \<times> 't) \<times> 'm bulk_state) option" where
  "bulk_iteration e g sha256 hs sp b i bs = do {
     let prevNonce = nonce bs;
     let nonc = (if i = 0 then secondNonce b else hashBuf bs);
     (hash, extra, v) \<leftarrow> (if i = hashingIterations b - 1 then hash_last hs (vm bs)
                           else hash_next hs (vm bs) (nonc @ inputData b));
     let hashPtr = digest hash;
     byt \<leftarrow> recall_byte g sha256 sp (prevHash b) hashPtr;
     byteTerm \<leftarrow> make_output_binary e byt (int (length byt));
     hashTerm \<leftarrow> make_output_binary e hashPtr 32;
     nonceTerm \<leftarrow> make_output_binary e prevNonce 32;
     proxy \<leftarrow> nth_opt (proxyPIDs b) (proxyPIDCursor bs);
     let pidTerm = enif_make_pid e proxy;
     let tupleTerm = enif_make_tuple e ([byteTerm, hashTerm] @ extra @ [nonceTerm, pidTerm, reference b]);
     pid \<leftarrow> nth_opt (pids b) (pidCursor bs);
     Some ((pid, tupleTerm),
       \<lparr>vm = v, nonce = nonc, hashBuf = hashPtr, pidCursor = next_cursor (pidCursor bs) (length (pids b)),
        proxyPIDCursor = next_cursor (proxyPIDCursor bs) (length (proxyPIDs b))\<rparr>) }"

fun bulk_loop ::
  "'t enif \<Rightarrow> gmp \<Rightarrow> hash_fn \<Rightarrow> ('m, 't) hasher \<Rightarrow> space \<Rightarrow> 't batch \<Rightarrow> nat \<Rightarrow> 'm bulk_state
   \<Rightarrow> ((nat \<times> 't) list) option" where
  "bulk_loop e g sha256 hs sp b 0 bs = Some []"
| "bulk_loop e g sha256 hs sp b (Suc n) bs = do {
     (msg, bs) \<leftarrow> bulk_iteration e g sha256 hs sp b (hashingIterations b - 1 - int n) bs;
     msgs \<leftarrow> bulk_loop e g sha256 hs sp b n bs;
     Some (msg # msgs) }"

text \<open>From the import of the upper bound to the end of the loop.\<close>

definition bulk_hash ::
  "'t enif \<Rightarrow> gmp \<Rightarrow> hash_fn \<Rightarrow> ('m, 't) hasher \<Rightarrow> bytes \<Rightarrow> bytes \<Rightarrow> 't batch \<Rightarrow> 'm randomx_vm
   \<Rightarrow> ((nat \<times> 't) list) option" where
  "bulk_hash e g sha256 hs searchSpaceUpperBound firstNonce b v = do {
     sp \<leftarrow> search_space g searchSpaceUpperBound;
     let v = hash_first hs v (firstNonce @ inputData b);
     bulk_loop e g sha256 hs sp b (nat (hashingIterations b))
       \<lparr>vm = v, nonce = firstNonce, hashBuf = fresh_bytes e 32, pidCursor = 0, proxyPIDCursor = 0\<rparr> }"

definition fast_hasher :: "'m rx_lib \<Rightarrow> ('m, 't) hasher" where
  "fast_hasher lib = \<lparr>
     hash_first = randomx_calculate_hash_first lib,
     hash_next = (\<lambda>v inp. case randomx_calculate_hash_next lib v inp of (h, v) \<Rightarrow> Some (h, [], v)),
     hash_last = (\<lambda>v. case randomx_calculate_hash_last lib v of (h, v) \<Rightarrow> Some (h, [], v))\<rparr>"

definition entropy_hasher :: "'t enif \<Rightarrow> 'm rx_lib \<Rightarrow> int \<Rightarrow> ('m, 't) hasher" where
  "entropy_hasher e lib randomxRoundCount = \<lparr>
     hash_first = randomx_calculate_hash_long_with_entropy_first (machine lib),
     hash_next = (\<lambda>v inp. do {
       let (h, ent, v) = randomx_calculate_hash_long_with_entropy_next (machine lib) v inp randomxRoundCount;
       entropyPtr \<leftarrow> wr (fresh_bytes e RANDOMX_ENTROPY_SIZE) 0 ent;
       Some (h, [enif_make_binary e entropyPtr], v) }),
     hash_last = (\<lambda>v. do {
       let (h, ent, v) = randomx_calculate_hash_long_with_entropy_last (machine lib) v randomxRoundCount;
       entropyPtr \<leftarrow> wr (fresh_bytes e RANDOMX_ENTROPY_SIZE) 0 ent;
       Some (h, [enif_make_binary e entropyPtr], v) })\<rparr>"

section \<open>The native functions\<close>

text \<open>The loop that reads a list of process identifiers; \<^term>\<open>None\<close> makes the caller return \<open>badarg\<close>.\<close>

fun read_pids :: "'t enif \<Rightarrow> nat \<Rightarrow> 't \<Rightarrow> nat list option" where
  "read_pids e 0 list = Some []"
| "read_pids e (Suc n) list = do {
     (head, list) \<leftarrow> enif_get_list_cell e list;
     pid \<leftarrow> enif_get_local_pid e head;
     rest \<leftarrow> read_pids e n list;
     Some (pid # rest) }"

text \<open>
  The GMP integers that a batch computes with are variables on the stack. \<open>mpz_init\<close> and \<open>mpz_init_set_ui\<close> give a
  variable space of its own, an object \<open>Mpz\<close> of the ledger, without regard to what it held before; \<open>mpz_clear\<close>
  frees the space the variable has. GMP ends the program when it gets no memory. The variables in the order in
  which the code initialises and clears them:
\<close>

definition mpz_inits :: "string list" where
  "mpz_inits = [''mpzSubspaces'', ''mpzEvenSubspaceSize'', ''mpzSearchSpaceUpperBound'', ''mpzH'', ''mpzSubspaceNumber'',
     ''mpzSearchSpaceSize'', ''mpzSearchSpaceShare'', ''mpzSearchSpaceShare'', ''mpzSearchSubspaceSize'', ''mpzSubspaceStart'',
     ''diff'', ''mpzSubspaceSize'', ''mpzSeed'', ''mpzSearchSubspaceStart'', ''mpzSearchSubspaceByteSeed'',
     ''mpzSearchSubspaceByte'', ''sum1'', ''rem'', ''result'']"

definition mpz_clears :: "string list" where
  "mpz_clears = [''mpzH'', ''diff'', ''sum1'', ''rem'', ''mpzSearchSpaceUpperBound'', ''mpzSubspaceNumber'', ''mpzSubspaces'',
     ''mpzEvenSubspaceSize'', ''mpzSearchSpaceSize'', ''mpzSearchSubspaceSize'', ''mpzSearchSpaceShare'', ''mpzSubspaceStart'',
     ''mpzSubspaceSize'', ''mpzSearchSubspaceStart'', ''mpzSeed'', ''mpzSearchSubspaceByteSeed'', ''mpzSearchSubspaceByte'',
     ''result'']"

fun init_mpzs :: "string list \<Rightarrow> (string \<rightharpoonup> nat) \<Rightarrow> 't world \<Rightarrow> (string \<rightharpoonup> nat) \<times> 't world" where
  "init_mpzs [] vars w = (vars, w)"
| "init_mpzs (x # xs) vars w =
     (let n = next_id w in init_mpzs xs (vars(x \<mapsto> n)) (w\<lparr>next_id := Suc n, live := insert (Mpz n) (live w)\<rparr>))"

fun clear_mpzs :: "string list \<Rightarrow> (string \<rightharpoonup> nat) \<Rightarrow> 't world \<Rightarrow> 't world option" where
  "clear_mpzs [] vars w = Some w"
| "clear_mpzs (x # xs) vars w = do { n \<leftarrow> vars x; w \<leftarrow> release (Mpz n) w; clear_mpzs xs vars w }"

text \<open>
  The part the two functions share after the integer arguments: the lock, the machine (\<open>create_vm\<close> is
  written out there), the batch, and the clean-up.
\<close>

definition bulk_run ::
  "'t enif \<Rightarrow> sys \<Rightarrow> gmp \<Rightarrow> hash_fn \<Rightarrow> 'm rx_lib \<Rightarrow> ('m, 't) hasher \<Rightarrow> nat \<Rightarrow> bytes \<Rightarrow> bytes \<Rightarrow> 't batch
   \<Rightarrow> int \<Rightarrow> int \<Rightarrow> int \<Rightarrow> nat \<Rightarrow> nat \<Rightarrow> 't world \<Rightarrow> ('t \<times> 't world) option" where
  "bulk_run e sys g sha256 lib hs s searchSpaceUpperBound firstNonce b jitEnabled largePagesEnabled
     hardwareAESEnabled pidsMem proxyMem w = do {
     (released, vmPtr, w) \<leftarrow> create_vm sys lib s True jitEnabled largePagesEnabled hardwareAESEnabled w;
     case vmPtr of
       None \<Rightarrow> do {
         w \<leftarrow> release (Mem pidsMem) w;
         w \<leftarrow> release (Mem proxyMem) w;
         Some (if released \<noteq> 0 then error_nif e ''state has been released''
               else error_nif e ''randomx_create_vm failed'', w) }
     | Some (v, m) \<Rightarrow> do {
         let (vars, w) = init_mpzs mpz_inits Map.empty w;
         msgs \<leftarrow> bulk_hash e g sha256 hs searchSpaceUpperBound firstNonce b m;
         let w = w\<lparr>outbox := outbox w @ msgs\<rparr>;
         w \<leftarrow> destroy_vm s v w;
         w \<leftarrow> release (Mem pidsMem) w;
         w \<leftarrow> release (Mem proxyMem) w;
         w \<leftarrow> clear_mpzs mpz_clears vars w;
         Some (enif_make_atom e ''ok'', w) } }"

definition free_pids :: "'t enif \<Rightarrow> nat \<Rightarrow> nat \<Rightarrow> 't world \<Rightarrow> ('t \<times> 't world) option" where
  "free_pids e pidsMem proxyMem w = do {
     w \<leftarrow> release (Mem pidsMem) w;
     w \<leftarrow> release (Mem proxyMem) w;
     Some (enif_make_badarg e, w) }"

text \<open>
  The argument checks up to the lists of processes; \<open>k\<close> continues with the state, the binaries, the
  processes and the two allocations.
\<close>

definition bulk_args ::
  "'t enif \<Rightarrow> sys \<Rightarrow> 't list \<Rightarrow> 't world
   \<Rightarrow> (nat \<Rightarrow> bytes \<Rightarrow> bytes \<Rightarrow> bytes \<Rightarrow> bytes \<Rightarrow> bytes \<Rightarrow> nat list \<Rightarrow> nat list \<Rightarrow> nat \<Rightarrow> nat \<Rightarrow> 't world \<Rightarrow> ('t \<times> 't world) option)
   \<Rightarrow> ('t \<times> 't world) option" where
  "bulk_args e sys argv w k =
     (let badarg = Some (enif_make_badarg e, w)
      in need (enif_get_resource e (argv ! 0)) (Some (error_nif e ''failed to read state'', w)) (\<lambda>s.
         need (enif_inspect_binary e (argv ! 1)) badarg (\<lambda>firstNonce.
         if length firstNonce \<noteq> 32 then badarg else
         need (enif_inspect_binary e (argv ! 2)) badarg (\<lambda>second.
         if length second \<noteq> 32 then badarg else
         need (enif_inspect_binary e (argv ! 3)) badarg (\<lambda>input.
         if length input \<noteq> ARWEAVE_INPUT_DATA_SIZE then badarg else
         need (enif_inspect_binary e (argv ! 4)) badarg (\<lambda>prevH.
         if length prevH \<noteq> ARWEAVE_HASH_SIZE then badarg else
         need (enif_inspect_binary e (argv ! 5)) badarg (\<lambda>ub.
         if length ub > BIG_NUM_SIZE then badarg else
         need (enif_get_list_length e (argv ! 6)) badarg (\<lambda>pidCount. do {
           (pidsMem, w) \<leftarrow> acquire_unchecked sys Mem w;
           need (read_pids e pidCount (argv ! 6))
             (do { w \<leftarrow> release (Mem pidsMem) w; Some (enif_make_badarg e, w) }) (\<lambda>ps.
           need (enif_get_list_length e (argv ! 7)) (Some (enif_make_badarg e, w)) (\<lambda>proxyPIDCount. do {
             (proxyMem, w) \<leftarrow> acquire_unchecked sys Mem w;
             need (read_pids e proxyPIDCount (argv ! 7)) (free_pids e pidsMem proxyMem w) (\<lambda>proxies.
             k s firstNonce second input prevH ub ps proxies pidsMem proxyMem w) })) }))))))))"

definition bulk_hash_fast_nif ::
  "'t enif \<Rightarrow> sys \<Rightarrow> gmp \<Rightarrow> hash_fn \<Rightarrow> 'm rx_lib \<Rightarrow> 't list \<Rightarrow> 't world \<Rightarrow> ('t \<times> 't world) option" where
  "bulk_hash_fast_nif e sys g sha256 lib argv w =
     (if length argv \<noteq> 13 then Some (enif_make_badarg e, w)
      else bulk_args e sys argv w (\<lambda>s firstNonce second input prevH ub ps proxies pidsMem proxyMem w.
        let badarg = free_pids e pidsMem proxyMem w
        in need (enif_get_int e (argv ! 9)) badarg (\<lambda>iterations.
           need (enif_get_int e (argv ! 10)) badarg (\<lambda>jitEnabled.
           need (enif_get_int e (argv ! 11)) badarg (\<lambda>largePagesEnabled.
           need (enif_get_int e (argv ! 12)) badarg (\<lambda>hardwareAESEnabled.
           bulk_run e sys g sha256 lib (fast_hasher lib) s ub firstNonce
             \<lparr>secondNonce = second, inputData = input, prevHash = prevH, pids = ps, proxyPIDs = proxies,
              reference = argv ! 8, hashingIterations = iterations\<rparr>
             jitEnabled largePagesEnabled hardwareAESEnabled pidsMem proxyMem w))))))"

definition bulk_hash_fast_long_with_entropy_nif ::
  "'t enif \<Rightarrow> sys \<Rightarrow> gmp \<Rightarrow> hash_fn \<Rightarrow> 'm rx_lib \<Rightarrow> 't list \<Rightarrow> 't world \<Rightarrow> ('t \<times> 't world) option" where
  "bulk_hash_fast_long_with_entropy_nif e sys g sha256 lib argv w =
     (if length argv \<noteq> 14 then Some (enif_make_badarg e, w)
      else bulk_args e sys argv w (\<lambda>s firstNonce second input prevH ub ps proxies pidsMem proxyMem w.
        let badarg = free_pids e pidsMem proxyMem w
        in need (enif_get_int e (argv ! 9)) badarg (\<lambda>iterations.
           need (enif_get_int e (argv ! 10)) badarg (\<lambda>randomxRoundCount.
           need (enif_get_int e (argv ! 11)) badarg (\<lambda>jitEnabled.
           need (enif_get_int e (argv ! 12)) badarg (\<lambda>largePagesEnabled.
           need (enif_get_int e (argv ! 13)) badarg (\<lambda>hardwareAESEnabled.
           bulk_run e sys g sha256 lib (entropy_hasher e lib randomxRoundCount) s ub firstNonce
             \<lparr>secondNonce = second, inputData = input, prevHash = prevH, pids = ps, proxyPIDs = proxies,
              reference = argv ! 8, hashingIterations = iterations\<rparr>
             jitEnabled largePagesEnabled hardwareAESEnabled pidsMem proxyMem w)))))))"


section \<open>What GMP documents\<close>

definition gmp_documented :: "gmp \<Rightarrow> bool" where
  "gmp_documented g \<longleftrightarrow>
     (\<forall>b. mpz_import g b = int (be_val b)) \<and>
     (\<forall>n. be_val (mpz_export g (int n)) = n \<and> (mpz_export g (int n) = [] \<or> hd (mpz_export g (int n)) \<noteq> 0)) \<and>
     (\<forall>a b. mpz_fdiv_q g a b = (if b = 0 then None else Some (a div b))) \<and>
     (\<forall>a b. mpz_fdiv_r g a b = (if b = 0 then None else Some (a mod b))) \<and>
     (\<forall>a b. mpz_mul g a b = a * b) \<and> (\<forall>a b. mpz_add g a b = a + b) \<and> (\<forall>a b. mpz_sub g a b = a - b) \<and>
     (\<forall>a b. mpz_cmp g a b \<le> 0 \<longleftrightarrow> a \<le> b)"

text \<open>The shortest big-endian form fits in as many bytes as the number needs.\<close>

lemma export_length:
  assumes "gmp_documented g" "n < 256 ^ k"
  shows "length (mpz_export g (int n)) \<le> k"
proof (cases "mpz_export g (int n)")
  case (Cons b bs)
  then have b: "b \<noteq> 0" "be_val (b # bs) = n" using assms(1) by (auto simp: gmp_documented_def dest: spec [of _ n])
  then have "unat b > 0" by (simp add: unat_gt_0)
  then have "1 * 256 ^ length bs \<le> unat b * 256 ^ length bs" by (intro mult_le_mono1) simp
  then have "256 ^ length bs \<le> be_val (b # bs)" unfolding be_val_Cons by linarith
  then have "(256::nat) ^ length bs < 256 ^ k" using b(2) assms(2) by linarith
  then have "length bs < k" by (rule power_less_imp_less_exp [rotated]) simp
  then show ?thesis using Cons by simp
qed simp

text \<open>The recall byte as a formula: in subspace \<open>k\<close>, at an offset chosen by the two seeds.\<close>

definition recall_offset :: "hash_fn \<Rightarrow> nat \<Rightarrow> bytes \<Rightarrow> bytes \<Rightarrow> bytes \<Rightarrow> nat" where
  "recall_offset sha256 ub prevH enc hash =
     (let even = ub div 1024; search = ub div 10 div 1024
      in be_val hash mod 1024 * even +
         (be_val (digest (sha256 (prevH @ enc))) mod even + be_val (digest (sha256 hash)) mod search) mod even)"

definition subspace_code :: "gmp \<Rightarrow> bytes \<Rightarrow> bytes" where
  "subspace_code g hash =
     (let enc = mpz_export g (int (be_val hash mod 1024)) in if enc = [] then [0] else enc)"

lemma search_space_documented:
  assumes "gmp_documented g"
  shows "search_space g ubb =
     Some \<lparr>upperBound = int (be_val ubb), evenSubspaceSize = int (be_val ubb div 1024),
           searchSubspaceSize = int (be_val ubb div 10 div 1024)\<rparr>"
  using assms by (simp add: gmp_documented_def search_space_def bulk_constants zdiv_int Let_def)

lemma recall_byte_documented:
  fixes ub :: nat
  assumes g: "gmp_documented g" and l: "length prevH = 48" "length hash = 32"
    and sp: "sp = \<lparr>upperBound = int ub, evenSubspaceSize = int (ub div 1024), searchSubspaceSize = int (ub div 10 div 1024)\<rparr>"
    and ub: "ub < 256 ^ 32"
  shows "recall_byte g sha256 sp prevH hash =
     (if ub < 10240 then None else Some (mpz_export g (int (recall_offset sha256 ub prevH (subspace_code g hash) hash))))"
proof -
  let ?even = "ub div 1024" and ?search = "ub div 10 div 1024" and ?k = "be_val hash mod 1024"
  let ?enc = "mpz_export g (int ?k)"
  have gs: "mpz_import g b = int (be_val b)" "mpz_fdiv_r g x y = (if y = 0 then None else Some (x mod y))"
    "mpz_mul g x y = x * y" "mpz_add g x y = x + y" "mpz_sub g x y = x - y" "mpz_cmp g x y \<le> 0 \<longleftrightarrow> x \<le> y" for b x y
    using g by (simp_all add: gmp_documented_def)
  have k: "?k < 1024" by simp
  have el: "length ?enc \<le> 2" by (rule export_length [OF g]) (use k in simp)
  have "?k * ?even \<le> 1023 * ?even" using k by (intro mult_le_mono1) simp
  moreover have "1024 * ?even \<le> ub" by (rule times_div_less_eq_dividend)
  ultimately have diff: "?k * ?even + ?even \<le> ub" by linarith
  then have size: "(if int ub - int ?k * int ?even \<le> int ?even then int ub - int ?k * int ?even else int ?even) = int ?even"
    by (simp add: algebra_simps flip: of_nat_mult of_nat_add)
  have kk: "int (be_val hash) mod 1024 = int ?k" by (simp add: zmod_int)
  have rd: "rd hash 0 32 = Some hash" using l(2) rd_nat [of 0 32 hash] by (simp add: bulk_constants)
  have wr1: "wr (replicate 80 0) 0 prevH = Some (prevH @ replicate 32 0)"
    using l(1) wr_nat [of 0 prevH "replicate 80 0"] by (simp add: drop_replicate)
  have wr2: "wr (prevH @ replicate 32 0) 48 c = Some (prevH @ c @ replicate (32 - length c) 0)"
    if "length c \<le> 32" for c
    using l(1) that wr_nat [of 48 c "prevH @ replicate 32 0"] by (simp add: bulk_constants)
  have rd2: "rd (prevH @ c @ r) 0 (48 + length c) = Some (prevH @ c)" for c r
    using l(1) rd_nat [of 0 "48 + length c" "prevH @ c @ r"] by (simp add: bulk_constants)
  have code: "(if ?enc = [] then wr (prevH @ replicate 32 0) 48 [0] else wr (prevH @ replicate 32 0) 48 ?enc) =
      Some (prevH @ subspace_code g hash @ replicate (32 - length (subspace_code g hash)) 0)"
    using el wr2 [of ?enc] wr2 [of "[0]"] by (auto simp: subspace_code_def Let_def)
  have clen: "(if ?enc = [] then Suc 0 else length ?enc) = length (subspace_code g hash)"
    by (simp add: subspace_code_def Let_def)
  have enc: "length ?enc \<le> 32" using el by simp
  let ?s1 = "be_val (digest (sha256 (prevH @ subspace_code g hash)))" and ?s2 = "be_val (digest (sha256 hash))"
  have run: "recall_byte g sha256 sp prevH hash = do {
      a \<leftarrow> mpz_fdiv_r g (int ?s1) (int ?even);
      b \<leftarrow> mpz_fdiv_r g (int ?s2) (int ?search);
      r \<leftarrow> mpz_fdiv_r g (a + b) (int ?even);
      assert_that (length (mpz_export g (int ?k * int ?even + r)) \<le> 32);
      Some (mpz_export g (int ?k * int ?even + r)) }"
    unfolding recall_byte_def bulk_constants sp Let_def space.select_convs
    by (simp add: gs rd wr1 kk code clen rd2 size enc assert_that_def del: of_nat_div of_nat_mod cong: if_cong split del: if_split)
  show ?thesis
  proof (cases "ub < 10240")
    case True
    then have "?search = 0" by simp
    then have "mpz_fdiv_r g (int ?s2) (int ?search) = None" by (simp add: gs(2))
    then show ?thesis using True run by (simp split: Option.bind_split)
  next
    case False
    then have "?even \<noteq> 0" "?search \<noteq> 0" by (simp_all add: div_eq_0_iff)
    then have d: "mpz_fdiv_r g (int x) (int ?even) = Some (int (x mod ?even))"
      "mpz_fdiv_r g (int x) (int ?search) = Some (int (x mod ?search))" for x
      using gs(2) [of "int x" "int ?even"] gs(2) [of "int x" "int ?search"] by (simp_all only: zmod_int of_nat_eq_0_iff if_False)
    let ?r = "recall_offset sha256 ub prevH (subspace_code g hash) hash"
    have r: "?r = ?k * ?even + (?s1 mod ?even + ?s2 mod ?search) mod ?even"
      by (simp only: recall_offset_def Let_def)
    have "?r < ?k * ?even + ?even" unfolding r using \<open>?even \<noteq> 0\<close> by simp
    then have "?r < ub" using diff by linarith
    then have "length (mpz_export g (int ?r)) \<le> 32" using ub by (intro export_length [OF g]) simp
    then show ?thesis
      using False unfolding run d r by (simp only: bind.bind_lunit d flip: of_nat_add of_nat_mult) simp
  qed
qed


section \<open>A batch of hashes\<close>

text \<open>The chain of nonces of a batch, and the message of every link.\<close>

fun batch_nonce :: "(bytes \<Rightarrow> digest256) \<Rightarrow> bytes \<Rightarrow> bytes \<Rightarrow> bytes \<Rightarrow> nat \<Rightarrow> bytes" where
  "batch_nonce H first second input 0 = first"
| "batch_nonce H first second input (Suc 0) = second"
| "batch_nonce H first second input (Suc (Suc j)) = digest (H (batch_nonce H first second input j @ input))"

lemma length_batch_nonce: "length first = 32 \<Longrightarrow> length second = 32 \<Longrightarrow> length (batch_nonce H first second input j) = 32"
  by (induction H first second input j rule: batch_nonce.induct) simp_all

definition batch_message ::
  "'t enif \<Rightarrow> gmp \<Rightarrow> hash_fn \<Rightarrow> (bytes \<Rightarrow> digest256) \<Rightarrow> (bytes \<Rightarrow> 't list) \<Rightarrow> nat \<Rightarrow> bytes \<Rightarrow> 't batch \<Rightarrow> nat \<Rightarrow> nat \<times> 't" where
  "batch_message e g sha256 H X ub first b j =
     (let n = batch_nonce H first (secondNonce b) (inputData b) j;
          h = digest (H (n @ inputData b));
          r = mpz_export g (int (recall_offset sha256 ub (prevHash b) (subspace_code g h) h))
      in (pids b ! (j mod length (pids b)),
          enif_make_tuple e ([enif_make_binary e r, enif_make_binary e h] @ X (n @ inputData b) @
            [enif_make_binary e n, enif_make_pid e (proxyPIDs b ! (j mod length (proxyPIDs b))), reference b])))"

lemma next_cursor_mod: "0 < n \<Longrightarrow> next_cursor (i mod n) n = Suc i mod n"
  by (simp add: next_cursor_def mod_Suc)

text \<open>
  What a batch needs of its hasher: after being primed with an input, the next call returns that
  input's hash and primes the machine with the following input, and the last call returns the hash.
\<close>

locale pipelined_hasher =
  fixes hs :: "('m, 't) hasher" and H :: "bytes \<Rightarrow> digest256" and X :: "bytes \<Rightarrow> 't list"
    and primed :: "'m randomx_vm \<Rightarrow> bytes \<Rightarrow> bool" and fresh :: "'m randomx_vm \<Rightarrow> bool" and doc :: bool
  assumes first_primes: "doc \<Longrightarrow> fresh v \<Longrightarrow> primed (hash_first hs v x) x"
    and next_hashes: "doc \<Longrightarrow> primed v x \<Longrightarrow> \<exists>v'. hash_next hs v y = Some (H x, X x, v') \<and> primed v' y"
    and last_hashes: "doc \<Longrightarrow> primed v x \<Longrightarrow> \<exists>v'. hash_last hs v = Some (H x, X x, v')"
begin

lemma iteration:
  fixes b :: "'t batch" and first :: bytes
  defines "N \<equiv> batch_nonce H first (secondNonce b) (inputData b)"
  assumes doc "gmp_documented g" "fresh_lengths e" "10240 \<le> ub" "ub < 256 ^ 32"
    and "length first = 32" "length (secondNonce b) = 32" "length (prevHash b) = 48" "pids b \<noteq> []" "proxyPIDs b \<noteq> []"
    and sp: "sp = \<lparr>upperBound = int ub, evenSubspaceSize = int (ub div 1024), searchSubspaceSize = int (ub div 10 div 1024)\<rparr>"
    and bs: "primed (vm bs) (N i @ inputData b)" "nonce bs = N i" "pidCursor bs = i mod length (pids b)"
      "proxyPIDCursor bs = i mod length (proxyPIDs b)" "0 < i \<Longrightarrow> hashBuf bs = digest (H (N (i - 1) @ inputData b))"
    and i: "Suc i \<le> nat (hashingIterations b)"
  shows "\<exists>bs'. bulk_iteration e g sha256 hs sp b (int i) bs = Some (batch_message e g sha256 H X ub first b i, bs') \<and>
    (Suc i < nat (hashingIterations b) \<longrightarrow> primed (vm bs') (N (Suc i) @ inputData b)) \<and> nonce bs' = N (Suc i) \<and>
    pidCursor bs' = Suc i mod length (pids b) \<and> proxyPIDCursor bs' = Suc i mod length (proxyPIDs b) \<and>
    hashBuf bs' = digest (H (N i @ inputData b))"
proof -
  let ?h = "digest (H (N i @ inputData b))"
  let ?r = "mpz_export g (int (recall_offset sha256 ub (prevHash b) (subspace_code g ?h) ?h))"
  have nonc: "(if int i = 0 then secondNonce b else hashBuf bs) = N (Suc i)"
    using bs(5) by (cases i) (simp_all add: N_def)
  have byt: "recall_byte g sha256 sp (prevHash b) ?h = Some ?r"
    using recall_byte_documented [OF assms(3,9) _ sp assms(6), of ?h sha256] assms(5) by simp
  have out: "make_output_binary e ?r (int (length ?r)) = Some (enif_make_binary e ?r)"
      "make_output_binary e ?h 32 = Some (enif_make_binary e ?h)"
      "make_output_binary e (N i) 32 = Some (enif_make_binary e (N i))"
    using make_output_binary_nat [OF assms(4), of "length ?r" ?r] make_output_binary_nat [OF assms(4), of 32 ?h]
      make_output_binary_nat [OF assms(4), of 32 "N i"] length_batch_nonce [OF assms(7,8)] by (simp_all add: N_def)
  obtain v' where v': "(if int i = hashingIterations b - 1 then hash_last hs (vm bs)
        else hash_next hs (vm bs) (N (Suc i) @ inputData b)) = Some (H (N i @ inputData b), X (N i @ inputData b), v')"
      "Suc i < nat (hashingIterations b) \<longrightarrow> primed v' (N (Suc i) @ inputData b)"
  proof (cases "int i = hashingIterations b - 1")
    case True
    then have "\<not> Suc i < nat (hashingIterations b)" by simp
    then show ?thesis using that True last_hashes [OF assms(2) bs(1)] by auto
  next
    case False
    then show ?thesis using that next_hashes [OF assms(2) bs(1), of "N (Suc i) @ inputData b"] by auto
  qed
  have cur: "nth_opt (pids b) (i mod length (pids b)) = Some (pids b ! (i mod length (pids b)))"
      "nth_opt (proxyPIDs b) (i mod length (proxyPIDs b)) = Some (proxyPIDs b ! (i mod length (proxyPIDs b)))"
    using assms(10,11) by (simp_all add: nth_opt_def)
  show ?thesis
    using v' assms(10,11)
    by (simp add: bulk_iteration_def nonc [simplified] byt out cur bs(2-4) batch_message_def next_cursor_mod Let_def
        flip: N_def del: of_nat_add)
qed

lemma batch_loop:
  fixes b :: "'t batch" and first :: bytes
  defines "N \<equiv> batch_nonce H first (secondNonce b) (inputData b)"
  assumes doc "gmp_documented g" "fresh_lengths e" "10240 \<le> ub" "ub < 256 ^ 32"
    and "length first = 32" "length (secondNonce b) = 32" "length (prevHash b) = 48" "pids b \<noteq> []" "proxyPIDs b \<noteq> []"
    and sp: "sp = \<lparr>upperBound = int ub, evenSubspaceSize = int (ub div 1024), searchSubspaceSize = int (ub div 10 div 1024)\<rparr>"
    and "i + n = nat (hashingIterations b)"
    and "0 < n \<Longrightarrow> primed (vm bs) (N i @ inputData b)" "nonce bs = N i" "pidCursor bs = i mod length (pids b)"
      "proxyPIDCursor bs = i mod length (proxyPIDs b)" "0 < i \<Longrightarrow> hashBuf bs = digest (H (N (i - 1) @ inputData b))"
  shows "bulk_loop e g sha256 hs sp b n bs = Some (map (batch_message e g sha256 H X ub first b) [i..<i + n])"
  using assms(13-)
proof (induction n arbitrary: i bs)
  case (Suc n)
  have i: "hashingIterations b - 1 - int n = int i" "Suc i \<le> nat (hashingIterations b)" using Suc.prems(1) by simp_all
  have it: "\<exists>bs'. bulk_iteration e g sha256 hs sp b (int i) bs = Some (batch_message e g sha256 H X ub first b i, bs') \<and>
    (Suc i < nat (hashingIterations b) \<longrightarrow> primed (vm bs') (N (Suc i) @ inputData b)) \<and> nonce bs' = N (Suc i) \<and>
    pidCursor bs' = Suc i mod length (pids b) \<and> proxyPIDCursor bs' = Suc i mod length (proxyPIDs b) \<and>
    hashBuf bs' = digest (H (N i @ inputData b))"
    unfolding N_def by (rule iteration) (use assms(2-12) Suc.prems i(2) in \<open>simp_all add: N_def\<close>)
  then obtain bs' where bs': "bulk_iteration e g sha256 hs sp b (int i) bs = Some (batch_message e g sha256 H X ub first b i, bs')"
    "Suc i < nat (hashingIterations b) \<longrightarrow> primed (vm bs') (N (Suc i) @ inputData b)" "nonce bs' = N (Suc i)"
    "pidCursor bs' = Suc i mod length (pids b)" "proxyPIDCursor bs' = Suc i mod length (proxyPIDs b)"
    "hashBuf bs' = digest (H (N i @ inputData b))" by blast
  have "bulk_loop e g sha256 hs sp b n bs' = Some (map (batch_message e g sha256 H X ub first b) [Suc i..<Suc i + n])"
    by (rule Suc.IH) (use bs' Suc.prems(1) in simp_all)
  then show ?case using bs'(1) i(1) by (simp add: upt_conv_Cons del: upt_Suc)
qed simp

text \<open>The whole batch: one message per iteration, each process in turn.\<close>

lemma batch:
  assumes doc "fresh v" "gmp_documented g" "fresh_lengths e" "10240 \<le> be_val ubb" "length ubb \<le> 32"
    and "length first = 32" "length (secondNonce b) = 32" "length (prevHash b) = 48" "pids b \<noteq> []" "proxyPIDs b \<noteq> []"
  shows "bulk_hash e g sha256 hs ubb first b v =
    Some (map (batch_message e g sha256 H X (be_val ubb) first b) [0..<nat (hashingIterations b)])"
proof -
  have "(256::nat) ^ length ubb \<le> 256 ^ 32" using assms(6) by (intro power_increasing) simp_all
  then have ub: "be_val ubb < 256 ^ 32" using be_val_bound [of ubb] by linarith
  let ?bs = "\<lparr>vm = hash_first hs v (first @ inputData b), nonce = first, hashBuf = fresh_bytes e 32,
      pidCursor = 0, proxyPIDCursor = 0\<rparr>"
  have "bulk_loop e g sha256 hs (the (search_space g ubb)) b (nat (hashingIterations b)) ?bs =
      Some (map (batch_message e g sha256 H X (be_val ubb) first b) [0..<0 + nat (hashingIterations b)])"
    by (rule batch_loop)
       (use assms ub first_primes [OF assms(1,2)] search_space_documented [OF assms(3)] in simp_all)
  then show ?thesis using search_space_documented [OF assms(3), of ubb] by (simp add: bulk_hash_def)
qed

end

text \<open>The hash with entropy of the machines over one dataset, and the documented API of RandomX.\<close>

definition entropy_documented ::
  "'t enif \<Rightarrow> 'm rx_lib \<Rightarrow> ('m \<Rightarrow> bool) \<Rightarrow> ('m \<Rightarrow> 'm \<Rightarrow> bool) \<Rightarrow> ('m \<Rightarrow> 'm \<Rightarrow> bool) \<Rightarrow> 'm randomx_vm \<Rightarrow> bool" where
  "entropy_documented e lib D pad same v0 \<longleftrightarrow>
     fresh_lengths e \<and> final_result_keeps_scratchpad (machine lib) \<and> hashAndFill_fused (machine lib) \<and>
     randomx_documented (machine lib) D pad same \<and> D (core v0)"

definition ref_hash :: "'m rx_lib \<Rightarrow> int \<Rightarrow> 'm randomx_vm \<Rightarrow> bytes \<Rightarrow> digest256" where
  "ref_hash lib pc v0 x = fst (the (randomx_calculate_hash_long_with_entropy (machine lib) v0 x pc))"

definition ref_entropy :: "'m rx_lib \<Rightarrow> int \<Rightarrow> 'm randomx_vm \<Rightarrow> bytes \<Rightarrow> bytes" where
  "ref_entropy lib pc v0 x = fst (snd (the (randomx_calculate_hash_long_with_entropy (machine lib) v0 x pc)))"

definition fast_documented :: "'m rx_lib \<Rightarrow> (bytes \<Rightarrow> digest256) \<Rightarrow> ('m randomx_vm \<Rightarrow> bytes \<Rightarrow> bool) \<Rightarrow> ('m randomx_vm \<Rightarrow> bool) \<Rightarrow> bool" where
  "fast_documented lib H primed K \<longleftrightarrow>
     (\<forall>v x. K v \<longrightarrow> primed (randomx_calculate_hash_first lib v x) x) \<and>
     (\<forall>v x y. primed v x \<longrightarrow> (\<exists>v'. randomx_calculate_hash_next lib v y = (H x, v') \<and> primed v' y)) \<and>
     (\<forall>v x. primed v x \<longrightarrow> (\<exists>v'. randomx_calculate_hash_last lib v = (H x, v')))"

interpretation fast: pipelined_hasher "fast_hasher lib" H "\<lambda>_. []" primed K "fast_documented lib H primed K"
  for lib H primed K
proof unfold_locales
  fix v x y assume "fast_documented lib H primed K" "primed v x"
  then obtain v1 v2 where "randomx_calculate_hash_next lib v y = (H x, v1)" "primed v1 y"
      "randomx_calculate_hash_last lib v = (H x, v2)" unfolding fast_documented_def by meson
  then show "\<exists>v'. hash_next (fast_hasher lib) v y = Some (H x, [], v') \<and> primed v' y"
    and "\<exists>v'. hash_last (fast_hasher lib) v = Some (H x, [], v')" by (simp_all add: fast_hasher_def)
qed (simp add: fast_hasher_def fast_documented_def)

lemma entropy_of_run:
  assumes "entropy_documented e lib D pad same v0" "D (core u)"
  obtains u' where "randomx_calculate_hash_long_with_entropy (machine lib) u x pc = Some (ref_hash lib pc v0 x, ref_entropy lib pc v0 x, u')"
    "D (core u')" "length (ref_entropy lib pc v0 x) = RANDOMX_ENTROPY_SIZE"
proof -
  have d: "blake2b_succeeds (machine lib)" "scratchpad_holds_entropy (machine lib)" "programs_deterministic (machine lib) D pad same"
      "methods_keep_dataset (machine lib) D" "D (core v0)"
    using assms(1) by (simp_all add: entropy_documented_def randomx_documented_def)
  obtain h ent v where h: "randomx_calculate_hash_long_with_entropy (machine lib) v0 x pc = Some (h, ent, v)"
      "length ent = RANDOMX_ENTROPY_SIZE"
  proof -
    let ?m = "snd (primed_run (machine lib) (randomx_calculate_hash_long_with_entropy_first (machine lib) v0 x) pc)"
    show ?thesis
      using that d(2) by (cases "getFinalResult (machine lib) ?m")
        (simp add: with_entropy_primed [OF d(1)] Let_def scratchpad_holds_entropy_def min_absorb2)
  qed
  obtain u' where u': "randomx_calculate_hash_long_with_entropy (machine lib) u x pc = Some (h, ent, u')"
    using with_entropy_deterministic [OF d(3-5) assms(2) h(1)] by blast
  have "D (core u')" using with_entropy_deterministic [OF d(3,4) assms(2,2) u'] by blast
  then show ?thesis using that u' h by (simp add: ref_hash_def ref_entropy_def)
qed

interpretation entropy: pipelined_hasher "entropy_hasher e lib pc" "ref_hash lib pc v0"
  "\<lambda>x. [enif_make_binary e (ref_entropy lib pc v0 x)]"
  "\<lambda>v x. \<exists>u. D (core u) \<and> v = randomx_calculate_hash_long_with_entropy_first (machine lib) u x" "\<lambda>v. D (core v)"
  "entropy_documented e lib D pad same v0" for e lib pc v0 D pad same
proof unfold_locales
  fix v x y assume doc: "entropy_documented e lib D pad same v0"
    and "\<exists>u. D (core u) \<and> v = randomx_calculate_hash_long_with_entropy_first (machine lib) u x"
  then obtain u where u: "D (core u)" "v = randomx_calculate_hash_long_with_entropy_first (machine lib) u x" by blast
  obtain u' where u': "randomx_calculate_hash_long_with_entropy (machine lib) u x pc =
      Some (ref_hash lib pc v0 x, ref_entropy lib pc v0 x, u')" "D (core u')" "length (ref_entropy lib pc v0 x) = RANDOMX_ENTROPY_SIZE"
    using entropy_of_run [OF doc u(1)] by blast
  have d: "blake2b_succeeds (machine lib)" "final_result_keeps_scratchpad (machine lib)" "hashAndFill_fused (machine lib)"
      "fresh_lengths e" using doc by (simp_all add: entropy_documented_def randomx_documented_def)
  have w: "wr (fresh_bytes e RANDOMX_ENTROPY_SIZE) 0 (ref_entropy lib pc v0 x) = Some (ref_entropy lib pc v0 x)"
    using u'(3) d(4) wr_nat [of 0 "ref_entropy lib pc v0 x" "fresh_bytes e RANDOMX_ENTROPY_SIZE"]
    by (simp add: fresh_lengths_def)
  show "\<exists>v'. hash_next (entropy_hasher e lib pc) v y =
      Some (ref_hash lib pc v0 x, [enif_make_binary e (ref_entropy lib pc v0 x)], v') \<and>
      (\<exists>u. D (core u) \<and> v' = randomx_calculate_hash_long_with_entropy_first (machine lib) u y)"
    using u'(1,2) w
    unfolding u(2) next_primed [OF d(2,3), where v = u] entropy_hasher_def with_entropy_primed [OF d(1)] Let_def
    by (auto simp: next_primed [OF d(2,3), where v = u] Let_def split: prod.splits)
  show "\<exists>v'. hash_last (entropy_hasher e lib pc) v =
      Some (ref_hash lib pc v0 x, [enif_make_binary e (ref_entropy lib pc v0 x)], v')"
    using u'(1) w u(2)
    by (auto simp: entropy_hasher_def last_primed with_entropy_primed [OF d(1)] Let_def split: prod.splits)
qed (auto simp: entropy_hasher_def)


section \<open>A batch call\<close>

lemma init_mpzs_world:
  "snd (init_mpzs xs vars w) =
     w\<lparr>next_id := next_id w + length xs, live := live w \<union> Mpz ` {next_id w..<next_id w + length xs}\<rparr>"
proof (induction xs arbitrary: vars w)
  case (Cons x xs)
  have "{next_id w..<next_id w + length (x # xs)} = insert (next_id w) {Suc (next_id w)..<Suc (next_id w) + length xs}" by auto
  then show ?case by (simp add: Let_def Cons.IH)
qed simp

lemma clear_mpzs_runs:
  "map vars xs = map Some ns \<Longrightarrow> distinct ns \<Longrightarrow> Mpz ` set ns \<subseteq> live w \<Longrightarrow>
   clear_mpzs xs vars w = Some (w\<lparr>live := live w - Mpz ` set ns\<rparr>)"
proof (induction xs arbitrary: ns w)
  case (Cons x xs)
  then obtain n ms where ns: "ns = n # ms" by (cases ns) auto
  have "clear_mpzs xs vars (w\<lparr>live := live w - {Mpz n}\<rparr>) = Some (w\<lparr>live := live w - {Mpz n} - Mpz ` set ms\<rparr>)"
    using Cons.IH [of ms "w\<lparr>live := live w - {Mpz n}\<rparr>"] Cons.prems ns by auto
  moreover have "live w - {Mpz n} - Mpz ` set ms = live w - Mpz ` set ns" using ns by auto
  ultimately show ?case using Cons.prems ns by (simp add: release_def)
qed simp

text \<open>
  Of the nineteen initialisations of a batch eighteen are cleared: \<open>mpzSearchSpaceShare\<close> is initialised twice and
  its first space, the seventh, stays.
\<close>

definition mpz_cleared :: "nat list" where
  "mpz_cleared = [3, 10, 16, 17, 2, 4, 0, 1, 5, 8, 7, 9, 11, 13, 12, 14, 15, 18]"

lemma length_mpz_inits: "length mpz_inits = 19"
  by (simp add: mpz_inits_def)

lemma mpz_variables:
  "map (fst (init_mpzs mpz_inits Map.empty w)) mpz_clears = map Some (map (\<lambda>i. next_id w + i) mpz_cleared)"
  by (simp add: mpz_inits_def mpz_clears_def mpz_cleared_def Let_def)

lemma mpz_once_lost:
  assumes "next_id w = n"
  shows "(\<lambda>i. n + i) ` set mpz_cleared = {n..<n + length mpz_inits} - {n + 6}"
proof -
  have "set mpz_cleared = {0..<19} - {6}" by code_simp
  moreover have "(\<lambda>i. n + i) ` ({0..<19} - {6}) = {n..<n + 19} - {n + 6}"
    using image_add_atLeastLessThan [of n 0 19] by (auto simp: image_set_diff)
  ultimately show ?thesis by (simp only: length_mpz_inits)
qed

lemma mpzs_cleared:
  assumes "init_mpzs mpz_inits Map.empty w = (vars, w1)" "live w2 = L \<union> Mpz ` {next_id w..<next_id w + 19}"
    and "\<And>n. next_id w \<le> n \<Longrightarrow> Mpz n \<notin> L"
  shows "clear_mpzs mpz_clears vars w2 = Some (w2\<lparr>live := insert (Mpz (next_id w + 6)) L\<rparr>)"
proof -
  let ?ns = "map (\<lambda>i. next_id w + i) mpz_cleared"
  have ns: "set ?ns = {next_id w..<next_id w + 19} - {next_id w + 6}"
    using mpz_once_lost [OF refl, of w] by (simp only: length_mpz_inits list.set_map)
  have "clear_mpzs mpz_clears vars w2 = Some (w2\<lparr>live := live w2 - Mpz ` set ?ns\<rparr>)"
  proof (rule clear_mpzs_runs)
    show "map vars mpz_clears = map Some ?ns" using mpz_variables [of w] assms(1) by simp
    show "distinct ?ns" by (simp add: distinct_map mpz_cleared_def)
    show "Mpz ` set ?ns \<subseteq> live w2" unfolding ns assms(2) by auto
  qed
  moreover have "live w2 - Mpz ` set ?ns = insert (Mpz (next_id w + 6)) L"
    unfolding ns assms(2) using assms(3) by auto
  ultimately show ?thesis by simp
qed

lemma bulk_run_ok:
  assumes "vm_ready e sys stateT s st w" "Mem p \<in> live w" "Mem q \<in> live w" "p \<noteq> q"
    and "bulk_hash e g sha256 hs ubb first b (vm_for lib st True jit large aes) = Some msgs"
  shows "bulk_run e sys g sha256 lib hs s ubb first b jit large aes p q w =
    Some (enif_make_atom e ''ok'',
      w\<lparr>next_id := next_id w + 20, live := insert (Mpz (next_id w + 7)) (live w - {Mem p} - {Mem q}), outbox := outbox w @ msgs\<rparr>)"
proof -
  obtain l where l: "states w s = Some st" "lockPtr st = Some l" "Lock l \<in> live w" "\<not> writer w l" "isRandomxReleased st = 0"
      "ledger_ok w" "\<not> fails sys (next_id w)" "state_usable s st True w"
    using assms(1) by (auto simp: vm_ready_def state_usable_def)
  let ?n = "next_id w"
  let ?v = "holding st w" and ?mpz = "Mpz ` {Suc ?n..<Suc ?n + 19}"
  have c: "create_vm sys lib s True jit large aes w = Some (0, Some (?n, vm_for lib st True jit large aes), ?v)"
    using l unfolding create_vm_def holding_def
    by (auto simp: enif_rwlock_rlock_def randomx_create_vm_def acquire_def Let_def state_usable_def vm_for_def vm_flags_def)
  obtain vars where vars: "init_mpzs mpz_inits Map.empty ?v = (vars, ?v\<lparr>next_id := Suc ?n + 19, live := live ?v \<union> ?mpz\<rparr>)"
    using init_mpzs_world [of mpz_inits Map.empty ?v] by (metis holding_simps(1) length_mpz_inits prod.collapse)
  have f: "Vm ?n \<notin> live w" using l(6) not_live_fresh [of w "Vm ?n"] by simp
  let ?L = "live w - {Mem p} - {Mem q}"
  let ?w1 = "?v\<lparr>next_id := Suc ?n + 19, live := live ?v \<union> ?mpz\<rparr>"
  let ?w2 = "w\<lparr>next_id := Suc ?n + 19, live := ?L \<union> ?mpz, outbox := outbox w @ msgs\<rparr>"
  have "insert (Vm ?n) (live w) \<union> ?mpz - {Vm ?n} = live w \<union> ?mpz" "live w \<union> ?mpz - {Mem p} - {Mem q} = ?L \<union> ?mpz" using f by auto
  then have d: "do { w1 \<leftarrow> destroy_vm s ?n (?w1\<lparr>outbox := outbox ?w1 @ msgs\<rparr>); w1 \<leftarrow> release (Mem p) w1; release (Mem q) w1 } = Some ?w2"
    using l assms(2-4) by (simp add: holding_def Let_def destroy_vm_def release_def enif_rwlock_runlock_def)
  have lost: "clear_mpzs mpz_clears vars ?w2 = Some (?w2\<lparr>live := insert (Mpz (next_id ?v + 6)) ?L\<rparr>)"
  proof (rule mpzs_cleared [OF vars])
    show "Mpz n \<notin> ?L" if "next_id ?v \<le> n" for n using not_live_fresh [OF l(6), of "Mpz n"] that by simp
  qed (use l(6) in simp_all)
  from d obtain w1 w1' where "destroy_vm s ?n (?w1\<lparr>outbox := outbox ?w1 @ msgs\<rparr>) = Some w1" "release (Mem p) w1 = Some w1'"
      "release (Mem q) w1' = Some ?w2" by (auto simp: bind_eq_Some_conv)
  moreover have "?w2\<lparr>live := insert (Mpz (next_id ?v + 6)) ?L\<rparr> =
      w\<lparr>next_id := ?n + 20, live := insert (Mpz (?n + 7)) ?L, outbox := outbox w @ msgs\<rparr>" by (simp add: add.commute)
  ultimately show ?thesis
    using lost assms(5) unfolding bulk_run_def c by (simp only: bind.bind_lunit prod.case option.case vars Let_def)
qed

definition bulk_arguments ::
  "'t enif \<Rightarrow> 't list \<Rightarrow> nat \<Rightarrow> bytes \<Rightarrow> 't batch \<Rightarrow> bytes \<Rightarrow> bool" where
  "bulk_arguments e argv s first b ubb \<longleftrightarrow>
     enif_get_resource e (argv ! 0) = Some s \<and> enif_inspect_binary e (argv ! 1) = Some first \<and> length first = 32 \<and>
     enif_inspect_binary e (argv ! 2) = Some (secondNonce b) \<and> length (secondNonce b) = 32 \<and>
     enif_inspect_binary e (argv ! 3) = Some (inputData b) \<and> length (inputData b) = 48 \<and>
     enif_inspect_binary e (argv ! 4) = Some (prevHash b) \<and> length (prevHash b) = 48 \<and>
     enif_inspect_binary e (argv ! 5) = Some ubb \<and> length ubb \<le> 32 \<and>
     enif_get_list_length e (argv ! 6) = Some (length (pids b)) \<and> read_pids e (length (pids b)) (argv ! 6) = Some (pids b) \<and>
     enif_get_list_length e (argv ! 7) = Some (length (proxyPIDs b)) \<and>
     read_pids e (length (proxyPIDs b)) (argv ! 7) = Some (proxyPIDs b) \<and>
     argv ! 8 = reference b \<and> enif_get_int e (argv ! 9) = Some (hashingIterations b)"

lemma bulk_args_run:
  assumes "bulk_arguments e argv s first b ubb" "\<And>n. \<not> oom sys n" "ledger_ok w"
  shows "bulk_args e sys argv w k =
    k s first (secondNonce b) (inputData b) (prevHash b) ubb (pids b) (proxyPIDs b) (next_id w) (Suc (next_id w))
      (w\<lparr>next_id := Suc (Suc (next_id w)), live := insert (Mem (Suc (next_id w))) (insert (Mem (next_id w)) (live w))\<rparr>)"
  using assms by (simp add: bulk_args_def bulk_arguments_def bulk_constants acquire_unchecked_runs)

lemma two_buffers_gone:
  assumes "ledger_ok w"
  shows "insert (Mem (Suc (next_id w))) (insert (Mem (next_id w)) (live w)) - {Mem (next_id w)} - {Mem (Suc (next_id w))} = live w"
  using not_live_fresh [OF assms, of "Mem (next_id w)"] not_live_fresh [OF assms, of "Mem (Suc (next_id w))"] by auto

lemma vm_ready_buffers:
  assumes "vm_ready e sys stateT s st w" "\<not> fails sys (Suc (Suc (next_id w)))"
  shows "vm_ready e sys stateT s st
    (w\<lparr>next_id := Suc (Suc (next_id w)), live := insert (Mem (Suc (next_id w))) (insert (Mem (next_id w)) (live w))\<rparr>)"
  using assms by (auto simp: vm_ready_def state_usable_def ledger_ok_def less_SucI)

section \<open>Properties\<close>

text \<open>
  Property C31: the recall byte lies in the search space. For an upper bound of at least 10240 bytes of
  the weave, at most 32 bytes long, every hash and every previous block hash give a recall byte: the
  computation divides by no zero, overruns no buffer, and the exported number lies in the subspace that
  the hash selects, so below the upper bound.
\<close>

theorem recall_byte_in_search_space:
  assumes "gmp_documented g" "length prevH = 48" "length hash = 32" "length ubb \<le> 32" "10240 \<le> be_val ubb"
  shows "\<exists>sp byt. search_space g ubb = Some sp \<and> recall_byte g sha256 sp prevH hash = Some byt \<and> length byt \<le> 32 \<and>
    be_val byt = recall_offset sha256 (be_val ubb) prevH (subspace_code g hash) hash \<and>
    (let k = be_val hash mod 1024; even = be_val ubb div 1024
     in k * even \<le> be_val byt \<and> be_val byt < (k + 1) * even \<and> be_val byt < be_val ubb)"
proof -
  let ?ub = "be_val ubb" and ?k = "be_val hash mod 1024"
  let ?r = "recall_offset sha256 ?ub prevH (subspace_code g hash) hash"
  have "(256::nat) ^ length ubb \<le> 256 ^ 32" using assms(4) by (intro power_increasing) simp_all
  then have ub: "?ub < 256 ^ 32" using be_val_bound [of ubb] by linarith
  have e: "be_val (mpz_export g (int ?r)) = ?r" using assms(1) by (simp add: gmp_documented_def)
  have pos: "?ub div 1024 > 0" using assms(5) by (simp add: div_greater_zero_iff)
  have lo: "?k * (?ub div 1024) \<le> ?r" by (simp only: recall_offset_def Let_def le_add1)
  have hi: "?r < ?k * (?ub div 1024) + ?ub div 1024"
    unfolding recall_offset_def Let_def using pos by simp
  have "?k * (?ub div 1024) \<le> 1023 * (?ub div 1024)" by (intro mult_le_mono1) simp
  then have lt: "?r < ?ub" using hi times_div_less_eq_dividend [of 1024 ?ub] by linarith
  then have len: "length (mpz_export g (int ?r)) \<le> 32" using ub by (intro export_length [OF assms(1)]) simp
  have "recall_byte g sha256 (the (search_space g ubb)) prevH hash = Some (mpz_export g (int ?r))"
    using recall_byte_documented [OF assms(1-3) refl ub, of sha256] search_space_documented [OF assms(1), of ubb] assms(5)
    by simp
  moreover have "?r < (?k + 1) * (?ub div 1024)" using hi by simp
  ultimately show ?thesis
    using search_space_documented [OF assms(1), of ubb] lo lt len
    by (intro exI [of _ "the (search_space g ubb)"] exI [of _ "mpz_export g (int ?r)"]) (simp add: e Let_def)
qed

fun nat_bytes :: "nat \<Rightarrow> bytes" where
  "nat_bytes n = (if n = 0 then [] else nat_bytes (n div 256) @ [of_nat n])"

declare nat_bytes.simps [simp del]

lemma nat_bytes_documented: "be_val (nat_bytes n) = n \<and> (nat_bytes n = [] \<or> hd (nat_bytes n) \<noteq> 0) \<and> (n \<noteq> 0 \<longrightarrow> nat_bytes n \<noteq> [])"
proof (induction n rule: nat_bytes.induct)
  case (1 n)
  show ?case
  proof (cases "n = 0")
    case False
    have u: "unat (of_nat n :: byte) = n mod 256" by (simp add: unat_of_nat)
    then show ?thesis
      using 1 False by (subst (1 2 3 4) nat_bytes.simps) (auto simp: hd_append unat_eq_zero mod_eq_self_iff_div_eq_0)
  qed (simp add: nat_bytes.simps)
qed

definition int_gmp :: gmp where
  "int_gmp = \<lparr>mpz_import = (\<lambda>b. int (be_val b)), mpz_export = (\<lambda>n. nat_bytes (nat n)),
     mpz_fdiv_q = (\<lambda>a b. if b = 0 then None else Some (a div b)),
     mpz_fdiv_r = (\<lambda>a b. if b = 0 then None else Some (a mod b)),
     mpz_mul = (*), mpz_add = (+), mpz_sub = (-), mpz_cmp = (\<lambda>a b. if a < b then -1 else if a = b then 0 else 1)\<rparr>"

lemma int_gmp_documented [simp]: "gmp_documented int_gmp"
  using nat_bytes_documented by (auto simp: gmp_documented_def int_gmp_def)

theorem recall_byte_in_search_space_witness:
  "\<exists>sp byt. search_space int_gmp [1, 0, 0] = Some sp \<and>
     recall_byte int_gmp (\<lambda>bs. of_nat (be_val bs)) sp (replicate 48 3) (replicate 32 5) = Some byt \<and> length byt \<le> 32 \<and>
    be_val byt = recall_offset (\<lambda>bs. of_nat (be_val bs)) (be_val [1, 0, 0]) (replicate 48 3)
      (subspace_code int_gmp (replicate 32 5)) (replicate 32 5) \<and>
    (let k = be_val (replicate 32 5) mod 1024; even = be_val [1, 0, 0] div 1024
     in k * even \<le> be_val byt \<and> be_val byt < (k + 1) * even \<and> be_val byt < be_val [1, 0, 0])"
  by (rule recall_byte_in_search_space) (simp_all add: be_val_Cons)

text \<open>
  Below 10240 the search space is too small. The size of a search subspace is then zero and
  the first hash of a batch aborts in a division by zero; no argument check excludes such a bound.
\<close>

theorem small_search_space_aborts:
  assumes "gmp_documented g" "length prevH = 48" "length hash = 32" "be_val ubb < 10240" "search_space g ubb = Some sp"
  shows "recall_byte g sha256 sp prevH hash = None"
proof -
  have "be_val ubb < 256 ^ 32" using assms(4) by (rule order.strict_trans) simp
  then show ?thesis
    using recall_byte_documented [OF assms(1-3) refl, of "be_val ubb" sha256] search_space_documented [OF assms(1), of ubb] assms(4,5)
    by simp
qed

theorem small_search_space_aborts_witness:
  "recall_byte int_gmp (\<lambda>bs. of_nat (be_val bs)) \<lparr>upperBound = 255, evenSubspaceSize = 0, searchSubspaceSize = 0\<rparr>
     (replicate 48 3) (replicate 32 5) = None"
  by (rule small_search_space_aborts [where ubb = "[255]"])
     (simp_all add: be_val_Cons search_space_documented)


text \<open>
  Property C17: a batch of \<open>bulk_hash_fast_nif\<close>. With well-formed arguments, at least one process in each
  list, a search space of at least 10240 and no failing allocation, the call returns \<open>ok\<close> and has sent one message per
  iteration: message \<open>j\<close> goes to process \<open>j\<close> modulo their number and carries the recall byte, the hash
  of the \<open>j\<close>-th nonce with the input data, that nonce, a proxy process in turn and the reference. The
  nonces after the first two are the hashes of two iterations before. The lock, the machine, the arrays
  and the integers are given back, but for one: \<open>mpzSearchSpaceShare\<close> is initialised twice, and its first
  initialisation is never cleared.
\<close>

theorem bulk_hash_fast_batch:
  fixes lib :: "'m rx_lib"
  assumes "fast_documented lib H primed K" "gmp_documented g" "fresh_lengths e" "\<forall>n. \<not> oom sys n"
    and "length argv = 13" "bulk_arguments e argv s first b ubb" "10240 \<le> be_val ubb" "pids b \<noteq> []" "proxyPIDs b \<noteq> []"
    and "enif_get_int e (argv ! 10) = Some jit" "enif_get_int e (argv ! 11) = Some large" "enif_get_int e (argv ! 12) = Some aes"
    and "vm_ready e sys (argv ! 0) s st w" "\<not> fails sys (Suc (Suc (next_id w)))" "K (vm_for lib st True jit large aes)"
  shows "\<exists>w'. bulk_hash_fast_nif e sys g sha256 lib argv w = Some (enif_make_atom e ''ok'', w') \<and>
    outbox w' = outbox w @ map (batch_message e g sha256 H (\<lambda>_. []) (be_val ubb) first b) [0..<nat (hashingIterations b)] \<and>
    live w' = insert (Mpz (next_id w + 9)) (live w) \<and> Mpz (next_id w + 9) \<notin> live w \<and>
    readers w' = readers w \<and> writer w' = writer w \<and> states w' = states w"
proof -
  have lens: "length first = 32" "length (secondNonce b) = 32" "length (prevHash b) = 48" "length ubb \<le> 32"
    using assms(6) by (simp_all add: bulk_arguments_def)
  have ok: "ledger_ok w" using assms(13) by (simp add: vm_ready_def)
  note batch = fast.batch [OF assms(1) assms(15) assms(2,3,7) lens(4) lens(1-3) assms(8,9), of sha256]
  have args: "\<lparr>secondNonce = secondNonce b, inputData = inputData b, prevHash = prevHash b, pids = pids b,
      proxyPIDs = proxyPIDs b, reference = argv ! 8, hashingIterations = hashingIterations b\<rparr> = b"
    "enif_get_int e (argv ! 9) = Some (hashingIterations b)"
    using assms(6) by (simp_all add: bulk_arguments_def)
  have "bulk_hash_fast_nif e sys g sha256 lib argv w = bulk_run e sys g sha256 lib (fast_hasher lib) s ubb first b jit large aes
      (next_id w) (Suc (next_id w))
      (w\<lparr>next_id := Suc (Suc (next_id w)), live := insert (Mem (Suc (next_id w))) (insert (Mem (next_id w)) (live w))\<rparr>)"
    using assms(4,5,10-12) args by (simp add: bulk_hash_fast_nif_def bulk_args_run [OF assms(6) _ ok])
  then show ?thesis
    using bulk_run_ok [OF vm_ready_buffers [OF assms(13,14)] _ _ _ batch] two_buffers_gone [OF ok]
      not_live_fresh [OF ok, of "Mpz (next_id w + 9)"] by (simp add: add.commute)
qed

definition toy_batch :: "toy_term batch" where
  "toy_batch = \<lparr>secondNonce = replicate 32 2, inputData = replicate 48 9, prevHash = replicate 48 3, pids = [7, 8],
     proxyPIDs = [4], reference = Atom ''ref'', hashingIterations = 3\<rparr>"

definition toy_bulk_args :: "toy_term list" where
  "toy_bulk_args = [Res 0, Bin (replicate 32 1), Bin (replicate 32 2), Bin (replicate 48 9), Bin (replicate 48 3),
     Bin [1, 0, 0], Lst [Pid 7, Pid 8], Lst [Pid 4], Atom ''ref'', Num 3, Num 0, Num 0, Num 1]"

lemma toy_bulk_arguments: "bulk_arguments toy_enif (toy_bulk_args @ xs) 0 (replicate 32 1) toy_batch [1, 0, 0]"
  by (simp add: bulk_arguments_def toy_bulk_args_def toy_batch_def c_int_def numeral_2_eq_2)

lemma toy_fast_documented:
  "fast_documented (lib_with_items n) (\<lambda>x. of_nat (be_val x)) (\<lambda>v x. tempHash v = x) (\<lambda>_. True)"
  by (simp add: fast_documented_def lib_with_items_def)

theorem bulk_hash_fast_batch_witness:
  "\<exists>w'. bulk_hash_fast_nif toy_enif no_failures int_gmp (\<lambda>bs. of_nat (be_val bs)) (lib_with_items 1) toy_bulk_args toy_fast_world =
      Some (enif_make_atom toy_enif ''ok'', w') \<and>
    outbox w' = outbox toy_fast_world @ map (batch_message toy_enif int_gmp (\<lambda>bs. of_nat (be_val bs)) (\<lambda>x. of_nat (be_val x)) (\<lambda>_. [])
      (be_val [1, 0, 0]) (replicate 32 1) toy_batch) [0..<nat (hashingIterations toy_batch)] \<and>
    live w' = insert (Mpz (next_id toy_fast_world + 9)) (live toy_fast_world) \<and>
    Mpz (next_id toy_fast_world + 9) \<notin> live toy_fast_world \<and> readers w' = readers toy_fast_world \<and> writer w' = writer toy_fast_world \<and>
    states w' = states toy_fast_world"
proof (rule bulk_hash_fast_batch [OF toy_fast_documented int_gmp_documented, where jit = 0 and large = 0 and aes = 1])
  show "bulk_arguments toy_enif toy_bulk_args 0 (replicate 32 1) toy_batch [1, 0, 0]" using toy_bulk_arguments [of "[]"] by simp
  show "vm_ready toy_enif no_failures (toy_bulk_args ! 0) 0 toy_fast_state toy_fast_world" by (simp add: toy_bulk_args_def)
qed (simp_all add: toy_bulk_args_def be_val_Cons toy_batch_def c_int_def)

text \<open>
  Property C36: a batch of \<open>bulk_hash_fast_long_with_entropy_nif\<close>, the same with the long hash: every
  message also carries the entropy of its hash, and hash and entropy are those of a stand-alone
  \<open>randomx_calculate_hash_long_with_entropy\<close> on the same input, on any machine over the dataset. Of RandomX it uses the
  laws of the machine's methods (\<open>randomx_documented\<close>) and that \<open>hashAndFill\<close> does what two other methods do one after
  the other. As in the other function one initialisation of \<open>mpzSearchSpaceShare\<close> is never cleared.
\<close>

theorem bulk_hash_entropy_batch:
  fixes lib :: "'m rx_lib"
  assumes "entropy_documented e lib D pad same v0" "gmp_documented g" "\<forall>n. \<not> oom sys n"
    and "length argv = 14" "bulk_arguments e argv s first b ubb" "10240 \<le> be_val ubb" "pids b \<noteq> []" "proxyPIDs b \<noteq> []"
    and "enif_get_int e (argv ! 10) = Some pc" "enif_get_int e (argv ! 11) = Some jit" "enif_get_int e (argv ! 12) = Some large"
      "enif_get_int e (argv ! 13) = Some aes"
    and "vm_ready e sys (argv ! 0) s st w" "\<not> fails sys (Suc (Suc (next_id w)))" "D (core (vm_for lib st True jit large aes))"
  shows "\<exists>w'. bulk_hash_fast_long_with_entropy_nif e sys g sha256 lib argv w = Some (enif_make_atom e ''ok'', w') \<and>
    outbox w' = outbox w @ map (batch_message e g sha256 (ref_hash lib pc v0)
      (\<lambda>x. [enif_make_binary e (ref_entropy lib pc v0 x)]) (be_val ubb) first b) [0..<nat (hashingIterations b)] \<and>
    live w' = insert (Mpz (next_id w + 9)) (live w) \<and> Mpz (next_id w + 9) \<notin> live w \<and>
    readers w' = readers w \<and> writer w' = writer w \<and> states w' = states w"
proof -
  have lens: "length first = 32" "length (secondNonce b) = 32" "length (prevHash b) = 48" "length ubb \<le> 32"
    using assms(5) by (simp_all add: bulk_arguments_def)
  have ok: "ledger_ok w" "fresh_lengths e" using assms(1,13) by (simp_all add: vm_ready_def entropy_documented_def)
  note batch = entropy.batch [OF assms(1) assms(15) assms(2) ok(2) assms(6) lens(4) lens(1-3) assms(7,8), where pc = pc and ?sha256.0 = sha256]
  have args: "\<lparr>secondNonce = secondNonce b, inputData = inputData b, prevHash = prevHash b, pids = pids b,
      proxyPIDs = proxyPIDs b, reference = argv ! 8, hashingIterations = hashingIterations b\<rparr> = b"
    "enif_get_int e (argv ! 9) = Some (hashingIterations b)"
    using assms(5) by (simp_all add: bulk_arguments_def)
  have "bulk_hash_fast_long_with_entropy_nif e sys g sha256 lib argv w =
      bulk_run e sys g sha256 lib (entropy_hasher e lib pc) s ubb first b jit large aes (next_id w) (Suc (next_id w))
      (w\<lparr>next_id := Suc (Suc (next_id w)), live := insert (Mem (Suc (next_id w))) (insert (Mem (next_id w)) (live w))\<rparr>)"
    using assms(3,4,9-12) args by (simp add: bulk_hash_fast_long_with_entropy_nif_def bulk_args_run [OF assms(5) _ ok(1)])
  then show ?thesis
    using bulk_run_ok [OF vm_ready_buffers [OF assms(13,14)] _ _ _ batch] two_buffers_gone [OF ok(1)]
      not_live_fresh [OF ok(1), of "Mpz (next_id w + 9)"] by (simp add: add.commute)
qed

lemma toy_entropy_documented: "entropy_documented toy_enif (lib_with_items n) (\<lambda>_. True) (=) (=) \<lparr>core = [], tempHash = []\<rparr>"
  by (simp add: entropy_documented_def toy_machine_documented)

theorem bulk_hash_entropy_batch_witness:
  "\<exists>w'. bulk_hash_fast_long_with_entropy_nif toy_enif no_failures int_gmp (\<lambda>bs. of_nat (be_val bs)) (lib_with_items 1)
      (toy_bulk_args @ [Num 1]) toy_fast_world = Some (enif_make_atom toy_enif ''ok'', w') \<and>
    outbox w' = outbox toy_fast_world @ map (batch_message toy_enif int_gmp (\<lambda>bs. of_nat (be_val bs))
      (ref_hash (lib_with_items 1) 0 \<lparr>core = [], tempHash = []\<rparr>)
      (\<lambda>x. [enif_make_binary toy_enif (ref_entropy (lib_with_items 1) 0 \<lparr>core = [], tempHash = []\<rparr> x)])
      (be_val [1, 0, 0]) (replicate 32 1) toy_batch) [0..<nat (hashingIterations toy_batch)] \<and>
    live w' = insert (Mpz (next_id toy_fast_world + 9)) (live toy_fast_world) \<and>
    Mpz (next_id toy_fast_world + 9) \<notin> live toy_fast_world \<and> readers w' = readers toy_fast_world \<and> writer w' = writer toy_fast_world \<and>
    states w' = states toy_fast_world"
proof (rule bulk_hash_entropy_batch [OF toy_entropy_documented int_gmp_documented, where jit = 0 and large = 1 and aes = 1])
  show "bulk_arguments toy_enif (toy_bulk_args @ [Num 1]) 0 (replicate 32 1) toy_batch [1, 0, 0]" by (rule toy_bulk_arguments)
  show "vm_ready toy_enif no_failures ((toy_bulk_args @ [Num 1]) ! 0) 0 toy_fast_state toy_fast_world"
    by (simp add: toy_bulk_args_def)
qed (simp_all add: toy_bulk_args_def be_val_Cons toy_batch_def c_int_def)

text \<open>
  One branch leaks. When the eighth argument is not a list, \<open>bulk_hash_fast_nif\<close> returns
  \<open>badarg\<close> without freeing the array of process identifiers it has allocated.
\<close>

theorem bulk_hash_fast_leaks_pids:
  assumes "bulk_arguments e (argv[7 := proxies]) s first b ubb" "\<forall>n. \<not> oom sys n" "ledger_ok w" "length argv = 13"
    and "enif_get_list_length e (argv ! 7) = None"
  shows "bulk_hash_fast_nif e sys g sha256 lib argv w =
    Some (enif_make_badarg e, w\<lparr>next_id := Suc (next_id w), live := insert (Mem (next_id w)) (live w)\<rparr>) \<and>
    Mem (next_id w) \<notin> live w"
  using assms not_live_fresh [OF assms(3), of "Mem (next_id w)"]
  by (simp add: bulk_hash_fast_nif_def bulk_args_def bulk_arguments_def bulk_constants acquire_unchecked_runs)

theorem bulk_hash_fast_leaks_pids_witness:
  "bulk_hash_fast_nif toy_enif no_failures int_gmp (\<lambda>bs. of_nat (be_val bs)) (lib_with_items 1)
      (toy_bulk_args[7 := Num 0]) toy_fast_world =
    Some (enif_make_badarg toy_enif,
      toy_fast_world\<lparr>next_id := Suc (next_id toy_fast_world), live := insert (Mem (next_id toy_fast_world)) (live toy_fast_world)\<rparr>) \<and>
    Mem (next_id toy_fast_world) \<notin> live toy_fast_world"
proof (rule bulk_hash_fast_leaks_pids)
  show "bulk_arguments toy_enif ((toy_bulk_args[7 := Num 0])[7 := Lst [Pid 4]]) 0 (replicate 32 1) toy_batch [1, 0, 0]"
    using toy_bulk_arguments [of "[]"] by (simp add: toy_bulk_args_def)
qed (simp_all add: toy_bulk_args_def no_failures_def toy_fast_world_def empty_world_def ledger_ok_def toy_enif_def)

end
