(* ===== verification/Vdf.thy ===== *)
theory Vdf
  imports Prelude
begin

text \<open>
  The sequential part of \<open>vdf.cpp\<close>: the 256-bit salt counter \<open>long_add\<close>, the VDF computation
  \<open>_vdf_sha2\<close> with its two loop shapes, its entry point \<open>vdf_sha2\<close>, and the reset mixing. The C
  \<open>int\<close> parameters are integers; SHA-256 (OpenSSL) is the parameter \<open>sha256\<close>. The reference is
  the Erlang implementation the repository keeps for its tests (\<open>ar_vdf.erl\<close>, \<open>hash/3\<close> and
  \<open>debug_sha2/3\<close>).
\<close>

definition SALT_SIZE :: nat where
  "SALT_SIZE = 32"

definition VDF_SHA_HASH_SIZE :: nat where
  "VDF_SHA_HASH_SIZE = 32"

declare SALT_SIZE_def [simp] VDF_SHA_HASH_SIZE_def [simp]

section \<open>The salt counter\<close>

text \<open>The loop from byte \<open>i\<close> down to byte 0; the carry \<open>acc\<close> is an \<open>unsigned int\<close>.\<close>

fun long_add_loop :: "nat \<Rightarrow> 32 word \<Rightarrow> bytes \<Rightarrow> bytes" where
  "long_add_loop 0 acc saltBuffer = saltBuffer"
| "long_add_loop (Suc i) acc saltBuffer =
     (let value = ucast (saltBuffer ! i) + acc;
          saltBuffer = saltBuffer[i := ucast (value AND 0xFF)];
          acc = drop_bit 8 value
      in if acc = 0 then saltBuffer else long_add_loop i acc saltBuffer)"

definition long_add :: "bytes \<Rightarrow> int \<Rightarrow> bytes" where
  "long_add saltBuffer checkpointIdx = long_add_loop SALT_SIZE (of_int checkpointIdx) saltBuffer"

section \<open>The VDF\<close>

definition sha_round :: "hash_fn \<Rightarrow> bytes \<Rightarrow> bytes \<Rightarrow> bytes" where
  "sha_round sha256 saltBuffer inp = digest (sha256 (take SALT_SIZE saltBuffer @ take VDF_SHA_HASH_SIZE inp))"

text \<open>One checkpoint when \<open>skipCheckpointCount == 0\<close>: the output block and the advanced salt.\<close>

definition sha2_checkpoint :: "hash_fn \<Rightarrow> bytes \<Rightarrow> bytes \<Rightarrow> int \<Rightarrow> bytes \<times> bytes" where
  "sha2_checkpoint sha256 saltBuffer locIn hashingIterations =
     (let tempOut = sha_round sha256 saltBuffer locIn;
          tempOut = (sha_round sha256 saltBuffer ^^ nat (hashingIterations - 2)) tempOut;
          locOut = sha_round sha256 saltBuffer tempOut
      in (locOut, long_add saltBuffer 1))"

text \<open>The inner checkpoints that are skipped: \<open>n\<close> of them, none is stored.\<close>

fun sha2_skips :: "hash_fn \<Rightarrow> int \<Rightarrow> nat \<Rightarrow> bytes \<Rightarrow> bytes \<Rightarrow> bytes \<times> bytes" where
  "sha2_skips sha256 hashingIterations 0 tempOut saltBuffer = (tempOut, saltBuffer)"
| "sha2_skips sha256 hashingIterations (Suc n) tempOut saltBuffer =
     sha2_skips sha256 hashingIterations n
       ((sha_round sha256 saltBuffer ^^ nat hashingIterations) tempOut) (long_add saltBuffer 1)"

definition sha2_checkpoint_skip :: "hash_fn \<Rightarrow> bytes \<Rightarrow> bytes \<Rightarrow> int \<Rightarrow> int \<Rightarrow> bytes \<times> bytes" where
  "sha2_checkpoint_skip sha256 saltBuffer locIn skipCheckpointCount hashingIterations =
     (let tempOut = sha_round sha256 saltBuffer locIn;
          tempOut = (sha_round sha256 saltBuffer ^^ nat (hashingIterations - 1)) tempOut;
          saltBuffer = long_add saltBuffer 1;
          (tempOut, saltBuffer) =
            sha2_skips sha256 hashingIterations (nat (skipCheckpointCount - 1)) tempOut saltBuffer;
          tempOut = (sha_round sha256 saltBuffer ^^ nat (hashingIterations - 1)) tempOut;
          locOut = sha_round sha256 saltBuffer tempOut
      in (locOut, long_add saltBuffer 1))"

text \<open>
  The checkpoint loop; the state is the salt, \<open>out\<close> and \<open>outCheckpoint\<close>. Checkpoint \<open>idx\<close> reads
  the block before it and writes its own block, the last one goes to \<open>out\<close>. The offsets
  \<open>VDF_SHA_HASH_SIZE*(checkpointIdx-1)\<close> and \<open>VDF_SHA_HASH_SIZE*checkpointIdx\<close> are computed as \<open>int\<close>.
\<close>

fun vdf_sha2_loop ::
  "hash_fn \<Rightarrow> bytes \<Rightarrow> int \<Rightarrow> int \<Rightarrow> int \<Rightarrow> nat \<Rightarrow> int \<Rightarrow> bytes \<times> bytes \<times> bytes
   \<Rightarrow> (bytes \<times> bytes \<times> bytes) option" where
  "vdf_sha2_loop sha256 seed checkpointCount skipCheckpointCount hashingIterations 0 idx st = Some st"
| "vdf_sha2_loop sha256 seed checkpointCount skipCheckpointCount hashingIterations (Suc n) idx
     (saltBuffer, out, outCheckpoint) = do {
     locIn \<leftarrow> (if idx = 0 then rd seed 0 VDF_SHA_HASH_SIZE
                else rd_int outCheckpoint (int VDF_SHA_HASH_SIZE * (idx - 1)) VDF_SHA_HASH_SIZE);
     let (block, saltBuffer) =
       (if skipCheckpointCount = 0 then sha2_checkpoint sha256 saltBuffer locIn hashingIterations
        else sha2_checkpoint_skip sha256 saltBuffer locIn skipCheckpointCount hashingIterations);
     (out, outCheckpoint) \<leftarrow>
       (if idx = checkpointCount then map_option (\<lambda>b. (b, outCheckpoint)) (wr out 0 block)
        else map_option (Pair out) (wr_int outCheckpoint (int VDF_SHA_HASH_SIZE * idx) block));
     vdf_sha2_loop sha256 seed checkpointCount skipCheckpointCount hashingIterations n (idx + 1)
       (saltBuffer, out, outCheckpoint) }"

definition vdf_sha2_inner ::
  "hash_fn \<Rightarrow> bytes \<Rightarrow> bytes \<Rightarrow> bytes \<Rightarrow> bytes \<Rightarrow> int \<Rightarrow> int \<Rightarrow> int \<Rightarrow> (bytes \<times> bytes \<times> bytes) option" where
  "vdf_sha2_inner sha256 saltBuffer seed out outCheckpoint
     checkpointCount skipCheckpointCount hashingIterations =
     vdf_sha2_loop sha256 seed checkpointCount skipCheckpointCount hashingIterations
       (nat (checkpointCount + 1)) 0 (saltBuffer, out, outCheckpoint)"

definition vdf_sha2 ::
  "hash_fn \<Rightarrow> bytes \<Rightarrow> bytes \<Rightarrow> bytes \<Rightarrow> bytes \<Rightarrow> int \<Rightarrow> int \<Rightarrow> int \<Rightarrow> (bytes \<times> bytes) option" where
  "vdf_sha2 sha256 saltBuffer seed out outCheckpoint
     checkpointCount skipCheckpointCount hashingIterations = do {
     saltBufferStack \<leftarrow> rd saltBuffer 0 SALT_SIZE;
     (_, out, outCheckpoint) \<leftarrow> vdf_sha2_inner sha256 saltBufferStack seed out outCheckpoint
       checkpointCount skipCheckpointCount hashingIterations;
     Some (out, outCheckpoint) }"

section \<open>Resets\<close>

definition reset_mix :: "hash_fn \<Rightarrow> bytes \<Rightarrow> bytes \<Rightarrow> bytes" where
  "reset_mix sha256 prevOutput resetSeed =
     digest (sha256 (take VDF_SHA_HASH_SIZE prevOutput @ take VDF_SHA_HASH_SIZE resetSeed))"

text \<open>The comparison loop, from byte 31 down: \<open>n\<close> bytes are left to compare.\<close>

fun rev_cmp_loop :: "nat \<Rightarrow> bytes \<Rightarrow> bytes \<Rightarrow> bool" where
  "rev_cmp_loop 0 a b = True"
| "rev_cmp_loop (Suc i) a b = (if a ! i \<noteq> b ! i then False else rev_cmp_loop i a b)"

definition fast_rev_cmp256 :: "bytes \<Rightarrow> bytes \<Rightarrow> bool" where
  "fast_rev_cmp256 a b = rev_cmp_loop 32 a b"

section \<open>The Erlang reference\<close>

text \<open>\<open>hash/3\<close> of \<open>ar_vdf.erl\<close>.\<close>

fun vdf_hash :: "hash_fn \<Rightarrow> nat \<Rightarrow> bytes \<Rightarrow> bytes \<Rightarrow> bytes" where
  "vdf_hash sha256 0 salt input = input"
| "vdf_hash sha256 (Suc n) salt input = vdf_hash sha256 n salt (digest (sha256 (salt @ input)))"

text \<open>
  The chain of outputs that the reference folds over: step \<open>k\<close> hashes with the salt number
  \<open>s + k\<close>, written as 32 big-endian bytes. \<open>pre\<close> is applied to a step's input; it is the identity
  without a reset, and \<open>reset_mix\<close> at one salt number with a reset.
\<close>

fun vdf_chain :: "(bytes \<Rightarrow> bytes \<Rightarrow> bytes) \<Rightarrow> hash_fn \<Rightarrow> nat \<Rightarrow> nat \<Rightarrow> bytes \<Rightarrow> nat \<Rightarrow> bytes" where
  "vdf_chain pre sha256 iterations s x 0 = x"
| "vdf_chain pre sha256 iterations s x (Suc k) =
     (let salt = be_bytes 32 (s + k)
      in vdf_hash sha256 iterations salt (pre salt (vdf_chain pre sha256 iterations s x k)))"

definition no_reset :: "bytes \<Rightarrow> bytes \<Rightarrow> bytes" where
  "no_reset salt x = x"

definition with_reset :: "hash_fn \<Rightarrow> bytes \<Rightarrow> bytes \<Rightarrow> bytes \<Rightarrow> bytes \<Rightarrow> bytes" where
  "with_reset sha256 resetSalt resetSeed salt x =
     (if salt = resetSalt then reset_mix sha256 x resetSeed else x)"

text \<open>\<open>debug_sha2/3\<close>: the fold over \<open>n\<close> checkpoints; the newest checkpoint comes first.\<close>

fun debug_sha2_fold :: "hash_fn \<Rightarrow> nat \<Rightarrow> nat \<Rightarrow> bytes \<Rightarrow> nat \<Rightarrow> bytes \<times> bytes list" where
  "debug_sha2_fold sha256 iterations salt output 0 = (output, [])"
| "debug_sha2_fold sha256 iterations salt output (Suc i) =
     (let (acc, l) = debug_sha2_fold sha256 iterations salt output i;
          h = vdf_hash sha256 iterations (be_bytes 32 (salt + i)) acc
      in (h, h # l))"

section \<open>The salt counter adds modulo \<open>2 ^ 256\<close>\<close>

lemma long_add_loop_length [simp, len_simps]: "length (long_add_loop n acc s) = length s"
  by (induction n acc s rule: long_add_loop.induct) (auto simp: Let_def)

lemma long_add_length [simp, len_simps]: "length (long_add s d) = length s"
  by (simp add: long_add_def)

lemma long_add_loop_drop: "n \<le> k \<Longrightarrow> drop k (long_add_loop n acc s) = drop k s"
  by (induction n acc s rule: long_add_loop.induct) (auto simp: Let_def)

lemma mod_carry:
  fixes v w m :: nat
  shows "((v + w div 256) mod m) * 256 + w mod 256 = (v * 256 + w) mod (256 * m)"
proof -
  have q: "(v * 256 + w) div 256 = v + w div 256" and r: "(v * 256 + w) mod 256 = w mod 256"
    by simp_all
  show ?thesis using mod_mult2_eq [of "v * 256 + w" 256 m] unfolding q r by simp
qed

lemma unat_low_byte: "unat (ucast (v AND 0xFF) :: byte) = unat (v :: 32 word) mod 256"
proof -
  have "(v AND 0xFF) = take_bit 8 v"
    by (simp add: take_bit_eq_mask mask_eq_exp_minus_1)
  then have "unat (v AND 0xFF) = take_bit 8 (unat v)"
    by (simp only: unsigned_take_bit_eq)
  then have "unat (v AND 0xFF) = unat v mod 256"
    by (simp add: take_bit_eq_mod)
  then show ?thesis by (simp add: unsigned_ucast_eq take_bit_eq_mod)
qed

lemma long_add_loop_value:
  assumes "n \<le> length s" "unat acc + 255 < 2 ^ 32"
  shows "be_val (take n (long_add_loop n acc s)) = (be_val (take n s) + unat acc) mod 256 ^ n"
  using assms
proof (induction n arbitrary: acc s)
  case (Suc i)
  define v where "v = ucast (s ! i) + acc"
  define s' where "s' = s[i := ucast (v AND 0xFF)]"
  have uv: "unat v = unat (s ! i) + unat acc"
  proof -
    have "unat (s ! i) + unat acc < 2 ^ 32"
      using Suc.prems(2) unat_byte_less [of "s ! i"] by linarith
    then show ?thesis by (simp add: v_def unat_word_ariths)
  qed
  have i: "i < length s" using Suc.prems by simp
  have tail: "take (Suc i) t = take i t @ [s' ! i]" if "drop i t = drop i s'" "length t = length s" for t
  proof -
    have "t ! i = s' ! i"
      using that i by (metis Cons_nth_drop_Suc length_list_update list.inject s'_def)
    then show ?thesis using that i by (simp add: take_Suc_conv_app_nth)
  qed
  have b: "unat (s' ! i) = unat v mod 256"
    using i unat_low_byte [of v] by (simp add: s'_def)
  have dv: "unat (drop_bit 8 v) = unat v div 256"
    unfolding unat_drop_bit_eq by (simp add: drop_bit_eq_div)
  have "be_val (take (Suc i) (long_add_loop (Suc i) acc s)) =
        ((be_val (take i s) + unat v div 256) mod 256 ^ i) * 256 + unat v mod 256"
  proof (cases "drop_bit 8 v = 0")
    case True
    then have "unat v div 256 = 0" using dv by (metis unat_0)
    moreover have "long_add_loop (Suc i) acc s = s'"
      using True by (simp add: Let_def v_def s'_def)
    moreover have "take i s' = take i s" by (simp add: s'_def)
    moreover have "length (take i s) = i" using i by simp
    ultimately show ?thesis
      using tail [of s'] b be_val_bound [of "take i s"] i by (simp add: s'_def)
  next
    case False
    let ?t = "long_add_loop i (drop_bit 8 v) s'"
    have "long_add_loop (Suc i) acc s = ?t"
      using False by (simp add: Let_def v_def s'_def)
    moreover have "take (Suc i) ?t = take i ?t @ [s' ! i]"
      by (rule tail) (simp_all add: long_add_loop_drop s'_def)
    moreover have "be_val (take i ?t) = (be_val (take i s') + unat (drop_bit 8 v)) mod 256 ^ i"
    proof (rule Suc.IH)
      show "i \<le> length s'" using i by (simp add: s'_def)
      show "unat (drop_bit 8 v) + 255 < 2 ^ 32"
      proof -
        have "unat v div 256 \<le> unat v div 1" by (rule div_le_mono2) simp_all
        moreover have "unat v div 256 + 255 < 2 ^ 32" if "unat v < 2 ^ 32"
          using that by simp
        ultimately show ?thesis using dv unsigned_less [of v] by simp
      qed
    qed
    ultimately show ?thesis using b dv by (simp add: s'_def)
  qed
  also have "\<dots> = (be_val (take i s) * 256 + unat v) mod (256 * 256 ^ i)"
    by (rule mod_carry)
  also have "be_val (take i s) * 256 + unat v = be_val (take (Suc i) s) + unat acc"
    using i uv by (simp add: take_Suc_conv_app_nth)
  finally show ?case by simp
qed simp

lemma long_add_be_val:
  assumes "length s = 32" "0 \<le> d" "d + 255 < 2 ^ 32"
  shows "be_val (long_add s d) = (be_val s + nat d) mod 2 ^ 256"
proof -
  have u: "unat (of_int d :: 32 word) = nat d"
    using assms by (simp add: unsigned_of_int take_bit_int_eq_self)
  have "be_val (take 32 (long_add_loop 32 (of_int d) s)) =
        (be_val (take 32 s) + unat (of_int d :: 32 word)) mod 256 ^ 32"
    using assms u by (intro long_add_loop_value) auto
  then show ?thesis using assms u by (simp add: long_add_def)
qed


lemma long_add_be_bytes:
  assumes "0 \<le> d" "d + 255 < 2 ^ 32"
  shows "long_add (be_bytes 32 s) d = be_bytes 32 (s + nat d)"
proof -
  have "be_val (long_add (be_bytes 32 s) d) = be_val (be_bytes 32 (s + nat d))"
    using long_add_be_val [of "be_bytes 32 s" d] assms
    by (simp add: be_val_be_bytes mod_simps)
  then show ?thesis by (simp add: be_val_inject)
qed

lemma be_bytes_32_eq: "be_bytes 32 a = be_bytes 32 b \<longleftrightarrow> a mod 2 ^ 256 = b mod 2 ^ 256"
  using be_val_inject [of "be_bytes 32 a" "be_bytes 32 b"] by (simp add: be_val_be_bytes)

lemma fast_rev_cmp256_eq:
  assumes "length a = 32" "length b = 32"
  shows "fast_rev_cmp256 a b \<longleftrightarrow> a = b"
proof -
  have "rev_cmp_loop n a b \<longleftrightarrow> (\<forall>i<n. a ! i = b ! i)" for n
    by (induction n) (auto simp: less_Suc_eq)
  then show ?thesis using assms by (auto simp: fast_rev_cmp256_def list_eq_iff_nth_eq)
qed

section \<open>The loop bodies compute steps of the chain\<close>

lemma vdf_hash_funpow:
  "length salt = 32 \<Longrightarrow> length x = 32 \<Longrightarrow> vdf_hash sha256 n salt x = (sha_round sha256 salt ^^ n) x"
proof (induction n arbitrary: x)
  case (Suc n)
  then show ?case
    by (simp add: funpow_Suc_inner sha_round_def del: funpow.simps)
qed simp

lemma length_vdf_hash [simp]: "length x = 32 \<Longrightarrow> length (vdf_hash sha256 n salt x) = 32"
  by (induction n arbitrary: x) auto

lemma length_reset_mix [simp, len_simps]: "length (reset_mix sha256 x y) = 32"
  by (simp add: reset_mix_def)

lemma length_no_reset [simp]: "length x = 32 \<Longrightarrow> length (no_reset salt x) = 32"
  by (simp add: no_reset_def)

lemma length_with_reset [simp]: "length x = 32 \<Longrightarrow> length (with_reset sha256 a b salt x) = 32"
  by (simp add: with_reset_def)

text \<open>What a chain needs of \<open>pre\<close>: it keeps the block length.\<close>

definition keeps_length :: "(bytes \<Rightarrow> bytes \<Rightarrow> bytes) \<Rightarrow> bool" where
  "keeps_length pre \<longleftrightarrow> (\<forall>salt x. length x = 32 \<longrightarrow> length (pre salt x) = 32)"

lemma keeps_length_resets [simp]: "keeps_length no_reset" "keeps_length (with_reset sha256 a b)"
  by (simp_all add: keeps_length_def)

lemma length_vdf_chain [simp]:
  "keeps_length pre \<Longrightarrow> length x = 32 \<Longrightarrow> length (vdf_chain pre sha256 n s x k) = 32"
  by (induction k) (auto simp: Let_def keeps_length_def)

lemma vdf_chain_add:
  "vdf_chain pre sha256 n s x (a + b) = vdf_chain pre sha256 n (s + a) (vdf_chain pre sha256 n s x a) b"
  by (induction b) (simp_all add: Let_def add.assoc)

lemma funpow_split: "m = a + b \<Longrightarrow> (f ^^ m) x = (f ^^ b) ((f ^^ a) x)"
  by (simp add: funpow_add add.commute [of a])

lemma sha2_checkpoint_chain:
  assumes "length x = 32" "2 \<le> N"
  shows "sha2_checkpoint sha256 (be_bytes 32 s) x (int N) =
         (vdf_chain no_reset sha256 N s x 1, be_bytes 32 (s + 1))"
proof -
  have "(sha_round sha256 salt ^^ N) x =
        sha_round sha256 salt ((sha_round sha256 salt ^^ (N - 2)) (sha_round sha256 salt x))" for salt
    using assms(2) funpow_split [of N 1 "Suc (N - 2)" "sha_round sha256 salt" x] by simp
  moreover have "nat (int N - 2) = N - 2" by simp
  ultimately show ?thesis using assms
    by (simp add: sha2_checkpoint_def vdf_hash_funpow long_add_be_bytes no_reset_def Let_def)
qed

lemma funpow_chain:
  assumes "length x = 32"
  shows "(sha_round sha256 (be_bytes 32 s) ^^ N) x = vdf_chain no_reset sha256 N s x (Suc 0)"
  using assms by (simp add: vdf_hash_funpow no_reset_def Let_def)

lemma sha2_skips_chain:
  assumes "length x = 32"
  shows "sha2_skips sha256 (int N) n x (be_bytes 32 s) =
         (vdf_chain no_reset sha256 N s x n, be_bytes 32 (s + n))"
  using assms
proof (induction n arbitrary: x s)
  case (Suc n)
  have "length (vdf_chain no_reset sha256 N s x (Suc 0)) = 32"
    using Suc.prems by (simp del: vdf_chain.simps)
  from Suc.IH [OF this, of "Suc s"] show ?case
    using vdf_chain_add [of no_reset sha256 N s x "Suc 0" n] Suc.prems
    by (simp add: funpow_chain long_add_be_bytes del: vdf_chain.simps)
qed simp

lemma sha2_checkpoint_skip_chain:
  assumes "length x = 32"
  shows "sha2_checkpoint_skip sha256 (be_bytes 32 s) x (int (Suc k)) (int (Suc M)) =
         (vdf_chain no_reset sha256 (Suc M) s x (Suc (Suc k)), be_bytes 32 (s + Suc (Suc k)))"
proof -
  have N: "(f ^^ M) (f y) = (f ^^ Suc M) y" "f ((f ^^ M) y) = (f ^^ Suc M) y" for f and y :: bytes
    by (simp_all add: funpow_swap1)
  have nn: "nat (int (Suc M) - 1) = M" "nat (int (Suc k) - 1) = k" by simp_all
  let ?x1 = "vdf_chain no_reset sha256 (Suc M) s x (Suc 0)"
  let ?x2 = "vdf_chain no_reset sha256 (Suc M) (Suc s) ?x1 k"
  have len: "length ?x1 = 32" "length ?x2 = 32" using assms by (simp_all del: vdf_chain.simps)
  have x2: "?x2 = vdf_chain no_reset sha256 (Suc M) s x (Suc k)"
    using vdf_chain_add [of no_reset sha256 "Suc M" s x "Suc 0" k] by simp
  have "vdf_chain no_reset sha256 (Suc M) s x (Suc (Suc k)) =
        vdf_chain no_reset sha256 (Suc M) (s + Suc k) ?x2 (Suc 0)"
    unfolding x2 using vdf_chain_add [of no_reset sha256 "Suc M" s x "Suc k" "Suc 0"] by simp
  moreover have "sha2_checkpoint_skip sha256 (be_bytes 32 s) x (int (Suc k)) (int (Suc M)) =
        (vdf_chain no_reset sha256 (Suc M) (s + Suc k) ?x2 (Suc 0), be_bytes 32 (s + Suc (Suc k)))"
    unfolding sha2_checkpoint_skip_def Let_def nn N funpow_chain [OF assms]
    using len by (simp add: long_add_be_bytes sha2_skips_chain funpow_chain
        del: vdf_chain.simps funpow.simps of_nat_Suc)
  ultimately show ?thesis by simp
qed


section \<open>The whole computation\<close>

text \<open>One checkpoint of either branch: \<open>k + 1\<close> steps of the chain.\<close>

lemma checkpoint_step:
  assumes "length x = 32" "2 \<le> N \<or> (1 \<le> N \<and> 0 < k)"
  shows "(if int k = 0 then sha2_checkpoint sha256 (be_bytes 32 s) x (int N)
          else sha2_checkpoint_skip sha256 (be_bytes 32 s) x (int k) (int N)) =
         (vdf_chain no_reset sha256 N s x (Suc k), be_bytes 32 (s + Suc k))"
proof (cases k)
  case 0
  then show ?thesis using assms sha2_checkpoint_chain [of x N sha256 s] by simp
next
  case (Suc j)
  then obtain M where "N = Suc M" using assms(2) by (cases N) auto
  then show ?thesis using Suc sha2_checkpoint_skip_chain [OF assms(1), of sha256 s j M] by simp
qed

lemma rd_32_block:
  assumes "32 * i + 32 \<le> length buf" "i < 2 ^ 26"
  shows "rd_int buf (32 * int i) 32 = Some (take 32 (drop (32 * i) buf))"
  using rd_nat [of "32 * i" 32 buf] rd_int_nat [of "32 * i" buf 32] assms by simp

lemma wr_32_block:
  assumes "32 * i + 32 \<le> length buf" "length b = 32" "i < 2 ^ 26"
  shows "wr_int buf (32 * int i) b = Some (take (32 * i) buf @ b @ drop (32 * i + 32) buf)"
  using wr_nat [of "32 * i" b buf] wr_int_nat [of "32 * i" buf b] assms by simp

definition vdf_checkpoint :: "hash_fn \<Rightarrow> nat \<Rightarrow> nat \<Rightarrow> bytes \<Rightarrow> nat \<Rightarrow> nat \<Rightarrow> bytes" where
  "vdf_checkpoint sha256 N s seed k i = vdf_chain no_reset sha256 N s seed (i * Suc k)"

lemma vdf_checkpoint_0 [simp]: "vdf_checkpoint sha256 N s seed k 0 = seed"
  by (simp add: vdf_checkpoint_def)

lemma length_vdf_checkpoint [simp]:
  "length seed = 32 \<Longrightarrow> length (vdf_checkpoint sha256 N s seed k i) = 32"
  by (simp add: vdf_checkpoint_def)

lemma vdf_checkpoint_Suc:
  "vdf_checkpoint sha256 N s seed k (Suc i) =
   vdf_chain no_reset sha256 N (s + i * Suc k) (vdf_checkpoint sha256 N s seed k i) (Suc k)"
  using vdf_chain_add [of no_reset sha256 N s seed "i * Suc k" "Suc k"]
  by (simp add: vdf_checkpoint_def ac_simps del: vdf_chain.simps)

lemma vdf_sha2_loop_iter:
  fixes sha256 N s seed k i
  defines "nxt \<equiv> vdf_checkpoint sha256 N s seed k (Suc i)"
  assumes "length seed = 32" "length out = 32" "length cp = 32 * c" "i \<le> c"
    and "c \<le> 2 ^ 26" "2 \<le> N \<or> (1 \<le> N \<and> 0 < k)"
    and "i = 0 \<or> take 32 (drop (32 * (i - 1)) cp) = vdf_checkpoint sha256 N s seed k i"
  shows "vdf_sha2_loop sha256 seed (int c) (int k) (int N) (Suc n) (int i)
           (be_bytes 32 (s + i * Suc k), out, cp) =
         vdf_sha2_loop sha256 seed (int c) (int k) (int N) n (int (Suc i))
           (be_bytes 32 (s + Suc i * Suc k), (if i = c then nxt else out),
            (if i = c then cp else take (32 * i) cp @ nxt @ drop (32 * i + 32) cp))"
proof -
  have nxt: "length nxt = 32" using assms(2) by (simp add: nxt_def)
  have inp: "(if int i = 0 then rd seed 0 VDF_SHA_HASH_SIZE
              else rd_int cp (int VDF_SHA_HASH_SIZE * (int i - 1)) VDF_SHA_HASH_SIZE) =
             Some (vdf_checkpoint sha256 N s seed k i)"
  proof (cases i)
    case 0
    then show ?thesis using assms(2) rd_nat [of 0 32 seed] by simp
  next
    case (Suc m)
    then show ?thesis using assms rd_32_block [of m cp] by auto
  qed
  have step: "(if int k = 0
      then sha2_checkpoint sha256 (be_bytes 32 (s + i * Suc k)) (vdf_checkpoint sha256 N s seed k i) (int N)
      else sha2_checkpoint_skip sha256 (be_bytes 32 (s + i * Suc k)) (vdf_checkpoint sha256 N s seed k i) (int k) (int N)) =
      (nxt, be_bytes 32 (s + Suc i * Suc k))"
    using checkpoint_step [of "vdf_checkpoint sha256 N s seed k i" N k sha256 "s + i * Suc k"] assms
    by (simp add: nxt_def vdf_checkpoint_Suc ac_simps del: vdf_chain.simps)
  have out: "wr out 0 nxt = Some nxt"
    using wr_nat [of 0 nxt out] assms nxt by simp
  have cp: "wr_int cp (int VDF_SHA_HASH_SIZE * int i) nxt = Some (take (32 * i) cp @ nxt @ drop (32 * i + 32) cp)" if "i < c"
    using wr_32_block [of i cp nxt] that assms nxt by simp
  show ?thesis
    by (subst vdf_sha2_loop.simps, subst inp, unfold step bind.bind_lunit Let_def prod.case)
       (use out cp assms(5) in \<open>auto simp: add.commute\<close>)
qed

lemma vdf_sha2_loop_chain:
  assumes "length seed = 32" "length out = 32" "length cp = 32 * c" "i + n = c"
    and "c \<le> 2 ^ 26" "2 \<le> N \<or> (1 \<le> N \<and> 0 < k)"
    and "i = 0 \<or> take 32 (drop (32 * (i - 1)) cp) = vdf_checkpoint sha256 N s seed k i"
  shows "vdf_sha2_loop sha256 seed (int c) (int k) (int N) (Suc n) (int i)
           (be_bytes 32 (s + i * Suc k), out, cp) =
         Some (be_bytes 32 (s + Suc c * Suc k), vdf_checkpoint sha256 N s seed k (Suc c),
               take (32 * i) cp @ concat (map (\<lambda>j. vdf_checkpoint sha256 N s seed k (Suc j)) [i..<c]))"
  using assms(2-)
proof (induction n arbitrary: i cp)
  case 0
  then show ?case
    using vdf_sha2_loop_iter [of seed out cp c i N k sha256 s 0] assms(1) by simp
next
  case (Suc n)
  let ?b = "vdf_checkpoint sha256 N s seed k (Suc i)"
  let ?cp = "take (32 * i) cp @ ?b @ drop (32 * i + 32) cp"
  have i: "i < c" using Suc.prems by simp
  have b: "length ?b = 32" using assms(1) by simp
  have "vdf_sha2_loop sha256 seed (int c) (int k) (int N) (Suc (Suc n)) (int i)
           (be_bytes 32 (s + i * Suc k), out, cp) =
        vdf_sha2_loop sha256 seed (int c) (int k) (int N) (Suc n) (int (Suc i))
           (be_bytes 32 (s + Suc i * Suc k), out, ?cp)"
    using vdf_sha2_loop_iter [of seed out cp c i N k sha256 s "Suc n"] Suc.prems assms(1) i
    by simp
  also have "\<dots> = Some (be_bytes 32 (s + Suc c * Suc k), vdf_checkpoint sha256 N s seed k (Suc c),
      take (32 * Suc i) ?cp @ concat (map (\<lambda>j. vdf_checkpoint sha256 N s seed k (Suc j)) [Suc i..<c]))"
    by (rule Suc.IH) (use Suc.prems i b in simp_all)
  also have "take (32 * Suc i) ?cp = take (32 * i) cp @ ?b"
    using Suc.prems i b by simp
  finally show ?case using i by (simp add: upt_conv_Cons)
qed


lemma vdf_sha2_inner_chain:
  assumes "length seed = 32" "length out = 32" "length cp = 32 * c"
    and "c \<le> 2 ^ 26" "2 \<le> N \<or> (1 \<le> N \<and> 0 < k)"
  shows "vdf_sha2_inner sha256 (be_bytes 32 s) seed out cp (int c) (int k) (int N) =
         Some (be_bytes 32 (s + Suc c * Suc k), vdf_checkpoint sha256 N s seed k (Suc c),
               concat (map (\<lambda>j. vdf_checkpoint sha256 N s seed k (Suc j)) [0..<c]))"
proof -
  have "nat (int c + 1) = Suc c" by simp
  then show ?thesis
    using vdf_sha2_loop_chain [OF assms(1-3), of 0 c N k sha256 s] assms(4,5)
    by (simp add: vdf_sha2_inner_def del: vdf_sha2_loop.simps)
qed

lemma vdf_sha2_chain:
  assumes "length salt = 32" "length seed = 32" "length out = 32" "length cp = 32 * c"
    and "c \<le> 2 ^ 26" "2 \<le> N \<or> (1 \<le> N \<and> 0 < k)"
  shows "vdf_sha2 sha256 salt seed out cp (int c) (int k) (int N) =
         Some (vdf_checkpoint sha256 N (be_val salt) seed k (Suc c),
               concat (map (\<lambda>j. vdf_checkpoint sha256 N (be_val salt) seed k (Suc j)) [0..<c]))"
proof -
  have "rd salt 0 32 = Some (be_bytes 32 (be_val salt))"
    using rd_nat [of 0 32 salt] assms(1) be_bytes_be_val [of salt] by simp
  then show ?thesis
    using vdf_sha2_inner_chain [OF assms(2-), of sha256 "be_val salt"] by (simp add: vdf_sha2_def)
qed

lemma debug_sha2_fold_chain:
  "debug_sha2_fold sha256 N s x n =
     (vdf_chain no_reset sha256 N s x n, rev (map (\<lambda>i. vdf_chain no_reset sha256 N s x (Suc i)) [0..<n]))"
  by (induction n) (simp_all add: Let_def no_reset_def)

section \<open>Properties\<close>

text \<open>
  \<open>long_add\<close> is addition on 256-bit big-endian numbers: for every salt and every
  non-negative \<open>int\<close> increment the buffer holds the sum modulo \<open>2^256\<close> afterwards, with the carry
  kept in an \<open>unsigned int\<close> and the early exit on a zero carry.
\<close>

theorem long_add_adds:
  assumes "length salt = 32" "0 \<le> d" "d < 2 ^ 31"
  shows "length (long_add salt d) = 32 \<and> be_val (long_add salt d) = (be_val salt + nat d) mod 2 ^ 256"
  using assms long_add_be_val [of salt d] by simp

theorem long_add_adds_witness:
  "length (long_add (replicate 32 255) 1) = 32 \<and>
   be_val (long_add (replicate 32 255) 1) = (be_val (replicate 32 255) + nat 1) mod 2 ^ 256"
  using long_add_adds [of "replicate 32 255" 1] by simp

text \<open>
  Property C27: \<open>vdf_sha2\<close> computes the VDF. With at least two iterations, or one when checkpoints
  are skipped, and at most \<open>2 ^ 26\<close> checkpoints, so that the \<open>int\<close> offsets do not overflow,
  both loop shapes stay inside their buffers and store the chain of the reference. Only the
  checkpoints that are not skipped are stored:
  stored checkpoint \<open>j\<close> is the output after \<open>(j + 1) (skip + 1)\<close> steps, \<open>out\<close> the one after
  \<open>(c + 1) (skip + 1)\<close> steps, the salt counting up by one per step.
\<close>

theorem vdf_sha2_correct:
  assumes "length salt = 32" "length seed = 32" "length out = 32" "length outCheckpoint = 32 * c"
    and "c \<le> 2 ^ 26" "2 \<le> iterations \<or> (1 \<le> iterations \<and> 0 < skip)"
  shows "vdf_sha2 sha256 salt seed out outCheckpoint (int c) (int skip) (int iterations) =
         Some (vdf_chain no_reset sha256 iterations (be_val salt) seed (Suc c * Suc skip),
               concat (map (\<lambda>j. vdf_chain no_reset sha256 iterations (be_val salt) seed (Suc j * Suc skip)) [0..<c]))"
  using vdf_sha2_chain [OF assms] by (simp only: vdf_checkpoint_def)

theorem vdf_sha2_correct_witness:
  "vdf_sha2 (\<lambda>bs. of_nat (be_val bs)) (replicate 32 1) (replicate 32 2) (replicate 32 0) (replicate 64 0) 2 1 3 =
   Some (vdf_chain no_reset (\<lambda>bs. of_nat (be_val bs)) 3 (be_val (replicate 32 1)) (replicate 32 2) (Suc 2 * Suc 1),
         concat (map (\<lambda>j. vdf_chain no_reset (\<lambda>bs. of_nat (be_val bs)) 3 (be_val (replicate 32 1))
                            (replicate 32 2) (Suc j * Suc 1)) [0..<2]))"
  using vdf_sha2_correct [of "replicate 32 1" "replicate 32 2" "replicate 32 0" "replicate 64 0" 2 3 1
      "\<lambda>bs. of_nat (be_val bs)"] by simp

text \<open>
  Property C33: the C computation agrees with the Erlang reference \<open>debug_sha2\<close> that the tests
  compare it with, when no checkpoints are skipped (\<open>skipCheckpointCount\<close> is 0), for every iteration
  count from two on and up to \<open>2 ^ 26\<close> checkpoints: the
  reference's list is the output followed by the stored checkpoints, newest first.
\<close>

theorem vdf_sha2_equals_erlang_reference:
  assumes "length salt = 32" "length seed = 32" "length out = 32" "length outCheckpoint = 32 * c"
    and "c \<le> 2 ^ 26" "2 \<le> iterations"
    and "debug_sha2_fold sha256 iterations (be_val salt) seed (Suc c) = (output, checkpoints)"
  shows "vdf_sha2 sha256 salt seed out outCheckpoint (int c) 0 (int iterations) =
         Some (output, concat (rev (tl checkpoints))) \<and> hd checkpoints = output"
  using assms vdf_sha2_chain [of salt seed out outCheckpoint c iterations 0 sha256]
  by (auto simp: debug_sha2_fold_chain vdf_checkpoint_def simp del: vdf_chain.simps)

theorem vdf_sha2_equals_erlang_reference_witness:
  "vdf_sha2 (\<lambda>bs. 7) (replicate 32 1) (replicate 32 2) (replicate 32 0) (replicate 32 0) 1 0 2 =
     Some (digest 7, concat (rev (tl [digest 7, digest 7]))) \<and> hd [digest 7, digest 7] = digest 7"
  using vdf_sha2_equals_erlang_reference [of "replicate 32 1" "replicate 32 2" "replicate 32 0"
      "replicate 32 0" 1 2 "\<lambda>_. 7" "digest 7" "[digest 7, digest 7]"]
  by (simp add: Let_def numeral_2_eq_2)

text \<open>
  Below two iterations the branch without skipped checkpoints still hashes twice, so
  for one iteration it differs from the reference and from the branch with skipped checkpoints,
  which hash once.
\<close>

theorem vdf_sha2_hashes_at_least_twice:
  assumes "length salt = 32" "length seed = 32" "length out = 32" "iterations \<le> 2"
  shows "vdf_sha2 sha256 salt seed out [] 0 0 iterations = Some (vdf_hash sha256 2 salt seed, [])"
proof -
  have "rd salt 0 32 = Some salt" "rd seed 0 32 = Some seed"
    using assms rd_nat [of 0 32 salt] rd_nat [of 0 32 seed] by simp_all
  moreover have "wr out 0 b = Some b" if "length b = 32" for b
    using that assms wr_nat [of 0 b out] by simp
  ultimately show ?thesis
    using assms by (simp add: vdf_sha2_def vdf_sha2_inner_def sha2_checkpoint_def Let_def
        sha_round_def numeral_2_eq_2)
qed

theorem vdf_sha2_hashes_at_least_twice_witness:
  "vdf_sha2 (\<lambda>bs. of_nat (length bs)) (replicate 32 1) (replicate 32 2) (replicate 32 0) [] 0 0 1 =
   Some (vdf_hash (\<lambda>bs. of_nat (length bs)) 2 (replicate 32 1) (replicate 32 2), [])"
  using vdf_sha2_hashes_at_least_twice [of "replicate 32 1" "replicate 32 2" "replicate 32 0" 1
      "\<lambda>bs. of_nat (length bs)"] by simp

end
