(* ===== verification/Vdf_Parallel.thy ===== *)
theory Vdf_Parallel
  imports Vdf
begin

text \<open>
  The parallel verification of \<open>vdf.cpp\<close> as a step relation. \<open>vdf_parallel_sha_verify\<close> and
  \<open>vdf_parallel_sha_verify_with_reset\<close> start up to \<open>maxThreadCount\<close> worker threads, verify the
  last segment on the calling thread and join the workers; a worker that finished a segment claims
  the next free one under the job's mutex. A step is one atomic action of one thread: reading
  \<open>verifyRes\<close>, computing and storing a segment (its inputs are never written, and two threads on one
  segment store the same bytes), a comparison with its store to \<open>verifyRes\<close>, a critical section.
  The relation is parametrised by the computation of a segment, so that both entry points are
  instances of it; \<open>Vdf_Verify\<close> supplies these.
\<close>

section \<open>The state\<close>

text \<open>
  A worker's position in \<open>_vdf_sha_verify_thread\<close>, with the \<open>checkpointIdx\<close> of its \<open>arg\<close>: at the
  loop head, about to compute, about to compare \<open>expdOut\<close>, before the critical section, returned.
\<close>

datatype worker = Head nat | Work nat | Compare nat bytes | Claim nat | Exited

text \<open>The calling thread: in the spawn loop, at the \<open>verifyRes\<close> test, in the final segment,
  joining, returned.\<close>

datatype caller = Spawn nat | Check | Final | FinalCompare bytes | Join | Returned bool

record vstate =
  outCheckpointSha :: bytes
  verifyRes :: bool
  in_progress :: "bool list"
  workers :: "worker list"
  caller :: caller
  freeThreadCount :: int

text \<open>The \<open>memcpy\<close> calls of one segment: each block goes to the output pointer, which advances.\<close>

fun write_outs :: "bytes \<Rightarrow> int \<Rightarrow> bytes list \<Rightarrow> bytes option" where
  "write_outs buf off [] = Some buf"
| "write_outs buf off (b # bs) = do { buf \<leftarrow> wr buf off b; write_outs buf (off + 32) bs }"

definition init_vstate :: "nat \<Rightarrow> int \<Rightarrow> bytes \<Rightarrow> vstate" where
  "init_vstate checkpointCount maxThreadCount outCheckpoint =
     \<lparr>outCheckpointSha = outCheckpoint, verifyRes = True,
      in_progress = replicate checkpointCount False, workers = [], caller = Spawn 0,
      freeThreadCount = maxThreadCount\<rparr>"

section \<open>The steps\<close>

text \<open>
  \<open>checkpointIdx*(1+skipCheckpointCount)\<close>, the argument of \<open>long_add\<close>, and the offset
  \<open>checkpointIdx*(1+skipCheckpointCount)*VDF_SHA_HASH_SIZE\<close> of a segment's output; both are computed as \<open>int\<close>.
\<close>

definition salt_offset :: "int \<Rightarrow> int \<Rightarrow> int option" where
  "salt_offset checkpointIdx skip = do { a \<leftarrow> c_int (1 + skip); c_int (checkpointIdx * a) }"

definition out_offset :: "int \<Rightarrow> int \<Rightarrow> int option" where
  "out_offset checkpointIdx skip = do { b \<leftarrow> salt_offset checkpointIdx skip; c_int (b * int VDF_SHA_HASH_SIZE) }"

text \<open>
  \<open>work i\<close> are the blocks that segment \<open>i\<close> computes, \<open>expect i\<close> the hash it is compared with;
  segment \<open>n\<close> (\<open>checkpointCount\<close>) is the final one, \<open>k\<close> is \<open>skipCheckpointCount\<close>.
\<close>

inductive vdf_step :: "(nat \<Rightarrow> bytes list option) \<Rightarrow> (nat \<Rightarrow> bytes option) \<Rightarrow> nat \<Rightarrow> nat
    \<Rightarrow> vstate \<Rightarrow> vstate \<Rightarrow> bool"
  for work :: "nat \<Rightarrow> bytes list option" and expect :: "nat \<Rightarrow> bytes option" and n k :: nat where
  head_stop: "w < length (workers s) \<Longrightarrow> workers s ! w = Head i \<Longrightarrow> \<not> verifyRes s \<Longrightarrow>
     vdf_step work expect n k s (s\<lparr>workers := (workers s)[w := Exited]\<rparr>)"
| head_go: "w < length (workers s) \<Longrightarrow> workers s ! w = Head i \<Longrightarrow> verifyRes s \<Longrightarrow>
     vdf_step work expect n k s (s\<lparr>workers := (workers s)[w := Work i]\<rparr>)"
| work: "w < length (workers s) \<Longrightarrow> workers s ! w = Work i \<Longrightarrow> work i = Some outs \<Longrightarrow> outs \<noteq> [] \<Longrightarrow>
     out_offset (int i) (int k) = Some off \<Longrightarrow> write_outs (outCheckpointSha s) off outs = Some buf \<Longrightarrow>
     vdf_step work expect n k s
       (s\<lparr>outCheckpointSha := buf, workers := (workers s)[w := Compare i (last outs)]\<rparr>)"
| compare_differs: "w < length (workers s) \<Longrightarrow> workers s ! w = Compare i expdOut \<Longrightarrow>
     expect i = Some out \<Longrightarrow> expdOut \<noteq> out \<Longrightarrow>
     vdf_step work expect n k s (s\<lparr>verifyRes := False, workers := (workers s)[w := Exited]\<rparr>)"
| compare_equal: "w < length (workers s) \<Longrightarrow> workers s ! w = Compare i expdOut \<Longrightarrow>
     expect i = Some out \<Longrightarrow> expdOut = out \<Longrightarrow>
     vdf_step work expect n k s (s\<lparr>workers := (workers s)[w := Claim i]\<rparr>)"
| claim_found: "w < length (workers s) \<Longrightarrow> workers s ! w = Claim i \<Longrightarrow>
     find (\<lambda>j. \<not> in_progress s ! j) [Suc i..<n] = Some j \<Longrightarrow>
     vdf_step work expect n k s
       (s\<lparr>in_progress := (in_progress s)[j := True], workers := (workers s)[w := Head j]\<rparr>)"
| claim_none: "w < length (workers s) \<Longrightarrow> workers s ! w = Claim i \<Longrightarrow>
     find (\<lambda>j. \<not> in_progress s ! j) [Suc i..<n] = None \<Longrightarrow>
     vdf_step work expect n k s (s\<lparr>workers := (workers s)[w := Exited]\<rparr>)"
| spawn: "caller s = Spawn i \<Longrightarrow> i < n \<Longrightarrow> 0 < freeThreadCount s \<Longrightarrow>
     vdf_step work expect n k s
       (s\<lparr>in_progress := (in_progress s)[i := True], workers := workers s @ [Head i],
          freeThreadCount := freeThreadCount s - 1,
          caller := (if freeThreadCount s - 1 = 0 then Check else Spawn (Suc i))\<rparr>)"
| spawn_none: "caller s = Spawn i \<Longrightarrow> i < n \<Longrightarrow> \<not> 0 < freeThreadCount s \<Longrightarrow>
     vdf_step work expect n k s
       (s\<lparr>caller := (if freeThreadCount s = 0 then Check else Spawn (Suc i))\<rparr>)"
| spawn_end: "caller s = Spawn i \<Longrightarrow> \<not> i < n \<Longrightarrow> vdf_step work expect n k s (s\<lparr>caller := Check\<rparr>)"
| check_skip: "caller s = Check \<Longrightarrow> \<not> verifyRes s \<Longrightarrow>
     vdf_step work expect n k s (s\<lparr>caller := Join\<rparr>)"
| check_go: "caller s = Check \<Longrightarrow> verifyRes s \<Longrightarrow>
     vdf_step work expect n k s (s\<lparr>caller := Final\<rparr>)"
| final: "caller s = Final \<Longrightarrow> work n = Some outs \<Longrightarrow> outs \<noteq> [] \<Longrightarrow>
     out_offset (int n) (int k) = Some off \<Longrightarrow> write_outs (outCheckpointSha s) off outs = Some buf \<Longrightarrow>
     vdf_step work expect n k s (s\<lparr>outCheckpointSha := buf, caller := FinalCompare (last outs)\<rparr>)"
| final_differs: "caller s = FinalCompare expdOut \<Longrightarrow> expect n = Some inRes \<Longrightarrow> expdOut \<noteq> inRes \<Longrightarrow>
     vdf_step work expect n k s (s\<lparr>verifyRes := False, caller := Join\<rparr>)"
| final_equal: "caller s = FinalCompare expdOut \<Longrightarrow> expect n = Some inRes \<Longrightarrow> expdOut = inRes \<Longrightarrow>
     vdf_step work expect n k s (s\<lparr>caller := Join\<rparr>)"
| join: "caller s = Join \<Longrightarrow> list_all (\<lambda>w. w = Exited) (workers s) \<Longrightarrow>
     vdf_step work expect n k s (s\<lparr>caller := Returned (verifyRes s)\<rparr>)"

text \<open>Every run, under every schedule, reaches a state of \<open>Q\<close> after finitely many steps.\<close>

inductive all_runs :: "('s \<Rightarrow> 's \<Rightarrow> bool) \<Rightarrow> ('s \<Rightarrow> bool) \<Rightarrow> 's \<Rightarrow> bool"
  for stp :: "'s \<Rightarrow> 's \<Rightarrow> bool" and Q :: "'s \<Rightarrow> bool" where
  arrived: "Q s \<Longrightarrow> all_runs stp Q s"
| onward: "\<exists>t. stp s t \<Longrightarrow> (\<And>t. stp s t \<Longrightarrow> all_runs stp Q t) \<Longrightarrow> all_runs stp Q s"

lemma all_runs_by_measure:
  assumes "I s"
    and "\<And>s. I s \<Longrightarrow> \<not> Q s \<Longrightarrow> \<exists>t. stp s t"
    and "\<And>s t. I s \<Longrightarrow> stp s t \<Longrightarrow> I t \<and> (m t :: nat) < m s"
  shows "all_runs stp Q s"
  using assms(1)
proof (induction "m s" arbitrary: s rule: less_induct)
  case less
  show ?case
  proof (cases "Q s")
    case True
    then show ?thesis by (rule all_runs.arrived)
  next
    case False
    show ?thesis
    proof (rule all_runs.onward)
      show "\<exists>t. stp s t" using assms(2) less.prems False by blast
      show "all_runs stp Q t" if "stp s t" for t
        using that less assms(3) by blast
    qed
  qed
qed

section \<open>Segments of the output buffer\<close>

definition segment :: "nat \<Rightarrow> nat \<Rightarrow> bytes \<Rightarrow> bytes" where
  "segment k i buf = take (Suc k * 32) (drop (i * Suc k * 32) buf)"

lemma write_outs_concat:
  assumes "\<And>b. b \<in> set bs \<Longrightarrow> length b = 32" "off + length bs * 32 \<le> length buf"
  shows "write_outs buf (int off) bs =
         Some (take off buf @ concat bs @ drop (off + length bs * 32) buf)"
  using assms
proof (induction bs arbitrary: off buf)
  case (Cons b bs)
  let ?buf = "take off buf @ b @ drop (off + 32) buf"
  have b: "length b = 32" and len: "length ?buf = length buf" using Cons.prems by simp_all
  have "write_outs buf (int off) (b # bs) = write_outs ?buf (int (off + 32)) bs"
    using Cons.prems b wr_nat [of off b buf] by (simp add: ac_simps)
  also have "\<dots> = Some (take (off + 32) ?buf @ concat bs @ drop (off + 32 + length bs * 32) ?buf)"
    using Cons.prems len by (intro Cons.IH) simp_all
  also have "take (off + 32) ?buf = take off buf @ b" using Cons.prems b by simp
  also have "drop (off + 32 + length bs * 32) ?buf = drop (off + length (b # bs) * 32) buf"
    using Cons.prems b by (simp add: ac_simps)
  finally show ?case by simp
qed simp

lemma length_concat_32:
  "(\<And>b. b \<in> set bs \<Longrightarrow> length b = 32) \<Longrightarrow> length (concat bs) = length bs * 32"
  by (induction bs) auto

lemma segment_write:
  assumes "length c = Suc k * 32" "Suc i * Suc k * 32 \<le> length buf"
    and "buf' = take (i * Suc k * 32) buf @ c @ drop (i * Suc k * 32 + Suc k * 32) buf"
  shows "segment k i buf' = c" "length buf' = length buf"
    and "j \<noteq> i \<Longrightarrow> segment k j buf' = segment k j buf"
proof -
  have le: "i * Suc k * 32 + Suc k * 32 \<le> length buf" using assms(2) by simp
  have w: "wr buf (int (i * Suc k * 32)) c = Some buf'"
    using wr_nat [of "i * Suc k * 32" c buf] le assms by simp
  show "length buf' = length buf" using w by (rule wr_Some_length)
  show "segment k i buf' = c"
    using assms(1) le unfolding segment_def assms(3) by (simp add: min_absorb2)
  show "segment k j buf' = segment k j buf" if "j \<noteq> i"
  proof -
    have "Suc j \<le> i \<or> Suc i \<le> j" using that by linarith
    then have "Suc j * (Suc k * 32) \<le> i * (Suc k * 32) \<or> Suc i * (Suc k * 32) \<le> j * (Suc k * 32)"
      using mult_le_mono1 by blast
    then have d: "j * Suc k * 32 + Suc k * 32 \<le> i * Suc k * 32 \<or>
                  i * Suc k * 32 + Suc k * 32 \<le> j * Suc k * 32"
      by (simp add: algebra_simps)
    show ?thesis
    proof (rule nth_equalityI)
      show "length (segment k j buf') = length (segment k j buf)"
        using \<open>length buf' = length buf\<close> by (simp add: segment_def)
    next
      fix p assume "p < length (segment k j buf')"
      then have p: "p < Suc k * 32" "j * Suc k * 32 + p < length buf"
        using \<open>length buf' = length buf\<close> by (auto simp: segment_def)
      have "buf' ! (j * Suc k * 32 + p) = buf ! (j * Suc k * 32 + p)"
      proof (cases "j * Suc k * 32 + p < i * Suc k * 32")
        case True
        then show ?thesis using le by (simp add: assms(3) nth_append)
      next
        case False
        then have "i * Suc k * 32 + Suc k * 32 \<le> j * Suc k * 32 + p" using d p by linarith
        then obtain q where "j * Suc k * 32 + p = i * Suc k * 32 + Suc k * 32 + q"
          using le_iff_add by blast
        then show ?thesis using le assms(1)
          by (simp add: assms(3) nth_append del: mult_Suc_right mult_Suc)
      qed
      then show "segment k j buf' ! p = segment k j buf ! p"
        using p \<open>length buf' = length buf\<close> by (simp add: segment_def del: mult_Suc_right mult_Suc)
    qed
  qed
qed


section \<open>The contract of a segment computation, and the invariant\<close>

fun holds :: "worker \<Rightarrow> nat \<Rightarrow> bool" where
  "holds (Head i) j = (i = j)"
| "holds (Work i) j = (i = j)"
| "holds (Compare i x) j = (i = j)"
| "holds _ j = False"

fun worker_weight :: "worker \<Rightarrow> nat" where
  "worker_weight (Head i) = 5"
| "worker_weight (Work i) = 4"
| "worker_weight (Compare i x) = 3"
| "worker_weight (Claim i) = 2"
| "worker_weight Exited = 0"

fun caller_weight :: "nat \<Rightarrow> caller \<Rightarrow> nat" where
  "caller_weight n (Spawn i) = 10 * (n - i) + 10"
| "caller_weight n Check = 4"
| "caller_weight n Final = 3"
| "caller_weight n (FinalCompare x) = 2"
| "caller_weight n Join = 1"
| "caller_weight n (Returned b) = 0"

definition run_weight :: "nat \<Rightarrow> vstate \<Rightarrow> nat" where
  "run_weight n s = 10 * length (filter Not (in_progress s)) +
     sum_list (map worker_weight (workers s)) + caller_weight n (caller s)"

locale verify_work =
  fixes work :: "nat \<Rightarrow> bytes list option" and expect :: "nat \<Rightarrow> bytes option" and n k :: nat
    and outs :: "nat \<Rightarrow> bytes list" and claimed :: "nat \<Rightarrow> bytes" and wf :: "nat \<Rightarrow> nat \<Rightarrow> bool"
  assumes work_defined: "wf n k \<Longrightarrow> i \<le> n \<Longrightarrow> work i = Some (outs i)"
    and expect_defined: "wf n k \<Longrightarrow> i \<le> n \<Longrightarrow> expect i = Some (claimed i)"
    and length_outs: "wf n k \<Longrightarrow> i \<le> n \<Longrightarrow> length (outs i) = Suc k"
    and offset_defined: "wf n k \<Longrightarrow> i \<le> n \<Longrightarrow> out_offset (int i) (int k) = Some (int (i * Suc k * 32))"
    and blocks_32: "wf n k \<Longrightarrow> i \<le> n \<Longrightarrow> b \<in> set (outs i) \<Longrightarrow> length b = 32"
begin

definition matches :: "nat \<Rightarrow> bool" where
  "matches i \<longleftrightarrow> last (outs i) = claimed i"

definition written :: "vstate \<Rightarrow> nat \<Rightarrow> bool" where
  "written s i \<longleftrightarrow> segment k i (outCheckpointSha s) = concat (outs i)"

fun worker_inv :: "nat \<Rightarrow> vstate \<Rightarrow> worker \<Rightarrow> bool" where
  "worker_inv p s (Head i) = (i < p)"
| "worker_inv p s (Work i) = (i < p)"
| "worker_inv p s (Compare i x) = (i < p \<and> x = last (outs i) \<and> written s i)"
| "worker_inv p s (Claim i) = (i < p \<and> matches i \<and> written s i)"
| "worker_inv p s Exited = (verifyRes s \<longrightarrow> p = n)"

fun caller_inv :: "nat \<Rightarrow> vstate \<Rightarrow> caller \<Rightarrow> bool" where
  "caller_inv p s (Spawn i) = (i \<le> p \<and> 0 < freeThreadCount s \<and> (i = 0 \<or> workers s \<noteq> []))"
| "caller_inv p s Check = (n = 0 \<or> workers s \<noteq> [])"
| "caller_inv p s Final = (n = 0 \<or> workers s \<noteq> [])"
| "caller_inv p s (FinalCompare x) =
     ((n = 0 \<or> workers s \<noteq> []) \<and> x = last (outs n) \<and> written s n)"
| "caller_inv p s Join =
     ((n = 0 \<or> workers s \<noteq> []) \<and> (verifyRes s \<longrightarrow> matches n \<and> written s n))"
| "caller_inv p s (Returned b) =
     ((n = 0 \<or> workers s \<noteq> []) \<and> (verifyRes s \<longrightarrow> matches n \<and> written s n) \<and>
      b = verifyRes s \<and> list_all (\<lambda>w. w = Exited) (workers s))"

text \<open>\<open>wf n k\<close>: the job's buffers have the sizes the contract asks for. \<open>p\<close> segments are claimed, always the first \<open>p\<close>; a claimed segment is verified or held.\<close>

definition inv :: "nat \<Rightarrow> vstate \<Rightarrow> bool" where
  "inv p s \<longleftrightarrow>
     wf n k \<and> p \<le> n \<and> in_progress s = replicate p True @ replicate (n - p) False \<and>
     length (outCheckpointSha s) = Suc n * Suc k * 32 \<and>
     (\<forall>w < length (workers s). worker_inv p s (workers s ! w)) \<and>
     (verifyRes s \<longrightarrow> (\<forall>i < p. (matches i \<and> written s i) \<or>
        (\<exists>w < length (workers s). holds (workers s ! w) i))) \<and>
     (\<not> verifyRes s \<longrightarrow> (\<exists>i \<le> n. \<not> matches i)) \<and>
     caller_inv p s (caller s)"

lemma inv_init: "wf n k \<Longrightarrow> 0 < maxThreadCount \<Longrightarrow> length buf = Suc n * Suc k * 32 \<Longrightarrow>
    inv 0 (init_vstate n maxThreadCount buf)"
  by (simp add: inv_def init_vstate_def)

lemma inv_wf: "inv p s \<Longrightarrow> wf n k"
  by (simp add: inv_def)

lemmas inv_work = work_defined [OF inv_wf]
  and inv_expect = expect_defined [OF inv_wf]
  and inv_length_outs = length_outs [OF inv_wf]
  and inv_offset = offset_defined [OF inv_wf]
  and inv_blocks = blocks_32 [OF inv_wf]

lemma inv_outs_nonempty: "inv p s \<Longrightarrow> i \<le> n \<Longrightarrow> outs i \<noteq> []"
  using inv_length_outs [of p s i] by auto

lemma written_frame [simp]:
  "written (s\<lparr>in_progress := ip\<rparr>) i = written s i" "written (s\<lparr>workers := ws\<rparr>) i = written s i"
  "written (s\<lparr>caller := c\<rparr>) i = written s i" "written (s\<lparr>freeThreadCount := f\<rparr>) i = written s i"
  "written (s\<lparr>verifyRes := v\<rparr>) i = written s i"
  by (simp_all add: written_def)

lemma worker_inv_frame [simp]:
  "worker_inv p (s\<lparr>in_progress := ip\<rparr>) w = worker_inv p s w"
  "worker_inv p (s\<lparr>workers := ws\<rparr>) w = worker_inv p s w"
  "worker_inv p (s\<lparr>caller := c\<rparr>) w = worker_inv p s w"
  "worker_inv p (s\<lparr>freeThreadCount := f\<rparr>) w = worker_inv p s w"
  by (cases w; simp)+

lemma caller_inv_frame [simp]:
  "caller_inv p (s\<lparr>in_progress := ip\<rparr>) d = caller_inv p s d"
  "caller_inv p (s\<lparr>caller := c\<rparr>) d = caller_inv p s d"
  by (cases d; simp)+

lemma inv_set_worker:
  assumes "inv p s" "w < length (workers s)" "workers s ! w \<noteq> Exited" "worker_inv p s x"
    and "\<And>i. verifyRes s \<Longrightarrow> holds (workers s ! w) i \<Longrightarrow> holds x i \<or> matches i \<and> written s i"
  shows "inv p (s\<lparr>workers := (workers s)[w := x]\<rparr>)"
proof -
  let ?s = "s\<lparr>workers := (workers s)[w := x]\<rparr>"
  have "\<not> list_all (\<lambda>w. w = Exited) (workers s)"
    using assms(2,3) by (auto simp: list_all_length)
  then have "caller_inv p ?s (caller ?s)"
    using assms(1,2) by (cases "caller s") (auto simp: inv_def)
  moreover have "(matches i \<and> written s i) \<or> (\<exists>v < length (workers ?s). holds (workers ?s ! v) i)"
    if "verifyRes s" "i < p" for i
  proof -
    from that assms(1) consider "matches i \<and> written s i"
      | v where "v < length (workers s)" "holds (workers s ! v) i" by (auto simp: inv_def)
    then show ?thesis
    proof cases
      case (2 v)
      show ?thesis
      proof (cases "v = w")
        case True
        then show ?thesis using 2 that(1) assms(2) assms(5) [of i]
          by (metis length_list_update nth_list_update_eq vstate.select_convs(4)
              vstate.surjective vstate.update_convs(4))
      next
        case False
        then show ?thesis using 2
          by (metis length_list_update nth_list_update_neq vstate.select_convs(4)
              vstate.surjective vstate.update_convs(4))
      qed
    qed simp
  qed
  moreover have "\<forall>v < length (workers ?s). worker_inv p ?s (workers ?s ! v)"
    using assms(1,2,4) by (auto simp: inv_def nth_list_update)
  ultimately show ?thesis using assms(1) by (auto simp: inv_def)
qed

lemma inv_write:
  assumes "inv p s" "i \<le> n" "write_outs (outCheckpointSha s) (int (i * Suc k * 32)) (outs i) = Some buf"
  shows "inv p (s\<lparr>outCheckpointSha := buf\<rparr>)" "segment k i buf = concat (outs i)"
proof -
  have len: "length (outCheckpointSha s) = Suc n * Suc k * 32" using assms(1) by (simp add: inv_def)
  have c: "length (concat (outs i)) = Suc k * 32"
    using assms(2) length_concat_32 [of "outs i"] inv_blocks [OF assms(1)] inv_length_outs [OF assms(1)] by simp
  have le: "Suc i * Suc k * 32 \<le> length (outCheckpointSha s)"
    unfolding len using assms(2) by (intro mult_le_mono1) simp
  have "i * Suc k * 32 + length (outs i) * 32 \<le> length (outCheckpointSha s)"
    using le inv_length_outs [OF assms(1) assms(2)] by simp
  with write_outs_concat [of "outs i" "i * Suc k * 32" "outCheckpointSha s"] assms
  have buf: "buf = take (i * Suc k * 32) (outCheckpointSha s) @ concat (outs i) @
      drop (i * Suc k * 32 + Suc k * 32) (outCheckpointSha s)"
    using inv_blocks [OF assms(1)] inv_length_outs [OF assms(1) assms(2)] by simp
  note seg = segment_write [OF c le buf]
  show "segment k i buf = concat (outs i)" by (rule seg(1))
  let ?s = "s\<lparr>outCheckpointSha := buf\<rparr>"
  have w: "written s j \<Longrightarrow> written ?s j" for j
    using seg(1,3) by (cases "j = i") (simp_all add: written_def)
  have wi: "worker_inv p s y \<Longrightarrow> worker_inv p ?s y" for y
    by (cases y) (auto intro: w)
  have "caller_inv p ?s (caller ?s)"
    using assms(1) by (cases "caller s") (auto simp: inv_def intro: w)
  then show "inv p ?s" using assms(1) wi w seg(2) by (auto simp: inv_def)
qed

lemma inv_fail:
  assumes "inv p s" "i \<le> n" "\<not> matches i" "\<forall>b. caller s \<noteq> Returned b"
  shows "inv p (s\<lparr>verifyRes := False\<rparr>)"
proof -
  let ?s = "s\<lparr>verifyRes := False\<rparr>"
  have "worker_inv p s y \<Longrightarrow> worker_inv p ?s y" for y
    by (cases y) (auto simp: written_def)
  moreover have "caller_inv p ?s (caller ?s)"
    using assms(1,4) by (cases "caller s") (auto simp: inv_def written_def)
  ultimately show ?thesis using assms by (auto simp: inv_def)
qed

lemma inv_extend_prefix:
  assumes "inv p s" "p < n" "verifyRes s \<longrightarrow> (\<exists>w < length ws. holds (ws ! w) p)"
    and "\<And>w. w < length ws \<Longrightarrow> worker_inv (Suc p) s (ws ! w)"
    and "\<And>i. i < p \<Longrightarrow> verifyRes s \<Longrightarrow> (matches i \<and> written s i) \<or> (\<exists>w < length ws. holds (ws ! w) i)"
    and "caller_inv (Suc p) (s\<lparr>workers := ws, freeThreadCount := f\<rparr>) c"
  shows "inv (Suc p) (s\<lparr>in_progress := (in_progress s)[p := True], workers := ws,
           freeThreadCount := f, caller := c\<rparr>)"
proof -
  let ?s = "s\<lparr>in_progress := (in_progress s)[p := True], workers := ws,
           freeThreadCount := f, caller := c\<rparr>"
  have ip: "(in_progress s)[p := True] = replicate (Suc p) True @ replicate (n - Suc p) False"
  proof -
    have "replicate (n - p) False = False # replicate (n - Suc p) False"
      using assms(2) by (metis Suc_diff_Suc replicate_Suc)
    then show ?thesis using assms(1) by (simp add: inv_def list_update_append replicate_append_same)
  qed
  have "caller_inv (Suc p) ?s c = caller_inv (Suc p) (s\<lparr>workers := ws, freeThreadCount := f\<rparr>) c"
    by (cases c) simp_all
  then show ?thesis
    using assms ip by (auto simp: inv_def less_Suc_eq)
qed

lemma find_next_claim:
  assumes "inv p s" "i < p"
  shows "find (\<lambda>j. \<not> in_progress s ! j) [Suc i..<n] = (if p < n then Some p else None)"
proof -
  have ip: "in_progress s ! j \<longleftrightarrow> j < p" if "j < n" for j
    using assms(1) that by (auto simp: inv_def nth_append)
  show ?thesis
  proof (cases "p < n")
    case True
    have "[Suc i..<n] = [Suc i..<p] @ [p..<n]"
      using assms(2) True upt_add_eq_append [of "Suc i" p "n - p"] by simp
    moreover have "find (\<lambda>j. \<not> in_progress s ! j) [Suc i..<p] = None"
      using ip True by (auto simp: find_None_iff)
    moreover have "find P (xs @ ys) = find P ys" if "find P xs = None" for P and xs ys :: "nat list"
      using that by (induction xs) (auto split: if_splits)
    ultimately show ?thesis using True ip [of p] by (simp add: upt_conv_Cons)
  next
    case False
    then show ?thesis using ip by (auto simp: find_None_iff)
  qed
qed

lemma worker_inv_mono:
  "worker_inv p s x \<Longrightarrow> p < n \<Longrightarrow> worker_inv (Suc p) s x"
  by (cases x) auto

lemma inv_claim_step:
  assumes "inv p s" "p < n" "w < length (workers s)" "workers s ! w = Claim i"
  shows "inv (Suc p) (s\<lparr>in_progress := (in_progress s)[p := True], workers := (workers s)[w := Head p]\<rparr>)"
proof -
  let ?ws = "(workers s)[w := Head p]"
  have cl: "\<not> list_all (\<lambda>w. w = Exited) (workers s)" using assms(3,4) by (auto simp: list_all_length)
  have "inv (Suc p) (s\<lparr>in_progress := (in_progress s)[p := True], workers := ?ws,
           freeThreadCount := freeThreadCount s, caller := caller s\<rparr>)"
  proof (rule inv_extend_prefix [OF assms(1,2)])
    show "verifyRes s \<longrightarrow> (\<exists>v < length ?ws. holds (?ws ! v) p)"
      using assms(3) by (auto intro!: exI [of _ w])
    show "worker_inv (Suc p) s (?ws ! v)" if "v < length ?ws" for v
      using that assms worker_inv_mono [of p s] by (auto simp: inv_def nth_list_update)
    show "caller_inv (Suc p) (s\<lparr>workers := ?ws, freeThreadCount := freeThreadCount s\<rparr>) (caller s)"
      using assms(1) cl by (cases "caller s") (auto simp: inv_def written_def)
    fix j assume "j < p" "verifyRes s"
    then consider "matches j \<and> written s j" | v where "v < length (workers s)" "holds (workers s ! v) j"
      using assms(1) by (auto simp: inv_def)
    then show "(matches j \<and> written s j) \<or> (\<exists>v < length ?ws. holds (?ws ! v) j)"
    proof cases
      case (2 v)
      then have "v \<noteq> w" using assms(4) by auto
      then show ?thesis using 2 by (auto intro!: exI [of _ v])
    qed simp
  qed
  then show ?thesis by simp
qed

lemma inv_spawn_step:
  assumes "inv p s" "caller s = Spawn i" "i < n" "0 < freeThreadCount s"
  shows "\<exists>q. inv q (s\<lparr>in_progress := (in_progress s)[i := True], workers := workers s @ [Head i],
          freeThreadCount := freeThreadCount s - 1,
          caller := (if freeThreadCount s - 1 = 0 then Check else Spawn (Suc i))\<rparr>)"
proof -
  let ?ws = "workers s @ [Head i]"
  let ?c = "if freeThreadCount s - 1 = 0 then Check else Spawn (Suc i)"
  have ip: "i \<le> p" using assms(1,2) by (auto simp: inv_def)
  have ci: "caller_inv q (s\<lparr>workers := ?ws, freeThreadCount := freeThreadCount s - 1\<rparr>) ?c" if "Suc i \<le> q" for q
    using that assms by auto
  have held: "(matches j \<and> written s j) \<or> (\<exists>v < length ?ws. holds (?ws ! v) j)"
    if "j < p" "verifyRes s" for j
  proof -
    from that assms(1) consider "matches j \<and> written s j"
      | v where "v < length (workers s)" "holds (workers s ! v) j" by (auto simp: inv_def)
    then show ?thesis
    proof cases
      case (2 v)
      then show ?thesis by (auto simp: nth_append intro!: exI [of _ v])
    qed simp
  qed
  show ?thesis
  proof (cases "i = p")
    case True
    have "inv (Suc p) (s\<lparr>in_progress := (in_progress s)[p := True], workers := ?ws,
           freeThreadCount := freeThreadCount s - 1, caller := ?c\<rparr>)"
    proof (rule inv_extend_prefix [OF assms(1)])
      show "p < n" using True assms(3) by simp
      show "verifyRes s \<longrightarrow> (\<exists>v < length ?ws. holds (?ws ! v) p)"
        using True by (auto intro!: exI [of _ "length (workers s)"])
      show "worker_inv (Suc p) s (?ws ! v)" if "v < length ?ws" for v
        using that assms(1) worker_inv_mono [of p s] True assms(3)
        by (auto simp: inv_def nth_append less_Suc_eq)
    qed (use held ci True in auto)
    then show ?thesis using True by blast
  next
    case False
    with ip have lt: "i < p" by simp
    have same: "(in_progress s)[i := True] = in_progress s"
      using assms(1) lt by (intro list_update_same_conv [THEN iffD2]) (auto simp: inv_def nth_append)
    let ?s = "s\<lparr>workers := ?ws, freeThreadCount := freeThreadCount s - 1, caller := ?c\<rparr>"
    have "caller_inv p ?s ?c" using ci [of p] lt by auto
    then have "inv p ?s"
      using assms(1) held lt by (auto simp: inv_def nth_append less_Suc_eq)
    then show ?thesis using same by (metis vstate.surjective vstate.update_convs(3) vstate.update_convs(4) vstate.update_convs(5) vstate.update_convs(6))
  qed
qed

lemma inv_worker:
  "inv p s \<Longrightarrow> w < length (workers s) \<Longrightarrow> worker_inv p s (workers s ! w)"
  by (simp add: inv_def)

lemma inv_caller: "inv p s \<Longrightarrow> caller_inv p s (caller s)"
  by (simp add: inv_def)

lemma inv_set_caller:
  "inv p s \<Longrightarrow> caller_inv p s c \<Longrightarrow> inv p (s\<lparr>caller := c\<rparr>)"
  by (simp add: inv_def)

lemma inv_claimed_le: "inv p s \<Longrightarrow> i < p \<Longrightarrow> i \<le> n"
  by (simp add: inv_def)

lemma busy_not_returned:
  assumes "inv p s" "w < length (workers s)" "workers s ! w \<noteq> Exited"
  shows "\<forall>b. caller s \<noteq> Returned b"
  using inv_caller [OF assms(1)] assms(2,3) by (auto simp: list_all_length)

lemma inv_step:
  assumes "vdf_step work expect n k s t" "inv p s"
  shows "\<exists>q. inv q t"
  using assms
proof (cases rule: vdf_step.cases)
  case (work w i os off buf)
  have i: "i < p" using inv_worker [OF assms(2) work(2)] work(3) by simp
  then have le: "i \<le> n" by (rule inv_claimed_le [OF assms(2)])
  then have os: "os = outs i" using work(4) inv_work [OF assms(2)] by simp
  have off: "off = int (i * Suc k * 32)" using work(6) inv_offset [OF assms(2) le] by simp
  note w = inv_write [OF assms(2) le work(7) [unfolded os off]]
  have "inv p ((s\<lparr>outCheckpointSha := buf\<rparr>)\<lparr>workers := (workers s)[w := Compare i (last os)]\<rparr>)"
    using inv_set_worker [OF w(1), of w "Compare i (last os)"] work w(2) i os
    by (simp add: written_def)
  then show ?thesis using work(1) by auto
next
  case (compare_differs w i x out)
  have i: "i < p" "x = last (outs i)" using inv_worker [OF assms(2) compare_differs(2)] compare_differs(3) by simp_all
  then have le: "i \<le> n" by (metis inv_claimed_le assms(2))
  then have "\<not> matches i" using compare_differs(4,5) i inv_expect [OF assms(2)] by (simp add: matches_def)
  then have "inv p (s\<lparr>verifyRes := False\<rparr>)"
    using inv_fail [OF assms(2) le] busy_not_returned [OF assms(2) compare_differs(2)] compare_differs(3) by simp
  then have "inv p ((s\<lparr>verifyRes := False\<rparr>)\<lparr>workers := (workers s)[w := Exited]\<rparr>)"
    using inv_set_worker [of p "s\<lparr>verifyRes := False\<rparr>" w Exited] compare_differs by simp
  then show ?thesis using compare_differs(1) by auto
next
  case (compare_equal w i x out)
  have i: "i < p" "x = last (outs i)" "written s i"
    using inv_worker [OF assms(2) compare_equal(2)] compare_equal(3) by simp_all
  then have "matches i"
    using compare_equal(4,5) inv_claimed_le [OF assms(2) i(1)] inv_expect [OF assms(2)] by (simp add: matches_def)
  then show ?thesis
    using inv_set_worker [OF assms(2) compare_equal(2), of "Claim i"] compare_equal i by auto
next
  case (claim_found w i j)
  have i: "i < p" using inv_worker [OF assms(2) claim_found(2)] claim_found(3) by simp
  then have "p < n" "j = p"
    using find_next_claim [OF assms(2) i] claim_found(4) by (auto split: if_splits)
  then show ?thesis
    using inv_claim_step [OF assms(2) _ claim_found(2,3)] claim_found(1) by auto
next
  case (claim_none w i)
  have i: "i < p" using inv_worker [OF assms(2) claim_none(2)] claim_none(3) by simp
  then have "p = n"
    using find_next_claim [OF assms(2) i] claim_none(4) assms(2) by (auto simp: inv_def split: if_splits)
  then show ?thesis
    using inv_set_worker [OF assms(2) claim_none(2), of Exited] claim_none by auto
next
  case (spawn i)
  then show ?thesis using inv_spawn_step [OF assms(2) spawn(2-4)] by auto
next
  case (final os off buf)
  then have os: "os = outs n" using inv_work [OF assms(2)] by simp
  have off: "off = int (n * Suc k * 32)" using final(5) inv_offset [OF assms(2) order_refl] by simp
  note w = inv_write [OF assms(2) order_refl final(6) [unfolded os off]]
  have "inv p ((s\<lparr>outCheckpointSha := buf\<rparr>)\<lparr>caller := FinalCompare (last os)\<rparr>)"
    using inv_set_caller [OF w(1)] inv_caller [OF assms(2)] final(2) w(2) os by (simp add: written_def)
  then show ?thesis using final(1) by auto
next
  case (final_differs x inRes)
  have "\<not> matches n" using inv_caller [OF assms(2)] final_differs inv_expect [OF assms(2)] by (simp add: matches_def)
  then have "inv p (s\<lparr>verifyRes := False\<rparr>)" using inv_fail [OF assms(2), of n] final_differs(2) by simp
  from inv_set_caller [OF this, of Join] show ?thesis
    using final_differs inv_caller [OF assms(2)] by auto
next
  case (final_equal x inRes)
  then show ?thesis
    using inv_set_caller [OF assms(2), of Join] inv_caller [OF assms(2)] inv_expect [OF assms(2), of n]
    by (auto simp: matches_def)
next
  case (head_stop w i)
  then show ?thesis using inv_set_worker [OF assms(2) head_stop(2), of Exited] by auto
next
  case (head_go w i)
  then show ?thesis
    using inv_set_worker [OF assms(2) head_go(2), of "Work i"] inv_worker [OF assms(2) head_go(2)] by auto
next
  case (spawn_none i)
  then show ?thesis using inv_caller [OF assms(2)] by simp
next
  case (spawn_end i)
  then show ?thesis
    using inv_set_caller [OF assms(2), of Check] inv_caller [OF assms(2)] by auto
next
  case check_skip
  then show ?thesis
    using inv_set_caller [OF assms(2), of Join] inv_caller [OF assms(2)] by auto
next
  case check_go
  then show ?thesis
    using inv_set_caller [OF assms(2), of Final] inv_caller [OF assms(2)] by auto
next
  case join
  then show ?thesis
    using inv_set_caller [OF assms(2), of "Returned (verifyRes s)"] inv_caller [OF assms(2)] by auto
qed

text \<open>No state is stuck: some thread can move until the caller has returned.\<close>

lemma worker_can_step:
  assumes "inv p s" "w < length (workers s)" "workers s ! w \<noteq> Exited"
  shows "\<exists>t. vdf_step work expect n k s t"
proof (cases "workers s ! w")
  case (Head i)
  then show ?thesis
    by (cases "verifyRes s") (use assms(2) in \<open>blast intro: vdf_step.intros\<close>)+
next
  case (Work i)
  then have i: "i \<le> n"
    using inv_worker [OF assms(1,2)] inv_claimed_le [OF assms(1)] by simp
  have "i * Suc k * 32 + length (outs i) * 32 \<le> length (outCheckpointSha s)"
  proof -
    have "Suc i * (Suc k * 32) \<le> Suc n * (Suc k * 32)" using i by (intro mult_le_mono1) simp
    then show ?thesis using assms(1) inv_length_outs [OF assms(1) i] by (simp add: inv_def algebra_simps)
  qed
  then obtain buf where "write_outs (outCheckpointSha s) (int (i * Suc k * 32)) (outs i) = Some buf"
    using write_outs_concat inv_blocks [OF assms(1)] i by blast
  then show ?thesis
    using vdf_step.work [where work = work and outs = "outs i", OF assms(2) Work inv_work [OF assms(1) i]]
      inv_outs_nonempty [OF assms(1) i] inv_offset [OF assms(1) i] by blast
next
  case (Compare i x)
  then have "expect i = Some (claimed i)"
    using inv_worker [OF assms(1,2)] inv_claimed_le [OF assms(1)] inv_expect [OF assms(1)] by simp
  then show ?thesis
    by (cases "x = claimed i") (use assms(2) Compare in \<open>blast intro: vdf_step.intros\<close>)+
next
  case (Claim i)
  then show ?thesis
    by (cases "find (\<lambda>j. \<not> in_progress s ! j) [Suc i..<n]")
       (use assms(2) in \<open>blast intro: vdf_step.intros\<close>)+
qed (use assms in simp)

lemma progress:
  assumes "inv p s" "\<forall>b. caller s \<noteq> Returned b"
  shows "\<exists>t. vdf_step work expect n k s t"
proof (cases "list_all (\<lambda>w. w = Exited) (workers s)")
  case False
  then obtain w where "w < length (workers s)" "workers s ! w \<noteq> Exited"
    by (auto simp: list_all_length)
  then show ?thesis by (rule worker_can_step [OF assms(1)])
next
  case True
  show ?thesis
  proof (cases "caller s")
    case (Spawn i)
    then show ?thesis
      by (cases "i < n"; cases "0 < freeThreadCount s") (blast intro: vdf_step.intros)+
  next
    case Check
    then show ?thesis by (cases "verifyRes s") (blast intro: vdf_step.intros)+
  next
    case Final
    have "n * Suc k * 32 + length (outs n) * 32 \<le> length (outCheckpointSha s)"
      using assms(1) inv_length_outs [OF assms(1), of n] by (simp add: inv_def)
    then obtain buf where "write_outs (outCheckpointSha s) (int (n * Suc k * 32)) (outs n) = Some buf"
      using write_outs_concat inv_blocks [OF assms(1)] by blast
    then show ?thesis
      using vdf_step.final [where work = work and outs = "outs n", OF Final inv_work [OF assms(1) order_refl]]
        inv_outs_nonempty [OF assms(1) order_refl] inv_offset [OF assms(1) order_refl] by blast
  next
    case (FinalCompare x)
    then show ?thesis
      using inv_expect [OF assms(1) order_refl] by (cases "x = claimed n") (blast intro: vdf_step.intros)+
  next
    case Join
    then show ?thesis using True by (blast intro: vdf_step.intros)
  qed (use assms(2) in simp)
qed

text \<open>Every step makes the run lighter, so every run ends.\<close>

lemma weight_set_worker:
  "w < length ws \<Longrightarrow> sum_list (map worker_weight (ws[w := x])) + worker_weight (ws ! w) =
     sum_list (map worker_weight ws) + worker_weight x"
proof (induction ws arbitrary: w)
  case (Cons a ws)
  then show ?case by (cases w) auto
qed simp

lemma worker_lighter:
  "w < length ws \<Longrightarrow> worker_weight x < worker_weight (ws ! w) \<Longrightarrow>
   sum_list (map worker_weight (ws[w := x])) < sum_list (map worker_weight ws)"
  using weight_set_worker [of w ws x] by linarith

lemma weight_claim:
  "j < length ip \<Longrightarrow> length (filter Not (ip[j := True])) + (if ip ! j then 0 else 1) =
     length (filter Not ip)"
proof (induction ip arbitrary: j)
  case (Cons a ip)
  then show ?case by (cases j) auto
qed simp

lemma step_lighter:
  assumes "vdf_step work expect n k s t" "inv p s"
  shows "run_weight n t < run_weight n s"
  using assms
proof (cases rule: vdf_step.cases)
  case (claim_found w i j)
  have i: "i < p" using inv_worker [OF assms(2) claim_found(2)] claim_found(3) by simp
  then have "p < n" "j = p"
    using find_next_claim [OF assms(2) i] claim_found(4) by (auto split: if_splits)
  then have "\<not> in_progress s ! j" "j < length (in_progress s)"
    using assms(2) by (auto simp: inv_def nth_append)
  then show ?thesis
    using weight_claim [of j "in_progress s"] weight_set_worker [OF claim_found(2), of "Head j"] claim_found
    by (simp add: run_weight_def)
next
  case (spawn i)
  have "length (in_progress s) = n" using assms(2) by (auto simp: inv_def)
  then have "length (filter Not ((in_progress s)[i := True])) \<le> length (filter Not (in_progress s))"
    using weight_claim [of i "in_progress s"] spawn(3) by simp
  then show ?thesis using spawn by (auto simp: run_weight_def)
qed (simp_all add: run_weight_def worker_lighter diff_less_mono2)

lemma returned_result:
  assumes "inv p s" "caller s = Returned b"
  shows "b \<longleftrightarrow> (\<forall>i \<le> n. matches i)"
    and "b \<Longrightarrow> outCheckpointSha s = concat (map (\<lambda>i. concat (outs i)) [0..<Suc n])"
proof -
  have c: "n = 0 \<or> workers s \<noteq> []" "verifyRes s \<longrightarrow> matches n \<and> written s n" "b = verifyRes s"
      "list_all (\<lambda>w. w = Exited) (workers s)"
    using inv_caller [OF assms(1)] assms(2) by simp_all
  have all: "matches i \<and> written s i" if "verifyRes s" "i \<le> n" for i
  proof (cases "i = n")
    case False
    then have "workers s \<noteq> []" using c(1) that by auto
    then have "p = n"
      using inv_worker [OF assms(1), of 0] c(4) that(1) by (auto simp: list_all_length)
    moreover have "\<not> holds (workers s ! w) i" if "w < length (workers s)" for w
      using c(4) that by (auto simp: list_all_length)
    moreover have "i < n" using that False by simp
    ultimately show ?thesis using assms(1) that(1) unfolding inv_def by blast
  qed (use c(2) that in simp)
  show "b \<longleftrightarrow> (\<forall>i \<le> n. matches i)"
    using all c(3) assms(1) by (auto simp: inv_def)
  show "outCheckpointSha s = concat (map (\<lambda>i. concat (outs i)) [0..<Suc n])" if b
  proof -
    have "take (m * (Suc k * 32)) (outCheckpointSha s) = concat (map (\<lambda>i. concat (outs i)) [0..<m])"
      if "m \<le> Suc n" for m
      using that
    proof (induction m)
      case (Suc m)
      then have "segment k m (outCheckpointSha s) = concat (outs m)"
        using all [of m] \<open>b\<close> c(3) by (simp add: written_def)
      then show ?case
        using Suc take_add [of "m * (Suc k * 32)" "Suc k * 32" "outCheckpointSha s"]
        by (simp add: segment_def algebra_simps)
    qed simp
    from this [of "Suc n"] show ?thesis using assms(1) by (simp add: inv_def algebra_simps)
  qed
qed

lemma all_schedules:
  assumes "wf n k" "0 < maxThreadCount" "length buf = Suc n * Suc k * 32"
  shows "all_runs (vdf_step work expect n k)
           (\<lambda>s. \<exists>b. caller s = Returned b \<and> (b \<longleftrightarrow> (\<forall>i \<le> n. matches i)) \<and>
                 (b \<longrightarrow> outCheckpointSha s = concat (map (\<lambda>i. concat (outs i)) [0..<Suc n])))
           (init_vstate n maxThreadCount buf)"
proof (rule all_runs_by_measure [where I = "\<lambda>s. \<exists>p. inv p s" and m = "run_weight n"])
  show "\<exists>p. inv p (init_vstate n maxThreadCount buf)" using inv_init [OF assms] by blast
next
  fix s assume "\<exists>p. inv p s" and
    nq: "\<not> (\<exists>b. caller s = Returned b \<and> (b \<longleftrightarrow> (\<forall>i \<le> n. matches i)) \<and>
           (b \<longrightarrow> outCheckpointSha s = concat (map (\<lambda>i. concat (outs i)) [0..<Suc n])))"
  then obtain p where p: "inv p s" by blast
  have "\<forall>b. caller s \<noteq> Returned b" using nq returned_result [OF p] by blast
  then show "\<exists>t. vdf_step work expect n k s t" by (rule progress [OF p])
next
  fix s t assume "\<exists>p. inv p s" "vdf_step work expect n k s t"
  then show "(\<exists>p. inv p t) \<and> run_weight n t < run_weight n s"
    using inv_step step_lighter by blast
qed

end

end
