(* ===== verification/Vdf_Verify.thy ===== *)
theory Vdf_Verify
  imports Vdf_Parallel
begin

text \<open>
  The two parallel verifiers of \<open>vdf.cpp\<close>: what their worker threads and the calling thread compute
  for a segment, with and without a reset, and what the verifiers return under every schedule.
\<close>

record vdf_verify_job =
  startSaltBuffer :: bytes
  seed :: bytes
  inCheckpointSha :: bytes
  resetStepNumberBin256 :: bytes
  resetSeed :: bytes
  checkpointCount :: int
  skipCheckpointCount :: int
  hashingIterationsSha :: int

section \<open>The segment loops\<close>

text \<open>
  The loop over \<open>i <= skipCheckpointCount\<close>: \<open>n\<close> rounds are left; each calls \<open>_vdf_sha2\<close> with no
  checkpoints, which also advances the salt. The result are the \<open>expdOut\<close> of all rounds.
  \<open>expdOut\<close> is an uninitialised stack array before the call, which overwrites all of it.
\<close>

fun verify_rounds :: "hash_fn \<Rightarrow> int \<Rightarrow> nat \<Rightarrow> bytes \<Rightarrow> bytes \<Rightarrow> bytes list option" where
  "verify_rounds sha256 hashingIterations 0 saltBuffer inCopy = Some []"
| "verify_rounds sha256 hashingIterations (Suc n) saltBuffer inCopy = do {
     (saltBuffer, expdOut, _) \<leftarrow>
       vdf_sha2_inner sha256 saltBuffer inCopy (replicate 32 0) [] 0 0 hashingIterations;
     let inCopy = expdOut;
     rest \<leftarrow> verify_rounds sha256 hashingIterations n saltBuffer inCopy;
     Some (expdOut # rest) }"

fun verify_rounds_with_reset ::
  "hash_fn \<Rightarrow> bytes \<Rightarrow> bytes \<Rightarrow> int \<Rightarrow> nat \<Rightarrow> bytes \<Rightarrow> bytes \<Rightarrow> bytes list option" where
  "verify_rounds_with_reset sha256 resetStep rseed hashingIterations 0 saltBuffer inCopy = Some []"
| "verify_rounds_with_reset sha256 resetStep rseed hashingIterations (Suc n) saltBuffer inCopy = do {
     (saltBuffer, expdOut, _) \<leftarrow>
       vdf_sha2_inner sha256 saltBuffer inCopy (replicate 32 0) [] 0 0 hashingIterations;
     let inCopy = (if fast_rev_cmp256 saltBuffer resetStep then reset_mix sha256 expdOut rseed else expdOut);
     rest \<leftarrow> verify_rounds_with_reset sha256 resetStep rseed hashingIterations n saltBuffer inCopy;
     Some (expdOut # rest) }"

text \<open>A worker's segment: \<open>_vdf_sha_verify_thread\<close> from the read of \<open>in\<close> to the last \<open>memcpy\<close>.\<close>

definition verify_segment :: "hash_fn \<Rightarrow> vdf_verify_job \<Rightarrow> nat \<Rightarrow> bytes list option" where
  "verify_segment sha256 job checkpointIdx = do {
     inp \<leftarrow> (if checkpointIdx = 0 then rd (seed job) 0 VDF_SHA_HASH_SIZE
              else rd_int (inCheckpointSha job) ((int checkpointIdx - 1) * int VDF_SHA_HASH_SIZE) VDF_SHA_HASH_SIZE);
     saltBuffer \<leftarrow> rd (startSaltBuffer job) 0 SALT_SIZE;
     offset \<leftarrow> salt_offset (int checkpointIdx) (skipCheckpointCount job);
     let saltBuffer = long_add saltBuffer offset;
     verify_rounds sha256 (hashingIterationsSha job) (nat (skipCheckpointCount job + 1)) saltBuffer inp }"

definition verify_segment_with_reset :: "hash_fn \<Rightarrow> vdf_verify_job \<Rightarrow> nat \<Rightarrow> bytes list option" where
  "verify_segment_with_reset sha256 job checkpointIdx = do {
     inp \<leftarrow> (if checkpointIdx = 0 then rd (seed job) 0 VDF_SHA_HASH_SIZE
              else rd_int (inCheckpointSha job) ((int checkpointIdx - 1) * int VDF_SHA_HASH_SIZE) VDF_SHA_HASH_SIZE);
     saltBuffer \<leftarrow> rd (startSaltBuffer job) 0 SALT_SIZE;
     offset \<leftarrow> salt_offset (int checkpointIdx) (skipCheckpointCount job);
     let saltBuffer = long_add saltBuffer offset;
     let inCopy = (if fast_rev_cmp256 saltBuffer (resetStepNumberBin256 job)
                   then reset_mix sha256 inp (resetSeed job) else inp);
     verify_rounds_with_reset sha256 (resetStepNumberBin256 job) (resetSeed job)
       (hashingIterationsSha job) (nat (skipCheckpointCount job + 1)) saltBuffer inCopy }"

text \<open>The calling thread's own segment, after the spawn loop.\<close>

definition verify_final :: "hash_fn \<Rightarrow> vdf_verify_job \<Rightarrow> bytes list option" where
  "verify_final sha256 job = do {
     sha_temp_result \<leftarrow> (if checkpointCount job = 0 then rd (seed job) 0 VDF_SHA_HASH_SIZE
              else rd_int (inCheckpointSha job) ((checkpointCount job - 1) * int VDF_SHA_HASH_SIZE) VDF_SHA_HASH_SIZE);
     finalSaltBuffer \<leftarrow> rd (startSaltBuffer job) 0 SALT_SIZE;
     offset \<leftarrow> salt_offset (checkpointCount job) (skipCheckpointCount job);
     let finalSaltBuffer = long_add finalSaltBuffer offset;
     verify_rounds sha256 (hashingIterationsSha job) (nat (skipCheckpointCount job + 1))
       finalSaltBuffer sha_temp_result }"

definition verify_final_with_reset :: "hash_fn \<Rightarrow> vdf_verify_job \<Rightarrow> bytes list option" where
  "verify_final_with_reset sha256 job = do {
     sha_temp_result \<leftarrow> (if checkpointCount job = 0 then rd (seed job) 0 VDF_SHA_HASH_SIZE
              else rd_int (inCheckpointSha job) ((checkpointCount job - 1) * int VDF_SHA_HASH_SIZE) VDF_SHA_HASH_SIZE);
     finalSaltBuffer \<leftarrow> rd (startSaltBuffer job) 0 SALT_SIZE;
     offset \<leftarrow> salt_offset (checkpointCount job) (skipCheckpointCount job);
     let finalSaltBuffer = long_add finalSaltBuffer offset;
     let inCopy = (if fast_rev_cmp256 finalSaltBuffer (resetStepNumberBin256 job)
                   then reset_mix sha256 sha_temp_result (resetSeed job) else sha_temp_result);
     verify_rounds_with_reset sha256 (resetStepNumberBin256 job) (resetSeed job)
       (hashingIterationsSha job) (nat (skipCheckpointCount job + 1)) finalSaltBuffer inCopy }"

text \<open>All segments of a job, the final one last, and what each is compared with.\<close>

definition job_work :: "hash_fn \<Rightarrow> vdf_verify_job \<Rightarrow> nat \<Rightarrow> bytes list option" where
  "job_work sha256 job i = (if int i < checkpointCount job then verify_segment sha256 job i else verify_final sha256 job)"

definition job_work_with_reset :: "hash_fn \<Rightarrow> vdf_verify_job \<Rightarrow> nat \<Rightarrow> bytes list option" where
  "job_work_with_reset sha256 job i =
     (if int i < checkpointCount job then verify_segment_with_reset sha256 job i
      else verify_final_with_reset sha256 job)"

definition job_expect :: "vdf_verify_job \<Rightarrow> bytes \<Rightarrow> nat \<Rightarrow> bytes option" where
  "job_expect job inRes i =
     (if int i < checkpointCount job then rd_int (inCheckpointSha job) (int i * int VDF_SHA_HASH_SIZE) VDF_SHA_HASH_SIZE
      else rd inRes 0 VDF_SHA_HASH_SIZE)"

section \<open>The entry points: all schedules of a job\<close>

definition verify_job :: "bytes \<Rightarrow> bytes \<Rightarrow> int \<Rightarrow> int \<Rightarrow> int \<Rightarrow> bytes \<Rightarrow> bytes \<Rightarrow> bytes \<Rightarrow> vdf_verify_job" where
  "verify_job startSalt sd c skip iterations inCheckpoint resetStep rseed =
     \<lparr>startSaltBuffer = startSalt, seed = sd, inCheckpointSha = inCheckpoint,
      resetStepNumberBin256 = resetStep, resetSeed = rseed, checkpointCount = c,
      skipCheckpointCount = skip, hashingIterationsSha = iterations\<rparr>"

text \<open>
  \<open>vdf_parallel_sha_verify \<dots> Q\<close>: every schedule of the call ends, in a state that satisfies \<open>Q\<close>
  (the returned value and the output buffer).
\<close>

definition vdf_parallel_sha_verify ::
  "hash_fn \<Rightarrow> bytes \<Rightarrow> bytes \<Rightarrow> nat \<Rightarrow> nat \<Rightarrow> int \<Rightarrow> bytes \<Rightarrow> bytes \<Rightarrow> bytes \<Rightarrow> int
   \<Rightarrow> (bool \<Rightarrow> bytes \<Rightarrow> bool) \<Rightarrow> bool" where
  "vdf_parallel_sha_verify sha256 startSalt sd c skip iterations inRes inCheckpoint outCheckpoint
     maxThreadCount Q =
     (let job = verify_job startSalt sd (int c) (int skip) iterations inCheckpoint [] []
      in all_runs (vdf_step (job_work sha256 job) (job_expect job inRes) c skip)
           (\<lambda>s. \<exists>b. caller s = Returned b \<and> Q b (outCheckpointSha s))
           (init_vstate c maxThreadCount outCheckpoint))"

definition vdf_parallel_sha_verify_with_reset ::
  "hash_fn \<Rightarrow> bytes \<Rightarrow> bytes \<Rightarrow> nat \<Rightarrow> nat \<Rightarrow> int \<Rightarrow> bytes \<Rightarrow> bytes \<Rightarrow> bytes \<Rightarrow> bytes \<Rightarrow> bytes \<Rightarrow> int
   \<Rightarrow> (bool \<Rightarrow> bytes \<Rightarrow> bool) \<Rightarrow> bool" where
  "vdf_parallel_sha_verify_with_reset sha256 startSalt sd c skip iterations inRes inCheckpoint
     outCheckpoint resetStep rseed maxThreadCount Q =
     (let job = verify_job startSalt sd (int c) (int skip) iterations inCheckpoint resetStep rseed
      in all_runs (vdf_step (job_work_with_reset sha256 job) (job_expect job inRes) c skip)
           (\<lambda>s. \<exists>b. caller s = Returned b \<and> Q b (outCheckpointSha s))
           (init_vstate c maxThreadCount outCheckpoint))"

section \<open>A segment is a piece of the chain\<close>

lemma vdf_sha2_inner_single:
  assumes "length x = 32" "2 \<le> N"
  shows "vdf_sha2_inner sha256 (be_bytes 32 s) x (replicate 32 0) [] 0 0 (int N) =
         Some (be_bytes 32 (Suc s), vdf_hash sha256 N (be_bytes 32 s) x, [])"
  using vdf_sha2_inner_chain [of x "replicate 32 0" "[]" 0 N 0 sha256 s] assms
  by (simp add: vdf_checkpoint_def no_reset_def Let_def)

lemma verify_rounds_chain:
  assumes "length x = 32" "2 \<le> N"
  shows "verify_rounds sha256 (int N) n (be_bytes 32 s) x =
         Some (map (\<lambda>j. vdf_chain no_reset sha256 N s x (Suc j)) [0..<n])"
  using assms(1)
proof (induction n arbitrary: s x)
  case (Suc n)
  let ?y = "vdf_hash sha256 N (be_bytes 32 s) x"
  have y: "?y = vdf_chain no_reset sha256 N s x (Suc 0)" by (simp add: no_reset_def Let_def)
  have "length ?y = 32" using Suc.prems by simp
  note IH = Suc.IH [OF this, of "Suc s"]
  have "[0..<Suc n] = 0 # map Suc [0..<n]" by (simp add: upt_conv_Cons map_Suc_upt)
  moreover have "vdf_chain no_reset sha256 N (Suc s) ?y (Suc j) = vdf_chain no_reset sha256 N s x (Suc (Suc j))" for j
    unfolding y using vdf_chain_add [of no_reset sha256 N s x "Suc 0" "Suc j"] by simp
  ultimately show ?case
    using IH vdf_sha2_inner_single [OF Suc.prems assms(2)] y
    by (simp add: o_def del: vdf_chain.simps upt_Suc)
qed simp

lemma verify_rounds_with_reset_chain:
  fixes rs rseed :: bytes and sha256 :: hash_fn
  defines "pre \<equiv> with_reset sha256 rs rseed"
  assumes "length x = 32" "2 \<le> N" "length rs = 32"
  shows "verify_rounds_with_reset sha256 rs rseed (int N) n (be_bytes 32 s) (pre (be_bytes 32 s) x) =
         Some (map (\<lambda>j. vdf_chain pre sha256 N s x (Suc j)) [0..<n])"
  using assms(2)
proof (induction n arbitrary: s x)
  case (Suc n)
  let ?p = "pre (be_bytes 32 s) x"
  let ?y = "vdf_hash sha256 N (be_bytes 32 s) ?p"
  have p: "length ?p = 32" using Suc.prems by (simp add: pre_def)
  have y: "?y = vdf_chain pre sha256 N s x (Suc 0)" by (simp add: Let_def)
  have "length ?y = 32" using p by simp
  note IH = Suc.IH [OF this, of "Suc s"]
  have mix: "(if fast_rev_cmp256 (be_bytes 32 (Suc s)) rs then reset_mix sha256 ?y rseed else ?y) =
             pre (be_bytes 32 (Suc s)) ?y"
    using assms(4) by (simp add: pre_def with_reset_def fast_rev_cmp256_eq)
  have "[0..<Suc n] = 0 # map Suc [0..<n]" by (simp add: upt_conv_Cons map_Suc_upt)
  moreover have "vdf_chain pre sha256 N (Suc s) ?y (Suc j) = vdf_chain pre sha256 N s x (Suc (Suc j))" for j
    unfolding y using vdf_chain_add [of pre sha256 N s x "Suc 0" "Suc j"] by simp
  ultimately show ?case
    using IH vdf_sha2_inner_single [OF p assms(3)]
    by (simp add: o_def y mix [unfolded y] del: vdf_chain.simps upt_Suc split del: if_split)
qed simp


section \<open>A well-formed job and its segments\<close>

text \<open>
  The sizes that the two NIFs check before they call a verifier, at least two iterations, and an offset of the last
  segment that an \<open>int\<close> can hold.
\<close>

definition job_sizes :: "bytes \<Rightarrow> bytes \<Rightarrow> bytes \<Rightarrow> bytes \<Rightarrow> nat \<Rightarrow> nat \<Rightarrow> nat \<Rightarrow> bool" where
  "job_sizes startSalt sd inCheckpoint inRes iterations c skip \<longleftrightarrow>
     length startSalt = 32 \<and> length sd = 32 \<and> length inCheckpoint = c * 32 \<and> length inRes = 32 \<and>
     2 \<le> iterations \<and> Suc skip < 2 ^ 31 \<and> 32 * (c * Suc skip) < 2 ^ 31"

text \<open>The input of segment \<open>i\<close>, its claimed output, and its blocks.\<close>

definition seg_in :: "bytes \<Rightarrow> bytes \<Rightarrow> nat \<Rightarrow> bytes" where
  "seg_in sd inCheckpoint i = (if i = 0 then sd else take 32 (drop ((i - 1) * 32) inCheckpoint))"

definition seg_claimed :: "bytes \<Rightarrow> bytes \<Rightarrow> nat \<Rightarrow> nat \<Rightarrow> bytes" where
  "seg_claimed inCheckpoint inRes c i = (if i < c then take 32 (drop (i * 32) inCheckpoint) else inRes)"

definition seg_outs :: "(bytes \<Rightarrow> bytes \<Rightarrow> bytes) \<Rightarrow> hash_fn \<Rightarrow> nat \<Rightarrow> nat \<Rightarrow> bytes \<Rightarrow> bytes \<Rightarrow> nat
    \<Rightarrow> nat \<Rightarrow> bytes list" where
  "seg_outs pre sha256 iterations s sd inCheckpoint skip i =
     map (\<lambda>j. vdf_chain pre sha256 iterations (s + i * Suc skip) (seg_in sd inCheckpoint i) (Suc j))
       [0..<Suc skip]"

lemma job_offset:
  assumes "job_sizes startSalt sd inCheckpoint inRes iterations c skip" "i \<le> c"
  shows "32 * i < 2 ^ 31" "salt_offset (int i) (int skip) = Some (int (i * Suc skip))"
    and "out_offset (int i) (int skip) = Some (int (i * Suc skip * 32))"
proof -
  have "32 * (i * Suc skip) \<le> 32 * (c * Suc skip)" using assms(2) by (intro mult_le_mono order_refl)
  then have b: "32 * (i * Suc skip) < 2 ^ 31" and k: "Suc skip < 2 ^ 31" using assms(1) unfolding job_sizes_def by linarith+
  have "32 * i \<le> 32 * (i * Suc skip)" by simp
  then show "32 * i < 2 ^ 31" using b by (rule le_less_trans)
  have e: "1 + int skip = int (Suc skip)" "int i * int (Suc skip) = int (i * Suc skip)" by (simp, simp only: of_nat_mult)
  have "i * Suc skip < 2 ^ 31" using b by linarith
  then show s: "salt_offset (int i) (int skip) = Some (int (i * Suc skip))"
    unfolding salt_offset_def e(1) c_int_nat [OF k] bind.bind_lunit e(2) by (rule c_int_nat)
  have "int (i * Suc skip) * int VDF_SHA_HASH_SIZE = int (i * Suc skip * 32)" by simp
  then show "out_offset (int i) (int skip) = Some (int (i * Suc skip * 32))"
    using c_int_nat [of "i * Suc skip * 32"] b unfolding out_offset_def s by (simp add: ac_simps)
qed

lemma length_seg_in:
  assumes "job_sizes startSalt sd inCheckpoint inRes iterations c skip" "i \<le> c"
  shows "length (seg_in sd inCheckpoint i) = 32"
proof (cases i)
  case (Suc m)
  then have "m * 32 + 32 \<le> c * 32" using assms(2) by simp
  then show ?thesis using assms(1) Suc by (simp add: seg_in_def job_sizes_def)
qed (use assms(1) in \<open>simp add: seg_in_def job_sizes_def\<close>)

lemma seg_in_rd:
  assumes "job_sizes startSalt sd inCheckpoint inRes iterations c skip" "i \<le> c"
  shows "(if i = 0 then rd sd 0 32 else rd_int inCheckpoint ((int i - 1) * 32) 32) =
         Some (seg_in sd inCheckpoint i)"
proof (cases i)
  case 0
  then show ?thesis using assms(1) rd_nat [of 0 32 sd] by (simp add: seg_in_def job_sizes_def)
next
  case (Suc m)
  then have "m * 32 + 32 \<le> length inCheckpoint" using assms by (simp add: job_sizes_def)
  moreover have "m * 32 < 2 ^ 31" using job_offset(1) [OF assms] Suc by simp
  ultimately show ?thesis
    using Suc rd_nat [of "m * 32" 32 inCheckpoint] rd_int_nat [of "m * 32" inCheckpoint 32] by (simp add: seg_in_def)
qed

lemma job_salt:
  assumes "job_sizes startSalt sd inCheckpoint inRes iterations c skip" "i \<le> c"
  shows "rd startSalt 0 32 = Some startSalt"
    and "long_add startSalt (int (i * Suc skip)) = be_bytes 32 (be_val startSalt + i * Suc skip)"
proof -
  have l: "length startSalt = 32" using assms by (simp add: job_sizes_def)
  then show "rd startSalt 0 32 = Some startSalt" using rd_nat [of 0 32 startSalt] by simp
  have "i * Suc skip \<le> c * Suc skip" using assms(2) by (rule mult_le_mono1)
  then have "i * Suc skip < 2 ^ 31" using assms(1) unfolding job_sizes_def by linarith
  then have "int (i * Suc skip) < 2 ^ 31" by (metis of_nat_less_iff of_nat_numeral of_nat_power)
  then have "int (i * Suc skip) + 255 < 2 ^ 32" by simp
  then show "long_add startSalt (int (i * Suc skip)) = be_bytes 32 (be_val startSalt + i * Suc skip)"
    using long_add_be_bytes [of "int (i * Suc skip)" "be_val startSalt"] be_bytes_be_val [of startSalt] l
    by (simp del: of_nat_mult of_nat_Suc mult_Suc_right)
qed

lemma job_work_segments:
  assumes "job_sizes startSalt sd inCheckpoint inRes iterations c skip" "i \<le> c"
  shows "job_work sha256 (verify_job startSalt sd (int c) (int skip) (int iterations) inCheckpoint rs rseed) i =
         Some (seg_outs no_reset sha256 iterations (be_val startSalt) sd inCheckpoint skip i)"
proof -
  have N: "2 \<le> iterations" using assms(1) by (simp add: job_sizes_def)
  have n: "nat (int skip + 1) = Suc skip" by simp
  have r: "verify_rounds sha256 (int iterations) (Suc skip)
      (be_bytes 32 (be_val startSalt + i * Suc skip)) (seg_in sd inCheckpoint i) =
      Some (seg_outs no_reset sha256 iterations (be_val startSalt) sd inCheckpoint skip i)"
    unfolding seg_outs_def by (rule verify_rounds_chain [OF length_seg_in [OF assms] N])
  have "i = c" if "\<not> i < c" using that assms(2) by simp
  then show ?thesis
    using seg_in_rd [OF assms] job_salt [OF assms] job_offset(2) [OF assms] r
    by (auto simp: job_work_def verify_segment_def verify_final_def verify_job_def n
        simp del: verify_rounds.simps of_nat_mult of_nat_Suc mult_Suc_right cong: if_cong)
qed

lemma job_work_with_reset_segments:
  assumes "job_sizes startSalt sd inCheckpoint inRes iterations c skip" "i \<le> c" "length rs = 32"
  shows "job_work_with_reset sha256
           (verify_job startSalt sd (int c) (int skip) (int iterations) inCheckpoint rs rseed) i =
         Some (seg_outs (with_reset sha256 rs rseed) sha256 iterations (be_val startSalt) sd inCheckpoint skip i)"
proof -
  have N: "2 \<le> iterations" using assms(1) by (simp add: job_sizes_def)
  have n: "nat (int skip + 1) = Suc skip" by simp
  let ?salt = "be_bytes 32 (be_val startSalt + i * Suc skip)"
  have pre: "(if fast_rev_cmp256 (be_bytes 32 k) rs then reset_mix sha256 x rseed else x) =
      with_reset sha256 rs rseed (be_bytes 32 k) x" for k x
    using assms(3) by (simp add: with_reset_def fast_rev_cmp256_eq)
  have r: "verify_rounds_with_reset sha256 rs rseed (int iterations) (Suc skip) ?salt
      (with_reset sha256 rs rseed ?salt (seg_in sd inCheckpoint i)) =
      Some (seg_outs (with_reset sha256 rs rseed) sha256 iterations (be_val startSalt) sd inCheckpoint skip i)"
    unfolding seg_outs_def
    by (rule verify_rounds_with_reset_chain [OF length_seg_in [OF assms(1,2)] N assms(3)])
  have "i = c" if "\<not> i < c" using that assms(2) by simp
  then show ?thesis
    using seg_in_rd [OF assms(1,2)] job_salt [OF assms(1,2)] job_offset(2) [OF assms(1,2)] r
    by (cases "i < c")
       (simp_all add: job_work_with_reset_def verify_segment_with_reset_def verify_final_with_reset_def
        verify_job_def n pre Let_def del: verify_rounds_with_reset.simps of_nat_mult of_nat_Suc mult_Suc_right cong: if_cong split del: if_split)
qed

lemma job_expect_claimed:
  assumes "job_sizes startSalt sd inCheckpoint inRes iterations c skip" "i \<le> c"
  shows "job_expect (verify_job startSalt sd (int c) (int skip) it inCheckpoint rs rseed) inRes i =
         Some (seg_claimed inCheckpoint inRes c i)"
proof (cases "i < c")
  case True
  then have "i * 32 + 32 \<le> length inCheckpoint" using assms by (simp add: job_sizes_def)
  then show ?thesis
    using True rd_nat [of "i * 32" 32 inCheckpoint] rd_int_nat [of "i * 32" inCheckpoint 32] job_offset(1) [OF assms]
    by (simp add: job_expect_def verify_job_def seg_claimed_def)
next
  case False
  then show ?thesis
    using assms rd_nat [of 0 32 inRes] by (simp add: job_expect_def verify_job_def seg_claimed_def job_sizes_def)
qed

lemma seg_outs_shape:
  assumes "job_sizes startSalt sd inCheckpoint inRes iterations c skip" "i \<le> c" "keeps_length pre"
  shows "length (seg_outs pre sha256 iterations s sd inCheckpoint skip i) = Suc skip"
    and "b \<in> set (seg_outs pre sha256 iterations s sd inCheckpoint skip i) \<Longrightarrow> length b = 32"
  using length_seg_in [OF assms(1,2)] assms(3)
  by (auto simp: seg_outs_def simp del: vdf_chain.simps upt_Suc)

text \<open>Both verifiers meet the contract of the step relation.\<close>

interpretation plain: verify_work
  "job_work sha256 (verify_job startSalt sd (int c) (int skip) (int iterations) inCheckpoint [] [])"
  "job_expect (verify_job startSalt sd (int c) (int skip) (int iterations) inCheckpoint [] []) inRes"
  c skip "seg_outs no_reset sha256 iterations (be_val startSalt) sd inCheckpoint skip"
  "seg_claimed inCheckpoint inRes c" "job_sizes startSalt sd inCheckpoint inRes iterations"
  for sha256 startSalt sd c skip iterations inCheckpoint inRes
  by unfold_locales
     (auto intro: job_work_segments job_expect_claimed seg_outs_shape(1) job_offset(3)
       elim!: seg_outs_shape(2) [rotated -1] simp del: vdf_chain.simps mult_Suc_right of_nat_mult of_nat_Suc)

interpretation reset: verify_work
  "job_work_with_reset sha256 (verify_job startSalt sd (int c) (int skip) (int iterations) inCheckpoint rs rseed)"
  "job_expect (verify_job startSalt sd (int c) (int skip) (int iterations) inCheckpoint rs rseed) inRes"
  c skip "seg_outs (with_reset sha256 rs rseed) sha256 iterations (be_val startSalt) sd inCheckpoint skip"
  "seg_claimed inCheckpoint inRes c"
  "\<lambda>c k. length rs = 32 \<and> job_sizes startSalt sd inCheckpoint inRes iterations c k"
  for sha256 startSalt sd c skip iterations inCheckpoint inRes rs rseed
  by unfold_locales
     (auto intro: job_work_with_reset_segments job_expect_claimed seg_outs_shape(1) job_offset(3)
       elim!: seg_outs_shape(2) [rotated -1] simp del: vdf_chain.simps mult_Suc_right of_nat_mult of_nat_Suc)


section \<open>The verifiers accept the honest chain and nothing else\<close>

definition claims_honest :: "(bytes \<Rightarrow> bytes \<Rightarrow> bytes) \<Rightarrow> hash_fn \<Rightarrow> nat \<Rightarrow> bytes \<Rightarrow> bytes \<Rightarrow> bytes \<Rightarrow> bytes
    \<Rightarrow> nat \<Rightarrow> nat \<Rightarrow> bool" where
  "claims_honest pre sha256 iterations startSalt sd inCheckpoint inRes c skip \<longleftrightarrow>
     (\<forall>i \<le> c. seg_claimed inCheckpoint inRes c i =
        vdf_chain pre sha256 iterations (be_val startSalt) sd (Suc i * Suc skip))"

definition all_outputs :: "(bytes \<Rightarrow> bytes \<Rightarrow> bytes) \<Rightarrow> hash_fn \<Rightarrow> nat \<Rightarrow> bytes \<Rightarrow> bytes \<Rightarrow> nat \<Rightarrow> bytes" where
  "all_outputs pre sha256 iterations startSalt sd m =
     concat (map (\<lambda>j. vdf_chain pre sha256 iterations (be_val startSalt) sd (Suc j)) [0..<m])"

lemma last_seg_outs:
  "last (seg_outs pre sha256 N s sd inCheckpoint skip i) =
   vdf_chain pre sha256 N (s + i * Suc skip) (seg_in sd inCheckpoint i) (Suc skip)"
  by (simp add: seg_outs_def del: vdf_chain.simps)

lemma seg_in_claimed: "i < c \<Longrightarrow> seg_in sd inCheckpoint (Suc i) = seg_claimed inCheckpoint inRes c i"
  by (simp add: seg_in_def seg_claimed_def)

lemma seg_in_honest:
  assumes "\<forall>j < i. seg_claimed inCheckpoint inRes c j = vdf_chain pre sha256 N s sd (Suc j * Suc skip)" "i \<le> c"
  shows "seg_in sd inCheckpoint i = vdf_chain pre sha256 N s sd (i * Suc skip)"
proof (cases i)
  case (Suc m)
  then show ?thesis using assms seg_in_claimed [of m c sd inCheckpoint inRes]
    by (simp del: vdf_chain.simps)
qed (simp add: seg_in_def)

text \<open>Segment by segment: every segment ends in what it claims iff every claim is on the chain.\<close>

lemma segments_match_iff_honest:
  "(\<forall>i \<le> c. last (seg_outs pre sha256 N (be_val startSalt) sd inCheckpoint skip i) = seg_claimed inCheckpoint inRes c i)
   \<longleftrightarrow> claims_honest pre sha256 N startSalt sd inCheckpoint inRes c skip"
proof -
  let ?s = "be_val startSalt"
  let ?m = "\<lambda>i. last (seg_outs pre sha256 N ?s sd inCheckpoint skip i) = seg_claimed inCheckpoint inRes c i"
  let ?h = "\<lambda>i. seg_claimed inCheckpoint inRes c i = vdf_chain pre sha256 N ?s sd (Suc i * Suc skip)"
  have step: "?m i \<longleftrightarrow> ?h i" if "\<forall>j < i. ?h j" "i \<le> c" for i
  proof -
    have "last (seg_outs pre sha256 N ?s sd inCheckpoint skip i) =
        vdf_chain pre sha256 N ?s sd (i * Suc skip + Suc skip)"
      unfolding last_seg_outs seg_in_honest [OF that] by (rule vdf_chain_add [symmetric])
    moreover have "i * Suc skip + Suc skip = Suc i * Suc skip" by simp
    ultimately show ?thesis by (metis (no_types))
  qed
  have "?h i" if "\<forall>i \<le> c. ?m i" "i \<le> c" for i
    using that(2)
  proof (induction i rule: less_induct)
    case (less i)
    then have "\<forall>j < i. ?h j" by simp
    then show ?case using step [of i] that(1) less.prems by blast
  qed
  then show ?thesis using step unfolding claims_honest_def by (meson less_imp_le order_trans)
qed

lemma concat_blocks:
  "concat (map (\<lambda>i. concat (map (\<lambda>j. f (i * k + j)) [0..<k])) [0..<n]) = concat (map f [0..<n * k])"
proof (induction n)
  case (Suc n)
  have "[0..<Suc n * k] = [0..<n * k] @ map (\<lambda>j. n * k + j) [0..<k]"
    using map_add_upt [of "n * k" k] upt_add_eq_append [of 0 "n * k" k] by (simp add: add.commute)
  then show ?case using Suc by (simp add: o_def)
qed simp

lemma honest_blocks:
  assumes "claims_honest pre sha256 N startSalt sd inCheckpoint inRes c skip"
  shows "concat (map (\<lambda>i. concat (seg_outs pre sha256 N (be_val startSalt) sd inCheckpoint skip i)) [0..<Suc c]) =
         all_outputs pre sha256 N startSalt sd (Suc c * Suc skip)"
proof -
  let ?f = "\<lambda>j. vdf_chain pre sha256 N (be_val startSalt) sd (Suc j)"
  have "seg_outs pre sha256 N (be_val startSalt) sd inCheckpoint skip i =
      map (\<lambda>j. ?f (i * Suc skip + j)) [0..<Suc skip]" if "i \<le> c" for i
  proof -
    have *: "\<forall>j < i. seg_claimed inCheckpoint inRes c j = vdf_chain pre sha256 N (be_val startSalt) sd (Suc j * Suc skip)"
      using assms that by (simp add: claims_honest_def del: vdf_chain.simps)
    have "vdf_chain pre sha256 N (be_val startSalt + i * Suc skip) (seg_in sd inCheckpoint i) (Suc j) =
        ?f (i * Suc skip + j)" for j
      unfolding seg_in_honest [OF * that]
      using vdf_chain_add [of pre sha256 N "be_val startSalt" sd "i * Suc skip" "Suc j"] by simp
    then show ?thesis unfolding seg_outs_def by (simp del: vdf_chain.simps upt_Suc)
  qed
  then have "map (\<lambda>i. concat (seg_outs pre sha256 N (be_val startSalt) sd inCheckpoint skip i)) [0..<Suc c] =
      map (\<lambda>i. concat (map (\<lambda>j. ?f (i * Suc skip + j)) [0..<Suc skip])) [0..<Suc c]"
    by (intro map_cong refl) (simp del: vdf_chain.simps upt_Suc)
  then show ?thesis unfolding all_outputs_def concat_blocks [symmetric] by (simp only:)
qed

lemma all_runs_mono:
  assumes "all_runs stp Q s" "\<And>s. Q s \<Longrightarrow> R s"
  shows "all_runs stp R s"
  using assms(1)
proof induction
  case (arrived s)
  then show ?case using assms(2) by (blast intro: all_runs.arrived)
next
  case (onward s)
  show ?case by (rule all_runs.onward) (use onward in auto)
qed

text \<open>What both verifiers promise of a returned flag and of the output buffer.\<close>

definition verify_promise :: "(bytes \<Rightarrow> bytes \<Rightarrow> bytes) \<Rightarrow> hash_fn \<Rightarrow> nat \<Rightarrow> bytes \<Rightarrow> bytes \<Rightarrow> bytes \<Rightarrow> bytes
    \<Rightarrow> nat \<Rightarrow> nat \<Rightarrow> bool \<Rightarrow> bytes \<Rightarrow> bool" where
  "verify_promise pre sha256 iterations startSalt sd inCheckpoint inRes c skip b outCheckpoint \<longleftrightarrow>
     (b \<longleftrightarrow> claims_honest pre sha256 iterations startSalt sd inCheckpoint inRes c skip) \<and>
     (b \<longrightarrow> outCheckpoint = all_outputs pre sha256 iterations startSalt sd (Suc c * Suc skip))"

lemma promise_of_segments:
  assumes "b \<longleftrightarrow> (\<forall>i \<le> c. last (seg_outs pre sha256 N (be_val startSalt) sd inCheckpoint skip i) =
                           seg_claimed inCheckpoint inRes c i)"
    and "b \<longrightarrow> out = concat (map (\<lambda>i. concat (seg_outs pre sha256 N (be_val startSalt) sd inCheckpoint skip i)) [0..<Suc c])"
  shows "verify_promise pre sha256 N startSalt sd inCheckpoint inRes c skip b out"
  using assms honest_blocks [of pre sha256 N startSalt sd inCheckpoint inRes c skip]
  unfolding verify_promise_def segments_match_iff_honest by blast

lemma verify_keeps_promise:
  assumes "job_sizes startSalt sd inCheckpoint inRes iterations c skip"
    and "0 < maxThreadCount" "length outCheckpoint = Suc c * Suc skip * 32"
  shows "vdf_parallel_sha_verify sha256 startSalt sd c skip (int iterations) inRes inCheckpoint outCheckpoint
           maxThreadCount (verify_promise no_reset sha256 iterations startSalt sd inCheckpoint inRes c skip)"
  unfolding vdf_parallel_sha_verify_def Let_def
proof (rule all_runs_mono [OF plain.all_schedules [where ?sha256.0 = sha256, OF assms, unfolded plain.matches_def]],
    elim exE conjE)
  fix s b
  assume "caller s = Returned b" and b: "b \<longleftrightarrow> (\<forall>i \<le> c.
      last (seg_outs no_reset sha256 iterations (be_val startSalt) sd inCheckpoint skip i) = seg_claimed inCheckpoint inRes c i)"
    "b \<longrightarrow> outCheckpointSha s =
      concat (map (\<lambda>i. concat (seg_outs no_reset sha256 iterations (be_val startSalt) sd inCheckpoint skip i)) [0..<Suc c])"
  then show "\<exists>b. caller s = Returned b \<and>
      verify_promise no_reset sha256 iterations startSalt sd inCheckpoint inRes c skip b (outCheckpointSha s)"
    using promise_of_segments [OF b] by (intro exI conjI)
qed

lemma verify_with_reset_keeps_promise:
  assumes "job_sizes startSalt sd inCheckpoint inRes iterations c skip" "length resetStep = 32"
    and "0 < maxThreadCount" "length outCheckpoint = Suc c * Suc skip * 32"
  shows "vdf_parallel_sha_verify_with_reset sha256 startSalt sd c skip (int iterations) inRes inCheckpoint
           outCheckpoint resetStep rseed maxThreadCount
           (verify_promise (with_reset sha256 resetStep rseed) sha256 iterations startSalt sd inCheckpoint inRes c skip)"
  unfolding vdf_parallel_sha_verify_with_reset_def Let_def
proof (rule all_runs_mono [OF reset.all_schedules
      [where ?sha256.0 = sha256 and rseed = rseed, OF conjI [OF assms(2,1)] assms(3,4), unfolded reset.matches_def]],
    elim exE conjE)
  let ?pre = "with_reset sha256 resetStep rseed"
  fix s b
  assume "caller s = Returned b" and b: "b \<longleftrightarrow> (\<forall>i \<le> c.
      last (seg_outs ?pre sha256 iterations (be_val startSalt) sd inCheckpoint skip i) = seg_claimed inCheckpoint inRes c i)"
    "b \<longrightarrow> outCheckpointSha s =
      concat (map (\<lambda>i. concat (seg_outs ?pre sha256 iterations (be_val startSalt) sd inCheckpoint skip i)) [0..<Suc c])"
  then show "\<exists>b. caller s = Returned b \<and>
      verify_promise ?pre sha256 iterations startSalt sd inCheckpoint inRes c skip b (outCheckpointSha s)"
    using promise_of_segments [OF b] by (intro exI conjI)
qed


text \<open>The checkpoints that \<open>vdf_sha2\<close> stores are honest claims.\<close>

lemma block_of_concat:
  assumes "\<And>j. j < c \<Longrightarrow> length (f j) = k" "i < c"
  shows "take k (drop (i * k) (concat (map f [0..<c]))) = f i"
  using assms
proof (induction c)
  case (Suc c)
  have l: "length (concat (map f [0..<c])) = c * k"
    using Suc.prems(1) by (induction c) auto
  show ?case
  proof (cases "i = c")
    case True
    then show ?thesis using l Suc.prems(1) by simp
  next
    case False
    then have "i < c" using Suc.prems(2) by simp
    then have "i * k + k \<le> c * k" using mult_le_mono1 [of "Suc i" c k] by simp
    then show ?thesis using Suc.IH Suc.prems(1) \<open>i < c\<close> l by (simp add: less_SucI)
  qed
qed simp

lemma stored_checkpoints_honest:
  fixes sha256 :: hash_fn and salt sd :: bytes and N :: nat
  defines "g \<equiv> vdf_chain no_reset sha256 N (be_val salt) sd"
  assumes "length sd = 32"
  shows "claims_honest no_reset sha256 N salt sd (concat (map (\<lambda>j. g (Suc j * Suc skip)) [0..<c]))
           (g (Suc c * Suc skip)) c skip"
proof -
  have l: "length (g m) = 32" for m using assms(2) by (simp add: g_def del: vdf_chain.simps)
  have "take 32 (drop (i * 32) (concat (map (\<lambda>j. g (Suc j * Suc skip)) [0..<c]))) = g (Suc i * Suc skip)"
    if "i < c" for i
    by (rule block_of_concat [of c "\<lambda>j. g (Suc j * Suc skip)"]) (use l that in auto)
  moreover have "i = c" if "i \<le> c" "\<not> i < c" for i using that by simp
  ultimately show ?thesis by (auto simp: claims_honest_def seg_claimed_def g_def simp del: vdf_chain.simps)
qed

section \<open>Properties\<close>

text \<open>
  Property C2: \<open>vdf_parallel_sha_verify\<close> is sound and complete under every schedule. With buffers of
  the sizes the NIF checks, at least two iterations, at least one thread and an offset
  \<open>checkpointCount*(1+skipCheckpointCount)*32\<close> that fits an \<open>int\<close>, every interleaving of the workers and the
  calling thread terminates; it returns true iff every claimed checkpoint and the claimed result lie
  on the honest chain from the seed, and then the output buffer holds all
  \<open>(checkpointCount + 1) * (skipCheckpointCount + 1)\<close> outputs of the chain in order.
\<close>

theorem vdf_parallel_sha_verify_exact:
  assumes "job_sizes startSalt sd inCheckpoint inRes iterations c skip"
    and "0 < maxThreadCount" "length outCheckpoint = Suc c * Suc skip * 32"
  shows "vdf_parallel_sha_verify sha256 startSalt sd c skip (int iterations) inRes inCheckpoint outCheckpoint
           maxThreadCount
           (\<lambda>res out. (res \<longleftrightarrow> claims_honest no_reset sha256 iterations startSalt sd inCheckpoint inRes c skip) \<and>
              (res \<longrightarrow> out = all_outputs no_reset sha256 iterations startSalt sd (Suc c * Suc skip)))"
  using verify_keeps_promise [OF assms, of sha256] unfolding verify_promise_def .

theorem vdf_parallel_sha_verify_exact_witness:
  "vdf_parallel_sha_verify (\<lambda>_. 7) (replicate 32 1) (replicate 32 2) 2 1 (int 2) (digest 7)
     (digest 7 @ digest 8) (replicate 192 0) 3
     (\<lambda>res out. (res \<longleftrightarrow> claims_honest no_reset (\<lambda>_. 7) 2 (replicate 32 1) (replicate 32 2) (digest 7 @ digest 8) (digest 7) 2 1) \<and>
        (res \<longrightarrow> out = all_outputs no_reset (\<lambda>_. 7) 2 (replicate 32 1) (replicate 32 2) (Suc 2 * Suc 1)))"
  by (rule vdf_parallel_sha_verify_exact) (simp_all add: job_sizes_def)

text \<open>
  Property C5: \<open>vdf_parallel_sha_verify_with_reset\<close> is sound and complete under every schedule, for the
  sizes, iterations, threads and offsets that the verifier without reset asks for, the
  honest chain being the one whose input is mixed with the reset seed at the reset step, wherever
  the reset falls: at the start of a segment, inside one, or outside the job.
\<close>

theorem vdf_parallel_sha_verify_with_reset_exact:
  assumes "job_sizes startSalt sd inCheckpoint inRes iterations c skip" "length resetStep = 32"
    and "0 < maxThreadCount" "length outCheckpoint = Suc c * Suc skip * 32"
  shows "vdf_parallel_sha_verify_with_reset sha256 startSalt sd c skip (int iterations) inRes inCheckpoint
           outCheckpoint resetStep rseed maxThreadCount
           (\<lambda>res out. (res \<longleftrightarrow> claims_honest (with_reset sha256 resetStep rseed) sha256 iterations startSalt sd
                               inCheckpoint inRes c skip) \<and>
              (res \<longrightarrow> out = all_outputs (with_reset sha256 resetStep rseed) sha256 iterations startSalt sd
                               (Suc c * Suc skip)))"
  using verify_with_reset_keeps_promise [OF assms, of sha256 rseed] unfolding verify_promise_def .

theorem vdf_parallel_sha_verify_with_reset_exact_witness:
  "vdf_parallel_sha_verify_with_reset (\<lambda>bs. of_nat (length bs)) (be_bytes 32 4) (replicate 32 2) 1 2 (int 2) (digest 64)
     (digest 64) (replicate 192 0) (be_bytes 32 6) (replicate 32 9) 2
     (\<lambda>res out. (res \<longleftrightarrow> claims_honest (with_reset (\<lambda>bs. of_nat (length bs)) (be_bytes 32 6) (replicate 32 9))
                   (\<lambda>bs. of_nat (length bs)) 2 (be_bytes 32 4) (replicate 32 2) (digest 64) (digest 64) 1 2) \<and>
        (res \<longrightarrow> out = all_outputs (with_reset (\<lambda>bs. of_nat (length bs)) (be_bytes 32 6) (replicate 32 9))
                   (\<lambda>bs. of_nat (length bs)) 2 (be_bytes 32 4) (replicate 32 2) (Suc 1 * Suc 2)))"
  by (rule vdf_parallel_sha_verify_with_reset_exact) (simp_all add: job_sizes_def)

text \<open>
  What one node computes another accepts. The result and the checkpoints that
  \<open>vdf_sha2\<close> returns pass \<open>vdf_parallel_sha_verify\<close> under every schedule and for every number of
  threads.
\<close>

theorem computed_vdf_verifies:
  assumes "length salt = 32" "length sd = 32" "length out = 32" "length cps = 32 * c"
    and "2 \<le> iterations" "Suc skip < 2 ^ 31" "32 * (c * Suc skip) < 2 ^ 31"
    and "vdf_sha2 sha256 salt sd out cps (int c) (int skip) (int iterations) = Some (res, checkpoints)"
    and "0 < maxThreadCount" "length buf = Suc c * Suc skip * 32"
  shows "vdf_parallel_sha_verify sha256 salt sd c skip (int iterations) res checkpoints buf maxThreadCount
           (\<lambda>ok out. ok \<and> out = all_outputs no_reset sha256 iterations salt sd (Suc c * Suc skip))"
proof -
  let ?g = "\<lambda>j. vdf_chain no_reset sha256 iterations (be_val salt) sd (Suc j * Suc skip)"
  have "32 * c \<le> 32 * (c * Suc skip)" by simp
  then have "32 * c < 2 ^ 31" using assms(7) by (rule le_less_trans)
  then have c: "c \<le> 2 ^ 26" by simp
  have r: "res = ?g c" "checkpoints = concat (map ?g [0..<c])"
    using vdf_sha2_chain [of salt sd out cps c iterations skip sha256] assms c
    by (simp_all add: vdf_checkpoint_def del: vdf_chain.simps)
  have h: "claims_honest no_reset sha256 iterations salt sd checkpoints res c skip"
    unfolding r by (rule stored_checkpoints_honest [OF assms(2)])
  have "length (?g j) = 32" for j using assms(2) by (simp del: vdf_chain.simps)
  then have "length (concat (map ?g [0..<c])) = c * 32" by (induction c) (simp_all del: vdf_chain.simps)
  then have "job_sizes salt sd checkpoints res iterations c skip"
    using assms r by (simp add: job_sizes_def del: vdf_chain.simps)
  from verify_keeps_promise [OF this assms(9,10), of sha256] h show ?thesis
    unfolding vdf_parallel_sha_verify_def Let_def by (auto elim!: all_runs_mono simp: verify_promise_def)
qed

theorem computed_vdf_verifies_witness:
  "vdf_parallel_sha_verify (\<lambda>_. 7) (replicate 32 1) (replicate 32 2) 1 0 (int 2) (digest 7) (digest 7)
     (replicate 64 0) 2 (\<lambda>ok out. ok \<and> out = all_outputs no_reset (\<lambda>_. 7) 2 (replicate 32 1) (replicate 32 2) (Suc 1 * Suc 0))"
proof (rule computed_vdf_verifies)
  show "vdf_sha2 (\<lambda>_. 7) (replicate 32 1) (replicate 32 2) (replicate 32 0) (replicate 32 0) (int 1) (int 0) (int 2) =
      Some (digest 7, digest 7)"
    using vdf_sha2_chain [of "replicate 32 1" "replicate 32 2" "replicate 32 0" "replicate 32 0" 1 2 0 "\<lambda>_. 7"]
    by (simp add: vdf_checkpoint_def Let_def numeral_2_eq_2)
qed simp_all

end
