(* ===== verification/Vdf_Nifs.thy ===== *)
theory Vdf_Nifs
  imports Rx_State Vdf_Verify
begin


text \<open>\<open>VDF_SHA_HASH_SIZE*(1+checkpointCount)*(1+skipCheckpointCount)\<close>, evaluated from the left.\<close>

definition out_checkpoint_size :: "int \<Rightarrow> int \<Rightarrow> int option" where
  "out_checkpoint_size count skip = do {
     a \<leftarrow> c_int (1 + count);
     b \<leftarrow> c_int (int VDF_SHA_HASH_SIZE * a);
     c \<leftarrow> c_int (1 + skip);
     c_int (b * c) }"

text \<open>
  The comparison \<open>InCheckpoint.size != checkpointCount*VDF_SHA_HASH_SIZE\<close>: the product is an \<open>int\<close> that is
  converted to \<open>size_t\<close>, so a negative one equals no size.
\<close>

definition checkpoints_fit :: "bytes \<Rightarrow> int \<Rightarrow> bool option" where
  "checkpoints_fit InCheckpoint count = do {
     p \<leftarrow> c_int (count * int VDF_SHA_HASH_SIZE);
     Some (int (length InCheckpoint) = p mod 2 ^ 64) }"

text \<open>A result of a verifier as a term.\<close>

definition verify_reply :: "'t enif \<Rightarrow> bool \<Rightarrow> bytes \<Rightarrow> 't" where
  "verify_reply e res outCheckpoint =
     (if \<not> res then error_nif e ''verification failed'' else ok_tuple e (enif_make_binary e outCheckpoint))"

text \<open>
  A negative \<open>skipCheckpointCount\<close> leaves the verifiers with an output hash that was never written, or with
  a negative buffer size.
\<close>

definition vdf_parallel_sha_verify_nif :: "'t enif \<Rightarrow> hash_fn \<Rightarrow> 't list \<Rightarrow> ('t \<Rightarrow> bool) \<Rightarrow> bool" where
  "vdf_parallel_sha_verify_nif e sha256 argv Q =
     (let badarg = Q (enif_make_badarg e)
      in if length argv \<noteq> 8 then badarg
         else need (enif_inspect_binary e (argv ! 0)) badarg (\<lambda>Salt.
              if length Salt \<noteq> SALT_SIZE then badarg else
              need (enif_inspect_binary e (argv ! 1)) badarg (\<lambda>Seed.
              if length Seed \<noteq> VDF_SHA_HASH_SIZE then badarg else
              need (enif_get_int e (argv ! 2)) badarg (\<lambda>checkpointCount.
              need (enif_get_int e (argv ! 3)) badarg (\<lambda>skipCheckpointCount.
              need (enif_get_int e (argv ! 4)) badarg (\<lambda>hashingIterations.
              need (enif_inspect_binary e (argv ! 5)) badarg (\<lambda>InCheckpoint.
              need (checkpoints_fit InCheckpoint checkpointCount) False (\<lambda>fit.
              if \<not> fit then badarg else
              need (enif_inspect_binary e (argv ! 6)) badarg (\<lambda>InRes.
              if length InRes \<noteq> VDF_SHA_HASH_SIZE then badarg else
              need (enif_get_int e (argv ! 7)) badarg (\<lambda>maxThreadCount.
              if maxThreadCount < 1 then badarg else
              need (out_checkpoint_size checkpointCount skipCheckpointCount) False (\<lambda>outCheckpointSize.
              need (new_buffer e outCheckpointSize) False (\<lambda>outCheckpoint.
              0 \<le> skipCheckpointCount \<and>
              vdf_parallel_sha_verify sha256 Salt Seed (nat checkpointCount) (nat skipCheckpointCount) hashingIterations
                InRes InCheckpoint outCheckpoint maxThreadCount (\<lambda>res out. Q (verify_reply e res out))))))))))))))"

definition vdf_parallel_sha_verify_with_reset_nif :: "'t enif \<Rightarrow> hash_fn \<Rightarrow> 't list \<Rightarrow> ('t \<Rightarrow> bool) \<Rightarrow> bool" where
  "vdf_parallel_sha_verify_with_reset_nif e sha256 argv Q =
     (let badarg = Q (enif_make_badarg e)
      in if length argv \<noteq> 10 then badarg
         else need (enif_inspect_binary e (argv ! 0)) badarg (\<lambda>Salt.
              if length Salt \<noteq> SALT_SIZE then badarg else
              need (enif_inspect_binary e (argv ! 1)) badarg (\<lambda>Seed.
              if length Seed \<noteq> VDF_SHA_HASH_SIZE then badarg else
              need (enif_get_int e (argv ! 2)) badarg (\<lambda>checkpointCount.
              need (enif_get_int e (argv ! 3)) badarg (\<lambda>skipCheckpointCount.
              need (enif_get_int e (argv ! 4)) badarg (\<lambda>hashingIterations.
              need (enif_inspect_binary e (argv ! 5)) badarg (\<lambda>InCheckpoint.
              need (checkpoints_fit InCheckpoint checkpointCount) False (\<lambda>fit.
              if \<not> fit then badarg else
              need (enif_inspect_binary e (argv ! 6)) badarg (\<lambda>InRes.
              if length InRes \<noteq> VDF_SHA_HASH_SIZE then badarg else
              need (enif_inspect_binary e (argv ! 7)) badarg (\<lambda>ResetSalt.
              if length ResetSalt \<noteq> 32 then badarg else
              need (enif_inspect_binary e (argv ! 8)) badarg (\<lambda>ResetSeed.
              if length ResetSeed \<noteq> VDF_SHA_HASH_SIZE then badarg else
              need (enif_get_int e (argv ! 9)) badarg (\<lambda>maxThreadCount.
              if maxThreadCount < 1 then badarg else
              need (out_checkpoint_size checkpointCount skipCheckpointCount) False (\<lambda>outCheckpointSize.
              need (new_buffer e outCheckpointSize) False (\<lambda>outCheckpoint.
              0 \<le> skipCheckpointCount \<and>
              vdf_parallel_sha_verify_with_reset sha256 Salt Seed (nat checkpointCount) (nat skipCheckpointCount)
                hashingIterations InRes InCheckpoint outCheckpoint ResetSalt ResetSeed maxThreadCount
                (\<lambda>res out. Q (verify_reply e res out))))))))))))))))"

section \<open>Sizes\<close>

lemma out_checkpoint_size_nat:
  assumes "32 * Suc c * Suc skip < 2 ^ 31"
  shows "out_checkpoint_size (int c) (int skip) = Some (int (Suc c * Suc skip * 32))"
proof -
  have le: "Suc c \<le> 32 * Suc c * Suc skip" "32 * Suc c \<le> 32 * Suc c * Suc skip" by simp_all
  have "1 * Suc skip \<le> 32 * Suc c * Suc skip" by (rule mult_le_mono1) simp
  then have "Suc skip < 2 ^ 31" using assms unfolding mult_1 by (rule le_less_trans)
  moreover note le [THEN le_less_trans, OF assms]
  ultimately have "Suc c < 2 ^ 31" "32 * Suc c < 2 ^ 31" "Suc skip < 2 ^ 31" by simp_all
  then have "c_int (int (Suc c)) = Some (int (Suc c))" "c_int (int (32 * Suc c)) = Some (int (32 * Suc c))"
      "c_int (int (Suc skip)) = Some (int (Suc skip))" "c_int (int (32 * Suc c * Suc skip)) = Some (int (32 * Suc c * Suc skip))"
    using assms by (auto simp: c_int_def simp del: of_nat_Suc of_nat_mult)
  moreover have "1 + int c = int (Suc c)" "1 + int skip = int (Suc skip)" by simp_all
  moreover have "int VDF_SHA_HASH_SIZE * int (Suc c) = int (32 * Suc c)"
      "int (32 * Suc c) * int (Suc skip) = int (32 * Suc c * Suc skip)" by (simp_all only: VDF_SHA_HASH_SIZE_def of_nat_mult)
  moreover have "32 * Suc c * Suc skip = Suc c * Suc skip * 32" by (simp only: mult_ac)
  ultimately show ?thesis unfolding out_checkpoint_size_def by (simp only: Option.bind_lunit)
qed

lemma checkpoints_fit_nat:
  assumes "c * 32 < 2 ^ 31" shows "checkpoints_fit cp (int c) = Some (length cp = c * 32)"
proof -
  have "c_int (int (c * 32)) = Some (int (c * 32))" using assms by (auto simp: c_int_def simp del: of_nat_mult)
  moreover have "int (c * 32) mod 2 ^ 64 = int (c * 32)" using assms by simp
  moreover have "int c * int VDF_SHA_HASH_SIZE = int (c * 32)" by (simp add: VDF_SHA_HASH_SIZE_def)
  ultimately show ?thesis
    unfolding checkpoints_fit_def by (simp only: Option.bind_lunit of_nat_eq_iff)
qed


section \<open>The functions on well-formed arguments\<close>

definition vdf_arguments :: "'t enif \<Rightarrow> 't list \<Rightarrow> bytes \<Rightarrow> bytes \<Rightarrow> nat \<Rightarrow> nat \<Rightarrow> nat \<Rightarrow> bool" where
  "vdf_arguments e argv salt sd c skip iterations \<longleftrightarrow>
     enif_inspect_binary e (argv ! 0) = Some salt \<and> length salt = 32 \<and>
     enif_inspect_binary e (argv ! 1) = Some sd \<and> length sd = 32 \<and>
     enif_get_int e (argv ! 2) = Some (int c) \<and> enif_get_int e (argv ! 3) = Some (int skip) \<and>
     enif_get_int e (argv ! 4) = Some (int iterations) \<and> 32 * Suc c * Suc skip < 2 ^ 31"

definition verify_arguments :: "'t enif \<Rightarrow> 't list \<Rightarrow> bytes \<Rightarrow> bytes \<Rightarrow> nat \<Rightarrow> nat \<Rightarrow> nat \<Rightarrow> bytes \<Rightarrow> bytes \<Rightarrow> bool" where
  "verify_arguments e argv salt sd c skip iterations cps res \<longleftrightarrow>
     vdf_arguments e argv salt sd c skip iterations \<and>
     enif_inspect_binary e (argv ! 5) = Some cps \<and> enif_inspect_binary e (argv ! 6) = Some res"

lemma vdf_arguments_bounds:
  assumes "vdf_arguments e argv salt sd c skip iterations"
  shows "c * 32 < 2 ^ 31" "32 * (c * Suc skip) < 2 ^ 31" "Suc skip < 2 ^ 31" "c \<le> 2 ^ 26"
proof -
  have b: "32 * Suc c * Suc skip < 2 ^ 31" using assms by (simp add: vdf_arguments_def)
  have "32 * (c * Suc skip) \<le> 32 * (Suc c * Suc skip)" by (intro mult_le_mono order_refl) simp
  then have "32 * (c * Suc skip) \<le> 32 * Suc c * Suc skip" by (simp only: mult.assoc)
  moreover have "c * 32 \<le> 32 * Suc c * Suc skip" by simp
  moreover have "1 * Suc skip \<le> 32 * Suc c * Suc skip" by (intro mult_le_mono1) simp
  then have "Suc skip \<le> 32 * Suc c * Suc skip" by (simp only: mult_1)
  ultimately show c: "c * 32 < 2 ^ 31" "32 * (c * Suc skip) < 2 ^ 31" "Suc skip < 2 ^ 31"
    using b by (blast intro: le_less_trans)+
  show "c \<le> 2 ^ 26" using c(1) by simp
qed



lemma verify_mono:
  assumes "vdf_parallel_sha_verify sha256 salt sd c skip it res cps buf n Q" "\<And>b out. Q b out \<Longrightarrow> R b out"
  shows "vdf_parallel_sha_verify sha256 salt sd c skip it res cps buf n R"
  using assms(1) unfolding vdf_parallel_sha_verify_def Let_def
  by (rule all_runs_mono) (use assms(2) in blast)

lemma verify_with_reset_mono:
  assumes "vdf_parallel_sha_verify_with_reset sha256 salt sd c skip it res cps buf rs rseed n Q" "\<And>b out. Q b out \<Longrightarrow> R b out"
  shows "vdf_parallel_sha_verify_with_reset sha256 salt sd c skip it res cps buf rs rseed n R"
  using assms(1) unfolding vdf_parallel_sha_verify_with_reset_def Let_def
  by (rule all_runs_mono) (use assms(2) in blast)

lemma verify_sizes:
  assumes "fresh_lengths e" "verify_arguments e argv salt sd c skip iterations cps res" "length cps = c * 32" "length res = 32"
    and "2 \<le> iterations"
  shows "job_sizes salt sd cps res iterations c skip" "length (fresh_bytes e (Suc c * Suc skip * 32)) = Suc c * Suc skip * 32"
  using assms vdf_arguments_bounds(2,3) [of e argv salt sd c skip iterations]
  by (simp_all add: job_sizes_def fresh_lengths_def verify_arguments_def vdf_arguments_def)

text \<open>What the two verifying functions answer for well-formed arguments.\<close>

definition verdict :: "'t enif \<Rightarrow> (bytes \<Rightarrow> bytes \<Rightarrow> bytes) \<Rightarrow> hash_fn \<Rightarrow> nat \<Rightarrow> bytes \<Rightarrow> bytes \<Rightarrow> bytes \<Rightarrow> bytes \<Rightarrow> nat \<Rightarrow> nat \<Rightarrow> 't" where
  "verdict e pre sha256 iterations salt sd cps res c skip =
     (if claims_honest pre sha256 iterations salt sd cps res c skip
      then ok_tuple e (enif_make_binary e (all_outputs pre sha256 iterations salt sd (Suc c * Suc skip)))
      else error_nif e ''verification failed'')"

lemma promise_verdict:
  "verify_promise pre sha256 iterations salt sd cps res c skip b out \<Longrightarrow>
   verify_reply e b out = verdict e pre sha256 iterations salt sd cps res c skip"
  by (auto simp: verify_promise_def verify_reply_def verdict_def)

lemma verify_nif_run:
  assumes "fresh_lengths e" "length argv = 8" "verify_arguments e argv salt sd c skip iterations cps res"
    and "enif_get_int e (argv ! 7) = Some threads" "2 \<le> iterations"
  shows "vdf_parallel_sha_verify_nif e sha256 argv
     (\<lambda>t. t = (if length cps = c * 32 \<and> length res = 32 \<and> 1 \<le> threads
               then verdict e no_reset sha256 iterations salt sd cps res c skip else enif_make_badarg e))"
proof -
  have a: "enif_inspect_binary e (argv ! 0) = Some salt" "enif_inspect_binary e (argv ! 1) = Some sd"
      "enif_get_int e (argv ! 2) = Some (int c)" "enif_get_int e (argv ! 3) = Some (int skip)"
      "enif_get_int e (argv ! 4) = Some (int iterations)" "enif_inspect_binary e (argv ! 5) = Some cps"
      "enif_inspect_binary e (argv ! 6) = Some res" and l: "length salt = SALT_SIZE" "length sd = VDF_SHA_HASH_SIZE"
    and b: "32 * Suc c * Suc skip < 2 ^ 31" "c * 32 < 2 ^ 31"
    using assms(3) vdf_arguments_bounds(1)
    by (auto simp: verify_arguments_def vdf_arguments_def SALT_SIZE_def VDF_SHA_HASH_SIZE_def)
  have run: "vdf_parallel_sha_verify sha256 salt sd c skip (int iterations) res cps (fresh_bytes e (Suc c * Suc skip * 32)) threads
      (\<lambda>r out. verify_reply e r out = verdict e no_reset sha256 iterations salt sd cps res c skip)"
    if "length cps = c * 32" "length res = 32" "1 \<le> threads"
    by (rule verify_mono [OF verify_keeps_promise [OF verify_sizes(1) _ verify_sizes(2)]])
       (use assms that in \<open>auto intro: promise_verdict\<close>)
  show ?thesis
    unfolding vdf_parallel_sha_verify_nif_def Let_def a assms(4) need_simps checkpoints_fit_nat [OF b(2)]
      out_checkpoint_size_nat [OF b(1)] new_buffer_nat
    using assms(2) l run by (auto simp: VDF_SHA_HASH_SIZE_def simp del: mult_Suc mult_Suc_right)
qed

lemma verify_with_reset_nif_run:
  assumes "fresh_lengths e" "length argv = 10" "verify_arguments e argv salt sd c skip iterations cps res"
    and "enif_inspect_binary e (argv ! 7) = Some rs" "length rs = 32"
    and "enif_inspect_binary e (argv ! 8) = Some rseed" "length rseed = 32"
    and "enif_get_int e (argv ! 9) = Some threads" "2 \<le> iterations"
  shows "vdf_parallel_sha_verify_with_reset_nif e sha256 argv
     (\<lambda>t. t = (if length cps = c * 32 \<and> length res = 32 \<and> 1 \<le> threads
               then verdict e (with_reset sha256 rs rseed) sha256 iterations salt sd cps res c skip else enif_make_badarg e))"
proof -
  have a: "enif_inspect_binary e (argv ! 0) = Some salt" "enif_inspect_binary e (argv ! 1) = Some sd"
      "enif_get_int e (argv ! 2) = Some (int c)" "enif_get_int e (argv ! 3) = Some (int skip)"
      "enif_get_int e (argv ! 4) = Some (int iterations)" "enif_inspect_binary e (argv ! 5) = Some cps"
      "enif_inspect_binary e (argv ! 6) = Some res" and l: "length salt = SALT_SIZE" "length sd = VDF_SHA_HASH_SIZE"
    and b: "32 * Suc c * Suc skip < 2 ^ 31" "c * 32 < 2 ^ 31"
    using assms(3) vdf_arguments_bounds(1)
    by (auto simp: verify_arguments_def vdf_arguments_def SALT_SIZE_def VDF_SHA_HASH_SIZE_def)
  have run: "vdf_parallel_sha_verify_with_reset sha256 salt sd c skip (int iterations) res cps
      (fresh_bytes e (Suc c * Suc skip * 32)) rs rseed threads
      (\<lambda>r out. verify_reply e r out = verdict e (with_reset sha256 rs rseed) sha256 iterations salt sd cps res c skip)"
    if "length cps = c * 32" "length res = 32" "1 \<le> threads"
    by (rule verify_with_reset_mono [OF verify_with_reset_keeps_promise])
       (use assms that in \<open>auto intro: promise_verdict verify_sizes simp del: mult_Suc mult_Suc_right\<close>)
  show ?thesis
    unfolding vdf_parallel_sha_verify_with_reset_nif_def Let_def a assms(4,6,8) need_simps checkpoints_fit_nat [OF b(2)]
      out_checkpoint_size_nat [OF b(1)] new_buffer_nat
    using assms(2,5,7) l run by (auto simp: VDF_SHA_HASH_SIZE_def simp del: mult_Suc mult_Suc_right)
qed

section \<open>Properties\<close>

text \<open>
  Property C23: the verifying functions decide honesty. For every salt and seed of 32 bytes, counts whose
  output buffer has less than \<open>2 ^ 31\<close> bytes and at least two iterations, both functions return under
  every schedule: \<open>badarg\<close> when the checkpoints, the result or the number of threads do not fit, else
  \<open>{ok, Outputs}\<close> with all outputs of the chain if and only if every claimed hash is on the chain, else
  \<open>{error, "verification failed"}\<close>.
\<close>

theorem vdf_verify_nifs_decide_honesty:
  assumes "fresh_lengths e" "2 \<le> iterations"
    and "length argv = 8" "verify_arguments e argv salt sd c skip iterations cps res" "enif_get_int e (argv ! 7) = Some threads"
    and "length argv' = 10" "verify_arguments e argv' salt sd c skip iterations cps res" "enif_get_int e (argv' ! 9) = Some threads"
    and "enif_inspect_binary e (argv' ! 7) = Some rs" "length rs = 32" "enif_inspect_binary e (argv' ! 8) = Some rseed" "length rseed = 32"
  shows "vdf_parallel_sha_verify_nif e sha256 argv
      (\<lambda>t. t = (if length cps = c * 32 \<and> length res = 32 \<and> 1 \<le> threads
                then verdict e no_reset sha256 iterations salt sd cps res c skip else enif_make_badarg e)) \<and>
    vdf_parallel_sha_verify_with_reset_nif e sha256 argv'
      (\<lambda>t. t = (if length cps = c * 32 \<and> length res = 32 \<and> 1 \<le> threads
                then verdict e (with_reset sha256 rs rseed) sha256 iterations salt sd cps res c skip else enif_make_badarg e))"
  using verify_nif_run [OF assms(1,3,4,5,2)] verify_with_reset_nif_run [OF assms(1,6,7,9,10,11,12,8,2)] by blast

definition toy_verify_args :: "bytes \<Rightarrow> bytes \<Rightarrow> toy_term list" where
  "toy_verify_args cps res = [Bin (replicate 32 1), Bin (replicate 32 2), Num 1, Num 1, Num 2, Bin cps, Bin res]"

lemma toy_verify_arguments:
  "verify_arguments toy_enif (toy_verify_args cps res @ xs) (replicate 32 1) (replicate 32 2) 1 1 2 cps res"
  by (simp add: verify_arguments_def vdf_arguments_def toy_verify_args_def c_int_def nth_append)

theorem vdf_verify_nifs_decide_honesty_witness:
  "vdf_parallel_sha_verify_nif toy_enif (\<lambda>_. 7) (toy_verify_args (digest 7) (digest 8) @ [Num 2])
      (\<lambda>t. t = (if length (digest 7) = 1 * 32 \<and> length (digest 8) = 32 \<and> 1 \<le> (2::int)
                then verdict toy_enif no_reset (\<lambda>_. 7) 2 (replicate 32 1) (replicate 32 2) (digest 7) (digest 8) 1 1
                else enif_make_badarg toy_enif)) \<and>
    vdf_parallel_sha_verify_with_reset_nif toy_enif (\<lambda>_. 7)
      (toy_verify_args (digest 7) (digest 8) @ [Bin (replicate 32 1), Bin (replicate 32 4), Num 2])
      (\<lambda>t. t = (if length (digest 7) = 1 * 32 \<and> length (digest 8) = 32 \<and> 1 \<le> (2::int)
                then verdict toy_enif (with_reset (\<lambda>_. 7) (replicate 32 1) (replicate 32 4)) (\<lambda>_. 7) 2 (replicate 32 1)
                       (replicate 32 2) (digest 7) (digest 8) 1 1
                else enif_make_badarg toy_enif))"
  by (rule vdf_verify_nifs_decide_honesty [OF _ _ _ toy_verify_arguments _ _ toy_verify_arguments])
     (simp_all add: toy_verify_args_def c_int_def nth_append)



end
