(* ===== verification/Erl_Comm.thy ===== *)
theory Erl_Comm
  imports Prelude
begin

text \<open>
  The packets between the Erlang node and the SQLite port, after \<open>erl_comm.c\<close>. The operating system's
  pipes are a record: the bytes still to come on descriptor 0, the bytes written to descriptor 1, and
  for both directions a script of how much each system call may transfer. A script entry \<open>d > 0\<close> lets a
  call transfer at most \<open>d\<close> bytes, an entry \<open>d \<le> 0\<close> makes it fail; once the script is over, calls
  transfer all they can. So every fragmentation of the streams and every point of failure is a script.
\<close>

section \<open>Pipes\<close>

record pipes =
  stdin :: bytes
  reads :: "int list"
  stdout :: bytes
  writes :: "int list"

text \<open>The return value, the bytes stored in the caller's buffer, and the pipes after the call.\<close>

definition os_read :: "nat \<Rightarrow> pipes \<Rightarrow> int \<times> bytes \<times> pipes" where
  "os_read n p =
     (let d = (case reads p of [] \<Rightarrow> int n | d # _ \<Rightarrow> d);
          p = p\<lparr>reads := tl (reads p)\<rparr>
      in if d \<le> 0 then (-1, [], p)
         else let data = take (min (nat d) n) (stdin p)
              in (int (length data), data, p\<lparr>stdin := drop (length data) (stdin p)\<rparr>))"

definition os_write :: "bytes \<Rightarrow> pipes \<Rightarrow> int \<times> pipes" where
  "os_write data p =
     (let d = (case writes p of [] \<Rightarrow> int (length data) | d # _ \<Rightarrow> d);
          p = p\<lparr>writes := tl (writes p)\<rparr>
      in if d \<le> 0 then (-1, p)
         else let n = min (nat d) (length data) in (int n, p\<lparr>stdout := stdout p @ take n data\<rparr>))"

section \<open>The functions of erl_comm.c\<close>

text \<open>
  Results are the return value, the buffer where the function writes one, and the pipes; \<^term>\<open>None\<close> is an
  access outside the buffer.
\<close>

definition PACKET_SIZE :: int where
  "PACKET_SIZE = 2"

function read_exact_loop :: "bytes \<Rightarrow> int \<Rightarrow> int \<Rightarrow> pipes \<Rightarrow> (int \<times> bytes \<times> pipes) option" where
  "read_exact_loop buf len got p =
     (if got < len then
        (case os_read (nat (len - got)) p of (i, data, p) \<Rightarrow>
           if i \<le> 0 then Some (0, buf, p)
           else do { buf \<leftarrow> wr buf got data; read_exact_loop buf len (got + i) p })
      else Some (len, buf, p))"
  by pat_completeness auto

termination
  by (relation "measure (\<lambda>(buf, len, got, p). nat (len - got))") auto

definition read_exact :: "bytes \<Rightarrow> int \<Rightarrow> pipes \<Rightarrow> (int \<times> bytes \<times> pipes) option" where
  "read_exact buf len p = read_exact_loop buf len 0 p"

function write_exact_loop :: "bytes \<Rightarrow> int \<Rightarrow> int \<Rightarrow> pipes \<Rightarrow> (int \<times> pipes) option" where
  "write_exact_loop buf len wrote p =
     (if wrote < len then do {
        data \<leftarrow> rd buf wrote (nat (len - wrote));
        (case os_write data p of (i, p) \<Rightarrow>
           if i \<le> 0 then Some (0, p) else write_exact_loop buf len (wrote + i) p) }
      else Some (len, p))"
  by pat_completeness auto

termination
  by (relation "measure (\<lambda>(buf, len, wrote, p). nat (len - wrote))") auto

definition write_exact :: "bytes \<Rightarrow> int \<Rightarrow> pipes \<Rightarrow> (int \<times> pipes) option" where
  "write_exact buf len p = write_exact_loop buf len 0 p"

definition read_cmd :: "bytes \<Rightarrow> pipes \<Rightarrow> (int \<times> bytes \<times> pipes) option" where
  "read_cmd buf p = do {
     (r, buf, p) \<leftarrow> read_exact buf PACKET_SIZE p;
     if r \<noteq> PACKET_SIZE then Some (0, buf, p)
     else do {
       let len = push_bit 8 (uint (buf ! 0)) OR uint (buf ! 1);
       read_exact buf len p } }"

definition write_cmd :: "bytes \<Rightarrow> int \<Rightarrow> pipes \<Rightarrow> (int \<times> pipes) option" where
  "write_cmd buf len p = do {
     let li = (word_of_int (drop_bit 8 len AND 255) :: byte);
     (_, p) \<leftarrow> write_exact [li] 1 p;
     let li = (word_of_int (len AND 255) :: byte);
     (_, p) \<leftarrow> write_exact [li] 1 p;
     write_exact buf len p }"

declare read_exact_loop.simps [simp del] write_exact_loop.simps [simp del]

section \<open>Exact transfers under every fragmentation\<close>

definition healthy :: "int list \<Rightarrow> bool" where
  "healthy script \<longleftrightarrow> (\<forall>d \<in> set script. 0 < d)"

lemma healthy_tl [simp]: "healthy ds \<Longrightarrow> healthy (tl ds)"
  by (cases ds) (auto simp: healthy_def)

lemma healthy_Nil [simp]: "healthy []"
  by (simp add: healthy_def)

lemma os_read_healthy:
  assumes "healthy (reads p)" "0 < n" "stdin p \<noteq> []"
  obtains k where "0 < k" "k \<le> n" "k \<le> length (stdin p)"
    "os_read n p = (int k, take k (stdin p), p\<lparr>stdin := drop k (stdin p), reads := tl (reads p)\<rparr>)"
proof -
  let ?d = "case reads p of [] \<Rightarrow> int n | d # _ \<Rightarrow> d"
  let ?k = "min (length (stdin p)) (min (nat ?d) n)"
  have d: "0 < ?d" using assms(1,2) by (auto simp: healthy_def split: list.splits)
  have "take (min (nat ?d) n) (stdin p) = take ?k (stdin p)" by (simp add: min_def)
  then show thesis using d assms(2,3) by (intro that [of ?k]) (simp_all add: os_read_def Let_def)
qed

lemma os_read_bounds:
  "os_read n p = (i, data, p') \<Longrightarrow>
   stdout p' = stdout p \<and> writes p' = writes p \<and> length (stdin p') \<le> length (stdin p) \<and>
   (0 < i \<longrightarrow> i = int (length data) \<and> length data \<le> n \<and> length (stdin p') + length data = length (stdin p))"
  unfolding os_read_def Let_def by (split if_split_asm) auto

lemma os_write_bounds: "os_write data p = (i, p') \<Longrightarrow> stdin p' = stdin p \<and> i \<le> int (length data)"
  unfolding os_write_def Let_def by (split if_split_asm) auto

lemma os_write_healthy:
  assumes "healthy (writes p)" "data \<noteq> []"
  obtains k where "0 < k" "k \<le> length data"
    "os_write data p = (int k, p\<lparr>stdout := stdout p @ take k data, writes := tl (writes p)\<rparr>)"
proof -
  let ?d = "case writes p of [] \<Rightarrow> int (length data) | d # _ \<Rightarrow> d"
  have d: "0 < ?d" using assms by (auto simp: healthy_def split: list.splits)
  show thesis by (rule that [of "min (nat ?d) (length data)"]) (use d assms(2) in \<open>auto simp: os_write_def Let_def\<close>)
qed

lemma read_exact_loop_all:
  assumes "healthy (reads p)" "got \<le> n" "n - got \<le> length (stdin p)" "n \<le> length buf"
  shows "\<exists>rs. healthy rs \<and> read_exact_loop buf (int n) (int got) p =
           Some (int n, take got buf @ take (n - got) (stdin p) @ drop n buf, p\<lparr>stdin := drop (n - got) (stdin p), reads := rs\<rparr>)"
  using assms
proof (induction "n - got" arbitrary: got buf p rule: less_induct)
  case less
  show ?case
  proof (cases "got < n")
    case False
    then show ?thesis
      using less.prems by (intro exI [of _ "reads p"]) (subst read_exact_loop.simps, simp)
  next
    case True
    then have ne: "stdin p \<noteq> []" "0 < n - got" using less.prems(3) by auto
    obtain k where k: "0 < k" "k \<le> n - got" "k \<le> length (stdin p)"
      "os_read (n - got) p = (int k, take k (stdin p), p\<lparr>stdin := drop k (stdin p), reads := tl (reads p)\<rparr>)"
      using os_read_healthy [OF less.prems(1) ne(2,1)] by blast
    let ?buf = "take got buf @ take k (stdin p) @ drop (got + k) buf" and ?p = "p\<lparr>stdin := drop k (stdin p), reads := tl (reads p)\<rparr>"
    have w: "wr buf (int got) (take k (stdin p)) = Some ?buf"
      using k True less.prems(4) by (simp add: wr_def min_def)
    have step: "read_exact_loop buf (int n) (int got) p = read_exact_loop ?buf (int n) (int (got + k)) ?p"
      using True k(1,4) w by (subst read_exact_loop.simps) (simp add: nat_diff_distrib)
    have "\<exists>rs. healthy rs \<and> read_exact_loop ?buf (int n) (int (got + k)) ?p =
        Some (int n, take (got + k) ?buf @ take (n - (got + k)) (stdin ?p) @ drop n ?buf,
          ?p\<lparr>stdin := drop (n - (got + k)) (stdin ?p), reads := rs\<rparr>)"
      by (rule less.hyps) (use k True less.prems in auto)
    moreover have "take (got + k) ?buf @ take (n - (got + k)) (drop k (stdin p)) @ drop n ?buf =
        take got buf @ take (n - got) (stdin p) @ drop n buf"
    proof -
      have "take k (stdin p) @ take (n - (got + k)) (drop k (stdin p)) = take (n - got) (stdin p)"
        using k(2) by (metis diff_diff_left le_add_diff_inverse take_add)
      moreover have "take (got + k) ?buf = take got buf @ take k (stdin p)" "drop n ?buf = drop n buf"
        using k True less.prems(4) by simp_all
      ultimately show ?thesis by (metis append.assoc)
    qed
    moreover have "drop (n - (got + k)) (drop k (stdin p)) = drop (n - got) (stdin p)"
    proof -
      have "n - (got + k) + k = n - got" using k(2) by arith
      then show ?thesis by simp
    qed
    ultimately show ?thesis unfolding step by simp
  qed
qed

lemma read_exact_all:
  assumes "healthy (reads p)" "n \<le> length (stdin p)" "n \<le> length buf"
  shows "\<exists>rs. healthy rs \<and> read_exact buf (int n) p =
           Some (int n, take n (stdin p) @ drop n buf, p\<lparr>stdin := drop n (stdin p), reads := rs\<rparr>)"
  using read_exact_loop_all [of p 0 n buf] assms by (simp add: read_exact_def)

lemma write_exact_loop_all:
  assumes "healthy (writes p)" "k \<le> n" "n \<le> length buf"
  shows "\<exists>ws. healthy ws \<and> write_exact_loop buf (int n) (int k) p =
           Some (int n, p\<lparr>stdout := stdout p @ take (n - k) (drop k buf), writes := ws\<rparr>)"
  using assms
proof (induction "n - k" arbitrary: k p rule: less_induct)
  case less
  show ?case
  proof (cases "k < n")
    case False
    then show ?thesis using less.prems by (intro exI [of _ "writes p"]) (subst write_exact_loop.simps, simp)
  next
    case True
    let ?data = "take (n - k) (drop k buf)"
    have ne: "?data \<noteq> []" using True less.prems(3) by auto
    obtain j where j: "0 < j" "j \<le> length ?data"
      "os_write ?data p = (int j, p\<lparr>stdout := stdout p @ take j ?data, writes := tl (writes p)\<rparr>)"
      using os_write_healthy [OF less.prems(1) ne] by blast
    let ?p = "p\<lparr>stdout := stdout p @ take j ?data, writes := tl (writes p)\<rparr>"
    have "rd buf (int k) (nat (int n - int k)) = Some ?data" using True less.prems(3) by (simp add: rd_def nat_diff_distrib)
    then have step: "write_exact_loop buf (int n) (int k) p = write_exact_loop buf (int n) (int (k + j)) ?p"
      using True j(1,3) by (subst write_exact_loop.simps) simp
    have "\<exists>ws. healthy ws \<and> write_exact_loop buf (int n) (int (k + j)) ?p =
        Some (int n, ?p\<lparr>stdout := stdout ?p @ take (n - (k + j)) (drop (k + j) buf), writes := ws\<rparr>)"
      by (rule less.hyps) (use j True less.prems in auto)
    moreover have "take j ?data @ take (n - (k + j)) (drop (k + j) buf) = ?data"
    proof -
      have jn: "j \<le> n - k" using j(2) by simp
      then have "?data = take j (drop k buf) @ take (n - k - j) (drop j (drop k buf))" by (metis le_add_diff_inverse take_add)
      moreover have "take j ?data = take j (drop k buf)" using jn by (simp add: min_absorb1)
      ultimately show ?thesis by (simp add: add.commute)
    qed
    ultimately show ?thesis unfolding step by simp
  qed
qed

lemma write_exact_all:
  assumes "healthy (writes p)" "n \<le> length buf"
  shows "\<exists>ws. healthy ws \<and> write_exact buf (int n) p = Some (int n, p\<lparr>stdout := stdout p @ take n buf, writes := ws\<rparr>)"
  using write_exact_loop_all [of p 0 n buf] assms by (simp add: write_exact_def)

text \<open>Whatever happens on the pipes, a read stays inside a large enough buffer and reports all or nothing.\<close>

lemma read_exact_loop_total:
  assumes "n \<le> length buf" "got \<le> n"
  shows "\<exists>r buf' p'. read_exact_loop buf (int n) (int got) p = Some (r, buf', p') \<and> (r = int n \<or> r = 0) \<and>
           length buf' = length buf \<and> length (stdin p') + (if r = int n then n - got else 0) \<le> length (stdin p) \<and>
           stdout p' = stdout p \<and> writes p' = writes p"
  using assms
proof (induction "n - got" arbitrary: got buf p rule: less_induct)
  case less
  show ?case
  proof (cases "got < n")
    case False
    then show ?thesis using less.prems by (subst read_exact_loop.simps) simp
  next
    case True
    obtain i data p1 where r: "os_read (n - got) p = (i, data, p1)" by (cases "os_read (n - got) p")
    then have p1: "stdout p1 = stdout p" "writes p1 = writes p" "length (stdin p1) \<le> length (stdin p)"
      and d: "0 < i \<Longrightarrow> i = int (length data) \<and> length data \<le> n - got \<and> length (stdin p1) + length data = length (stdin p)"
      by (auto dest!: os_read_bounds)
    show ?thesis
    proof (cases "i \<le> 0")
      case True
      then show ?thesis using \<open>got < n\<close> r p1 by (subst read_exact_loop.simps) (simp add: nat_diff_distrib)
    next
      case False
      with d have i: "i = int (length data)" "length data \<le> n - got" "length (stdin p1) + length data = length (stdin p)" by auto
      have pos: "0 < length data" using i(1) False by simp
      let ?buf = "take got buf @ data @ drop (got + length data) buf"
      have "wr buf (int got) data = Some ?buf" using True i(2) less.prems(1) by (simp add: wr_def)
      then have step: "read_exact_loop buf (int n) (int got) p = read_exact_loop ?buf (int n) (int (got + length data)) p1"
        using True r False i(1) by (subst read_exact_loop.simps) (simp add: nat_diff_distrib)
      have "\<exists>r buf' p'. read_exact_loop ?buf (int n) (int (got + length data)) p1 = Some (r, buf', p') \<and> (r = int n \<or> r = 0) \<and>
           length buf' = length ?buf \<and> length (stdin p') + (if r = int n then n - (got + length data) else 0) \<le> length (stdin p1) \<and>
           stdout p' = stdout p1 \<and> writes p' = writes p1"
        by (rule less.hyps) (use i(2) True pos less.prems in \<open>simp_all del: length_greater_0_conv\<close>)
      then show ?thesis unfolding step using i(2,3) p1 True less.prems(1) by (auto split: if_splits)
    qed
  qed
qed

lemmas read_exact_total = read_exact_loop_total [of _ _ 0, simplified, folded read_exact_def]

section \<open>Frames\<close>

text \<open>A packet on the wire: two length bytes, most significant first, then the payload.\<close>

definition frame :: "bytes \<Rightarrow> bytes" where
  "frame m = be_bytes 2 (length m) @ m"

lemma length_bytes: "n < 65536 \<Longrightarrow> be_bytes 2 n = [word_of_int (drop_bit 8 (int n) AND 255), word_of_int (int n AND 255)]"
proof -
  have "int n AND 255 = int n mod 256" "drop_bit 8 (int n) AND 255 = int (n div 256) mod 256" for n
    using take_bit_eq_mask [of 8 "int n"] take_bit_eq_mask [of 8 "drop_bit 8 (int n)"]
    by (simp_all add: mask_eq_exp_minus_1 take_bit_eq_mod drop_bit_eq_div zdiv_int)
  moreover have "word_of_int (int x mod 256) = (of_nat (x mod 256) :: byte)" for x
    by (metis of_int_of_nat_eq of_nat_mod of_nat_numeral)
  ultimately show ?thesis by (simp add: numeral_2_eq_2)
qed

lemma two_byte_length:
  "push_bit 8 (uint (a :: byte)) OR uint (b :: byte) = int (be_val [a, b])"
proof -
  have "push_bit 8 (uint a) OR uint b = push_bit 8 (uint a) + uint b"
    by (rule disjunctive_add [symmetric]) (auto simp: bit_push_bit_iff bit_simps dest: bit_imp_le_length)
  then show ?thesis by (simp add: be_val_Cons push_bit_eq_mult)
qed

lemma length_two: "length xs = 2 \<Longrightarrow> xs = [xs ! 0, xs ! 1]"
  by (cases xs; cases "tl xs") auto

lemma write_cmd_frame:
  assumes "healthy (writes p)" "n \<le> length buf" "n < 65536"
  shows "\<exists>ws. healthy ws \<and> write_cmd buf (int n) p = Some (int n, p\<lparr>stdout := stdout p @ frame (take n buf), writes := ws\<rparr>)"
proof -
  let ?a = "word_of_int (drop_bit 8 (int n) AND 255) :: byte" and ?b = "word_of_int (int n AND 255) :: byte"
  obtain w1 where w1: "healthy w1" "write_exact [?a] 1 p = Some (1, p\<lparr>stdout := stdout p @ [?a], writes := w1\<rparr>)"
    using write_exact_all [OF assms(1), of 1 "[?a]"] by auto
  let ?p = "p\<lparr>stdout := stdout p @ [?a], writes := w1\<rparr>"
  obtain w2 where w2: "healthy w2" "write_exact [?b] 1 ?p = Some (1, ?p\<lparr>stdout := stdout ?p @ [?b], writes := w2\<rparr>)"
    using write_exact_all [of ?p 1 "[?b]"] w1(1) by auto
  let ?q = "?p\<lparr>stdout := stdout ?p @ [?b], writes := w2\<rparr>"
  obtain w3 where w3: "healthy w3" "write_exact buf (int n) ?q = Some (int n, ?q\<lparr>stdout := stdout ?q @ take n buf, writes := w3\<rparr>)"
    using write_exact_all [of ?q n buf] w2(1) assms(2) by auto
  have "frame (take n buf) = [?a, ?b] @ take n buf" using assms(2) length_bytes [OF assms(3)] by (simp add: frame_def)
  then show ?thesis using w1(2) w2(2) w3 by (intro exI [of _ w3]) (simp add: write_cmd_def Let_def)
qed

text \<open>
  What \<open>read_cmd\<close> leaves in the buffer: the payload over the two length bytes over the old contents.
\<close>

definition deliver :: "bytes \<Rightarrow> bytes \<Rightarrow> bytes" where
  "deliver m buf = m @ drop (length m) (be_bytes 2 (length m) @ drop 2 buf)"

lemma length_deliver [simp]: "max 2 (length m) \<le> length buf \<Longrightarrow> length (deliver m buf) = length buf"
  by (simp add: deliver_def) arith

lemma take_deliver [simp]: "take (length m) (deliver m buf) = m"
  by (simp add: deliver_def)

lemma read_cmd_frame:
  assumes "healthy (reads p)" "stdin p = frame m @ rest" "length m < 65536" "max 2 (length m) \<le> length buf"
  shows "\<exists>rs. healthy rs \<and> read_cmd buf p = Some (int (length m), deliver m buf, p\<lparr>stdin := rest, reads := rs\<rparr>)"
proof -
  let ?h = "be_bytes 2 (length m)" and ?b = "be_bytes 2 (length m) @ drop 2 buf"
  have in2: "take 2 (stdin p) = ?h" "drop 2 (stdin p) = m @ rest" "2 \<le> length (stdin p)"
    using assms(2) by (simp_all add: frame_def)
  obtain r1 where r1: "healthy r1" "read_exact buf 2 p = Some (2, ?b, p\<lparr>stdin := m @ rest, reads := r1\<rparr>)"
    using read_exact_all [OF assms(1) in2(3), of buf] assms(4) in2(1,2) by auto
  have "?b ! 0 = ?h ! 0" "?b ! 1 = ?h ! 1" by (simp_all add: nth_append)
  then have "push_bit 8 (uint (?b ! 0)) OR uint (?b ! 1) = int (be_val ?h)"
    using length_two [of ?h] by (simp add: two_byte_length)
  moreover have "be_val ?h = length m" using assms(3) by (simp add: be_val_be_bytes)
  ultimately have len: "push_bit 8 (uint (?b ! 0)) OR uint (?b ! 1) = int (length m)" by simp
  have "length m \<le> length ?b" using assms(4) by simp arith
  then have "\<exists>rs. healthy rs \<and> read_exact ?b (int (length m)) (p\<lparr>stdin := m @ rest, reads := r1\<rparr>) =
      Some (int (length m), m @ drop (length m) ?b, p\<lparr>stdin := rest, reads := rs\<rparr>)"
    using read_exact_all [of "p\<lparr>stdin := m @ rest, reads := r1\<rparr>" "length m" ?b] r1(1) by simp
  then obtain rs where rs: "healthy rs"
    "read_exact ?b (int (length m)) (p\<lparr>stdin := m @ rest, reads := r1\<rparr>) = Some (int (length m), m @ drop (length m) ?b, p\<lparr>stdin := rest, reads := rs\<rparr>)"
    by blast
  show ?thesis
    using rs r1 len by (intro exI [of _ rs]) (simp add: read_cmd_def PACKET_SIZE_def deliver_def)
qed

section \<open>Consumption\<close>

text \<open>A successful \<open>read_cmd\<close> takes bytes off the stream, and \<open>write_cmd\<close> leaves the input alone.\<close>

lemma read_exact_loop_consumes:
  "read_exact_loop buf len got p = Some (r, buf', p') \<Longrightarrow>
   length (stdin p') \<le> length (stdin p) \<and> (0 < r \<and> got < len \<longrightarrow> length (stdin p') < length (stdin p))"
proof (induction buf len got p arbitrary: buf' p' rule: read_exact_loop.induct)
  case (1 buf len got p)
  show ?case
  proof (cases "got < len")
    case True
    obtain i data p1 where rd: "os_read (nat (len - got)) p = (i, data, p1)" by (cases "os_read (nat (len - got)) p")
    show ?thesis
    proof (cases "i \<le> 0")
      case le: True
      have "(r, buf', p') = (0, buf, p1)" using "1.prems" True rd le by (subst (asm) read_exact_loop.simps) simp
      then show ?thesis using os_read_bounds [OF rd] by simp
    next
      case False
      then obtain b where b: "wr buf got data = Some b" "read_exact_loop b len (got + i) p1 = Some (r, buf', p')"
        using "1.prems" True rd by (subst (asm) read_exact_loop.simps) (auto simp: bind_eq_Some_conv)
      have "length (stdin p') \<le> length (stdin p1)"
        using "1.IH" [OF True rd [symmetric] _ _ b(1) b(2)] False by auto
      moreover have "length (stdin p1) + length data = length (stdin p)" "0 < length data"
        using os_read_bounds [OF rd] False by auto
      ultimately show ?thesis by linarith
    qed
  next
    case False
    then show ?thesis using "1.prems" by (subst (asm) read_exact_loop.simps) simp
  qed
qed

lemma read_cmd_consumes:
  assumes "read_cmd buf p = Some (r, buf', p')" "0 < r"
  shows "length (stdin p') < length (stdin p)"
proof -
  obtain r1 b1 p1 where 1: "read_exact buf PACKET_SIZE p = Some (r1, b1, p1)" "r1 = PACKET_SIZE"
    "read_exact b1 (push_bit 8 (uint (b1 ! 0)) OR uint (b1 ! 1)) p1 = Some (r, buf', p')"
    using assms by (auto simp: read_cmd_def bind_eq_Some_conv split: if_splits)
  then show ?thesis
    using read_exact_loop_consumes [of buf PACKET_SIZE 0 p] read_exact_loop_consumes [of b1 _ 0 p1]
    by (fastforce simp: read_exact_def PACKET_SIZE_def)
qed

lemma write_exact_loop_stdin: "write_exact_loop buf len k p = Some (r, p') \<Longrightarrow> stdin p' = stdin p"
proof (induction buf len k p rule: write_exact_loop.induct)
  case (1 buf len k p)
  show ?case
  proof (cases "k < len")
    case True
    then obtain data where d: "rd buf k (nat (len - k)) = Some data"
      "(case os_write data p of (i, p) \<Rightarrow> if i \<le> 0 then Some (0, p) else write_exact_loop buf len (k + i) p) = Some (r, p')"
      using "1.prems" write_exact_loop.simps [of buf len k p] by (auto simp: bind_eq_Some_conv)
    obtain i p1 where w: "os_write data p = (i, p1)" by fastforce
    have "stdin p1 = stdin p" using os_write_bounds [OF w] by simp
    then show ?thesis using "1.IH" [OF True d(1) w [symmetric]] d(2) w by (auto split: if_splits)
  next
    case False
    then show ?thesis using "1.prems" by (subst (asm) write_exact_loop.simps) simp
  qed
qed

lemma write_cmd_stdin: "write_cmd buf len p = Some (r, p') \<Longrightarrow> stdin p' = stdin p"
  by (auto simp: write_cmd_def write_exact_def Let_def bind_eq_Some_conv dest!: write_exact_loop_stdin)

section \<open>Properties\<close>

text \<open>
  Property C30: packets survive any fragmentation. What \<open>write_cmd\<close> sends for a payload of up to 65535 bytes,
  however the kernel splits the writes, \<open>read_cmd\<close> at the other end delivers at the start of its buffer,
  however the kernel splits the reads, with the payload's length as its result and the rest of the stream
  untouched.
\<close>

theorem packets_survive_fragmentation:
  assumes "healthy (writes p)" "n \<le> length buf" "n < 65536"
    and "healthy (reads q)" "65536 \<le> length buf2"
  shows "\<exists>ws sent. write_cmd buf (int n) p = Some (int n, p\<lparr>stdout := stdout p @ sent, writes := ws\<rparr>) \<and> healthy ws \<and>
     (\<forall>rest. stdin q = sent @ rest \<longrightarrow>
        (\<exists>buf' rs. read_cmd buf2 q = Some (int n, buf', q\<lparr>stdin := rest, reads := rs\<rparr>) \<and> healthy rs \<and>
           take n buf' = take n buf \<and> length buf' = length buf2))"
proof -
  obtain ws where ws: "healthy ws"
    "write_cmd buf (int n) p = Some (int n, p\<lparr>stdout := stdout p @ frame (take n buf), writes := ws\<rparr>)"
    using write_cmd_frame [OF assms(1-3)] by blast
  have "\<exists>buf' rs. read_cmd buf2 q = Some (int n, buf', q\<lparr>stdin := rest, reads := rs\<rparr>) \<and> healthy rs \<and>
      take n buf' = take n buf \<and> length buf' = length buf2" if "stdin q = frame (take n buf) @ rest" for rest
  proof -
    have l: "length (take n buf) = n" using assms(2) by simp
    then show ?thesis
      using read_cmd_frame [OF assms(4) that, of buf2] take_deliver [of "take n buf" buf2] length_deliver [of "take n buf" buf2] assms(3,5)
      by auto
  qed
  with ws show ?thesis by blast
qed

theorem packets_survive_fragmentation_witness:
  "\<exists>ws sent. write_cmd [7, 8, 9, 10] (int 3) \<lparr>stdin = [], reads = [], stdout = [1], writes = [1, 1, 2, 1]\<rparr> =
       Some (int 3, \<lparr>stdin = [], reads = [], stdout = [1], writes = [1, 1, 2, 1]\<rparr>\<lparr>stdout := [1] @ sent, writes := ws\<rparr>) \<and>
     healthy ws"
  using packets_survive_fragmentation
    [where p = "\<lparr>stdin = [], reads = [], stdout = [1], writes = [1, 1, 2, 1]\<rparr>" and buf = "[7, 8, 9, 10]" and n = 3
       and q = "\<lparr>stdin = [0, 3, 7, 8, 9, 0, 1], reads = [1, 1, 2], stdout = [], writes = []\<rparr>" and ?buf2.0 = "replicate 65536 0"]
  by (force simp: healthy_def)

end
