(* ===== verification/Sqlite_Driver.thy ===== *)
theory Sqlite_Driver
  imports Erl_Comm Nif Sqlite_Codes
begin

text \<open>
  The SQLite port program, after \<open>sqlite3_driver.c\<close>: it reads requests as external terms, calls SQLite
  and writes replies. Three things it uses are parameters. \<open>ei\<close> is the Erlang interface library: a
  decoding function returns the value and the new index, \<^term>\<open>None\<close> where the C function fails (and
  leaves the index alone); an encoding function returns the bytes it stores at the index. \<open>'q sqlite\<close> is the
  SQLite interface over a library state \<open>'q\<close>. \<open>libc\<close> says which allocations fail and what fresh memory
  and an uninitialised pointer contain. Handlers return the C result with the new state; \<^term>\<open>None\<close> is
  undefined behaviour: a write past the end of a buffer or block, a use or \<open>free\<close> of a block that is not live.
\<close>

section \<open>The libraries\<close>

text \<open>The eight bytes of an address, as they travel in messages.\<close>

type_synonym ptr = bytes

type_synonym 'a decoded = "('a \<times> int) option"

record ei =
  ei_decode_version :: "bytes \<Rightarrow> int \<Rightarrow> int decoded"
  ei_decode_atom :: "bytes \<Rightarrow> int \<Rightarrow> string decoded"
  ei_decode_tuple_header :: "bytes \<Rightarrow> int \<Rightarrow> int decoded"
  ei_decode_list_header :: "bytes \<Rightarrow> int \<Rightarrow> int decoded"
  ei_decode_string :: "bytes \<Rightarrow> int \<Rightarrow> bytes decoded"
  ei_decode_binary :: "bytes \<Rightarrow> int \<Rightarrow> bytes decoded"
  ei_decode_longlong :: "bytes \<Rightarrow> int \<Rightarrow> int decoded"
  ei_decode_double :: "bytes \<Rightarrow> int \<Rightarrow> 64 word decoded"
  ei_get_type :: "bytes \<Rightarrow> int \<Rightarrow> (int \<times> int) option"
  ei_encode_version :: "bytes option"
  ei_encode_atom :: "string \<Rightarrow> bytes option"
  ei_encode_string :: "bytes \<Rightarrow> bytes option"
  ei_encode_tuple_header :: "int \<Rightarrow> bytes option"
  ei_encode_list_header :: "int \<Rightarrow> bytes option"
  ei_encode_empty_list :: "bytes option"
  ei_encode_binary :: "bytes \<Rightarrow> bytes option"
  ei_encode_longlong :: "int \<Rightarrow> bytes option"
  ei_encode_double :: "64 word \<Rightarrow> bytes option"
  MAXATOMLEN :: int

record 'q sqlite =
  sqlite3_libversion :: bytes
  sqlite3_open :: "bytes \<Rightarrow> 'q \<Rightarrow> int \<times> ptr \<times> 'q"
  sqlite3_close :: "ptr \<Rightarrow> 'q \<Rightarrow> int \<times> 'q"
  sqlite3_prepare_v2 :: "ptr \<Rightarrow> bytes \<Rightarrow> 'q \<Rightarrow> int \<times> ptr \<times> 'q"
  sqlite3_step :: "ptr \<Rightarrow> 'q \<Rightarrow> int \<times> 'q"
  sqlite3_reset :: "ptr \<Rightarrow> 'q \<Rightarrow> int \<times> 'q"
  sqlite3_finalize :: "ptr \<Rightarrow> 'q \<Rightarrow> int \<times> 'q"
  sqlite3_exec :: "ptr \<Rightarrow> bytes \<Rightarrow> 'q \<Rightarrow> int \<times> 'q"
  sqlite3_column_count :: "ptr \<Rightarrow> 'q \<Rightarrow> int"
  sqlite3_column_type :: "ptr \<Rightarrow> int \<Rightarrow> 'q \<Rightarrow> int"
  sqlite3_column_int64 :: "ptr \<Rightarrow> int \<Rightarrow> 'q \<Rightarrow> int"
  sqlite3_column_double :: "ptr \<Rightarrow> int \<Rightarrow> 'q \<Rightarrow> 64 word"
  sqlite3_column_text :: "ptr \<Rightarrow> int \<Rightarrow> 'q \<Rightarrow> bytes"
  sqlite3_column_blob :: "ptr \<Rightarrow> int \<Rightarrow> 'q \<Rightarrow> bytes"
  sqlite3_column_bytes :: "ptr \<Rightarrow> int \<Rightarrow> 'q \<Rightarrow> nat"
  sqlite3_bind_int :: "ptr \<Rightarrow> int \<Rightarrow> int \<Rightarrow> 'q \<Rightarrow> int \<times> 'q"
  sqlite3_bind_int64 :: "ptr \<Rightarrow> int \<Rightarrow> int \<Rightarrow> 'q \<Rightarrow> int \<times> 'q"
  sqlite3_bind_double :: "ptr \<Rightarrow> int \<Rightarrow> 64 word \<Rightarrow> 'q \<Rightarrow> int \<times> 'q"
  sqlite3_bind_null :: "ptr \<Rightarrow> int \<Rightarrow> 'q \<Rightarrow> int \<times> 'q"
  sqlite3_bind_text :: "ptr \<Rightarrow> int \<Rightarrow> bytes \<Rightarrow> 'q \<Rightarrow> int \<times> 'q"
  sqlite3_bind_blob :: "ptr \<Rightarrow> int \<Rightarrow> bytes \<Rightarrow> 'q \<Rightarrow> int \<times> 'q"

record libc =
  malloc_fails :: "nat \<Rightarrow> bool"
  fresh_block :: "nat \<Rightarrow> bytes"
  stack_ptr :: ptr

section \<open>The state of the program\<close>

text \<open>
  The message buffer of \<open>main\<close> with the index into it, SQLite's state, the live heap blocks by number, the
  number of the next block, and the blocks that SQLite was given together with \<open>free\<close> as their destructor.
\<close>

record 'q drv =
  buf :: bytes
  index :: int
  sq :: 'q
  mem :: "nat \<Rightarrow> bytes option"
  next_mem :: nat
  given :: "nat set"

type_synonym 'q handler = "'q drv \<Rightarrow> (int \<times> 'q drv) option"

definition malloc :: "libc \<Rightarrow> nat \<Rightarrow> 'q drv \<Rightarrow> nat option \<times> 'q drv" where
  "malloc c n d =
     (let m = next_mem d; d = d\<lparr>next_mem := Suc m\<rparr>
      in if malloc_fails c m then (None, d) else (Some m, d\<lparr>mem := (mem d)(m \<mapsto> fresh_block c n)\<rparr>))"

definition free :: "nat \<Rightarrow> 'q drv \<Rightarrow> 'q drv option" where
  "free m d = (if mem d m = None then None else Some (d\<lparr>mem := (mem d)(m := None)\<rparr>))"

definition store :: "nat \<Rightarrow> bytes \<Rightarrow> 'q drv \<Rightarrow> 'q drv option" where
  "store m bs d = do { blk \<leftarrow> mem d m; blk \<leftarrow> wr blk 0 bs; Some (d\<lparr>mem := (mem d)(m \<mapsto> blk)\<rparr>) }"

definition give :: "nat \<Rightarrow> 'q drv \<Rightarrow> 'q drv option" where
  "give m d = (if mem d m = None then None else Some (d\<lparr>mem := (mem d)(m := None), given := insert m (given d)\<rparr>))"

text \<open>The C string at the start of a block.\<close>

definition c_string :: "bytes \<Rightarrow> bytes option" where
  "c_string blk = (if 0 \<in> set blk then Some (takeWhile (\<lambda>b. b \<noteq> 0) blk) else None)"

section \<open>Replies\<close>

text \<open>A sequence of \<open>if (ei_encode_x(buf, index, \<dots>) != 0) return -1;\<close> that ends in \<open>return 0\<close> or goes on.\<close>

fun put_then :: "bytes option list \<Rightarrow> 'q handler \<Rightarrow> 'q handler" where
  "put_then [] k d = k d"
| "put_then (None # es) k d = Some (-1, d)"
| "put_then (Some bs # es) k d = do {
     b \<leftarrow> wr (buf d) (index d) bs;
     put_then es k (d\<lparr>buf := b, index := index d + int (length bs)\<rparr>) }"

definition put_all :: "bytes option list \<Rightarrow> 'q handler" where
  "put_all es = put_then es (\<lambda>d. Some (0, d))"

definition mk_error_tuple :: "ei \<Rightarrow> string \<Rightarrow> int \<Rightarrow> 'q handler" where
  "mk_error_tuple e errmsg line d =
     put_all [ei_encode_version e, ei_encode_tuple_header e 3, ei_encode_atom e ''error'', ei_encode_atom e errmsg,
              ei_encode_longlong e line] (d\<lparr>index := 0\<rparr>)"

definition mk_ok_addr_tuple :: "ei \<Rightarrow> ptr \<Rightarrow> 'q handler" where
  "mk_ok_addr_tuple e p d =
     put_all [ei_encode_version e, ei_encode_tuple_header e 2, ei_encode_atom e ''ok'', ei_encode_binary e p] (d\<lparr>index := 0\<rparr>)"

text \<open>The reply of a single atom that several handlers end with.\<close>

definition reply_atom :: "ei \<Rightarrow> string \<Rightarrow> 'q handler" where
  "reply_atom e a d = put_all [ei_encode_version e, ei_encode_atom e a] (d\<lparr>index := 0\<rparr>)"

section \<open>Arguments\<close>

text \<open>
  The opening of the handlers that take an address: the type and size of the next term, the size check, and
  the binary copied over an uninitialised pointer. \<open>l1\<close> and \<open>l2\<close> are the lines of the two error returns.
\<close>

definition get_ptr :: "ei \<Rightarrow> libc \<Rightarrow> int \<Rightarrow> int \<Rightarrow> (ptr \<Rightarrow> 'q handler) \<Rightarrow> 'q handler" where
  "get_ptr e c l1 l2 k d =
     need (ei_get_type e (buf d) (index d)) (Some (-1, d)) (\<lambda>(type, sz).
     if sz > 8 then mk_error_tuple e ''badmsg'' l1 d
     else need (ei_decode_binary e (buf d) (index d)) (mk_error_tuple e ''badmsg'' l2 d) (\<lambda>(bin, i). do {
       p \<leftarrow> wr (stack_ptr c) 0 bin;
       k p (d\<lparr>index := i\<rparr>) }))"

text \<open>
  The string argument of \<open>open\<close>, \<open>prepare\<close> and \<open>exec\<close>, copied to a block of its size plus one; \<open>k\<close> is given
  the block.
\<close>

definition get_string :: "ei \<Rightarrow> libc \<Rightarrow> int \<Rightarrow> int \<Rightarrow> (nat \<Rightarrow> 'q handler) \<Rightarrow> 'q handler" where
  "get_string e c l1 l2 k d =
     need (ei_get_type e (buf d) (index d)) (Some (-1, d)) (\<lambda>(type, sz).
     case malloc c (nat (sz + 1)) d of
       (None, d) \<Rightarrow> mk_error_tuple e ''malloc_failed'' l1 d
     | (Some m, d) \<Rightarrow>
         need (ei_decode_string e (buf d) (index d))
           (do { d \<leftarrow> free m d; mk_error_tuple e ''badmsg'' l2 d })
           (\<lambda>(s, i). do { d \<leftarrow> store m (s @ [0]) d; k m (d\<lparr>index := i\<rparr>) }))"

section \<open>Handlers\<close>

definition handle_atom_msg :: "ei \<Rightarrow> 'q sqlite \<Rightarrow> string \<Rightarrow> 'q handler" where
  "handle_atom_msg e q atom d =
     (if atom = ''libversion''
      then put_all [ei_encode_version e, ei_encode_string e (sqlite3_libversion q)] (d\<lparr>index := 0\<rparr>)
      else mk_error_tuple e ''badmsg'' 81 d)"

definition handle_open_msg :: "ei \<Rightarrow> libc \<Rightarrow> 'q sqlite \<Rightarrow> 'q handler" where
  "handle_open_msg e c q = get_string e c 154 160 (\<lambda>filename d. do {
     blk \<leftarrow> mem d filename;
     name \<leftarrow> c_string blk;
     let (rc, db, s) = sqlite3_open q name (sq d);
     d \<leftarrow> free filename (d\<lparr>sq := s\<rparr>);
     if rc \<noteq> SQLITE_OK then mk_error_tuple e ''open_not_ok'' 166 d else mk_ok_addr_tuple e db d })"

definition handle_close_msg :: "ei \<Rightarrow> libc \<Rightarrow> 'q sqlite \<Rightarrow> 'q handler" where
  "handle_close_msg e c q = get_ptr e c 183 188 (\<lambda>db d.
     let (rc, s) = sqlite3_close q db (sq d); d = d\<lparr>sq := s\<rparr>
     in if rc = SQLITE_BUSY then mk_error_tuple e ''busy'' 194 d
        else if rc = SQLITE_OK then reply_atom e ''ok'' d
        else mk_error_tuple e ''close_not_ok'' 203 d)"

definition handle_prepare_msg :: "ei \<Rightarrow> libc \<Rightarrow> 'q sqlite \<Rightarrow> 'q handler" where
  "handle_prepare_msg e c q = get_ptr e c 219 224 (\<lambda>db. get_string e c 232 238 (\<lambda>query d. do {
     blk \<leftarrow> mem d query;
     sql \<leftarrow> c_string blk;
     let (rc, stmt, s) = sqlite3_prepare_v2 q db sql (sq d);
     d \<leftarrow> free query (d\<lparr>sq := s\<rparr>);
     if rc \<noteq> SQLITE_OK then mk_error_tuple e ''prepare_not_ok'' 244 d else mk_ok_addr_tuple e stmt d }))"

definition handle_exec_msg :: "ei \<Rightarrow> libc \<Rightarrow> 'q sqlite \<Rightarrow> 'q handler" where
  "handle_exec_msg e c q = get_ptr e c 455 460 (\<lambda>db. get_string e c 468 474 (\<lambda>query d. do {
     blk \<leftarrow> mem d query;
     sql \<leftarrow> c_string blk;
     let (rc, s) = sqlite3_exec q db sql (sq d);
     d \<leftarrow> free query (d\<lparr>sq := s\<rparr>);
     if rc \<noteq> SQLITE_OK then mk_error_tuple e ''exec_not_ok'' 480 d else reply_atom e ''ok'' d }))"

definition handle_reset_msg :: "ei \<Rightarrow> libc \<Rightarrow> 'q sqlite \<Rightarrow> 'q handler" where
  "handle_reset_msg e c q = get_ptr e c 396 401 (\<lambda>stmt d.
     let (rc, s) = sqlite3_reset q stmt (sq d); d = d\<lparr>sq := s\<rparr>
     in if rc \<noteq> SQLITE_OK then mk_error_tuple e ''reset_not_ok'' 406 d else reply_atom e ''ok'' d)"

definition handle_finalize_msg :: "ei \<Rightarrow> libc \<Rightarrow> 'q sqlite \<Rightarrow> 'q handler" where
  "handle_finalize_msg e c q = get_ptr e c 425 430 (\<lambda>stmt d.
     let (rc, s) = sqlite3_finalize q stmt (sq d); d = d\<lparr>sq := s\<rparr>
     in if rc \<noteq> SQLITE_OK then mk_error_tuple e ''finalize_not_ok'' 435 d else reply_atom e ''ok'' d)"

text \<open>
  One column of a row: \<^term>\<open>None\<close> when SQLite's buffer is shorter than the size it reports,
  \<^term>\<open>Some None\<close> for the unknown type that makes the handler return -1.
\<close>

definition column_term :: "ei \<Rightarrow> 'q sqlite \<Rightarrow> ptr \<Rightarrow> int \<Rightarrow> 'q \<Rightarrow> bytes option option" where
  "column_term e q stmt i s =
     (let t = sqlite3_column_type q stmt i s
      in if t = SQLITE_INTEGER then Some (ei_encode_longlong e (sqlite3_column_int64 q stmt i s))
         else if t = SQLITE_FLOAT then Some (ei_encode_double e (sqlite3_column_double q stmt i s))
         else if t = SQLITE_TEXT then
           map_option (ei_encode_binary e) (rd (sqlite3_column_text q stmt i s) 0 (sqlite3_column_bytes q stmt i s))
         else if t = SQLITE_BLOB then
           map_option (ei_encode_binary e) (rd (sqlite3_column_blob q stmt i s) 0 (sqlite3_column_bytes q stmt i s))
         else if t = SQLITE_NULL then Some (ei_encode_atom e ''null'')
         else Some None)"

fun put_columns :: "ei \<Rightarrow> 'q sqlite \<Rightarrow> ptr \<Rightarrow> nat \<Rightarrow> int \<Rightarrow> 'q handler" where
  "put_columns e q stmt 0 i d = put_all [ei_encode_empty_list e] d"
| "put_columns e q stmt (Suc n) i d = do {
     col \<leftarrow> column_term e q stmt i (sq d);
     put_then [col] (put_columns e q stmt n (i + 1)) d }"

definition handle_step_msg :: "ei \<Rightarrow> libc \<Rightarrow> 'q sqlite \<Rightarrow> 'q handler" where
  "handle_step_msg e c q = get_ptr e c 311 316 (\<lambda>stmt d.
     let (rc, s) = sqlite3_step q stmt (sq d); d = d\<lparr>sq := s\<rparr>
     in if rc = SQLITE_BUSY then mk_error_tuple e ''busy'' 322 d
        else if rc = SQLITE_MISUSE then mk_error_tuple e ''misuse'' 325 d
        else if rc = SQLITE_ROW then
          let column_count = sqlite3_column_count q stmt s
          in put_then [ei_encode_version e, ei_encode_tuple_header e 2, ei_encode_atom e ''row'',
                       ei_encode_list_header e column_count]
               (put_columns e q stmt (nat column_count) 0) (d\<lparr>index := 0\<rparr>)
        else if rc = SQLITE_DONE then reply_atom e ''done'' d
        else mk_error_tuple e ''step_error'' 382 d)"

section \<open>Binding\<close>

text \<open>The \<open>switch\<close> on the result of a bind call.\<close>

definition bind_outcome :: "ei \<Rightarrow> int \<Rightarrow> int \<Rightarrow> int \<Rightarrow> 'q handler \<Rightarrow> 'q handler" where
  "bind_outcome e rc l1 l2 k d =
     (if rc = SQLITE_OK then k d
      else if rc = SQLITE_MISUSE then mk_error_tuple e ''misuse'' l1 d
      else mk_error_tuple e ''bind_error'' l2 d)"

text \<open>The loop of \<open>bind_int_list\<close> from index \<open>i\<close>, with \<open>n\<close> values to go.\<close>

fun bind_ints :: "ei \<Rightarrow> 'q sqlite \<Rightarrow> ptr \<Rightarrow> nat \<Rightarrow> nat \<Rightarrow> nat \<Rightarrow> 'q handler" where
  "bind_ints e q stmt vals 0 i d = do { d \<leftarrow> free vals d; reply_atom e ''ok'' d }"
| "bind_ints e q stmt vals (Suc n) i d = do {
     blk \<leftarrow> mem d vals;
     v \<leftarrow> (if i < length blk then Some (blk ! i) else None);
     let (rc, s) = sqlite3_bind_int q stmt (int i + 1) (uint v) (sq d);
     let d = d\<lparr>sq := s\<rparr>;
     if rc = SQLITE_OK then bind_ints e q stmt vals n (Suc i) d
     else do { d \<leftarrow> free vals d; bind_outcome e rc 502 506 (\<lambda>d. Some (0, d)) d } }"

definition bind_int_list :: "ei \<Rightarrow> 'q sqlite \<Rightarrow> ptr \<Rightarrow> nat \<Rightarrow> int \<Rightarrow> 'q handler" where
  "bind_int_list e q stmt vals numVals d = bind_ints e q stmt vals (nat numVals) 0 d"

text \<open>\<open>{blob, <<\<dots>>>}\<close>, after its tuple header.\<close>

definition bind_blob_term :: "ei \<Rightarrow> libc \<Rightarrow> 'q sqlite \<Rightarrow> ptr \<Rightarrow> int \<Rightarrow> int \<Rightarrow> 'q handler \<Rightarrow> 'q handler" where
  "bind_blob_term e c q stmt i tupleArity k d =
     (if tupleArity \<noteq> 2 then mk_error_tuple e ''badmsg'' 570 d
      else need (ei_get_type e (buf d) (index d)) (Some (-1, d)) (\<lambda>(type, sz).
        if sz \<ge> MAXATOMLEN e then mk_error_tuple e ''badmsg'' 577 d
        else need (ei_decode_atom e (buf d) (index d)) (mk_error_tuple e ''badmsg'' 577 d) (\<lambda>(atom, j).
          let d = d\<lparr>index := j\<rparr>
          in if atom \<noteq> ''blob'' then mk_error_tuple e ''badmsg'' 582 d
             else need (ei_get_type e (buf d) (index d)) (Some (-1, d)) (\<lambda>(type, sz).
               case malloc c (nat sz) d of
                 (None, d) \<Rightarrow> mk_error_tuple e ''malloc_failed'' 590 d
               | (Some dynVal, d) \<Rightarrow>
                   need (ei_decode_binary e (buf d) (index d))
                     (do { d \<leftarrow> free dynVal d; mk_error_tuple e ''badmsg'' 596 d })
                     (\<lambda>(bin, j). do {
                       d \<leftarrow> store dynVal bin (d\<lparr>index := j\<rparr>);
                       d \<leftarrow> give dynVal d;
                       let (rc, s) = sqlite3_bind_blob q stmt i bin (sq d);
                       bind_outcome e rc 605 608 k (d\<lparr>sq := s\<rparr>) })))))"

text \<open>A string or a binary, the last form a value can have.\<close>

definition bind_text_term :: "ei \<Rightarrow> libc \<Rightarrow> 'q sqlite \<Rightarrow> ptr \<Rightarrow> int \<Rightarrow> int \<Rightarrow> 'q handler \<Rightarrow> 'q handler" where
  "bind_text_term e c q stmt i sz k d =
     (case malloc c (nat (sz + 1)) d of
        (None, d) \<Rightarrow> mk_error_tuple e ''malloc_failed'' 637 d
      | (Some dynVal, d) \<Rightarrow>
          (case ei_decode_string e (buf d) (index d) of
             Some (str, j) \<Rightarrow> do {
               d \<leftarrow> store dynVal (str @ [0]) (d\<lparr>index := j\<rparr>);
               blk \<leftarrow> mem d dynVal;
               txt \<leftarrow> c_string blk;
               d \<leftarrow> give dynVal d;
               let (rc, s) = sqlite3_bind_text q stmt i txt (sq d);
               bind_outcome e rc 648 651 k (d\<lparr>sq := s\<rparr>) }
           | None \<Rightarrow>
               (case ei_decode_binary e (buf d) (index d) of
                  Some (bin, j) \<Rightarrow> do {
                    d \<leftarrow> store dynVal bin (d\<lparr>index := j\<rparr>);
                    d \<leftarrow> give dynVal d;
                    let (rc, s) = sqlite3_bind_text q stmt i bin (sq d);
                    bind_outcome e rc 663 666 k (d\<lparr>sq := s\<rparr>) }
                | None \<Rightarrow> do { d \<leftarrow> free dynVal d; mk_error_tuple e ''badmsg'' 671 d })))"

text \<open>One round of the loop of \<open>bind_term_list\<close>; \<open>k\<close> is the next round.\<close>

definition bind_term :: "ei \<Rightarrow> libc \<Rightarrow> 'q sqlite \<Rightarrow> ptr \<Rightarrow> int \<Rightarrow> 'q handler \<Rightarrow> 'q handler" where
  "bind_term e c q stmt i k d =
     need (ei_get_type e (buf d) (index d)) (Some (-1, d)) (\<lambda>(type, sz).
     case ei_decode_longlong e (buf d) (index d) of
       Some (v, j) \<Rightarrow>
         let (rc, s) = sqlite3_bind_int64 q stmt i v (sq d) in bind_outcome e rc 543 546 k (d\<lparr>index := j, sq := s\<rparr>)
     | None \<Rightarrow>
         (case ei_decode_double e (buf d) (index d) of
            Some (v, j) \<Rightarrow>
              let (rc, s) = sqlite3_bind_double q stmt i v (sq d) in bind_outcome e rc 558 561 k (d\<lparr>index := j, sq := s\<rparr>)
          | None \<Rightarrow>
              (case ei_decode_tuple_header e (buf d) (index d) of
                 Some (tupleArity, j) \<Rightarrow> bind_blob_term e c q stmt i tupleArity k (d\<lparr>index := j\<rparr>)
               | None \<Rightarrow>
                   (case (if sz < MAXATOMLEN e then ei_decode_atom e (buf d) (index d) else None) of
                      Some (atom, j) \<Rightarrow>
                        (if atom = ''null'' then
                           let (rc, s) = sqlite3_bind_null q stmt i (sq d)
                           in bind_outcome e rc 623 626 k (d\<lparr>index := j, sq := s\<rparr>)
                         else mk_error_tuple e ''badmsg'' 630 (d\<lparr>index := j\<rparr>))
                    | None \<Rightarrow> bind_text_term e c q stmt i sz k d))))"

fun bind_terms :: "ei \<Rightarrow> libc \<Rightarrow> 'q sqlite \<Rightarrow> ptr \<Rightarrow> nat \<Rightarrow> int \<Rightarrow> 'q handler" where
  "bind_terms e c q stmt 0 i d = reply_atom e ''ok'' d"
| "bind_terms e c q stmt (Suc n) i d = bind_term e c q stmt i (bind_terms e c q stmt n (i + 1)) d"

definition bind_term_list :: "ei \<Rightarrow> libc \<Rightarrow> 'q sqlite \<Rightarrow> ptr \<Rightarrow> int \<Rightarrow> 'q handler" where
  "bind_term_list e c q stmt arity d = bind_terms e c q stmt (nat arity) 1 d"

definition handle_bind_msg :: "ei \<Rightarrow> libc \<Rightarrow> 'q sqlite \<Rightarrow> 'q handler" where
  "handle_bind_msg e c q = get_ptr e c 263 268 (\<lambda>stmt d.
     need (ei_get_type e (buf d) (index d)) (Some (-1, d)) (\<lambda>(type, sz).
     case ei_decode_list_header e (buf d) (index d) of
       Some (arity, j) \<Rightarrow> bind_term_list e c q stmt arity (d\<lparr>index := j\<rparr>)
     | None \<Rightarrow>
         (case malloc c (nat (sz + 1)) d of
            (None, d) \<Rightarrow> mk_error_tuple e ''malloc_failed'' 283 d
          | (Some vals, d) \<Rightarrow>
              (case ei_decode_string e (buf d) (index d) of
                 Some (str, j) \<Rightarrow> do {
                   d \<leftarrow> store vals (str @ [0]) (d\<lparr>index := j\<rparr>);
                   bind_int_list e q stmt vals sz d }
               | None \<Rightarrow> do { d \<leftarrow> free vals d; mk_error_tuple e ''badmsg'' 292 d }))))"

section \<open>Dispatch and main loop\<close>

definition handle_tuple_msg :: "ei \<Rightarrow> libc \<Rightarrow> 'q sqlite \<Rightarrow> int \<Rightarrow> 'q handler" where
  "handle_tuple_msg e c q arity d =
     (if arity = 2 \<or> arity = 3 then
        (case ei_decode_atom e (buf d) (index d) of
           None \<Rightarrow> mk_error_tuple e ''badmsg'' 140 d
         | Some (atom, j) \<Rightarrow>
             let d = d\<lparr>index := j\<rparr>
             in if arity = 2 then
                  (if atom = ''open'' then handle_open_msg e c q d
                   else if atom = ''close'' then handle_close_msg e c q d
                   else if atom = ''step'' then handle_step_msg e c q d
                   else if atom = ''reset'' then handle_reset_msg e c q d
                   else if atom = ''finalize'' then handle_finalize_msg e c q d
                   else mk_error_tuple e ''badmsg'' 140 d)
                else
                  (if atom = ''prepare'' then handle_prepare_msg e c q d
                   else if atom = ''bind'' then handle_bind_msg e c q d
                   else if atom = ''exec'' then handle_exec_msg e c q d
                   else mk_error_tuple e ''badmsg'' 140 d))
      else mk_error_tuple e ''badmsg'' 140 d)"

definition handle_msg :: "ei \<Rightarrow> libc \<Rightarrow> 'q sqlite \<Rightarrow> 'q handler" where
  "handle_msg e c q d =
     (let d = d\<lparr>index := 0\<rparr>
      in need (ei_decode_version e (buf d) (index d)) (mk_error_tuple e ''badmsg'' 55 d) (\<lambda>(version, i).
         let d = d\<lparr>index := i\<rparr>
         in case ei_decode_atom e (buf d) (index d) of
              Some (atom, j) \<Rightarrow> handle_atom_msg e q atom (d\<lparr>index := j\<rparr>)
            | None \<Rightarrow>
                (case ei_decode_tuple_header e (buf d) (index d) of
                   Some (arity, j) \<Rightarrow> handle_tuple_msg e c q arity (d\<lparr>index := j\<rparr>)
                 | None \<Rightarrow> mk_error_tuple e ''badmsg'' 68 d)))"

definition EXIT_SUCCESS :: int where "EXIT_SUCCESS = 0"
definition EXIT_FAILURE :: int where "EXIT_FAILURE = 1"

text \<open>
  The loop of \<open>main\<close>. It ends because every request takes bytes off the input.
\<close>

function main_loop :: "ei \<Rightarrow> libc \<Rightarrow> 'q sqlite \<Rightarrow> 'q drv \<Rightarrow> pipes \<Rightarrow> (int \<times> 'q drv \<times> pipes) option" where
  "main_loop e c q d p = do {
     (r, b, p) \<leftarrow> read_cmd (buf d) p;
     let d = d\<lparr>buf := b\<rparr>;
     if r > 0 then do {
       (res, d) \<leftarrow> handle_msg e c q d;
       if res \<noteq> 0 then Some (EXIT_FAILURE, d, p)
       else do { (_, p) \<leftarrow> write_cmd (buf d) (index d) p; main_loop e c q d p } }
     else Some (EXIT_SUCCESS, d, p) }"
  by pat_completeness auto

termination
  by (relation "measure (\<lambda>(e, c, q, d, p). length (stdin p))")
     (auto dest!: read_cmd_consumes write_cmd_stdin)

declare main_loop.simps [simp del]

end
