(* ===== verification/Sqlite_Port.thy ===== *)
theory Sqlite_Port
  imports Sqlite_Driver
begin

text \<open>
  What the SQLite port guarantees under what the libraries promise: it serves a stream of requests one reply per
  request whatever the fragmentation of the pipes, and it never touches memory it does not own and never leaks a
  block, as long as the messages carry honest lengths and the rows fit a packet.
\<close>

section \<open>The stream of requests\<close>

text \<open>
  The requests handled one after the other, without pipes: the replies, and the state after the last one.
  \<^term>\<open>None\<close> when a request is not answered or its reply does not fit a packet.
\<close>

fun run_requests :: "ei \<Rightarrow> libc \<Rightarrow> 'q sqlite \<Rightarrow> 'q drv \<Rightarrow> bytes list \<Rightarrow> (bytes list \<times> 'q drv) option" where
  "run_requests e c q d [] = Some ([], d)"
| "run_requests e c q d (m # ms) =
     (case handle_msg e c q (d\<lparr>buf := deliver m (buf d)\<rparr>) of
        Some (res, d') \<Rightarrow>
          if res = 0 \<and> 0 \<le> index d' \<and> index d' < 65536 \<and> length (buf d') = length (buf d) then do {
            (rs, d'') \<leftarrow> run_requests e c q d' ms;
            Some (take (nat (index d')) (buf d') # rs, d'') }
          else None
      | None \<Rightarrow> None)"

lemma main_loop_end:
  assumes "stdin p = []" "healthy (reads p)" "2 \<le> length (buf d)"
  shows "\<exists>rs. main_loop e c q d p = Some (EXIT_SUCCESS, d, p\<lparr>reads := rs\<rparr>)"
proof -
  have d: "0 < (case reads p of [] \<Rightarrow> int 2 | d # _ \<Rightarrow> d)"
    using assms(2) by (auto simp: healthy_def split: list.splits)
  then have "os_read 2 p = (0, [], p\<lparr>reads := tl (reads p)\<rparr>)" using assms(1) by (simp add: os_read_def Let_def)
  then have "read_exact (buf d) 2 p = Some (0, buf d, p\<lparr>reads := tl (reads p)\<rparr>)"
    by (simp add: read_exact_def read_exact_loop.simps)
  then show ?thesis by (subst main_loop.simps) (auto simp: read_cmd_def PACKET_SIZE_def)
qed

lemma main_loop_requests:
  assumes "run_requests e c q d ms = Some (rs, d')" "length (buf d) = 65536"
    and "\<forall>m \<in> set ms. m \<noteq> [] \<and> length m < 65536"
    and "stdin p = concat (map frame ms)" "healthy (reads p)" "healthy (writes p)"
  shows "\<exists>p'. main_loop e c q d p = Some (EXIT_SUCCESS, d', p') \<and> stdin p' = [] \<and>
           stdout p' = stdout p @ concat (map frame rs)"
  using assms
proof (induction ms arbitrary: d p rs)
  case Nil
  then show ?case using main_loop_end [of p d e c q] by auto
next
  case (Cons m ms)
  then obtain d1 rs' where h: "handle_msg e c q (d\<lparr>buf := deliver m (buf d)\<rparr>) = Some (0, d1)"
      "0 \<le> index d1" "index d1 < 65536" "length (buf d1) = 65536"
      "run_requests e c q d1 ms = Some (rs', d')" "rs = take (nat (index d1)) (buf d1) # rs'"
    by (auto simp: bind_eq_Some_conv split: option.splits if_splits)
  have m: "m \<noteq> []" "length m < 65536" using Cons.prems(3) by auto
  obtain r1 where r1: "healthy r1"
    "read_cmd (buf d) p = Some (int (length m), deliver m (buf d), p\<lparr>stdin := concat (map frame ms), reads := r1\<rparr>)"
    using read_cmd_frame [OF Cons.prems(5), of m "concat (map frame ms)" "buf d"] Cons.prems(2,4) m by auto
  let ?p = "p\<lparr>stdin := concat (map frame ms), reads := r1\<rparr>" and ?n = "nat (index d1)"
  have n: "?n < 65536" using h(3) by linarith
  obtain w1 where w1: "healthy w1"
    "write_cmd (buf d1) (index d1) ?p = Some (index d1, ?p\<lparr>stdout := stdout ?p @ frame (take ?n (buf d1)), writes := w1\<rparr>)"
    using write_cmd_frame [of ?p ?n "buf d1"] Cons.prems(6) h(2-4) n by auto
  let ?q = "?p\<lparr>stdout := stdout ?p @ frame (take ?n (buf d1)), writes := w1\<rparr>"
  have "main_loop e c q d p = main_loop e c q d1 ?q"
    using r1(2) h(1) w1(2) m(1) by (subst main_loop.simps) simp
  moreover have "\<exists>p'. main_loop e c q d1 ?q = Some (EXIT_SUCCESS, d', p') \<and> stdin p' = [] \<and>
      stdout p' = stdout ?q @ concat (map frame rs')"
    by (rule Cons.IH) (use h Cons.prems(3) r1(1) w1(1) in simp_all)
  ultimately show ?case using h(6) by auto
qed

section \<open>What the libraries promise\<close>

definition enc_len :: "bytes option \<Rightarrow> nat" where
  "enc_len x = (case x of None \<Rightarrow> 0 | Some b \<Rightarrow> length b)"

lemma enc_len_simps [simp]: "enc_len None = 0" "enc_len (Some b) = length b"
  by (simp_all add: enc_len_def)

text \<open>The sizes of the external term format.\<close>

definition ei_encodings :: "ei \<Rightarrow> bool" where
  "ei_encodings e \<longleftrightarrow>
     enc_len (ei_encode_version e) \<le> 1 \<and> (\<forall>n. enc_len (ei_encode_tuple_header e n) \<le> 5) \<and>
     (\<forall>n. enc_len (ei_encode_list_header e n) \<le> 5) \<and> enc_len (ei_encode_empty_list e) \<le> 1 \<and>
     (\<forall>a. enc_len (ei_encode_atom e a) \<le> 3 + length a) \<and> (\<forall>i. enc_len (ei_encode_longlong e i) \<le> 11) \<and>
     (\<forall>b. enc_len (ei_encode_binary e b) \<le> 5 + length b) \<and> (\<forall>b. enc_len (ei_encode_string e b) \<le> 6 + 2 * length b)"

text \<open>
  The decoders of \<open>ei\<close> check no bounds: they are made for a buffer that holds a complete term. \<open>ei_get_type\<close>
  stores a length of 32 bits in an \<open>int\<close>. A position is honest when the length reported there is not negative and
  covers the string or binary that can be decoded there.
\<close>

definition honest_at :: "ei \<Rightarrow> bytes \<Rightarrow> int \<Rightarrow> bool" where
  "honest_at e b i \<longleftrightarrow> (\<forall>t sz. ei_get_type e b i = Some (t, sz) \<longrightarrow> 0 \<le> sz \<and>
     (\<forall>s j. ei_decode_string e b i = Some (s, j) \<longrightarrow> int (length s) \<le> sz) \<and>
     (\<forall>s j. ei_decode_binary e b i = Some (s, j) \<longrightarrow> int (length s) \<le> sz))"

text \<open>
  A walk over the message, from the term after the version on, with the number of terms that are still to come:
  a tuple or list header adds its elements, and a list that is not empty its tail.
\<close>

inductive pending :: "ei \<Rightarrow> bytes \<Rightarrow> nat \<Rightarrow> int \<Rightarrow> bool" for e b where
  start: "ei_decode_version e b 0 = Some (v, i) \<Longrightarrow> pending e b 1 i"
| atom: "pending e b (Suc k) i \<Longrightarrow> ei_decode_atom e b i = Some (a, j) \<Longrightarrow> pending e b k j"
| longlong: "pending e b (Suc k) i \<Longrightarrow> ei_decode_longlong e b i = Some (x, j) \<Longrightarrow> pending e b k j"
| double: "pending e b (Suc k) i \<Longrightarrow> ei_decode_double e b i = Some (y, j) \<Longrightarrow> pending e b k j"
| string: "pending e b (Suc k) i \<Longrightarrow> ei_decode_string e b i = Some (s, j) \<Longrightarrow> pending e b k j"
| binary: "pending e b (Suc k) i \<Longrightarrow> ei_decode_binary e b i = Some (s, j) \<Longrightarrow> pending e b k j"
| tuple: "pending e b (Suc k) i \<Longrightarrow> ei_decode_tuple_header e b i = Some (n, j) \<Longrightarrow> pending e b (nat n + k) j"
| list: "pending e b (Suc k) i \<Longrightarrow> ei_decode_list_header e b i = Some (n, j) \<Longrightarrow>
    pending e b (nat n + (if n = 0 then k else Suc k)) j"

text \<open>The message in the buffer is intact: the walk meets a term only at honest positions.\<close>

definition intact :: "ei \<Rightarrow> bytes \<Rightarrow> bool" where
  "intact e b \<longleftrightarrow> (\<forall>k i. pending e b (Suc k) i \<longrightarrow> honest_at e b i)"

text \<open>A position where this many terms of an intact message are to come.\<close>

definition ready :: "ei \<Rightarrow> nat \<Rightarrow> bytes \<Rightarrow> int \<Rightarrow> bool" where
  "ready e k b i \<longleftrightarrow> intact e b \<and> pending e b k i"

lemma readyD: "ready e (Suc k) b i \<Longrightarrow> honest_at e b i"
  by (auto simp: ready_def intact_def)

lemma honest_atD:
  assumes "honest_at e b i" "ei_get_type e b i = Some (t, sz)"
  shows "0 \<le> sz" "ei_decode_string e b i = Some (s, j) \<Longrightarrow> int (length s) \<le> sz"
    "ei_decode_binary e b i = Some (s, j) \<Longrightarrow> int (length s) \<le> sz"
  using assms unfolding honest_at_def by blast+

lemma ready_next:
  "ready e (Suc k) b i \<Longrightarrow> ei_decode_atom e b i = Some (a, j) \<Longrightarrow> ready e k b j"
  "ready e (Suc k) b i \<Longrightarrow> ei_decode_longlong e b i = Some (x, j) \<Longrightarrow> ready e k b j"
  "ready e (Suc k) b i \<Longrightarrow> ei_decode_double e b i = Some (y, j) \<Longrightarrow> ready e k b j"
  "ready e (Suc k) b i \<Longrightarrow> ei_decode_string e b i = Some (s, j) \<Longrightarrow> ready e k b j"
  "ready e (Suc k) b i \<Longrightarrow> ei_decode_binary e b i = Some (s, j) \<Longrightarrow> ready e k b j"
  "ready e (Suc k) b i \<Longrightarrow> ei_decode_tuple_header e b i = Some (n, j) \<Longrightarrow> ready e (nat n + k) b j"
  "ready e (Suc k) b i \<Longrightarrow> ei_decode_list_header e b i = Some (n, j) \<Longrightarrow> ready e (nat n + (if n = 0 then k else Suc k)) b j"
  unfolding ready_def by (blast intro: pending.intros)+

definition libc_ok :: "libc \<Rightarrow> bool" where
  "libc_ok c \<longleftrightarrow> (\<forall>n. length (fresh_block c n) = n) \<and> length (stack_ptr c) = 8"

fun enc_size :: "bytes option list \<Rightarrow> nat" where
  "enc_size [] = 0"
| "enc_size (x # xs) = enc_len x + enc_size xs"

text \<open>SQLite hands out addresses of eight bytes and columns of the size it reports.\<close>

definition sqlite_ok :: "'q sqlite \<Rightarrow> bool" where
  "sqlite_ok q \<longleftrightarrow> length (sqlite3_libversion q) \<le> 100 \<and>
     (\<forall>n s rc db s'. sqlite3_open q n s = (rc, db, s') \<longrightarrow> length db = 8) \<and>
     (\<forall>db n s rc stmt s'. sqlite3_prepare_v2 q db n s = (rc, stmt, s') \<longrightarrow> length stmt = 8) \<and>
     (\<forall>stmt i s. sqlite3_column_type q stmt i s = SQLITE_TEXT \<longrightarrow>
        sqlite3_column_bytes q stmt i s \<le> length (sqlite3_column_text q stmt i s)) \<and>
     (\<forall>stmt i s. sqlite3_column_type q stmt i s = SQLITE_BLOB \<longrightarrow>
        sqlite3_column_bytes q stmt i s \<le> length (sqlite3_column_blob q stmt i s))"

text \<open>
  The bytes of the reply to \<open>step\<close> for a row. Nothing in the program or in SQLite bounds them, so that they fit is a
  condition on the rows a run asks for: the row that the message in the buffer asks for, if it is a step of a
  statement, fits. The address is the decoded binary over the uninitialised pointer.
\<close>

fun row_size :: "ei \<Rightarrow> 'q sqlite \<Rightarrow> ptr \<Rightarrow> nat \<Rightarrow> int \<Rightarrow> 'q \<Rightarrow> nat" where
  "row_size e q stmt 0 i s = 0"
| "row_size e q stmt (Suc n) i s =
     (case column_term e q stmt i s of None \<Rightarrow> 0 | Some col \<Rightarrow> enc_len col) + row_size e q stmt n (i + 1) s"

definition row_packet :: "ei \<Rightarrow> 'q sqlite \<Rightarrow> ptr \<Rightarrow> 'q \<Rightarrow> nat" where
  "row_packet e q stmt s =
     enc_size [ei_encode_version e, ei_encode_tuple_header e 2, ei_encode_atom e ''row'',
       ei_encode_list_header e (sqlite3_column_count q stmt s)] +
     row_size e q stmt (nat (sqlite3_column_count q stmt s)) 0 s + enc_len (ei_encode_empty_list e)"

definition address_at :: "ei \<Rightarrow> libc \<Rightarrow> bytes \<Rightarrow> int \<Rightarrow> ptr option" where
  "address_at e c b i = map_option (\<lambda>(bin, j). bin @ drop (length bin) (stack_ptr c)) (ei_decode_binary e b i)"

definition row_fits :: "ei \<Rightarrow> libc \<Rightarrow> 'q sqlite \<Rightarrow> 'q drv \<Rightarrow> bool" where
  "row_fits e c q d \<longleftrightarrow> (\<forall>stmt s. address_at e c (buf d) (index d) = Some stmt \<longrightarrow>
     sqlite3_step q stmt (sq d) = (SQLITE_ROW, s) \<longrightarrow> row_packet e q stmt s < 65536)"

definition asked_row_fits :: "ei \<Rightarrow> libc \<Rightarrow> 'q sqlite \<Rightarrow> 'q drv \<Rightarrow> bool" where
  "asked_row_fits e c q d \<longleftrightarrow> (\<forall>v i j k. ei_decode_version e (buf d) 0 = Some (v, i) \<longrightarrow> ei_decode_atom e (buf d) i = None \<longrightarrow>
     ei_decode_tuple_header e (buf d) i = Some (2, j) \<longrightarrow> ei_decode_atom e (buf d) j = Some (''step'', k) \<longrightarrow>
     row_fits e c q (d\<lparr>index := k\<rparr>))"

section \<open>Memory\<close>

text \<open>
  A state between two requests or inside one: the message buffer has its size, the live blocks are those of
  \<open>M\<close>, block numbers from \<open>next_mem\<close> on are unused, and the blocks given to SQLite since the state that \<open>n\<close>
  and \<open>G\<close> were taken from are new ones.
\<close>

definition tidy :: "nat \<Rightarrow> nat set \<Rightarrow> (nat \<Rightarrow> bytes option) \<Rightarrow> 'q drv \<Rightarrow> bool" where
  "tidy n G M d \<longleftrightarrow> length (buf d) = 65536 \<and> mem d = M \<and> (\<forall>m \<ge> next_mem d. mem d m = None) \<and>
     n \<le> next_mem d \<and> G \<subseteq> given d \<and> given d \<subseteq> G \<union> {n..<next_mem d}"

definition settles :: "nat \<Rightarrow> nat set \<Rightarrow> (nat \<Rightarrow> bytes option) \<Rightarrow> (int \<times> 'q drv) option \<Rightarrow> bool" where
  "settles n G M res \<longleftrightarrow>
     (\<exists>r d. res = Some (r, d) \<and> (r = 0 \<and> 0 \<le> index d \<and> index d < 65536 \<or> r = -1) \<and> tidy n G M d)"

lemma tidy_frame [simp]:
  "tidy n G M (d\<lparr>index := i\<rparr>) = tidy n G M d" "tidy n G M (d\<lparr>sq := s\<rparr>) = tidy n G M d"
  by (simp_all add: tidy_def)

lemma settles_fail [simp]: "tidy n G M d \<Longrightarrow> settles n G M (Some (-1, d))"
  by (auto simp: settles_def)

lemma put_then_settles:
  assumes "tidy n G M d" "0 \<le> index d" "nat (index d) + enc_size es \<le> 65536"
    and "\<And>d'. tidy n G M d' \<Longrightarrow> 0 \<le> index d' \<Longrightarrow> nat (index d') \<le> nat (index d) + enc_size es \<Longrightarrow> sq d' = sq d \<Longrightarrow>
      settles n G M (k d')"
  shows "settles n G M (put_then es k d)"
  using assms
proof (induction es arbitrary: d)
  case (Cons x es)
  show ?case
  proof (cases x)
    case (Some bs)
    have len: "nat (index d) + length bs \<le> length (buf d)" using Cons.prems(1,3) Some by (simp add: tidy_def)
    let ?b = "take (nat (index d)) (buf d) @ bs @ drop (nat (index d) + length bs) (buf d)"
    let ?d = "d\<lparr>buf := ?b, index := index d + int (length bs)\<rparr>"
    have "wr (buf d) (index d) bs = Some ?b" using len Cons.prems(2) by (simp add: wr_def)
    moreover have "settles n G M (put_then es k ?d)"
    proof (rule Cons.IH)
      show "tidy n G M ?d" using Cons.prems(1) len by (auto simp: tidy_def)
      fix d' assume d': "tidy n G M d'" "0 \<le> index d'" "nat (index d') \<le> nat (index ?d) + enc_size es" "sq d' = sq ?d"
      have "nat (index d') \<le> nat (index d) + enc_size (x # es)" using d'(3) Cons.prems(2) Some by (simp add: nat_add_distrib)
      then show "settles n G M (k d')" using Cons.prems(4) [OF d'(1,2)] d'(4) by simp
    qed (use Cons.prems Some in \<open>simp_all add: nat_add_distrib\<close>)
    ultimately show ?thesis using Some by simp
  qed (use Cons.prems(1) in auto)
qed simp

lemma put_all_settles:
  "tidy n G M d \<Longrightarrow> enc_size es < 65536 \<Longrightarrow> settles n G M (put_all es (d\<lparr>index := 0\<rparr>))"
  unfolding put_all_def
  by (rule put_then_settles) (auto simp: settles_def)

lemma error_settles [simp]:
  assumes "ei_encodings e" "tidy n G M d" "length a \<le> 20"
  shows "settles n G M (mk_error_tuple e a l d)"
proof -
  have "enc_len (ei_encode_version e) \<le> 1" "enc_len (ei_encode_tuple_header e 3) \<le> 5"
    "enc_len (ei_encode_atom e ''error'') \<le> 3 + length ''error''" "enc_len (ei_encode_atom e a) \<le> 3 + length a"
    "enc_len (ei_encode_longlong e l) \<le> 11" using assms(1) unfolding ei_encodings_def by blast+
  then show ?thesis unfolding mk_error_tuple_def using assms(2,3) by (intro put_all_settles) simp_all
qed

lemma atom_settles [simp]:
  assumes "ei_encodings e" "tidy n G M d" "length a \<le> 20"
  shows "settles n G M (reply_atom e a d)"
proof -
  have "enc_len (ei_encode_version e) \<le> 1" "enc_len (ei_encode_atom e a) \<le> 3 + length a"
    using assms(1) unfolding ei_encodings_def by blast+
  then show ?thesis unfolding reply_atom_def using assms(2,3) by (intro put_all_settles) simp_all
qed

lemma addr_settles [simp]:
  assumes "ei_encodings e" "tidy n G M d" "length p = 8"
  shows "settles n G M (mk_ok_addr_tuple e p d)"
proof -
  have "enc_len (ei_encode_version e) \<le> 1" "enc_len (ei_encode_tuple_header e 2) \<le> 5"
    "enc_len (ei_encode_atom e ''ok'') \<le> 3 + length ''ok''" "enc_len (ei_encode_binary e p) \<le> 5 + length p"
    using assms(1) unfolding ei_encodings_def by blast+
  then show ?thesis unfolding mk_ok_addr_tuple_def using assms(2,3) by (intro put_all_settles) simp_all
qed

text \<open>Allocation, use and the two ways to let go of a block.\<close>

lemma malloc_cases:
  assumes "tidy n G M d" "libc_ok c"
  obtains (none) d' where "malloc c k d = (None, d')" "tidy n G M d'" "buf d' = buf d" "index d' = index d" "sq d' = sq d"
  | (some) m blk d' where "malloc c k d = (Some m, d')" "M m = None" "length blk = k" "n \<le> m" "m < next_mem d'"
      "tidy n G (M(m \<mapsto> blk)) d'" "buf d' = buf d" "index d' = index d" "sq d' = sq d"
proof (cases "malloc_fails c (next_mem d)")
  case True
  then show thesis
    using assms(1) by (intro none [of "d\<lparr>next_mem := Suc (next_mem d)\<rparr>"]) (auto simp: malloc_def tidy_def Let_def)
next
  case False
  then show thesis
    using assms by (intro some [of "next_mem d" "d\<lparr>next_mem := Suc (next_mem d), mem := M(next_mem d \<mapsto> fresh_block c k)\<rparr>" "fresh_block c k"])
      (auto simp: malloc_def tidy_def Let_def libc_ok_def)
qed

lemma free_block:
  assumes "tidy n G (M(m \<mapsto> blk)) d" "M m = None"
  shows "free m d = Some (d\<lparr>mem := M\<rparr>)" "tidy n G M (d\<lparr>mem := M\<rparr>)"
proof -
  have "(M(m \<mapsto> blk))(m := None) = M" using assms(2) by auto
  then show "free m d = Some (d\<lparr>mem := M\<rparr>)" using assms(1) by (simp add: free_def tidy_def)
  have "M x = None" if "next_mem d \<le> x" for x using assms that by (auto simp: tidy_def fun_upd_def split: if_splits)
  then show "tidy n G M (d\<lparr>mem := M\<rparr>)" using assms(1) by (auto simp: tidy_def)
qed

lemma store_block:
  assumes "tidy n G (M(m \<mapsto> blk)) d" "length bs \<le> length blk"
  shows "store m bs d = Some (d\<lparr>mem := M(m \<mapsto> bs @ drop (length bs) blk)\<rparr>)"
    "tidy n G (M(m \<mapsto> bs @ drop (length bs) blk)) (d\<lparr>mem := M(m \<mapsto> bs @ drop (length bs) blk)\<rparr>)"
proof -
  show "store m bs d = Some (d\<lparr>mem := M(m \<mapsto> bs @ drop (length bs) blk)\<rparr>)"
    using assms by (simp add: store_def tidy_def wr_def)
  have "M x = None \<and> x \<noteq> m" if "next_mem d \<le> x" for x using assms(1) that by (auto simp: tidy_def fun_upd_def split: if_splits)
  then show "tidy n G (M(m \<mapsto> bs @ drop (length bs) blk)) (d\<lparr>mem := M(m \<mapsto> bs @ drop (length bs) blk)\<rparr>)"
    using assms(1) by (auto simp: tidy_def)
qed

lemma give_block:
  assumes "tidy n G (M(m \<mapsto> blk)) d" "M m = None" "n \<le> m"
  shows "give m d = Some (d\<lparr>mem := M, given := insert m (given d)\<rparr>)" "tidy n G M (d\<lparr>mem := M, given := insert m (given d)\<rparr>)"
proof -
  have "(M(m \<mapsto> blk))(m := None) = M" using assms(2) by auto
  then show "give m d = Some (d\<lparr>mem := M, given := insert m (given d)\<rparr>)" using assms(1) by (simp add: give_def tidy_def)
  have *: "M x = None \<and> x \<noteq> m" if "next_mem d \<le> x" for x using assms(1) that by (auto simp: tidy_def fun_upd_def split: if_splits)
  then have "m < next_mem d" using not_less by blast
  then show "tidy n G M (d\<lparr>mem := M, given := insert m (given d)\<rparr>)" using assms(1,3) * by (auto simp: tidy_def)
qed

lemma settles_free:
  assumes "tidy n G (M(m \<mapsto> blk)) d" "M m = None" "\<And>d'. tidy n G M d' \<Longrightarrow> sq d' = sq d \<Longrightarrow> settles n G M (k d')"
  shows "settles n G M (do { d \<leftarrow> free m d; k d })"
  using free_block [OF assms(1,2)] assms(3) by simp

text \<open>The argument readers.\<close>

lemma get_ptr_settles:
  assumes "ei_encodings e" "libc_ok c" "ready e (Suc r) (buf d) (index d)" "tidy n G M d"
    and "\<And>p d'. address_at e c (buf d) (index d) = Some p \<Longrightarrow> tidy n G M d' \<Longrightarrow> ready e r (buf d') (index d') \<Longrightarrow> sq d' = sq d \<Longrightarrow> settles n G M (k p d')"
  shows "settles n G M (get_ptr e c l1 l2 k d)"
proof (cases "ei_get_type e (buf d) (index d)")
  case None
  then show ?thesis using assms(4) by (auto simp: get_ptr_def)
next
  case (Some ts)
  obtain t sz where ts: "ts = (t, sz)" by (cases ts)
  show ?thesis
  proof (cases "8 < sz \<or> ei_decode_binary e (buf d) (index d) = None")
    case True
    then show ?thesis using Some ts assms(1,4) by (auto simp: get_ptr_def)
  next
    case False
    then obtain bin i where b: "ei_decode_binary e (buf d) (index d) = Some (bin, i)" "sz \<le> 8" by auto
    have "int (length bin) \<le> sz" using honest_atD(3) [OF readyD [OF assms(3)]] Some ts b(1) by blast
    then have "length bin \<le> 8" "length (stack_ptr c) = 8" using b(2) assms(2) by (simp_all add: libc_ok_def)
    then have "wr (stack_ptr c) 0 bin = Some (bin @ drop (length bin) (stack_ptr c))" by (simp add: wr_def)
    moreover have "settles n G M (k (bin @ drop (length bin) (stack_ptr c)) (d\<lparr>index := i\<rparr>))"
      by (rule assms(5)) (use b(1) assms(4) ready_next(5) [OF assms(3) b(1)] in \<open>simp_all add: address_at_def\<close>)
    ultimately show ?thesis using Some ts b by (simp add: get_ptr_def)
  qed
qed

lemma get_string_settles:
  assumes "ei_encodings e" "libc_ok c" "ready e (Suc r) (buf d) (index d)" "tidy n G M d"
    and "\<And>m s d'. M m = None \<Longrightarrow> n \<le> m \<Longrightarrow> tidy n G (M(m \<mapsto> s)) d' \<Longrightarrow> 0 \<in> set s \<Longrightarrow> settles n G M (k m d')"
  shows "settles n G M (get_string e c l1 l2 k d)"
proof (cases "ei_get_type e (buf d) (index d)")
  case None
  then show ?thesis using assms(4) by (auto simp: get_string_def)
next
  case (Some ts)
  obtain t sz where ts: "ts = (t, sz)" by (cases ts)
  show ?thesis
  proof (cases rule: malloc_cases [OF assms(4,2), of "nat (sz + 1)", case_names none some])
    case (none d')
    then show ?thesis using Some ts assms(1) by (auto simp: get_string_def)
  next
    case (some m blk d')
    show ?thesis
    proof (cases "ei_decode_string e (buf d) (index d)")
      case None
      then show ?thesis
        using Some ts some assms(1) settles_free [OF some(6,2), of "mk_error_tuple e ''badmsg'' l2"] by (auto simp: get_string_def)
    next
      case (Some sj)
      obtain str j where sj: "sj = (str, j)" by (cases sj)
      have "int (length str) \<le> sz"
        using honest_atD(2) [OF readyD [OF assms(3)]] \<open>ei_get_type e (buf d) (index d) = Some ts\<close> ts Some sj by blast
      then have "length (str @ [0]) \<le> length blk" using some(3) by simp
      note st = store_block [OF some(6) this]
      have "settles n G M (k m (d'\<lparr>mem := M(m \<mapsto> (str @ [0]) @ drop (length (str @ [0])) blk), index := j\<rparr>))"
        by (rule assms(5) [where s = "(str @ [0]) @ drop (length (str @ [0])) blk"]) (use some st in simp_all)
      then show ?thesis
        using \<open>ei_get_type e (buf d) (index d) = Some ts\<close> ts some(1,7,8) Some sj st(1) by (simp add: get_string_def)
    qed
  qed
qed

section \<open>No handler faults or leaks\<close>

definition port_ok :: "ei \<Rightarrow> libc \<Rightarrow> 'q sqlite \<Rightarrow> bool" where
  "port_ok e c q \<longleftrightarrow> ei_encodings e \<and> libc_ok c \<and> sqlite_ok q"

lemma port_okD [simp]:
  "port_ok e c q \<Longrightarrow> ei_encodings e" "port_ok e c q \<Longrightarrow> libc_ok c" "port_ok e c q \<Longrightarrow> sqlite_ok q"
  by (simp_all add: port_ok_def)

lemma open_settles:
  fixes q :: "'q sqlite"
  shows "port_ok e c q \<Longrightarrow> ready e (Suc 0) (buf d) (index d) \<Longrightarrow> tidy n G M d \<Longrightarrow> settles n G M (handle_open_msg e c q d)"
  unfolding handle_open_msg_def
proof (rule get_string_settles, (erule port_okD)+, assumption, assumption)
  fix m s and d' :: "'q drv" assume p: "port_ok e c q" and a: "M m = None" "tidy n G (M(m \<mapsto> s)) d'" "0 \<in> set s"
  obtain rc db s' where o: "sqlite3_open q (takeWhile (\<lambda>b. b \<noteq> 0) s) (sq d') = (rc, db, s')" by (metis prod_cases3)
  then have "length db = 8" using port_okD(3) [OF p] unfolding sqlite_ok_def by blast
  moreover have "mem d' m = Some s" using a(2) by (simp add: tidy_def)
  moreover have "settles n G M (do { d \<leftarrow> free m (d'\<lparr>sq := s'\<rparr>);
      if rc \<noteq> SQLITE_OK then mk_error_tuple e ''open_not_ok'' 166 d else mk_ok_addr_tuple e db d })"
    by (rule settles_free [of _ _ _ _ s]) (use a p \<open>length db = 8\<close> in simp_all)
  ultimately show "settles n G M (do { blk \<leftarrow> mem d' m; name \<leftarrow> c_string blk;
      let (rc, db, s) = sqlite3_open q name (sq d');
      d \<leftarrow> free m (d'\<lparr>sq := s\<rparr>);
      if rc \<noteq> SQLITE_OK then mk_error_tuple e ''open_not_ok'' 166 d else mk_ok_addr_tuple e db d })"
    using a(3) o by (simp add: c_string_def)
qed

lemma prepare_settles:
  fixes q :: "'q sqlite"
  shows "port_ok e c q \<Longrightarrow> ready e (Suc (Suc 0)) (buf d) (index d) \<Longrightarrow> tidy n G M d \<Longrightarrow> settles n G M (handle_prepare_msg e c q d)"
  unfolding handle_prepare_msg_def
proof (rule get_ptr_settles, (erule port_okD)+, assumption, assumption, rule get_string_settles, (erule port_okD)+, assumption, assumption)
  fix p m s and d' :: "'q drv" assume p: "port_ok e c q" and a: "M m = None" "tidy n G (M(m \<mapsto> s)) d'" "0 \<in> set s"
  obtain rc db s' where o: "sqlite3_prepare_v2 q p (takeWhile (\<lambda>b. b \<noteq> 0) s) (sq d') = (rc, db, s')" by (metis prod_cases3)
  then have "length db = 8" using port_okD(3) [OF p] unfolding sqlite_ok_def by blast
  moreover have "mem d' m = Some s" using a(2) by (simp add: tidy_def)
  moreover have "settles n G M (do { d \<leftarrow> free m (d'\<lparr>sq := s'\<rparr>);
      if rc \<noteq> SQLITE_OK then mk_error_tuple e ''prepare_not_ok'' 244 d else mk_ok_addr_tuple e db d })"
    by (rule settles_free [of _ _ _ _ s]) (use a p \<open>length db = 8\<close> in simp_all)
  ultimately show "settles n G M (mem d' m \<bind> (\<lambda>blk. c_string blk \<bind> (\<lambda>sql.
      let (rc, stmt, s) = sqlite3_prepare_v2 q p sql (sq d') in
      free m (d'\<lparr>sq := s\<rparr>) \<bind> (\<lambda>d.
      if rc \<noteq> SQLITE_OK then mk_error_tuple e ''prepare_not_ok'' 244 d else mk_ok_addr_tuple e stmt d))))"
    using a(3) o by (simp add: c_string_def)
qed

lemma exec_settles:
  fixes q :: "'q sqlite"
  shows "port_ok e c q \<Longrightarrow> ready e (Suc (Suc 0)) (buf d) (index d) \<Longrightarrow> tidy n G M d \<Longrightarrow> settles n G M (handle_exec_msg e c q d)"
  unfolding handle_exec_msg_def
proof (rule get_ptr_settles, (erule port_okD)+, assumption, assumption, rule get_string_settles, (erule port_okD)+, assumption, assumption)
  fix p m s and d' :: "'q drv" assume p: "port_ok e c q" and a: "M m = None" "tidy n G (M(m \<mapsto> s)) d'" "0 \<in> set s"
  obtain rc s' where o: "sqlite3_exec q p (takeWhile (\<lambda>b. b \<noteq> 0) s) (sq d') = (rc, s')" by fastforce
  have "mem d' m = Some s" using a(2) by (simp add: tidy_def)
  moreover have "settles n G M (do { d \<leftarrow> free m (d'\<lparr>sq := s'\<rparr>);
      if rc \<noteq> SQLITE_OK then mk_error_tuple e ''exec_not_ok'' 480 d else reply_atom e ''ok'' d })"
    by (rule settles_free [of _ _ _ _ s]) (use a p in simp_all)
  ultimately show "settles n G M (mem d' m \<bind> (\<lambda>blk. c_string blk \<bind> (\<lambda>sql.
      let (rc, s) = sqlite3_exec q p sql (sq d') in
      free m (d'\<lparr>sq := s\<rparr>) \<bind> (\<lambda>d.
      if rc \<noteq> SQLITE_OK then mk_error_tuple e ''exec_not_ok'' 480 d else reply_atom e ''ok'' d))))"
    using a(3) o by (simp add: c_string_def)
qed

lemma close_settles: "port_ok e c q \<Longrightarrow> ready e (Suc 0) (buf d) (index d) \<Longrightarrow> tidy n G M d \<Longrightarrow> settles n G M (handle_close_msg e c q d)"
  unfolding handle_close_msg_def by (rule get_ptr_settles, (erule port_okD)+) (simp_all add: Let_def split: prod.split)

lemma reset_settles: "port_ok e c q \<Longrightarrow> ready e (Suc 0) (buf d) (index d) \<Longrightarrow> tidy n G M d \<Longrightarrow> settles n G M (handle_reset_msg e c q d)"
  unfolding handle_reset_msg_def by (rule get_ptr_settles, (erule port_okD)+) (simp_all add: Let_def split: prod.split)

lemma finalize_settles: "port_ok e c q \<Longrightarrow> ready e (Suc 0) (buf d) (index d) \<Longrightarrow> tidy n G M d \<Longrightarrow> settles n G M (handle_finalize_msg e c q d)"
  unfolding handle_finalize_msg_def by (rule get_ptr_settles, (erule port_okD)+) (simp_all add: Let_def split: prod.split)

lemma columns_settle:
  assumes "port_ok e c q" "tidy n G M d" "0 \<le> index d"
    and "nat (index d) + row_size e q stmt k i (sq d) + enc_len (ei_encode_empty_list e) < 65536"
  shows "settles n G M (put_columns e q stmt k i d)"
  using assms
proof (induction k arbitrary: i d)
  case 0
  then show ?case
    unfolding put_columns.simps put_all_def by (intro put_then_settles) (auto simp: settles_def)
next
  case (Suc k)
  have ok: "column_term e q stmt i (sq d) \<noteq> None"
    using port_okD(3) [OF assms(1)] by (auto simp: column_term_def Let_def rd_def sqlite_ok_def SQLITE_TEXT_def SQLITE_BLOB_def)
  then obtain col where col: "column_term e q stmt i (sq d) = Some col" by auto
  have "settles n G M (put_then [col] (put_columns e q stmt k (i + 1)) d)"
  proof (rule put_then_settles)
    fix d' assume d': "tidy n G M d'" "0 \<le> index d'" "nat (index d') \<le> nat (index d) + enc_size [col]" "sq d' = sq d"
    show "settles n G M (put_columns e q stmt k (i + 1) d')"
      by (rule Suc.IH [OF assms(1) d'(1,2)]) (use d'(3,4) Suc.prems(4) col in simp)
  qed (use Suc.prems col in simp_all)
  then show ?case using col by simp
qed

lemma step_settles:
  fixes q :: "'q sqlite"
  shows "port_ok e c q \<Longrightarrow> ready e (Suc 0) (buf d) (index d) \<Longrightarrow> row_fits e c q d \<Longrightarrow> tidy n G M d \<Longrightarrow> settles n G M (handle_step_msg e c q d)"
  unfolding handle_step_msg_def
proof (rule get_ptr_settles, (erule port_okD)+, assumption, assumption)
  fix stmt and d' :: "'q drv"
  assume p: "port_ok e c q" and t: "tidy n G M d'" and f: "row_fits e c q d" "address_at e c (buf d) (index d) = Some stmt" "sq d' = sq d"
  obtain rc s' where st: "sqlite3_step q stmt (sq d') = (rc, s')" by fastforce
  let ?k = "nat (sqlite3_column_count q stmt s')"
  let ?hd = "[ei_encode_version e, ei_encode_tuple_header e 2, ei_encode_atom e ''row'', ei_encode_list_header e (sqlite3_column_count q stmt s')]"
  have row: "settles n G M (put_then ?hd (put_columns e q stmt ?k 0) (d'\<lparr>sq := s', index := 0\<rparr>))" if "rc = SQLITE_ROW"
  proof -
    have "row_packet e q stmt s' < 65536" using f st that by (simp add: row_fits_def)
    then have fit: "enc_size ?hd + row_size e q stmt ?k 0 s' + enc_len (ei_encode_empty_list e) < 65536" by (simp add: row_packet_def)
    show ?thesis
    proof (rule put_then_settles)
      fix d2 :: "'q drv" assume "tidy n G M d2" "0 \<le> index d2" "sq d2 = sq (d'\<lparr>sq := s', index := 0\<rparr>)"
        "nat (index d2) \<le> nat (index (d'\<lparr>sq := s', index := 0\<rparr>)) + enc_size ?hd"
      then show "settles n G M (put_columns e q stmt ?k 0 d2)"
        using fit by (intro columns_settle [OF p]) simp_all
    qed (use t fit in simp_all)
  qed
  show "settles n G M (let (rc, s) = sqlite3_step q stmt (sq d'); d = d'\<lparr>sq := s\<rparr>
     in if rc = SQLITE_BUSY then mk_error_tuple e ''busy'' 322 d
        else if rc = SQLITE_MISUSE then mk_error_tuple e ''misuse'' 325 d
        else if rc = SQLITE_ROW then
          let column_count = sqlite3_column_count q stmt s
          in put_then [ei_encode_version e, ei_encode_tuple_header e 2, ei_encode_atom e ''row'',
                       ei_encode_list_header e column_count]
               (put_columns e q stmt (nat column_count) 0) (d\<lparr>index := 0\<rparr>)
        else if rc = SQLITE_DONE then reply_atom e ''done'' d
        else mk_error_tuple e ''step_error'' 382 d)"
    using row p t st by (simp add: Let_def)
qed

lemma bind_outcome_settles:
  assumes "port_ok e c q" "tidy n G M d" "ready e r (buf d) (index d)" "\<And>d'. tidy n G M d' \<Longrightarrow> ready e r (buf d') (index d') \<Longrightarrow> settles n G M (k d')"
  shows "settles n G M (bind_outcome e rc l1 l2 k d)"
  using assms by (simp add: bind_outcome_def)

lemma bind_ints_settle:
  assumes "port_ok e c q" "tidy n G (M(m \<mapsto> blk)) d" "M m = None" "i + k \<le> length blk"
  shows "settles n G M (bind_ints e q stmt m k i d)"
  using assms
proof (induction k arbitrary: i d)
  case 0
  show ?case unfolding bind_ints.simps by (rule settles_free [OF 0(2,3)]) (use 0(1) in simp)
next
  case (Suc k)
  obtain rc s' where b: "sqlite3_bind_int q stmt (int i + 1) (uint (blk ! i)) (sq d) = (rc, s')" by fastforce
  have m: "mem d m = Some blk" using Suc.prems(2) by (simp add: tidy_def)
  have t: "tidy n G (M(m \<mapsto> blk)) (d\<lparr>sq := s'\<rparr>)" unfolding tidy_frame by (rule Suc.prems(2))
  have "settles n G M (do { d \<leftarrow> free m (d\<lparr>sq := s'\<rparr>); bind_outcome e rc 502 506 (\<lambda>d. Some (0, d)) d })" if "rc \<noteq> SQLITE_OK"
    using that Suc.prems(1) by (intro settles_free [OF t Suc.prems(3)]) (simp add: bind_outcome_def)
  moreover have "settles n G M (bind_ints e q stmt m k (Suc i) (d\<lparr>sq := s'\<rparr>))"
    by (rule Suc.IH) (use Suc.prems in simp_all)
  ultimately show ?case using m b Suc.prems(4) by (simp add: Let_def)
qed

text \<open>The rest of a \<open>bind\<close> branch that stores a value in its block and gives the block to SQLite.\<close>

lemma store_give_settles:
  assumes "tidy n G (M(m \<mapsto> blk)) d" "M m = None" "n \<le> m" "length bs \<le> length blk"
    and "\<And>d'. tidy n G M d' \<Longrightarrow> buf d' = buf d \<Longrightarrow> index d' = j \<Longrightarrow> settles n G M (k d')"
  shows "settles n G M (do { d \<leftarrow> store m bs (d\<lparr>index := j\<rparr>); d \<leftarrow> give m d; k d })"
proof -
  have t: "tidy n G (M(m \<mapsto> blk)) (d\<lparr>index := j\<rparr>)" using assms(1) by simp
  note st = store_block [OF t assms(4)]
  note gv = give_block [OF st(2) assms(2,3)]
  show ?thesis using assms(5) [OF gv(2)] st(1) gv(1) by simp
qed

lemma bind_text_settles:
  assumes "port_ok e c q" "tidy n G M d" "ei_get_type e (buf d) (index d) = Some (t, sz)" "ready e (Suc r) (buf d) (index d)"
    and "\<And>d'. tidy n G M d' \<Longrightarrow> ready e r (buf d') (index d') \<Longrightarrow> settles n G M (k d')"
  shows "settles n G M (bind_text_term e c q stmt i sz k d)"
proof (cases rule: malloc_cases [OF assms(2) port_okD(2) [OF assms(1)], of "nat (sz + 1)", case_names none some])
  case (none d')
  then show ?thesis using assms(1) by (simp add: bind_text_term_def)
next
  case (some m blk d')
  have out: "settles n G M (bind_outcome e rc l1 l2 k (d2\<lparr>sq := s\<rparr>))" if "tidy n G M d2" "ready e r (buf d2) (index d2)" for d2 rc l1 l2 s
    by (rule bind_outcome_settles [OF assms(1) _ _ assms(5)]) (use that in simp_all)
  note len = honest_atD(2,3) [OF readyD [OF assms(4)] assms(3)]
  consider (str) str j where "ei_decode_string e (buf d) (index d) = Some (str, j)"
    | (bin) bin j where "ei_decode_string e (buf d) (index d) = None" "ei_decode_binary e (buf d) (index d) = Some (bin, j)"
    | (bad) "ei_decode_string e (buf d) (index d) = None" "ei_decode_binary e (buf d) (index d) = None"
    by (cases "ei_decode_string e (buf d) (index d)"; cases "ei_decode_binary e (buf d) (index d)") auto
  then show ?thesis
  proof cases
    case str
    have t: "tidy n G (M(m \<mapsto> blk)) (d'\<lparr>index := j\<rparr>)" using some(6) by simp
    have "length (str @ [0]) \<le> length blk" using len(1) [OF str] some(3) by simp
    note st = store_block [OF t this]
    note gv = give_block [OF st(2) some(2,4)]
    show ?thesis
      using some(1,7,8) str st(1) gv out [OF gv(2)] ready_next(4) [OF assms(4) str]
      by (simp add: bind_text_term_def c_string_def split: prod.split)
  next
    case bin
    then have "length bin \<le> length blk" using len(2) [OF bin(2)] some(3) by simp
    then have "settles n G M (do { d \<leftarrow> store m bin (d'\<lparr>index := j\<rparr>); d \<leftarrow> give m d;
        case sqlite3_bind_text q stmt i bin (sq d) of (rc, s) \<Rightarrow> bind_outcome e rc 663 666 k (d\<lparr>sq := s\<rparr>) })"
      using out ready_next(5) [OF assms(4) bin(2)] some(7) by (intro store_give_settles [OF some(6,2,4)]) (simp_all split: prod.split)
    then show ?thesis using some(1,7,8) bin by (simp add: bind_text_term_def)
  next
    case bad
    then show ?thesis
      using some(1,7,8) settles_free [OF some(6,2), of "mk_error_tuple e ''badmsg'' 671"] assms(1) by (simp add: bind_text_term_def)
  qed
qed

lemma bind_blob_settles:
  assumes "port_ok e c q" "tidy n G M d" "ready e (nat ar + r) (buf d) (index d)" "\<And>d'. tidy n G M d' \<Longrightarrow> ready e r (buf d') (index d') \<Longrightarrow> settles n G M (k d')"
  shows "settles n G M (bind_blob_term e c q stmt i ar k d)"
proof (cases "ar = 2 \<and> (\<exists>t sz j. ei_get_type e (buf d) (index d) = Some (t, sz) \<and> sz < MAXATOMLEN e \<and>
    ei_decode_atom e (buf d) (index d) = Some (''blob'', j) \<and> (\<exists>t' sz'. ei_get_type e (buf d) j = Some (t', sz')))")
  case False
  then show ?thesis
    using assms(1,2) by (auto simp: bind_blob_term_def Let_def not_le split: need_split)
next
  case True
  then obtain t sz j t' sz' where g: "ar = 2" "ei_get_type e (buf d) (index d) = Some (t, sz)" "sz < MAXATOMLEN e"
    "ei_decode_atom e (buf d) (index d) = Some (''blob'', j)" "ei_get_type e (buf d) j = Some (t', sz')" by blast
  have td: "tidy n G M (d\<lparr>index := j\<rparr>)" using assms(2) by simp
  have rj: "ready e (Suc r) (buf d) j" by (rule ready_next(1) [OF _ g(4)]) (use assms(3) g(1) in simp)
  have out: "settles n G M (bind_outcome e rc l1 l2 k (d2\<lparr>sq := s\<rparr>))" if "tidy n G M d2" "ready e r (buf d2) (index d2)" for d2 rc l1 l2 s
    by (rule bind_outcome_settles [OF assms(1) _ _ assms(4)]) (use that in simp_all)
  show ?thesis
  proof (cases rule: malloc_cases [OF td port_okD(2) [OF assms(1)], of "nat sz'", case_names none some])
    case (none d')
    then show ?thesis using g assms(1) by (simp add: bind_blob_term_def)
  next
    case (some m blk d')
    show ?thesis
    proof (cases "ei_decode_binary e (buf d) j")
      case None
      then show ?thesis
        using g some(1,7,8) settles_free [OF some(6,2), of "mk_error_tuple e ''badmsg'' 596"] assms(1) by (simp add: bind_blob_term_def)
    next
      case (Some bj)
      obtain bin j' where bj: "bj = (bin, j')" by (cases bj)
      have "int (length bin) \<le> sz'" using honest_atD(3) [OF readyD [OF rj]] g(5) Some bj by simp
      then have "length bin \<le> length blk" using some(3) by simp
      then have "settles n G M (do { d \<leftarrow> store m bin (d'\<lparr>index := j'\<rparr>); d \<leftarrow> give m d;
          case sqlite3_bind_blob q stmt i bin (sq d) of (rc, s) \<Rightarrow> bind_outcome e rc 605 608 k (d\<lparr>sq := s\<rparr>) })"
        using out ready_next(5) [OF rj] Some bj some(7)
        by (intro store_give_settles [OF some(6,2,4)]) (simp_all split: prod.split)
      then show ?thesis using g some(1,7,8) Some bj by (simp add: bind_blob_term_def)
    qed
  qed
qed

lemma bind_term_settles:
  assumes "port_ok e c q" "tidy n G M d" "ready e (Suc r) (buf d) (index d)"
    and "\<And>d'. tidy n G M d' \<Longrightarrow> ready e r (buf d') (index d') \<Longrightarrow> settles n G M (k d')"
  shows "settles n G M (bind_term e c q stmt i k d)"
proof -
  have out: "settles n G M (bind_outcome e rc l1 l2 k (d\<lparr>index := j, sq := s\<rparr>))" if "ready e r (buf d) j" for rc l1 l2 j s
    by (rule bind_outcome_settles [OF assms(1) _ _ assms(4)]) (use that assms(2) in simp_all)
  have blob: "settles n G M (bind_blob_term e c q stmt i ar k (d\<lparr>index := j\<rparr>))" if "ready e (nat ar + r) (buf d) j" for ar j
    by (rule bind_blob_settles [OF assms(1) _ _ assms(4)]) (use that assms(2) in simp_all)
  have last: "settles n G M (bind_text_term e c q stmt i sz k d)" if "ei_get_type e (buf d) (index d) = Some (t, sz)" for t sz
    by (rule bind_text_settles [OF assms(1,2) that assms(3,4)])
  note nxt = ready_next(1-3,6) [OF assms(3)]
  show ?thesis
    using assms(1,2) last nxt by (auto simp: bind_term_def Let_def intro!: out blob split: need_split option.split prod.split if_split)
qed

lemma bind_terms_settle:
  "port_ok e c q \<Longrightarrow> tidy n G M d \<Longrightarrow> ready e (k + r) (buf d) (index d) \<Longrightarrow> settles n G M (bind_terms e c q stmt k i d)"
proof (induction k arbitrary: i d)
  case (Suc k)
  then show ?case
    unfolding bind_terms.simps by (intro bind_term_settles [of e c q _ _ _ d "k + r"]) simp_all
qed simp

lemma bind_settles:
  fixes q :: "'q sqlite"
  shows "port_ok e c q \<Longrightarrow> ready e (Suc (Suc 0)) (buf d) (index d) \<Longrightarrow> tidy n G M d \<Longrightarrow> settles n G M (handle_bind_msg e c q d)"
  unfolding handle_bind_msg_def
proof (rule get_ptr_settles, (erule port_okD)+, assumption, assumption)
  fix stmt and d' :: "'q drv" assume p: "port_ok e c q" and t: "tidy n G M d'" and r: "ready e (Suc 0) (buf d') (index d')"
  let ?h = "need (ei_get_type e (buf d') (index d')) (Some (-1, d')) (\<lambda>(type, sz).
     case ei_decode_list_header e (buf d') (index d') of
       Some (arity, j) \<Rightarrow> bind_term_list e c q stmt arity (d'\<lparr>index := j\<rparr>)
     | None \<Rightarrow>
         (case malloc c (nat (sz + 1)) d' of
            (None, d) \<Rightarrow> mk_error_tuple e ''malloc_failed'' 283 d
          | (Some vals, d) \<Rightarrow>
              (case ei_decode_string e (buf d) (index d) of
                 Some (str, j) \<Rightarrow> do { d \<leftarrow> store vals (str @ [0]) (d\<lparr>index := j\<rparr>); bind_int_list e q stmt vals sz d }
               | None \<Rightarrow> do { d \<leftarrow> free vals d; mk_error_tuple e ''badmsg'' 292 d })))"
  have list: "settles n G M (bind_terms e c q stmt (nat ar) 1 (d'\<lparr>index := j\<rparr>))"
    if "ei_decode_list_header e (buf d') (index d') = Some (ar, j)" for ar j
    by (rule bind_terms_settle [OF p]) (use t ready_next(7) [OF r that] in simp_all)
  show "settles n G M ?h"
  proof (cases "ei_decode_list_header e (buf d') (index d') = None \<and> (\<exists>t sz. ei_get_type e (buf d') (index d') = Some (t, sz))")
    case False
    then show ?thesis
      using t list by (auto simp: bind_term_list_def split: need_split)
  next
    case True
    then obtain ty sz where g: "ei_decode_list_header e (buf d') (index d') = None" "ei_get_type e (buf d') (index d') = Some (ty, sz)"
      by blast
    show ?thesis
    proof (cases rule: malloc_cases [OF t port_okD(2) [OF p], of "nat (sz + 1)", case_names none some])
      case (none d2)
      then show ?thesis using g p by simp
    next
      case (some m blk d2)
      show ?thesis
      proof (cases "ei_decode_string e (buf d') (index d')")
        case None
        then show ?thesis using g some(1,7,8) settles_free [OF some(6,2), of "mk_error_tuple e ''badmsg'' 292"] p by simp
      next
        case (Some sj)
        obtain str j where sj: "sj = (str, j)" by (cases sj)
        have t2: "tidy n G (M(m \<mapsto> blk)) (d2\<lparr>index := j\<rparr>)" using some(6) by simp
        have "int (length str) \<le> sz" using honest_atD(2) [OF readyD [OF r] g(2)] Some sj by simp
        then have len: "length (str @ [0]) \<le> length blk" using some(3) by simp
        note st = store_block [OF t2 len]
        have "settles n G M (bind_ints e q stmt m (nat sz) 0 (d2\<lparr>index := j, mem := M(m \<mapsto> (str @ [0]) @ drop (length (str @ [0])) blk)\<rparr>))"
          by (rule bind_ints_settle [OF p st(2) some(2)]) (use len some(3) in simp)
        then show ?thesis using g some(1,7,8) Some sj st(1) by (simp add: bind_int_list_def)
      qed
    qed
  qed
qed

lemma handle_msg_settles:
  assumes "port_ok e c q" "tidy n G M d" "intact e (buf d)" "asked_row_fits e c q d"
  shows "settles n G M (handle_msg e c q d)"
proof -
  have lib: "settles n G M (put_all [ei_encode_version e, ei_encode_string e (sqlite3_libversion q)] (d'\<lparr>index := 0\<rparr>))"
    if "tidy n G M d'" for d'
  proof -
    have "enc_len (ei_encode_version e) \<le> 1" "enc_len (ei_encode_string e (sqlite3_libversion q)) \<le> 6 + 2 * length (sqlite3_libversion q)"
      using port_okD(1) [OF assms(1)] by (simp_all add: ei_encodings_def)
    moreover have "length (sqlite3_libversion q) \<le> 100" using port_okD(3) [OF assms(1)] by (simp add: sqlite_ok_def)
    ultimately show ?thesis by (intro put_all_settles [OF that]) simp
  qed
  have tuple: "settles n G M (handle_tuple_msg e c q ar (d\<lparr>index := j\<rparr>))"
    if at: "ei_decode_version e (buf d) 0 = Some (v, i)" "ei_decode_atom e (buf d) i = None" "ei_decode_tuple_header e (buf d) i = Some (ar, j)"
    for v i ar j
  proof (cases "(ar = 2 \<or> ar = 3) \<and> ei_decode_atom e (buf d) j \<noteq> None")
    case False
    then show ?thesis using assms(1,2) by (auto simp: handle_tuple_msg_def split: option.split)
  next
    case True
    then obtain a k where a: "ei_decode_atom e (buf d) j = Some (a, k)" by auto
    have "pending e (buf d) (Suc 0) i" using pending.start [OF at(1)] by simp
    from pending.tuple [OF this at(3)] have "pending e (buf d) (Suc (nat ar - 1)) j" using True by (auto simp: eval_nat_numeral)
    from pending.atom [OF this a] have r: "ready e (nat ar - 1) (buf d) k" using assms(3) by (simp add: ready_def)
    have t: "tidy n G M (d\<lparr>index := k\<rparr>)" using assms(2) by simp
    have fit: "row_fits e c q (d\<lparr>index := k\<rparr>)" if "ar = 2" "a = ''step''"
      using assms(4) at a that by (auto simp: asked_row_fits_def)
    note one = open_settles [OF assms(1)] close_settles [OF assms(1)] reset_settles [OF assms(1)] finalize_settles [OF assms(1)]
      and two = prepare_settles [OF assms(1)] exec_settles [OF assms(1)] bind_settles [OF assms(1)]
    show ?thesis
    proof (cases "ar = 2")
      case True
      then show ?thesis using one [OF _ t] step_settles [OF assms(1) _ fit t] r a assms(1) t by (simp add: handle_tuple_msg_def Let_def)
    next
      case False
      then show ?thesis using two [OF _ t] r a assms(1) t \<open>_ \<and> _\<close> by (simp add: handle_tuple_msg_def Let_def numeral_2_eq_2)
    qed
  qed
  show ?thesis
    using assms lib tuple by (auto simp: handle_msg_def handle_atom_msg_def Let_def split: need_split option.split)
qed

section \<open>The whole program\<close>

lemma read_cmd_total:
  assumes "length b = 65536"
  shows "\<exists>r b' p'. read_cmd b p = Some (r, b', p') \<and> length b' = 65536"
proof -
  obtain r1 b1 p1 where 1: "read_exact b 2 p = Some (r1, b1, p1)" "length b1 = 65536"
    using read_exact_total [of 2 b p] assms by auto
  let ?n = "be_val [b1 ! 0, b1 ! 1]"
  have "?n < 256 ^ length [b1 ! 0, b1 ! 1]" by (rule be_val_bound)
  then have n: "?n \<le> length b1" using 1(2) by simp
  obtain r2 b2 p2 where 2: "read_exact b1 (int ?n) p1 = Some (r2, b2, p2)" "length b2 = 65536"
    using read_exact_total [OF n, of p1] 1(2) by auto
  have "(push_bit 8 (uint (b1 ! 0)) OR uint (b1 ! 1)) = int ?n" by (rule two_byte_length)
  then show ?thesis using 1 2 by (simp add: read_cmd_def PACKET_SIZE_def)
qed

lemma write_exact_loop_total:
  assumes "len \<le> length b" "k \<le> len"
  shows "\<exists>r p'. write_exact_loop b (int len) (int k) p = Some (r, p')"
  using assms
proof (induction "len - k" arbitrary: k p rule: less_induct)
  case less
  show ?case
  proof (cases "k < len")
    case False
    then show ?thesis by (simp add: write_exact_loop.simps)
  next
    case True
    let ?data = "take (len - k) (drop k b)"
    have rd: "rd b (int k) (nat (int len - int k)) = Some ?data" using True less.prems by (simp add: rd_def nat_diff_distrib)
    obtain i p1 where w: "os_write ?data p = (i, p1)" by fastforce
    show ?thesis
    proof (cases "i \<le> 0")
      case True
      then show ?thesis using rd w by (subst write_exact_loop.simps) simp
    next
      case False
      have i: "i \<le> int (length ?data)" using os_write_bounds [OF w] by simp
      obtain j where j: "i = int j" using False by (metis nat_0_le linear)
      have "\<exists>r p'. write_exact_loop b (int len) (int (k + j)) p1 = Some (r, p')"
        by (rule less.hyps) (use i j False True less.prems in auto)
      then show ?thesis using rd w False j by (subst write_exact_loop.simps) simp
    qed
  qed
qed

lemma write_cmd_total:
  assumes "0 \<le> n" "nat n \<le> length b"
  shows "\<exists>r p'. write_cmd b n p = Some (r, p')"
proof -
  have one: "\<exists>r p'. write_exact [x] 1 p = Some (r, p')" for x p
    using write_exact_loop_total [of 1 "[x]" 0 p] by (simp add: write_exact_def)
  have many: "\<exists>r p'. write_exact b n p = Some (r, p')" for p
    using write_exact_loop_total [of "nat n" b 0 p] assms by (simp add: write_exact_def)
  obtain r1 p1 where 1: "write_exact [word_of_int (drop_bit 8 n AND 255)] 1 p = Some (r1, p1)" using one by blast
  obtain r2 p2 where 2: "write_exact [word_of_int (n AND 255)] 1 p1 = Some (r2, p2)" using one by blast
  show ?thesis using 1 2 many [of p2] by (simp add: write_cmd_def Let_def)
qed

lemma tidy_deliver: "tidy n G M d \<Longrightarrow> length b = 65536 \<Longrightarrow> tidy n G M (d\<lparr>buf := b\<rparr>)"
  by (auto simp: tidy_def)

text \<open>The states in which a run of the program handles a message: the message is in the buffer.\<close>

inductive handles :: "ei \<Rightarrow> libc \<Rightarrow> 'q sqlite \<Rightarrow> 'q drv \<Rightarrow> pipes \<Rightarrow> 'q drv \<Rightarrow> bool" for e c q where
  first: "read_cmd (buf d) p = Some (r, b, p') \<Longrightarrow> 0 < r \<Longrightarrow> handles e c q d p (d\<lparr>buf := b\<rparr>)"
| later: "read_cmd (buf d) p = Some (r, b, p') \<Longrightarrow> 0 < r \<Longrightarrow> handle_msg e c q (d\<lparr>buf := b\<rparr>) = Some (0, d1) \<Longrightarrow>
    write_cmd (buf d1) (index d1) p' = Some (w, p1) \<Longrightarrow> handles e c q d1 p1 d' \<Longrightarrow> handles e c q d p d'"

lemma main_loop_returns:
  assumes "port_ok e c q" "tidy n G M d"
    and "\<And>d'. handles e c q d p d' \<Longrightarrow> intact e (buf d') \<and> asked_row_fits e c q d'"
  shows "\<exists>r d' p'. main_loop e c q d p = Some (r, d', p') \<and> (r = EXIT_SUCCESS \<or> r = EXIT_FAILURE) \<and> tidy n G M d'"
  using assms
proof (induction e c q d p rule: main_loop.induct)
  case (1 e c q d p)
  obtain r b p1 where rd: "read_cmd (buf d) p = Some (r, b, p1)" "length b = 65536"
    using read_cmd_total [of "buf d" p] "1.prems"(2) by (auto simp: tidy_def)
  let ?d = "d\<lparr>buf := b\<rparr>"
  have t: "tidy n G M ?d" using tidy_deliver [OF "1.prems"(2) rd(2)] .
  show ?case
  proof (cases "0 < r")
    case False
    then show ?thesis using rd(1) t by (subst main_loop.simps) simp
  next
    case True
    have good: "intact e (buf ?d)" "asked_row_fits e c q ?d" using "1.prems"(3) [OF handles.first [OF rd(1) True]] by auto
    obtain res d1 where h: "handle_msg e c q ?d = Some (res, d1)" "tidy n G M d1" "res = 0 \<and> 0 \<le> index d1 \<and> index d1 < 65536 \<or> res = -1"
      using handle_msg_settles [OF "1.prems"(1) t good] by (auto simp: settles_def)
    show ?thesis
    proof (cases "res = 0")
      case False
      then show ?thesis using rd(1) True h(1,2) by (subst main_loop.simps) simp
    next
      case res: True
      then have "0 \<le> index d1" "nat (index d1) \<le> length (buf d1)" using h(2,3) by (auto simp: tidy_def)
      then obtain w p2 where w: "write_cmd (buf d1) (index d1) p1 = Some (w, p2)" using write_cmd_total by blast
      have "main_loop e c q d p = main_loop e c q d1 p2"
        using rd(1) True h(1) res w by (subst main_loop.simps) simp
      moreover have "\<exists>r d' p'. main_loop e c q d1 p2 = Some (r, d', p') \<and> (r = EXIT_SUCCESS \<or> r = EXIT_FAILURE) \<and> tidy n G M d'"
      proof (rule "1.IH" [OF rd(1) refl refl refl True h(1) refl _ w refl "1.prems"(1) h(2)])
        fix d' assume "handles e c q d1 p2 d'"
        then show "intact e (buf d') \<and> asked_row_fits e c q d'"
          using "1.prems"(3) handles.later [OF rd(1) True] h(1) res w by blast
      qed (use res in simp)
      ultimately show ?thesis by simp
    qed
  qed
qed

text \<open>
  Why lengths have to be honest: a binary that reports a negative length passes the check of its size and is
  copied over the eight bytes of the pointer.
\<close>

lemma negative_length_overruns:
  assumes "ei_get_type e (buf d) (index d) = Some (t, sz)" "sz < 0" "libc_ok c"
    and "ei_decode_binary e (buf d) (index d) = Some (bin, j)" "8 < length bin"
  shows "get_ptr e c l1 l2 k d = None"
  using assms by (simp add: get_ptr_def wr_def libc_ok_def)

end
