(* ===== verification/Sqlite_Spec.thy ===== *)
theory Sqlite_Spec
  imports Sqlite_Port
begin

text \<open>
  The port's contract on terms. A request is parsed out of the message, served by one call of SQLite (or one
  per bound value), and the reply is printed; buffers, indices, heap blocks and line numbers do not appear. The
  handlers of \<open>sqlite3_driver.c\<close> refine this contract.
\<close>

section \<open>Requests and replies\<close>

datatype sql_value = VInt int | VFloat "64 word" | VText bytes | VBlob bytes | VNull

datatype request =
    Libversion
  | Open bytes
  | Close ptr
  | Step ptr
  | Reset ptr
  | Finalize ptr
  | Prepare ptr bytes
  | Exec ptr bytes
  | Bind ptr "sql_value list"
  | Bind_Ints ptr bytes

datatype reply = Version bytes | Ok | Done | Ok_Addr ptr | Row "sql_value list" | Failure string

section \<open>Service\<close>

fun bind_value :: "'q sqlite \<Rightarrow> ptr \<Rightarrow> int \<Rightarrow> sql_value \<Rightarrow> 'q \<Rightarrow> int \<times> 'q" where
  "bind_value q stmt i (VInt v) = sqlite3_bind_int64 q stmt i v"
| "bind_value q stmt i (VFloat v) = sqlite3_bind_double q stmt i v"
| "bind_value q stmt i (VText v) = sqlite3_bind_text q stmt i v"
| "bind_value q stmt i (VBlob v) = sqlite3_bind_blob q stmt i v"
| "bind_value q stmt i VNull = sqlite3_bind_null q stmt i"

text \<open>Binding stops at the first value SQLite refuses.\<close>

fun bind_all :: "(int \<Rightarrow> 'v \<Rightarrow> 'q \<Rightarrow> int \<times> 'q) \<Rightarrow> 'v list \<Rightarrow> int \<Rightarrow> 'q \<Rightarrow> reply \<times> 'q" where
  "bind_all f [] i s = (Ok, s)"
| "bind_all f (v # vs) i s =
     (let (rc, s) = f i v s
      in if rc = SQLITE_OK then bind_all f vs (i + 1) s
         else (Failure (if rc = SQLITE_MISUSE then ''misuse'' else ''bind_error''), s))"

definition column_value :: "'q sqlite \<Rightarrow> ptr \<Rightarrow> int \<Rightarrow> 'q \<Rightarrow> sql_value" where
  "column_value q stmt i s =
     (let t = sqlite3_column_type q stmt i s
      in if t = SQLITE_INTEGER then VInt (sqlite3_column_int64 q stmt i s)
         else if t = SQLITE_FLOAT then VFloat (sqlite3_column_double q stmt i s)
         else if t = SQLITE_TEXT then VText (take (sqlite3_column_bytes q stmt i s) (sqlite3_column_text q stmt i s))
         else if t = SQLITE_BLOB then VBlob (take (sqlite3_column_bytes q stmt i s) (sqlite3_column_blob q stmt i s))
         else VNull)"

definition ok_or :: "string \<Rightarrow> int \<times> 'q \<Rightarrow> reply \<times> 'q" where
  "ok_or err r = (case r of (rc, s) \<Rightarrow> (if rc = SQLITE_OK then Ok else Failure err, s))"

definition addr_or :: "string \<Rightarrow> int \<times> ptr \<times> 'q \<Rightarrow> reply \<times> 'q" where
  "addr_or err r = (case r of (rc, p, s) \<Rightarrow> (if rc = SQLITE_OK then Ok_Addr p else Failure err, s))"

fun serve :: "'q sqlite \<Rightarrow> request \<Rightarrow> 'q \<Rightarrow> reply \<times> 'q" where
  "serve q Libversion s = (Version (sqlite3_libversion q), s)"
| "serve q (Open name) s = addr_or ''open_not_ok'' (sqlite3_open q name s)"
| "serve q (Close db) s =
     (let (rc, s) = sqlite3_close q db s
      in (if rc = SQLITE_BUSY then Failure ''busy'' else if rc = SQLITE_OK then Ok else Failure ''close_not_ok'', s))"
| "serve q (Step stmt) s =
     (let (rc, s) = sqlite3_step q stmt s
      in (if rc = SQLITE_BUSY then Failure ''busy''
          else if rc = SQLITE_MISUSE then Failure ''misuse''
          else if rc = SQLITE_ROW then
            Row (map (\<lambda>i. column_value q stmt (int i) s) [0..<nat (sqlite3_column_count q stmt s)])
          else if rc = SQLITE_DONE then Done else Failure ''step_error'', s))"
| "serve q (Reset stmt) s = ok_or ''reset_not_ok'' (sqlite3_reset q stmt s)"
| "serve q (Finalize stmt) s = ok_or ''finalize_not_ok'' (sqlite3_finalize q stmt s)"
| "serve q (Prepare db sql) s = addr_or ''prepare_not_ok'' (sqlite3_prepare_v2 q db sql s)"
| "serve q (Exec db sql) s = ok_or ''exec_not_ok'' (sqlite3_exec q db sql s)"
| "serve q (Bind stmt vs) s = bind_all (bind_value q stmt) vs 1 s"
| "serve q (Bind_Ints stmt bs) s = bind_all (\<lambda>i b. sqlite3_bind_int q stmt i (uint b)) bs 1 s"

section \<open>Printing\<close>

fun print_value :: "ei \<Rightarrow> sql_value \<Rightarrow> bytes option" where
  "print_value e (VInt i) = ei_encode_longlong e i"
| "print_value e (VFloat x) = ei_encode_double e x"
| "print_value e (VText b) = ei_encode_binary e b"
| "print_value e (VBlob b) = ei_encode_binary e b"
| "print_value e VNull = ei_encode_atom e ''null''"

fun print_reply :: "ei \<Rightarrow> int \<Rightarrow> reply \<Rightarrow> bytes option list" where
  "print_reply e line (Version v) = [ei_encode_version e, ei_encode_string e v]"
| "print_reply e line Ok = [ei_encode_version e, ei_encode_atom e ''ok'']"
| "print_reply e line Done = [ei_encode_version e, ei_encode_atom e ''done'']"
| "print_reply e line (Ok_Addr p) =
     [ei_encode_version e, ei_encode_tuple_header e 2, ei_encode_atom e ''ok'', ei_encode_binary e p]"
| "print_reply e line (Row vs) =
     [ei_encode_version e, ei_encode_tuple_header e 2, ei_encode_atom e ''row'', ei_encode_list_header e (int (length vs))]
     @ map (print_value e) vs @ [ei_encode_empty_list e]"
| "print_reply e line (Failure a) =
     [ei_encode_version e, ei_encode_tuple_header e 3, ei_encode_atom e ''error'', ei_encode_atom e a, ei_encode_longlong e line]"

section \<open>Parsing\<close>

definition parse_ptr :: "ei \<Rightarrow> bytes \<Rightarrow> int \<Rightarrow> (ptr \<times> int) option" where
  "parse_ptr e b i = do {
     (t, sz) \<leftarrow> ei_get_type e b i;
     (bin, j) \<leftarrow> ei_decode_binary e b i;
     if sz = 8 \<and> length bin = 8 then Some (bin, j) else None }"

definition parse_string :: "ei \<Rightarrow> bytes \<Rightarrow> int \<Rightarrow> bytes option" where
  "parse_string e b i = do {
     (t, sz) \<leftarrow> ei_get_type e b i;
     (str, j) \<leftarrow> ei_decode_string e b i;
     Some (takeWhile (\<lambda>c. c \<noteq> 0) str) }"

definition parse_value :: "ei \<Rightarrow> bytes \<Rightarrow> int \<Rightarrow> (sql_value \<times> int) option" where
  "parse_value e b i = do {
     (t, sz) \<leftarrow> ei_get_type e b i;
     (case ei_decode_longlong e b i of
        Some (v, j) \<Rightarrow> Some (VInt v, j)
      | None \<Rightarrow>
          (case ei_decode_double e b i of
             Some (v, j) \<Rightarrow> Some (VFloat v, j)
           | None \<Rightarrow>
               (case ei_decode_tuple_header e b i of
                  Some (ar, j) \<Rightarrow> do {
                    (t, sz) \<leftarrow> ei_get_type e b j;
                    (a, k) \<leftarrow> ei_decode_atom e b j;
                    (t, sz') \<leftarrow> ei_get_type e b k;
                    (bin, l) \<leftarrow> ei_decode_binary e b k;
                    if ar = 2 \<and> sz < MAXATOMLEN e \<and> a = ''blob'' then Some (VBlob bin, l) else None }
                | None \<Rightarrow>
                    (case (if sz < MAXATOMLEN e then ei_decode_atom e b i else None) of
                       Some (a, j) \<Rightarrow> if a = ''null'' then Some (VNull, j) else None
                     | None \<Rightarrow>
                         (case ei_decode_string e b i of
                            Some (str, j) \<Rightarrow> Some (VText (takeWhile (\<lambda>c. c \<noteq> 0) str), j)
                          | None \<Rightarrow> map_option (\<lambda>(bin, j). (VText bin, j)) (ei_decode_binary e b i)))))) }"

fun parse_values :: "ei \<Rightarrow> bytes \<Rightarrow> nat \<Rightarrow> int \<Rightarrow> sql_value list option" where
  "parse_values e b 0 i = Some []"
| "parse_values e b (Suc n) i = do {
     (v, j) \<leftarrow> parse_value e b i;
     vs \<leftarrow> parse_values e b n j;
     Some (v # vs) }"

definition parse_params :: "ei \<Rightarrow> bytes \<Rightarrow> ptr \<Rightarrow> int \<Rightarrow> request option" where
  "parse_params e b stmt i = do {
     (t, sz) \<leftarrow> ei_get_type e b i;
     (case ei_decode_list_header e b i of
        Some (ar, j) \<Rightarrow> map_option (Bind stmt) (parse_values e b (nat ar) j)
      | None \<Rightarrow> do {
          (str, j) \<leftarrow> ei_decode_string e b i;
          if int (length str) = sz then Some (Bind_Ints stmt str) else None }) }"

definition parse_tuple :: "ei \<Rightarrow> bytes \<Rightarrow> int \<Rightarrow> string \<Rightarrow> int \<Rightarrow> request option" where
  "parse_tuple e b arity a i =
     (if arity = 2 then
        (if a = ''open'' then map_option Open (parse_string e b i)
         else do {
           (p, j) \<leftarrow> parse_ptr e b i;
           if a = ''close'' then Some (Close p)
           else if a = ''step'' then Some (Step p)
           else if a = ''reset'' then Some (Reset p)
           else if a = ''finalize'' then Some (Finalize p) else None })
      else if arity = 3 then do {
        (p, j) \<leftarrow> parse_ptr e b i;
        if a = ''prepare'' then map_option (Prepare p) (parse_string e b j)
        else if a = ''bind'' then parse_params e b p j
        else if a = ''exec'' then map_option (Exec p) (parse_string e b j) else None }
      else None)"

definition parse_request :: "ei \<Rightarrow> bytes \<Rightarrow> request option" where
  "parse_request e b = do {
     (v, i) \<leftarrow> ei_decode_version e b 0;
     (case ei_decode_atom e b i of
        Some (a, j) \<Rightarrow> if a = ''libversion'' then Some Libversion else None
      | None \<Rightarrow> do {
          (arity, j) \<leftarrow> ei_decode_tuple_header e b i;
          (a, k) \<leftarrow> ei_decode_atom e b j;
          parse_tuple e b arity a k }) }"

section \<open>Replies in the buffer\<close>

text \<open>
  The encoders succeed on what the manual of \<open>ei\<close> allows: arities that are not negative, atoms shorter than
  \<open>MAXATOMLEN\<close>, 64-bit integers. (Doubles that are not finite are refused, so nothing is said of doubles here.)
  SQLite's column types are the five that exist.
\<close>

definition encoders_succeed :: "ei \<Rightarrow> bool" where
  "encoders_succeed e \<longleftrightarrow> ei_encode_version e \<noteq> None \<and> (\<forall>n \<ge> 0. ei_encode_tuple_header e n \<noteq> None) \<and>
     (\<forall>n \<ge> 0. ei_encode_list_header e n \<noteq> None) \<and> ei_encode_empty_list e \<noteq> None \<and>
     (\<forall>a. length a < 256 \<longrightarrow> ei_encode_atom e a \<noteq> None) \<and>
     (\<forall>i. - (2 ^ 63) \<le> i \<longrightarrow> i < 2 ^ 63 \<longrightarrow> ei_encode_longlong e i \<noteq> None) \<and>
     (\<forall>b. ei_encode_binary e b \<noteq> None) \<and> (\<forall>b. ei_encode_string e b \<noteq> None)"

lemma encoders_succeedD:
  assumes "encoders_succeed e"
  shows "ei_encode_version e \<noteq> None" "0 \<le> n \<Longrightarrow> ei_encode_tuple_header e n \<noteq> None" "0 \<le> n \<Longrightarrow> ei_encode_list_header e n \<noteq> None"
    "ei_encode_empty_list e \<noteq> None" "length a < 256 \<Longrightarrow> ei_encode_atom e a \<noteq> None"
    "- (2 ^ 63) \<le> i \<Longrightarrow> i < 2 ^ 63 \<Longrightarrow> ei_encode_longlong e i \<noteq> None" "ei_encode_binary e b \<noteq> None" "ei_encode_string e b \<noteq> None"
  using assms unfolding encoders_succeed_def by blast+

definition column_types :: "'q sqlite \<Rightarrow> bool" where
  "column_types q \<longleftrightarrow> (\<forall>stmt i s. sqlite3_column_type q stmt i s \<in> {SQLITE_INTEGER, SQLITE_FLOAT, SQLITE_TEXT, SQLITE_BLOB, SQLITE_NULL}) \<and>
     (\<forall>stmt s. 0 \<le> sqlite3_column_count q stmt s)"

text \<open>The reply has an encoding, and it fits a packet.\<close>

definition fits_packet :: "ei \<Rightarrow> reply \<Rightarrow> bool" where
  "fits_packet e rep \<longleftrightarrow> None \<notin> set (print_reply e 0 rep) \<and> enc_size (print_reply e 0 rep) < 65536"

text \<open>The handler's result is this reply, and SQLite's state is this one.\<close>

definition answers :: "ei \<Rightarrow> reply \<times> 'q \<Rightarrow> (int \<times> 'q drv) option \<Rightarrow> bool" where
  "answers e out res \<longleftrightarrow> (case out of (rep, s) \<Rightarrow>
     (\<exists>line d. res = Some (0, d) \<and> sq d = s \<and> 0 \<le> index d \<and>
        take (nat (index d)) (buf d) = concat (map the (print_reply e line rep))))"

lemma put_then_writes:
  assumes "None \<notin> set es" "0 \<le> index d" "nat (index d) + enc_size es \<le> length (buf d)"
  shows "\<exists>b. put_then es k d = k (d\<lparr>buf := b, index := index d + int (enc_size es)\<rparr>) \<and> length b = length (buf d) \<and>
     take (nat (index d) + enc_size es) b = take (nat (index d)) (buf d) @ concat (map the es)"
  using assms
proof (induction es arbitrary: d)
  case (Cons x es)
  obtain bs where x: "x = Some bs" using Cons.prems(1) by (cases x) auto
  let ?i = "nat (index d)"
  let ?b = "take ?i (buf d) @ bs @ drop (?i + length bs) (buf d)"
  let ?d = "d\<lparr>buf := ?b, index := index d + int (length bs)\<rparr>"
  have len: "?i + length bs \<le> length (buf d)" using Cons.prems(3) x by simp
  have w: "wr (buf d) (index d) bs = Some ?b" using len Cons.prems(2) by (simp add: wr_def)
  have i': "nat (index ?d) = ?i + length bs" using Cons.prems(2) by simp
  have "\<exists>b. put_then es k ?d = k (?d\<lparr>buf := b, index := index ?d + int (enc_size es)\<rparr>) \<and> length b = length (buf ?d) \<and>
      take (nat (index ?d) + enc_size es) b = take (nat (index ?d)) (buf ?d) @ concat (map the es)"
    by (rule Cons.IH) (use Cons.prems x len in \<open>simp_all add: nat_add_distrib\<close>)
  from this [unfolded i'] obtain b where b: "put_then es k ?d = k (?d\<lparr>buf := b, index := index ?d + int (enc_size es)\<rparr>)" "length b = length (buf ?d)"
    "take (?i + length bs + enc_size es) b = take (?i + length bs) (buf ?d) @ concat (map the es)" by blast
  have "take (?i + length bs) ?b = take ?i (buf d) @ bs" using len by simp
  then show ?case using b w x len by (intro exI [of _ b]) (simp add: algebra_simps)
next
  case Nil
  then show ?case by (intro exI [of _ "buf d"]) simp
qed

lemma put_all_answers:
  assumes "None \<notin> set (print_reply e line rep)" "enc_size (print_reply e line rep) \<le> length (buf d)"
  shows "answers e (rep, sq d) (put_all (print_reply e line rep) (d\<lparr>index := 0\<rparr>))"
proof -
  let ?es = "print_reply e line rep"
  obtain b where b: "put_then ?es (\<lambda>d. Some (0, d)) (d\<lparr>index := 0\<rparr>) = Some (0, d\<lparr>index := 0, buf := b, index := 0 + int (enc_size ?es)\<rparr>)"
    "take (enc_size ?es) b = concat (map the ?es)"
    using put_then_writes [OF assms(1), of "d\<lparr>index := 0\<rparr>" "\<lambda>d. Some (0, d)"] assms(2) by auto
  then show ?thesis by (auto simp: answers_def put_all_def)
qed

text \<open>The setting of the refinement: the libraries as documented, and no allocation fails.\<close>

definition serving :: "ei \<Rightarrow> libc \<Rightarrow> 'q sqlite \<Rightarrow> bool" where
  "serving e c q \<longleftrightarrow> port_ok e c q \<and> encoders_succeed e \<and> column_types q \<and> (\<forall>m. \<not> malloc_fails c m)"

lemma servingD:
  assumes "serving e c q"
  shows "port_ok e c q" "encoders_succeed e" "column_types q" "\<not> malloc_fails c m"
    "ei_encodings e" "libc_ok c" "sqlite_ok q"
  using assms unfolding serving_def port_ok_def by blast+

lemma print_fits:
  assumes "serving e c q"
  shows "length a \<le> 20 \<Longrightarrow> 0 \<le> l \<Longrightarrow> l < 2 ^ 63 \<Longrightarrow>
      None \<notin> set (print_reply e l (Failure a)) \<and> enc_size (print_reply e l (Failure a)) \<le> 65536"
    and "None \<notin> set (print_reply e l Ok) \<and> enc_size (print_reply e l Ok) \<le> 65536"
    and "None \<notin> set (print_reply e l Done) \<and> enc_size (print_reply e l Done) \<le> 65536"
    and "length p = 8 \<Longrightarrow> None \<notin> set (print_reply e l (Ok_Addr p)) \<and> enc_size (print_reply e l (Ok_Addr p)) \<le> 65536"
    and "None \<notin> set (print_reply e l (Version (sqlite3_libversion q))) \<and> enc_size (print_reply e l (Version (sqlite3_libversion q))) \<le> 65536"
proof -
  note e = servingD(5) [OF assms]
  have v: "length (sqlite3_libversion q) \<le> 100" using servingD(7) [OF assms] unfolding sqlite_ok_def by blast
  note s = encoders_succeedD [OF servingD(2) [OF assms]]
  have n: "None \<noteq> ei_encode_version e" "None \<noteq> ei_encode_tuple_header e 2" "None \<noteq> ei_encode_tuple_header e 3" "None \<noteq> ei_encode_binary e b"
      "None \<noteq> ei_encode_string e b" "None \<noteq> ei_encode_atom e ''error''" "None \<noteq> ei_encode_atom e ''ok''" "None \<noteq> ei_encode_atom e ''done''" for b
    using s(1) s(2) [of 2] s(2) [of 3] s(5) [of "''error''"] s(5) [of "''ok''"] s(5) [of "''done''"] s(7,8) [of b] by auto
  have b: "enc_len (ei_encode_version e) \<le> 1" "enc_len (ei_encode_tuple_header e k) \<le> 5" "enc_len (ei_encode_atom e x) \<le> 3 + length x"
      "enc_len (ei_encode_longlong e i) \<le> 11" "enc_len (ei_encode_binary e y) \<le> 5 + length y" "enc_len (ei_encode_string e y) \<le> 6 + 2 * length y"
    for k x i y using e by (simp_all add: ei_encodings_def)
  show "None \<notin> set (print_reply e l (Failure a)) \<and> enc_size (print_reply e l (Failure a)) \<le> 65536"
    if "length a \<le> 20" "0 \<le> l" "l < 2 ^ 63"
    using n s(5) [of a] s(6) [of l] b(1) b(2) [of 3] b(3) [of "''error''"] b(3) [of a] b(4) [of l] that by auto
  show "None \<notin> set (print_reply e l Ok) \<and> enc_size (print_reply e l Ok) \<le> 65536" using n b(1) b(3) [of "''ok''"] by simp
  show "None \<notin> set (print_reply e l Done) \<and> enc_size (print_reply e l Done) \<le> 65536" using n b(1) b(3) [of "''done''"] by simp
  show "length p = 8 \<Longrightarrow> None \<notin> set (print_reply e l (Ok_Addr p)) \<and> enc_size (print_reply e l (Ok_Addr p)) \<le> 65536"
    using n b(1) b(2) [of 2] b(3) [of "''ok''"] b(5) [of p] by simp
  show "None \<notin> set (print_reply e l (Version (sqlite3_libversion q))) \<and> enc_size (print_reply e l (Version (sqlite3_libversion q))) \<le> 65536"
    using n b(1) b(6) [of "sqlite3_libversion q"] v by simp
qed

lemma reply_answers:
  assumes "serving e c q" "length (buf d) = 65536"
  shows "length a \<le> 20 \<Longrightarrow> 0 \<le> l \<Longrightarrow> l < 2 ^ 63 \<Longrightarrow> answers e (Failure a, sq d) (mk_error_tuple e a l d)"
    and "answers e (Ok, sq d) (reply_atom e ''ok'' d)" "answers e (Done, sq d) (reply_atom e ''done'' d)"
    and "length p = 8 \<Longrightarrow> answers e (Ok_Addr p, sq d) (mk_ok_addr_tuple e p d)"
    and "answers e (Version (sqlite3_libversion q), sq d)
           (put_all [ei_encode_version e, ei_encode_string e (sqlite3_libversion q)] (d\<lparr>index := 0\<rparr>))"
proof -
  note fits = print_fits [OF assms(1)]
  have ans: "answers e (rep, sq d) (put_all (print_reply e l rep) (d\<lparr>index := 0\<rparr>))"
    if "None \<notin> set (print_reply e l rep) \<and> enc_size (print_reply e l rep) \<le> 65536" for rep l
    using that assms(2) by (intro put_all_answers) simp_all
  show "length a \<le> 20 \<Longrightarrow> 0 \<le> l \<Longrightarrow> l < 2 ^ 63 \<Longrightarrow> answers e (Failure a, sq d) (mk_error_tuple e a l d)"
    using ans [OF fits(1)] unfolding mk_error_tuple_def print_reply.simps .
  show "answers e (Ok, sq d) (reply_atom e ''ok'' d)" using ans [OF fits(2)] unfolding reply_atom_def print_reply.simps .
  show "answers e (Done, sq d) (reply_atom e ''done'' d)" using ans [OF fits(3)] unfolding reply_atom_def print_reply.simps .
  show "length p = 8 \<Longrightarrow> answers e (Ok_Addr p, sq d) (mk_ok_addr_tuple e p d)"
    using ans [OF fits(4)] unfolding mk_ok_addr_tuple_def print_reply.simps .
  show "answers e (Version (sqlite3_libversion q), sq d)
      (put_all [ei_encode_version e, ei_encode_string e (sqlite3_libversion q)] (d\<lparr>index := 0\<rparr>))"
    using ans [OF fits(5)] unfolding print_reply.simps .
qed

section \<open>The handlers refine the contract\<close>

lemma get_ptr_parsed:
  assumes "serving e c q" "parse_ptr e (buf d) (index d) = Some (p, j)"
  shows "get_ptr e c l1 l2 k d = k p (d\<lparr>index := j\<rparr>)" "length p = 8"
proof -
  have "length (stack_ptr c) = 8" using servingD(6) [OF assms(1)] by (simp add: libc_ok_def)
  moreover obtain t where g: "ei_get_type e (buf d) (index d) = Some (t, 8)" "ei_decode_binary e (buf d) (index d) = Some (p, j)"
    and p: "length p = 8" using assms(2) by (auto simp: parse_ptr_def bind_eq_Some_conv split: if_splits)
  ultimately show "get_ptr e c l1 l2 k d = k p (d\<lparr>index := j\<rparr>)" by (simp add: get_ptr_def wr_def)
  show "length p = 8" by (rule p)
qed

lemma malloc_parsed:
  "serving e c q \<Longrightarrow> malloc c n d = (Some (next_mem d), d\<lparr>next_mem := Suc (next_mem d), mem := (mem d)(next_mem d \<mapsto> fresh_block c n)\<rparr>)"
  using servingD(4) [of e c q] by (simp add: malloc_def Let_def)

lemma serving_fresh [simp]: "serving e c q \<Longrightarrow> length (fresh_block c n) = n"
  using servingD(6) [of e c q] by (simp add: libc_ok_def)

lemma c_string_terminated [simp]: "c_string (s @ 0 # rest) = Some (takeWhile (\<lambda>c. c \<noteq> 0) s)"
  by (induction s) (auto simp: c_string_def)

lemma get_string_parsed:
  assumes "serving e c q" "parse_string e (buf d) (index d) = Some name" "honest_at e (buf d) (index d)"
  shows "\<exists>m blk d'. get_string e c l1 l2 k d = k m d' \<and> mem d' m = Some blk \<and> c_string blk = Some name \<and> sq d' = sq d \<and> buf d' = buf d"
proof -
  obtain t sz str j where g: "ei_get_type e (buf d) (index d) = Some (t, sz)" "ei_decode_string e (buf d) (index d) = Some (str, j)"
    "name = takeWhile (\<lambda>c. c \<noteq> 0) str" using assms(2) by (auto simp: parse_string_def bind_eq_Some_conv)
  have "int (length str) \<le> sz" using honest_atD(2) [OF assms(3) g(1,2)] .
  then have w: "wr (fresh_block c (nat (sz + 1))) 0 (str @ [0]) = Some (str @ 0 # drop (Suc (length str)) (fresh_block c (nat (sz + 1))))"
    using serving_fresh [OF assms(1)] by (simp add: wr_def)
  let ?blk = "str @ 0 # drop (Suc (length str)) (fresh_block c (nat (sz + 1)))"
  let ?d = "d\<lparr>next_mem := Suc (next_mem d), mem := (mem d)(next_mem d \<mapsto> ?blk), index := j\<rparr>"
  have "get_string e c l1 l2 k d = k (next_mem d) ?d"
    using g w malloc_parsed [OF assms(1), of "nat (sz + 1)" d] by (simp add: get_string_def store_def)
  then show ?thesis using g(3) by (intro exI [of _ "next_mem d"] exI [of _ ?blk] exI [of _ ?d]) simp
qed

lemma free_kept: "mem d m = Some blk \<Longrightarrow> \<exists>d'. free m d = Some d' \<and> sq d' = sq d \<and> buf d' = buf d"
  by (simp add: free_def)

lemma open_answers:
  assumes "serving e c q" "length (buf d) = 65536" "parse_string e (buf d) (index d) = Some name" "honest_at e (buf d) (index d)"
  shows "answers e (serve q (Open name) (sq d)) (handle_open_msg e c q d)"
proof -
  let ?k = "\<lambda>filename d. do { blk \<leftarrow> mem d filename; name \<leftarrow> c_string blk;
     let (rc, db, s) = sqlite3_open q name (sq d); d \<leftarrow> free filename (d\<lparr>sq := s\<rparr>);
     if rc \<noteq> SQLITE_OK then mk_error_tuple e ''open_not_ok'' 166 d else mk_ok_addr_tuple e db d }"
  obtain m blk d' where g: "get_string e c 154 160 ?k d = ?k m d'" "mem d' m = Some blk" "c_string blk = Some name"
      "sq d' = sq d" "buf d' = buf d" using get_string_parsed [OF assms(1,3,4), of 154 160 ?k] by auto
  obtain rc db s where o: "sqlite3_open q name (sq d) = (rc, db, s)" by (metis prod_cases3)
  then have "length db = 8" using servingD(7) [OF assms(1)] unfolding sqlite_ok_def by blast
  moreover obtain d2 where f: "free m (d'\<lparr>sq := s\<rparr>) = Some d2" "sq d2 = s" "buf d2 = buf d"
    using free_kept [of "d'\<lparr>sq := s\<rparr>" m blk] g(2,5) by auto
  ultimately show ?thesis
    unfolding handle_open_msg_def g(1)
    using g(2-4) o reply_answers(1,4) [OF assms(1), of d2] assms(2) by (simp add: addr_or_def)
qed

lemma prepare_answers:
  assumes "serving e c q" "length (buf d) = 65536" "parse_ptr e (buf d) (index d) = Some (db, j)" "parse_string e (buf d) j = Some sql"
    and "honest_at e (buf d) j"
  shows "answers e (serve q (Prepare db sql) (sq d)) (handle_prepare_msg e c q d)"
proof -
  let ?k = "\<lambda>query d. do { blk \<leftarrow> mem d query; sql \<leftarrow> c_string blk;
     let (rc, stmt, s) = sqlite3_prepare_v2 q db sql (sq d); d \<leftarrow> free query (d\<lparr>sq := s\<rparr>);
     if rc \<noteq> SQLITE_OK then mk_error_tuple e ''prepare_not_ok'' 244 d else mk_ok_addr_tuple e stmt d }"
  have ps: "parse_string e (buf (d\<lparr>index := j\<rparr>)) (index (d\<lparr>index := j\<rparr>)) = Some sql"
    "honest_at e (buf (d\<lparr>index := j\<rparr>)) (index (d\<lparr>index := j\<rparr>))" using assms(4,5) by simp_all
  obtain m blk d' where g: "get_string e c 232 238 ?k (d\<lparr>index := j\<rparr>) = ?k m d'" "mem d' m = Some blk" "c_string blk = Some sql"
      "sq d' = sq d" "buf d' = buf d" using get_string_parsed [OF assms(1) ps, of 232 238 ?k] by auto
  obtain rc st s where o: "sqlite3_prepare_v2 q db sql (sq d) = (rc, st, s)" by (metis prod_cases3)
  then have "length st = 8" using servingD(7) [OF assms(1)] unfolding sqlite_ok_def by blast
  moreover obtain d2 where f: "free m (d'\<lparr>sq := s\<rparr>) = Some d2" "sq d2 = s" "buf d2 = buf d"
    using free_kept [of "d'\<lparr>sq := s\<rparr>" m blk] g(2,5) by auto
  ultimately show ?thesis
    unfolding handle_prepare_msg_def get_ptr_parsed(1) [OF assms(1,3)] g(1)
    using g(2-4) o reply_answers(1,4) [OF assms(1), of d2] assms(2) by (simp add: addr_or_def)
qed

lemma exec_answers:
  assumes "serving e c q" "length (buf d) = 65536" "parse_ptr e (buf d) (index d) = Some (db, j)" "parse_string e (buf d) j = Some sql"
    and "honest_at e (buf d) j"
  shows "answers e (serve q (Exec db sql) (sq d)) (handle_exec_msg e c q d)"
proof -
  let ?k = "\<lambda>query d. do { blk \<leftarrow> mem d query; sql \<leftarrow> c_string blk;
     let (rc, s) = sqlite3_exec q db sql (sq d); d \<leftarrow> free query (d\<lparr>sq := s\<rparr>);
     if rc \<noteq> SQLITE_OK then mk_error_tuple e ''exec_not_ok'' 480 d else reply_atom e ''ok'' d }"
  have ps: "parse_string e (buf (d\<lparr>index := j\<rparr>)) (index (d\<lparr>index := j\<rparr>)) = Some sql"
    "honest_at e (buf (d\<lparr>index := j\<rparr>)) (index (d\<lparr>index := j\<rparr>))" using assms(4,5) by simp_all
  obtain m blk d' where g: "get_string e c 468 474 ?k (d\<lparr>index := j\<rparr>) = ?k m d'" "mem d' m = Some blk" "c_string blk = Some sql"
      "sq d' = sq d" "buf d' = buf d" using get_string_parsed [OF assms(1) ps, of 468 474 ?k] by auto
  obtain rc s where o: "sqlite3_exec q db sql (sq d) = (rc, s)" by fastforce
  moreover obtain d2 where f: "free m (d'\<lparr>sq := s\<rparr>) = Some d2" "sq d2 = s" "buf d2 = buf d"
    using free_kept [of "d'\<lparr>sq := s\<rparr>" m blk] g(2,5) by auto
  ultimately show ?thesis
    unfolding handle_exec_msg_def get_ptr_parsed(1) [OF assms(1,3)] g(1)
    using g(2-4) reply_answers(1,2) [OF assms(1), of d2] assms(2) by (simp add: ok_or_def)
qed

lemma simple_answers:
  assumes "serving e c q" "length (buf d) = 65536" "parse_ptr e (buf d) (index d) = Some (p, j)"
  shows "answers e (serve q (Close p) (sq d)) (handle_close_msg e c q d)"
    and "answers e (serve q (Reset p) (sq d)) (handle_reset_msg e c q d)"
    and "answers e (serve q (Finalize p) (sq d)) (handle_finalize_msg e c q d)"
proof -
  have rep: "answers e (Failure a, s) (mk_error_tuple e a l (d\<lparr>index := j, sq := s\<rparr>))" if "length a \<le> 20" "0 \<le> l" "l < 2 ^ 63" for a l s
    using reply_answers(1) [OF assms(1), of "d\<lparr>index := j, sq := s\<rparr>"] assms(2) that by simp
  have ok: "answers e (Ok, s) (reply_atom e ''ok'' (d\<lparr>index := j, sq := s\<rparr>))" for s
    using reply_answers(2) [OF assms(1), of "d\<lparr>index := j, sq := s\<rparr>"] assms(2) by simp
  show "answers e (serve q (Close p) (sq d)) (handle_close_msg e c q d)"
    unfolding handle_close_msg_def get_ptr_parsed(1) [OF assms(1,3)] using rep ok by (simp add: Let_def split: prod.split)
  show "answers e (serve q (Reset p) (sq d)) (handle_reset_msg e c q d)"
    unfolding handle_reset_msg_def get_ptr_parsed(1) [OF assms(1,3)] using rep ok by (simp add: Let_def ok_or_def split: prod.split)
  show "answers e (serve q (Finalize p) (sq d)) (handle_finalize_msg e c q d)"
    unfolding handle_finalize_msg_def get_ptr_parsed(1) [OF assms(1,3)] using rep ok by (simp add: Let_def ok_or_def split: prod.split)
qed

text \<open>Rows.\<close>

lemma put_then_append: "put_then (xs @ ys) k d = put_then xs (put_then ys k) d"
proof (induction xs arbitrary: d)
  case (Cons x xs)
  then show ?case by (cases x) simp_all
qed simp

lemma put_then_cong:
  "(\<And>d'. sq d' = sq d \<Longrightarrow> k d' = k' d') \<Longrightarrow> put_then es k d = put_then es k' d"
proof (induction es k d rule: put_then.induct)
  case (3 bs es k d)
  have "put_then es k (d\<lparr>buf := b, index := i\<rparr>) = put_then es k' (d\<lparr>buf := b, index := i\<rparr>)"
    if "wr (buf d) (index d) bs = Some b" "i = index d + int (length bs)" for b i
    using "3.IH" [OF that(1)] "3.prems" that(2) by simp
  then show ?case by (auto intro!: Option.bind_cong)
qed auto

lemma column_term_printed:
  assumes "serving e c q"
  shows "column_term e q stmt i s = Some (print_value e (column_value q stmt i s))"
proof -
  have t: "sqlite3_column_type q stmt i s \<in> {SQLITE_INTEGER, SQLITE_FLOAT, SQLITE_TEXT, SQLITE_BLOB, SQLITE_NULL}"
    using servingD(3) [OF assms] unfolding column_types_def by blast
  have l: "sqlite3_column_type q stmt i s = SQLITE_TEXT \<Longrightarrow> sqlite3_column_bytes q stmt i s \<le> length (sqlite3_column_text q stmt i s)"
    "sqlite3_column_type q stmt i s = SQLITE_BLOB \<Longrightarrow> sqlite3_column_bytes q stmt i s \<le> length (sqlite3_column_blob q stmt i s)"
    using servingD(7) [OF assms] unfolding sqlite_ok_def by blast+
  show ?thesis using t l by (auto simp: column_term_def column_value_def Let_def rd_def)
qed

lemma columns_printed:
  assumes "serving e c q"
  shows "put_columns e q stmt n i d =
    put_all (map (\<lambda>k. print_value e (column_value q stmt (i + int k) (sq d))) [0..<n] @ [ei_encode_empty_list e]) d"
proof (induction n arbitrary: i d)
  case (Suc n)
  let ?es = "\<lambda>s. map (\<lambda>k. print_value e (column_value q stmt (i + 1 + int k) s)) [0..<n] @ [ei_encode_empty_list e]"
  have "map (\<lambda>k. print_value e (column_value q stmt (i + int k) (sq d))) [0..<Suc n] =
      print_value e (column_value q stmt i (sq d)) # map (\<lambda>k. print_value e (column_value q stmt (i + 1 + int k) (sq d))) [0..<n]"
    by (simp add: map_upt_Suc add.assoc del: upt_Suc)
  moreover have "put_columns e q stmt (Suc n) i d =
      put_then [print_value e (column_value q stmt i (sq d))] (put_columns e q stmt n (i + 1)) d"
    by (simp add: column_term_printed [OF assms] del: put_then.simps)
  moreover have "\<dots> = put_then [print_value e (column_value q stmt i (sq d))] (put_all (?es (sq d))) d"
    by (rule put_then_cong) (simp add: Suc.IH)
  ultimately show ?case
    using put_then_append [of "[print_value e (column_value q stmt i (sq d))]" "?es (sq d)" "\<lambda>d. Some (0, d)" d]
    by (simp add: put_all_def del: put_then.simps)
qed simp

lemma enc_size_append [simp]: "enc_size (xs @ ys) = enc_size xs + enc_size ys"
  by (induction xs) simp_all

lemma row_size_printed:
  assumes "serving e c q"
  shows "row_size e q stmt n i s = enc_size (map (\<lambda>k. print_value e (column_value q stmt (i + int k) s)) [0..<n])"
proof (induction n arbitrary: i)
  case (Suc n)
  then show ?case by (simp add: column_term_printed [OF assms] map_upt_Suc add.assoc del: upt_Suc)
qed simp

lemma step_answers:
  assumes "serving e c q" "length (buf d) = 65536" "parse_ptr e (buf d) (index d) = Some (p, j)"
    and "\<And>vs. fst (serve q (Step p) (sq d)) = Row vs \<Longrightarrow> fits_packet e (Row vs)"
  shows "answers e (serve q (Step p) (sq d)) (handle_step_msg e c q d)"
proof -
  obtain rc s where st: "sqlite3_step q p (sq d) = (rc, s)" by fastforce
  let ?d = "d\<lparr>index := j, sq := s\<rparr>" and ?n = "nat (sqlite3_column_count q p s)"
  let ?vs = "map (\<lambda>i. column_value q p (int i) s) [0..<?n]"
  have rep: "answers e (Failure a, s) (mk_error_tuple e a l ?d)" if "length a \<le> 20" "0 \<le> l" "l < 2 ^ 63" for a l
    using reply_answers(1) [OF assms(1), of ?d] assms(2) that by simp
  have dn: "answers e (Done, s) (reply_atom e ''done'' ?d)" using reply_answers(3) [OF assms(1), of ?d] assms(2) by simp
  have row: "answers e (Row ?vs, s) (put_then [ei_encode_version e, ei_encode_tuple_header e 2, ei_encode_atom e ''row'',
      ei_encode_list_header e (sqlite3_column_count q p s)] (put_columns e q p ?n 0) (?d\<lparr>index := 0\<rparr>))" if "rc = SQLITE_ROW"
  proof -
    let ?hd = "[ei_encode_version e, ei_encode_tuple_header e 2, ei_encode_atom e ''row'', ei_encode_list_header e (int ?n)]"
    have n: "int ?n = sqlite3_column_count q p s" using servingD(3) [OF assms(1)] by (simp add: column_types_def)
    have "put_then ?hd (put_columns e q p ?n 0) (?d\<lparr>index := 0\<rparr>) =
        put_then ?hd (put_all (map (print_value e) ?vs @ [ei_encode_empty_list e])) (?d\<lparr>index := 0\<rparr>)"
      by (rule put_then_cong) (simp add: columns_printed [OF assms(1)] comp_def)
    also have "\<dots> = put_all (print_reply e 0 (Row ?vs)) (?d\<lparr>index := 0\<rparr>)"
      using put_then_append [of ?hd "map (print_value e) ?vs @ [ei_encode_empty_list e]" "\<lambda>d. Some (0, d)" "?d\<lparr>index := 0\<rparr>"]
      by (simp add: put_all_def del: put_then.simps)
    finally have eq: "put_then ?hd (put_columns e q p ?n 0) (?d\<lparr>index := 0\<rparr>) = put_all (print_reply e 0 (Row ?vs)) (?d\<lparr>index := 0\<rparr>)" .
    have fit: "fits_packet e (Row ?vs)" by (rule assms(4)) (use st that in \<open>simp add: SQLITE_ROW_def SQLITE_BUSY_def SQLITE_MISUSE_def\<close>)
    then have "answers e (Row ?vs, sq ?d) (put_all (print_reply e 0 (Row ?vs)) (?d\<lparr>index := 0\<rparr>))"
      using assms(2) by (intro put_all_answers) (simp_all add: fits_packet_def del: print_reply.simps)
    then have "answers e (Row ?vs, s) (put_all (print_reply e 0 (Row ?vs)) (?d\<lparr>index := 0\<rparr>))" by simp
    then show ?thesis using eq n by simp
  qed
  show ?thesis
    unfolding handle_step_msg_def get_ptr_parsed(1) [OF assms(1,3)] using st rep dn row by (simp add: Let_def)
qed

text \<open>Bound values.\<close>

lemma store_fresh:
  assumes "length bs \<le> length blk" "mem d m = Some blk"
  shows "store m bs d = Some (d\<lparr>mem := (mem d)(m \<mapsto> bs @ drop (length bs) blk)\<rparr>)"
  using assms by (simp add: store_def wr_def)

lemma bind_text_parsed:
  assumes "serving e c q" "ei_get_type e (buf d) (index d) = Some (t, sz)" "honest_at e (buf d) (index d)"
  shows "ei_decode_string e (buf d) (index d) = Some (str, j) \<Longrightarrow>
      \<exists>d'. bind_text_term e c q stmt i sz k d = (case sqlite3_bind_text q stmt i (takeWhile (\<lambda>c. c \<noteq> 0) str) (sq d) of
        (rc, s) \<Rightarrow> bind_outcome e rc 648 651 k (d'\<lparr>sq := s\<rparr>)) \<and> buf d' = buf d \<and> index d' = j"
    and "ei_decode_string e (buf d) (index d) = None \<Longrightarrow> ei_decode_binary e (buf d) (index d) = Some (bin, j) \<Longrightarrow>
      \<exists>d'. bind_text_term e c q stmt i sz k d = (case sqlite3_bind_text q stmt i bin (sq d) of
        (rc, s) \<Rightarrow> bind_outcome e rc 663 666 k (d'\<lparr>sq := s\<rparr>)) \<and> buf d' = buf d \<and> index d' = j"
proof -
  let ?f = "fresh_block c (nat (sz + 1))" and ?m = "next_mem d"
  note m = malloc_parsed [OF assms(1), of "nat (sz + 1)" d]
  let ?d = "d\<lparr>next_mem := Suc ?m, mem := (mem d)(?m \<mapsto> ?f), index := j\<rparr>"
  have st: "store ?m bs ?d = Some (?d\<lparr>mem := (mem d)(?m \<mapsto> bs @ drop (length bs) ?f)\<rparr>)" if "length bs \<le> length ?f" for bs
    using store_fresh [OF that, of ?d ?m] by simp
  show "\<exists>d'. bind_text_term e c q stmt i sz k d = (case sqlite3_bind_text q stmt i (takeWhile (\<lambda>c. c \<noteq> 0) str) (sq d) of
      (rc, s) \<Rightarrow> bind_outcome e rc 648 651 k (d'\<lparr>sq := s\<rparr>)) \<and> buf d' = buf d \<and> index d' = j"
    if g: "ei_decode_string e (buf d) (index d) = Some (str, j)"
  proof -
    have "length (str @ [0]) \<le> length ?f" using honest_atD(2) [OF assms(3,2) g] serving_fresh [OF assms(1)] by simp
    from st [OF this] show ?thesis
      using g m by (intro exI [of _ "?d\<lparr>mem := (mem d)(?m := None), given := insert ?m (given d)\<rparr>"])
        (simp add: bind_text_term_def give_def)
  qed
  show "\<exists>d'. bind_text_term e c q stmt i sz k d = (case sqlite3_bind_text q stmt i bin (sq d) of
      (rc, s) \<Rightarrow> bind_outcome e rc 663 666 k (d'\<lparr>sq := s\<rparr>)) \<and> buf d' = buf d \<and> index d' = j"
    if g: "ei_decode_string e (buf d) (index d) = None" "ei_decode_binary e (buf d) (index d) = Some (bin, j)"
  proof -
    have "length bin \<le> length ?f" using honest_atD(3) [OF assms(3,2) g(2)] serving_fresh [OF assms(1)] by simp
    from st [OF this] show ?thesis
      using g m by (intro exI [of _ "?d\<lparr>mem := (mem d)(?m := None), given := insert ?m (given d)\<rparr>"])
        (simp add: bind_text_term_def give_def)
  qed
qed

lemma bind_blob_parsed:
  assumes "serving e c q" "ei_get_type e (buf d) (index d) = Some (t, sz)" "sz < MAXATOMLEN e"
    and "ei_decode_atom e (buf d) (index d) = Some (''blob'', k')" "ei_get_type e (buf d) k' = Some (t', sz')"
    and "ei_decode_binary e (buf d) k' = Some (bin, j)" "honest_at e (buf d) k'"
  shows "\<exists>d'. bind_blob_term e c q stmt i 2 k d = (case sqlite3_bind_blob q stmt i bin (sq d) of
      (rc, s) \<Rightarrow> bind_outcome e rc 605 608 k (d'\<lparr>sq := s\<rparr>)) \<and> buf d' = buf d \<and> index d' = j"
proof -
  let ?f = "fresh_block c (nat sz')" and ?m = "next_mem d"
  let ?d = "d\<lparr>next_mem := Suc ?m, mem := (mem d)(?m \<mapsto> ?f), index := j\<rparr>"
  have "length bin \<le> length ?f" using honest_atD(3) [OF assms(7,5,6)] serving_fresh [OF assms(1)] by simp
  from store_fresh [OF this, of ?d ?m]
  have st: "store ?m bin ?d = Some (?d\<lparr>mem := (mem d)(?m \<mapsto> bin @ drop (length bin) ?f)\<rparr>)" by simp
  then show ?thesis
    using assms(2-) malloc_parsed [OF assms(1), of "nat sz'" "d\<lparr>index := k'\<rparr>"]
    by (intro exI [of _ "?d\<lparr>mem := (mem d)(?m := None), given := insert ?m (given d)\<rparr>"]) (simp add: bind_blob_term_def give_def)
qed

lemma bind_term_parsed:
  assumes "serving e c q" "parse_value e (buf d) (index d) = Some (v, j)" "bind_value q stmt i v (sq d) = (rc, s)"
    and "ready e (Suc r) (buf d) (index d)"
  shows "\<exists>l1 l2 d'. 0 \<le> l1 \<and> l1 < 2 ^ 63 \<and> 0 \<le> l2 \<and> l2 < 2 ^ 63 \<and> bind_term e c q stmt i k d = bind_outcome e rc l1 l2 k d' \<and>
     sq d' = s \<and> buf d' = buf d \<and> index d' = j \<and> ready e r (buf d) j"
proof -
  note nxt = ready_next [OF assms(4)]
  let ?b = "buf d" and ?i = "index d"
  obtain t sz where g: "ei_get_type e ?b ?i = Some (t, sz)" using assms(2) by (auto simp: parse_value_def bind_eq_Some_conv)
  have at: ?thesis if "bind_term e c q stmt i k d = bind_outcome e rc l1 l2 k (d\<lparr>index := j, sq := s\<rparr>)" "ready e r (buf d) j"
      "0 \<le> l1" "l1 < 2 ^ 63" "0 \<le> l2" "l2 < 2 ^ 63" for l1 l2
    using that by (intro exI [of _ l1] exI [of _ l2] exI [of _ "d\<lparr>index := j, sq := s\<rparr>"]) simp
  consider (int) x where "ei_decode_longlong e ?b ?i = Some (x, j)" "v = VInt x"
    | (float) x where "ei_decode_longlong e ?b ?i = None" "ei_decode_double e ?b ?i = Some (x, j)" "v = VFloat x"
    | (blob) j' k' t' sz' t'' sz'' bin where "ei_decode_longlong e ?b ?i = None" "ei_decode_double e ?b ?i = None"
        "ei_decode_tuple_header e ?b ?i = Some (2, j')" "ei_get_type e ?b j' = Some (t', sz')" "sz' < MAXATOMLEN e"
        "ei_decode_atom e ?b j' = Some (''blob'', k')" "ei_get_type e ?b k' = Some (t'', sz'')"
        "ei_decode_binary e ?b k' = Some (bin, j)" "v = VBlob bin"
    | (null) "ei_decode_longlong e ?b ?i = None" "ei_decode_double e ?b ?i = None" "ei_decode_tuple_header e ?b ?i = None"
        "(if sz < MAXATOMLEN e then ei_decode_atom e ?b ?i else None) = Some (''null'', j)" "v = VNull"
    | (str) str where "ei_decode_longlong e ?b ?i = None" "ei_decode_double e ?b ?i = None" "ei_decode_tuple_header e ?b ?i = None"
        "(if sz < MAXATOMLEN e then ei_decode_atom e ?b ?i else None) = None" "ei_decode_string e ?b ?i = Some (str, j)"
        "v = VText (takeWhile (\<lambda>c. c \<noteq> 0) str)"
    | (bin) bin where "ei_decode_longlong e ?b ?i = None" "ei_decode_double e ?b ?i = None" "ei_decode_tuple_header e ?b ?i = None"
        "(if sz < MAXATOMLEN e then ei_decode_atom e ?b ?i else None) = None" "ei_decode_string e ?b ?i = None"
        "ei_decode_binary e ?b ?i = Some (bin, j)" "v = VText bin"
    using assms(2) g by (simp add: parse_value_def split: option.splits if_split_asm prod.splits) (auto simp: bind_eq_Some_conv split: if_splits)
  then show ?thesis
  proof cases
    case blob
    have r: "ready e (Suc r) (buf d) k'" by (rule ready_next(1) [OF _ blob(6)]) (use nxt(6) [OF blob(3)] in simp)
    have "\<exists>d'. bind_blob_term e c q stmt i 2 k (d\<lparr>index := j'\<rparr>) = (case sqlite3_bind_blob q stmt i bin (sq (d\<lparr>index := j'\<rparr>)) of
        (rc, s) \<Rightarrow> bind_outcome e rc 605 608 k (d'\<lparr>sq := s\<rparr>)) \<and> buf d' = buf (d\<lparr>index := j'\<rparr>) \<and> index d' = j"
      by (rule bind_blob_parsed [OF assms(1)]) (use blob readyD [OF r] in simp_all)
    then obtain d' where "bind_blob_term e c q stmt i 2 k (d\<lparr>index := j'\<rparr>) = bind_outcome e rc 605 608 k (d'\<lparr>sq := s\<rparr>)" "buf d' = buf d" "index d' = j"
      using assms(3) blob(9) by auto
    then show ?thesis using g blob ready_next(5) [OF r blob(8)] by (intro exI [of _ 605] exI [of _ 608] exI [of _ "d'\<lparr>sq := s\<rparr>"]) (simp add: bind_term_def)
  next
    case str
    obtain d' where "bind_text_term e c q stmt i sz k d = bind_outcome e rc 648 651 k (d'\<lparr>sq := s\<rparr>)" "buf d' = buf d" "index d' = j"
      using bind_text_parsed(1) [OF assms(1) g readyD [OF assms(4)] str(5), of stmt i k] assms(3) str(6) by auto
    then show ?thesis using g str nxt(4) [OF str(5)] by (intro exI [of _ 648] exI [of _ 651] exI [of _ "d'\<lparr>sq := s\<rparr>"]) (simp add: bind_term_def)
  next
    case bin
    obtain d' where "bind_text_term e c q stmt i sz k d = bind_outcome e rc 663 666 k (d'\<lparr>sq := s\<rparr>)" "buf d' = buf d" "index d' = j"
      using bind_text_parsed(2) [OF assms(1) g readyD [OF assms(4)] bin(5,6), of stmt i k] assms(3) bin(7) by auto
    then show ?thesis using g bin nxt(5) [OF bin(6)] by (intro exI [of _ 663] exI [of _ 666] exI [of _ "d'\<lparr>sq := s\<rparr>"]) (simp add: bind_term_def)
  next
    case int
    show ?thesis by (rule at [of 543 546]) (use g assms(3) int nxt(2) [OF int(1)] in \<open>simp_all add: bind_term_def\<close>)
  next
    case float
    show ?thesis by (rule at [of 558 561]) (use g assms(3) float nxt(3) [OF float(2)] in \<open>simp_all add: bind_term_def\<close>)
  next
    case null
    show ?thesis by (rule at [of 623 626]) (use g assms(3) null nxt(1) [of _ j] in \<open>auto simp: bind_term_def split: if_splits\<close>)
  qed
qed

lemma outcome_answers:
  assumes "serving e c q" "length (buf d) = 65536" "rc \<noteq> SQLITE_OK" "0 \<le> l1" "l1 < 2 ^ 63" "0 \<le> l2" "l2 < 2 ^ 63"
  shows "answers e (Failure (if rc = SQLITE_MISUSE then ''misuse'' else ''bind_error''), sq d) (bind_outcome e rc l1 l2 k d)"
  using reply_answers(1) [OF assms(1,2)] assms(3-) by (simp add: bind_outcome_def)

lemma bind_terms_answer:
  assumes "serving e c q" "length (buf d) = 65536" "parse_values e (buf d) n (index d) = Some vs"
    and "ready e (n + r) (buf d) (index d)"
  shows "answers e (bind_all (bind_value q stmt) vs i (sq d)) (bind_terms e c q stmt n i d)"
  using assms(2-)
proof (induction n arbitrary: i d vs)
  case 0
  then show ?case using reply_answers(2) [OF assms(1), of d] by simp
next
  case (Suc n)
  then obtain v j vs' where v: "parse_value e (buf d) (index d) = Some (v, j)" "parse_values e (buf d) n j = Some vs'" "vs = v # vs'"
    by (auto simp: bind_eq_Some_conv)
  obtain rc s where b: "bind_value q stmt i v (sq d) = (rc, s)" by fastforce
  have r: "ready e (Suc (n + r)) (buf d) (index d)" using Suc.prems(3) by simp
  obtain l1 l2 d' where t: "bind_terms e c q stmt (Suc n) i d = bind_outcome e rc l1 l2 (bind_terms e c q stmt n (i + 1)) d'"
      "sq d' = s" "buf d' = buf d" "index d' = j" "ready e (n + r) (buf d) j" and l: "0 \<le> l1" "l1 < 2 ^ 63" "0 \<le> l2" "l2 < 2 ^ 63"
    using bind_term_parsed [OF assms(1) v(1) b r, of "bind_terms e c q stmt n (i + 1)"] by auto
  have "answers e (bind_all (bind_value q stmt) vs' (i + 1) (sq d')) (bind_terms e c q stmt n (i + 1) d')"
    by (rule Suc.IH) (use Suc.prems v t in simp_all)
  then show ?case
    using t v(3) b outcome_answers [OF assms(1) _ _ l, of d' rc] Suc.prems(1)
    by (cases "rc = SQLITE_OK") (simp_all add: bind_outcome_def)
qed

lemma bind_ints_answer:
  assumes "serving e c q" "length (buf d) = 65536" "mem d m = Some blk" "k + n \<le> length blk"
  shows "answers e (bind_all (\<lambda>i b. sqlite3_bind_int q stmt i (uint b)) (take n (drop k blk)) (int k + 1) (sq d))
           (bind_ints e q stmt m n k d)"
  using assms(2-)
proof (induction n arbitrary: k d)
  case 0
  obtain d' where "free m d = Some d'" "sq d' = sq d" "buf d' = buf d" using free_kept [OF 0(2)] by blast
  then show ?case using reply_answers(2) [OF assms(1), of d'] 0(1) by simp
next
  case (Suc n)
  have ne: "take (Suc n) (drop k blk) = blk ! k # take n (drop (Suc k) blk)" using Suc.prems(3) by (simp add: Cons_nth_drop_Suc [symmetric])
  obtain rc s where b: "sqlite3_bind_int q stmt (int k + 1) (uint (blk ! k)) (sq d) = (rc, s)" by fastforce
  have step: "bind_ints e q stmt m (Suc n) k d =
      (if rc = SQLITE_OK then bind_ints e q stmt m n (Suc k) (d\<lparr>sq := s\<rparr>)
       else do { d \<leftarrow> free m (d\<lparr>sq := s\<rparr>); bind_outcome e rc 502 506 (\<lambda>d. Some (0, d)) d })"
    using b Suc.prems(2,3) by (simp add: Let_def)
  show ?case
  proof (cases "rc = SQLITE_OK")
    case True
    have "answers e (bind_all (\<lambda>i b. sqlite3_bind_int q stmt i (uint b)) (take n (drop (Suc k) blk)) (int (Suc k) + 1) (sq (d\<lparr>sq := s\<rparr>)))
        (bind_ints e q stmt m n (Suc k) (d\<lparr>sq := s\<rparr>))"
      by (rule Suc.IH) (use Suc.prems in simp_all)
    then show ?thesis unfolding step ne using b True by (simp add: add.commute)
  next
    case False
    obtain d' where "free m (d\<lparr>sq := s\<rparr>) = Some d'" "sq d' = s" "buf d' = buf d"
      using free_kept [of "d\<lparr>sq := s\<rparr>" m blk] Suc.prems(2) by auto
    then show ?thesis unfolding step ne using b False outcome_answers [OF assms(1), of d' rc] Suc.prems(1) by simp
  qed
qed

lemma bind_answers:
  assumes "serving e c q" "length (buf d) = 65536" "parse_ptr e (buf d) (index d) = Some (stmt, j)" "parse_params e (buf d) stmt j = Some req"
    and "ready e (Suc 0) (buf d) j"
  shows "answers e (serve q req (sq d)) (handle_bind_msg e c q d)"
proof -
  let ?b = "buf d"
  obtain t sz where g: "ei_get_type e ?b j = Some (t, sz)" using assms(4) by (auto simp: parse_params_def bind_eq_Some_conv)
  show ?thesis
  proof (cases "ei_decode_list_header e ?b j")
    case (Some aj)
    then obtain ar j' vs where a: "aj = (ar, j')" "parse_values e ?b (nat ar) j' = Some vs" "req = Bind stmt vs"
      using assms(4) g by (cases aj) (auto simp: parse_params_def)
    have "answers e (bind_all (bind_value q stmt) vs 1 (sq (d\<lparr>index := j'\<rparr>))) (bind_terms e c q stmt (nat ar) 1 (d\<lparr>index := j'\<rparr>))"
      by (rule bind_terms_answer [OF assms(1)]) (use assms(2) a ready_next(7) [OF assms(5)] Some in simp_all)
    then show ?thesis
      unfolding handle_bind_msg_def get_ptr_parsed(1) [OF assms(1,3)] using g Some a by (simp add: bind_term_list_def)
  next
    case None
    then obtain str j' where a: "ei_decode_string e ?b j = Some (str, j')" "int (length str) = sz" "req = Bind_Ints stmt str"
      using assms(4) g by (auto simp: parse_params_def bind_eq_Some_conv split: if_splits)
    let ?f = "fresh_block c (nat (sz + 1))" and ?m = "next_mem d"
    let ?d = "d\<lparr>next_mem := Suc ?m, mem := (mem d)(?m \<mapsto> ?f), index := j'\<rparr>" and ?blk = "(str @ [0]) @ drop (length (str @ [0])) ?f"
    have "length (str @ [0]) \<le> length ?f" using a(2) serving_fresh [OF assms(1)] by simp
    from store_fresh [OF this, of ?d ?m] have st: "store ?m (str @ [0]) ?d = Some (?d\<lparr>mem := (mem d)(?m \<mapsto> ?blk)\<rparr>)" by simp
    let ?d2 = "?d\<lparr>mem := (mem d)(?m \<mapsto> ?blk)\<rparr>"
    have "answers e (bind_all (\<lambda>i b. sqlite3_bind_int q stmt i (uint b)) (take (nat sz) (drop 0 ?blk)) (int 0 + 1) (sq ?d2))
        (bind_ints e q stmt ?m (nat sz) 0 ?d2)"
      by (rule bind_ints_answer [OF assms(1)]) (use assms(2) a(2) in simp_all)
    moreover have "take (nat sz) ?blk = str" using a(2) by auto
    moreover have "get_ptr e c 263 268 (\<lambda>stmt d. need (ei_get_type e (buf d) (index d)) (Some (-1, d)) (\<lambda>(type, sz).
       case ei_decode_list_header e (buf d) (index d) of
         Some (arity, j) \<Rightarrow> bind_term_list e c q stmt arity (d\<lparr>index := j\<rparr>)
       | None \<Rightarrow>
           (case malloc c (nat (sz + 1)) d of
              (None, d) \<Rightarrow> mk_error_tuple e ''malloc_failed'' 283 d
            | (Some vals, d) \<Rightarrow>
                (case ei_decode_string e (buf d) (index d) of
                   Some (str, j) \<Rightarrow> do { d \<leftarrow> store vals (str @ [0]) (d\<lparr>index := j\<rparr>); bind_int_list e q stmt vals sz d }
                 | None \<Rightarrow> do { d \<leftarrow> free vals d; mk_error_tuple e ''badmsg'' 292 d })))) d = bind_int_list e q stmt ?m sz ?d2"
      unfolding get_ptr_parsed(1) [OF assms(1,3)]
      using g None a(1) st malloc_parsed [OF assms(1), of "nat (sz + 1)" "d\<lparr>index := j\<rparr>"] by simp
    ultimately show ?thesis unfolding handle_bind_msg_def using a(3) by (simp add: bind_int_list_def)
  qed
qed

lemma parse_ptr_ready: "parse_ptr e b i = Some (p, j) \<Longrightarrow> ready e (Suc k) b i \<Longrightarrow> ready e k b j"
  by (auto simp: parse_ptr_def bind_eq_Some_conv intro: ready_next(5) split: if_splits)

lemma tuple_answers:
  assumes "serving e c q" "length (buf d) = 65536" "ei_decode_atom e (buf d) (index d) = Some (a, k)"
    and "parse_tuple e (buf d) ar a k = Some req" "ready e (nat ar - 1) (buf d) k"
    and "\<And>vs. fst (serve q req (sq d)) = Row vs \<Longrightarrow> fits_packet e (Row vs)"
  shows "answers e (serve q req (sq d)) (handle_tuple_msg e c q ar d)"
proof -
  let ?d = "d\<lparr>index := k\<rparr>"
  have l: "length (buf ?d) = 65536" using assms(2) by simp
  note one = open_answers [OF assms(1) l] simple_answers [OF assms(1) l] step_answers [OF assms(1) l]
    and two = prepare_answers [OF assms(1) l] exec_answers [OF assms(1) l] bind_answers [OF assms(1) l]
  consider "ar = 2" | "ar = 3" using assms(4) by (auto simp: parse_tuple_def split: if_splits)
  then show ?thesis
  proof cases
    case 1
    then have h: "honest_at e (buf d) k" using assms(5) readyD [of e 0] by simp
    from 1 show ?thesis
      using assms(3,4,6) one h unfolding parse_tuple_def handle_tuple_msg_def
      by (auto simp: bind_eq_Some_conv simp del: serve.simps split: if_splits)
  next
    case 2
    then have r: "ready e (Suc (Suc 0)) (buf d) k" using assms(5) by (simp add: numeral_2_eq_2)
    have "ready e (Suc 0) (buf d) j" if "parse_ptr e (buf d) k = Some (p, j)" for p j using parse_ptr_ready [OF that r] .
    with 2 show ?thesis
      using assms(3,4) two readyD [of e 0 "buf d"] unfolding parse_tuple_def handle_tuple_msg_def
      by (auto simp: bind_eq_Some_conv simp del: serve.simps split: if_splits)
  qed
qed

lemma handle_msg_answers:
  assumes "serving e c q" "length (buf d) = 65536" "parse_request e (buf d) = Some req" "intact e (buf d)"
    and "\<And>vs. fst (serve q req (sq d)) = Row vs \<Longrightarrow> fits_packet e (Row vs)"
  shows "answers e (serve q req (sq d)) (handle_msg e c q d)"
proof -
  let ?b = "buf d"
  obtain ver i where v: "ei_decode_version e ?b 0 = Some (ver, i)" using assms(3) by (auto simp: parse_request_def bind_eq_Some_conv)
  then have r: "ready e (Suc 0) ?b i" using pending.start [OF v] assms(4) by (simp add: ready_def)
  show ?thesis
  proof (cases "ei_decode_atom e ?b i")
    case (Some aj)
    then obtain j where a: "aj = (''libversion'', j)" "req = Libversion"
      using assms(3) v by (cases aj) (auto simp: parse_request_def split: if_splits)
    then show ?thesis
      using v Some reply_answers(5) [OF assms(1), of "d\<lparr>index := j\<rparr>"] assms(2) by (simp add: handle_msg_def handle_atom_msg_def)
  next
    case None
    then obtain ar j a k where t: "ei_decode_tuple_header e ?b i = Some (ar, j)" "ei_decode_atom e ?b j = Some (a, k)"
        "parse_tuple e ?b ar a k = Some req"
      using assms(3) v by (auto simp: parse_request_def bind_eq_Some_conv)
    have "ready e (Suc (nat ar - 1)) ?b j" using ready_next(6) [OF r t(1)] t(3) by (auto simp: parse_tuple_def eval_nat_numeral split: if_splits)
    from ready_next(1) [OF this t(2)] have "answers e (serve q req (sq (d\<lparr>index := j\<rparr>))) (handle_tuple_msg e c q ar (d\<lparr>index := j\<rparr>))"
      using t assms(1,2,5) by (intro tuple_answers) simp_all
    then show ?thesis using v None t(1) by (simp add: handle_msg_def)
  qed
qed

text \<open>The condition on rows, as a condition on the reply that the contract prescribes.\<close>

lemma row_packet_printed:
  assumes "serving e c q"
  shows "row_packet e q p s = enc_size (print_reply e 0 (Row (map (\<lambda>i. column_value q p (int i) s) [0..<nat (sqlite3_column_count q p s)])))"
proof -
  have "int (nat (sqlite3_column_count q p s)) = sqlite3_column_count q p s"
    using servingD(3) [OF assms] by (simp add: column_types_def)
  then show ?thesis using row_size_printed [OF assms] by (simp add: row_packet_def comp_def)
qed

lemma asked_row_printed:
  assumes "serving e c q" "parse_request e (buf d) = Some req"
    and "\<And>vs. fst (serve q req (sq d)) = Row vs \<Longrightarrow> fits_packet e (Row vs)"
  shows "asked_row_fits e c q d"
  unfolding asked_row_fits_def row_fits_def
proof (intro allI impI)
  fix v i j k stmt s
  assume a: "ei_decode_version e (buf d) 0 = Some (v, i)" "ei_decode_atom e (buf d) i = None"
    "ei_decode_tuple_header e (buf d) i = Some (2, j)" "ei_decode_atom e (buf d) j = Some (''step'', k)"
    "address_at e c (buf (d\<lparr>index := k\<rparr>)) (index (d\<lparr>index := k\<rparr>)) = Some stmt"
    "sqlite3_step q stmt (sq (d\<lparr>index := k\<rparr>)) = (SQLITE_ROW, s)"
  then obtain p j' where p: "parse_ptr e (buf d) k = Some (p, j')" "req = Step p"
    using assms(2) by (auto simp: parse_request_def parse_tuple_def bind_eq_Some_conv split: if_splits)
  then have "length p = 8" "ei_decode_binary e (buf d) k = Some (p, j')"
    by (auto simp: parse_ptr_def bind_eq_Some_conv split: if_splits)
  moreover have "length (stack_ptr c) = 8" using servingD(6) [OF assms(1)] by (simp add: libc_ok_def)
  ultimately have "stmt = p" using a(5) by (simp add: address_at_def)
  then show "row_packet e q stmt s < 65536"
    using assms(3) p(2) a(6) row_packet_printed [OF assms(1), of p s]
    by (simp add: fits_packet_def SQLITE_ROW_def SQLITE_BUSY_def SQLITE_MISUSE_def del: print_reply.simps)
qed

section \<open>Streams of requests\<close>

fun serve_all :: "'q sqlite \<Rightarrow> request list \<Rightarrow> 'q \<Rightarrow> reply list \<times> 'q" where
  "serve_all q [] s = ([], s)"
| "serve_all q (r # rs) s = (case serve q r s of (rep, s) \<Rightarrow> case serve_all q rs s of (reps, s) \<Rightarrow> (rep # reps, s))"

text \<open>The message is a whole term, which the decoders recognise whatever follows it in the buffer, with honest lengths.\<close>

definition encodes :: "ei \<Rightarrow> bytes \<Rightarrow> request \<Rightarrow> bool" where
  "encodes e m r \<longleftrightarrow> m \<noteq> [] \<and> length m < 65536 \<and> (\<forall>tail. parse_request e (m @ tail) = Some r \<and> intact e (m @ tail))"

text \<open>The bytes are a printed form of the reply (the line number of a failure is not specified).\<close>

definition prints :: "ei \<Rightarrow> reply \<Rightarrow> bytes \<Rightarrow> bool" where
  "prints e rep bs \<longleftrightarrow> (\<exists>line. bs = concat (map the (print_reply e line rep)))"

lemma run_requests_serves:
  assumes "serving e c q" "tidy n G M d" "list_all2 (encodes e) ms reqs"
    and "\<And>vs. Row vs \<in> set (fst (serve_all q reqs (sq d))) \<Longrightarrow> fits_packet e (Row vs)"
  shows "\<exists>bs d'. run_requests e c q d ms = Some (bs, d') \<and> tidy n G M d' \<and>
     snd (serve_all q reqs (sq d)) = sq d' \<and> list_all2 (prints e) (fst (serve_all q reqs (sq d))) bs"
  using assms(3,2,4)
proof (induction ms reqs arbitrary: d rule: list_all2_induct)
  case (Cons m ms r reqs)
  let ?d = "d\<lparr>buf := deliver m (buf d)\<rparr>"
  have m: "length m < 65536" and pr: "parse_request e (buf ?d) = Some r" and ok: "intact e (buf ?d)"
    using Cons.hyps(1) by (simp_all add: encodes_def deliver_def)
  have lb: "length (buf d) = 65536" using Cons.prems(1) by (simp add: tidy_def)
  then have len: "length (buf ?d) = 65536" using m by simp
  then have t: "tidy n G M ?d" using tidy_deliver [OF Cons.prems(1), of "deliver m (buf d)"] by simp
  obtain rep s where sv: "serve q r (sq d) = (rep, s)" by fastforce
  have row: "fits_packet e (Row vs)" if "fst (serve q r (sq ?d)) = Row vs" for vs
    by (rule Cons.prems(2)) (use that sv in \<open>auto split: prod.split\<close>)
  from handle_msg_answers [OF assms(1) len pr ok row] sv obtain d1 where d1: "handle_msg e c q ?d = Some (0, d1)" "sq d1 = s"
      "prints e rep (take (nat (index d1)) (buf d1))" by (auto simp: answers_def prints_def)
  from handle_msg_settles [OF servingD(1) [OF assms(1)] t ok asked_row_printed [OF assms(1) pr row]] d1(1) have st: "0 \<le> index d1" "index d1 < 65536" "tidy n G M d1"
    by (auto simp: settles_def)
  obtain bs d' where "run_requests e c q d1 ms = Some (bs, d')" "tidy n G M d'" "snd (serve_all q reqs s) = sq d'"
      "list_all2 (prints e) (fst (serve_all q reqs s)) bs"
    using Cons.IH [OF st(3)] Cons.prems(2) d1(2) sv by (fastforce split: prod.splits)
  moreover have "length (buf d1) = length (buf d)" using st(3) lb by (simp add: tidy_def)
  ultimately show ?case using d1 st(1,2) sv by (auto split: prod.split)
qed simp

section \<open>Properties\<close>

text \<open>
  Property C6: the port answers every request of a stream with the reply of the specification, in order. The
  conditions: the libraries as documented (\<^term>\<open>port_ok e c q\<close>, \<^term>\<open>encoders_succeed e\<close>, \<^term>\<open>column_types q\<close>), no
  \<open>malloc\<close> fails, no read or write fails, each message is the complete encoding of a request in one packet, and
  every row that SQLite delivers for these requests has an encoding that fits a packet. Then, for every way in which
  the kernel splits the reads and writes, the program ends with success after the last request; its output is one
  packet per request, printing the reply that the contract on terms prescribes; SQLite's state is the one after
  serving them all; and every heap block is freed or owned by SQLite.
\<close>

theorem port_serves_requests:
  assumes "port_ok e c q" "encoders_succeed e" "column_types q" "\<forall>m. \<not> malloc_fails c m"
    and "length (buf d) = 65536" "\<forall>m \<ge> next_mem d. mem d m = None"
    and "list_all2 (encodes e) ms reqs" "\<forall>vs. Row vs \<in> set (fst (serve_all q reqs (sq d))) \<longrightarrow> fits_packet e (Row vs)"
    and "stdin p = concat (map frame ms)" "healthy (reads p)" "healthy (writes p)"
  shows "\<exists>d' p' bs. main_loop e c q d p = Some (EXIT_SUCCESS, d', p') \<and> stdout p' = stdout p @ concat (map frame bs) \<and>
     snd (serve_all q reqs (sq d)) = sq d' \<and> list_all2 (prints e) (fst (serve_all q reqs (sq d))) bs \<and> mem d' = mem d"
proof -
  have s: "serving e c q" using assms(1-4) by (simp add: serving_def)
  have t: "tidy (next_mem d) (given d) (mem d) d" using assms(5,6) by (auto simp: tidy_def)
  obtain bs d' where r: "run_requests e c q d ms = Some (bs, d')" "tidy (next_mem d) (given d) (mem d) d'"
      "snd (serve_all q reqs (sq d)) = sq d'" "list_all2 (prints e) (fst (serve_all q reqs (sq d))) bs"
    using run_requests_serves [OF s t assms(7)] assms(8) by blast
  have "\<forall>m \<in> set ms. m \<noteq> [] \<and> length m < 65536"
    using assms(7) by (auto simp: list_all2_conv_all_nth in_set_conv_nth encodes_def)
  from main_loop_requests [OF r(1) assms(5) this assms(9-11)] r(2-4) show ?thesis by (auto simp: tidy_def)
qed

text \<open>A small instance of the libraries.\<close>

definition byte_at :: "bytes \<Rightarrow> int \<Rightarrow> byte" where
  "byte_at b i = (if 0 \<le> i \<and> nat i < length b then b ! nat i else 0)"

definition chunk_at :: "byte \<Rightarrow> bytes \<Rightarrow> int \<Rightarrow> bytes decoded" where
  "chunk_at tag b i = (if byte_at b i = tag then
     let n = unat (byte_at b (i + 1)) in Some (take n (drop (nat (i + 2)) b), i + 2 + int n) else None)"

definition toy_ei :: ei where
  "toy_ei = \<lparr>
     ei_decode_version = (\<lambda>b i. if byte_at b i = 131 then Some (131, i + 1) else None),
     ei_decode_atom = (\<lambda>b i. if byte_at b i = 1 then Some (''libversion'', i + 1)
        else if byte_at b i = 2 then Some (''open'', i + 1) else None),
     ei_decode_tuple_header = (\<lambda>b i. if byte_at b i = 104 then Some (uint (byte_at b (i + 1)), i + 2) else None),
     ei_decode_list_header = (\<lambda>b i. None),
     ei_decode_string = chunk_at 107, ei_decode_binary = chunk_at 109,
     ei_decode_longlong = (\<lambda>b i. None), ei_decode_double = (\<lambda>b i. None),
     ei_get_type = (\<lambda>b i. Some (uint (byte_at b i), uint (byte_at b (i + 1)))),
     ei_encode_version = Some [131], ei_encode_atom = (\<lambda>a. Some [119, of_nat (length a)]),
     ei_encode_string = (\<lambda>s. Some (107 # of_nat (length s) # s)), ei_encode_tuple_header = (\<lambda>n. Some [104, of_int n]),
     ei_encode_list_header = (\<lambda>n. Some [108, of_int n]), ei_encode_empty_list = Some [106],
     ei_encode_binary = (\<lambda>s. Some (109 # of_nat (length s) # s)), ei_encode_longlong = (\<lambda>i. Some [97, of_int i]),
     ei_encode_double = (\<lambda>x. Some [70]), MAXATOMLEN = 256\<rparr>"

definition toy_libc :: libc where
  "toy_libc = \<lparr>malloc_fails = (\<lambda>_. False), fresh_block = (\<lambda>n. replicate n 7), stack_ptr = replicate 8 7\<rparr>"

definition toy_sqlite :: "nat sqlite" where
  "toy_sqlite = \<lparr>
     sqlite3_libversion = [51, 46, 51, 48], sqlite3_open = (\<lambda>n s. (if n = [] then 1 else 0, replicate 8 (of_nat s), Suc s)),
     sqlite3_close = (\<lambda>p s. (0, s)), sqlite3_prepare_v2 = (\<lambda>p n s. (0, replicate 8 (of_nat s), Suc s)),
     sqlite3_step = (\<lambda>p s. (101, s)), sqlite3_reset = (\<lambda>p s. (0, s)), sqlite3_finalize = (\<lambda>p s. (0, s)),
     sqlite3_exec = (\<lambda>p n s. (0, s)), sqlite3_column_count = (\<lambda>p s. 0), sqlite3_column_type = (\<lambda>p i s. 5),
     sqlite3_column_int64 = (\<lambda>p i s. 0), sqlite3_column_double = (\<lambda>p i s. 0), sqlite3_column_text = (\<lambda>p i s. []),
     sqlite3_column_blob = (\<lambda>p i s. []), sqlite3_column_bytes = (\<lambda>p i s. 0), sqlite3_bind_int = (\<lambda>p i v s. (0, s)),
     sqlite3_bind_int64 = (\<lambda>p i v s. (0, s)), sqlite3_bind_double = (\<lambda>p i v s. (0, s)), sqlite3_bind_null = (\<lambda>p i s. (0, s)),
     sqlite3_bind_text = (\<lambda>p i v s. (0, s)), sqlite3_bind_blob = (\<lambda>p i v s. (0, s))\<rparr>"

lemma chunk_at_length: "chunk_at tag b i = Some (s, j) \<Longrightarrow> int (length s) \<le> uint (byte_at b (i + 1))"
proof -
  assume "chunk_at tag b i = Some (s, j)"
  then have "length s \<le> unat (byte_at b (i + 1))" by (auto simp: chunk_at_def Let_def split: if_splits)
  then show ?thesis by (simp only: uint_nat of_nat_le_iff)
qed

lemma toy_libraries:
  "port_ok toy_ei toy_libc toy_sqlite" "encoders_succeed toy_ei" "column_types toy_sqlite" "\<forall>m. \<not> malloc_fails toy_libc m"
proof -
  have "ei_encodings toy_ei" by (simp add: ei_encodings_def toy_ei_def)
  moreover have "libc_ok toy_libc" by (simp add: libc_ok_def toy_libc_def)
  moreover have "sqlite_ok toy_sqlite" by (simp add: sqlite_ok_def toy_sqlite_def SQLITE_TEXT_def SQLITE_BLOB_def)
  ultimately show "port_ok toy_ei toy_libc toy_sqlite" unfolding port_ok_def by blast
qed (simp_all add: encoders_succeed_def column_types_def toy_ei_def toy_sqlite_def toy_libc_def SQLITE_NULL_def)

lemma toy_intact: "intact toy_ei b"
  using chunk_at_length by (auto simp: intact_def honest_at_def toy_ei_def)

lemma toy_rows: "asked_row_fits toy_ei toy_libc toy_sqlite d"
  by (simp add: asked_row_fits_def row_fits_def toy_sqlite_def SQLITE_ROW_def)

lemma toy_requests:
  "encodes toy_ei [131, 1] Libversion" "encodes toy_ei [131, 104, 2, 2, 107, 1, 65] (Open [65])"
  using toy_intact
  by (simp_all add: encodes_def parse_request_def parse_tuple_def parse_string_def toy_ei_def byte_at_def chunk_at_def)

abbreviation toy_drv :: "nat drv" where
  "toy_drv \<equiv> \<lparr>buf = replicate 65536 0, index = 0, sq = 5, mem = (\<lambda>_. None), next_mem = 0, given = {}\<rparr>"

abbreviation toy_pipes :: pipes where
  "toy_pipes \<equiv> \<lparr>stdin = concat (map frame [[131, 1], [131, 104, 2, 2, 107, 1, 65]]), reads = [1, 1, 1, 3], stdout = [], writes = [1, 2]\<rparr>"

theorem port_serves_requests_witness:
  "\<exists>d' p' bs. main_loop toy_ei toy_libc toy_sqlite toy_drv toy_pipes = Some (EXIT_SUCCESS, d', p') \<and>
     stdout p' = stdout toy_pipes @ concat (map frame bs) \<and>
     snd (serve_all toy_sqlite [Libversion, Open [65]] (sq toy_drv)) = sq d' \<and>
     list_all2 (prints toy_ei) (fst (serve_all toy_sqlite [Libversion, Open [65]] (sq toy_drv))) bs \<and> mem d' = mem toy_drv"
  by (rule port_serves_requests [OF toy_libraries, where ms = "[[131, 1], [131, 104, 2, 2, 107, 1, 65]]"])
     (simp_all add: toy_requests healthy_def addr_or_def split: prod.split)

text \<open>
  Property C3: the port never faults, never loses a heap block, and always ends. However the kernel splits or fails
  the reads and writes, whichever \<open>malloc\<close> fails, whatever SQLite answers, and whether the messages are requests or
  not: the program reaches its end with success or failure, no access leaves a buffer or a live block, no block is
  freed twice, and every block it allocated has been freed or handed to SQLite with its destructor. Two conditions
  restrict the run. Each message handled is intact: the terms in it carry lengths that are not negative and cover what
  the decoders copy (\<open>ei\<close> itself checks no bounds; a message that breaks off or lies about a length is not covered).
  And the row that a message asks for fits a packet. Blocks are those of \<open>malloc\<close>: the handle that SQLite leaves
  behind when \<open>sqlite3_open\<close> fails belongs to SQLite's state and is not counted.
\<close>

theorem port_never_faults:
  assumes "port_ok e c q" "length (buf d) = 65536" "\<forall>m \<ge> next_mem d. mem d m = None"
    and "\<forall>d'. handles e c q d p d' \<longrightarrow> intact e (buf d')"
    and "\<forall>d'. handles e c q d p d' \<longrightarrow> asked_row_fits e c q d'"
  shows "\<exists>r d' p'. main_loop e c q d p = Some (r, d', p') \<and> (r = EXIT_SUCCESS \<or> r = EXIT_FAILURE) \<and> mem d' = mem d \<and>
     given d \<subseteq> given d' \<and> given d' \<subseteq> given d \<union> {next_mem d..<next_mem d'}"
proof -
  have "tidy (next_mem d) (given d) (mem d) d" using assms(2,3) by (auto simp: tidy_def)
  from main_loop_returns [OF assms(1) this, of p] assms(4,5) show ?thesis by (auto simp: tidy_def)
qed

theorem port_never_faults_witness:
  "\<exists>r d' p'. main_loop toy_ei toy_libc toy_sqlite toy_drv
       \<lparr>stdin = [0, 3, 131, 104, 9, 0], reads = [2, 1, 5, -1], stdout = [], writes = [-1]\<rparr> = Some (r, d', p') \<and>
     (r = EXIT_SUCCESS \<or> r = EXIT_FAILURE) \<and> mem d' = mem toy_drv \<and>
     given toy_drv \<subseteq> given d' \<and> given d' \<subseteq> given toy_drv \<union> {next_mem toy_drv..<next_mem d'}"
  by (rule port_never_faults [OF toy_libraries(1)]) (simp_all add: toy_intact toy_rows)

text \<open>Rows that do not fit.\<close>

lemma put_one: "put_then [Some bs] k d =
  (if 0 \<le> index d \<and> nat (index d) + length bs \<le> length (buf d)
   then k (d\<lparr>buf := take (nat (index d)) (buf d) @ bs @ drop (nat (index d) + length bs) (buf d), index := index d + int (length bs)\<rparr>)
   else None)"
  by (simp add: wr_def)

lemma columns_overrun:
  assumes "\<forall>k < n. \<exists>b. column_term e q stmt (i + int k) (sq d) = Some (Some b)"
    and "0 \<le> index d" "nat (index d) \<le> length (buf d)" "length (buf d) < nat (index d) + row_size e q stmt n i (sq d)"
  shows "put_columns e q stmt n i d = None"
  using assms
proof (induction n arbitrary: i d)
  case (Suc n)
  obtain b where b: "column_term e q stmt i (sq d) = Some (Some b)" using Suc.prems(1) [rule_format, of 0] by auto
  let ?d = "d\<lparr>buf := take (nat (index d)) (buf d) @ b @ drop (nat (index d) + length b) (buf d), index := index d + int (length b)\<rparr>"
  have "put_columns e q stmt n (i + 1) ?d = None" if fit: "nat (index d) + length b \<le> length (buf d)"
  proof (rule Suc.IH)
    show "\<forall>k < n. \<exists>b. column_term e q stmt (i + 1 + int k) (sq ?d) = Some (Some b)"
    proof (intro allI impI)
      fix k assume "k < n"
      then show "\<exists>b. column_term e q stmt (i + 1 + int k) (sq ?d) = Some (Some b)"
        using Suc.prems(1) [rule_format, of "Suc k"] by (simp add: add.assoc)
    qed
  qed (use Suc.prems b fit in \<open>simp_all add: nat_add_distrib\<close>)
  then show ?case using b by (simp add: put_one del: put_then.simps)
qed simp

text \<open>
  Property C39: nothing keeps a row inside the message buffer. When \<open>sqlite3_step\<close> delivers a row whose encoded
  columns take more bytes than the buffer of \<open>main\<close> has, \<open>handle_step_msg\<close> writes past its end.
\<close>

theorem large_row_overruns_buffer:
  assumes "parse_ptr e (buf d) (index d) = Some (stmt, j)" "length (stack_ptr c) = 8"
    and "sqlite3_step q stmt (sq d) = (SQLITE_ROW, s)"
    and "\<forall>k < nat (sqlite3_column_count q stmt s). \<exists>b. column_term e q stmt (int k) s = Some (Some b)"
    and "encoders_succeed e" "length (buf d) < row_size e q stmt (nat (sqlite3_column_count q stmt s)) 0 s"
  shows "handle_step_msg e c q d = None"
proof -
  let ?n = "nat (sqlite3_column_count q stmt s)" and ?d = "d\<lparr>sq := s, index := 0\<rparr>"
  let ?hd = "[ei_encode_version e, ei_encode_tuple_header e 2, ei_encode_atom e ''row'', ei_encode_list_header e (sqlite3_column_count q stmt s)]"
  have ptr: "get_ptr e c 311 316 k d = k stmt (d\<lparr>index := j\<rparr>)" for k
    using assms(1,2) by (auto simp: parse_ptr_def get_ptr_def wr_def bind_eq_Some_conv split: if_splits)
  have pos: "0 \<le> sqlite3_column_count q stmt s"
    using assms(6) by (cases "0 \<le> sqlite3_column_count q stmt s") simp_all
  have hd: "ei_encode_version e \<noteq> None" "ei_encode_tuple_header e 2 \<noteq> None" "ei_encode_atom e ''row'' \<noteq> None"
      "ei_encode_list_header e (sqlite3_column_count q stmt s) \<noteq> None"
    using encoders_succeedD(1,5) [OF assms(5)] encoders_succeedD(2,3) [OF assms(5)] pos by simp_all
  have "put_then es (put_columns e q stmt ?n 0) d' = None"
    if "None \<notin> set es" "0 \<le> index d'" "nat (index d') \<le> length (buf d')" "sq d' = s" "length (buf d') = length (buf d)" for es d'
    using that
  proof (induction es arbitrary: d')
    case Nil
    then show ?case using assms(4,6) by (simp add: columns_overrun)
  next
    case (Cons x es)
    obtain bs where x: "x = Some bs" using Cons.prems(1) by (cases x) auto
    have "put_then (x # es) (put_columns e q stmt ?n 0) d' = put_then [Some bs] (put_then es (put_columns e q stmt ?n 0)) d'"
      using put_then_append [of "[x]" es] x by (simp del: put_then.simps)
    then show ?case using Cons x by (simp add: put_one nat_add_distrib del: put_then.simps)
  qed
  then have "put_then ?hd (put_columns e q stmt ?n 0) ?d = None" using hd [symmetric] by (simp del: put_then.simps)
  then show ?thesis
    unfolding handle_step_msg_def ptr using assms(3)
    by (simp add: SQLITE_ROW_def SQLITE_BUSY_def SQLITE_MISUSE_def Let_def del: put_then.simps)
qed

definition toy_blob_sqlite :: "nat sqlite" where
  "toy_blob_sqlite = toy_sqlite\<lparr>sqlite3_step := (\<lambda>p s. (100, s)), sqlite3_column_count := (\<lambda>p s. 1), sqlite3_column_type := (\<lambda>p i s. 4),
     sqlite3_column_blob := (\<lambda>p i s. replicate 65536 1), sqlite3_column_bytes := (\<lambda>p i s. 65536)\<rparr>"

theorem large_row_overruns_buffer_witness:
  "handle_step_msg toy_ei toy_libc toy_blob_sqlite (toy_drv\<lparr>buf := [131, 104, 2, 3, 109, 8, 0, 0, 0, 0, 0, 0, 0, 1] @ replicate 65522 0, index := 4\<rparr>) = None"
proof (rule large_row_overruns_buffer)
  let ?d = "toy_drv\<lparr>buf := [131, 104, 2, 3, 109, 8, 0, 0, 0, 0, 0, 0, 0, 1] @ replicate 65522 0, index := 4\<rparr>"
  show "parse_ptr toy_ei (buf ?d) (index ?d) = Some ([0, 0, 0, 0, 0, 0, 0, 1], 14)"
    by (simp add: parse_ptr_def toy_ei_def byte_at_def chunk_at_def)
  show "length (stack_ptr toy_libc) = 8" by (simp add: toy_libc_def)
  show "sqlite3_step toy_blob_sqlite [0, 0, 0, 0, 0, 0, 0, 1] (sq ?d) = (SQLITE_ROW, 5)" by (simp add: toy_blob_sqlite_def SQLITE_ROW_def)
  note col = toy_blob_sqlite_def column_term_def rd_def toy_ei_def SQLITE_INTEGER_def SQLITE_FLOAT_def SQLITE_TEXT_def SQLITE_BLOB_def
  show "\<forall>k < nat (sqlite3_column_count toy_blob_sqlite [0, 0, 0, 0, 0, 0, 0, 1] 5).
      \<exists>b. column_term toy_ei toy_blob_sqlite [0, 0, 0, 0, 0, 0, 0, 1] (int k) 5 = Some (Some b)" by (simp add: col)
  show "encoders_succeed toy_ei" by (rule toy_libraries(2))
  show "length (buf ?d) < row_size toy_ei toy_blob_sqlite [0, 0, 0, 0, 0, 0, 0, 1]
      (nat (sqlite3_column_count toy_blob_sqlite [0, 0, 0, 0, 0, 0, 0, 1] 5)) 0 5" by (simp add: col)
qed

end
