(* ===== verification/Sqlite_Rowset.thy ===== *)
theory Sqlite_Rowset
  imports Prelude "HOL-Library.Tree"
begin

text \<open>
  SQLite's row set (\<open>rowset.c\<close> in \<open>sqlite3.c\<close>): rowids are inserted in any order, and then either tested
  for membership batch by batch, or extracted in increasing order. Linked lists of entries are lists of their
  values, binary trees of entries are trees; a row set also keeps the chunks of memory its entries live in.
  \<^term>\<open>None\<close> is a violated assertion, a null or out-of-range access, or a block freed twice.
\<close>

section \<open>Memory\<close>

record dbmem =
  blocks :: "nat set"
  next_block :: nat

text \<open>\<open>oom\<close> says which allocations fail.\<close>

definition sqlite3DbMallocRawNN :: "(nat \<Rightarrow> bool) \<Rightarrow> dbmem \<Rightarrow> nat option \<times> dbmem" where
  "sqlite3DbMallocRawNN oom m =
     (let b = next_block m; m = m\<lparr>next_block := Suc b\<rparr>
      in if oom b then (None, m) else (Some b, m\<lparr>blocks := insert b (blocks m)\<rparr>))"

definition sqlite3DbFree :: "nat \<Rightarrow> dbmem \<Rightarrow> dbmem option" where
  "sqlite3DbFree b m = (if b \<in> blocks m then Some (m\<lparr>blocks := blocks m - {b}\<rparr>) else None)"

section \<open>The row set\<close>

text \<open>\<open>sizeof(struct RowSetEntry)\<close> is 24 and \<open>sizeof(struct RowSet)\<close> is 56.\<close>

definition ROWSET_ENTRY_PER_CHUNK :: nat where
  "ROWSET_ENTRY_PER_CHUNK = (1024 - 8) div 24"

definition ROWSET_SORTED :: "16 word" where "ROWSET_SORTED = 1"
definition ROWSET_NEXT :: "16 word" where "ROWSET_NEXT = 2"

record rowset =
  pChunk :: "nat list"
  pEntry :: "int list"
  pLast :: "int option"
  pForest :: "int tree list"
  nFresh :: nat
  rsFlags :: "16 word"
  iBatch :: int

text \<open>\<open>N\<close> is the usable size of the new block, at least the size asked for.\<close>

definition sqlite3RowSetInit :: "(nat \<Rightarrow> bool) \<Rightarrow> nat \<Rightarrow> dbmem \<Rightarrow> (nat \<times> rowset) option \<times> dbmem" where
  "sqlite3RowSetInit oom N m =
     (case sqlite3DbMallocRawNN oom m of
        (None, m) \<Rightarrow> (None, m)
      | (Some b, m) \<Rightarrow>
          (Some (b, \<lparr>pChunk = [], pEntry = [], pLast = None, pForest = [], nFresh = (N - 56) div 24 mod 2 ^ 16,
                     rsFlags = ROWSET_SORTED, iBatch = 0\<rparr>), m))"

fun free_chunks :: "nat list \<Rightarrow> dbmem \<Rightarrow> dbmem option" where
  "free_chunks [] m = Some m"
| "free_chunks (b # bs) m = do { m \<leftarrow> sqlite3DbFree b m; free_chunks bs m }"

definition sqlite3RowSetClear :: "rowset \<Rightarrow> dbmem \<Rightarrow> (rowset \<times> dbmem) option" where
  "sqlite3RowSetClear p m = do {
     m \<leftarrow> free_chunks (pChunk p) m;
     Some (p\<lparr>pChunk := [], nFresh := 0, pEntry := [], pLast := None, pForest := [], rsFlags := ROWSET_SORTED\<rparr>, m) }"

definition sqlite3RowSetDelete :: "nat \<Rightarrow> rowset \<Rightarrow> dbmem \<Rightarrow> dbmem option" where
  "sqlite3RowSetDelete b p m = do { (p, m) \<leftarrow> sqlite3RowSetClear p m; sqlite3DbFree b m }"

definition rowSetEntryAlloc :: "(nat \<Rightarrow> bool) \<Rightarrow> rowset \<Rightarrow> dbmem \<Rightarrow> bool \<times> rowset \<times> dbmem" where
  "rowSetEntryAlloc oom p m =
     (if nFresh p = 0 then
        (case sqlite3DbMallocRawNN oom m of
           (None, m) \<Rightarrow> (False, p, m)
         | (Some b, m) \<Rightarrow> (True, p\<lparr>pChunk := b # pChunk p, nFresh := ROWSET_ENTRY_PER_CHUNK - 1\<rparr>, m))
      else (True, p\<lparr>nFresh := nFresh p - 1\<rparr>, m))"

definition sqlite3RowSetInsert :: "(nat \<Rightarrow> bool) \<Rightarrow> rowset \<Rightarrow> int \<Rightarrow> dbmem \<Rightarrow> (rowset \<times> dbmem) option" where
  "sqlite3RowSetInsert oom p rowid m =
     (if rsFlags p AND ROWSET_NEXT \<noteq> 0 then None
      else case rowSetEntryAlloc oom p m of (ok, p, m) \<Rightarrow>
        if \<not> ok then Some (p, m)
        else case pLast p of
            Some l \<Rightarrow>
              let p = (if rowid \<le> l then p\<lparr>rsFlags := rsFlags p AND NOT ROWSET_SORTED\<rparr> else p)
              in Some (p\<lparr>pEntry := pEntry p @ [rowid], pLast := Some rowid\<rparr>, m)
          | None \<Rightarrow> Some (p\<lparr>pEntry := [rowid], pLast := Some rowid\<rparr>, m))"

section \<open>Sorting\<close>

text \<open>Both lists must be non-empty; duplicates are removed.\<close>

fun rowSetEntryMerge :: "int list \<Rightarrow> int list \<Rightarrow> int list option" where
  "rowSetEntryMerge (a # as) (b # bs) =
     (if a \<le> b then do {
        rest \<leftarrow> (if as = [] then Some (b # bs) else rowSetEntryMerge as (b # bs));
        Some (if a < b then a # rest else rest) }
      else do {
        rest \<leftarrow> (if bs = [] then Some (a # as) else rowSetEntryMerge (a # as) bs);
        Some (b # rest) })"
| "rowSetEntryMerge _ _ = None"

text \<open>
  The loop over the buckets for one entry: as long as bucket \<open>i\<close> is occupied, merge with it and move on. The
  array of 40 buckets is not guarded in the source.
\<close>

function bucket_insert :: "int list list \<Rightarrow> nat \<Rightarrow> int list \<Rightarrow> int list list option" where
  "bucket_insert aBucket i pIn =
     (if length aBucket \<le> i then None
      else if aBucket ! i = [] then Some (aBucket[i := pIn])
      else do {
        pIn \<leftarrow> rowSetEntryMerge (aBucket ! i) pIn;
        bucket_insert (aBucket[i := []]) (Suc i) pIn })"
  by pat_completeness auto

termination
  by (relation "measure (\<lambda>(aBucket, i, pIn). length aBucket - i)") auto

declare bucket_insert.simps [simp del]

fun fill_buckets :: "int list \<Rightarrow> int list list \<Rightarrow> int list list option" where
  "fill_buckets [] aBucket = Some aBucket"
| "fill_buckets (v # pIn) aBucket = do { aBucket \<leftarrow> bucket_insert aBucket 0 [v]; fill_buckets pIn aBucket }"

fun merge_buckets :: "int list list \<Rightarrow> int list \<Rightarrow> int list option" where
  "merge_buckets [] pIn = Some pIn"
| "merge_buckets (b # bs) pIn =
     (if b = [] then merge_buckets bs pIn
      else do { pIn \<leftarrow> (if pIn \<noteq> [] then rowSetEntryMerge pIn b else Some b); merge_buckets bs pIn })"

definition rowSetEntrySort :: "int list \<Rightarrow> int list option" where
  "rowSetEntrySort pIn = do {
     aBucket \<leftarrow> fill_buckets pIn (replicate 40 []);
     merge_buckets (tl aBucket) (hd aBucket) }"

section \<open>Trees\<close>

fun rowSetTreeToList :: "int tree \<Rightarrow> int list" where
  "rowSetTreeToList Leaf = []"
| "rowSetTreeToList (Node l v r) = rowSetTreeToList l @ v # rowSetTreeToList r"

text \<open>The tree and the unused rest of the list.\<close>

fun rowSetNDeepTree :: "int list \<Rightarrow> nat \<Rightarrow> int tree \<times> int list" where
  "rowSetNDeepTree [] iDepth = (Leaf, [])"
| "rowSetNDeepTree (p # ps) 0 = (Node Leaf p Leaf, ps)"
| "rowSetNDeepTree (p # ps) (Suc d) =
     (if d = 0 then (Node Leaf p Leaf, ps)
      else case rowSetNDeepTree (p # ps) d of
          (l, []) \<Rightarrow> (l, [])
        | (l, x # xs) \<Rightarrow> (case rowSetNDeepTree xs d of (r, rest) \<Rightarrow> (Node l x r, rest)))"

lemma NDeepTree_list: "rowSetNDeepTree xs d = (t, rest) \<Longrightarrow> inorder t @ rest = xs"
proof (induction xs d arbitrary: t rest rule: rowSetNDeepTree.induct)
  case (3 p ps d)
  show ?case
  proof (cases "d = 0")
    case False
    obtain l ls where l: "rowSetNDeepTree (p # ps) d = (l, ls)" by fastforce
    show ?thesis
    proof (cases ls)
      case Nil
      then show ?thesis using "3.prems" "3.IH"(1) [OF False l] False l by simp
    next
      case (Cons x xs)
      obtain r rs where "rowSetNDeepTree xs d = (r, rs)" by fastforce
      then show ?thesis
        using "3.prems" "3.IH"(1) [OF False l] "3.IH"(2) [OF False l [symmetric] Cons] False l Cons by auto
    qed
  qed (use "3.prems" in auto)
qed auto

lemma NDeepTree_shorter: "rowSetNDeepTree xs d = (t, rest) \<Longrightarrow> length rest \<le> length xs"
  using NDeepTree_list by fastforce

function list_to_tree :: "int tree \<Rightarrow> nat \<Rightarrow> int list \<Rightarrow> int tree" where
  "list_to_tree p iDepth [] = p"
| "list_to_tree p iDepth (x # pList) =
     (case rowSetNDeepTree pList iDepth of (r, rest) \<Rightarrow> list_to_tree (Node p x r) (Suc iDepth) rest)"
  by pat_completeness auto

termination
  by (relation "measure (\<lambda>(p, d, xs). length xs)") (auto dest: NDeepTree_shorter [OF sym])

fun rowSetListToTree :: "int list \<Rightarrow> int tree option" where
  "rowSetListToTree [] = None"
| "rowSetListToTree (p # pList) = Some (list_to_tree (Node Leaf p Leaf) 1 pList)"

section \<open>Extraction and tests\<close>

text \<open>The value \<open>*pRowid\<close> where the function returns 1.\<close>

definition sqlite3RowSetNext :: "rowset \<Rightarrow> dbmem \<Rightarrow> (int option \<times> rowset \<times> dbmem) option" where
  "sqlite3RowSetNext p m =
     (if pForest p \<noteq> [] then None
      else do {
        p \<leftarrow> (if rsFlags p AND ROWSET_NEXT = 0 then do {
                 es \<leftarrow> (if rsFlags p AND ROWSET_SORTED = 0 then rowSetEntrySort (pEntry p) else Some (pEntry p));
                 Some (p\<lparr>pEntry := es, rsFlags := rsFlags p OR ROWSET_SORTED OR ROWSET_NEXT\<rparr>) }
              else Some p);
        case pEntry p of
          [] \<Rightarrow> Some (None, p, m)
        | v # es \<Rightarrow>
            let p = p\<lparr>pEntry := es\<rparr>
            in if es = [] then do { (p, m) \<leftarrow> sqlite3RowSetClear p m; Some (Some v, p, m) }
               else Some (Some v, p, m) })"

text \<open>
  The walk along the forest for a sorted list: the first empty slot takes it, occupied slots are emptied into
  it. The second result is the list when no slot was empty.
\<close>

fun forest_add :: "int list \<Rightarrow> int tree list \<Rightarrow> (int tree list \<times> int list option) option" where
  "forest_add p [] = Some ([], Some p)"
| "forest_add p (t # ts) =
     (if t = Leaf then do { t \<leftarrow> rowSetListToTree p; Some (t # ts, None) }
      else do {
        p \<leftarrow> rowSetEntryMerge (rowSetTreeToList t) p;
        (ts, left) \<leftarrow> forest_add p ts;
        Some (Leaf # ts, left) })"

fun tree_find :: "int tree \<Rightarrow> int \<Rightarrow> bool" where
  "tree_find Leaf iRowid = False"
| "tree_find (Node l v r) iRowid =
     (if v < iRowid then tree_find r iRowid else if v > iRowid then tree_find l iRowid else True)"

definition sqlite3RowSetTest ::
  "(nat \<Rightarrow> bool) \<Rightarrow> rowset \<Rightarrow> int \<Rightarrow> int \<Rightarrow> dbmem \<Rightarrow> (bool \<times> rowset \<times> dbmem) option" where
  "sqlite3RowSetTest oom p iBatch' iRowid m =
     (if rsFlags p AND ROWSET_NEXT \<noteq> 0 then None
      else do {
        (p, m) \<leftarrow>
          (if iBatch' \<noteq> iBatch p then do {
             (p, m) \<leftarrow>
               (if pEntry p \<noteq> [] then do {
                  es \<leftarrow> (if rsFlags p AND ROWSET_SORTED = 0 then rowSetEntrySort (pEntry p) else Some (pEntry p));
                  (forest, left) \<leftarrow> forest_add es (pForest p);
                  (p, m) \<leftarrow>
                    (case left of
                       None \<Rightarrow> Some (p\<lparr>pForest := forest\<rparr>, m)
                     | Some es \<Rightarrow>
                         (case rowSetEntryAlloc oom p m of (ok, p, m) \<Rightarrow>
                            if ok then do { t \<leftarrow> rowSetListToTree es; Some (p\<lparr>pForest := forest @ [t]\<rparr>, m) }
                            else Some (p\<lparr>pForest := forest\<rparr>, m)));
                  Some (p\<lparr>pEntry := [], pLast := None, rsFlags := rsFlags p OR ROWSET_SORTED\<rparr>, m) }
                else Some (p, m));
             Some (p\<lparr>iBatch := iBatch'\<rparr>, m) }
           else Some (p, m));
        Some (\<exists>t \<in> set (pForest p). tree_find t iRowid, p, m) })"

section \<open>Merging and sorting\<close>

abbreviation increasing :: "int list \<Rightarrow> bool" where
  "increasing \<equiv> sorted_wrt (<)"

lemma increasing_set_unique: "increasing xs \<Longrightarrow> increasing ys \<Longrightarrow> set xs = set ys \<Longrightarrow> xs = ys"
  by (rule strict_sorted_equal)

lemma merge_increasing:
  "increasing as \<Longrightarrow> increasing bs \<Longrightarrow> as \<noteq> [] \<Longrightarrow> bs \<noteq> [] \<Longrightarrow>
   \<exists>zs. rowSetEntryMerge as bs = Some zs \<and> increasing zs \<and> set zs = set as \<union> set bs"
proof (induction as bs rule: rowSetEntryMerge.induct)
  case (1 a as b bs)
  show ?case
  proof (cases "a \<le> b")
    case True
    have "\<exists>zs. (if as = [] then Some (b # bs) else rowSetEntryMerge as (b # bs)) = Some zs \<and>
               increasing zs \<and> set zs = set as \<union> set (b # bs)"
      using "1.IH"(1) [OF True] "1.prems" by (cases "as = []") auto
    then show ?thesis using True "1.prems" by fastforce
  next
    case False
    have "\<exists>zs. (if bs = [] then Some (a # as) else rowSetEntryMerge (a # as) bs) = Some zs \<and>
               increasing zs \<and> set zs = set (a # as) \<union> set bs"
      using "1.IH"(2) [OF False] "1.prems" by (cases "bs = []") auto
    then show ?thesis using False "1.prems" by fastforce
  qed
qed auto

text \<open>The buckets are a binary counter: bucket \<open>i\<close> is occupied when bit \<open>i\<close> of the number of entries is set.\<close>

fun entry_count :: "int list list \<Rightarrow> nat" where
  "entry_count [] = 0"
| "entry_count (b # bs) = (if b = [] then 0 else 1) + 2 * entry_count bs"

fun carry :: "int list list \<Rightarrow> int list \<Rightarrow> int list list option" where
  "carry [] p = None"
| "carry (b # bs) p =
     (if b = [] then Some (p # bs)
      else do { p \<leftarrow> rowSetEntryMerge b p; bs \<leftarrow> carry bs p; Some ([] # bs) })"

lemma bucket_insert_carry:
  "bucket_insert (pre @ bs) (length pre) p = map_option ((@) pre) (carry bs p)"
proof (induction bs arbitrary: pre p)
  case Nil
  then show ?case by (simp add: bucket_insert.simps)
next
  case (Cons b bs)
  show ?case
  proof (cases "b = []")
    case True
    then show ?thesis by (subst bucket_insert.simps) simp
  next
    case False
    have "bucket_insert (pre @ [] # bs) (Suc (length pre)) q = map_option (\<lambda>r. pre @ [] # r) (carry bs q)" for q
      using Cons.IH [of "pre @ [[]]" q] by simp
    then show ?thesis
      using False by (subst bucket_insert.simps) (auto simp: option.map_comp comp_def split: bind_splits)
  qed
qed

lemma carry_counts:
  "\<forall>b \<in> set bs. increasing b \<Longrightarrow> increasing p \<Longrightarrow> p \<noteq> [] \<Longrightarrow> Suc (entry_count bs) < 2 ^ length bs \<Longrightarrow>
   \<exists>bs'. carry bs p = Some bs' \<and> length bs' = length bs \<and> (\<forall>b \<in> set bs'. increasing b) \<and>
         \<Union> (set ` set bs') = \<Union> (set ` set bs) \<union> set p \<and> entry_count bs' = Suc (entry_count bs)"
proof (induction bs arbitrary: p)
  case (Cons b bs)
  show ?case
  proof (cases "b = []")
    case False
    obtain q where q: "rowSetEntryMerge b p = Some q" "increasing q" "set q = set b \<union> set p"
      using merge_increasing [of b p] Cons.prems False by auto
    then have "q \<noteq> []" using False by auto
    then obtain bs' where "carry bs q = Some bs'" "length bs' = length bs" "\<forall>b \<in> set bs'. increasing b"
      "\<Union> (set ` set bs') = \<Union> (set ` set bs) \<union> set q" "entry_count bs' = Suc (entry_count bs)"
      using Cons.IH [of q] Cons.prems q False by auto
    then show ?thesis using q False by auto
  qed (use Cons.prems in auto)
qed simp

lemma fill_buckets_counts:
  "\<forall>b \<in> set bs. increasing b \<Longrightarrow> length xs + entry_count bs < 2 ^ length bs \<Longrightarrow>
   \<exists>bs'. fill_buckets xs bs = Some bs' \<and> length bs' = length bs \<and> (\<forall>b \<in> set bs'. increasing b) \<and>
         \<Union> (set ` set bs') = \<Union> (set ` set bs) \<union> set xs"
proof (induction xs arbitrary: bs)
  case (Cons x xs)
  obtain bs' where "carry bs [x] = Some bs'" "length bs' = length bs" "\<forall>b \<in> set bs'. increasing b"
    "\<Union> (set ` set bs') = \<Union> (set ` set bs) \<union> {x}" "entry_count bs' = Suc (entry_count bs)"
    using carry_counts [of bs "[x]"] Cons.prems by auto
  then show ?case
    using Cons.IH [of bs'] Cons.prems bucket_insert_carry [of "[]" bs "[x]"] by (auto simp: option.map_ident)
qed simp

lemma merge_buckets_all:
  "\<forall>b \<in> set bs. increasing b \<Longrightarrow> increasing p \<Longrightarrow>
   \<exists>zs. merge_buckets bs p = Some zs \<and> increasing zs \<and> set zs = set p \<union> \<Union> (set ` set bs)"
proof (induction bs arbitrary: p)
  case (Cons b bs)
  show ?case
  proof (cases "b = [] \<or> p = []")
    case True
    then show ?thesis using Cons.IH [of p] Cons.IH [of b] Cons.prems by auto
  next
    case False
    then obtain q where "rowSetEntryMerge p b = Some q" "increasing q" "set q = set p \<union> set b"
      using merge_increasing [of p b] Cons.prems by auto
    then show ?thesis using Cons.IH [of q] Cons.prems False by auto
  qed
qed simp

lemma entry_count_empty [simp]: "entry_count (replicate n []) = 0"
  by (induction n) auto

lemma sort_increasing:
  assumes "length xs < 2 ^ 40"
  shows "rowSetEntrySort xs = Some (sorted_list_of_set (set xs))"
proof -
  have "\<exists>bs'. fill_buckets xs (replicate 40 []) = Some bs' \<and> length bs' = length (replicate 40 ([] :: int list)) \<and>
      (\<forall>b \<in> set bs'. increasing b) \<and> \<Union> (set ` set bs') = \<Union> (set ` set (replicate 40 [])) \<union> set xs"
    by (rule fill_buckets_counts) (use assms in \<open>auto simp: entry_count_empty\<close>)
  then obtain bs where bs: "fill_buckets xs (replicate 40 []) = Some bs" "length bs = 40" "\<forall>b \<in> set bs. increasing b"
    "\<Union> (set ` set bs) = set xs" by auto
  from bs(2) obtain b bs' where b: "bs = b # bs'" by (cases bs) auto
  then obtain zs where zs: "merge_buckets bs' b = Some zs" "increasing zs" "set zs = set xs"
    using merge_buckets_all [of bs' b] bs by auto
  then have "zs = sorted_list_of_set (set xs)" by (intro increasing_set_unique) auto
  then show ?thesis using bs(1) zs(1) b by (simp add: rowSetEntrySort_def)
qed

section \<open>Trees and the forest\<close>

lemma TreeToList_inorder [simp]: "rowSetTreeToList t = inorder t"
  by (induction t) auto

lemma inorder_list_to_tree: "inorder (list_to_tree p d xs) = inorder p @ xs"
proof (induction p d xs rule: list_to_tree.induct)
  case (2 p d x xs)
  obtain r rest where r: "rowSetNDeepTree xs d = (r, rest)" by fastforce
  then show ?case using "2.IH" [OF r [symmetric]] NDeepTree_list [OF r] by simp
qed simp

lemma ListToTree_inorder: "xs \<noteq> [] \<Longrightarrow> \<exists>t. rowSetListToTree xs = Some t \<and> inorder t = xs \<and> t \<noteq> Leaf"
  by (cases xs) (auto simp: inorder_list_to_tree dest: arg_cong [of _ _ inorder])

lemma tree_find_set: "increasing (inorder t) \<Longrightarrow> tree_find t v \<longleftrightarrow> v \<in> set_tree t"
proof (induction t)
  case (Node l x r)
  then show ?case by (auto simp: sorted_wrt_append)
qed simp

definition forest_ok :: "int tree list \<Rightarrow> bool" where
  "forest_ok ts \<longleftrightarrow> (\<forall>t \<in> set ts. increasing (inorder t))"

definition forest_set :: "int tree list \<Rightarrow> int set" where
  "forest_set ts = (\<Union>t \<in> set ts. set_tree t)"

lemma forest_simps [simp]:
  "forest_ok []" "forest_ok (t # ts) \<longleftrightarrow> increasing (inorder t) \<and> forest_ok ts"
  "forest_ok (ts @ us) \<longleftrightarrow> forest_ok ts \<and> forest_ok us"
  "forest_set [] = {}" "forest_set (t # ts) = set_tree t \<union> forest_set ts"
  "forest_set (ts @ us) = forest_set ts \<union> forest_set us"
  by (auto simp: forest_ok_def forest_set_def)

lemma forest_find: "forest_ok ts \<Longrightarrow> (\<exists>t \<in> set ts. tree_find t v) \<longleftrightarrow> v \<in> forest_set ts"
  by (auto simp: forest_ok_def forest_set_def tree_find_set)

lemma forest_add_set:
  "forest_ok ts \<Longrightarrow> increasing p \<Longrightarrow> p \<noteq> [] \<Longrightarrow>
   \<exists>ts' left. forest_add p ts = Some (ts', left) \<and> forest_ok ts' \<and>
     (case left of None \<Rightarrow> forest_set ts' = forest_set ts \<union> set p
      | Some q \<Rightarrow> q \<noteq> [] \<and> increasing q \<and> forest_set ts' \<union> set q = forest_set ts \<union> set p)"
proof (induction ts arbitrary: p)
  case (Cons t ts)
  show ?case
  proof (cases "t = Leaf")
    case True
    obtain u where u: "rowSetListToTree p = Some u" "inorder u = p" using ListToTree_inorder Cons.prems by blast
    then have "set_tree u = set p" by (metis set_inorder)
    then show ?thesis using u True Cons.prems by auto
  next
    case False
    then obtain q where q: "rowSetEntryMerge (inorder t) p = Some q" "increasing q" "set q = set_tree t \<union> set p"
      using merge_increasing [of "inorder t" p] Cons.prems by auto
    then have "q \<noteq> []" using Cons.prems by auto
    then show ?thesis
      using Cons.IH [of q] q Cons.prems False by (fastforce split: option.splits)
  qed
qed simp

end
