(* ===== verification/Sqlite_Rowset_Spec.thy ===== *)
theory Sqlite_Rowset_Spec
  imports Sqlite_Rowset
begin

text \<open>
  What a row set promises. The interface \<open>batch_set\<close> states the laws of insertion and of membership tests: an
  inserted rowid becomes visible to the tests of every later batch; a client that runs any sequence of insertions
  and tests gets the answers of two plain sets. The second contract is extraction: the rowids come out in
  increasing order, each once. In both cases every block the row set took is given back.
\<close>

section \<open>The interface\<close>

datatype rs_op = Insert_rowid int | Test_rowid int int

text \<open>The reference: the rowids visible to tests, those inserted in the current batch, and the batch.\<close>

fun spec_answers :: "rs_op list \<Rightarrow> int set \<Rightarrow> int set \<Rightarrow> int \<Rightarrow> bool list" where
  "spec_answers [] V P b = []"
| "spec_answers (Insert_rowid v # ops) V P b = spec_answers ops V (insert v P) b"
| "spec_answers (Test_rowid b' v # ops) V P b =
     (if b' = b then (v \<in> V) # spec_answers ops V P b
      else (v \<in> V \<union> P) # spec_answers ops (V \<union> P) {} b')"

fun run_ops ::
  "(int \<Rightarrow> 's \<Rightarrow> 's option) \<Rightarrow> (int \<Rightarrow> int \<Rightarrow> 's \<Rightarrow> (bool \<times> 's) option) \<Rightarrow> rs_op list \<Rightarrow> 's \<Rightarrow> (bool list \<times> 's) option"
where
  "run_ops ins tst [] s = Some ([], s)"
| "run_ops ins tst (Insert_rowid v # ops) s = do { s \<leftarrow> ins v s; run_ops ins tst ops s }"
| "run_ops ins tst (Test_rowid b v # ops) s = do {
     (a, s) \<leftarrow> tst b v s; (as, s) \<leftarrow> run_ops ins tst ops s; Some (a # as, s) }"

locale batch_set =
  fixes ins :: "int \<Rightarrow> 's \<Rightarrow> 's option"
    and tst :: "int \<Rightarrow> int \<Rightarrow> 's \<Rightarrow> (bool \<times> 's) option"
    and visible :: "'s \<Rightarrow> int set" and pending :: "'s \<Rightarrow> int set"
    and batch :: "'s \<Rightarrow> int" and load :: "'s \<Rightarrow> nat" and inv :: "'s \<Rightarrow> bool"
    and capacity :: nat and reliable :: bool
  assumes ins_law: "inv s \<Longrightarrow> \<exists>s'. ins v s = Some s' \<and> inv s' \<and> batch s' = batch s \<and> load s' \<le> Suc (load s) \<and>
      visible s' = visible s \<and> pending s' \<subseteq> insert v (pending s) \<and> (reliable \<longrightarrow> pending s' = insert v (pending s))"
    and tst_same: "inv s \<Longrightarrow> tst (batch s) v s = Some (v \<in> visible s, s)"
    and tst_new: "inv s \<Longrightarrow> load s < capacity \<Longrightarrow> b \<noteq> batch s \<Longrightarrow>
      \<exists>s'. tst b v s = Some (v \<in> visible s', s') \<and> inv s' \<and> batch s' = b \<and> load s' = 0 \<and> pending s' = {} \<and>
        visible s' \<subseteq> visible s \<union> pending s \<and> (reliable \<longrightarrow> visible s' = visible s \<union> pending s)"
begin

lemma run_refines:
  "inv s \<Longrightarrow> load s + length ops < capacity \<Longrightarrow> visible s \<subseteq> V \<Longrightarrow> pending s \<subseteq> P \<Longrightarrow>
   reliable \<longrightarrow> visible s = V \<and> pending s = P \<Longrightarrow>
   \<exists>as s'. run_ops ins tst ops s = Some (as, s') \<and> inv s' \<and>
     list_all2 (\<le>) as (spec_answers ops V P (batch s)) \<and>
     (reliable \<longrightarrow> as = spec_answers ops V P (batch s))"
proof (induction ops arbitrary: s V P)
  case (Cons op ops)
  show ?case
  proof (cases op)
    case (Insert_rowid v)
    obtain s' where s': "ins v s = Some s'" "inv s'" "batch s' = batch s" "load s' \<le> Suc (load s)"
      "visible s' = visible s" "pending s' \<subseteq> insert v (pending s)" "reliable \<longrightarrow> pending s' = insert v (pending s)"
      using ins_law [OF Cons.prems(1)] by blast
    moreover have "pending s' \<subseteq> insert v P" using s' Cons.prems by blast
    ultimately show ?thesis
      using Cons.IH [of s' V "insert v P"] Cons.prems Insert_rowid by auto
  next
    case (Test_rowid b v)
    show ?thesis
    proof (cases "b = batch s")
      case True
      then show ?thesis
        using Cons.IH [of s V P] Cons.prems Test_rowid tst_same [OF Cons.prems(1), of v] by auto
    next
      case False
      obtain s' where s': "tst b v s = Some (v \<in> visible s', s')" "inv s'" "batch s' = b" "load s' = 0"
        "pending s' = {}" "visible s' \<subseteq> visible s \<union> pending s" "reliable \<longrightarrow> visible s' = visible s \<union> pending s"
        using tst_new [OF Cons.prems(1) _ False] Cons.prems(2) by fastforce
      moreover have "visible s' \<subseteq> V \<union> P" using s' Cons.prems by blast
      ultimately show ?thesis
        using Cons.IH [of s' "V \<union> P" "{}"] Cons.prems Test_rowid False by auto
    qed
  qed
qed (simp)

end

section \<open>The invariant of a row set\<close>

definition accepts :: "rowset \<Rightarrow> bool" where
  "accepts p \<longleftrightarrow>
     pLast p = (if pEntry p = [] then None else Some (last (pEntry p))) \<and>
     (rsFlags p = ROWSET_SORTED \<and> increasing (pEntry p) \<or> rsFlags p = 0) \<and> forest_ok (pForest p)"

text \<open>The blocks of a row set \<open>h\<close> and of others, \<open>B\<close>.\<close>

definition owns :: "nat \<Rightarrow> nat set \<Rightarrow> rowset \<Rightarrow> dbmem \<Rightarrow> bool" where
  "owns h B p m \<longleftrightarrow>
     distinct (h # pChunk p) \<and> blocks m = set (h # pChunk p) \<union> B \<and> set (h # pChunk p) \<inter> B = {} \<and>
     (\<forall>b \<in> blocks m. b < next_block m)"

lemma flags_simps [simp]:
  "ROWSET_SORTED AND ROWSET_NEXT = 0" "ROWSET_SORTED AND NOT ROWSET_SORTED = 0" "ROWSET_SORTED \<noteq> 0" "ROWSET_NEXT \<noteq> 0"
  "ROWSET_SORTED AND ROWSET_SORTED = ROWSET_SORTED" "ROWSET_SORTED OR ROWSET_SORTED = ROWSET_SORTED"
  "(ROWSET_SORTED OR ROWSET_NEXT) AND ROWSET_NEXT \<noteq> 0" "0 OR ROWSET_SORTED = ROWSET_SORTED"
  "ROWSET_SORTED OR ROWSET_SORTED OR ROWSET_NEXT = ROWSET_SORTED OR ROWSET_NEXT"
  by (simp_all add: ROWSET_SORTED_def ROWSET_NEXT_def)

lemma alloc_effect:
  assumes "rowSetEntryAlloc oom p m = (ok, p', m')" and "owns h B p m"
  shows "owns h B p' m'" and "\<exists>cs n. p' = p\<lparr>pChunk := cs, nFresh := n\<rparr>" and "(\<forall>b. \<not> oom b) \<Longrightarrow> ok"
proof -
  show "owns h B p' m'" "(\<forall>b. \<not> oom b) \<Longrightarrow> ok"
    using assms by (auto simp: rowSetEntryAlloc_def sqlite3DbMallocRawNN_def owns_def Let_def less_Suc_eq split: if_splits)
  show "\<exists>cs n. p' = p\<lparr>pChunk := cs, nFresh := n\<rparr>"
    using assms by (cases p)
      (auto simp: rowSetEntryAlloc_def sqlite3DbMallocRawNN_def Let_def split: if_splits)
qed

lemma insert_effect:
  assumes "accepts p" and "owns h B p m"
  shows "\<exists>p' m'. sqlite3RowSetInsert oom p v m = Some (p', m') \<and> accepts p' \<and> owns h B p' m' \<and>
           pForest p' = pForest p \<and> iBatch p' = iBatch p \<and>
           (pEntry p' = pEntry p @ [v] \<or> pEntry p' = pEntry p \<and> (\<exists>b. oom b))"
proof -
  obtain ok q n where alloc: "rowSetEntryAlloc oom p m = (ok, q, n)" by (metis prod_cases3)
  obtain cs k where q: "q = p\<lparr>pChunk := cs, nFresh := k\<rparr>" using alloc_effect(2) [OF alloc assms(2)] by blast
  have own: "owns h B q n" by (rule alloc_effect(1) [OF alloc assms(2)])
  have flags: "rsFlags p AND ROWSET_NEXT = 0" using assms(1) by (auto simp: accepts_def)
  show ?thesis
  proof (cases ok)
    case True
    have inc: "increasing (pEntry p @ [v])" if "rsFlags p = ROWSET_SORTED" "increasing (pEntry p)"
      "pEntry p \<noteq> [] \<longrightarrow> last (pEntry p) < v"
      using that by (cases "pEntry p" rule: rev_cases) (auto simp: sorted_wrt_append)
    show ?thesis
      using alloc True flags assms(1) own inc
      by (auto simp: sqlite3RowSetInsert_def q accepts_def owns_def Let_def split: option.splits if_splits)
  next
    case False
    then have "\<exists>b. oom b" using alloc_effect(3) [OF alloc assms(2)] by blast
    then show ?thesis
      using alloc False flags assms(1) own by (auto simp: sqlite3RowSetInsert_def q accepts_def)
  qed
qed

lemma clear_frees:
  assumes "owns h B p m"
  shows "\<exists>p' m'. sqlite3RowSetClear p m = Some (p', m') \<and> owns h B p' m' \<and> accepts p' \<and> pEntry p' = [] \<and>
           pForest p' = [] \<and> pChunk p' = [] \<and> rsFlags p' = ROWSET_SORTED"
proof -
  have "distinct cs \<Longrightarrow> set cs \<subseteq> blocks m \<Longrightarrow> free_chunks cs m = Some (m\<lparr>blocks := blocks m - set cs\<rparr>)" for cs
  proof (induction cs arbitrary: m)
    case (Cons c cs)
    have "set cs \<subseteq> blocks m - {c}" using Cons.prems by auto
    then show ?case using Cons.prems Cons.IH [of "m\<lparr>blocks := blocks m - {c}\<rparr>"]
      by (auto simp: sqlite3DbFree_def intro: arg_cong)
  qed simp
  from this [of "pChunk p"] assms show ?thesis
    by (fastforce simp: sqlite3RowSetClear_def accepts_def owns_def)
qed

lemma delete_frees:
  assumes "owns h B p m"
  shows "\<exists>m'. sqlite3RowSetDelete h p m = Some m' \<and> blocks m' = B"
  using clear_frees [OF assms] by (fastforce simp: sqlite3RowSetDelete_def sqlite3DbFree_def owns_def)

lemma accepts_sorted_entries:
  assumes "accepts p" and "length (pEntry p) < 2 ^ 40"
  shows "(if rsFlags p AND ROWSET_SORTED = 0 then rowSetEntrySort (pEntry p) else Some (pEntry p)) =
         Some (sorted_list_of_set (set (pEntry p)))"
proof (cases "rsFlags p = 0")
  case True
  then show ?thesis using sort_increasing [OF assms(2)] by simp
next
  case False
  then have "rsFlags p = ROWSET_SORTED" "increasing (pEntry p)" using assms(1) by (auto simp: accepts_def)
  then show ?thesis by (simp add: strict_sorted_equal)
qed

lemma test_same_batch:
  assumes "accepts p"
  shows "sqlite3RowSetTest oom p (iBatch p) v m = Some (v \<in> forest_set (pForest p), p, m)"
  using assms by (auto simp: sqlite3RowSetTest_def accepts_def forest_find)

lemma test_new_batch:
  assumes acc: "accepts p" and own: "owns h B p m" and len: "length (pEntry p) < 2 ^ 40" and b: "b \<noteq> iBatch p"
  shows "\<exists>p' m'. sqlite3RowSetTest oom p b v m = Some (v \<in> forest_set (pForest p'), p', m') \<and>
           accepts p' \<and> owns h B p' m' \<and> iBatch p' = b \<and> pEntry p' = [] \<and>
           forest_set (pForest p') \<subseteq> forest_set (pForest p) \<union> set (pEntry p) \<and>
           ((\<forall>n. \<not> oom n) \<longrightarrow> forest_set (pForest p') = forest_set (pForest p) \<union> set (pEntry p))"
proof (cases "pEntry p = []")
  case True
  then show ?thesis
    using acc own b by (auto simp: sqlite3RowSetTest_def accepts_def owns_def forest_find)
next
  case False
  define es where "es = sorted_list_of_set (set (pEntry p))"
  have es: "increasing es" "es \<noteq> []" "set es = set (pEntry p)" using False by (auto simp: es_def)
  obtain ts left where ts: "forest_add es (pForest p) = Some (ts, left)" "forest_ok ts"
    "case left of None \<Rightarrow> forest_set ts = forest_set (pForest p) \<union> set (pEntry p)
     | Some q \<Rightarrow> q \<noteq> [] \<and> increasing q \<and> forest_set ts \<union> set q = forest_set (pForest p) \<union> set (pEntry p)"
    using forest_add_set [OF _ es(1,2), of "pForest p", unfolded es(3)] acc unfolding accepts_def by blast
  have flags: "rsFlags p AND ROWSET_NEXT = 0" "rsFlags p OR ROWSET_SORTED = ROWSET_SORTED"
    using acc by (auto simp: accepts_def)
  note entries = accepts_sorted_entries [OF acc len, folded es_def]
  show ?thesis
  proof (cases left)
    case None
    then show ?thesis
      using ts own b False flags entries
      by (auto simp: sqlite3RowSetTest_def accepts_def owns_def forest_find)
  next
    case (Some q)
    obtain t where t: "rowSetListToTree q = Some t" "inorder t = q" using ListToTree_inorder ts(3) Some by auto
    then have "set_tree t = set q" by (metis set_inorder)
    obtain ok p1 m1 where alloc: "rowSetEntryAlloc oom p m = (ok, p1, m1)" by (metis prod_cases3)
    obtain cs k where p1: "p1 = p\<lparr>pChunk := cs, nFresh := k\<rparr>" using alloc_effect(2) [OF alloc own] by blast
    have own1: "owns h B p1 m1" and ok: "(\<forall>n. \<not> oom n) \<Longrightarrow> ok" using alloc_effect [OF alloc own] by blast+
    show ?thesis
      using ts own1 b False flags entries Some t \<open>set_tree t = set q\<close> alloc p1 ok
      by (cases ok) (auto simp: sqlite3RowSetTest_def accepts_def owns_def forest_find tree_find_set)
  qed
qed

section \<open>Membership tests\<close>

definition rs_insert :: "(nat \<Rightarrow> bool) \<Rightarrow> int \<Rightarrow> rowset \<times> dbmem \<Rightarrow> (rowset \<times> dbmem) option" where
  "rs_insert oom v = (\<lambda>(p, m). sqlite3RowSetInsert oom p v m)"

definition rs_test :: "(nat \<Rightarrow> bool) \<Rightarrow> int \<Rightarrow> int \<Rightarrow> rowset \<times> dbmem \<Rightarrow> (bool \<times> rowset \<times> dbmem) option" where
  "rs_test oom b v = (\<lambda>(p, m). sqlite3RowSetTest oom p b v m)"

interpretation rs: batch_set "rs_insert oom" "rs_test oom" "\<lambda>(p, m). forest_set (pForest p)"
  "\<lambda>(p, m). set (pEntry p)" "\<lambda>(p, m). iBatch p" "\<lambda>(p, m). length (pEntry p)"
  "\<lambda>(p, m). accepts p \<and> owns h B p m" "2 ^ 40" "\<forall>n. \<not> oom n" for oom h B
proof (unfold_locales, goal_cases)
  case (1 s v)
  obtain p m where "s = (p, m)" by fastforce
  then show ?case using 1 insert_effect [of p h B m oom v] by (fastforce simp: rs_insert_def)
next
  case (2 s v)
  then show ?case by (auto simp: rs_test_def test_same_batch)
next
  case (3 s b v)
  obtain p m where "s = (p, m)" by fastforce
  then show ?case using 3 test_new_batch [of p h B m b oom v] by (fastforce simp: rs_test_def)
qed

lemma init_accepts:
  assumes "sqlite3RowSetInit oom N m = (Some (h, p), m')" and "\<forall>b \<in> blocks m. b < next_block m"
  shows "accepts p" and "owns h (blocks m) p m'" and "pEntry p = []" and "pForest p = []" and "iBatch p = 0"
  using assms by (auto simp: sqlite3RowSetInit_def sqlite3DbMallocRawNN_def accepts_def owns_def Let_def less_Suc_eq
      split: if_splits)

text \<open>
  Property C16: a client that creates a row set and runs any sequence of fewer than 2^40 insertions and membership
  tests on it never faults, and gets the answers of a specification with two plain sets: a test of a new batch
  makes the pending rowids visible, then answers whether the rowid is visible. When allocations fail rowids may be
  lost, so that answers can turn from true to false, never the other way. Deleting the row set afterwards gives
  back exactly the blocks it took.
\<close>
theorem rowset_tests_refine_sets:
  assumes "sqlite3RowSetInit oom N m = (Some (h, p), m1)" and "\<forall>b \<in> blocks m. b < next_block m"
    and "length ops < 2 ^ 40"
  shows "\<exists>answers p' m2 m3. run_ops (rs_insert oom) (rs_test oom) ops (p, m1) = Some (answers, p', m2) \<and>
           list_all2 (\<le>) answers (spec_answers ops {} {} 0) \<and>
           ((\<forall>n. \<not> oom n) \<longrightarrow> answers = spec_answers ops {} {} 0) \<and>
           sqlite3RowSetDelete h p' m2 = Some m3 \<and> blocks m3 = blocks m"
proof -
  note init = init_accepts [OF assms(1,2)]
  obtain answers p' m2 where "run_ops (rs_insert oom) (rs_test oom) ops (p, m1) = Some (answers, p', m2)"
    "owns h (blocks m) p' m2" "list_all2 (\<le>) answers (spec_answers ops {} {} 0)"
    "(\<forall>n. \<not> oom n) \<longrightarrow> answers = spec_answers ops {} {} 0"
    using rs.run_refines [of h "blocks m" "(p, m1)" ops "{}" "{}" oom] init assms(3) by auto
  then show ?thesis using delete_frees by blast
qed

definition rs_demo :: "rs_op list" where
  "rs_demo = [Insert_rowid 5, Insert_rowid 3, Insert_rowid 5, Test_rowid 1 3, Insert_rowid 4, Test_rowid 1 4,
     Test_rowid 2 4, Test_rowid 2 6]"

text \<open>The witness: insertions out of order over three batches.\<close>
theorem rowset_tests_refine_sets_witness:
  "\<exists>p' m2 m3.
     run_ops (rs_insert (\<lambda>n. False)) (rs_test (\<lambda>n. False)) rs_demo
       (\<lparr>pChunk = [], pEntry = [], pLast = None, pForest = [], nFresh = 0, rsFlags = 1, iBatch = 0\<rparr>,
        \<lparr>blocks = {0}, next_block = 1\<rparr>) = Some ([True, False, True, False], p', m2) \<and>
     sqlite3RowSetDelete 0 p' m2 = Some m3 \<and> blocks m3 = {}"
  using rowset_tests_refine_sets [of "\<lambda>n. False" 56 "\<lparr>blocks = {}, next_block = 0\<rparr>" 0
      "\<lparr>pChunk = [], pEntry = [], pLast = None, pForest = [], nFresh = 0, rsFlags = 1, iBatch = 0\<rparr>"
      "\<lparr>blocks = {0}, next_block = 1\<rparr>" rs_demo]
  by (simp add: sqlite3RowSetInit_def sqlite3DbMallocRawNN_def ROWSET_SORTED_def rs_demo_def)

section \<open>Extraction\<close>

fun rs_inserts :: "(nat \<Rightarrow> bool) \<Rightarrow> int list \<Rightarrow> rowset \<Rightarrow> dbmem \<Rightarrow> (rowset \<times> dbmem) option" where
  "rs_inserts oom [] p m = Some (p, m)"
| "rs_inserts oom (v # vs) p m = do { (p, m) \<leftarrow> sqlite3RowSetInsert oom p v m; rs_inserts oom vs p m }"

text \<open>The loop of a client that extracts rowids until there are none; the first argument bounds the calls.\<close>

fun rs_extract :: "nat \<Rightarrow> rowset \<Rightarrow> dbmem \<Rightarrow> (int list \<times> rowset \<times> dbmem) option" where
  "rs_extract 0 p m = None"
| "rs_extract (Suc n) p m = do {
     (v, p, m) \<leftarrow> sqlite3RowSetNext p m;
     (case v of None \<Rightarrow> Some ([], p, m)
      | Some v \<Rightarrow> do { (vs, p, m) \<leftarrow> rs_extract n p m; Some (v # vs, p, m) }) }"

lemma inserts_effect:
  assumes "\<forall>n. \<not> oom n"
  shows "accepts p \<Longrightarrow> owns h B p m \<Longrightarrow>
    \<exists>p' m'. rs_inserts oom vs p m = Some (p', m') \<and> accepts p' \<and> owns h B p' m' \<and> pForest p' = pForest p \<and>
      pEntry p' = pEntry p @ vs"
proof (induction vs arbitrary: p m)
  case (Cons v vs)
  obtain p1 m1 where "sqlite3RowSetInsert oom p v m = Some (p1, m1)" "accepts p1" "owns h B p1 m1"
    "pForest p1 = pForest p" "pEntry p1 = pEntry p @ [v]"
    using insert_effect [OF Cons.prems, of oom v] assms by blast
  then show ?case using Cons.IH [of p1 m1] by auto
qed simp

text \<open>Once extraction has begun, the entries come out as they stand and the last one clears the row set.\<close>

lemma extract_rest:
  "rsFlags p AND ROWSET_NEXT \<noteq> 0 \<Longrightarrow> pForest p = [] \<Longrightarrow> owns h B p m \<Longrightarrow> length (pEntry p) < n \<Longrightarrow>
   \<exists>p' m'. rs_extract n p m = Some (pEntry p, p', m') \<and> owns h B p' m' \<and> pEntry p' = []"
proof (induction "pEntry p" arbitrary: p n)
  case Nil
  then show ?case by (cases n) (auto simp: sqlite3RowSetNext_def)
next
  case (Cons v es)
  obtain k where n: "n = Suc k" using Cons.prems(4) by (cases n) auto
  show ?case
  proof (cases "es = []")
    case True
    have "owns h B (p\<lparr>pEntry := []\<rparr>) m" using Cons.prems(3) by (simp add: owns_def)
    from clear_frees [OF this] obtain p' m' where c: "sqlite3RowSetClear (p\<lparr>pEntry := []\<rparr>) m = Some (p', m')"
      "owns h B p' m'" "accepts p'" "pEntry p' = []" "pForest p' = []" "rsFlags p' = ROWSET_SORTED" by blast
    obtain j where j: "k = Suc j" using Cons.prems(4) Cons.hyps(2) [symmetric] n by (cases k) auto
    have "rs_extract k p' m' = Some ([], p'\<lparr>rsFlags := ROWSET_SORTED OR ROWSET_NEXT\<rparr>, m')"
      using c by (simp add: j sqlite3RowSetNext_def)
    then show ?thesis
      using Cons.prems Cons.hyps(2) [symmetric] n True c by (simp add: sqlite3RowSetNext_def owns_def)
  next
    case False
    let ?q = "p\<lparr>pEntry := es\<rparr>"
    have "sqlite3RowSetNext p m = Some (Some v, ?q, m)"
      using Cons.prems Cons.hyps(2) [symmetric] False by (simp add: sqlite3RowSetNext_def)
    then show ?thesis
      using Cons.hyps(1) [of ?q k] Cons.prems Cons.hyps(2) [symmetric] n by (auto simp: owns_def)
  qed
qed

lemma extract_all:
  assumes "accepts p" and "pForest p = []" and "owns h B p m" and "length (pEntry p) < n"
    and "length (pEntry p) < 2 ^ 40"
  shows "\<exists>p' m'. rs_extract n p m = Some (sorted_list_of_set (set (pEntry p)), p', m') \<and> owns h B p' m' \<and>
           pEntry p' = []"
proof -
  define es where "es = sorted_list_of_set (set (pEntry p))"
  let ?q = "p\<lparr>pEntry := es, rsFlags := ROWSET_SORTED OR ROWSET_NEXT\<rparr>"
  have flags: "rsFlags p AND ROWSET_NEXT = 0" "rsFlags p OR ROWSET_SORTED OR ROWSET_NEXT = ROWSET_SORTED OR ROWSET_NEXT"
    using assms(1) by (auto simp: accepts_def)
  have "sqlite3RowSetNext p m = sqlite3RowSetNext ?q m"
    using flags assms(2) accepts_sorted_entries [OF assms(1,5)] by (simp add: sqlite3RowSetNext_def es_def)
  then have "rs_extract n p m = rs_extract n ?q m" by (cases n) auto
  moreover have "length es \<le> length (pEntry p)"
    by (simp add: es_def card_length)
  moreover have "owns h B ?q m" using assms(3) by (simp add: owns_def)
  ultimately show ?thesis using extract_rest [of ?q h B m n] assms(2,4) by (simp add: es_def)
qed

lemma sorted_list_of_increasing: "increasing xs \<Longrightarrow> set vs = set xs \<Longrightarrow> sorted_list_of_set (set vs) = xs"
  by (simp add: strict_sorted_equal)

lemma rs_demo_values:
  "sorted_list_of_set (set [7, -2, 7, 9, -2 :: int]) = [-2, 7, 9]" "Suc (length [7, -2, 7, 9, -2 :: int]) = 6"
  by (rule sorted_list_of_increasing) auto

text \<open>
  Property C26: when fewer than 2^40 rowids, in any order and with repetitions, are inserted into a new row set and
  no allocation fails, extracting rowids until the row set reports that there are no more ends after at most one
  more call than there were insertions, and yields every rowid once, in increasing order. Deleting the row set
  gives back exactly the blocks it took.
\<close>
theorem rowset_extracts_sorted:
  assumes "sqlite3RowSetInit oom N m = (Some (h, p), m1)" and "\<forall>b \<in> blocks m. b < next_block m"
    and "\<forall>n. \<not> oom n" and "length vs < 2 ^ 40"
  shows "\<exists>p' m2 p'' m3 m4. rs_inserts oom vs p m1 = Some (p', m2) \<and>
           rs_extract (Suc (length vs)) p' m2 = Some (sorted_list_of_set (set vs), p'', m3) \<and>
           sqlite3RowSetDelete h p'' m3 = Some m4 \<and> blocks m4 = blocks m"
proof -
  note init = init_accepts [OF assms(1,2)]
  obtain p' m2 where ins: "rs_inserts oom vs p m1 = Some (p', m2)" "accepts p'" "owns h (blocks m) p' m2"
    "pForest p' = []" "pEntry p' = vs"
    using inserts_effect [OF assms(3) init(1,2), of vs] init by auto
  from extract_all [OF ins(2,4,3), of "Suc (length vs)"] ins(5) assms(4) obtain p'' m3
    where "rs_extract (Suc (length vs)) p' m2 = Some (sorted_list_of_set (set vs), p'', m3)"
      "owns h (blocks m) p'' m3" by auto
  with ins(1) delete_frees show ?thesis by blast
qed

text \<open>The witness: five insertions of three rowids, out of order.\<close>
theorem rowset_extracts_sorted_witness:
  "\<exists>p' m2 p'' m3 m4.
     rs_inserts (\<lambda>n. False) [7, -2, 7, 9, -2]
       \<lparr>pChunk = [], pEntry = [], pLast = None, pForest = [], nFresh = 0, rsFlags = 1, iBatch = 0\<rparr>
       \<lparr>blocks = {0}, next_block = 1\<rparr> = Some (p', m2) \<and>
     rs_extract 6 p' m2 = Some ([-2, 7, 9], p'', m3) \<and>
     sqlite3RowSetDelete 0 p'' m3 = Some m4 \<and> blocks m4 = {}"
  using rowset_extracts_sorted [of "\<lambda>n. False" 56 "\<lparr>blocks = {}, next_block = 0\<rparr>" 0
      "\<lparr>pChunk = [], pEntry = [], pLast = None, pForest = [], nFresh = 0, rsFlags = 1, iBatch = 0\<rparr>"
      "\<lparr>blocks = {0}, next_block = 1\<rparr>" "[7, -2, 7, 9, -2]", unfolded rs_demo_values]
  by (simp add: sqlite3RowSetInit_def sqlite3DbMallocRawNN_def ROWSET_SORTED_def
      del: rs_inserts.simps rs_extract.simps)

end
