(* ===== verification/Sqlite_Bitvec.thy ===== *)
theory Sqlite_Bitvec
  imports Prelude Sqlite_Codes
begin

text \<open>
  SQLite's bit vector (\<open>bitvec.c\<close> in \<open>sqlite3.c\<close>): a set of numbers between 1 and a fixed size. Small vectors are
  bitmaps, sparse large ones hash tables with linear probing, and a table that gets too full is divided into
  smaller vectors. A vector is a tree of objects; the alternative of the union is explicit, and reading the wrong
  one, an index out of range, a violated assertion and an endless probe are \<^term>\<open>None\<close>.
\<close>

section \<open>Constants\<close>

definition BITVEC_SZ :: nat where "BITVEC_SZ = 512"
definition BITVEC_USIZE :: nat where "BITVEC_USIZE = (BITVEC_SZ - 3 * 4) div 8 * 8"
definition BITVEC_SZELEM :: nat where "BITVEC_SZELEM = 8"
definition BITVEC_NELEM :: nat where "BITVEC_NELEM = BITVEC_USIZE div 1"
definition BITVEC_NBIT :: nat where "BITVEC_NBIT = BITVEC_NELEM * BITVEC_SZELEM"
definition BITVEC_NINT :: nat where "BITVEC_NINT = BITVEC_USIZE div 4"
definition BITVEC_MXHASH :: nat where "BITVEC_MXHASH = BITVEC_NINT div 2"
definition BITVEC_HASH :: "nat \<Rightarrow> nat" where "BITVEC_HASH x = x * 1 mod BITVEC_NINT"
definition BITVEC_NPTR :: nat where "BITVEC_NPTR = BITVEC_USIZE div 8"

lemma bitvec_sizes:
  "BITVEC_NELEM = 496" "BITVEC_NBIT = 3968" "BITVEC_NINT = 124" "BITVEC_MXHASH = 62" "BITVEC_NPTR = 62"
  by (simp_all add: BITVEC_SZ_def BITVEC_USIZE_def BITVEC_SZELEM_def BITVEC_NELEM_def BITVEC_NBIT_def
      BITVEC_NINT_def BITVEC_MXHASH_def BITVEC_NPTR_def)

section \<open>Objects\<close>

datatype bitvec = Bitvec (iSize: nat) (nSet: nat) (iDivisor: nat) (u: bv_union)
and bv_union = ABitmap "8 word list" | AHash "nat list" | ApSub "bitvec option list"

text \<open>The allocator: how many allocations were tried, and how many objects are live.\<close>

record bvmem =
  tries :: nat
  live :: nat

text \<open>The zeroed union is read as a bitmap or as a hash table, depending on the size.\<close>

definition zero_union :: "nat \<Rightarrow> bv_union" where
  "zero_union size' =
     (if size' \<le> BITVEC_NBIT then ABitmap (replicate BITVEC_NELEM 0) else AHash (replicate BITVEC_NINT 0))"

definition sqlite3BitvecCreate :: "(nat \<Rightarrow> bool) \<Rightarrow> nat \<Rightarrow> bvmem \<Rightarrow> bitvec option \<times> bvmem" where
  "sqlite3BitvecCreate oom size' m =
     (let k = tries m; m = m\<lparr>tries := Suc k\<rparr>
      in if oom k then (None, m) else (Some (Bitvec size' 0 0 (zero_union size')), m\<lparr>live := Suc (live m)\<rparr>))"

section \<open>Tests\<close>

text \<open>
  The probe loop for the value \<open>v\<close> at slot \<open>h\<close>: the slot that holds it, or the first empty slot. The first
  argument bounds the probes; a table has that many slots.
\<close>

fun probe :: "nat \<Rightarrow> nat list \<Rightarrow> nat \<Rightarrow> nat \<Rightarrow> (bool \<times> nat) option" where
  "probe 0 t v h = None"
| "probe (Suc n) t v h =
     (if length t \<le> h then None
      else if t ! h = 0 then Some (False, h)
      else if t ! h = v then Some (True, h)
      else probe n t v ((h + 1) mod BITVEC_NINT))"

lemma size_sub:
  assumes "u p = ApSub subs" and "bin < length subs" and "subs ! bin = Some q"
  shows "size q < size p"
proof -
  have "Some q \<in> set subs" using assms(2,3) by (metis nth_mem)
  then have "size_option size (Some q) \<le> size_list (size_option size) subs"
    by (intro size_list_estimation') auto
  then show ?thesis using assms(1) by (cases p) auto
qed

text \<open>The body of \<open>sqlite3BitvecTestNotNull\<close> after the range check, for the zero-based number \<open>i\<close>.\<close>

function bv_test :: "bitvec \<Rightarrow> nat \<Rightarrow> bool option" where
  "bv_test p i =
     (if iDivisor p \<noteq> 0 then
        (case u p of
           ApSub subs \<Rightarrow>
             let bin = i div iDivisor p; i = i mod iDivisor p
             in if length subs \<le> bin then None
                else (case subs ! bin of None \<Rightarrow> Some False | Some q \<Rightarrow> bv_test q i)
         | _ \<Rightarrow> None)
      else if iSize p \<le> BITVEC_NBIT then
        (case u p of
           ABitmap bm \<Rightarrow>
             if length bm \<le> i div BITVEC_SZELEM then None
             else Some (bm ! (i div BITVEC_SZELEM) AND push_bit (i mod BITVEC_SZELEM) 1 \<noteq> 0)
         | _ \<Rightarrow> None)
      else
        (case u p of
           AHash t \<Rightarrow> map_option fst (probe BITVEC_NINT t (i + 1) (BITVEC_HASH i))
         | _ \<Rightarrow> None))"
  by pat_completeness auto

termination
  by (relation "measure (size \<circ> fst)") (auto simp: not_le intro: size_sub)

declare bv_test.simps [simp del]

definition sqlite3BitvecTestNotNull :: "bitvec \<Rightarrow> nat \<Rightarrow> bool option" where
  "sqlite3BitvecTestNotNull p i =
     (let i = (i + 2 ^ 32 - 1) mod 2 ^ 32
      in if iSize p \<le> i then Some False else bv_test p i)"

definition sqlite3BitvecTest :: "bitvec option \<Rightarrow> nat \<Rightarrow> bool option" where
  "sqlite3BitvecTest p i = (case p of None \<Rightarrow> Some False | Some p \<Rightarrow> sqlite3BitvecTestNotNull p i)"

section \<open>Setting a bit\<close>

text \<open>The loop that inserts the values of a divided table, collecting the return codes.\<close>

fun set_values ::
  "(nat \<Rightarrow> bitvec \<Rightarrow> bvmem \<Rightarrow> (int \<times> bitvec \<times> bvmem) option) \<Rightarrow> nat list \<Rightarrow> int \<Rightarrow> bitvec \<Rightarrow> bvmem \<Rightarrow>
   (int \<times> bitvec \<times> bvmem) option"
where
  "set_values setter [] rc p m = Some (rc, p, m)"
| "set_values setter (v # vs) rc p m =
     (if v \<noteq> 0 then do { (rc', p, m) \<leftarrow> setter v p m; set_values setter vs (rc OR rc') p m }
      else set_values setter vs rc p m)"

text \<open>
  The body of \<open>sqlite3BitvecSet\<close> after the assertions, for the zero-based number \<open>i\<close>. The first argument bounds
  the descent and the recursive calls.
\<close>

fun bv_set :: "nat \<Rightarrow> (nat \<Rightarrow> bool) \<Rightarrow> bitvec \<Rightarrow> nat \<Rightarrow> bvmem \<Rightarrow> (int \<times> bitvec \<times> bvmem) option" where
  "bv_set 0 oom p i m = None"
| "bv_set (Suc n) oom p i m =
     (if BITVEC_NBIT < iSize p \<and> iDivisor p \<noteq> 0 then
        (case u p of
           ApSub subs \<Rightarrow>
             let bin = i div iDivisor p; i = i mod iDivisor p
             in if length subs \<le> bin then None
                else
                  (case (case subs ! bin of Some q \<Rightarrow> (Some q, m)
                         | None \<Rightarrow> sqlite3BitvecCreate oom (iDivisor p) m) of
                     (None, m) \<Rightarrow> Some (SQLITE_NOMEM, p, m)
                   | (Some q, m) \<Rightarrow> do {
                       (rc, q, m) \<leftarrow> bv_set n oom q i m;
                       Some (rc, Bitvec (iSize p) (nSet p) (iDivisor p) (ApSub (subs[bin := Some q])), m) })
         | _ \<Rightarrow> None)
      else if iSize p \<le> BITVEC_NBIT then
        (case u p of
           ABitmap bm \<Rightarrow>
             let k = i div BITVEC_SZELEM
             in if length bm \<le> k then None
                else Some (SQLITE_OK, Bitvec (iSize p) (nSet p) (iDivisor p)
                       (ABitmap (bm[k := bm ! k OR push_bit (i mod BITVEC_SZELEM) 1])), m)
         | _ \<Rightarrow> None)
      else
        (case u p of
           AHash t \<Rightarrow> do {
             let h = BITVEC_HASH i;
             let i = i + 1;
             (found, h') \<leftarrow> probe BITVEC_NINT t i h;
             if found then Some (SQLITE_OK, p, m)
             else if (if h' = h then BITVEC_NINT - 1 \<le> nSet p \<and> BITVEC_MXHASH \<le> nSet p else BITVEC_MXHASH \<le> nSet p) then
               if oom (tries m) then Some (SQLITE_NOMEM, p, m\<lparr>tries := Suc (tries m)\<rparr>)
               else do {
                 let m = m\<lparr>tries := Suc (tries m)\<rparr>;
                 let setter = (\<lambda>v p m. if 0 < v \<and> v \<le> iSize p then bv_set n oom p (v - 1) m else None);
                 let p = Bitvec (iSize p) (nSet p) ((iSize p + BITVEC_NPTR - 1) div BITVEC_NPTR)
                   (ApSub (replicate BITVEC_NPTR None));
                 (rc, p, m) \<leftarrow> setter i p m;
                 set_values setter t rc p m }
             else Some (SQLITE_OK, Bitvec (iSize p) (nSet p + 1) (iDivisor p) (AHash (t[h' := i])), m) }
         | _ \<Rightarrow> None))"

definition sqlite3BitvecSet ::
  "(nat \<Rightarrow> bool) \<Rightarrow> bitvec option \<Rightarrow> nat \<Rightarrow> bvmem \<Rightarrow> (int \<times> bitvec option \<times> bvmem) option" where
  "sqlite3BitvecSet oom p i m =
     (case p of None \<Rightarrow> Some (SQLITE_OK, None, m)
      | Some p \<Rightarrow>
          if \<not> (0 < i \<and> i \<le> iSize p) then None
          else do { (rc, p, m) \<leftarrow> bv_set 9 oom p (i - 1) m; Some (rc, Some p, m) })"

section \<open>Clearing a bit\<close>

text \<open>The loop that rebuilds a table without the value \<open>v\<close>: the new table and its number of values.\<close>

fun rebuild :: "nat \<Rightarrow> nat list \<Rightarrow> nat list \<Rightarrow> nat \<Rightarrow> (nat list \<times> nat) option" where
  "rebuild v [] t n = Some (t, n)"
| "rebuild v (x # xs) t n =
     (if x \<noteq> 0 \<and> x \<noteq> v then do {
        (found, h) \<leftarrow> probe BITVEC_NINT t 0 (BITVEC_HASH (x - 1));
        rebuild v xs (t[h := x]) (n + 1) }
      else rebuild v xs t n)"

function bv_clear :: "bitvec \<Rightarrow> nat \<Rightarrow> bitvec option" where
  "bv_clear p i =
     (if iDivisor p \<noteq> 0 then
        (case u p of
           ApSub subs \<Rightarrow>
             let bin = i div iDivisor p; i = i mod iDivisor p
             in if length subs \<le> bin then None
                else (case subs ! bin of None \<Rightarrow> Some p
                      | Some q \<Rightarrow> do {
                          q \<leftarrow> bv_clear q i;
                          Some (Bitvec (iSize p) (nSet p) (iDivisor p) (ApSub (subs[bin := Some q]))) })
         | _ \<Rightarrow> None)
      else if iSize p \<le> BITVEC_NBIT then
        (case u p of
           ABitmap bm \<Rightarrow>
             let k = i div BITVEC_SZELEM
             in if length bm \<le> k then None
                else Some (Bitvec (iSize p) (nSet p) (iDivisor p)
                       (ABitmap (bm[k := bm ! k AND NOT (push_bit (i mod BITVEC_SZELEM) 1)])))
         | _ \<Rightarrow> None)
      else
        (case u p of
           AHash t \<Rightarrow> do {
             (t, n) \<leftarrow> rebuild (i + 1) t (replicate BITVEC_NINT 0) 0;
             Some (Bitvec (iSize p) n (iDivisor p) (AHash t)) }
         | _ \<Rightarrow> None))"
  by pat_completeness auto

termination
  by (relation "measure (size \<circ> fst)") (auto simp: not_le intro: size_sub)

declare bv_clear.simps [simp del]

definition sqlite3BitvecClear :: "bitvec option \<Rightarrow> nat \<Rightarrow> bitvec option option" where
  "sqlite3BitvecClear p i =
     (case p of None \<Rightarrow> Some None
      | Some p \<Rightarrow> if i = 0 then None else map_option Some (bv_clear p (i - 1)))"

section \<open>Destruction and size\<close>

text \<open>The number of objects freed.\<close>

primrec bv_destroy :: "bitvec \<Rightarrow> nat" and union_destroy :: "nat \<Rightarrow> bv_union \<Rightarrow> nat" where
  "bv_destroy (Bitvec s n d w) = union_destroy d w + 1"
| "union_destroy d (ABitmap bm) = 0"
| "union_destroy d (AHash t) = 0"
| "union_destroy d (ApSub subs) =
     (if d \<noteq> 0 then sum_list (map (\<lambda>x. case x of None \<Rightarrow> 0 | Some k \<Rightarrow> k) (map (map_option bv_destroy) subs)) else 0)"

definition sqlite3BitvecDestroy :: "bitvec option \<Rightarrow> bvmem \<Rightarrow> bvmem" where
  "sqlite3BitvecDestroy p m = (case p of None \<Rightarrow> m | Some p \<Rightarrow> m\<lparr>live := live m - bv_destroy p\<rparr>)"

definition sqlite3BitvecSize :: "bitvec \<Rightarrow> nat" where
  "sqlite3BitvecSize p = iSize p"

end
