(* ===== verification/Sqlite_Bitvec_Spec.thy ===== *)
theory Sqlite_Bitvec_Spec
  imports Sqlite_Bitvec
begin

text \<open>
  What a bit vector promises: it behaves like a set of numbers under any sequence of settings, clearings and
  tests, through all three representations and the divisions of full hash tables.
\<close>

section \<open>Linear probing\<close>

lemma probe_least:
  assumes "length t = BITVEC_NINT"
  shows "h < BITVEC_NINT \<Longrightarrow> \<exists>j < n. t ! ((h + j) mod BITVEC_NINT) \<in> {0, v} \<Longrightarrow>
    \<exists>k < n. (\<forall>j < k. t ! ((h + j) mod BITVEC_NINT) \<notin> {0, v}) \<and> t ! ((h + k) mod BITVEC_NINT) \<in> {0, v} \<and>
      probe n t v h = Some (t ! ((h + k) mod BITVEC_NINT) \<noteq> 0, (h + k) mod BITVEC_NINT)"
proof (induction n arbitrary: h)
  case (Suc n)
  show ?case
  proof (cases "t ! h \<in> {0, v}")
    case True
    then show ?thesis using Suc.prems(1) assms by (intro exI [of _ 0]) auto
  next
    case False
    let ?h = "(h + 1) mod BITVEC_NINT"
    have adv: "(?h + j) mod BITVEC_NINT = (h + Suc j) mod BITVEC_NINT" for j by (simp add: mod_simps)
    from Suc.prems(2) obtain j where j: "j < Suc n" "t ! ((h + j) mod BITVEC_NINT) \<in> {0, v}" by blast
    then obtain j' where "j = Suc j'" using False Suc.prems(1) by (cases j) auto
    then have "\<exists>j < n. t ! ((?h + j) mod BITVEC_NINT) \<in> {0, v}" using j adv by auto
    moreover have "?h < BITVEC_NINT" by (simp add: bitvec_sizes)
    ultimately obtain k where k: "k < n" "\<forall>j < k. t ! ((?h + j) mod BITVEC_NINT) \<notin> {0, v}"
      "t ! ((?h + k) mod BITVEC_NINT) \<in> {0, v}"
      "probe n t v ?h = Some (t ! ((?h + k) mod BITVEC_NINT) \<noteq> 0, (?h + k) mod BITVEC_NINT)"
      using Suc.IH [of ?h] by blast
    have "\<forall>j < Suc k. t ! ((h + j) mod BITVEC_NINT) \<notin> {0, v}"
      using k(2) False Suc.prems(1) unfolding adv by (auto simp: less_Suc_eq_0_disj)
    then show ?thesis
      using k False Suc.prems(1) assms unfolding adv by (intro exI [of _ "Suc k"]) auto
  qed
qed simp

lemma probe_reaches: "h < BITVEC_NINT \<Longrightarrow> s < BITVEC_NINT \<Longrightarrow> \<exists>j < BITVEC_NINT. (h + j) mod BITVEC_NINT = s"
  by (rule exI [of _ "(s + BITVEC_NINT - h) mod BITVEC_NINT"]) (auto simp: bitvec_sizes mod_simps)

text \<open>Where the \<open>k\<close>th probe for a value looks, and the invariant of a table.\<close>

definition slot :: "nat \<Rightarrow> nat \<Rightarrow> nat" where
  "slot v k = (v - 1 + k) mod BITVEC_NINT"

definition reach :: "nat list \<Rightarrow> nat \<Rightarrow> nat \<Rightarrow> bool" where
  "reach t v k \<longleftrightarrow> (\<forall>j < k. t ! slot v j \<notin> {0, v})"

definition table_ok :: "nat list \<Rightarrow> bool" where
  "table_ok t \<longleftrightarrow> length t = BITVEC_NINT \<and> 0 \<in> set t \<and>
     (\<forall>h < BITVEC_NINT. t ! h \<noteq> 0 \<longrightarrow> (\<exists>k < BITVEC_NINT. h = slot (t ! h) k \<and> reach t (t ! h) k))"

abbreviation used :: "nat list \<Rightarrow> nat" where
  "used t \<equiv> length (filter (\<lambda>x. x \<noteq> 0) t)"

lemma slot_less [simp]: "slot v k < BITVEC_NINT"
  by (simp add: slot_def bitvec_sizes)

lemma HASH_slot: "BITVEC_HASH i = slot (i + 1) 0"
  by (simp add: BITVEC_HASH_def slot_def)

lemma slot_shift: "(slot v 0 + k) mod BITVEC_NINT = slot v k"
  by (simp add: slot_def mod_simps)

lemma probe_table:
  assumes "length t = BITVEC_NINT" and "0 \<in> set t"
  shows "\<exists>k < BITVEC_NINT. (\<forall>j < k. t ! slot v j \<notin> {0, w}) \<and> t ! slot v k \<in> {0, w} \<and>
           probe BITVEC_NINT t w (slot v 0) = Some (t ! slot v k \<noteq> 0, slot v k)"
proof -
  obtain s where "s < BITVEC_NINT" "t ! s = 0" using assms by (metis in_set_conv_nth)
  then have "\<exists>j < BITVEC_NINT. t ! ((slot v 0 + j) mod BITVEC_NINT) \<in> {0, w}"
    using probe_reaches [of "slot v 0" s] by auto
  from probe_least [OF assms(1) slot_less this] show ?thesis unfolding slot_shift .
qed

lemma probe_found:
  assumes "table_ok t" and "v \<noteq> 0"
  shows "\<exists>k < BITVEC_NINT. probe BITVEC_NINT t v (slot v 0) = Some (v \<in> set t, slot v k) \<and>
           (v \<notin> set t \<longrightarrow> t ! slot v k = 0 \<and> reach t v k)"
proof -
  have len: "length t = BITVEC_NINT" and "0 \<in> set t" using assms(1) by (auto simp: table_ok_def)
  then obtain k where k: "k < BITVEC_NINT" "\<forall>j < k. t ! slot v j \<notin> {0, v}" "t ! slot v k \<in> {0, v}"
    "probe BITVEC_NINT t v (slot v 0) = Some (t ! slot v k \<noteq> 0, slot v k)" using probe_table [of t v v] by blast
  have "t ! slot v k \<noteq> 0" if "v \<in> set t"
  proof -
    obtain s where s: "s < BITVEC_NINT" "t ! s = v" using \<open>v \<in> set t\<close> len by (metis in_set_conv_nth)
    then obtain k0 where k0: "s = slot v k0" "reach t v k0" using assms by (auto simp: table_ok_def)
    then have "\<not> k < k0" "\<not> k0 < k" using k(2,3) s(2) by (auto simp: reach_def)
    then show ?thesis using s k0 assms(2) by (metis linorder_neqE_nat)
  qed
  moreover have "v \<in> set t" if "t ! slot v k \<noteq> 0" using that k(3) len nth_mem [of "slot v k" t] by auto
  ultimately have "(t ! slot v k \<noteq> 0) = (v \<in> set t)" by blast
  then show ?thesis using k by (intro exI [of _ k]) (auto simp: reach_def)
qed

lemma used_less: "used t < length t \<longleftrightarrow> 0 \<in> set t"
  by (induction t) (auto simp: less_Suc_eq_le)

lemma used_update: "h < length t \<Longrightarrow> t ! h = 0 \<Longrightarrow> v \<noteq> 0 \<Longrightarrow> used (t[h := v]) = Suc (used t)"
  by (induction t arbitrary: h) (auto split: nat.splits)

lemma table_insert:
  assumes "table_ok t" and "v \<notin> set t" and "v \<noteq> 0" and "t ! slot v k = 0" and "reach t v k" and "k < BITVEC_NINT"
    and "Suc (used t) < BITVEC_NINT"
  shows "table_ok (t[slot v k := v])" and "set (t[slot v k := v]) = insert v (set t)"
    and "used (t[slot v k := v]) = Suc (used t)"
proof -
  let ?t = "t[slot v k := v]"
  have len: "length t = BITVEC_NINT" using assms(1) by (simp add: table_ok_def)
  show used: "used ?t = Suc (used t)" using used_update assms(3,4) len by auto
  then have zero: "0 \<in> set ?t" using assms(7) len used_less [of ?t] by simp
  show "set ?t = insert v (set t)"
  proof
    show "insert v (set t) \<subseteq> set ?t"
    proof
      fix x assume x: "x \<in> insert v (set t)"
      show "x \<in> set ?t"
      proof (cases "x = v \<or> x = 0")
        case True
        then show ?thesis using zero set_update_memI [of "slot v k" t v] len by auto
      next
        case False
        then obtain h where "h < length t" "t ! h = x" using x by (auto simp: in_set_conv_nth)
        then show ?thesis using False assms(4) by (metis length_list_update nth_list_update_neq nth_mem)
      qed
    qed
  qed (rule set_update_subset_insert)
  have "\<exists>k' < BITVEC_NINT. h = slot (?t ! h) k' \<and> reach ?t (?t ! h) k'" if h: "h < BITVEC_NINT" "?t ! h \<noteq> 0" for h
  proof (cases "h = slot v k")
    case True
    have "slot v j \<noteq> slot v k" if "j < k" for j using that assms(4,5) by (metis insertI1 reach_def)
    then have "?t ! slot v j = t ! slot v j" if "j < k" for j using that by (metis nth_list_update_neq)
    then have "reach ?t v k" using assms(5) by (simp add: reach_def)
    then show ?thesis using True assms(6) len by auto
  next
    case False
    then have "?t ! h = t ! h" by simp
    moreover have "t ! h \<noteq> v" using assms(2) h(1) len by auto
    moreover obtain k' where "k' < BITVEC_NINT" "h = slot (t ! h) k'" "reach t (t ! h) k'"
      using assms(1) h \<open>?t ! h = t ! h\<close> by (auto simp: table_ok_def)
    ultimately show ?thesis
      using assms(3) len by (intro exI [of _ k']) (auto simp: reach_def nth_list_update)
  qed
  then show "table_ok ?t" using len zero by (auto simp: table_ok_def)
qed

lemma table_distinct:
  assumes "table_ok t"
  shows "distinct (filter (\<lambda>x. x \<noteq> 0) t)"
proof -
  have home: "\<exists>k. h = slot (t ! h) k \<and> reach t (t ! h) k" if "h < length t" "t ! h \<noteq> 0" for h
    using assms that by (auto simp: table_ok_def)
  have inj: "i = j" if ij: "i < length t" "j < length t" "t ! i = t ! j" "t ! i \<noteq> 0" for i j
  proof -
    obtain v where v: "t ! i = v" "t ! j = v" "v \<noteq> 0" using ij by metis
    obtain a where a: "i = slot v a" "reach t v a" using home [of i] ij(1) v unfolding v by blast
    obtain b where b: "j = slot v b" "reach t v b" using home [of j] ij(2) v unfolding v by blast
    have "t ! slot v a = v" "t ! slot v b = v" unfolding a(1) [symmetric] b(1) [symmetric] by (rule v(1), rule v(2))
    then have "\<not> a < b" "\<not> b < a" using a(2) b(2) by (auto simp: reach_def)
    then show ?thesis using a(1) b(1) by simp
  qed
  have "distinct (filter (\<lambda>x. x \<noteq> 0) xs)"
    if "\<And>i j. i < length xs \<Longrightarrow> j < length xs \<Longrightarrow> xs ! i = xs ! j \<Longrightarrow> xs ! i \<noteq> 0 \<Longrightarrow> i = j" for xs :: "nat list"
    using that
  proof (induction xs)
    case (Cons x xs)
    have "x \<notin> set xs" if "x \<noteq> 0"
      using Cons.prems [of 0 "Suc i" for i] that by (fastforce simp: in_set_conv_nth)
    moreover have "distinct (filter (\<lambda>x. x \<noteq> 0) xs)"
      using Cons.prems [of "Suc i" "Suc j" for i j] by (intro Cons.IH) auto
    ultimately show ?case by auto
  qed simp
  from this [OF inj] show ?thesis .
qed

lemma rebuild_table:
  assumes "length t = BITVEC_NINT"
  shows "table_ok t \<Longrightarrow> distinct (filter (\<lambda>x. x \<noteq> 0) xs) \<Longrightarrow> (\<forall>x \<in> set xs. x \<noteq> 0 \<longrightarrow> x \<notin> set t) \<Longrightarrow>
    n = used t \<Longrightarrow> used xs + used t < BITVEC_NINT \<Longrightarrow>
    \<exists>t'. rebuild v xs t n = Some (t', used t') \<and> table_ok t' \<and> set t' - {0} = (set t - {0}) \<union> (set xs - {0, v}) \<and>
      used t' \<le> used xs + used t"
  using assms
proof (induction v xs t n rule: rebuild.induct)
  case (2 v x xs t n)
  show ?case
  proof (cases "x \<noteq> 0 \<and> x \<noteq> v")
    case True
    have zero: "0 \<in> set t" using "2.prems"(1) by (simp add: table_ok_def)
    obtain k where k: "k < BITVEC_NINT" "\<forall>j < k. t ! slot x j \<notin> {0, 0}" "t ! slot x k \<in> {0, 0}"
      "probe BITVEC_NINT t 0 (slot x 0) = Some (t ! slot x k \<noteq> 0, slot x k)"
      using probe_table [OF "2.prems"(6) zero, of x 0] by blast
    have x: "x \<notin> set t" "x \<noteq> 0" using "2.prems"(3) True by auto
    have "reach t x k"
      unfolding reach_def using k(2) x "2.prems"(6) by (metis insert_iff nth_mem singletonD slot_less)
    then have ins: "table_ok (t[slot x k := x])" "set (t[slot x k := x]) = insert x (set t)"
      "used (t[slot x k := x]) = Suc (used t)"
      using table_insert [OF "2.prems"(1) x _ _ k(1)] k(3) "2.prems"(5) True by auto
    have "BITVEC_HASH (x - 1) = slot x 0" using True by (simp add: HASH_slot)
    then have step: "rebuild v (x # xs) t n = rebuild v xs (t[slot x k := x]) (n + 1)" using True k(4) by simp
    have "\<exists>t'. rebuild v xs (t[slot x k := x]) (n + 1) = Some (t', used t') \<and> table_ok t' \<and>
        set t' - {0} = (set (t[slot x k := x]) - {0}) \<union> (set xs - {0, v}) \<and>
        used t' \<le> used xs + used (t[slot x k := x])"
      by (rule "2.IH"(1) [of "(False, slot x k)" False "slot x k"])
        (use "2.prems" True ins k x \<open>BITVEC_HASH (x - 1) = slot x 0\<close> in auto)
    then show ?thesis unfolding step using ins True by auto
  next
    case False
    have "\<exists>t'. rebuild v xs t n = Some (t', used t') \<and> table_ok t' \<and>
        set t' - {0} = (set t - {0}) \<union> (set xs - {0, v}) \<and> used t' \<le> used xs + used t"
      by (rule "2.IH"(2)) (use "2.prems" False in \<open>auto split: if_splits\<close>)
    then show ?thesis using False by auto
  qed
qed auto

lemma empty_table: "table_ok (replicate BITVEC_NINT 0)"
  by (simp add: table_ok_def bitvec_sizes)

section \<open>The invariant of a vector\<close>

definition divisor :: "nat \<Rightarrow> nat" where
  "divisor s = (s + BITVEC_NPTR - 1) div BITVEC_NPTR"

inductive bv_ok :: "bitvec \<Rightarrow> bool" where
  bitmap: "s \<le> BITVEC_NBIT \<Longrightarrow> length bm = BITVEC_NELEM \<Longrightarrow> bv_ok (Bitvec s n 0 (ABitmap bm))"
| hash: "BITVEC_NBIT < s \<Longrightarrow> table_ok t \<Longrightarrow> set t \<subseteq> {0..s} \<Longrightarrow> n = used t \<Longrightarrow> bv_ok (Bitvec s n 0 (AHash t))"
| subs: "BITVEC_NBIT < s \<Longrightarrow> length subs = BITVEC_NPTR \<Longrightarrow>
    (\<And>q. Some q \<in> set subs \<Longrightarrow> bv_ok q \<and> iSize q = divisor s) \<Longrightarrow> bv_ok (Bitvec s n (divisor s) (ApSub subs))"

abbreviation parts_ok :: "nat \<Rightarrow> bitvec option list \<Rightarrow> bool" where
  "parts_ok s ps \<equiv> \<forall>q. Some q \<in> set ps \<longrightarrow> bv_ok q \<and> iSize q = divisor s"

lemma divisor_facts:
  assumes "BITVEC_NBIT < s"
  shows "0 < divisor s" and "i < s \<Longrightarrow> i div divisor s < BITVEC_NPTR" and "i mod divisor s < divisor s"
proof -
  show "0 < divisor s" using assms by (simp add: divisor_def bitvec_sizes div_greater_zero_iff)
  then show "i mod divisor s < divisor s" by simp
  have "s \<le> BITVEC_NPTR * divisor s" by (simp add: divisor_def bitvec_sizes)
  then show "i < s \<Longrightarrow> i div divisor s < BITVEC_NPTR"
    using \<open>0 < divisor s\<close> by (simp add: less_mult_imp_div_less mult.commute)
qed

definition bits :: "bitvec \<Rightarrow> nat set" where
  "bits p = {i. i < iSize p \<and> bv_test p i = Some True}"

lemma byte_test: "(x :: 8 word) AND 2 ^ k = 0 \<longleftrightarrow> \<not> bit x k"
  by (simp add: and_exp_eq_0_iff_not_bit)

lemma byte_index: "i < BITVEC_NBIT \<Longrightarrow> i div 8 < BITVEC_NELEM"
  by (simp add: bitvec_sizes less_mult_imp_div_less)

lemma test_bitmap:
  "s \<le> BITVEC_NBIT \<Longrightarrow> length bm = BITVEC_NELEM \<Longrightarrow> i < BITVEC_NBIT \<Longrightarrow>
   bv_test (Bitvec s n 0 (ABitmap bm)) i = Some (bit (bm ! (i div 8)) (i mod 8))"
  using byte_index [of i] by (subst bv_test.simps) (simp add: BITVEC_SZELEM_def byte_test)

lemma test_hash:
  "BITVEC_NBIT < s \<Longrightarrow> table_ok t \<Longrightarrow> bv_test (Bitvec s n 0 (AHash t)) i = Some (i + 1 \<in> set t)"
  using probe_found [of t "i + 1"] by (subst bv_test.simps) (auto simp: HASH_slot)

lemma test_subs:
  "BITVEC_NBIT < s \<Longrightarrow> length subs = BITVEC_NPTR \<Longrightarrow> i < s \<Longrightarrow>
   bv_test (Bitvec s n (divisor s) (ApSub subs)) i =
     (case subs ! (i div divisor s) of None \<Rightarrow> Some False | Some q \<Rightarrow> bv_test q (i mod divisor s))"
  using divisor_facts(1) [of s] divisor_facts(2) [of s i] by (subst bv_test.simps) (simp add: Let_def)

lemma test_total: "bv_ok p \<Longrightarrow> i < iSize p \<Longrightarrow> bv_test p i = Some (i \<in> bits p)"
proof -
  assume "bv_ok p" "i < iSize p"
  then have "bv_test p i \<noteq> None"
  proof (induction p arbitrary: i rule: bv_ok.induct)
    case (subs s subs n)
    show ?case
    proof (cases "subs ! (i div divisor s)")
      case None
      then show ?thesis using subs test_subs [of s subs i n] by simp
    next
      case (Some q)
      then have "Some q \<in> set subs" using divisor_facts(2) [of s i] subs by (metis bitvec.sel(1) nth_mem)
      then show ?thesis using subs test_subs [of s subs i n] Some divisor_facts(3) [of s i] by simp
    qed
  qed (use test_bitmap test_hash in \<open>auto simp: less_le_trans\<close>)
  then show ?thesis using \<open>i < iSize p\<close> by (auto simp: bits_def)
qed

lemma bits_bitmap:
  "s \<le> BITVEC_NBIT \<Longrightarrow> length bm = BITVEC_NELEM \<Longrightarrow>
   bits (Bitvec s n 0 (ABitmap bm)) = {i. i < s \<and> bit (bm ! (i div 8)) (i mod 8)}"
  by (auto simp: bits_def test_bitmap)

lemma bits_hash: "BITVEC_NBIT < s \<Longrightarrow> table_ok t \<Longrightarrow> bits (Bitvec s n 0 (AHash t)) = {i. i < s \<and> i + 1 \<in> set t}"
  by (auto simp: bits_def test_hash)

lemma bits_subs:
  assumes "BITVEC_NBIT < s" and "length subs = BITVEC_NPTR"
    and "parts_ok s subs"
  shows "bits (Bitvec s n (divisor s) (ApSub subs)) =
    {i. i < s \<and> (\<exists>q. subs ! (i div divisor s) = Some q \<and> i mod divisor s \<in> bits q)}"
proof -
  have "bv_test (Bitvec s n (divisor s) (ApSub subs)) i = Some True \<longleftrightarrow>
      (\<exists>q. subs ! (i div divisor s) = Some q \<and> i mod divisor s \<in> bits q)" if "i < s" for i
  proof (cases "subs ! (i div divisor s)")
    case (Some q)
    then have "Some q \<in> set subs" using divisor_facts(2) [OF assms(1) that] assms(2) by (metis nth_mem)
    then have "bv_ok q" "iSize q = divisor s" using assms(3) by auto
    then have "bv_test q (i mod divisor s) = Some (i mod divisor s \<in> bits q)"
      using divisor_facts(3) [OF assms(1)] by (simp add: test_total)
    then show ?thesis using Some test_subs [OF assms(1,2) that] by simp
  qed (use test_subs [OF assms(1,2) that] in simp)
  then show ?thesis by (auto simp: bits_def)
qed

lemma new_vector:
  assumes "sqlite3BitvecCreate oom s m = (Some p, m')"
  shows "bv_ok p" and "iSize p = s" and "bits p = {}" and "iDivisor p = 0" and "bv_destroy p = 1"
    and "live m' = Suc (live m)"
proof -
  have p: "p = Bitvec s 0 0 (zero_union s)" "live m' = Suc (live m)"
    using assms by (auto simp: sqlite3BitvecCreate_def Let_def split: if_splits)
  show "live m' = Suc (live m)" "iSize p = s" "iDivisor p = 0" using p by simp_all
  show "bv_ok p"
    using empty_table by (auto simp: p zero_union_def not_le intro!: bv_ok.bitmap bv_ok.hash)
  show "bits p = {}"
    using bits_hash [OF _ empty_table] by (auto simp: p zero_union_def bits_bitmap bits_hash [OF _ empty_table] not_le
        bitvec_sizes less_mult_imp_div_less)
  show "bv_destroy p = 1" by (simp add: p zero_union_def)
qed

lemma destroy_subs: "d \<noteq> 0 \<Longrightarrow>
   bv_destroy (Bitvec s n d (ApSub subs)) = sum_list (map (\<lambda>x. case x of None \<Rightarrow> 0 | Some q \<Rightarrow> bv_destroy q) subs) + 1"
proof -
  have "map (\<lambda>x. case x of None \<Rightarrow> 0 | Some k \<Rightarrow> k) (map (map_option bv_destroy) subs) =
      map (\<lambda>x. case x of None \<Rightarrow> 0 | Some q \<Rightarrow> bv_destroy q) subs"
    by (auto simp: option.case_eq_if option.map_sel)
  then show "d \<noteq> 0 \<Longrightarrow> ?thesis" by (simp only: bv_destroy.simps union_destroy.simps if_True simp_thms)
qed

text \<open>Replacing one of the smaller vectors.\<close>

lemma replace_sub:
  assumes "BITVEC_NBIT < s" and "length subs = BITVEC_NPTR"
    and ok: "parts_ok s subs"
    and b: "b < BITVEC_NPTR" and q: "bv_ok q" "iSize q = divisor s"
  shows "bv_ok (Bitvec s n (divisor s) (ApSub (subs[b := Some q])))"
    and "bits (Bitvec s n (divisor s) (ApSub (subs[b := Some q]))) =
      {i. i < s \<and> (if i div divisor s = b then i mod divisor s \<in> bits q
                   else i \<in> bits (Bitvec s n (divisor s) (ApSub subs)))}"
    and "bv_destroy (Bitvec s n (divisor s) (ApSub (subs[b := Some q]))) +
        (case subs ! b of None \<Rightarrow> 0 | Some q' \<Rightarrow> bv_destroy q') =
      bv_destroy (Bitvec s n (divisor s) (ApSub subs)) + bv_destroy q"
proof -
  have ok': "parts_ok s (subs[b := Some q])"
    using set_update_subset_insert [of subs b "Some q"] q ok by blast
  show "bv_ok (Bitvec s n (divisor s) (ApSub (subs[b := Some q])))"
    using assms(1,2) ok' by (intro bv_ok.subs) auto
  show "bits (Bitvec s n (divisor s) (ApSub (subs[b := Some q]))) =
      {i. i < s \<and> (if i div divisor s = b then i mod divisor s \<in> bits q
                   else i \<in> bits (Bitvec s n (divisor s) (ApSub subs)))}"
    using assms(1,2) b ok ok' by (subst bits_subs, auto simp: bits_subs nth_list_update)
  let ?f = "\<lambda>x. case x of None \<Rightarrow> 0 | Some q \<Rightarrow> bv_destroy q"
  have "?f (subs ! b) \<le> sum_list (map ?f subs)"
    using b assms(2) by (intro member_le_sum_list) auto
  moreover have "sum_list (map ?f (subs[b := Some q])) = sum_list (map ?f subs) + ?f (Some q) - ?f (subs ! b)"
    using b assms(2) by (simp add: map_update sum_list_update)
  ultimately show "bv_destroy (Bitvec s n (divisor s) (ApSub (subs[b := Some q]))) + ?f (subs ! b) =
      bv_destroy (Bitvec s n (divisor s) (ApSub subs)) + bv_destroy q"
    using divisor_facts(1) [OF assms(1)] by (simp add: destroy_subs del: bv_destroy.simps)
qed

section \<open>Setting and clearing\<close>

definition set_effect ::
  "(nat \<Rightarrow> bool) \<Rightarrow> nat set \<Rightarrow> bitvec \<Rightarrow> bvmem \<Rightarrow> int \<Rightarrow> bitvec \<Rightarrow> bvmem \<Rightarrow> bool" where
  "set_effect oom I p m rc p' m' \<longleftrightarrow>
     bv_ok p' \<and> iSize p' = iSize p \<and> (iDivisor p \<noteq> 0 \<longrightarrow> iDivisor p' \<noteq> 0) \<and> bits p' \<subseteq> bits p \<union> I \<and>
     (rc = 0 \<longrightarrow> bits p' = bits p \<union> I) \<and> ((\<forall>k. \<not> oom k) \<longrightarrow> rc = 0) \<and>
     live m' + bv_destroy p = live m + bv_destroy p'"

lemma set_effect_trans:
  "set_effect oom I p m rc p' m' \<Longrightarrow> set_effect oom J p' m' rc' p'' m'' \<Longrightarrow>
   set_effect oom (I \<union> J) p m (rc OR rc') p'' m''"
  by (auto simp: set_effect_def or_eq_0_iff)

lemma set_values_effect:
  assumes "\<And>v q m. v \<in> set vs \<Longrightarrow> v \<noteq> 0 \<Longrightarrow> bv_ok q \<Longrightarrow> iSize q = s \<Longrightarrow> iDivisor q \<noteq> 0 \<Longrightarrow>
      \<exists>rc q' m'. setter v q m = Some (rc, q', m') \<and> set_effect oom {v - 1} q m rc q' m'"
    and "bv_ok p" and "iSize p = s" and "iDivisor p \<noteq> 0"
  shows "\<exists>rc p' m'. set_values setter vs acc p m = Some (acc OR rc, p', m') \<and>
           set_effect oom ((\<lambda>v. v - 1) ` (set vs - {0})) p m rc p' m'"
  using assms
proof (induction vs arbitrary: acc p m)
  case Nil
  then show ?case by (intro exI [of _ 0]) (auto simp: set_effect_def)
next
  case (Cons v vs)
  show ?case
  proof (cases "v = 0")
    case True
    then show ?thesis using Cons.IH [of p acc m] Cons.prems by auto
  next
    case False
    obtain rc q m1 where q: "setter v p m = Some (rc, q, m1)" "set_effect oom {v - 1} p m rc q m1"
      using Cons.prems False by (metis list.set_intros(1))
    then have "bv_ok q" "iSize q = s" "iDivisor q \<noteq> 0" using Cons.prems by (auto simp: set_effect_def)
    then obtain rc' p' m' where r: "set_values setter vs (acc OR rc) q m1 = Some ((acc OR rc) OR rc', p', m')"
      "set_effect oom ((\<lambda>v. v - 1) ` (set vs - {0})) q m1 rc' p' m'"
      using Cons.IH [of q "acc OR rc" m1] Cons.prems(1) by auto
    have "(\<lambda>v. v - 1) ` (set (v # vs) - {0}) = {v - 1} \<union> (\<lambda>v. v - 1) ` (set vs - {0})" using False by auto
    then show ?thesis
      using set_effect_trans [OF q(2) r(2)] q(1) r(1) False
      by (intro exI [of _ "rc OR rc'"] exI [of _ p'] exI [of _ m']) (simp add: or.assoc)
  qed
qed

text \<open>Setting a bit in each representation.\<close>

lemma set_in_bitmap:
  assumes "s \<le> BITVEC_NBIT" and "length bm = BITVEC_NELEM" and "i < s"
  shows "\<exists>p'. bv_set (Suc n) oom (Bitvec s c 0 (ABitmap bm)) i m = Some (0, p', m) \<and>
           set_effect oom {i} (Bitvec s c 0 (ABitmap bm)) m 0 p' m"
proof -
  let ?bm = "bm[i div 8 := bm ! (i div 8) OR push_bit (i mod 8) 1]"
  have idx: "i div 8 < length bm" using byte_index [of i] assms by simp
  have "bit (?bm ! (j div 8)) (j mod 8) \<longleftrightarrow> j = i \<or> bit (bm ! (j div 8)) (j mod 8)" for j
  proof (cases "j div 8 = i div 8")
    case True
    then have "j mod 8 = i mod 8 \<longleftrightarrow> j = i" by (metis div_mult_mod_eq)
    then show ?thesis using True idx by (auto simp: bit_simps)
  qed auto
  then have "bits (Bitvec s c 0 (ABitmap ?bm)) = bits (Bitvec s c 0 (ABitmap bm)) \<union> {i}"
    using assms by (auto simp: bits_bitmap)
  moreover have "bv_ok (Bitvec s c 0 (ABitmap ?bm))" using assms by (intro bv_ok.bitmap) auto
  ultimately have "set_effect oom {i} (Bitvec s c 0 (ABitmap bm)) m 0 (Bitvec s c 0 (ABitmap ?bm)) m"
    by (simp add: set_effect_def)
  then show ?thesis using assms(1) idx by (simp add: Let_def SQLITE_OK_def BITVEC_SZELEM_def)
qed

lemma set_in_table:
  assumes p: "p = Bitvec s (used t) 0 (AHash t)" and s: "BITVEC_NBIT < s" and t: "table_ok t" "set t \<subseteq> {0..s}"
    and i: "i < s"
    and divided: "\<And>v q m. 0 < v \<Longrightarrow> v \<le> s \<Longrightarrow> bv_ok q \<Longrightarrow> iSize q = s \<Longrightarrow> iDivisor q \<noteq> 0 \<Longrightarrow>
      \<exists>rc q' m'. bv_set n oom q (v - 1) m = Some (rc, q', m') \<and> set_effect oom {v - 1} q m rc q' m'"
  shows "\<exists>rc p' m'. bv_set (Suc n) oom p i m = Some (rc, p', m') \<and> set_effect oom {i} p m rc p' m'"
proof -
  obtain k where k: "k < BITVEC_NINT" "probe BITVEC_NINT t (i + 1) (slot (i + 1) 0) = Some (i + 1 \<in> set t, slot (i + 1) k)"
    "i + 1 \<notin> set t \<longrightarrow> t ! slot (i + 1) k = 0 \<and> reach t (i + 1) k"
    using probe_found [OF t(1), of "i + 1"] by auto
  have ok: "bv_ok p" using s t by (auto simp: p intro: bv_ok.hash)
  have bits: "bits p = {i. i < s \<and> i + 1 \<in> set t}" by (simp add: p bits_hash [OF s t(1)])
  let ?full = "if slot (i + 1) k = slot (i + 1) 0 then BITVEC_NINT - 1 \<le> used t \<and> BITVEC_MXHASH \<le> used t
               else BITVEC_MXHASH \<le> used t"
  consider (found) "i + 1 \<in> set t" | (nomem) "i + 1 \<notin> set t" "?full" "oom (tries m)"
    | (divide) "i + 1 \<notin> set t" "?full" "\<not> oom (tries m)" | (room) "i + 1 \<notin> set t" "\<not> ?full" by blast
  then show ?thesis
  proof cases
    case found
    then have "set_effect oom {i} p m 0 p m" using ok bits i by (auto simp: set_effect_def)
    moreover have "bv_set (Suc n) oom p i m = Some (0, p, m)"
      using s k(2) found by (simp add: p HASH_slot SQLITE_OK_def)
    ultimately show ?thesis by blast
  next
    case nomem
    then have "set_effect oom {i} p m 7 p (m\<lparr>tries := Suc (tries m)\<rparr>)" using ok by (auto simp: set_effect_def)
    moreover have "bv_set (Suc n) oom p i m = Some (7, p, m\<lparr>tries := Suc (tries m)\<rparr>)"
      using s k(2) nomem by (simp add: p HASH_slot SQLITE_NOMEM_def split: if_splits)
    ultimately show ?thesis by blast
  next
    case room
    let ?t = "t[slot (i + 1) k := i + 1]" and ?p = "Bitvec s (used t + 1) 0 (AHash (t[slot (i + 1) k := i + 1]))"
    have "Suc (used t) < BITVEC_NINT" using room(2) by (auto simp: bitvec_sizes split: if_splits)
    from table_insert [OF t(1) room(1) _ _ _ k(1) this] k(3) room(1)
    have ins: "table_ok ?t" "set ?t = insert (i + 1) (set t)" "used ?t = Suc (used t)" by auto
    have "set ?t \<subseteq> {0..s}" using ins(2) t(2) i by auto
    then have "bv_ok ?p" using s ins by (intro bv_ok.hash) auto
    moreover have "bits ?p = bits p \<union> {i}" using bits bits_hash [OF s ins(1)] ins(2) i by auto
    ultimately have "set_effect oom {i} p m 0 ?p m" by (simp add: set_effect_def p)
    moreover have "bv_set (Suc n) oom p i m = Some (0, ?p, m)"
      using s k(2) room by (auto simp: p HASH_slot SQLITE_OK_def split: if_splits)
    ultimately show ?thesis by blast
  next
    case divide
    let ?setter = "\<lambda>v p m. if 0 < v \<and> v \<le> iSize p then bv_set n oom p (v - 1) m else None"
    let ?p = "Bitvec s (used t) (divisor s) (ApSub (replicate BITVEC_NPTR None))" and ?m = "m\<lparr>tries := Suc (tries m)\<rparr>"
    have empty: "bv_ok ?p" "bits ?p = {}" "bv_destroy ?p = 1"
      using s divisor_facts(2) [OF s] by (auto simp: bits_subs sum_list_replicate intro!: bv_ok.subs)
    have law: "\<exists>rc q' m'. ?setter v q m = Some (rc, q', m') \<and> set_effect oom {v - 1} q m rc q' m'"
      if "0 < v" "v \<le> s" "bv_ok q" "iSize q = s" "iDivisor q \<noteq> 0" for v q m
      using divided [of v q m] that by auto
    obtain rc q m1 where q: "?setter (i + 1) ?p ?m = Some (rc, q, m1)" "set_effect oom {i} ?p ?m rc q m1"
      using law [of "i + 1" ?p ?m] i empty divisor_facts(1) [OF s] by auto
    have "bv_ok q" "iSize q = s" "iDivisor q \<noteq> 0"
      using q(2) divisor_facts(1) [OF s] by (auto simp: set_effect_def)
    from set_values_effect [where setter = ?setter and vs = t and acc = rc and m = m1, OF law this]
    obtain rc' p' m' where r: "set_values ?setter t rc q m1 = Some (rc OR rc', p', m')"
      "set_effect oom ((\<lambda>v. v - 1) ` (set t - {0})) q m1 rc' p' m'" using t(2) by fastforce
    have "(\<lambda>v. v - 1) ` (set t - {0}) = bits p"
      using t(2) by (force simp: bits image_iff intro: rev_image_eqI)
    then have "set_effect oom {i} p m (rc OR rc') p' m'"
      using set_effect_trans [OF q(2) r(2)] empty by (auto simp: set_effect_def p)
    moreover have "bv_set (Suc n) oom p i m = Some (rc OR rc', p', m')"
      using s k(2) divide q(1) r(1) by (simp add: p HASH_slot divisor_def split: if_splits)
    ultimately show ?thesis by blast
  qed
qed

lemma divisor_shrinks: "s \<le> BITVEC_NBIT * BITVEC_NPTR ^ Suc k \<Longrightarrow> divisor s \<le> BITVEC_NBIT * BITVEC_NPTR ^ k"
proof -
  assume "s \<le> BITVEC_NBIT * BITVEC_NPTR ^ Suc k"
  then have "s + 61 < 62 * (3968 * 62 ^ k + 1)" by (simp add: bitvec_sizes)
  then show ?thesis by (simp add: divisor_def bitvec_sizes less_mult_imp_div_less mult.commute flip: less_Suc_eq_le)
qed

lemma set_in_subs:
  assumes p: "p = Bitvec s c (divisor s) (ApSub subs)" and s: "BITVEC_NBIT < s" and len: "length subs = BITVEC_NPTR"
    and ok: "parts_ok s subs" and i: "i < s"
    and below: "\<And>q i m. bv_ok q \<Longrightarrow> iSize q = divisor s \<Longrightarrow> i < divisor s \<Longrightarrow>
      \<exists>rc q' m'. bv_set n oom q i m = Some (rc, q', m') \<and> set_effect oom {i} q m rc q' m'"
  shows "\<exists>rc p' m'. bv_set (Suc n) oom p i m = Some (rc, p', m') \<and> set_effect oom {i} p m rc p' m'"
proof -
  let ?b = "i div divisor s" and ?i = "i mod divisor s"
  have b: "?b < BITVEC_NPTR" and lt: "?i < divisor s" and d: "0 < divisor s"
    using divisor_facts [OF s] i by auto
  have okp: "bv_ok p" using s len ok by (auto simp: p intro: bv_ok.subs)
  have same: "j = i \<longleftrightarrow> j div divisor s = ?b \<and> j mod divisor s = ?i" for j by (metis div_mult_mod_eq)
  have known: "\<exists>rc p' m'. (do { (rc, q, m) \<leftarrow> bv_set n oom q ?i m1; Some (rc, Bitvec s c (divisor s) (ApSub (subs[?b := Some q])), m) }) =
        Some (rc, p', m') \<and> set_effect oom {i} p m rc p' m'"
    if q: "bv_ok q" "iSize q = divisor s"
      and old: "{j. j < s \<and> j div divisor s = ?b \<and> j mod divisor s \<in> bits q} = {j \<in> bits p. j div divisor s = ?b}"
      and live: "live m1 + (case subs ! ?b of None \<Rightarrow> 0 | Some q' \<Rightarrow> bv_destroy q') = live m + bv_destroy q" for q m1
  proof -
    obtain rc q' m' where r: "bv_set n oom q ?i m1 = Some (rc, q', m')" "set_effect oom {?i} q m1 rc q' m'"
      using below [OF q lt] by blast
    then have q': "bv_ok q'" "iSize q' = divisor s" using q by (auto simp: set_effect_def)
    let ?p = "Bitvec s c (divisor s) (ApSub (subs[?b := Some q']))"
    note rep = replace_sub [OF s len ok b q', where n = c]
    have in_p: "j \<in> bits p \<longleftrightarrow> j mod divisor s \<in> bits q" if "j < s" "j div divisor s = ?b" for j
      using old that by blast
    have "j \<in> bits p" if "j \<in> bits ?p" "j \<noteq> i" for j
      using that in_p [of j] same [of j] r(2) unfolding rep(2) by (auto simp: set_effect_def p split: if_splits)
    then have sub: "bits ?p \<subseteq> bits p \<union> {i}" by auto
    have "j \<in> bits ?p" if "rc = 0" "j \<in> bits p \<union> {i}" for j
    proof -
      have "j < s" using that i by (auto simp: bits_def p)
      then show ?thesis
        using that in_p [of j] same [of j] r(2) unfolding rep(2) by (auto simp: set_effect_def p)
    qed
    then have "rc = 0 \<Longrightarrow> bits ?p = bits p \<union> {i}" using sub by blast
    moreover have "live m' + bv_destroy p = live m + bv_destroy ?p"
      using rep(3) live r(2) by (simp add: set_effect_def p del: bv_destroy.simps)
    ultimately have "set_effect oom {i} p m rc ?p m'"
      using rep(1) sub r(2) d by (auto simp: set_effect_def p simp del: bv_destroy.simps)
    then show ?thesis using r(1) by auto
  qed
  show ?thesis
  proof (cases "subs ! ?b")
    case (Some q)
    then have "Some q \<in> set subs" using b len by (metis nth_mem)
    then have q: "bv_ok q" "iSize q = divisor s" using ok by auto
    have "{j. j < s \<and> j div divisor s = ?b \<and> j mod divisor s \<in> bits q} = {j \<in> bits p. j div divisor s = ?b}"
      using Some by (auto simp: p bits_subs [OF s len ok])
    from known [OF q this, of m] show ?thesis using Some s d b len by (simp add: p Let_def)
  next
    case None
    obtain x m1 where c: "sqlite3BitvecCreate oom (divisor s) m = (x, m1)" by fastforce
    show ?thesis
    proof (cases x)
      case None
      then have "(\<exists>k. oom k) \<and> live m1 = live m"
        using c by (auto simp: sqlite3BitvecCreate_def Let_def split: if_splits)
      then have "set_effect oom {i} p m 7 p m1" using okp by (auto simp: set_effect_def)
      moreover have "bv_set (Suc n) oom p i m = Some (7, p, m1)"
        using None \<open>subs ! ?b = None\<close> c s d b len by (simp add: p Let_def SQLITE_NOMEM_def)
      ultimately show ?thesis by blast
    next
      case (Some q)
      note new = new_vector [OF c [unfolded Some]]
      have "{j. j < s \<and> j div divisor s = ?b \<and> j mod divisor s \<in> bits q} = {j \<in> bits p. j div divisor s = ?b}"
        using \<open>subs ! ?b = None\<close> new by (auto simp: p bits_subs [OF s len ok])
      from known [OF new(1,2) this, of m1] new show ?thesis
        using Some \<open>subs ! ?b = None\<close> c s d b len by (simp add: p Let_def)
    qed
  qed
qed

text \<open>The bound on the recursion is enough: every division shrinks the size by a factor of 62.\<close>

lemma set_ok:
  "bv_ok p \<Longrightarrow> i < iSize p \<Longrightarrow> iSize p \<le> BITVEC_NBIT * BITVEC_NPTR ^ k \<Longrightarrow>
   (if iDivisor p \<noteq> 0 then 2 * k else 2 * k + 1) \<le> n \<Longrightarrow>
   \<exists>rc p' m'. bv_set n oom p i m = Some (rc, p', m') \<and> set_effect oom {i} p m rc p' m'"
proof (induction n arbitrary: p i m k)
  case 0
  then have "k = 0" "iDivisor p \<noteq> 0" by (auto split: if_splits)
  from 0(1) have False by cases (use 0 \<open>k = 0\<close> \<open>iDivisor p \<noteq> 0\<close> in auto)
  then show ?case ..
next
  case (Suc n)
  from Suc.prems(1) show ?case
  proof cases
    case (bitmap s bm c)
    then show ?thesis using set_in_bitmap [of s bm i n oom c m] Suc.prems(2) by auto
  next
    case (hash s t c)
    show ?thesis
    proof (rule set_in_table [of p s t])
      fix v q m assume "0 < v" "v \<le> s" "bv_ok q" "iSize q = s" "iDivisor q \<noteq> 0"
      then show "\<exists>rc q' m'. bv_set n oom q (v - 1) m = Some (rc, q', m') \<and> set_effect oom {v - 1} q m rc q' m'"
        using Suc.IH [of q "v - 1" k m] Suc.prems(3,4) hash by simp
    qed (use hash Suc.prems in auto)
  next
    case (subs s ss c)
    then obtain k' where k: "k = Suc k'" using Suc.prems(3) by (cases k) auto
    have "0 < divisor s" using divisor_facts(1) subs(2) by blast
    then have n: "2 * k' + 1 \<le> n" using Suc.prems(4) subs(1) k by simp
    have "divisor s \<le> BITVEC_NBIT * BITVEC_NPTR ^ k'" using divisor_shrinks Suc.prems(3) subs(1) k by simp
    then have "\<exists>rc q' m'. bv_set n oom q i m = Some (rc, q', m') \<and> set_effect oom {i} q m rc q' m'"
      if "bv_ok q" "iSize q = divisor s" "i < divisor s" for q i m
      using Suc.IH [of q i k' m] that n by (simp split: if_splits)
    then show ?thesis using set_in_subs [of p s c ss i n oom m] subs Suc.prems(2) by simp
  qed
qed

lemma clear_ok:
  "bv_ok p \<Longrightarrow> i < iSize p \<Longrightarrow>
   \<exists>p'. bv_clear p i = Some p' \<and> bv_ok p' \<and> iSize p' = iSize p \<and> bits p' = bits p - {i} \<and> bv_destroy p' = bv_destroy p"
proof (induction p arbitrary: i rule: bv_ok.induct)
  case (bitmap s bm n)
  let ?bm = "bm[i div 8 := bm ! (i div 8) AND NOT (push_bit (i mod 8) 1)]"
  have idx: "i div 8 < length bm" using byte_index [of i] bitmap by simp
  have "bit (?bm ! (j div 8)) (j mod 8) \<longleftrightarrow> j \<noteq> i \<and> bit (bm ! (j div 8)) (j mod 8)" for j
  proof (cases "j div 8 = i div 8")
    case True
    then have "j mod 8 = i mod 8 \<longleftrightarrow> j = i" by (metis div_mult_mod_eq)
    then show ?thesis using True idx by (auto simp: bit_simps)
  qed auto
  then have "bits (Bitvec s n 0 (ABitmap ?bm)) = bits (Bitvec s n 0 (ABitmap bm)) - {i}"
    using bitmap by (auto simp: bits_bitmap)
  moreover have "bv_ok (Bitvec s n 0 (ABitmap ?bm))" using bitmap by (intro bv_ok.bitmap) auto
  ultimately show ?case
    using bitmap idx by (subst bv_clear.simps) (simp add: Let_def BITVEC_SZELEM_def)
next
  case (hash s t n)
  have "used t < BITVEC_NINT" using used_less [of t] hash(2) by (simp add: table_ok_def)
  then obtain t' where t': "rebuild (i + 1) t (replicate BITVEC_NINT 0) 0 = Some (t', used t')" "table_ok t'"
    "set t' - {0} = set t - {0, i + 1}"
    using rebuild_table [of "replicate BITVEC_NINT 0" t 0 "i + 1"] empty_table table_distinct [OF hash(2)] by auto
  have "set t' \<subseteq> insert 0 (set t)" using t'(3) by blast
  then have "set t' \<subseteq> {0..s}" using hash(3) by auto
  moreover have "x + 1 \<in> set t' \<longleftrightarrow> x + 1 \<in> set t \<and> x \<noteq> i" for x using t'(3) by auto
  ultimately show ?case
    using hash t' by (subst bv_clear.simps) (auto simp: bits_hash intro!: bv_ok.hash)
next
  case (subs s ss n)
  let ?b = "i div divisor s" and ?i = "i mod divisor s" and ?p = "Bitvec s n (divisor s) (ApSub ss)"
  have i: "i < s" using subs.prems by simp
  have b: "?b < BITVEC_NPTR" and lt: "?i < divisor s" and d: "0 < divisor s"
    using divisor_facts [OF subs(1)] i by auto
  have ok: "parts_ok s ss" using subs.IH by auto
  show ?case
  proof (cases "ss ! ?b")
    case None
    then have "i \<notin> bits ?p" by (simp add: bits_subs [OF subs(1,2) ok])
    moreover have "bv_ok ?p" using subs(1,2) ok by (intro bv_ok.subs) auto
    ultimately show ?thesis using None d b subs(2) by (subst bv_clear.simps) (simp add: Let_def)
  next
    case (Some q)
    then have "Some q \<in> set ss" using b subs(2) by (metis nth_mem)
    then obtain q' where q': "bv_clear q ?i = Some q'" "bv_ok q'" "iSize q' = divisor s" "bits q' = bits q - {?i}"
      "bv_destroy q' = bv_destroy q" using subs.IH lt by metis
    note rep = replace_sub [OF subs(1,2) ok b q'(2,3), where n = n]
    have same: "j = i \<longleftrightarrow> j div divisor s = ?b \<and> j mod divisor s = ?i" for j by (metis div_mult_mod_eq)
    have "bits (Bitvec s n (divisor s) (ApSub (ss[?b := Some q']))) = bits ?p - {i}"
      unfolding rep(2) using Some same q'(4) by (auto simp: bits_subs [OF subs(1,2) ok])
    moreover have "bv_destroy (Bitvec s n (divisor s) (ApSub (ss[?b := Some q']))) = bv_destroy ?p"
      using rep(3) Some q'(5) by (simp del: bv_destroy.simps)
    ultimately show ?thesis
      using rep(1) Some q'(1) d b subs(2) by (subst bv_clear.simps) (simp add: Let_def del: bv_destroy.simps)
  qed
qed

section \<open>The interface\<close>

datatype bv_op = Set_bit nat | Clear_bit nat | Test_bit nat

fun bv_spec :: "bv_op list \<Rightarrow> nat set \<Rightarrow> bool list" where
  "bv_spec [] S = []"
| "bv_spec (Set_bit i # ops) S = bv_spec ops (insert i S)"
| "bv_spec (Clear_bit i # ops) S = bv_spec ops (S - {i})"
| "bv_spec (Test_bit i # ops) S = (i \<in> S) # bv_spec ops S"

text \<open>A client that stops at the first error: whether it got to the end, its answers, and the state.\<close>

fun bv_run ::
  "(nat \<Rightarrow> 's \<Rightarrow> (int \<times> 's) option) \<Rightarrow> (nat \<Rightarrow> 's \<Rightarrow> 's option) \<Rightarrow> (nat \<Rightarrow> 's \<Rightarrow> bool option) \<Rightarrow>
   bv_op list \<Rightarrow> 's \<Rightarrow> (bool \<times> bool list \<times> 's) option"
where
  "bv_run st cl ts [] s = Some (True, [], s)"
| "bv_run st cl ts (Set_bit i # ops) s = do {
     (rc, s) \<leftarrow> st i s; if rc \<noteq> SQLITE_OK then Some (False, [], s) else bv_run st cl ts ops s }"
| "bv_run st cl ts (Clear_bit i # ops) s = do { s \<leftarrow> cl i s; bv_run st cl ts ops s }"
| "bv_run st cl ts (Test_bit i # ops) s = do {
     a \<leftarrow> ts i s; (ok, as, s) \<leftarrow> bv_run st cl ts ops s; Some (ok, a # as, s) }"

fun op_ok :: "nat \<Rightarrow> bv_op \<Rightarrow> bool" where
  "op_ok sz (Set_bit i) \<longleftrightarrow> 0 < i \<and> i \<le> sz"
| "op_ok sz (Clear_bit i) \<longleftrightarrow> 0 < i \<and> i \<le> sz"
| "op_ok sz (Test_bit i) \<longleftrightarrow> i < 2 ^ 32"

locale bit_set =
  fixes st :: "nat \<Rightarrow> 's \<Rightarrow> (int \<times> 's) option" and cl :: "nat \<Rightarrow> 's \<Rightarrow> 's option"
    and ts :: "nat \<Rightarrow> 's \<Rightarrow> bool option" and members :: "'s \<Rightarrow> nat set" and inv :: "'s \<Rightarrow> bool"
    and sz :: nat and reliable :: bool
  assumes set_law: "inv s \<Longrightarrow> 0 < i \<Longrightarrow> i \<le> sz \<Longrightarrow> \<exists>rc s'. st i s = Some (rc, s') \<and> inv s' \<and>
      (rc = SQLITE_OK \<longrightarrow> members s' = insert i (members s)) \<and> (reliable \<longrightarrow> rc = SQLITE_OK)"
    and clear_law: "inv s \<Longrightarrow> 0 < i \<Longrightarrow> i \<le> sz \<Longrightarrow> \<exists>s'. cl i s = Some s' \<and> inv s' \<and> members s' = members s - {i}"
    and test_law: "inv s \<Longrightarrow> i < 2 ^ 32 \<Longrightarrow> ts i s = Some (i \<in> members s)"
begin

lemma run_refines:
  "inv s \<Longrightarrow> list_all (op_ok sz) ops \<Longrightarrow>
   \<exists>ok as s'. bv_run st cl ts ops s = Some (ok, as, s') \<and> inv s' \<and>
     as = take (length as) (bv_spec ops (members s)) \<and> (ok \<longrightarrow> as = bv_spec ops (members s)) \<and> (reliable \<longrightarrow> ok)"
proof (induction ops arbitrary: s)
  case (Cons op ops)
  show ?case
  proof (cases op)
    case (Set_bit i)
    obtain rc s' where s': "st i s = Some (rc, s')" "inv s'" "rc = SQLITE_OK \<longrightarrow> members s' = insert i (members s)"
      "reliable \<longrightarrow> rc = SQLITE_OK" using set_law [of s i] Cons.prems Set_bit by auto
    show ?thesis
    proof (cases "rc = SQLITE_OK")
      case True
      then show ?thesis using Cons.IH [OF s'(2)] Cons.prems s' Set_bit by auto
    next
      case False
      then show ?thesis using s' Set_bit by auto
    qed
  next
    case (Clear_bit i)
    then obtain s' where "cl i s = Some s'" "inv s'" "members s' = members s - {i}"
      using clear_law [of s i] Cons.prems by auto
    then show ?thesis using Cons.IH [of s'] Cons.prems Clear_bit by auto
  next
    case (Test_bit i)
    then have "ts i s = Some (i \<in> members s)" using test_law [of s i] Cons.prems by auto
    then show ?thesis using Cons.IH [of s] Cons.prems Test_bit by auto
  qed
qed auto

end

definition bv_client_set :: "(nat \<Rightarrow> bool) \<Rightarrow> nat \<Rightarrow> bitvec \<times> bvmem \<Rightarrow> (int \<times> bitvec \<times> bvmem) option" where
  "bv_client_set oom i = (\<lambda>(p, m). do {
     (rc, p, m) \<leftarrow> sqlite3BitvecSet oom (Some p) i m; (case p of None \<Rightarrow> None | Some p \<Rightarrow> Some (rc, p, m)) })"

definition bv_client_clear :: "nat \<Rightarrow> bitvec \<times> bvmem \<Rightarrow> (bitvec \<times> bvmem) option" where
  "bv_client_clear i = (\<lambda>(p, m). do {
     p \<leftarrow> sqlite3BitvecClear (Some p) i; (case p of None \<Rightarrow> None | Some p \<Rightarrow> Some (p, m)) })"

definition bv_client_test :: "nat \<Rightarrow> bitvec \<times> bvmem \<Rightarrow> bool option" where
  "bv_client_test i = (\<lambda>(p, m). sqlite3BitvecTest (Some p) i)"

definition held :: "nat \<Rightarrow> nat \<Rightarrow> bitvec \<times> bvmem \<Rightarrow> bool" where
  "held sz base = (\<lambda>(p, m). bv_ok p \<and> iSize p = sz \<and> sz < 2 ^ 32 \<and> live m = base + bv_destroy p)"

lemma held_set:
  assumes "held sz base (p, m)" and "0 < i" and "i \<le> sz"
  shows "\<exists>rc p' m'. bv_client_set oom i (p, m) = Some (rc, p', m') \<and> held sz base (p', m') \<and>
    (rc = SQLITE_OK \<longrightarrow> Suc ` bits p' = insert i (Suc ` bits p)) \<and> ((\<forall>k. \<not> oom k) \<longrightarrow> rc = SQLITE_OK)"
proof -
  have "bv_ok p" "iSize p \<le> BITVEC_NBIT * BITVEC_NPTR ^ 4" "i - 1 < iSize p"
    "(if iDivisor p \<noteq> 0 then 2 * 4 else 2 * 4 + 1) \<le> (9 :: nat)"
    using assms by (auto simp: held_def bitvec_sizes)
  then obtain rc p' m' where r: "bv_set 9 oom p (i - 1) m = Some (rc, p', m')" "set_effect oom {i - 1} p m rc p' m'"
    using set_ok [of p "i - 1" 4 9 oom m] by blast
  then show ?thesis
    using assms by (auto simp: bv_client_set_def sqlite3BitvecSet_def held_def set_effect_def SQLITE_OK_def
        simp del: bv_set.simps)
qed

lemma held_clear:
  assumes "held sz base (p, m)" and "0 < i" and "i \<le> sz"
  shows "\<exists>p' m'. bv_client_clear i (p, m) = Some (p', m') \<and> held sz base (p', m') \<and> Suc ` bits p' = Suc ` bits p - {i}"
proof -
  have "bv_ok p" "i - 1 < iSize p" using assms by (auto simp: held_def)
  then obtain p' where "bv_clear p (i - 1) = Some p'" "bv_ok p'" "iSize p' = iSize p" "bits p' = bits p - {i - 1}"
    "bv_destroy p' = bv_destroy p" using clear_ok [of p "i - 1"] by blast
  moreover have "Suc ` (bits p - {i - 1}) = Suc ` bits p - {i}" using assms(2) by (simp add: image_set_diff)
  ultimately show ?thesis using assms by (simp add: bv_client_clear_def sqlite3BitvecClear_def held_def)
qed

lemma held_test: "held sz base (p, m) \<Longrightarrow> i < 2 ^ 32 \<Longrightarrow> bv_client_test i (p, m) = Some (i \<in> Suc ` bits p)"
proof (cases i)
  case (Suc j)
  assume a: "held sz base (p, m)" "i < 2 ^ 32"
  then have "(i + 2 ^ 32 - 1) mod 2 ^ 32 = j" using Suc by simp
  moreover have "j \<notin> bits p" if "iSize p \<le> j" using that by (simp add: bits_def)
  ultimately show ?thesis
    using a Suc test_total [of p j] by (auto simp: bv_client_test_def sqlite3BitvecTest_def sqlite3BitvecTestNotNull_def
        held_def Let_def)
qed (simp add: bv_client_test_def sqlite3BitvecTest_def sqlite3BitvecTestNotNull_def held_def Let_def)

interpretation bv: bit_set "bv_client_set oom" bv_client_clear bv_client_test "\<lambda>(p, m). Suc ` bits p" "held sz base"
  sz "\<forall>k. \<not> oom k" for oom sz base
proof (unfold_locales, goal_cases)
  case (1 s i)
  then show ?case using held_set [of sz base "fst s" "snd s" i oom] by (cases s) fastforce
next
  case (2 s i)
  then show ?case using held_clear [of sz base "fst s" "snd s" i] by (cases s) fastforce
next
  case (3 s i)
  then show ?case by (cases s) (simp add: held_test)
qed

text \<open>
  Property C4: a client that creates a bit vector of any size below 2^32 and runs any sequence of settings,
  clearings and tests on it never faults and never probes forever. Up to the first setting that reports an error
  its answers are those of a plain set of numbers, whatever representation the vector has got by then, and without
  failing allocations no setting reports an error. Destroying the vector frees exactly the objects it allocated.
\<close>
theorem bitvec_refines_set:
  assumes "sqlite3BitvecCreate oom sz m = (Some p, m1)" and "sz < 2 ^ 32" and "list_all (op_ok sz) ops"
  shows "\<exists>ok answers p' m2.
           bv_run (bv_client_set oom) bv_client_clear bv_client_test ops (p, m1) = Some (ok, answers, p', m2) \<and>
           answers = take (length answers) (bv_spec ops {}) \<and> (ok \<longrightarrow> answers = bv_spec ops {}) \<and>
           ((\<forall>k. \<not> oom k) \<longrightarrow> ok) \<and> live (sqlite3BitvecDestroy (Some p') m2) = live m"
proof -
  note new = new_vector [OF assms(1)]
  have "held sz (live m) (p, m1)" using new assms(2) by (simp add: held_def)
  from bv.run_refines [OF this assms(3), of oom, unfolded case_prod_conv new(3) image_empty] obtain ok answers p' m2
    where "bv_run (bv_client_set oom) bv_client_clear bv_client_test ops (p, m1) = Some (ok, answers, p', m2)"
      "held sz (live m) (p', m2)" "answers = take (length answers) (bv_spec ops {})"
      "ok \<longrightarrow> answers = bv_spec ops {}" "(\<forall>k. \<not> oom k) \<longrightarrow> ok" by (metis prod.exhaust)
  then show ?thesis by (auto simp: sqlite3BitvecDestroy_def held_def)
qed

definition bv_demo :: "bv_op list" where
  "bv_demo = [Set_bit 4000, Set_bit 124, Test_bit 4000, Clear_bit 4000, Test_bit 4000, Test_bit 124, Test_bit 0]"

text \<open>The witness: a vector of 5000 bits, which starts as a hash table.\<close>
theorem bitvec_refines_set_witness:
  "\<exists>p' m2. bv_run (bv_client_set (\<lambda>k. False)) bv_client_clear bv_client_test bv_demo
       (Bitvec 5000 0 0 (zero_union 5000), \<lparr>tries = 1, live = 1\<rparr>) = Some (True, [True, False, True, False], p', m2) \<and>
     live (sqlite3BitvecDestroy (Some p') m2) = 0"
  using bitvec_refines_set [of "\<lambda>k. False" 5000 "\<lparr>tries = 0, live = 0\<rparr>" "Bitvec 5000 0 0 (zero_union 5000)"
      "\<lparr>tries = 1, live = 1\<rparr>" bv_demo]
  by (auto simp: sqlite3BitvecCreate_def bv_demo_def)

end
