(* ===== verification/Sqlite_Ctype.thy ===== *)
theory Sqlite_Ctype
  imports Prelude
begin

text \<open>
  The character tables of SQLite (\<open>global.c\<close> in \<open>sqlite3.c\<close>) and the macros that read them. The program is built for
  ASCII.
\<close>

section \<open>Tables\<close>

definition sqlite3UpperToLower :: "8 word list" where
  "sqlite3UpperToLower = map word_of_nat ([0..<65] @ [97..<123] @ [91..<256])"

definition UpperToLower :: "8 word \<Rightarrow> 8 word" where
  "UpperToLower c = sqlite3UpperToLower ! unat c"

definition sqlite3CtypeMap :: "8 word list" where
  "sqlite3CtypeMap =
    [0x00, 0x00, 0x00, 0x00, 0x00, 0x00, 0x00, 0x00, 0x00, 0x01, 0x01, 0x01, 0x01, 0x01, 0x00, 0x00,
     0x00, 0x00, 0x00, 0x00, 0x00, 0x00, 0x00, 0x00, 0x00, 0x00, 0x00, 0x00, 0x00, 0x00, 0x00, 0x00,
     0x01, 0x00, 0x80, 0x00, 0x40, 0x00, 0x00, 0x80, 0x00, 0x00, 0x00, 0x00, 0x00, 0x00, 0x00, 0x00,
     0x0c, 0x0c, 0x0c, 0x0c, 0x0c, 0x0c, 0x0c, 0x0c, 0x0c, 0x0c, 0x00, 0x00, 0x00, 0x00, 0x00, 0x00,
     0x00, 0x0a, 0x0a, 0x0a, 0x0a, 0x0a, 0x0a, 0x02, 0x02, 0x02, 0x02, 0x02, 0x02, 0x02, 0x02, 0x02,
     0x02, 0x02, 0x02, 0x02, 0x02, 0x02, 0x02, 0x02, 0x02, 0x02, 0x02, 0x80, 0x00, 0x00, 0x00, 0x40,
     0x80, 0x2a, 0x2a, 0x2a, 0x2a, 0x2a, 0x2a, 0x22, 0x22, 0x22, 0x22, 0x22, 0x22, 0x22, 0x22, 0x22,
     0x22, 0x22, 0x22, 0x22, 0x22, 0x22, 0x22, 0x22, 0x22, 0x22, 0x22, 0x00, 0x00, 0x00, 0x00, 0x00,
     0x40, 0x40, 0x40, 0x40, 0x40, 0x40, 0x40, 0x40, 0x40, 0x40, 0x40, 0x40, 0x40, 0x40, 0x40, 0x40,
     0x40, 0x40, 0x40, 0x40, 0x40, 0x40, 0x40, 0x40, 0x40, 0x40, 0x40, 0x40, 0x40, 0x40, 0x40, 0x40,
     0x40, 0x40, 0x40, 0x40, 0x40, 0x40, 0x40, 0x40, 0x40, 0x40, 0x40, 0x40, 0x40, 0x40, 0x40, 0x40,
     0x40, 0x40, 0x40, 0x40, 0x40, 0x40, 0x40, 0x40, 0x40, 0x40, 0x40, 0x40, 0x40, 0x40, 0x40, 0x40,
     0x40, 0x40, 0x40, 0x40, 0x40, 0x40, 0x40, 0x40, 0x40, 0x40, 0x40, 0x40, 0x40, 0x40, 0x40, 0x40,
     0x40, 0x40, 0x40, 0x40, 0x40, 0x40, 0x40, 0x40, 0x40, 0x40, 0x40, 0x40, 0x40, 0x40, 0x40, 0x40,
     0x40, 0x40, 0x40, 0x40, 0x40, 0x40, 0x40, 0x40, 0x40, 0x40, 0x40, 0x40, 0x40, 0x40, 0x40, 0x40,
     0x40, 0x40, 0x40, 0x40, 0x40, 0x40, 0x40, 0x40, 0x40, 0x40, 0x40, 0x40, 0x40, 0x40, 0x40, 0x40]"

definition sqlite3Isspace :: "8 word \<Rightarrow> bool" where
  "sqlite3Isspace x \<longleftrightarrow> sqlite3CtypeMap ! unat x AND 0x01 \<noteq> 0"

definition sqlite3Isdigit :: "8 word \<Rightarrow> bool" where
  "sqlite3Isdigit x \<longleftrightarrow> sqlite3CtypeMap ! unat x AND 0x04 \<noteq> 0"

definition sqlite3Isxdigit :: "8 word \<Rightarrow> bool" where
  "sqlite3Isxdigit x \<longleftrightarrow> sqlite3CtypeMap ! unat x AND 0x08 \<noteq> 0"

definition IdChar :: "8 word \<Rightarrow> bool" where
  "IdChar c \<longleftrightarrow> sqlite3CtypeMap ! unat c AND 0x46 \<noteq> 0"

section \<open>Case\<close>

lemma UpperToLower_eq: "UpperToLower c = (if 65 \<le> c \<and> c \<le> 90 then c + 32 else c)"
proof -
  have len: "unat c < 256" using unsigned_less [of c, where ?'a = nat] by simp
  have nth: "UpperToLower c = word_of_nat (([0..<65] @ [97..<123] @ [91..<256]) ! unat c)"
    unfolding UpperToLower_def sqlite3UpperToLower_def by (rule nth_map) (use len in \<open>simp del: upt_rec_numeral\<close>)
  consider "unat c < 65" | "65 \<le> unat c" "unat c \<le> 90" | "90 < unat c" by linarith
  then show ?thesis
  proof cases
    case 2
    then have "unat c - 65 < 26" by linarith
    then have "([0..<65] @ [97..<123] @ [91..<256]) ! unat c = unat c + 32"
      using 2 by (simp add: nth_append del: upt_rec_numeral)
    then have "UpperToLower c = c + 32" using nth by simp
    then show ?thesis using 2 by (simp add: word_le_nat_alt)
  qed (use len in \<open>auto simp: nth nth_append word_le_nat_alt simp del: upt_rec_numeral\<close>)
qed

lemma UpperToLower_zero: "UpperToLower c = 0 \<longleftrightarrow> c = 0"
  by (auto simp: UpperToLower_eq word_le_nat_alt word_unat_eq_iff unat_word_ariths)

end
