(* ===== verification/Sqlite_Hash.thy ===== *)
theory Sqlite_Hash
  imports Sqlite_Ctype
begin

text \<open>
  SQLite's hash table (\<open>hash.c\<close> in \<open>sqlite3.c\<close>), which holds the schema of a connection by name. All elements
  are on one doubly linked list, on which the elements of a bucket stand side by side; a bucket knows the first
  of its elements and how many there are. Elements live in an explicit heap, since the list is updated through
  pointers. Keys are compared and hashed without regard to case; a key is the list of its bytes before the
  terminator. \<^term>\<open>None\<close> is an access through a null or dangling pointer or outside the table, a violated
  assertion, or a loop that does not end.
\<close>

section \<open>Keys\<close>

fun str_hash_loop :: "bytes \<Rightarrow> 32 word \<Rightarrow> 32 word" where
  "str_hash_loop [] h = h"
| "str_hash_loop (c # z) h = str_hash_loop z ((h + ucast (UpperToLower c)) * 0x9e3779b1)"

definition strHash :: "bytes \<Rightarrow> 32 word" where
  "strHash z = str_hash_loop z 0"

fun sqlite3StrICmp :: "bytes \<Rightarrow> bytes \<Rightarrow> int" where
  "sqlite3StrICmp [] [] = 0"
| "sqlite3StrICmp [] (x # b) = uint (UpperToLower 0) - uint (UpperToLower x)"
| "sqlite3StrICmp (c # a) [] = uint (UpperToLower c) - uint (UpperToLower 0)"
| "sqlite3StrICmp (c # a) (x # b) =
     (if c = x then sqlite3StrICmp a b
      else let d = uint (UpperToLower c) - uint (UpperToLower x) in if d \<noteq> 0 then d else sqlite3StrICmp a b)"

section \<open>Elements and tables\<close>

record helem =
  next_elem :: "nat option"
  prev_elem :: "nat option"
  data :: nat
  pKey :: bytes

text \<open>The heap of elements, the next address, the number of live bucket arrays, and the allocations tried.\<close>

record hmem =
  elems :: "nat \<Rightarrow> helem option"
  next_addr :: nat
  arrays :: nat
  allocs :: nat

record hash =
  htsize :: nat
  hcount :: nat
  hfirst :: "nat option"
  ht :: "(nat \<times> nat option) list option"

definition upd :: "nat \<Rightarrow> (helem \<Rightarrow> helem) \<Rightarrow> hmem \<Rightarrow> hmem option" where
  "upd a f m = do { e \<leftarrow> elems m a; Some (m\<lparr>elems := (elems m)(a := Some (f e))\<rparr>) }"

definition free_elem :: "nat \<Rightarrow> hmem \<Rightarrow> hmem option" where
  "free_elem a m = do { _ \<leftarrow> elems m a; Some (m\<lparr>elems := (elems m)(a := None)\<rparr>) }"

definition free_array :: "hash \<Rightarrow> hmem \<Rightarrow> hmem option" where
  "free_array pH m = (case ht pH of None \<Rightarrow> Some m
     | Some _ \<Rightarrow> if arrays m = 0 then None else Some (m\<lparr>arrays := arrays m - 1\<rparr>))"

definition sqlite3HashInit :: hash where
  "sqlite3HashInit = \<lparr>htsize = 0, hcount = 0, hfirst = None, ht = None\<rparr>"

text \<open>The loop that frees the elements; the first argument bounds it.\<close>

fun free_elems :: "nat \<Rightarrow> nat option \<Rightarrow> hmem \<Rightarrow> hmem option" where
  "free_elems n None m = Some m"
| "free_elems 0 (Some a) m = None"
| "free_elems (Suc n) (Some a) m = do { e \<leftarrow> elems m a; m \<leftarrow> free_elem a m; free_elems n (next_elem e) m }"

definition sqlite3HashClear :: "hash \<Rightarrow> hmem \<Rightarrow> (hash \<times> hmem) option" where
  "sqlite3HashClear pH m = do {
     m \<leftarrow> free_array pH m;
     m \<leftarrow> free_elems (hcount pH) (hfirst pH) m;
     Some (\<lparr>htsize = 0, hcount = 0, hfirst = None, ht = None\<rparr>, m) }"

section \<open>Insertion\<close>

text \<open>The second argument is the index of the bucket \<open>pEntry\<close>, if any.\<close>

definition insertElement :: "hash \<Rightarrow> nat option \<Rightarrow> nat \<Rightarrow> hmem \<Rightarrow> (hash \<times> hmem) option" where
  "insertElement pH pEntry pNew m = do {
     (pHead, pH) \<leftarrow>
       (case pEntry of
          None \<Rightarrow> Some (None, pH)
        | Some h \<Rightarrow> do {
            tab \<leftarrow> ht pH;
            if length tab \<le> h then None
            else let (c, chain) = tab ! h
                 in Some (if c \<noteq> 0 then chain else None,
                          pH\<lparr>ht := Some (tab[h := ((c + 1) mod 2 ^ 32, Some pNew)])\<rparr>) });
     (case pHead of
        Some p \<Rightarrow> do {
          head \<leftarrow> elems m p;
          m \<leftarrow> upd pNew (\<lambda>e. e\<lparr>next_elem := Some p, prev_elem := prev_elem head\<rparr>) m;
          (pH, m) \<leftarrow>
            (case prev_elem head of
               Some q \<Rightarrow> do { m \<leftarrow> upd q (\<lambda>e. e\<lparr>next_elem := Some pNew\<rparr>) m; Some (pH, m) }
             | None \<Rightarrow> Some (pH\<lparr>hfirst := Some pNew\<rparr>, m));
          m \<leftarrow> upd p (\<lambda>e. e\<lparr>prev_elem := Some pNew\<rparr>) m;
          Some (pH, m) }
      | None \<Rightarrow> do {
          m \<leftarrow> upd pNew (\<lambda>e. e\<lparr>next_elem := hfirst pH\<rparr>) m;
          m \<leftarrow> (case hfirst pH of Some f \<Rightarrow> upd f (\<lambda>e. e\<lparr>prev_elem := Some pNew\<rparr>) m | None \<Rightarrow> Some m);
          m \<leftarrow> upd pNew (\<lambda>e. e\<lparr>prev_elem := None\<rparr>) m;
          Some (pH\<lparr>hfirst := Some pNew\<rparr>, m) }) }"

definition SQLITE_MALLOC_SOFT_LIMIT :: nat where "SQLITE_MALLOC_SOFT_LIMIT = 1024"

text \<open>The loop that puts the elements into the new array; the first argument bounds it.\<close>

fun rehash_loop :: "nat \<Rightarrow> nat \<Rightarrow> nat option \<Rightarrow> hash \<Rightarrow> hmem \<Rightarrow> (hash \<times> hmem) option" where
  "rehash_loop n new_size None pH m = Some (pH, m)"
| "rehash_loop 0 new_size (Some elem) pH m = None"
| "rehash_loop (Suc n) new_size (Some elem) pH m = do {
     e \<leftarrow> elems m elem;
     let h = unat (strHash (pKey e)) mod new_size;
     (pH, m) \<leftarrow> insertElement pH (Some h) elem m;
     rehash_loop n new_size (next_elem e) pH m }"

text \<open>
  \<open>sizeof(struct _ht)\<close> is 16; \<open>usable\<close> gives the usable size of a block of a requested size, and a request for
  no bytes is refused. The first result
  says whether the table was resized.
\<close>

definition rehash :: "(nat \<Rightarrow> bool) \<Rightarrow> (nat \<Rightarrow> nat) \<Rightarrow> hash \<Rightarrow> nat \<Rightarrow> hmem \<Rightarrow> (bool \<times> hash \<times> hmem) option" where
  "rehash oom usable pH new_size m =
     (let new_size = (if new_size * 16 > SQLITE_MALLOC_SOFT_LIMIT then SQLITE_MALLOC_SOFT_LIMIT div 16 else new_size)
      in if new_size = htsize pH \<or> new_size = 0 then Some (False, pH, m)
         else if oom (allocs m) then Some (False, pH, m\<lparr>allocs := Suc (allocs m)\<rparr>)
         else do {
           m \<leftarrow> free_array pH (m\<lparr>allocs := Suc (allocs m)\<rparr>);
           let m = m\<lparr>arrays := Suc (arrays m)\<rparr>;
           let new_size = usable (new_size * 16) div 16 mod 2 ^ 32;
           (pH, m) \<leftarrow> rehash_loop (hcount pH) new_size (hfirst pH)
             (pH\<lparr>htsize := new_size, ht := Some (replicate new_size (0, None)), hfirst := None\<rparr>) m;
           Some (True, pH, m) })"

section \<open>Lookup\<close>

fun find_loop :: "nat \<Rightarrow> nat option \<Rightarrow> bytes \<Rightarrow> hmem \<Rightarrow> nat option option" where
  "find_loop 0 elem key m = Some None"
| "find_loop (Suc count') elem key m = do {
     a \<leftarrow> elem;
     e \<leftarrow> elems m a;
     if sqlite3StrICmp (pKey e) key = 0 then Some (Some a) else find_loop count' (next_elem e) key m }"

text \<open>The element, where \<^term>\<open>None\<close> is the static null element, and the hash.\<close>

definition findElementWithHash :: "hash \<Rightarrow> bytes \<Rightarrow> hmem \<Rightarrow> (nat option \<times> nat) option" where
  "findElementWithHash pH key m = do {
     (h, elem, count') \<leftarrow>
       (case ht pH of
          Some tab \<Rightarrow>
            let h = unat (strHash key) mod htsize pH
            in if htsize pH = 0 \<or> length tab \<le> h then None
               else Some (h, snd (tab ! h), fst (tab ! h))
        | None \<Rightarrow> Some (0, hfirst pH, hcount pH));
     elem \<leftarrow> find_loop count' elem key m;
     Some (elem, h) }"

definition sqlite3HashFind :: "hash \<Rightarrow> bytes \<Rightarrow> hmem \<Rightarrow> nat option" where
  "sqlite3HashFind pH key m = do {
     (elem, h) \<leftarrow> findElementWithHash pH key m;
     (case elem of None \<Rightarrow> Some 0 | Some a \<Rightarrow> map_option data (elems m a)) }"

section \<open>Removal and replacement\<close>

definition removeElementGivenHash :: "hash \<Rightarrow> nat \<Rightarrow> nat \<Rightarrow> hmem \<Rightarrow> (hash \<times> hmem) option" where
  "removeElementGivenHash pH elem h m = do {
     e \<leftarrow> elems m elem;
     (pH, m) \<leftarrow>
       (case prev_elem e of
          Some q \<Rightarrow> do { m \<leftarrow> upd q (\<lambda>x. x\<lparr>next_elem := next_elem e\<rparr>) m; Some (pH, m) }
        | None \<Rightarrow> Some (pH\<lparr>hfirst := next_elem e\<rparr>, m));
     m \<leftarrow> (case next_elem e of Some q \<Rightarrow> upd q (\<lambda>x. x\<lparr>prev_elem := prev_elem e\<rparr>) m | None \<Rightarrow> Some m);
     pH \<leftarrow>
       (case ht pH of
          None \<Rightarrow> Some pH
        | Some tab \<Rightarrow>
            if length tab \<le> h then None
            else let (c, chain) = tab ! h; chain = (if chain = Some elem then next_elem e else chain)
                 in if c = 0 then None else Some (pH\<lparr>ht := Some (tab[h := (c - 1, chain)])\<rparr>));
     m \<leftarrow> free_elem elem m;
     let pH = pH\<lparr>hcount := (hcount pH + 2 ^ 32 - 1) mod 2 ^ 32\<rparr>;
     if hcount pH = 0 then if hfirst pH = None then sqlite3HashClear pH m else None
     else Some (pH, m) }"

text \<open>The result is the data returned: the old data, 0, or the new data when memory ran out.\<close>

definition sqlite3HashInsert ::
  "(nat \<Rightarrow> bool) \<Rightarrow> (nat \<Rightarrow> nat) \<Rightarrow> hash \<Rightarrow> bytes \<Rightarrow> nat \<Rightarrow> hmem \<Rightarrow> (nat \<times> hash \<times> hmem) option" where
  "sqlite3HashInsert oom usable pH key dat m = do {
     (elem, h) \<leftarrow> findElementWithHash pH key m;
     old_data \<leftarrow> (case elem of None \<Rightarrow> Some 0 | Some a \<Rightarrow> map_option data (elems m a));
     if old_data \<noteq> 0 then do {
       a \<leftarrow> elem;
       (pH, m) \<leftarrow>
         (if dat = 0 then removeElementGivenHash pH a h m
          else do { m \<leftarrow> upd a (\<lambda>e. e\<lparr>data := dat, pKey := key\<rparr>) m; Some (pH, m) });
       Some (old_data, pH, m) }
     else if dat = 0 then Some (0, pH, m)
     else if oom (allocs m) then Some (dat, pH, m\<lparr>allocs := Suc (allocs m)\<rparr>)
     else do {
       let a = next_addr m;
       let m = m\<lparr>allocs := Suc (allocs m), next_addr := Suc a,
                 elems := (elems m)(a \<mapsto> \<lparr>next_elem = None, prev_elem = None, data = dat, pKey = key\<rparr>)\<rparr>;
       let pH = pH\<lparr>hcount := (hcount pH + 1) mod 2 ^ 32\<rparr>;
       (h, pH, m) \<leftarrow>
         (if hcount pH \<ge> 10 \<and> hcount pH > 2 * htsize pH mod 2 ^ 32 then do {
            (resized, pH, m) \<leftarrow> rehash oom usable pH (hcount pH * 2 mod 2 ^ 32) m;
            if resized then
              if htsize pH = 0 then None else Some (unat (strHash key) mod htsize pH, pH, m)
            else Some (h, pH, m) }
          else Some (h, pH, m));
       (pH, m) \<leftarrow> insertElement pH (case ht pH of Some _ \<Rightarrow> Some h | None \<Rightarrow> None) a m;
       Some (0, pH, m) } }"

end
