(* ===== verification/Sqlite_Hash_List.thy ===== *)
theory Sqlite_Hash_List
  imports Sqlite_Hash
begin

text \<open>
  The elements of SQLite's hash table as a list of addresses: what it means that they are linked on the heap, that
  a bucket describes a stretch of the list, and that linking an element and putting all of them into a new array
  keep both. Names are compared and hashed by their lower-case form.
\<close>

section \<open>Names\<close>

abbreviation lower :: "bytes \<Rightarrow> bytes" where
  "lower \<equiv> map UpperToLower"

abbreviation name :: "bytes \<Rightarrow> bool" where
  "name z \<equiv> 0 \<notin> set z"

lemma StrICmp_lower: "name a \<Longrightarrow> name b \<Longrightarrow> sqlite3StrICmp a b = 0 \<longleftrightarrow> lower a = lower b"
proof (induction a b rule: sqlite3StrICmp.induct)
  case (4 c a x b)
  have "uint (UpperToLower c) - uint (UpperToLower x) = 0 \<longleftrightarrow> UpperToLower c = UpperToLower x"
    by (simp add: word_uint_eq_iff)
  then show ?case using 4 by (auto simp: Let_def)
next
  case (2 x b)
  then show ?case using UpperToLower_zero [of x] UpperToLower_zero [of 0] by (auto simp: uint_0_iff)
next
  case (3 c a)
  then show ?case using UpperToLower_zero [of c] UpperToLower_zero [of 0] by (auto simp: uint_0_iff)
qed simp

lemma strHash_lower: "lower a = lower b \<Longrightarrow> strHash a = strHash b"
proof -
  have "str_hash_loop a h = str_hash_loop b h" if "lower a = lower b" for h
    using that
  proof (induction a arbitrary: b h)
    case (Cons c a)
    then obtain x b' where "b = x # b'" "UpperToLower c = UpperToLower x" "lower a = lower b'" by auto
    then show ?case using Cons.IH [of b'] by simp
  qed simp
  then show "lower a = lower b \<Longrightarrow> ?thesis" by (simp add: strHash_def)
qed

section \<open>Linked elements\<close>

fun head_or :: "nat list \<Rightarrow> nat option \<Rightarrow> nat option" where
  "head_or [] n = n"
| "head_or (a # as) n = Some a"

fun last_or :: "nat list \<Rightarrow> nat option \<Rightarrow> nat option" where
  "last_or [] p = p"
| "last_or (a # as) p = last_or as (Some a)"

text \<open>The elements of a stretch of the list, between the elements \<open>p\<close> and \<open>n\<close>.\<close>

fun linked :: "(nat \<Rightarrow> helem option) \<Rightarrow> nat option \<Rightarrow> nat list \<Rightarrow> nat option \<Rightarrow> bool" where
  "linked E p [] n = True"
| "linked E p (a # as) n \<longleftrightarrow>
     (\<exists>e. E a = Some e \<and> prev_elem e = p \<and> next_elem e = head_or as n) \<and> linked E (Some a) as n"

lemma head_or_append [simp]: "head_or (xs @ ys) n = head_or xs (head_or ys n)"
  by (cases xs) auto

lemma last_or_append [simp]: "last_or (xs @ ys) p = last_or ys (last_or xs p)"
  by (induction xs arbitrary: p) auto

lemma linked_append: "linked E p (xs @ ys) n \<longleftrightarrow> linked E p xs (head_or ys n) \<and> linked E (last_or xs p) ys n"
  by (induction xs arbitrary: p) auto

lemma linked_frame [simp]: "a \<notin> set L \<Longrightarrow> linked (E(a := x)) p L n \<longleftrightarrow> linked E p L n"
  by (induction L arbitrary: p) auto

lemma linked_mem: "linked E p L n \<Longrightarrow> a \<in> set L \<Longrightarrow> \<exists>e. E a = Some e"
  by (induction L arbitrary: p) auto

lemma linked_change_data:
  "linked E p L n \<Longrightarrow> E a = Some e \<Longrightarrow> next_elem e' = next_elem e \<Longrightarrow> prev_elem e' = prev_elem e \<Longrightarrow>
   linked (E(a := Some e')) p L n"
  by (induction L arbitrary: p) auto

text \<open>Redirecting the pointers at both ends of a gap.\<close>

lemma linked_new_next:
  "linked E p (xs @ [a]) n \<Longrightarrow> distinct (xs @ [a]) \<Longrightarrow> E a = Some e \<Longrightarrow>
   linked (E(a := Some (e\<lparr>next_elem := n'\<rparr>))) p (xs @ [a]) n'"
  by (auto simp: linked_append)

lemma linked_new_prev:
  "linked E p (a # xs) n \<Longrightarrow> a \<notin> set xs \<Longrightarrow> E a = Some e \<Longrightarrow>
   linked (E(a := Some (e\<lparr>prev_elem := p'\<rparr>))) p' (a # xs) n"
  by auto

section \<open>Buckets\<close>

text \<open>A bucket describes the stretch of the list that holds exactly the elements with property \<open>P\<close>.\<close>

definition stretch :: "nat list \<Rightarrow> (nat \<Rightarrow> bool) \<Rightarrow> nat \<times> nat option \<Rightarrow> bool" where
  "stretch L P b \<longleftrightarrow> (\<exists>pre seg post. L = pre @ seg @ post \<and> length seg = fst b \<and>
     (seg \<noteq> [] \<longrightarrow> snd b = Some (hd seg)) \<and> (\<forall>a \<in> set L. P a \<longleftrightarrow> a \<in> set seg))"

lemma stretchI:
  "L = pre @ seg @ post \<Longrightarrow> length seg = fst b \<Longrightarrow> seg \<noteq> [] \<longrightarrow> snd b = Some (hd seg) \<Longrightarrow>
   \<forall>a \<in> set L. P a \<longleftrightarrow> a \<in> set seg \<Longrightarrow> stretch L P b"
  unfolding stretch_def by blast

lemma stretchE:
  assumes "stretch L P b"
  obtains pre seg post where "L = pre @ seg @ post" "length seg = fst b" "seg \<noteq> [] \<longrightarrow> snd b = Some (hd seg)"
    "\<forall>a \<in> set L. P a \<longleftrightarrow> a \<in> set seg" "set seg = {a \<in> set L. P a}"
proof -
  obtain pre seg post where s: "L = pre @ seg @ post" "length seg = fst b" "seg \<noteq> [] \<longrightarrow> snd b = Some (hd seg)"
    "\<forall>a \<in> set L. P a \<longleftrightarrow> a \<in> set seg" using assms unfolding stretch_def by blast
  then have "set seg = {a \<in> set L. P a}" by auto
  with s show ?thesis by (rule that)
qed

lemma stretch_empty: "(\<forall>a \<in> set L. \<not> P a) \<Longrightarrow> stretch L P (0, c)"
  by (rule stretchI [of L "[]" "[]" L]) auto

text \<open>A stretch lies on one side of an element that is not on it.\<close>

lemma beside:
  assumes "xs @ h # ys = pre @ seg @ post" and "h \<notin> set seg"
  shows "(\<exists>us. pre = xs @ h # us \<and> ys = us @ seg @ post) \<or> (\<exists>us. xs = pre @ seg @ us \<and> post = us @ h # ys)"
  using assms by (auto simp: append_eq_append_conv2 append_eq_Cons_conv Cons_eq_append_conv)

text \<open>A new element in front of the list leaves every other bucket alone.\<close>

lemma stretch_front:
  assumes "stretch L P b" and "\<not> P a"
  shows "stretch (a # L) P b"
  using assms(1)
proof (rule stretchE)
  fix pre seg post
  assume s: "L = pre @ seg @ post" "length seg = fst b" "seg \<noteq> [] \<longrightarrow> snd b = Some (hd seg)"
    "\<forall>a \<in> set L. P a \<longleftrightarrow> a \<in> set seg" "set seg = {a \<in> set L. P a}"
  have P: "\<forall>x \<in> set (a # L). P x \<longleftrightarrow> x \<in> set seg" using assms(2) by (auto simp: s(5))
  show ?thesis by (rule stretchI [OF _ s(2,3) P, of "a # pre" post]) (simp add: s(1))
qed

text \<open>So does a new element in front of another bucket's first element, and the removal of another element.\<close>

lemma stretch_before:
  assumes "stretch (xs @ h # ys) P b" and "\<not> P h" and "\<not> P a"
  shows "stretch (xs @ a # h # ys) P b"
  using assms(1)
proof (rule stretchE)
  fix pre seg post
  assume s: "xs @ h # ys = pre @ seg @ post" "length seg = fst b" "seg \<noteq> [] \<longrightarrow> snd b = Some (hd seg)"
    "\<forall>a \<in> set (xs @ h # ys). P a \<longleftrightarrow> a \<in> set seg" "set seg = {a \<in> set (xs @ h # ys). P a}"
  have P: "\<forall>x \<in> set (xs @ a # h # ys). P x \<longleftrightarrow> x \<in> set seg" using assms(3) by (auto simp: s(5))
  have "h \<notin> set seg" using assms(2) by (simp add: s(5))
  from beside [OF s(1) this] show ?thesis
  proof (elim disjE exE conjE)
    fix us assume "pre = xs @ h # us" "ys = us @ seg @ post"
    then show ?thesis by (intro stretchI [OF _ s(2,3) P, of "xs @ a # h # us" post]) simp
  next
    fix us assume "xs = pre @ seg @ us" "post = us @ h # ys"
    then show ?thesis by (intro stretchI [OF _ s(2,3) P, of pre "us @ a # h # ys"]) simp
  qed
qed

lemma stretch_remove_other:
  assumes "stretch (xs @ a # ys) P b" and "\<not> P a"
  shows "stretch (xs @ ys) P b"
  using assms(1)
proof (rule stretchE)
  fix pre seg post
  assume s: "xs @ a # ys = pre @ seg @ post" "length seg = fst b" "seg \<noteq> [] \<longrightarrow> snd b = Some (hd seg)"
    "\<forall>x \<in> set (xs @ a # ys). P x \<longleftrightarrow> x \<in> set seg" "set seg = {x \<in> set (xs @ a # ys). P x}"
  have P: "\<forall>x \<in> set (xs @ ys). P x \<longleftrightarrow> x \<in> set seg" by (auto simp: s(5))
  have "a \<notin> set seg" using assms(2) by (simp add: s(5))
  from beside [OF s(1) this] show ?thesis
  proof (elim disjE exE conjE)
    fix us assume "pre = xs @ a # us" "ys = us @ seg @ post"
    then show ?thesis by (intro stretchI [OF _ s(2,3) P, of "xs @ us" post]) simp
  next
    fix us assume "xs = pre @ seg @ us" "post = us @ a # ys"
    then show ?thesis by (intro stretchI [OF _ s(2,3) P, of pre "us @ ys"]) simp
  qed
qed

section \<open>Linking a new element\<close>

definition payload :: "hmem \<Rightarrow> nat \<Rightarrow> (nat \<times> bytes) option" where
  "payload m a = map_option (\<lambda>e. (data e, pKey e)) (elems m a)"

lemma payload_None: "payload m a = None \<longleftrightarrow> elems m a = None"
  by (simp add: payload_def)

text \<open>The list before and after, what is kept, and the frame.\<close>

definition relinked :: "nat list \<Rightarrow> hash \<Rightarrow> hmem \<Rightarrow> nat list \<Rightarrow> hash \<Rightarrow> hmem \<Rightarrow> bool" where
  "relinked L pH m L' pH' m' \<longleftrightarrow>
     linked (elems m') None L' None \<and> distinct L' \<and> hfirst pH' = head_or L' None \<and>
     hcount pH' = hcount pH \<and> htsize pH' = htsize pH \<and> payload m' = payload m \<and>
     (\<forall>b. b \<notin> set L' \<longrightarrow> elems m' b = elems m b) \<and>
     next_addr m' = next_addr m \<and> arrays m' = arrays m \<and> allocs m' = allocs m"

definition buckets_ok :: "nat list \<Rightarrow> (nat \<Rightarrow> nat) \<Rightarrow> (nat \<times> nat option) list \<Rightarrow> bool" where
  "buckets_ok L I tab \<longleftrightarrow> (\<forall>h < length tab. stretch L (\<lambda>a. I a = h) (tab ! h))"

lemma buckets_update:
  assumes "stretch L (\<lambda>a. I a = h) b" and "\<And>k. k < length tab \<Longrightarrow> k \<noteq> h \<Longrightarrow> stretch L (\<lambda>a. I a = k) (tab ! k)"
  shows "buckets_ok L I (tab[h := b])"
  unfolding buckets_ok_def
proof (intro allI impI)
  fix k assume "k < length (tab[h := b])"
  then show "stretch L (\<lambda>a. I a = k) (tab[h := b] ! k)" using assms by (cases "k = h") auto
qed

lemma upd_Some: "elems m a = Some e \<Longrightarrow> upd a f m = Some (m\<lparr>elems := (elems m)(a := Some (f e))\<rparr>)"
  by (simp add: upd_def)

text \<open>In front of the list.\<close>

lemma insert_front:
  assumes "linked (elems m) None L None" and "distinct L" and "a \<notin> set L" and "elems m a = Some e"
    and "hfirst pH = head_or L None"
  shows "\<exists>m'. (do {
       m \<leftarrow> upd a (\<lambda>e. e\<lparr>next_elem := hfirst pH\<rparr>) m;
       m \<leftarrow> (case hfirst pH of Some f \<Rightarrow> upd f (\<lambda>e. e\<lparr>prev_elem := Some a\<rparr>) m | None \<Rightarrow> Some m);
       m \<leftarrow> upd a (\<lambda>e. e\<lparr>prev_elem := None\<rparr>) m;
       Some (pH\<lparr>hfirst := Some a\<rparr>, m) }) = Some (pH\<lparr>hfirst := Some a\<rparr>, m') \<and>
     relinked L pH m (a # L) (pH\<lparr>hfirst := Some a\<rparr>) m'"
proof (cases L)
  case Nil
  then show ?thesis using assms by (auto simp: upd_Some relinked_def payload_def fun_eq_iff)
next
  case (Cons f fs)
  then obtain ef where "elems m f = Some ef" "f \<noteq> a" using assms by auto
  then show ?thesis using assms Cons by (auto simp: upd_Some relinked_def payload_def fun_eq_iff)
qed

text \<open>In front of an element of the list.\<close>

lemma insert_before:
  assumes "linked (elems m) None (xs @ p # ys) None" and "distinct (xs @ p # ys)" and "a \<notin> set (xs @ p # ys)"
    and "elems m a = Some e" and "hfirst pH = head_or (xs @ p # ys) None"
  shows "\<exists>pH' m'. (do {
       head \<leftarrow> elems m p;
       m \<leftarrow> upd a (\<lambda>e. e\<lparr>next_elem := Some p, prev_elem := prev_elem head\<rparr>) m;
       (pH, m) \<leftarrow>
         (case prev_elem head of
            Some q \<Rightarrow> do { m \<leftarrow> upd q (\<lambda>e. e\<lparr>next_elem := Some a\<rparr>) m; Some (pH, m) }
          | None \<Rightarrow> Some (pH\<lparr>hfirst := Some a\<rparr>, m));
       m \<leftarrow> upd p (\<lambda>e. e\<lparr>prev_elem := Some a\<rparr>) m;
       Some (pH, m) }) = Some (pH', m') \<and>
     ht pH' = ht pH \<and> relinked (xs @ p # ys) pH m (xs @ a # p # ys) pH' m'"
proof (cases xs rule: rev_cases)
  case Nil
  obtain ep where "elems m p = Some ep" "prev_elem ep = None" "next_elem ep = head_or ys None" "p \<noteq> a"
    using assms Nil by auto
  then show ?thesis using assms Nil by (auto simp: upd_Some relinked_def payload_def fun_eq_iff)
next
  case (snoc zs q)
  obtain ep where ep: "elems m p = Some ep" "prev_elem ep = Some q" "next_elem ep = head_or ys None" "p \<noteq> a" "p \<noteq> q"
    using assms snoc by (auto simp: linked_append)
  obtain eq where eq: "elems m q = Some eq" "next_elem eq = Some p" "prev_elem eq = last_or zs None" "q \<noteq> a"
    using assms snoc by (auto simp: linked_append)
  show ?thesis
    using assms ep eq unfolding snoc
    by (cases zs) (auto simp: upd_Some relinked_def payload_def fun_eq_iff linked_append)
qed

text \<open>Linking without buckets, and into a bucket.\<close>

lemma insertElement_list:
  assumes "linked (elems m) None L None" and "distinct L" and "a \<notin> set L" and "elems m a = Some e"
    and "hfirst pH = head_or L None" and "ht pH = None"
  shows "\<exists>pH' m'. insertElement pH None a m = Some (pH', m') \<and> relinked L pH m (a # L) pH' m' \<and> ht pH' = None"
  using insert_front [OF assms(1-5)] assms(6) by (auto simp: insertElement_def simp del: bind_eq_Some_conv)

lemma insertElement_bucket:
  assumes "linked (elems m) None L None" and "distinct L" and "a \<notin> set L" and "elems m a = Some e"
    and "hfirst pH = head_or L None" and tab: "ht pH = Some tab" "buckets_ok L I tab" and h: "h < length tab" "I a = h"
    and len: "length L + 1 < 2 ^ 32"
  shows "\<exists>L' pH' m' tab'. insertElement pH (Some h) a m = Some (pH', m') \<and> relinked L pH m L' pH' m' \<and>
           set L' = insert a (set L) \<and> ht pH' = Some tab' \<and> length tab' = length tab \<and> buckets_ok L' I tab'"
proof -
  obtain c chain where b: "tab ! h = (c, chain)" by fastforce
  define pH1 where "pH1 = pH\<lparr>ht := Some (tab[h := ((c + 1) mod 2 ^ 32, Some a)])\<rparr>"
  have first1: "hfirst pH1 = head_or L None" using assms(5) by (simp add: pH1_def)
  have ok: "stretch L (\<lambda>x. I x = k) (tab ! k)" if "k < length tab" for k using tab(2) that by (simp add: buckets_ok_def)
  obtain pre seg post where s: "L = pre @ seg @ post" "length seg = c"
    "seg \<noteq> [] \<longrightarrow> chain = Some (hd seg)" "\<forall>x \<in> set L. I x = h \<longleftrightarrow> x \<in> set seg"
    "set seg = {x \<in> set L. I x = h}"
    by (rule stretchE [OF ok [OF h(1), unfolded b], unfolded fst_conv snd_conv])
  have c: "(c + 1) mod 2 ^ 32 = c + 1" using s(1,2) len by simp
  have whole: "buckets_ok L' I (tab[h := ((c + 1) mod 2 ^ 32, Some a)])"
    if "stretch L' (\<lambda>x. I x = h) (c + 1, Some a)" "\<And>k. k < length tab \<Longrightarrow> k \<noteq> h \<Longrightarrow> stretch L' (\<lambda>x. I x = k) (tab ! k)" for L'
    unfolding c using that by (rule buckets_update)
  have relinked_pH: "relinked L pH m L' pH' m'" if "relinked L pH1 m L' pH' m'" for L' pH' m'
    using that by (simp add: relinked_def pH1_def)
  show ?thesis
  proof (cases "seg = []")
    case True
    obtain m' where m': "insertElement pH (Some h) a m = Some (pH1\<lparr>hfirst := Some a\<rparr>, m')"
      "relinked L pH1 m (a # L) (pH1\<lparr>hfirst := Some a\<rparr>) m'"
      using insert_front [OF assms(1-4) first1] tab(1) h(1) b True s(2)
      by (auto simp: insertElement_def pH1_def simp del: bind_eq_Some_conv)
    have "stretch (a # L) (\<lambda>x. I x = h) (c + 1, Some a)"
      by (rule stretchI [of _ "[]" "[a]" L]) (use True s(2,4) h(2) assms(3) in auto)
    moreover have "stretch (a # L) (\<lambda>x. I x = k) (tab ! k)" if "k < length tab" "k \<noteq> h" for k
      by (rule stretch_front [OF ok [OF that(1)]]) (use h(2) that(2) in simp)
    ultimately have "buckets_ok (a # L) I (tab[h := ((c + 1) mod 2 ^ 32, Some a)])" by (rule whole)
    with m'(1) relinked_pH [OF m'(2)] show ?thesis
      by (intro exI [of _ "a # L"] exI [of _ "pH1\<lparr>hfirst := Some a\<rparr>"] exI [of _ m']
          exI [of _ "tab[h := ((c + 1) mod 2 ^ 32, Some a)]"]) (simp add: pH1_def)
  next
    case False
    then obtain p seg' where seg: "seg = p # seg'" by (cases seg) auto
    have L: "L = pre @ p # (seg' @ post)" using s(1) seg by simp
    have ins: "insertElement pH (Some h) a m = (do {
       head \<leftarrow> elems m p;
       m \<leftarrow> upd a (\<lambda>e. e\<lparr>next_elem := Some p, prev_elem := prev_elem head\<rparr>) m;
       (pH, m) \<leftarrow>
         (case prev_elem head of
            Some q \<Rightarrow> do { m \<leftarrow> upd q (\<lambda>e. e\<lparr>next_elem := Some a\<rparr>) m; Some (pH1, m) }
          | None \<Rightarrow> Some (pH1\<lparr>hfirst := Some a\<rparr>, m));
       m \<leftarrow> upd p (\<lambda>e. e\<lparr>prev_elem := Some a\<rparr>) m;
       Some (pH, m) })"
      using tab(1) h(1) b s(2,3) seg by (simp add: insertElement_def pH1_def cong: option.case_cong)
    obtain pH' m' where m': "insertElement pH (Some h) a m = Some (pH', m')" "ht pH' = ht pH1"
      "relinked L pH1 m (pre @ a # p # seg' @ post) pH' m'"
      using insert_before [OF assms(1-3) [unfolded L] assms(4) first1 [unfolded L], folded ins L] by blast
    have "stretch (pre @ a # p # seg' @ post) (\<lambda>x. I x = h) (c + 1, Some a)"
      by (rule stretchI [of _ pre "a # seg" post]) (use s(2,4) L h(2) seg in auto)
    moreover have "stretch (pre @ a # p # seg' @ post) (\<lambda>x. I x = k) (tab ! k)" if "k < length tab" "k \<noteq> h" for k
    proof (rule stretch_before)
      show "stretch (pre @ p # seg' @ post) (\<lambda>x. I x = k) (tab ! k)" using ok that L by simp
      show "I p \<noteq> k" using s(4) L seg that(2) by auto
    qed (use h(2) that in simp)
    ultimately have "buckets_ok (pre @ a # p # seg' @ post) I (tab[h := ((c + 1) mod 2 ^ 32, Some a)])"
      by (rule whole)
    with m'(1,2) relinked_pH [OF m'(3)] show ?thesis
      by (intro exI [of _ "pre @ a # p # seg' @ post"] exI [of _ pH'] exI [of _ m']
          exI [of _ "tab[h := ((c + 1) mod 2 ^ 32, Some a)]"]) (auto simp: pH1_def L)
  qed
qed

section \<open>Resizing\<close>

lemma rehash_loop_ok:
  assumes "\<And>a. a \<in> set R \<union> set L \<Longrightarrow> \<exists>e. elems m a = Some e \<and> I a = unat (strHash (pKey e)) mod size'"
    and "0 < size'" and "linked (elems m) None L None" and "distinct (L @ R)" and "hfirst pH = head_or L None"
    and "linked (elems m) p R None" and "ht pH = Some tab" "buckets_ok L I tab" "length tab = size'"
    and "length L + length R < 2 ^ 32" and "length R \<le> n"
  shows "\<exists>L' pH' m' tab'. rehash_loop n size' (head_or R None) pH m = Some (pH', m') \<and> relinked L pH m L' pH' m' \<and>
           set L' = set L \<union> set R \<and> ht pH' = Some tab' \<and> length tab' = size' \<and> buckets_ok L' I tab'"
  using assms
proof (induction R arbitrary: n p L pH m tab)
  case Nil
  then show ?case by (cases n) (auto simp: relinked_def)
next
  case (Cons a R)
  obtain k where n: "n = Suc k" using Cons.prems(11) by (cases n) auto
  obtain e where e: "elems m a = Some e" "I a = unat (strHash (pKey e)) mod size'" "next_elem e = head_or R None"
    using Cons.prems(1) [of a] Cons.prems(6) by auto
  have "I a < size'" using e(2) Cons.prems(2) by simp
  then obtain L1 pH1 m1 tab1 where i: "insertElement pH (Some (I a)) a m = Some (pH1, m1)" "relinked L pH m L1 pH1 m1"
    "set L1 = insert a (set L)" "ht pH1 = Some tab1" "length tab1 = size'" "buckets_ok L1 I tab1"
    using insertElement_bucket [of m L a e pH tab I "I a"] Cons.prems e(1) by auto
  have pay: "payload m1 = payload m" and frame: "\<forall>b. b \<notin> set L1 \<longrightarrow> elems m1 b = elems m b"
    and l1: "linked (elems m1) None L1 None" "distinct L1" "hfirst pH1 = head_or L1 None"
    using i(2) by (auto simp: relinked_def)
  have keys: "\<exists>e. elems m1 b = Some e \<and> I b = unat (strHash (pKey e)) mod size'" if "b \<in> set R \<union> set L1" for b
  proof -
    have "b \<in> set (a # R) \<union> set L" using that i(3) by auto
    then obtain e' where "elems m b = Some e'" "I b = unat (strHash (pKey e')) mod size'" using Cons.prems(1) by blast
    then show ?thesis using fun_cong [OF pay, of b] by (auto simp: payload_def)
  qed
  have "linked (elems m) (Some a) R None" using Cons.prems(6) by simp
  moreover have "\<And>b. b \<in> set R \<Longrightarrow> elems m1 b = elems m b" using frame i(3) Cons.prems(4) by auto
  ultimately have "linked (elems m1) (Some a) R None"
    by (induction R arbitrary: a) auto
  moreover have "distinct (L1 @ R)" using l1(2) i(3) Cons.prems(4) by auto
  moreover have "length L1 = length L + 1"
    using l1(2) i(3) Cons.prems(4) by (metis Suc_eq_plus1 card_insert_disjoint distinct.simps(2) distinct_append
        distinct_card finite_set IntI empty_iff list.set_intros(1))
  ultimately obtain L' pH' m' tab' where r: "rehash_loop k size' (head_or R None) pH1 m1 = Some (pH', m')"
    "relinked L1 pH1 m1 L' pH' m'" "set L' = set L1 \<union> set R" "ht pH' = Some tab'" "length tab' = size'" "buckets_ok L' I tab'"
    using Cons.IH [OF keys Cons.prems(2) l1(1) _ l1(3) _ i(4,6,5), of "Some a" k] Cons.prems(10,11) n by auto
  have "relinked L pH m L' pH' m'"
    using r(2,3) i(2) by (auto simp: relinked_def)
  then show ?case using r i n e by auto
qed

end
