(* ===== verification/Sqlite_Hash_Spec.thy ===== *)
theory Sqlite_Hash_Spec
  imports Sqlite_Hash_List
begin

text \<open>
  What the hash table promises: it is a map from names to data, where names that differ only in case are the
  same. The invariant relates the linked elements on the heap to the list of their addresses, and each bucket to a
  stretch of that list; every operation keeps it and acts on the map it stands for.
\<close>

section \<open>The invariant of a table\<close>

definition key_at :: "hmem \<Rightarrow> nat \<Rightarrow> bytes" where
  "key_at m a = snd (the (payload m a))"

definition data_at :: "hmem \<Rightarrow> nat \<Rightarrow> nat" where
  "data_at m a = fst (the (payload m a))"

definition index :: "hmem \<Rightarrow> nat \<Rightarrow> nat \<Rightarrow> nat" where
  "index m n a = unat (strHash (key_at m a)) mod n"

definition threaded :: "hash \<Rightarrow> hmem \<Rightarrow> nat list \<Rightarrow> bool" where
  "threaded pH m L \<longleftrightarrow>
     linked (elems m) None L None \<and> distinct L \<and> hfirst pH = head_or L None \<and>
     (case ht pH of None \<Rightarrow> htsize pH = 0
      | Some tab \<Rightarrow> length tab = htsize pH \<and> 0 < htsize pH \<and> buckets_ok L (index m (htsize pH)) tab)"

abbreviation array_count :: "hash \<Rightarrow> nat" where
  "array_count pH \<equiv> (case ht pH of None \<Rightarrow> 0 | Some _ \<Rightarrow> 1)"

text \<open>The elements of a table have data and names that differ by more than case.\<close>

definition fields_ok :: "hmem \<Rightarrow> nat set \<Rightarrow> bool" where
  "fields_ok m A \<longleftrightarrow> (\<forall>a \<in> A. data_at m a \<noteq> 0 \<and> name (key_at m a)) \<and> inj_on (\<lambda>a. lower (key_at m a)) A"

text \<open>\<open>E\<close> holds the elements of other tables and \<open>base\<close> counts their bucket arrays.\<close>

definition hash_inv :: "(nat \<Rightarrow> helem option) \<Rightarrow> nat \<Rightarrow> hash \<Rightarrow> hmem \<Rightarrow> nat list \<Rightarrow> bool" where
  "hash_inv E base pH m L \<longleftrightarrow>
     threaded pH m L \<and> hcount pH = length L \<and> length L < 2 ^ 32 \<and> arrays m = base + array_count pH \<and>
     (\<forall>a. a \<notin> set L \<longrightarrow> elems m a = E a) \<and> (\<forall>a \<in> set L. E a = None) \<and> (\<forall>a \<ge> next_addr m. elems m a = None) \<and>
     fields_ok m (set L)"

lemma fields_ok_mono: "fields_ok m A \<Longrightarrow> C \<subseteq> A \<Longrightarrow> (\<And>a. a \<in> C \<Longrightarrow> payload m' a = payload m a) \<Longrightarrow> fields_ok m' C"
proof -
  assume ok: "fields_ok m A" and sub: "C \<subseteq> A" and pay: "\<And>a. a \<in> C \<Longrightarrow> payload m' a = payload m a"
  have same: "key_at m' a = key_at m a" "data_at m' a = data_at m a" if "a \<in> C" for a
    using pay [OF that] by (simp_all add: data_at_def key_at_def)
  have "inj_on (\<lambda>a. lower (key_at m a)) C" using ok sub by (auto simp: fields_ok_def intro: inj_on_subset)
  then have "inj_on (\<lambda>a. lower (key_at m' a)) C" using same by (simp cong: inj_on_cong)
  then show ?thesis using ok sub same by (auto simp: fields_ok_def)
qed

lemma fields_ok_empty [simp]: "fields_ok m {}"
  by (simp add: fields_ok_def)

definition contents :: "hmem \<Rightarrow> nat list \<Rightarrow> bytes \<Rightarrow> nat" where
  "contents m L k = (case List.find (\<lambda>a. lower (key_at m a) = k) L of None \<Rightarrow> 0 | Some a \<Rightarrow> data_at m a)"

lemma elem_fields: "elems m a = Some e \<Longrightarrow> key_at m a = pKey e" "elems m a = Some e \<Longrightarrow> data_at m a = data e"
  by (auto simp: key_at_def data_at_def payload_def)

lemma contents_at:
  assumes "inj_on (\<lambda>a. lower (key_at m a)) (set L)" and "a \<in> set L"
  shows "contents m L (lower (key_at m a)) = data_at m a"
proof -
  have "List.find (\<lambda>b. lower (key_at m b) = lower (key_at m a)) L \<noteq> None"
    using assms(2) by (auto simp: find_None_iff)
  then obtain b where b: "List.find (\<lambda>b. lower (key_at m b) = lower (key_at m a)) L = Some b" by blast
  then have "b \<in> set L" "lower (key_at m b) = lower (key_at m a)" by (auto simp: find_Some_iff)
  then have "b = a" using assms by (auto dest: inj_onD)
  then show ?thesis using b by (simp add: contents_def)
qed

lemma contents_none: "\<forall>a \<in> set L. lower (key_at m a) \<noteq> k \<Longrightarrow> contents m L k = 0"
proof -
  assume "\<forall>a \<in> set L. lower (key_at m a) \<noteq> k"
  then have "List.find (\<lambda>a. lower (key_at m a) = k) L = None" by (simp add: find_None_iff)
  then show ?thesis by (simp add: contents_def)
qed

lemma contents_iff:
  assumes "fields_ok m (set L)" and "d \<noteq> 0"
  shows "contents m L k = d \<longleftrightarrow> (\<exists>a \<in> set L. lower (key_at m a) = k \<and> data_at m a = d)"
proof
  have inj: "inj_on (\<lambda>a. lower (key_at m a)) (set L)" using assms(1) by (simp add: fields_ok_def)
  show "\<exists>a \<in> set L. lower (key_at m a) = k \<and> data_at m a = d" if eq: "contents m L k = d"
  proof -
    obtain a where a: "a \<in> set L" "lower (key_at m a) = k" using contents_none [of L m k] assms(2) eq by auto
    then have "data_at m a = d" using contents_at [OF inj a(1)] eq by simp
    then show ?thesis using a by blast
  qed
  show "contents m L k = d" if "\<exists>a \<in> set L. lower (key_at m a) = k \<and> data_at m a = d"
    using that contents_at [OF inj] by auto
qed

text \<open>The map after a change of the elements with one name.\<close>

lemma contents_change:
  assumes "fields_ok m (set L)" and "fields_ok m' (set L')"
    and same: "set L - {a} = set L' - {a}" "\<And>b. b \<in> set L - {a} \<Longrightarrow> payload m' b = payload m b"
    and name: "a \<in> set L \<Longrightarrow> lower (key_at m a) = k" "a \<in> set L' \<Longrightarrow> lower (key_at m' a) = k" and d: "contents m' L' k = d"
  shows "contents m' L' = (contents m L)(k := d)"
proof
  fix k'
  have sub: "\<exists>b \<in> set L2. lower (key_at m2 b) = k' \<and> data_at m2 b = d"
    if "b \<in> set L1" "lower (key_at m1 b) = k'" "data_at m1 b = d" "k' \<noteq> k" "set L1 - {a} = set L2 - {a}"
      "\<And>b. b \<in> set L1 - {a} \<Longrightarrow> payload m2 b = payload m1 b" "a \<in> set L1 \<Longrightarrow> lower (key_at m1 a) = k"
    for m1 L1 m2 L2 b d
  proof -
    have "b \<noteq> a" using that(1,2,4,7) by auto
    then have b: "b \<in> set L1 - {a}" using that(1) by simp
    then have "payload m2 b = payload m1 b" by (rule that(6))
    then show ?thesis using b that(2,3,5) by (intro bexI [of _ b]) (auto simp: key_at_def data_at_def)
  qed
  have "contents m L k' = d \<longleftrightarrow> contents m' L' k' = d" if "d \<noteq> 0" "k' \<noteq> k" for d
    unfolding contents_iff [OF assms(1) that(1)] contents_iff [OF assms(2) that(1)]
    using sub [OF _ _ _ that(2) same name(1)] sub [OF _ _ _ that(2) same(1) [symmetric] _ name(2), of _ d m] same
    by auto
  then show "contents m' L' k' = ((contents m L)(k := d)) k'" using d by (metis fun_upd_apply)
qed

lemma threaded_mem: "threaded pH m L \<Longrightarrow> a \<in> set L \<Longrightarrow> \<exists>e. elems m a = Some e"
  using linked_mem [of "elems m" None L None a] by (simp add: threaded_def)

section \<open>Lookup\<close>

lemma find_loop_list:
  "linked (elems m) p (seg @ post) None \<Longrightarrow>
   find_loop (length seg) (head_or seg x) k m = Some (List.find (\<lambda>a. sqlite3StrICmp (key_at m a) k = 0) seg)"
proof (induction seg arbitrary: p x)
  case (Cons a seg)
  then obtain e where "elems m a = Some e" "next_elem e = head_or seg (head_or post None)" by auto
  then show ?case using Cons.IH [of "Some a" "head_or post None"] Cons.prems elem_fields [of m a e] by auto
qed simp

lemma find_elem:
  assumes "threaded pH m L" and "ht pH = None \<Longrightarrow> hcount pH = length L" and "name k"
    and "\<forall>a \<in> set L. name (key_at m a)"
  shows "\<exists>r h. findElementWithHash pH k m = Some (r, h) \<and>
     (case r of None \<Rightarrow> \<forall>a \<in> set L. lower (key_at m a) \<noteq> lower k
      | Some a \<Rightarrow> a \<in> set L \<and> lower (key_at m a) = lower k) \<and>
     (ht pH \<noteq> None \<longrightarrow> h = unat (strHash k) mod htsize pH)"
proof -
  have found: "case List.find (\<lambda>a. sqlite3StrICmp (key_at m a) k = 0) seg of
      None \<Rightarrow> \<forall>a \<in> set L. lower (key_at m a) \<noteq> lower k | Some a \<Rightarrow> a \<in> set L \<and> lower (key_at m a) = lower k"
    if "set seg \<subseteq> set L" "\<forall>a \<in> set L. lower (key_at m a) = lower k \<longrightarrow> a \<in> set seg" for seg
  proof -
    have "sqlite3StrICmp (key_at m a) k = 0 \<longleftrightarrow> lower (key_at m a) = lower k" if "a \<in> set L" for a
      using StrICmp_lower assms(3,4) that by blast
    note same = this
    show ?thesis
    proof (cases "List.find (\<lambda>a. sqlite3StrICmp (key_at m a) k = 0) seg")
      case None
      then have "\<forall>a \<in> set seg. sqlite3StrICmp (key_at m a) k \<noteq> 0" by (simp add: find_None_iff)
      then show ?thesis using that same None by auto
    next
      case (Some a)
      then have "a \<in> set seg" "sqlite3StrICmp (key_at m a) k = 0" by (auto simp: find_Some_iff)
      then show ?thesis using that(1) same Some by auto
    qed
  qed
  have link: "linked (elems m) None L None" using assms(1) by (simp add: threaded_def)
  show ?thesis
  proof (cases "ht pH")
    case None
    then show ?thesis
      using assms(1,2) find_loop_list [of m None L "[]" None k] link found [of L]
      by (auto simp: findElementWithHash_def threaded_def)
  next
    case (Some tab)
    let ?h = "unat (strHash k) mod htsize pH"
    have tab: "length tab = htsize pH" "?h < htsize pH" "stretch L (\<lambda>a. index m (htsize pH) a = ?h) (tab ! ?h)"
      using assms(1) Some by (auto simp: threaded_def buckets_ok_def)
    obtain pre seg post where s: "L = pre @ seg @ post" "length seg = fst (tab ! ?h)"
      "seg \<noteq> [] \<longrightarrow> snd (tab ! ?h) = Some (hd seg)" "\<forall>a \<in> set L. index m (htsize pH) a = ?h \<longleftrightarrow> a \<in> set seg"
      "set seg = {a \<in> set L. index m (htsize pH) a = ?h}"
      by (rule stretchE [OF tab(3)])
    have "linked (elems m) (last_or pre None) (seg @ post) None" using link by (simp add: s(1) linked_append)
    then have "find_loop (length seg) (snd (tab ! ?h)) k m =
        Some (List.find (\<lambda>a. sqlite3StrICmp (key_at m a) k = 0) seg)"
      using find_loop_list [of m "last_or pre None" seg post "snd (tab ! ?h)" k] s(3) by (cases seg) auto
    moreover have "set seg \<subseteq> set L" unfolding s(5) by blast
    moreover have "\<forall>a \<in> set L. lower (key_at m a) = lower k \<longrightarrow> a \<in> set seg"
    proof (intro ballI impI)
      fix a assume a: "a \<in> set L" "lower (key_at m a) = lower k"
      have "index m (htsize pH) a = ?h" using strHash_lower [OF a(2)] by (simp add: index_def)
      then show "a \<in> set seg" using s(4) a(1) by blast
    qed
    ultimately show ?thesis
      using Some tab(1,2) s(2) found [of seg] by (auto simp: findElementWithHash_def Let_def)
  qed
qed

section \<open>Removal\<close>

lemma free_elems_list:
  "linked (elems m) p L None \<Longrightarrow> distinct L \<Longrightarrow> length L \<le> n \<Longrightarrow>
   free_elems n (head_or L None) m = Some (m\<lparr>elems := \<lambda>a. if a \<in> set L then None else elems m a\<rparr>)"
proof (induction L arbitrary: n m p)
  case (Cons a L)
  then obtain e k where e: "elems m a = Some e" "next_elem e = head_or L None" "n = Suc k" by (cases n) auto
  let ?m = "m\<lparr>elems := (elems m)(a := None)\<rparr>"
  have "free_elems k (head_or L None) ?m = Some (?m\<lparr>elems := \<lambda>b. if b \<in> set L then None else elems ?m b\<rparr>)"
  proof (rule Cons.IH)
    show "linked (elems ?m) (Some a) L None"
      using Cons.prems linked_frame [of a L "elems m" None "Some a" None] by (simp add: fun_upd_def)
  qed (use Cons.prems e(3) in auto)
  moreover have "(\<lambda>b. if b \<in> set L then None else elems ?m b) = (\<lambda>b. if b \<in> set (a # L) then None else elems m b)"
    by (auto simp: fun_eq_iff)
  ultimately show ?case using e by (simp add: free_elem_def)
qed simp

lemma hash_clear_ok:
  assumes "hash_inv E base pH m L"
  shows "\<exists>m'. sqlite3HashClear pH m = Some (sqlite3HashInit, m') \<and> hash_inv E base sqlite3HashInit m' [] \<and>
           elems m' = E \<and> arrays m' = base"
proof -
  define m1 where "m1 = m\<lparr>arrays := base\<rparr>"
  have "free_array pH m = Some m1"
    using assms by (cases "ht pH") (auto simp: free_array_def hash_inv_def m1_def)
  moreover have "free_elems (hcount pH) (hfirst pH) m1 = Some (m1\<lparr>elems := \<lambda>a. if a \<in> set L then None else elems m1 a\<rparr>)"
    using assms free_elems_list [of m1 None L "hcount pH"] by (simp add: hash_inv_def threaded_def m1_def)
  moreover have "(\<lambda>a. if a \<in> set L then None else elems m1 a) = E"
    using assms by (auto simp: hash_inv_def m1_def)
  moreover have "\<forall>a \<ge> next_addr m. E a = None"
  proof (intro allI impI)
    fix a assume "next_addr m \<le> a"
    then show "E a = None" using assms by (cases "a \<in> set L") (auto simp: hash_inv_def)
  qed
  ultimately show ?thesis
    by (auto simp: sqlite3HashClear_def sqlite3HashInit_def hash_inv_def threaded_def m1_def)
qed

lemma stretch_remove_own:
  assumes "stretch (xs @ a # ys) P (c, chain)" and "P a" and "distinct (xs @ a # ys)"
  shows "c \<noteq> 0" and "stretch (xs @ ys) P (c - 1, if chain = Some a then head_or ys None else chain)"
proof -
  obtain pre seg post where s: "xs @ a # ys = pre @ seg @ post" "length seg = c"
    "seg \<noteq> [] \<longrightarrow> chain = Some (hd seg)" "\<forall>x \<in> set (xs @ a # ys). P x \<longleftrightarrow> x \<in> set seg"
    "set seg = {x \<in> set (xs @ a # ys). P x}"
    by (rule stretchE [OF assms(1), unfolded fst_conv snd_conv])
  have "a \<in> set seg" using assms(2) by (simp add: s(5))
  then obtain us vs where seg: "seg = us @ a # vs" by (meson split_list)
  then show "c \<noteq> 0" using s(2) by auto
  have "xs @ a # ys = (pre @ us) @ a # (vs @ post)" using s(1) seg by simp
  moreover have "a \<notin> set xs" "a \<notin> set ys" using assms(3) by auto
  ultimately have xy: "xs = pre @ us" "ys = vs @ post"
    using append_Cons_eq_iff [of a xs ys "pre @ us" "vs @ post"] by auto
  show "stretch (xs @ ys) P (c - 1, if chain = Some a then head_or ys None else chain)"
  proof (rule stretchI [of _ pre "us @ vs" post])
    show "us @ vs \<noteq> [] \<longrightarrow> snd (c - 1, if chain = Some a then head_or ys None else chain) = Some (hd (us @ vs))"
      using s(3) seg xy assms(3) by (cases us; cases vs) auto
    show "\<forall>x \<in> set (xs @ ys). P x \<longleftrightarrow> x \<in> set (us @ vs)" using s(4) seg assms(3) by auto
  qed (use s(2) seg xy in auto)
qed

text \<open>Taking an element out of the list.\<close>

lemma unlink:
  assumes "linked (elems m) None (xs @ a # ys) None" and "distinct (xs @ a # ys)" and "elems m a = Some e"
  shows "\<exists>m1 m2 m3.
     (case prev_elem e of Some q \<Rightarrow> do { m \<leftarrow> upd q (\<lambda>x. x\<lparr>next_elem := next_elem e\<rparr>) m; Some (pH, m) }
      | None \<Rightarrow> Some (pH\<lparr>hfirst := next_elem e\<rparr>, m)) =
        Some (if xs = [] then pH\<lparr>hfirst := head_or ys None\<rparr> else pH, m1) \<and>
     (case next_elem e of Some q \<Rightarrow> upd q (\<lambda>x. x\<lparr>prev_elem := prev_elem e\<rparr>) m1 | None \<Rightarrow> Some m1) = Some m2 \<and>
     free_elem a m2 = Some m3 \<and> linked (elems m3) None (xs @ ys) None \<and> payload m3 = (payload m)(a := None) \<and>
     (\<forall>b. b \<notin> set (xs @ a # ys) \<longrightarrow> elems m3 b = elems m b) \<and>
     next_addr m3 = next_addr m \<and> arrays m3 = arrays m \<and> allocs m3 = allocs m"
proof -
  have e: "prev_elem e = last_or xs None" "next_elem e = head_or ys None" using assms by (auto simp: linked_append)
  show ?thesis
  proof (cases xs rule: rev_cases)
    case Nil
    show ?thesis
    proof (cases ys)
      case Nil
      then show ?thesis using e \<open>xs = []\<close> assms by (auto simp: free_elem_def payload_def fun_eq_iff)
    next
      case (Cons y zs)
      then obtain ey where "elems m y = Some ey" "y \<noteq> a" using assms \<open>xs = []\<close> by auto
      then show ?thesis
        using e \<open>xs = []\<close> Cons assms by (auto simp: free_elem_def upd_Some payload_def fun_eq_iff)
    qed
  next
    case (snoc ws q)
    then obtain eq where q: "elems m q = Some eq" "q \<noteq> a" using assms by (auto simp: linked_append)
    show ?thesis
    proof (cases ys)
      case Nil
      then show ?thesis
        using e snoc assms q by (auto simp: free_elem_def upd_Some payload_def fun_eq_iff linked_append)
    next
      case (Cons y zs)
      then obtain ey where "elems m y = Some ey" "y \<noteq> a" "y \<noteq> q" using assms snoc by (auto simp: linked_append)
      then show ?thesis
        using e snoc Cons assms q by (auto simp: free_elem_def upd_Some payload_def fun_eq_iff linked_append)
    qed
  qed
qed

lemma buckets_remove:
  assumes "buckets_ok (xs @ a # ys) I tab" and "distinct (xs @ a # ys)" and "I a < length tab"
  shows "fst (tab ! I a) \<noteq> 0"
    and "buckets_ok (xs @ ys) I (tab[I a := (fst (tab ! I a) - 1,
           if snd (tab ! I a) = Some a then head_or ys None else snd (tab ! I a))])"
proof -
  have own: "stretch (xs @ a # ys) (\<lambda>b. I b = I a) (fst (tab ! I a), snd (tab ! I a))"
    using assms(1,3) by (simp add: buckets_ok_def)
  note own = stretch_remove_own [OF own refl assms(2)]
  show "fst (tab ! I a) \<noteq> 0" by (rule own(1))
  have "stretch (xs @ ys) (\<lambda>b. I b = k) (tab ! k)" if "k < length tab" "k \<noteq> I a" for k
    by (rule stretch_remove_other [of xs a]) (use assms(1) that in \<open>auto simp: buckets_ok_def\<close>)
  with own(2) show "buckets_ok (xs @ ys) I (tab[I a := (fst (tab ! I a) - 1,
      if snd (tab ! I a) = Some a then head_or ys None else snd (tab ! I a))])"
    by (rule buckets_update)
qed

lemma stretch_cong: "stretch L P b \<Longrightarrow> (\<And>a. a \<in> set L \<Longrightarrow> P a = Q a) \<Longrightarrow> stretch L Q b"
proof (erule stretchE)
  fix pre seg post
  assume PQ: "\<And>a. a \<in> set L \<Longrightarrow> P a = Q a" and s: "L = pre @ seg @ post" "length seg = fst b"
    "seg \<noteq> [] \<longrightarrow> snd b = Some (hd seg)" "\<forall>a \<in> set L. P a \<longleftrightarrow> a \<in> set seg"
  have "\<forall>a \<in> set L. Q a \<longleftrightarrow> a \<in> set seg" using s(4) PQ by simp
  with s(1-3) show "stretch L Q b" by (rule stretchI)
qed

lemma buckets_cong: "buckets_ok L I tab \<Longrightarrow> (\<And>a. a \<in> set L \<Longrightarrow> I a = I' a) \<Longrightarrow> buckets_ok L I' tab"
  using stretch_cong [of L "\<lambda>a. I a = h" _ "\<lambda>a. I' a = h" for h] by (simp add: buckets_ok_def)

text \<open>Taking it out of its bucket.\<close>

definition unbucket :: "nat \<Rightarrow> nat \<Rightarrow> nat option \<Rightarrow> (nat \<times> nat option) list \<Rightarrow> (nat \<times> nat option) list" where
  "unbucket h a n tab = tab[h := (fst (tab ! h) - 1, if snd (tab ! h) = Some a then n else snd (tab ! h))]"

lemma unbucket_run:
  assumes "\<And>tab. ht pH = Some tab \<Longrightarrow> h < length tab \<and> fst (tab ! h) \<noteq> 0" and "0 < hcount pH" and "hcount pH < 2 ^ 32"
    and "free_elem a m = Some m'" and pH2: "pH2 = pH\<lparr>ht := map_option (unbucket h a n) (ht pH), hcount := hcount pH - 1\<rparr>"
  shows "(do {
      pH \<leftarrow> (case ht pH of None \<Rightarrow> Some pH | Some tab \<Rightarrow>
          if length tab \<le> h then None
          else let (c, chain) = tab ! h; chain = (if chain = Some a then n else chain)
               in if c = 0 then None else Some (pH\<lparr>ht := Some (tab[h := (c - 1, chain)])\<rparr>));
      m \<leftarrow> free_elem a m;
      let pH = pH\<lparr>hcount := (hcount pH + 2 ^ 32 - 1) mod 2 ^ 32\<rparr>;
      if hcount pH = 0 then if hfirst pH = None then sqlite3HashClear pH m else None else Some (pH, m) }) =
    (if hcount pH2 = 0 then if hfirst pH2 = None then sqlite3HashClear pH2 m' else None else Some (pH2, m'))"
proof -
  have count: "(hcount pH + 2 ^ 32 - 1) mod 2 ^ 32 = hcount pH - 1" using assms(2,3) by (auto simp: mod_if)
  show ?thesis
  proof (cases "ht pH")
    case None
    then have "pH2 = pH\<lparr>hcount := hcount pH - 1\<rparr>" by (simp add: pH2)
    then show ?thesis using None count by (simp add: assms(4) Let_def)
  next
    case (Some tab)
    then have "pH2 = pH\<lparr>ht := Some (unbucket h a n tab)\<rparr>\<lparr>hcount := hcount pH - 1\<rparr>" by (simp add: pH2)
    then show ?thesis
      using Some count assms(1) [OF Some] by (simp add: assms(4) Let_def unbucket_def case_prod_beta)
  qed
qed

lemma unbucket_ok:
  assumes "hash_inv E base pH m (xs @ a # ys)" and "ht pH = Some tab" and "h = index m (htsize pH) a"
    and pay: "\<And>b. b \<noteq> a \<Longrightarrow> payload m' b = payload m b"
  shows "h < length tab \<and> fst (tab ! h) \<noteq> 0" and "length (unbucket h a (head_or ys None) tab) = htsize pH"
    and "buckets_ok (xs @ ys) (index m' (htsize pH)) (unbucket h a (head_or ys None) tab)"
proof -
  have inv: "distinct (xs @ a # ys)" "buckets_ok (xs @ a # ys) (index m (htsize pH)) tab"
    "length tab = htsize pH" "0 < htsize pH"
    using assms(1,2) by (auto simp: hash_inv_def threaded_def)
  have lt: "h < length tab" using inv(3,4) assms(3) by (auto simp: index_def)
  note r = buckets_remove [OF inv(2,1), folded assms(3), OF lt]
  have "index m (htsize pH) b = index m' (htsize pH) b" if "b \<in> set (xs @ ys)" for b
    using pay [of b] that inv(1) by (cases "b = a") (auto simp: index_def key_at_def)
  then show "buckets_ok (xs @ ys) (index m' (htsize pH)) (unbucket h a (head_or ys None) tab)"
    unfolding unbucket_def by (rule buckets_cong [OF r(2)])
  show "h < length tab \<and> fst (tab ! h) \<noteq> 0" using lt r(1) by simp
  show "length (unbucket h a (head_or ys None) tab) = htsize pH" using inv(3) by (simp add: unbucket_def)
qed

lemma remove_ok:
  assumes inv: "hash_inv E base pH m L" and a: "a \<in> set L"
    and h: "ht pH \<noteq> None \<Longrightarrow> h = index m (htsize pH) a"
  shows "\<exists>pH' m' L'. removeElementGivenHash pH a h m = Some (pH', m') \<and> hash_inv E base pH' m' L' \<and>
           set L' = set L - {a} \<and> (\<forall>b \<in> set L'. payload m' b = payload m b)"
proof -
  obtain xs ys where L: "L = xs @ a # ys" using a by (meson split_list)
  have link: "linked (elems m) None (xs @ a # ys) None" and dist: "distinct (xs @ a # ys)"
    using inv by (auto simp: hash_inv_def threaded_def L)
  obtain e where e: "elems m a = Some e" "next_elem e = head_or ys None" using link by (auto simp: linked_append)
  define pH1 where "pH1 = (if xs = [] then pH\<lparr>hfirst := head_or ys None\<rparr> else pH)"
  obtain m1 m2 m3 where u:
    "(case prev_elem e of Some q \<Rightarrow> do { m \<leftarrow> upd q (\<lambda>x. x\<lparr>next_elem := next_elem e\<rparr>) m; Some (pH, m) }
      | None \<Rightarrow> Some (pH\<lparr>hfirst := next_elem e\<rparr>, m)) = Some (pH1, m1)"
    "(case next_elem e of Some q \<Rightarrow> upd q (\<lambda>x. x\<lparr>prev_elem := prev_elem e\<rparr>) m1 | None \<Rightarrow> Some m1) = Some m2"
    "free_elem a m2 = Some m3" "linked (elems m3) None (xs @ ys) None" "payload m3 = (payload m)(a := None)"
    "\<forall>b. b \<notin> set (xs @ a # ys) \<longrightarrow> elems m3 b = elems m b"
    "next_addr m3 = next_addr m" "arrays m3 = arrays m"
    using unlink [OF link dist e(1), of pH] unfolding pH1_def by blast
  define pH2 where "pH2 = pH1\<lparr>ht := map_option (unbucket h a (head_or ys None)) (ht pH1), hcount := hcount pH1 - 1\<rparr>"
  have pH1: "ht pH1 = ht pH" "hcount pH1 = length L" "htsize pH1 = htsize pH" "length L < 2 ^ 32" "length L \<noteq> 0"
    using inv a by (auto simp: pH1_def hash_inv_def)
  have pay: "payload m3 b = payload m b" if "b \<noteq> a" for b using that u(5) by simp
  note tab = unbucket_ok [OF inv [unfolded L] _ _ pay]
  have run: "removeElementGivenHash pH a h m =
      (if hcount pH2 = 0 then if hfirst pH2 = None then sqlite3HashClear pH2 m3 else None else Some (pH2, m3))"
    unfolding removeElementGivenHash_def e(1) Option.bind.simps u(1) prod.case u(2) unfolding e(2)
    by (rule unbucket_run [OF _ _ _ u(3) pH2_def]) (use pH1 tab(1) h in auto)
  have first: "hfirst pH2 = head_or (xs @ ys) None"
    using inv by (cases xs) (auto simp: pH2_def pH1_def hash_inv_def threaded_def L)
  have none: "elems m3 b = None" if "payload m b = None \<or> b = a" for b
    using that u(5) by (auto simp flip: payload_None)
  have frame: "elems m3 b = E b" if "b \<notin> set (xs @ ys)" for b
    using that u(6) inv none by (cases "b = a") (auto simp: hash_inv_def L)
  have "threaded pH2 m3 (xs @ ys)"
  proof (cases "ht pH")
    case None
    then show ?thesis using u(4) dist first pH1 inv by (simp add: threaded_def pH2_def hash_inv_def)
  next
    case (Some tab)
    then have "0 < htsize pH" using inv by (auto simp: hash_inv_def threaded_def)
    moreover have "h = index m (htsize pH) a" using h Some by simp
    note tab(2,3) [OF Some this]
    moreover have "ht pH2 = Some (unbucket h a (head_or ys None) tab)" "htsize pH2 = htsize pH"
      using Some pH1(1,3) by (simp_all add: pH2_def)
    ultimately show ?thesis using u(4) dist first by (simp add: threaded_def)
  qed
  moreover have "fields_ok m3 (set (xs @ ys))"
    by (rule fields_ok_mono [of m "set L"], use inv in \<open>simp add: hash_inv_def\<close>) (use dist in \<open>auto simp: L intro!: pay\<close>)
  ultimately have inv2: "hash_inv E base pH2 m3 (xs @ ys)"
    using inv u(7,8) frame none pH1 by (auto simp: hash_inv_def L pH2_def payload_None split: option.splits)
  have set: "set (xs @ ys) = set L - {a}" using dist by (auto simp: L)
  show ?thesis
  proof (cases "hcount pH2 = 0")
    case True
    then have empty: "xs @ ys = []" using inv2 by (simp add: hash_inv_def)
    obtain m4 where "sqlite3HashClear pH2 m3 = Some (sqlite3HashInit, m4)" "hash_inv E base sqlite3HashInit m4 []"
      using hash_clear_ok [OF inv2] by blast
    then show ?thesis using run True first set empty
      by (intro exI [of _ sqlite3HashInit] exI [of _ m4] exI [of _ "[]"]) auto
  next
    case False
    then show ?thesis using run inv2 set pay dist
      by (intro exI [of _ "xs @ ys"] exI [of _ pH2] exI [of _ m3]) auto
  qed
qed

section \<open>Insertion\<close>

lemma payload_simps [simp]:
  "payload (m\<lparr>allocs := x\<rparr>) = payload m" "payload (m\<lparr>arrays := y\<rparr>) = payload m" "payload (m\<lparr>next_addr := z\<rparr>) = payload m"
  by (auto simp: payload_def fun_eq_iff)

lemma contents_cong: "payload m' = payload m \<Longrightarrow> contents m' = contents m" "payload m' = payload m \<Longrightarrow> fields_ok m' = fields_ok m"
  by (simp_all add: fun_eq_iff contents_def fields_ok_def data_at_def key_at_def split: option.splits)

lemma index_cong: "payload m' = payload m \<Longrightarrow> index m' = index m"
  by (simp add: fun_eq_iff index_def key_at_def)

text \<open>
  What is relied on of the allocator: a block has at least the size asked for, and its size fits 32 bits.
\<close>

abbreviation usable_ok :: "(nat \<Rightarrow> nat) \<Rightarrow> bool" where
  "usable_ok usable \<equiv> \<forall>n \<le> SQLITE_MALLOC_SOFT_LIMIT. n \<le> usable n \<and> usable n < 2 ^ 32"

lemma rehash_ok:
  assumes thr: "threaded pH m L" and len: "length L \<le> hcount pH" "hcount pH < 2 ^ 32" and n: "0 < n"
    and us: "usable_ok usable" and arr: "arrays m = base + array_count pH"
  shows "\<exists>r pH' m' L'. rehash oom usable pH n m = Some (r, pH', m') \<and> threaded pH' m' L' \<and> set L' = set L \<and>
     hcount pH' = hcount pH \<and> payload m' = payload m \<and> (\<forall>b. b \<notin> set L \<longrightarrow> elems m' b = elems m b) \<and>
     next_addr m' = next_addr m \<and> arrays m' = base + array_count pH' \<and>
     (if r then ht pH' \<noteq> None else pH' = pH)"
proof -
  define n1 where "n1 = (if n * 16 > SQLITE_MALLOC_SOFT_LIMIT then SQLITE_MALLOC_SOFT_LIMIT div 16 else n)"
  define n2 where "n2 = usable (n1 * 16) div 16 mod 2 ^ 32"
  have n1: "0 < n1" "n1 * 16 \<le> SQLITE_MALLOC_SOFT_LIMIT" using n by (auto simp: n1_def SQLITE_MALLOC_SOFT_LIMIT_def)
  then have "n1 * 16 \<le> usable (n1 * 16)" "usable (n1 * 16) < 2 ^ 32" using us by auto
  then have n2: "0 < n2" using n1(1) by (auto simp: n2_def div_greater_zero_iff)
  define m1 where "m1 = m\<lparr>allocs := Suc (allocs m)\<rparr>"
  have thr1: "threaded pH m1 L"
    using thr index_cong [of m1 m] by (simp add: threaded_def m1_def split: option.splits)
  consider "n1 = htsize pH" | "n1 \<noteq> htsize pH" "oom (allocs m)" | "n1 \<noteq> htsize pH" "\<not> oom (allocs m)" by blast
  then show ?thesis
  proof cases
    case 1
    then show ?thesis using thr arr by (auto simp: rehash_def n1_def [symmetric] Let_def)
  next
    case 2
    then have "rehash oom usable pH n m = Some (False, pH, m1)" using n1(1) by (simp add: rehash_def n1_def [symmetric] Let_def m1_def)
    then show ?thesis using thr1 arr by (auto simp: m1_def)
  next
    case 3
    define m2 where "m2 = m1\<lparr>arrays := Suc base\<rparr>"
    define pH2 where "pH2 = pH\<lparr>htsize := n2, ht := Some (replicate n2 (0, None)), hfirst := None\<rparr>"
    have free: "free_array pH m1 = Some (m1\<lparr>arrays := base\<rparr>)"
      using arr by (cases "ht pH") (auto simp: free_array_def m1_def)
    have run: "rehash oom usable pH n m =
        (do { (pH, m) \<leftarrow> rehash_loop (hcount pH) n2 (hfirst pH) pH2 m2; Some (True, pH, m) })"
      using 3 free n1(1) unfolding rehash_def n1_def [symmetric]
      by (simp add: Let_def m1_def [symmetric] n2_def pH2_def m2_def)
    have "\<exists>L' pH' m' tab'. rehash_loop (hcount pH) n2 (head_or L None) pH2 m2 = Some (pH', m') \<and>
        relinked [] pH2 m2 L' pH' m' \<and> set L' = set [] \<union> set L \<and> ht pH' = Some tab' \<and> length tab' = n2 \<and>
        buckets_ok L' (index m n2) tab'"
    proof (rule rehash_loop_ok [where p = None and tab = "replicate n2 (0, None)"])
      fix a assume "a \<in> set L \<union> set []"
      then show "\<exists>e. elems m2 a = Some e \<and> index m n2 a = unat (strHash (pKey e)) mod n2"
        using threaded_mem [OF thr, of a] by (auto simp: m2_def m1_def index_def elem_fields)
    next
      show "buckets_ok [] (index m n2) (replicate n2 (0, None))" by (auto simp: buckets_ok_def intro: stretch_empty)
    qed (use thr len n2 in \<open>auto simp: threaded_def pH2_def m2_def m1_def\<close>)
    then obtain L' pH' m' tab' where r: "rehash_loop (hcount pH) n2 (head_or L None) pH2 m2 = Some (pH', m')"
      "relinked [] pH2 m2 L' pH' m'" "set L' = set [] \<union> set L" "ht pH' = Some tab'" "length tab' = n2"
      "buckets_ok L' (index m n2) tab'" by blast
    have pay: "payload m' = payload m" and frame: "\<forall>b. b \<notin> set L \<longrightarrow> elems m' b = elems m b"
      and arr': "arrays m' = base + array_count pH'" and rest: "hcount pH' = hcount pH" "next_addr m' = next_addr m"
      using r(2-4) by (auto simp: relinked_def m2_def m1_def pH2_def)
    have "threaded pH' m' L'"
      using r n2 index_cong [OF pay] by (simp add: threaded_def relinked_def pH2_def)
    moreover have "rehash oom usable pH n m = Some (True, pH', m')" using run r(1) thr by (simp add: threaded_def)
    ultimately show ?thesis using r(3,4) pay frame arr' rest
      by (intro exI [of _ True] exI [of _ pH'] exI [of _ m'] exI [of _ L']) simp
  qed
qed

text \<open>A threaded list survives a change of the heap elsewhere, and of the count.\<close>

lemma threaded_cong:
  assumes "threaded pH m L" and "\<And>a. a \<in> set L \<Longrightarrow> elems m' a = elems m a"
    and "hfirst pH' = hfirst pH" "ht pH' = ht pH" "htsize pH' = htsize pH"
  shows "threaded pH' m' L"
proof -
  have "linked E p K n \<Longrightarrow> (\<And>a. a \<in> set K \<Longrightarrow> E' a = E a) \<Longrightarrow> linked E' p K n" for E E' p K n
    by (induction K arbitrary: p) auto
  then have "linked (elems m') None L None" using assms(1,2) by (auto simp: threaded_def)
  moreover have "index m n a = index m' n a" if "a \<in> set L" for n a
    using assms(2) [OF that] by (simp add: index_def key_at_def payload_def)
  ultimately show ?thesis using assms(1,3-5)
    by (auto simp: threaded_def intro: buckets_cong split: option.splits)
qed

text \<open>Linking an element that is on the heap but not on the list, into its bucket if there are any.\<close>

lemma link_ok:
  assumes "threaded pH m L" and "a \<notin> set L" and "elems m a = Some e" and "length L + 1 < 2 ^ 32"
    and h: "ht pH \<noteq> None \<Longrightarrow> h = index m (htsize pH) a"
  shows "\<exists>pH' m' L'. insertElement pH (case ht pH of Some _ \<Rightarrow> Some h | None \<Rightarrow> None) a m = Some (pH', m') \<and>
     threaded pH' m' L' \<and> relinked L pH m L' pH' m' \<and> set L' = insert a (set L) \<and> array_count pH' = array_count pH"
proof -
  have thr: "linked (elems m) None L None" "distinct L" "hfirst pH = head_or L None"
    using assms(1) by (auto simp: threaded_def)
  show ?thesis
  proof (cases "ht pH")
    case None
    obtain pH' m' where "insertElement pH None a m = Some (pH', m')" "relinked L pH m (a # L) pH' m'" "ht pH' = None"
      using insertElement_list [OF thr(1,2) assms(2,3) thr(3) None] by blast
    moreover have "htsize pH = 0" using assms(1) None by (simp add: threaded_def)
    ultimately show ?thesis using None
      by (intro exI [of _ pH'] exI [of _ m'] exI [of _ "a # L"]) (simp add: threaded_def relinked_def)
  next
    case (Some tab)
    then have tab: "buckets_ok L (index m (htsize pH)) tab" "length tab = htsize pH" "0 < htsize pH"
      using assms(1) by (auto simp: threaded_def)
    have I: "index m (htsize pH) a = h" using h Some by simp
    then have lt: "h < length tab" using tab(2,3) by (auto simp: index_def)
    obtain L' pH' m' tab' where i: "insertElement pH (Some h) a m = Some (pH', m')" "relinked L pH m L' pH' m'"
      "set L' = insert a (set L)" "ht pH' = Some tab'" "length tab' = length tab" "buckets_ok L' (index m (htsize pH)) tab'"
      using insertElement_bucket [OF thr(1,2) assms(2,3) thr(3) Some tab(1) lt I assms(4)] by blast
    have "payload m' = payload m" "htsize pH' = htsize pH" using i(2) by (auto simp: relinked_def)
    then have "threaded pH' m' L'" using i(2,4,5,6) tab(2,3) index_cong [of m' m] by (simp add: threaded_def relinked_def)
    then show ?thesis using i(1-4) Some by (intro exI [of _ pH'] exI [of _ m'] exI [of _ L']) simp
  qed
qed

section \<open>The operations on the map\<close>

text \<open>Lookup under the invariant, and the element found.\<close>

lemma lookup_ok:
  assumes "hash_inv E base pH m L" and "name k"
  shows "\<exists>r h. findElementWithHash pH k m = Some (r, h) \<and>
     (ht pH \<noteq> None \<longrightarrow> h = unat (strHash k) mod htsize pH) \<and>
     (case r of None \<Rightarrow> (\<forall>a \<in> set L. lower (key_at m a) \<noteq> lower k) \<and> contents m L (lower k) = 0
      | Some a \<Rightarrow> a \<in> set L \<and> lower (key_at m a) = lower k \<and> contents m L (lower k) = data_at m a \<and> data_at m a \<noteq> 0 \<and>
          map_option data (elems m a) = Some (data_at m a) \<and> (ht pH \<noteq> None \<longrightarrow> h = index m (htsize pH) a))"
proof -
  have inv: "threaded pH m L" "hcount pH = length L" "fields_ok m (set L)" using assms(1) by (auto simp: hash_inv_def)
  then obtain r h where r: "findElementWithHash pH k m = Some (r, h)" "ht pH \<noteq> None \<longrightarrow> h = unat (strHash k) mod htsize pH"
    "case r of None \<Rightarrow> \<forall>a \<in> set L. lower (key_at m a) \<noteq> lower k | Some a \<Rightarrow> a \<in> set L \<and> lower (key_at m a) = lower k"
    using find_elem [of pH m L k] assms(2) by (auto simp: fields_ok_def)
  show ?thesis
  proof (cases r)
    case None
    then show ?thesis using r contents_none [of L m "lower k"] by auto
  next
    case (Some a)
    then have a: "a \<in> set L" "lower (key_at m a) = lower k" using r(3) by auto
    obtain e where "elems m a = Some e" using threaded_mem [OF inv(1) a(1)] by blast
    moreover have "contents m L (lower k) = data_at m a"
      using contents_at [OF _ a(1), of m] inv(3) a(2) by (simp add: fields_ok_def)
    ultimately show ?thesis
      using r(1,2) Some a inv(3) strHash_lower [OF a(2)]
      by (intro exI [of _ r] exI [of _ h]) (auto simp: fields_ok_def index_def elem_fields)
  qed
qed

lemma hash_find_ok: "hash_inv E base pH m L \<Longrightarrow> name k \<Longrightarrow> sqlite3HashFind pH k m = Some (contents m L (lower k))"
  using lookup_ok [of E base pH m L k] by (auto simp: sqlite3HashFind_def split: option.splits)

lemma replace_ok:
  assumes inv: "hash_inv E base pH m L" and a: "a \<in> set L" "lower (key_at m a) = lower k" and k: "name k" "d \<noteq> 0"
  shows "\<exists>m'. upd a (\<lambda>e. e\<lparr>data := d, pKey := k\<rparr>) m = Some m' \<and> hash_inv E base pH m' L \<and>
           contents m' L = (contents m L)(lower k := d)"
proof -
  obtain e where e: "elems m a = Some e" using inv threaded_mem [of pH m, OF _ a(1)] by (auto simp: hash_inv_def)
  define m' where "m' = m\<lparr>elems := (elems m)(a := Some (e\<lparr>data := d, pKey := k\<rparr>))\<rparr>"
  have run: "upd a (\<lambda>e. e\<lparr>data := d, pKey := k\<rparr>) m = Some m'" using e by (simp add: upd_Some m'_def)
  have at: "key_at m' b = (if b = a then k else key_at m b)" "data_at m' b = (if b = a then d else data_at m b)" for b
    by (auto simp: m'_def key_at_def data_at_def payload_def)
  have lower: "lower (key_at m' b) = lower (key_at m b)" for b using a(2) by (simp add: at)
  have "threaded pH m' L"
  proof -
    have "linked (elems m') None L None"
      using inv e by (simp add: m'_def hash_inv_def threaded_def linked_change_data)
    moreover have "index m n b = index m' n b" for n b using strHash_lower [OF lower] by (simp add: index_def)
    then have "index m' = index m" by (simp add: fun_eq_iff)
    ultimately show ?thesis using inv by (simp add: hash_inv_def threaded_def split: option.splits)
  qed
  moreover have ok: "fields_ok m' (set L)"
    using inv k by (simp add: fields_ok_def hash_inv_def lower) (simp add: at)
  ultimately have inv': "hash_inv E base pH m' L" using inv a(1) e by (auto simp: hash_inv_def m'_def)
  have "contents m' L (lower k) = d"
    using contents_at [of m' L a] ok a(1) by (simp add: fields_ok_def at)
  then have "contents m' L = (contents m L)(lower k := d)"
    by (rule contents_change [of m L m' L a "lower k", rotated -1])
       (use inv ok a(2) at in \<open>auto simp: hash_inv_def m'_def payload_def\<close>)
  then show ?thesis using run inv' by blast
qed

lemma erase_ok:
  assumes inv: "hash_inv E base pH m L" and a: "a \<in> set L" "lower (key_at m a) = lower k"
    and h: "ht pH \<noteq> None \<Longrightarrow> h = index m (htsize pH) a"
  shows "\<exists>pH' m' L'. removeElementGivenHash pH a h m = Some (pH', m') \<and> hash_inv E base pH' m' L' \<and>
           length L' \<le> length L \<and> contents m' L' = (contents m L)(lower k := 0)"
proof -
  obtain pH' m' L' where r: "removeElementGivenHash pH a h m = Some (pH', m')" "hash_inv E base pH' m' L'"
    "set L' = set L - {a}" "\<forall>b \<in> set L'. payload m' b = payload m b"
    using remove_ok [OF inv a(1) h] by blast
  have ok: "fields_ok m (set L)" "fields_ok m' (set L')" "distinct L" "distinct L'"
    using inv r(2) by (auto simp: hash_inv_def threaded_def)
  have "\<forall>b \<in> set L'. lower (key_at m' b) \<noteq> lower k"
  proof
    fix b assume b: "b \<in> set L'"
    then have "key_at m' b = key_at m b" "b \<noteq> a" "b \<in> set L" using r(3,4) by (auto simp: key_at_def)
    then show "lower (key_at m' b) \<noteq> lower k" using ok(1) a unfolding fields_ok_def by (metis inj_onD)
  qed
  then have "contents m' L' (lower k) = 0" by (rule contents_none)
  then have "contents m' L' = (contents m L)(lower k := 0)"
    by (rule contents_change [OF ok(1,2), of a "lower k", rotated -1]) (use r(3,4) a(2) in simp_all)
  moreover have "length L' \<le> length L"
    using card_mono [of "set L" "set L'"] r(3) distinct_card [OF ok(3)] distinct_card [OF ok(4)] by simp
  ultimately show ?thesis using r(1,2) by blast
qed

text \<open>A new element: its place on the heap, and the table after it is linked.\<close>

lemma new_elem_ok:
  assumes inv: "hash_inv E base pH m L" and k: "name k" "d \<noteq> 0" "\<forall>a \<in> set L. lower (key_at m a) \<noteq> lower k"
    and a: "a = next_addr m" and len: "length L' = length L + 1" "length L' < 2 ^ 32"
    and thr: "threaded pH' m' L'" "set L' = insert a (set L)" "hcount pH' = length L'"
    and pay: "payload m' = (payload m)(a \<mapsto> (d, k))" "\<And>b. b \<notin> set L' \<Longrightarrow> elems m' b = elems m b"
    and rest: "next_addr m' = Suc a" "arrays m' = base + array_count pH'"
  shows "hash_inv E base pH' m' L' \<and> contents m' L' = (contents m L)(lower k := d)"
proof -
  have Em: "elems m b = None" if "b \<ge> a" for b using inv that a by (simp add: hash_inv_def)
  have notin: "a \<notin> set L" using inv Em [of a] threaded_mem [of pH m L a] by (auto simp: hash_inv_def)
  have at: "key_at m' b = (if b = a then k else key_at m b)" "data_at m' b = (if b = a then d else data_at m b)" for b
    by (auto simp: pay(1) key_at_def data_at_def)
  have ok: "fields_ok m (set L)" using inv by (simp add: hash_inv_def)
  have "fields_ok m' (set L)" using notin pay(1) by (intro fields_ok_mono [OF ok]) auto
  moreover have "\<forall>b \<in> set L. lower (key_at m' b) \<noteq> lower k"
    using k(3) notin by (auto simp: at(1))
  ultimately have ok': "fields_ok m' (set L')"
    using k(1,2) at [of a] notin unfolding fields_ok_def thr(2) by auto
  have "elems m' b = None" if "b \<ge> Suc a" for b
    using Em [of b] that pay(1) payload_None [of m' b] payload_None [of m b] by auto
  then have "hash_inv E base pH' m' L'"
    using inv thr len ok' rest pay(2) notin Em [of a] by (auto simp: hash_inv_def)
  moreover have "contents m' L' (lower k) = d"
    using contents_at [of m' L' a] ok' thr(2) by (simp add: fields_ok_def at)
  then have "contents m' L' = (contents m L)(lower k := d)"
    by (rule contents_change [OF ok ok', of a "lower k", rotated -1]) (use thr(2) notin pay(1) at in auto)
  ultimately show ?thesis by blast
qed

text \<open>The table before a new element is linked: resized when it is crowded.\<close>

lemma grow_ok:
  assumes thr: "threaded pH m L" and count: "hcount pH = length L + 1" "length L + 1 < 2 ^ 31"
    and arr: "arrays m = base + array_count pH" and us: "usable_ok usable"
    and h: "ht pH \<noteq> None \<Longrightarrow> h = unat (strHash k) mod htsize pH"
  shows "\<exists>h' pH' m' L'.
     (if hcount pH \<ge> 10 \<and> hcount pH > 2 * htsize pH mod 2 ^ 32 then do {
        (resized, pH, m) \<leftarrow> rehash oom usable pH (hcount pH * 2 mod 2 ^ 32) m;
        if resized then
          if htsize pH = 0 then None else Some (unat (strHash k) mod htsize pH, pH, m)
        else Some (h, pH, m) }
      else Some (h, pH, m)) = Some (h', pH', m') \<and>
     (ht pH' \<noteq> None \<longrightarrow> h' = unat (strHash k) mod htsize pH') \<and>
     threaded pH' m' L' \<and> set L' = set L \<and> hcount pH' = length L + 1 \<and> payload m' = payload m \<and>
     (\<forall>b. b \<notin> set L \<longrightarrow> elems m' b = elems m b) \<and> next_addr m' = next_addr m \<and> arrays m' = base + array_count pH'"
    (is "\<exists>h' pH' m' L'. ?pre = Some (h', pH', m') \<and> ?Q h' pH' m' L'")
proof (cases "hcount pH \<ge> 10 \<and> hcount pH > 2 * htsize pH mod 2 ^ 32")
  case False
  then show ?thesis using thr arr h count(1)
    by (intro exI [of _ h] exI [of _ pH] exI [of _ m] exI [of _ L]) auto
next
  case True
  obtain r pH' m' L' where r: "rehash oom usable pH (hcount pH * 2 mod 2 ^ 32) m = Some (r, pH', m')"
    "threaded pH' m' L'" "set L' = set L" "hcount pH' = hcount pH" "payload m' = payload m"
    "\<forall>b. b \<notin> set L \<longrightarrow> elems m' b = elems m b" "next_addr m' = next_addr m"
    "arrays m' = base + array_count pH'" "if r then ht pH' \<noteq> None else pH' = pH"
    using rehash_ok [OF thr _ _ _ us arr, of "hcount pH * 2 mod 2 ^ 32" oom] count by auto
  have size: "0 < htsize pH'" if "r" using r(2,9) that by (auto simp: threaded_def)
  then have "?pre = Some (if r then unat (strHash k) mod htsize pH' else h, pH', m')"
    using r(1) True by (cases r) auto
  moreover have "?Q (if r then unat (strHash k) mod htsize pH' else h) pH' m' L'"
    using r(2-9) h count(1) by (auto split: if_splits)
  ultimately show ?thesis by blast
qed

lemma add_ok:
  assumes inv: "hash_inv E base pH m L" and k: "name k" "d \<noteq> 0" "\<forall>a \<in> set L. lower (key_at m a) \<noteq> lower k"
    and h: "ht pH \<noteq> None \<Longrightarrow> h = unat (strHash k) mod htsize pH"
    and us: "usable_ok usable" and len: "length L + 1 < 2 ^ 31" and a: "a = next_addr m"
    and m1: "m1 = m\<lparr>allocs := Suc (allocs m), next_addr := Suc a,
                 elems := (elems m)(a \<mapsto> \<lparr>next_elem = None, prev_elem = None, data = d, pKey = k\<rparr>)\<rparr>"
    and pH1: "pH1 = pH\<lparr>hcount := length L + 1\<rparr>"
  shows "\<exists>pH' m' L'. (do {
       (h, pH, m) \<leftarrow>
         (if hcount pH1 \<ge> 10 \<and> hcount pH1 > 2 * htsize pH1 mod 2 ^ 32 then do {
            (resized, pH, m) \<leftarrow> rehash oom usable pH1 (hcount pH1 * 2 mod 2 ^ 32) m1;
            if resized then
              if htsize pH = 0 then None else Some (unat (strHash k) mod htsize pH, pH, m)
            else Some (h, pH, m) }
          else Some (h, pH1, m1));
       (pH, m) \<leftarrow> insertElement pH (case ht pH of Some _ \<Rightarrow> Some h | None \<Rightarrow> None) a m;
       Some (0, pH, m) }) = Some (0, pH', m') \<and>
     hash_inv E base pH' m' L' \<and> length L' = length L + 1 \<and> contents m' L' = (contents m L)(lower k := d)"
proof -
  have "elems m a = None" using inv a by (simp add: hash_inv_def)
  then have notin: "a \<notin> set L" using inv threaded_mem [of pH m L a] by (auto simp: hash_inv_def)
  have thr1: "threaded pH1 m1 L"
    by (rule threaded_cong [of pH m]) (use inv notin in \<open>auto simp: hash_inv_def m1 pH1\<close>)
  have pay1: "payload m1 = (payload m)(a \<mapsto> (d, k))" by (auto simp: payload_def m1 fun_eq_iff)
  have arr1: "arrays m1 = base + array_count pH1" using inv by (simp add: hash_inv_def m1 pH1)
  obtain h2 pH2 m2 L2 where g: "(if hcount pH1 \<ge> 10 \<and> hcount pH1 > 2 * htsize pH1 mod 2 ^ 32 then do {
            (resized, pH, m) \<leftarrow> rehash oom usable pH1 (hcount pH1 * 2 mod 2 ^ 32) m1;
            if resized then
              if htsize pH = 0 then None else Some (unat (strHash k) mod htsize pH, pH, m)
            else Some (h, pH, m) }
          else Some (h, pH1, m1)) = Some (h2, pH2, m2)"
    "ht pH2 \<noteq> None \<longrightarrow> h2 = unat (strHash k) mod htsize pH2" "threaded pH2 m2 L2" "set L2 = set L"
    "hcount pH2 = length L + 1" "payload m2 = payload m1" "\<forall>b. b \<notin> set L \<longrightarrow> elems m2 b = elems m1 b"
    "next_addr m2 = next_addr m1" "arrays m2 = base + array_count pH2"
    using grow_ok [OF thr1 _ len arr1 us, of h k oom] h by (auto simp: pH1)
  obtain e where e: "elems m2 a = Some e" using g(7) notin by (simp add: m1)
  have len2: "length L2 = length L"
    using distinct_card [of L2] distinct_card [of L] g(3,4) thr1 by (simp add: threaded_def)
  have idx: "h2 = index m2 (htsize pH2) a" if "ht pH2 \<noteq> None"
    using g(2,6) that by (simp add: index_def key_at_def pay1)
  obtain pH' m' L' where l: "insertElement pH2 (case ht pH2 of Some _ \<Rightarrow> Some h2 | None \<Rightarrow> None) a m2 = Some (pH', m')"
    "threaded pH' m' L'" "relinked L2 pH2 m2 L' pH' m'" "set L' = insert a (set L2)" "array_count pH' = array_count pH2"
    using link_ok [OF g(3) _ e _ idx] notin g(4) len2 len by auto
  have "length L' = length L + 1"
    using distinct_card [of L'] distinct_card [of L] l(2,4) g(4) thr1 notin by (simp add: threaded_def)
  moreover have "hash_inv E base pH' m' L' \<and> contents m' L' = (contents m L)(lower k := d)"
    by (rule new_elem_ok [OF inv k a]) (use l g calculation len pay1 in \<open>auto simp: relinked_def m1\<close>)
  ultimately show ?thesis using g(1) l(1) by (intro exI [of _ pH'] exI [of _ m'] exI [of _ L']) simp
qed

text \<open>Insertion answers and changes the map as promised, unless the element cannot be allocated.\<close>

lemma hash_insert_ok:
  assumes inv: "hash_inv E base pH m L" and k: "name k" and us: "usable_ok usable" and len: "length L + 1 < 2 ^ 31"
  shows "\<exists>r pH' m' L'. sqlite3HashInsert oom usable pH k d m = Some (r, pH', m') \<and> hash_inv E base pH' m' L' \<and>
     length L' \<le> length L + 1 \<and>
     (if oom (allocs m) \<and> d \<noteq> 0 \<and> contents m L (lower k) = 0 then r = d \<and> contents m' L' = contents m L
      else r = contents m L (lower k) \<and> contents m' L' = (contents m L)(lower k := d))"
proof -
  obtain r h where r: "findElementWithHash pH k m = Some (r, h)" "ht pH \<noteq> None \<longrightarrow> h = unat (strHash k) mod htsize pH"
    "case r of None \<Rightarrow> (\<forall>a \<in> set L. lower (key_at m a) \<noteq> lower k) \<and> contents m L (lower k) = 0
      | Some a \<Rightarrow> a \<in> set L \<and> lower (key_at m a) = lower k \<and> contents m L (lower k) = data_at m a \<and> data_at m a \<noteq> 0 \<and>
          map_option data (elems m a) = Some (data_at m a) \<and> (ht pH \<noteq> None \<longrightarrow> h = index m (htsize pH) a)"
    using lookup_ok [OF inv k] by blast
  show ?thesis
  proof (cases r)
    case (Some a)
    then have a: "a \<in> set L" "lower (key_at m a) = lower k" "contents m L (lower k) = data_at m a" "data_at m a \<noteq> 0"
      "map_option data (elems m a) = Some (data_at m a)" "ht pH \<noteq> None \<Longrightarrow> h = index m (htsize pH) a"
      using r(3) by auto
    obtain e where e: "elems m a = Some e" "data e = data_at m a" using a(5) by auto
    show ?thesis
    proof (cases "d = 0")
      case True
      obtain pH' m' L' where "removeElementGivenHash pH a h m = Some (pH', m')" "hash_inv E base pH' m' L'"
        "length L' \<le> length L" "contents m' L' = (contents m L)(lower k := 0)"
        using erase_ok [OF inv a(1,2,6)] by blast
      then show ?thesis using r(1) Some a(3,4) e True
        by (intro exI [of _ "data_at m a"] exI [of _ pH'] exI [of _ m'] exI [of _ L']) (simp add: sqlite3HashInsert_def)
    next
      case False
      then obtain m' where "upd a (\<lambda>e. e\<lparr>data := d, pKey := k\<rparr>) m = Some m'" "hash_inv E base pH m' L"
        "contents m' L = (contents m L)(lower k := d)"
        using replace_ok [OF inv a(1,2) k] by blast
      then show ?thesis using r(1) Some a(3,4) e False
        by (intro exI [of _ "data_at m a"] exI [of _ pH] exI [of _ m'] exI [of _ L]) (simp add: sqlite3HashInsert_def)
    qed
  next
    case None
    then have a: "\<forall>a \<in> set L. lower (key_at m a) \<noteq> lower k" "contents m L (lower k) = 0" using r(3) by auto
    consider "d = 0" | "d \<noteq> 0" "oom (allocs m)" | "d \<noteq> 0" "\<not> oom (allocs m)" by blast
    then show ?thesis
    proof cases
      case 1
      then show ?thesis using r(1) None a(2) inv by (auto simp: sqlite3HashInsert_def intro!: exI [of _ L])
    next
      case 2
      define m' where "m' = m\<lparr>allocs := Suc (allocs m)\<rparr>"
      have "hash_inv E base pH m' L" "contents m' L = contents m L"
        using inv contents_cong [of m' m] threaded_cong [of pH m L m' pH] by (auto simp: m'_def hash_inv_def)
      then show ?thesis using r(1) None a(2) 2
        by (intro exI [of _ d] exI [of _ pH] exI [of _ m'] exI [of _ L]) (simp add: sqlite3HashInsert_def m'_def)
    next
      case 3
      have "hcount pH = length L" using inv by (simp add: hash_inv_def)
      then have count: "(hcount pH + 1) mod 2 ^ 32 = length L + 1" using len by simp
      obtain pH' m' L' where "sqlite3HashInsert oom usable pH k d m = Some (0, pH', m')" "hash_inv E base pH' m' L'"
        "length L' = length L + 1" "contents m' L' = (contents m L)(lower k := d)"
        using add_ok [OF inv k 3(1) a(1) _ us len refl refl refl, of h oom] r(2)
        unfolding sqlite3HashInsert_def r(1) None Let_def count using 3 by auto
      then show ?thesis using 3 a(2) by (intro exI [of _ 0] exI [of _ pH'] exI [of _ m'] exI [of _ L']) simp
    qed
  qed
qed

section \<open>Clients\<close>

datatype hash_op = Find_name bytes | Insert_name bytes nat

primrec op_name :: "hash_op \<Rightarrow> bytes" where
  "op_name (Find_name k) = k"
| "op_name (Insert_name k d) = k"

text \<open>The answers of a map in which data 0 stands for no entry, when every entry can be made.\<close>

fun map_spec :: "hash_op list \<Rightarrow> (bytes \<Rightarrow> nat) \<Rightarrow> nat list" where
  "map_spec [] M = []"
| "map_spec (Find_name k # ops) M = M (lower k) # map_spec ops M"
| "map_spec (Insert_name k d # ops) M = M (lower k) # map_spec ops (M(lower k := d))"

text \<open>
  The answers allowed when memory may run out, and the map at the end: a new entry may be refused, the answer is then
  its own data, and the map stays as it was.
\<close>

inductive map_answers :: "bool \<Rightarrow> (bytes \<Rightarrow> nat) \<Rightarrow> hash_op list \<Rightarrow> nat list \<Rightarrow> (bytes \<Rightarrow> nat) \<Rightarrow> bool" where
  map_done: "map_answers reliable M [] [] M"
| map_find: "map_answers reliable M ops rs M' \<Longrightarrow> map_answers reliable M (Find_name k # ops) (M (lower k) # rs) M'"
| map_insert: "map_answers reliable (M(lower k := d)) ops rs M' \<Longrightarrow>
    map_answers reliable M (Insert_name k d # ops) (M (lower k) # rs) M'"
| map_refuse: "\<not> reliable \<Longrightarrow> d \<noteq> 0 \<Longrightarrow> M (lower k) = 0 \<Longrightarrow> map_answers reliable M ops rs M' \<Longrightarrow>
    map_answers reliable M (Insert_name k d # ops) (d # rs) M'"

lemma map_answers_exact: "map_answers reliable M ops rs M' \<Longrightarrow> reliable \<Longrightarrow> rs = map_spec ops M"
  by (induction rule: map_answers.induct) auto

fun hash_run :: "(bytes \<Rightarrow> 's \<Rightarrow> nat option) \<Rightarrow> (bytes \<Rightarrow> nat \<Rightarrow> 's \<Rightarrow> (nat \<times> 's) option) \<Rightarrow> hash_op list \<Rightarrow> 's \<Rightarrow>
    (nat list \<times> 's) option" where
  "hash_run look ins [] s = Some ([], s)"
| "hash_run look ins (Find_name k # ops) s = do {
     r \<leftarrow> look k s; (rs, s) \<leftarrow> hash_run look ins ops s; Some (r # rs, s) }"
| "hash_run look ins (Insert_name k d # ops) s = do {
     (r, s) \<leftarrow> ins k d s; (rs, s) \<leftarrow> hash_run look ins ops s; Some (r # rs, s) }"

text \<open>
  A table that stands for a map: \<open>stands s M n\<close> says that state \<open>s\<close> stands for the map \<open>M\<close> and has at most
  \<open>n\<close> entries, of which there may be \<open>capacity\<close>.
\<close>

locale name_map =
  fixes look :: "bytes \<Rightarrow> 's \<Rightarrow> nat option"
    and ins :: "bytes \<Rightarrow> nat \<Rightarrow> 's \<Rightarrow> (nat \<times> 's) option"
    and stands :: "'s \<Rightarrow> (bytes \<Rightarrow> nat) \<Rightarrow> nat \<Rightarrow> bool"
    and capacity :: nat
    and reliable :: bool
  assumes look_law: "stands s M n \<Longrightarrow> name k \<Longrightarrow> look k s = Some (M (lower k))"
    and ins_law: "stands s M n \<Longrightarrow> name k \<Longrightarrow> n < capacity \<Longrightarrow> \<exists>r s' M'. ins k d s = Some (r, s') \<and> stands s' M' (Suc n) \<and>
      (r = M (lower k) \<and> M' = M(lower k := d) \<or> \<not> reliable \<and> d \<noteq> 0 \<and> M (lower k) = 0 \<and> r = d \<and> M' = M)"
begin

lemma run_stands:
  "stands s M n \<Longrightarrow> list_all (\<lambda>x. name (op_name x)) ops \<Longrightarrow> n + length ops \<le> capacity \<Longrightarrow>
   \<exists>rs s' M' n'. hash_run look ins ops s = Some (rs, s') \<and> stands s' M' n' \<and> map_answers reliable M ops rs M'"
proof (induction ops arbitrary: s M n)
  case Nil
  then show ?case by (auto intro: map_done)
next
  case (Cons x ops)
  show ?case
  proof (cases x)
    case (Find_name k)
    then have "look k s = Some (M (lower k))" using look_law Cons.prems by simp
    moreover obtain rs s' M' n' where "hash_run look ins ops s = Some (rs, s')" "stands s' M' n'" "map_answers reliable M ops rs M'"
      using Cons.IH [OF Cons.prems(1)] Cons.prems by auto
    ultimately show ?thesis using Find_name
      by (intro exI [of _ "M (lower k) # rs"] exI [of _ s'] exI [of _ M'] exI [of _ n']) (auto intro: map_find)
  next
    case (Insert_name k d)
    then obtain r s' M' where s': "ins k d s = Some (r, s')" "stands s' M' (Suc n)"
      "r = M (lower k) \<and> M' = M(lower k := d) \<or> \<not> reliable \<and> d \<noteq> 0 \<and> M (lower k) = 0 \<and> r = d \<and> M' = M"
      using ins_law [OF Cons.prems(1), of k d] Cons.prems by auto
    obtain rs s2 M2 n2 where "hash_run look ins ops s' = Some (rs, s2)" "stands s2 M2 n2" "map_answers reliable M' ops rs M2"
      using Cons.IH [OF s'(2)] Cons.prems by auto
    then show ?thesis using s' Insert_name
      by (intro exI [of _ "r # rs"] exI [of _ s2] exI [of _ M2] exI [of _ n2]) (auto intro: map_insert map_refuse)
  qed
qed

end

definition client_find :: "bytes \<Rightarrow> hash \<times> hmem \<Rightarrow> nat option" where
  "client_find k = (\<lambda>(pH, m). sqlite3HashFind pH k m)"

definition client_insert :: "(nat \<Rightarrow> bool) \<Rightarrow> (nat \<Rightarrow> nat) \<Rightarrow> bytes \<Rightarrow> nat \<Rightarrow> hash \<times> hmem \<Rightarrow> (nat \<times> hash \<times> hmem) option" where
  "client_insert oom usable k d = (\<lambda>(pH, m). sqlite3HashInsert oom usable pH k d m)"

definition table_stands :: "(nat \<Rightarrow> nat) \<Rightarrow> (nat \<Rightarrow> helem option) \<Rightarrow> nat \<Rightarrow> hash \<times> hmem \<Rightarrow> (bytes \<Rightarrow> nat) \<Rightarrow> nat \<Rightarrow> bool" where
  "table_stands usable E base = (\<lambda>(pH, m) M n.
     usable_ok usable \<and> (\<exists>L. hash_inv E base pH m L \<and> length L \<le> n \<and> M = contents m L))"

interpretation hmap: name_map client_find "client_insert oom usable" "table_stands usable E base" "2 ^ 31 - 1" "\<forall>k. \<not> oom k"
  for oom usable E base
proof (unfold_locales, goal_cases)
  case (1 s M n k)
  then show ?case by (cases s) (auto simp: table_stands_def client_find_def hash_find_ok)
next
  case (2 s M n k d)
  obtain pH m where s: "s = (pH, m)" by (cases s)
  then obtain L where L: "usable_ok usable" "hash_inv E base pH m L" "length L \<le> n" "M = contents m L"
    using 2(1) by (auto simp: table_stands_def)
  obtain r pH' m' L' where r: "sqlite3HashInsert oom usable pH k d m = Some (r, pH', m')" "hash_inv E base pH' m' L'"
    "length L' \<le> length L + 1"
    "if oom (allocs m) \<and> d \<noteq> 0 \<and> contents m L (lower k) = 0 then r = d \<and> contents m' L' = contents m L
      else r = contents m L (lower k) \<and> contents m' L' = (contents m L)(lower k := d)"
    using hash_insert_ok [OF L(2) 2(2) L(1), of oom d] L(3) 2(3) by auto
  then have "table_stands usable E base (pH', m') (contents m' L') (Suc n)"
    using L(1,3) by (auto simp: table_stands_def)
  then show ?case using r(1,4) s L(4)
    by (intro exI [of _ r] exI [of _ "(pH', m')"] exI [of _ "contents m' L'"]) (auto simp: client_insert_def split: if_splits)
qed

text \<open>
  Property C7: a client that starts with an empty table and runs any sequence of lookups, insertions and removals
  on it, in a heap that may hold other tables, never follows a null or dangling pointer, never fails an assertion
  and never loops forever. Its answers are those of a map from names to data in which names that differ only in case
  are the same: exactly so while memory lasts, and otherwise except that an insertion of a new name may be refused by
  returning its own data, leaving the map as it was; resizing the table, and failing to, changes no answer. Clearing
  the table afterwards frees its elements and its bucket array and leaves the elements of the other tables as they were.
\<close>
theorem hash_refines_map:
  assumes "usable_ok usable" and "list_all (\<lambda>x. name (op_name x)) ops" and "length ops < 2 ^ 31"
    and "\<forall>a \<ge> next_addr m. elems m a = None"
  shows "\<exists>rs pH' m' M m2.
     hash_run client_find (client_insert oom usable) ops (sqlite3HashInit, m) = Some (rs, pH', m') \<and>
     map_answers (\<forall>k. \<not> oom k) (\<lambda>_. 0) ops rs M \<and> ((\<forall>k. \<not> oom k) \<longrightarrow> rs = map_spec ops (\<lambda>_. 0)) \<and>
     (\<forall>k. name k \<longrightarrow> sqlite3HashFind pH' k m' = Some (M (lower k))) \<and>
     sqlite3HashClear pH' m' = Some (sqlite3HashInit, m2) \<and> elems m2 = elems m \<and> arrays m2 = arrays m"
proof -
  have "hash_inv (elems m) (arrays m) sqlite3HashInit m []"
    using assms(4) by (simp add: hash_inv_def threaded_def sqlite3HashInit_def)
  then have "table_stands usable (elems m) (arrays m) (sqlite3HashInit, m) (\<lambda>_. 0) 0"
    using assms(1) by (auto simp: table_stands_def contents_def)
  from hmap.run_stands [OF this assms(2), of oom] assms(3) obtain rs pH' m' M n
    where r: "hash_run client_find (client_insert oom usable) ops (sqlite3HashInit, m) = Some (rs, pH', m')"
      "table_stands usable (elems m) (arrays m) (pH', m') M n" "map_answers (\<forall>k. \<not> oom k) (\<lambda>_. 0) ops rs M"
    by auto
  then obtain L where L: "hash_inv (elems m) (arrays m) pH' m' L" "M = contents m' L" by (auto simp: table_stands_def)
  obtain m2 where "sqlite3HashClear pH' m' = Some (sqlite3HashInit, m2)" "elems m2 = elems m" "arrays m2 = arrays m"
    using hash_clear_ok [OF L(1)] by blast
  then show ?thesis
    using r(1,3) map_answers_exact [OF r(3)] hash_find_ok [OF L(1)] L(2)
    by (intro exI [of _ rs] exI [of _ pH'] exI [of _ m'] exI [of _ M] exI [of _ m2]) simp
qed

definition hash_demo :: "hash_op list" where
  "hash_demo = [Insert_name [84, 111] 7, Find_name [116, 79], Insert_name [116, 111] 9, Insert_name [84, 79] 0, Find_name [116, 111]]"

text \<open>The witness: a name in four spellings, in a heap that holds an element of another table.\<close>
theorem hash_refines_map_witness:
  "\<exists>pH' m'. hash_run client_find (client_insert (\<lambda>k. False) (\<lambda>n. n)) hash_demo (sqlite3HashInit,
     \<lparr>elems = [0 \<mapsto> \<lparr>next_elem = None, prev_elem = None, data = 1, pKey = []\<rparr>], next_addr = 1, arrays = 2, allocs = 0\<rparr>) =
   Some ([0, 7, 7, 9, 0], pH', m')"
  using hash_refines_map [of "\<lambda>n. n" hash_demo "\<lparr>elems = [0 \<mapsto> \<lparr>next_elem = None, prev_elem = None, data = 1, pKey = []\<rparr>],
      next_addr = 1, arrays = 2, allocs = 0\<rparr>" "\<lambda>k. False"]
  by (auto simp: hash_demo_def UpperToLower_eq SQLITE_MALLOC_SOFT_LIMIT_def)

end
