(* ===== verification/Sqlite_Varint.thy ===== *)
theory Sqlite_Varint
  imports Prelude
begin

text \<open>
  SQLite's variable-length integers (\<open>util.c\<close> in \<open>sqlite3.c\<close>), the encoding of every rowid, length and record
  header in a database file. A pointer into memory is the list of the bytes from there on; reading past its end is
  \<^term>\<open>None\<close>. The decoders are unrolled in the source, with several bytes combined in 32-bit registers; they are
  translated as they stand and compared with a reference decoder that takes one byte at a time.
\<close>

section \<open>Encoding\<close>

text \<open>The loop that fills \<open>p[i - 1]\<close> to \<open>p[0]\<close>, in front of the bytes already written.\<close>

fun put_high_groups :: "nat \<Rightarrow> 64 word \<Rightarrow> bytes \<Rightarrow> bytes" where
  "put_high_groups 0 v p = p"
| "put_high_groups (Suc i) v p = put_high_groups i (drop_bit 7 v) (ucast ((v AND 0x7f) OR 0x80) # p)"

lemma drop_bit_decreases: "(v :: 64 word) \<noteq> 0 \<Longrightarrow> 0 < n \<Longrightarrow> unat (drop_bit n v) < unat v"
proof -
  assume "v \<noteq> 0" "0 < n"
  then have "0 < unat v" "1 < (2 :: nat) ^ n" by (simp_all add: unat_gt_0 one_less_power del: One_nat_def)
  then show ?thesis by (simp add: unat_drop_bit_eq) (simp add: drop_bit_eq_div div_less_dividend)
qed

text \<open>The do-while loop that fills \<open>buf\<close>, least significant group first.\<close>

function put_groups :: "64 word \<Rightarrow> bytes" where
  "put_groups v =
     ucast ((v AND 0x7f) OR 0x80) # (let v = drop_bit 7 v in if v \<noteq> 0 then put_groups v else [])"
  by pat_completeness auto

termination
proof (relation "measure unat")
  fix v x :: "64 word" assume "x = drop_bit 7 v" "x \<noteq> 0"
  then show "(x, v) \<in> measure unat" using drop_bit_decreases [of v 7] by fastforce
qed simp

declare put_groups.simps [simp del]

text \<open>The bytes written; their number is the result of the C function. \<^term>\<open>None\<close> is the failed assertion.\<close>

definition putVarint64 :: "64 word \<Rightarrow> bytes option" where
  "putVarint64 v =
     (if v AND push_bit 32 0xff000000 \<noteq> 0 then Some (put_high_groups 8 (drop_bit 8 v) [ucast v])
      else let buf = put_groups v; buf = (hd buf AND 0x7f) # tl buf
           in if length buf \<le> 9 then Some (rev buf) else None)"

definition sqlite3PutVarint :: "64 word \<Rightarrow> bytes option" where
  "sqlite3PutVarint v =
     (if v \<le> 0x7f then Some [ucast (v AND 0x7f)]
      else if v \<le> 0x3fff then Some [ucast ((drop_bit 7 v AND 0x7f) OR 0x80), ucast (v AND 0x7f)]
      else putVarint64 v)"

definition putVarint32 :: "32 word \<Rightarrow> bytes option" where
  "putVarint32 v = (if v < 0x80 then Some [ucast v] else sqlite3PutVarint (ucast v))"

function varint_len_loop :: "nat \<Rightarrow> 64 word \<Rightarrow> nat" where
  "varint_len_loop i v = (let v = drop_bit 7 v in if v \<noteq> 0 then varint_len_loop (Suc i) v else i)"
  by pat_completeness auto

termination
proof (relation "measure (unat \<circ> snd)")
  fix i and v x :: "64 word" assume "x = drop_bit 7 v" "x \<noteq> 0"
  then show "((Suc i, x), i, v) \<in> measure (unat \<circ> snd)" using drop_bit_decreases [of v 7] by fastforce
qed simp

declare varint_len_loop.simps [simp del]

definition sqlite3VarintLen :: "64 word \<Rightarrow> nat" where
  "sqlite3VarintLen v = varint_len_loop 1 v"

section \<open>Decoding\<close>

definition SLOT_2_0 :: "32 word" where "SLOT_2_0 = 0x001fc07f"
definition SLOT_4_2_0 :: "32 word" where "SLOT_4_2_0 = 0xf01fc07f"

definition peek :: "bytes \<Rightarrow> nat \<Rightarrow> 8 word option" where
  "peek p i = (if i < length p then Some (p ! i) else None)"

text \<open>The number of bytes read and the value \<open>*v\<close>.\<close>

definition sqlite3GetVarint :: "bytes \<Rightarrow> (nat \<times> 64 word) option" where
  "sqlite3GetVarint p = do {
     p0 \<leftarrow> peek p 0;
     if 0 \<le>s p0 then Some (1, ucast p0) else do {
     p1 \<leftarrow> peek p 1;
     if 0 \<le>s p1 then Some (2, ucast (push_bit 7 (ucast (p0 AND 0x7f) :: 32 word) OR ucast p1)) else do {
     let a = push_bit 14 (ucast p0 :: 32 word);
     let b = (ucast p1 :: 32 word);
     p2 \<leftarrow> peek p 2;
     let a = a OR ucast p2;
     if a AND 0x80 = 0 then
       let a = a AND SLOT_2_0; b = b AND 0x7f; b = push_bit 7 b; a = a OR b in Some (3, ucast a)
     else do {
     let a = a AND SLOT_2_0;
     p3 \<leftarrow> peek p 3;
     let b = push_bit 14 b;
     let b = b OR ucast p3;
     if b AND 0x80 = 0 then
       let b = b AND SLOT_2_0; a = push_bit 7 a; a = a OR b in Some (4, ucast a)
     else do {
     let b = b AND SLOT_2_0;
     let s = a;
     p4 \<leftarrow> peek p 4;
     let a = push_bit 14 a;
     let a = a OR ucast p4;
     if a AND 0x80 = 0 then
       let b = push_bit 7 b; a = a OR b; s = drop_bit 18 s in Some (5, push_bit 32 (ucast s) OR ucast a)
     else do {
     let s = push_bit 7 s;
     let s = s OR b;
     p5 \<leftarrow> peek p 5;
     let b = push_bit 14 b;
     let b = b OR ucast p5;
     if b AND 0x80 = 0 then
       let a = a AND SLOT_2_0; a = push_bit 7 a; a = a OR b; s = drop_bit 18 s
       in Some (6, push_bit 32 (ucast s) OR ucast a)
     else do {
     p6 \<leftarrow> peek p 6;
     let a = push_bit 14 a;
     let a = a OR ucast p6;
     if a AND 0x80 = 0 then
       let a = a AND SLOT_4_2_0; b = b AND SLOT_2_0; b = push_bit 7 b; a = a OR b; s = drop_bit 11 s
       in Some (7, push_bit 32 (ucast s) OR ucast a)
     else do {
     let a = a AND SLOT_2_0;
     p7 \<leftarrow> peek p 7;
     let b = push_bit 14 b;
     let b = b OR ucast p7;
     if b AND 0x80 = 0 then
       let b = b AND SLOT_4_2_0; a = push_bit 7 a; a = a OR b; s = drop_bit 4 s
       in Some (8, push_bit 32 (ucast s) OR ucast a)
     else do {
     p8 \<leftarrow> peek p 8;
     let a = push_bit 15 a;
     let a = a OR ucast p8;
     let b = b AND SLOT_2_0;
     let b = push_bit 8 b;
     let a = a OR b;
     let s = push_bit 4 s;
     b \<leftarrow> peek p (8 - 4);
     let b = (ucast b :: 32 word) AND 0x7f;
     let b = drop_bit 3 b;
     let s = s OR b;
     Some (9, push_bit 32 (ucast s) OR ucast a) }}}}}}}} }"

text \<open>The macro \<open>getVarint32\<close> handles the one-byte case, so the function does not.\<close>

definition sqlite3GetVarint32 :: "bytes \<Rightarrow> (nat \<times> 32 word) option" where
  "sqlite3GetVarint32 p = do {
     p0 \<leftarrow> peek p 0;
     let a = (ucast p0 :: 32 word);
     p1 \<leftarrow> peek p 1;
     let b = (ucast p1 :: 32 word);
     if b AND 0x80 = 0 then
       let a = a AND 0x7f; a = push_bit 7 a in Some (2, a OR b)
     else do {
     p2 \<leftarrow> peek p 2;
     let a = push_bit 14 a;
     let a = a OR ucast p2;
     if a AND 0x80 = 0 then
       let a = a AND (push_bit 14 0x7f OR 0x7f); b = b AND 0x7f; b = push_bit 7 b in Some (3, a OR b)
     else do {
     (n, v64) \<leftarrow> sqlite3GetVarint p;
     if \<not> (3 < n \<and> n \<le> 9) then None
     else Some (n, if v64 AND 0xffffffff \<noteq> v64 then 0xffffffff else ucast v64) }} }"

definition getVarint32 :: "bytes \<Rightarrow> (nat \<times> 32 word) option" where
  "getVarint32 p = do { p0 \<leftarrow> peek p 0; if p0 < 0x80 then Some (1, ucast p0) else sqlite3GetVarint32 p }"

section \<open>The reference decoder\<close>

text \<open>Seven bits of every byte up to the first one below 128; a ninth byte counts in full.\<close>

fun varint_from :: "nat \<Rightarrow> 64 word \<Rightarrow> bytes \<Rightarrow> (nat \<times> 64 word) option" where
  "varint_from k v [] = None"
| "varint_from k v (b # bs) =
     (if k = 8 then Some (9, push_bit 8 v OR ucast b)
      else if \<not> bit b 7 then Some (Suc k, push_bit 7 v OR ucast b)
      else varint_from (Suc k) (push_bit 7 v OR ucast (b AND 0x7f)) bs)"

lemma byte_high_bit [simp]: "8 \<le> n \<Longrightarrow> \<not> bit (b :: 8 word) n"
  using bit_imp_le_length [of b n] by auto

lemma signed_nonneg: "0 \<le>s (b :: 8 word) \<longleftrightarrow> \<not> bit b 7"
  using bit_last_iff [of b] by (simp add: word_sle_eq not_less [symmetric])

lemma and_0x80: "(x :: 32 word) AND 0x80 = 0 \<longleftrightarrow> \<not> bit x 7"
  using and_exp_eq_0_iff_not_bit [of x 7] by simp

text \<open>Two words are equal when their bits are, one by one.\<close>

lemma word64_by_bits: "list_all (\<lambda>n. bit v n \<longleftrightarrow> bit w n) (0 # 1 # [2..<64]) \<Longrightarrow> v = (w :: 64 word)"
proof (rule bit_word_eqI)
  fix n assume "list_all (\<lambda>n. bit v n \<longleftrightarrow> bit w n) (0 # 1 # [2..<64])" "n < LENGTH(64)"
  moreover have "n = 0 \<or> n = 1 \<or> 2 \<le> n" by linarith
  ultimately show "bit v n \<longleftrightarrow> bit w n" by (auto simp: list_all_iff simp del: upt_rec_numeral)
qed

lemma low_bits_7f: "bit (0x7f :: 8 word) n \<longleftrightarrow> n < 7"
  using bit_mask_iff [where 'a = "8 word", of 7 n] by (auto simp: mask_eq_exp_minus_1)

lemma low_byte: "\<not> bit (b :: 8 word) 7 \<Longrightarrow> b AND 0x7f = b"
  by (rule bit_word_eqI) (auto simp: bit_and_iff low_bits_7f numeral_eq_Suc less_Suc_eq)

lemma peek_simps [simp]:
  "peek [] n = None" "peek (b # bs) 0 = Some b" "peek (b # bs) (Suc n) = peek bs n"
  "peek (b # bs) (numeral k) = peek bs (pred_numeral k)"
  by (auto simp: peek_def numeral_eq_Suc)

lemma peek_tl: "peek (tl bs) n = peek bs (Suc n)"
  by (cases bs) auto

lemma varint_from_steps:
  "varint_from 0 v bs = do { b \<leftarrow> peek bs 0; if \<not> bit b 7 then Some ((Suc 0), push_bit 7 v OR ucast b)
     else varint_from (Suc 0) (push_bit 7 v OR ucast (b AND 0x7f)) (tl bs) }"
  "varint_from (Suc 0) v bs = do { b \<leftarrow> peek bs 0; if \<not> bit b 7 then Some (2, push_bit 7 v OR ucast b)
     else varint_from 2 (push_bit 7 v OR ucast (b AND 0x7f)) (tl bs) }"
  "varint_from 2 v bs = do { b \<leftarrow> peek bs 0; if \<not> bit b 7 then Some (3, push_bit 7 v OR ucast b)
     else varint_from 3 (push_bit 7 v OR ucast (b AND 0x7f)) (tl bs) }"
  "varint_from 3 v bs = do { b \<leftarrow> peek bs 0; if \<not> bit b 7 then Some (4, push_bit 7 v OR ucast b)
     else varint_from 4 (push_bit 7 v OR ucast (b AND 0x7f)) (tl bs) }"
  "varint_from 4 v bs = do { b \<leftarrow> peek bs 0; if \<not> bit b 7 then Some (5, push_bit 7 v OR ucast b)
     else varint_from 5 (push_bit 7 v OR ucast (b AND 0x7f)) (tl bs) }"
  "varint_from 5 v bs = do { b \<leftarrow> peek bs 0; if \<not> bit b 7 then Some (6, push_bit 7 v OR ucast b)
     else varint_from 6 (push_bit 7 v OR ucast (b AND 0x7f)) (tl bs) }"
  "varint_from 6 v bs = do { b \<leftarrow> peek bs 0; if \<not> bit b 7 then Some (7, push_bit 7 v OR ucast b)
     else varint_from 7 (push_bit 7 v OR ucast (b AND 0x7f)) (tl bs) }"
  "varint_from 7 v bs = do { b \<leftarrow> peek bs 0; if \<not> bit b 7 then Some (8, push_bit 7 v OR ucast b)
     else varint_from 8 (push_bit 7 v OR ucast (b AND 0x7f)) (tl bs) }"
  "varint_from 8 v bs = do { b \<leftarrow> peek bs 0; Some (9, push_bit 8 v OR ucast b) }"
  by (cases bs; simp; simp add: numeral_2_eq_2)+

text \<open>Every branch of the unrolled decoder assembles the bits of the reference.\<close>

lemma getVarint_from: "sqlite3GetVarint bs = varint_from 0 0 bs"
  apply (simp add: sqlite3GetVarint_def Let_def signed_nonneg and_0x80 bit_simps varint_from_steps peek_tl
      numeral_2_eq_2 [symmetric] cong del: if_weak_cong split del: if_split)
  apply (intro Option.bind_cong refl if_cong)
          apply simp_all
         apply (rule word64_by_bits; simp add: bit_simps SLOT_2_0_def SLOT_4_2_0_def)+
  done

lemma varint_from_count: "varint_from k v bs = Some (n, w) \<Longrightarrow> k \<le> 8 \<Longrightarrow> k < n \<and> n \<le> 9 \<and> n \<le> k + length bs"
proof (induction k v bs rule: varint_from.induct)
  case (2 k v b bs)
  then show ?case by (auto split: if_splits)
qed simp

lemma varint_from_past: "bit b0 7 \<Longrightarrow> bit b1 7 \<Longrightarrow> bit b2 7 \<Longrightarrow> varint_from 0 0 (b0 # b1 # b2 # bs) = Some (n, w) \<Longrightarrow> 3 < n"
  using varint_from_count [of 3 _ bs n w] by (simp add: eval_nat_numeral)

definition clamp32 :: "64 word \<Rightarrow> 32 word" where
  "clamp32 v = (if v \<le> 0xffffffff then ucast v else 0xffffffff)"

lemma take_bit_self_iff: "take_bit n (w :: 'a :: len word) = w \<longleftrightarrow> unat w < 2 ^ n"
  by (metis take_bit_nat_eq_self_iff unsigned_take_bit_eq word_unat_eq_iff)

lemma mask32_fixed: "(v :: 64 word) AND 0xffffffff = v \<longleftrightarrow> v \<le> 0xffffffff"
proof -
  have "(0xffffffff :: 64 word) = mask 32" by (simp add: mask_eq_exp_minus_1)
  then have "v AND 0xffffffff = v \<longleftrightarrow> unat v < 2 ^ 32" by (simp only: take_bit_eq_mask [symmetric] take_bit_self_iff)
  also have "\<dots> \<longleftrightarrow> v \<le> 0xffffffff" by (simp add: word_le_nat_alt) linarith
  finally show ?thesis .
qed

lemma byte_below_0x80: "(b :: 8 word) < 0x80 \<longleftrightarrow> \<not> bit b 7"
proof -
  have "\<not> bit b 7 \<longleftrightarrow> b AND 0x7f = b"
    using low_byte [of b] low_bits_7f [of 7] by (metis bit_and_iff less_irrefl)
  also have "\<dots> \<longleftrightarrow> take_bit 7 b = b" by (simp add: take_bit_eq_mask mask_eq_exp_minus_1)
  also have "\<dots> \<longleftrightarrow> unat b < 2 ^ 7" by (rule take_bit_self_iff)
  finally show ?thesis by (simp add: word_less_nat_alt)
qed

lemma clamp32_ucast [simp]: "clamp32 (ucast (x :: 32 word)) = x"
proof -
  have "unat (ucast x :: 64 word) = unat x" by (simp add: unsigned_ucast_eq take_bit_nat_eq_self_iff less_trans [OF unsigned_less])
  moreover have "unat x < 2 ^ 32" using unsigned_less [of x, where ?'a = nat] by simp
  moreover have "(ucast (ucast x :: 64 word) :: 32 word) = x" by (rule bit_word_eqI) (auto simp: bit_simps)
  ultimately show ?thesis by (simp add: clamp32_def word_le_nat_alt)
qed

lemma clamp32_byte [simp]: "clamp32 (ucast (x :: 8 word)) = ucast x"
proof -
  have "(ucast x :: 64 word) = ucast (ucast x :: 32 word)"
    by (rule bit_word_eqI) (auto simp: bit_simps dest: bit_imp_le_length)
  then show ?thesis by simp
qed

lemma clamp32_masked: "(if v AND 0xffffffff \<noteq> v then 0xffffffff else ucast v) = clamp32 v"
  by (simp add: clamp32_def mask32_fixed)

lemma getVarint32_long:
  assumes "bit b0 7" and "bit b1 7" and "bit b2 7"
  shows "getVarint32 (b0 # b1 # b2 # bs) = do {
     (n, v64) \<leftarrow> varint_from 0 0 (b0 # b1 # b2 # bs);
     if \<not> (3 < n \<and> n \<le> 9) then None else Some (n, clamp32 v64) }"
  using assms by (simp add: getVarint32_def sqlite3GetVarint32_def Let_def byte_below_0x80 and_0x80 bit_simps
      getVarint_from clamp32_masked del: varint_from.simps cong: if_cong)

lemma getVarint32_short:
  "\<not> bit b0 7 \<Longrightarrow> getVarint32 (b0 # bs) = map_option (\<lambda>(n, v). (n, clamp32 v)) (sqlite3GetVarint (b0 # bs))"
  "bit b0 7 \<Longrightarrow> \<not> bit b1 7 \<Longrightarrow>
   getVarint32 (b0 # b1 # bs) = map_option (\<lambda>(n, v). (n, clamp32 v)) (sqlite3GetVarint (b0 # b1 # bs))"
  "bit b0 7 \<Longrightarrow> bit b1 7 \<Longrightarrow> \<not> bit b2 7 \<Longrightarrow>
   getVarint32 (b0 # b1 # b2 # bs) = map_option (\<lambda>(n, v). (n, clamp32 v)) (sqlite3GetVarint (b0 # b1 # b2 # bs))"
proof -
  have "(ucast b0 AND 0x7f :: 32 word) = ucast (b0 AND 0x7f)" by (simp add: unsigned_and_eq)
  from arg_cong [OF this, of "push_bit 7"]
  have "push_bit 7 (ucast b0) AND 0x3f80 = (push_bit 7 (ucast (b0 AND 0x7f)) :: 32 word)" by simp
  then show "bit b0 7 \<Longrightarrow> \<not> bit b1 7 \<Longrightarrow>
    getVarint32 (b0 # b1 # bs) = map_option (\<lambda>(n, v). (n, clamp32 v)) (sqlite3GetVarint (b0 # b1 # bs))"
    by (simp add: getVarint32_def sqlite3GetVarint32_def sqlite3GetVarint_def Let_def byte_below_0x80 and_0x80
        bit_simps signed_nonneg)
qed (simp_all add: getVarint32_def sqlite3GetVarint32_def sqlite3GetVarint_def Let_def byte_below_0x80
    and_0x80 bit_simps signed_nonneg SLOT_2_0_def)

lemma getVarint32_from: "getVarint32 bs = map_option (\<lambda>(n, v). (n, clamp32 v)) (varint_from 0 0 bs)"
proof -
  consider "bs = []" | b0 where "bs = [b0]" "bit b0 7" | b0 b1 where "bs = [b0, b1]" "bit b0 7" "bit b1 7"
    | b0 bs' where "bs = b0 # bs'" "\<not> bit b0 7" | b0 b1 bs' where "bs = b0 # b1 # bs'" "bit b0 7" "\<not> bit b1 7"
    | b0 b1 b2 bs' where "bs = b0 # b1 # b2 # bs'" "bit b0 7" "bit b1 7" "\<not> bit b2 7"
    | (long) b0 b1 b2 bs' where "bs = b0 # b1 # b2 # bs'" "bit b0 7" "bit b1 7" "bit b2 7"
    by (metis list.exhaust)
  then show ?thesis
  proof cases
    case (long b0 b1 b2 bs')
    have "3 < n \<and> n \<le> 9" if "varint_from 0 0 bs = Some (n, v)" for n v
      using varint_from_past [of b0 b1 b2 bs'] varint_from_count [of 0 0 bs n v] that long by auto
    then show ?thesis
      using getVarint32_long [of b0 b1 b2 bs'] long
      by (cases "varint_from 0 0 bs") (auto simp del: varint_from.simps)
  qed (simp_all only: getVarint32_short getVarint_from not_False_eq_True simp_thms,
      simp_all add: getVarint32_def sqlite3GetVarint32_def byte_below_0x80 and_0x80 bit_simps)
qed

section \<open>Round trip\<close>

lemma group_bits:
  "bit (ucast ((v AND 0x7f) OR 0x80 :: 64 word) :: 8 word) 7"
  "ucast ((ucast ((v AND 0x7f) OR 0x80 :: 64 word) :: 8 word) AND 0x7f) = v AND (0x7f :: 64 word)"
  "\<not> bit ((ucast ((v AND 0x7f) OR 0x80 :: 64 word) :: 8 word) AND 0x7f) 7"
proof -
  show "ucast ((ucast ((v AND 0x7f) OR 0x80 :: 64 word) :: 8 word) AND 0x7f) = v AND (0x7f :: 64 word)"
    by (rule word64_by_bits) (simp add: bit_simps)
qed (simp_all add: bit_simps)

lemma regroup: "push_bit 7 (drop_bit 7 v) OR (v AND 0x7f) = (v :: 64 word)"
  by (rule word64_by_bits) (simp add: bit_simps)

text \<open>The groups of a value, most significant first, each with the continuation bit.\<close>

lemma varint_from_groups:
  "length (put_groups v) \<le> 8 \<Longrightarrow>
   varint_from 0 0 (rev (put_groups v) @ bs) = varint_from (length (put_groups v)) v bs"
proof (induction v arbitrary: bs rule: put_groups.induct)
  case (1 v)
  let ?w = "drop_bit 7 v" and ?g = "ucast ((v AND 0x7f) OR 0x80) :: 8 word"
  have groups: "put_groups v = ?g # (if ?w \<noteq> 0 then put_groups ?w else [])"
    by (subst put_groups.simps) (simp add: Let_def)
  show ?case
  proof (cases "?w = 0")
    case True
    then have "v AND 0x7f = v" using regroup [of v] by simp
    then show ?thesis using group_bits [of v] groups True by simp
  next
    case False
    have "length (put_groups ?w) < 8" using "1.prems" groups False by simp
    then show ?thesis
      using "1.IH" [OF refl False, of "?g # bs"] group_bits [of v] regroup [of v] groups False by simp
  qed
qed

lemma varint_from_high_groups:
  "i \<le> 8 \<Longrightarrow> varint_from 0 0 (put_high_groups i v bs) = varint_from i (take_bit (7 * i) v) bs"
proof (induction i arbitrary: v bs)
  case (Suc i)
  have "push_bit 7 (take_bit (7 * i) (drop_bit 7 v)) OR (v AND 0x7f) = take_bit (7 * Suc i) v"
  proof -
    have "v AND 0x7f = take_bit 7 v" by (simp add: take_bit_eq_mask mask_eq_exp_minus_1)
    then show ?thesis by (intro bit_word_eqI) (auto simp: bit_simps)
  qed
  then show ?case using Suc group_bits [of v] by simp
qed simp

lemma length_high_groups [simp]: "length (put_high_groups i v bs) = i + length bs"
  by (induction i arbitrary: v bs) auto

lemma unat_drop_7: "unat (drop_bit 7 (v :: 64 word)) = unat v div 128"
  by (simp only: unat_drop_bit_eq) (simp add: drop_bit_eq_div)

lemma put_groups_nonempty: "put_groups v \<noteq> []"
  by (subst put_groups.simps) simp

lemma length_groups:
  "0 < k \<Longrightarrow> unat v < 2 ^ (7 * k) \<Longrightarrow> length (put_groups v) \<le> k"
proof (induction v arbitrary: k rule: put_groups.induct)
  case (1 v)
  show ?case
  proof (cases "drop_bit 7 v = 0")
    case True
    then show ?thesis using "1.prems" by (subst put_groups.simps) (simp add: Let_def)
  next
    case False
    then have "\<not> unat v < 2 ^ 7" by (metis take_bit_self_iff take_bit_eq_self_iff_drop_bit_eq_0)
    then obtain j where j: "k = Suc j" "0 < j" using "1.prems" by (cases k; cases "k - 1") auto
    then have "unat (drop_bit 7 v) < 2 ^ (7 * j)"
      using "1.prems" by (simp add: unat_drop_7 power_add less_mult_imp_div_less)
    then show ?thesis using "1.IH" [OF refl False j(2)] False j by (subst put_groups.simps) (simp add: Let_def)
  qed
qed

lemma length_groups_lower: "2 ^ (7 * k) \<le> unat v \<Longrightarrow> k < length (put_groups v)"
proof (induction v arbitrary: k rule: put_groups.induct)
  case (1 v)
  show ?case
  proof (cases k)
    case 0
    then show ?thesis by (subst put_groups.simps) simp
  next
    case (Suc j)
    then have "2 ^ 7 * 2 ^ (7 * j) \<le> unat v" using "1.prems" by (simp add: power_add)
    then have le: "2 ^ (7 * j) \<le> unat (drop_bit 7 v)"
      by (simp add: unat_drop_7 less_eq_div_iff_mult_less_eq mult.commute)
    then have "drop_bit 7 v \<noteq> 0" by auto
    then show ?thesis using "1.IH" [OF refl _ le] Suc by (subst put_groups.simps) (simp add: Let_def)
  qed
qed

lemma VarintLen_groups: "sqlite3VarintLen v = length (put_groups v)"
proof -
  have "varint_len_loop i v + 1 = i + length (put_groups v)" for i
  proof (induction i v rule: varint_len_loop.induct)
    case (1 i v)
    show ?case
      using "1.IH" [OF refl] by (subst varint_len_loop.simps, subst put_groups.simps) (simp add: Let_def)
  qed
  from this [of 1] show ?thesis by (simp add: sqlite3VarintLen_def)
qed

lemma VarintLen_eq: "0 < k \<Longrightarrow> k = 1 \<or> 2 ^ (7 * (k - 1)) \<le> unat v \<Longrightarrow> unat v < 2 ^ (7 * k) \<Longrightarrow> sqlite3VarintLen v = k"
  using length_groups [of k v] length_groups_lower [of "k - 1" v] put_groups_nonempty [of v]
  by (cases "put_groups v") (auto simp: VarintLen_groups)

text \<open>Which values the encoder finds to need nine bytes.\<close>

lemma top_byte_clear: "v AND push_bit 32 0xff000000 = 0 \<longleftrightarrow> unat (v :: 64 word) < 2 ^ 56"
proof -
  have "push_bit 32 0xff000000 = (NOT (mask 56) :: 64 word)"
    by (rule word64_by_bits) (simp add: bit_simps)
  then have "v AND push_bit 32 0xff000000 = 0 \<longleftrightarrow> v AND NOT (mask 56) = 0" by (simp only:)
  also have "\<dots> \<longleftrightarrow> take_bit 56 v = v" by (simp add: bit_eq_iff bit_simps) blast
  finally show ?thesis by (simp only: take_bit_self_iff)
qed

lemma high_groups_append: "put_high_groups i v p @ q = put_high_groups i v (p @ q)"
  by (induction i arbitrary: v p) auto


lemma putVarint64_decodes:
  "\<exists>p. putVarint64 v = Some p \<and> varint_from 0 0 (p @ bs) = Some (length p, v) \<and>
       length p = (if unat v < 2 ^ 56 then sqlite3VarintLen v else 9)"
proof (cases "unat v < 2 ^ 56")
  case True
  let ?g = "ucast ((v AND 0x7f) OR 0x80) :: 8 word" and ?w = "drop_bit 7 v"
  let ?rest = "if ?w \<noteq> 0 then put_groups ?w else []"
  have groups: "put_groups v = ?g # ?rest" by (subst put_groups.simps) (simp add: Let_def)
  have len: "length (put_groups v) \<le> 8" using length_groups [of 8 v] True by simp
  have "varint_from 0 0 (rev ?rest @ bs') = varint_from (length ?rest) ?w bs'" for bs'
    using varint_from_groups [of ?w bs'] groups len by (cases "?w = 0") auto
  from this [of "(?g AND 0x7f) # bs"]
  have "varint_from 0 0 (rev ?rest @ (?g AND 0x7f) # bs) = Some (length (put_groups v), v)"
    using group_bits [of v] regroup [of v] groups len by simp
  then show ?thesis
    using True len groups top_byte_clear [of v] by (simp add: putVarint64_def VarintLen_groups Let_def)
next
  case False
  have "take_bit 56 (drop_bit 8 v) = drop_bit 8 v"
    by (rule bit_word_eqI) (auto simp: bit_simps dest: bit_imp_le_length)
  moreover have "push_bit 8 (drop_bit 8 v) OR ucast (ucast v :: 8 word) = v"
    by (rule word64_by_bits) (simp add: bit_simps)
  ultimately have "varint_from 0 0 (put_high_groups 8 (drop_bit 8 v) (ucast v # bs)) = Some (9, v)"
    using varint_from_high_groups [of 8 "drop_bit 8 v" "ucast v # bs"] by simp
  then show ?thesis using False top_byte_clear [of v] by (simp add: putVarint64_def high_groups_append)
qed

lemma PutVarint_decodes:
  "\<exists>p. sqlite3PutVarint v = Some p \<and> varint_from 0 0 (p @ bs) = Some (length p, v) \<and>
       length p = (if unat v < 2 ^ 56 then sqlite3VarintLen v else 9)"
proof -
  consider "unat v < 2 ^ 7" | "2 ^ 7 \<le> unat v" "unat v < 2 ^ 14" | "2 ^ 14 \<le> unat v" by linarith
  then show ?thesis
  proof cases
    case 1
    then have "v AND 0x7f = v"
      using take_bit_self_iff [of 7 v] by (simp add: take_bit_eq_mask mask_eq_exp_minus_1)
    moreover have "\<not> bit (ucast (v AND 0x7f) :: 8 word) 7" "ucast (ucast (v AND 0x7f) :: 8 word) = v AND (0x7f :: 64 word)"
      by (simp add: bit_simps, rule word64_by_bits) (simp add: bit_simps)
    ultimately show ?thesis using 1 VarintLen_eq [of 1 v] by (simp add: sqlite3PutVarint_def word_le_nat_alt)
  next
    case 2
    then have "v AND 0x3fff = v"
      using take_bit_self_iff [of 14 v] by (simp add: take_bit_eq_mask mask_eq_exp_minus_1)
    moreover have "push_bit 7 (drop_bit 7 v AND 0x7f) OR (v AND 0x7f) = v AND 0x3fff"
      by (rule word64_by_bits) (simp add: bit_simps)
    moreover have "\<not> bit (ucast (v AND 0x7f) :: 8 word) 7" "ucast (ucast (v AND 0x7f) :: 8 word) = v AND (0x7f :: 64 word)"
      by (simp add: bit_simps, rule word64_by_bits) (simp add: bit_simps)
    ultimately show ?thesis
      using 2 VarintLen_eq [of 2 v] group_bits [of "drop_bit 7 v"]
      by (simp add: sqlite3PutVarint_def word_le_nat_alt)
  next
    case 3
    then show ?thesis using putVarint64_decodes [of v bs] by (simp add: sqlite3PutVarint_def word_le_nat_alt)
  qed
qed


text \<open>
  Property C21: the unrolled decoder of 64-bit varints, which assembles the value in 32-bit registers with
  precomputed masks, returns for every content of memory what the byte-by-byte definition of the format gives:
  the same number of bytes read and the same value, and it reads no byte beyond them. The 32-bit decoder, with its
  macro for the one-byte case, returns the same number of bytes and the value cut off at 0xffffffff.
\<close>
theorem varint_decoders_follow_format:
  "sqlite3GetVarint bs = varint_from 0 0 bs \<and>
   getVarint32 bs = map_option (\<lambda>(n, v). (n, clamp32 v)) (varint_from 0 0 bs)"
  by (simp only: getVarint_from getVarint32_from)

lemma putVarint32_decodes:
  "\<exists>p. putVarint32 w = Some p \<and> map_option (\<lambda>(n, v). (n, clamp32 v)) (varint_from 0 0 (p @ bs)) = Some (length p, w)"
proof (cases "w < 0x80")
  case True
  then have "unat w < 128" by (simp add: word_less_nat_alt)
  then have "take_bit 7 w = w" by (simp add: take_bit_self_iff)
  then have bits: "bit w n \<Longrightarrow> n < 7" for n by (metis bit_take_bit_iff)
  then have "\<not> bit (ucast w :: 8 word) 7" by (auto simp: bit_simps)
  moreover have "ucast (ucast w :: 8 word) = w" by (rule bit_word_eqI) (use bits in \<open>fastforce simp: bit_simps\<close>)
  ultimately show ?thesis using True by (simp add: putVarint32_def)
next
  case False
  then show ?thesis using PutVarint_decodes [of "ucast w" bs] by (auto simp: putVarint32_def)
qed

lemma VarintLen_ten: "2 ^ 63 \<le> unat v \<Longrightarrow> sqlite3VarintLen v = 10"
  using unsigned_less [of v, where 'a = nat] by (intro VarintLen_eq) simp_all

lemma written_length:
  "(if unat v < 2 ^ 56 then sqlite3VarintLen v else 9) = (if unat v < 2 ^ 63 then sqlite3VarintLen v else 9)"
  using VarintLen_eq [of 9 v] by auto

text \<open>
  Property C25: every 64-bit value survives encoding and decoding, whatever follows it in memory; the decoder reads
  back as many bytes as the encoder wrote. Below \<open>2 ^ 63\<close>, for every non-negative value of an \<open>i64\<close>, that is the
  number of bytes \<^term>\<open>sqlite3VarintLen\<close> announces; from there on nine bytes are written and
  \<^term>\<open>sqlite3VarintLen\<close> announces ten. The same round trip holds for the 32-bit macros.
\<close>
theorem varint_roundtrip:
  "\<exists>p q. sqlite3PutVarint v = Some p \<and> sqlite3GetVarint (p @ bs) = Some (length p, v) \<and>
     (if unat v < 2 ^ 63 then length p = sqlite3VarintLen v else length p = 9 \<and> sqlite3VarintLen v = 10) \<and>
     putVarint32 w = Some q \<and> getVarint32 (q @ bs) = Some (length q, w)"
  using PutVarint_decodes [of v bs] putVarint32_decodes [of w bs] VarintLen_ten [of v]
  unfolding written_length by (auto simp: getVarint_from getVarint32_from)

end
