(* ===== verification/Sqlite_Keywords.thy ===== *)
theory Sqlite_Keywords
  imports Sqlite_Ctype
begin

text \<open>
  Recognition of SQL keywords (\<open>keywordhash.h\<close> in \<open>sqlite3.c\<close>): a hash table whose 143 keywords overlap in one text.
  It is compared with a plain list of keywords. \<^term>\<open>None\<close> is an access outside a table or the identifier.
\<close>

named_theorems token_codes \<open>the token codes as numbers\<close>

section \<open>Token codes\<close>

definition TK_SEMI :: nat where [token_codes]: "TK_SEMI = 1"
definition TK_EXPLAIN :: nat where [token_codes]: "TK_EXPLAIN = 2"
definition TK_QUERY :: nat where [token_codes]: "TK_QUERY = 3"
definition TK_PLAN :: nat where [token_codes]: "TK_PLAN = 4"
definition TK_BEGIN :: nat where [token_codes]: "TK_BEGIN = 5"
definition TK_TRANSACTION :: nat where [token_codes]: "TK_TRANSACTION = 6"
definition TK_DEFERRED :: nat where [token_codes]: "TK_DEFERRED = 7"
definition TK_IMMEDIATE :: nat where [token_codes]: "TK_IMMEDIATE = 8"
definition TK_EXCLUSIVE :: nat where [token_codes]: "TK_EXCLUSIVE = 9"
definition TK_COMMIT :: nat where [token_codes]: "TK_COMMIT = 10"
definition TK_END :: nat where [token_codes]: "TK_END = 11"
definition TK_ROLLBACK :: nat where [token_codes]: "TK_ROLLBACK = 12"
definition TK_SAVEPOINT :: nat where [token_codes]: "TK_SAVEPOINT = 13"
definition TK_RELEASE :: nat where [token_codes]: "TK_RELEASE = 14"
definition TK_TO :: nat where [token_codes]: "TK_TO = 15"
definition TK_TABLE :: nat where [token_codes]: "TK_TABLE = 16"
definition TK_CREATE :: nat where [token_codes]: "TK_CREATE = 17"
definition TK_IF :: nat where [token_codes]: "TK_IF = 18"
definition TK_NOT :: nat where [token_codes]: "TK_NOT = 19"
definition TK_EXISTS :: nat where [token_codes]: "TK_EXISTS = 20"
definition TK_TEMP :: nat where [token_codes]: "TK_TEMP = 21"
definition TK_LP :: nat where [token_codes]: "TK_LP = 22"
definition TK_RP :: nat where [token_codes]: "TK_RP = 23"
definition TK_AS :: nat where [token_codes]: "TK_AS = 24"
definition TK_WITHOUT :: nat where [token_codes]: "TK_WITHOUT = 25"
definition TK_COMMA :: nat where [token_codes]: "TK_COMMA = 26"
definition TK_ABORT :: nat where [token_codes]: "TK_ABORT = 27"
definition TK_ACTION :: nat where [token_codes]: "TK_ACTION = 28"
definition TK_AFTER :: nat where [token_codes]: "TK_AFTER = 29"
definition TK_ANALYZE :: nat where [token_codes]: "TK_ANALYZE = 30"
definition TK_ASC :: nat where [token_codes]: "TK_ASC = 31"
definition TK_ATTACH :: nat where [token_codes]: "TK_ATTACH = 32"
definition TK_BEFORE :: nat where [token_codes]: "TK_BEFORE = 33"
definition TK_BY :: nat where [token_codes]: "TK_BY = 34"
definition TK_CASCADE :: nat where [token_codes]: "TK_CASCADE = 35"
definition TK_CAST :: nat where [token_codes]: "TK_CAST = 36"
definition TK_CONFLICT :: nat where [token_codes]: "TK_CONFLICT = 37"
definition TK_DATABASE :: nat where [token_codes]: "TK_DATABASE = 38"
definition TK_DESC :: nat where [token_codes]: "TK_DESC = 39"
definition TK_DETACH :: nat where [token_codes]: "TK_DETACH = 40"
definition TK_EACH :: nat where [token_codes]: "TK_EACH = 41"
definition TK_FAIL :: nat where [token_codes]: "TK_FAIL = 42"
definition TK_OR :: nat where [token_codes]: "TK_OR = 43"
definition TK_AND :: nat where [token_codes]: "TK_AND = 44"
definition TK_IS :: nat where [token_codes]: "TK_IS = 45"
definition TK_MATCH :: nat where [token_codes]: "TK_MATCH = 46"
definition TK_LIKE_KW :: nat where [token_codes]: "TK_LIKE_KW = 47"
definition TK_BETWEEN :: nat where [token_codes]: "TK_BETWEEN = 48"
definition TK_IN :: nat where [token_codes]: "TK_IN = 49"
definition TK_ISNULL :: nat where [token_codes]: "TK_ISNULL = 50"
definition TK_NOTNULL :: nat where [token_codes]: "TK_NOTNULL = 51"
definition TK_NE :: nat where [token_codes]: "TK_NE = 52"
definition TK_EQ :: nat where [token_codes]: "TK_EQ = 53"
definition TK_GT :: nat where [token_codes]: "TK_GT = 54"
definition TK_LE :: nat where [token_codes]: "TK_LE = 55"
definition TK_LT :: nat where [token_codes]: "TK_LT = 56"
definition TK_GE :: nat where [token_codes]: "TK_GE = 57"
definition TK_ESCAPE :: nat where [token_codes]: "TK_ESCAPE = 58"
definition TK_ID :: nat where [token_codes]: "TK_ID = 59"
definition TK_COLUMNKW :: nat where [token_codes]: "TK_COLUMNKW = 60"
definition TK_DO :: nat where [token_codes]: "TK_DO = 61"
definition TK_FOR :: nat where [token_codes]: "TK_FOR = 62"
definition TK_IGNORE :: nat where [token_codes]: "TK_IGNORE = 63"
definition TK_INITIALLY :: nat where [token_codes]: "TK_INITIALLY = 64"
definition TK_INSTEAD :: nat where [token_codes]: "TK_INSTEAD = 65"
definition TK_NO :: nat where [token_codes]: "TK_NO = 66"
definition TK_KEY :: nat where [token_codes]: "TK_KEY = 67"
definition TK_OF :: nat where [token_codes]: "TK_OF = 68"
definition TK_OFFSET :: nat where [token_codes]: "TK_OFFSET = 69"
definition TK_PRAGMA :: nat where [token_codes]: "TK_PRAGMA = 70"
definition TK_RAISE :: nat where [token_codes]: "TK_RAISE = 71"
definition TK_RECURSIVE :: nat where [token_codes]: "TK_RECURSIVE = 72"
definition TK_REPLACE :: nat where [token_codes]: "TK_REPLACE = 73"
definition TK_RESTRICT :: nat where [token_codes]: "TK_RESTRICT = 74"
definition TK_ROW :: nat where [token_codes]: "TK_ROW = 75"
definition TK_ROWS :: nat where [token_codes]: "TK_ROWS = 76"
definition TK_TRIGGER :: nat where [token_codes]: "TK_TRIGGER = 77"
definition TK_VACUUM :: nat where [token_codes]: "TK_VACUUM = 78"
definition TK_VIEW :: nat where [token_codes]: "TK_VIEW = 79"
definition TK_VIRTUAL :: nat where [token_codes]: "TK_VIRTUAL = 80"
definition TK_WITH :: nat where [token_codes]: "TK_WITH = 81"
definition TK_NULLS :: nat where [token_codes]: "TK_NULLS = 82"
definition TK_FIRST :: nat where [token_codes]: "TK_FIRST = 83"
definition TK_LAST :: nat where [token_codes]: "TK_LAST = 84"
definition TK_CURRENT :: nat where [token_codes]: "TK_CURRENT = 85"
definition TK_FOLLOWING :: nat where [token_codes]: "TK_FOLLOWING = 86"
definition TK_PARTITION :: nat where [token_codes]: "TK_PARTITION = 87"
definition TK_PRECEDING :: nat where [token_codes]: "TK_PRECEDING = 88"
definition TK_RANGE :: nat where [token_codes]: "TK_RANGE = 89"
definition TK_UNBOUNDED :: nat where [token_codes]: "TK_UNBOUNDED = 90"
definition TK_EXCLUDE :: nat where [token_codes]: "TK_EXCLUDE = 91"
definition TK_GROUPS :: nat where [token_codes]: "TK_GROUPS = 92"
definition TK_OTHERS :: nat where [token_codes]: "TK_OTHERS = 93"
definition TK_TIES :: nat where [token_codes]: "TK_TIES = 94"
definition TK_REINDEX :: nat where [token_codes]: "TK_REINDEX = 95"
definition TK_RENAME :: nat where [token_codes]: "TK_RENAME = 96"
definition TK_CTIME_KW :: nat where [token_codes]: "TK_CTIME_KW = 97"
definition TK_BITAND :: nat where [token_codes]: "TK_BITAND = 99"
definition TK_BITOR :: nat where [token_codes]: "TK_BITOR = 100"
definition TK_LSHIFT :: nat where [token_codes]: "TK_LSHIFT = 101"
definition TK_RSHIFT :: nat where [token_codes]: "TK_RSHIFT = 102"
definition TK_PLUS :: nat where [token_codes]: "TK_PLUS = 103"
definition TK_MINUS :: nat where [token_codes]: "TK_MINUS = 104"
definition TK_STAR :: nat where [token_codes]: "TK_STAR = 105"
definition TK_SLASH :: nat where [token_codes]: "TK_SLASH = 106"
definition TK_REM :: nat where [token_codes]: "TK_REM = 107"
definition TK_CONCAT :: nat where [token_codes]: "TK_CONCAT = 108"
definition TK_COLLATE :: nat where [token_codes]: "TK_COLLATE = 109"
definition TK_BITNOT :: nat where [token_codes]: "TK_BITNOT = 110"
definition TK_ON :: nat where [token_codes]: "TK_ON = 111"
definition TK_INDEXED :: nat where [token_codes]: "TK_INDEXED = 112"
definition TK_STRING :: nat where [token_codes]: "TK_STRING = 113"
definition TK_JOIN_KW :: nat where [token_codes]: "TK_JOIN_KW = 114"
definition TK_CONSTRAINT :: nat where [token_codes]: "TK_CONSTRAINT = 115"
definition TK_DEFAULT :: nat where [token_codes]: "TK_DEFAULT = 116"
definition TK_NULL :: nat where [token_codes]: "TK_NULL = 117"
definition TK_PRIMARY :: nat where [token_codes]: "TK_PRIMARY = 118"
definition TK_UNIQUE :: nat where [token_codes]: "TK_UNIQUE = 119"
definition TK_CHECK :: nat where [token_codes]: "TK_CHECK = 120"
definition TK_REFERENCES :: nat where [token_codes]: "TK_REFERENCES = 121"
definition TK_AUTOINCR :: nat where [token_codes]: "TK_AUTOINCR = 122"
definition TK_INSERT :: nat where [token_codes]: "TK_INSERT = 123"
definition TK_DELETE :: nat where [token_codes]: "TK_DELETE = 124"
definition TK_UPDATE :: nat where [token_codes]: "TK_UPDATE = 125"
definition TK_SET :: nat where [token_codes]: "TK_SET = 126"
definition TK_DEFERRABLE :: nat where [token_codes]: "TK_DEFERRABLE = 127"
definition TK_FOREIGN :: nat where [token_codes]: "TK_FOREIGN = 128"
definition TK_DROP :: nat where [token_codes]: "TK_DROP = 129"
definition TK_UNION :: nat where [token_codes]: "TK_UNION = 130"
definition TK_ALL :: nat where [token_codes]: "TK_ALL = 131"
definition TK_EXCEPT :: nat where [token_codes]: "TK_EXCEPT = 132"
definition TK_INTERSECT :: nat where [token_codes]: "TK_INTERSECT = 133"
definition TK_SELECT :: nat where [token_codes]: "TK_SELECT = 134"
definition TK_VALUES :: nat where [token_codes]: "TK_VALUES = 135"
definition TK_DISTINCT :: nat where [token_codes]: "TK_DISTINCT = 136"
definition TK_DOT :: nat where [token_codes]: "TK_DOT = 137"
definition TK_FROM :: nat where [token_codes]: "TK_FROM = 138"
definition TK_JOIN :: nat where [token_codes]: "TK_JOIN = 139"
definition TK_USING :: nat where [token_codes]: "TK_USING = 140"
definition TK_ORDER :: nat where [token_codes]: "TK_ORDER = 141"
definition TK_GROUP :: nat where [token_codes]: "TK_GROUP = 142"
definition TK_HAVING :: nat where [token_codes]: "TK_HAVING = 143"
definition TK_LIMIT :: nat where [token_codes]: "TK_LIMIT = 144"
definition TK_WHERE :: nat where [token_codes]: "TK_WHERE = 145"
definition TK_INTO :: nat where [token_codes]: "TK_INTO = 146"
definition TK_NOTHING :: nat where [token_codes]: "TK_NOTHING = 147"
definition TK_FLOAT :: nat where [token_codes]: "TK_FLOAT = 148"
definition TK_BLOB :: nat where [token_codes]: "TK_BLOB = 149"
definition TK_INTEGER :: nat where [token_codes]: "TK_INTEGER = 150"
definition TK_VARIABLE :: nat where [token_codes]: "TK_VARIABLE = 151"
definition TK_CASE :: nat where [token_codes]: "TK_CASE = 152"
definition TK_WHEN :: nat where [token_codes]: "TK_WHEN = 153"
definition TK_THEN :: nat where [token_codes]: "TK_THEN = 154"
definition TK_ELSE :: nat where [token_codes]: "TK_ELSE = 155"
definition TK_INDEX :: nat where [token_codes]: "TK_INDEX = 156"
definition TK_ALTER :: nat where [token_codes]: "TK_ALTER = 157"
definition TK_ADD :: nat where [token_codes]: "TK_ADD = 158"
definition TK_WINDOW :: nat where [token_codes]: "TK_WINDOW = 159"
definition TK_OVER :: nat where [token_codes]: "TK_OVER = 160"
definition TK_FILTER :: nat where [token_codes]: "TK_FILTER = 161"
definition TK_SPACE :: nat where [token_codes]: "TK_SPACE = 177"
definition TK_ILLEGAL :: nat where [token_codes]: "TK_ILLEGAL = 178"

section \<open>Tables\<close>

definition zKWText :: string where
  "zKWText =
     ''REINDEXEDESCAPEACHECKEYBEFOREIGNOREGEXPLAINSTEADDATABASELECTABLE'' @
     ''FTHENDEFERRABLELSEXCLUDELETEMPORARYISNULLSAVEPOINTERSECTIESNOTNU'' @
     ''LLIKEXCEPTRANSACTIONATURALTERAISEXCLUSIVEXISTSCONSTRAINTOFFSETRI'' @
     ''GGEREFERENCESUNIQUERYWITHOUTERELEASEATTACHAVINGLOBEGINNERANGEBET'' @
     ''WEENOTHINGROUPSCASCADETACHCASECOLLATECREATECURRENT_DATEIMMEDIATE'' @
     ''JOINSERTMATCHPLANALYZEPRAGMABORTUPDATEVALUESVIRTUALASTWHENWHEREC'' @
     ''URSIVEAFTERENAMEANDEFAULTAUTOINCREMENTCASTCOLUMNCOMMITCONFLICTCR'' @
     ''OSSCURRENT_TIMESTAMPARTITIONDEFERREDISTINCTDROPRECEDINGFAILIMITF'' @
     ''ILTEREPLACEFIRSTFOLLOWINGFROMFULLIFORDERESTRICTOTHERSOVERIGHTROL'' @
     ''LBACKROWSUNBOUNDEDUNIONUSINGVACUUMVIEWINDOWBYINITIALLYPRIMARY''"

definition aKWHash :: "nat list" where
  "aKWHash =
    [82, 113, 130, 80, 110, 29, 0, 0, 89, 0, 83, 70, 0, 53, 35, 84, 15, 0, 129, 92,
     64, 124, 131, 19, 0, 0, 136, 0, 134, 126, 0, 22, 100, 0, 9, 0, 0, 121, 78, 0,
     76, 6, 0, 58, 97, 143, 0, 132, 108, 0, 0, 48, 0, 111, 24, 0, 17, 0, 137, 63,
     23, 26, 5, 65, 138, 103, 120, 0, 142, 114, 69, 141, 66, 118, 72, 0, 98, 0, 107, 41,
     0, 106, 0, 0, 0, 102, 99, 104, 109, 123, 14, 50, 122, 0, 87, 0, 139, 119, 140, 68,
     127, 135, 86, 81, 37, 91, 117, 0, 0, 101, 51, 128, 125, 0, 133, 0, 0, 44, 0, 93,
     67, 39, 0, 20, 45, 115, 88]"

definition aKWNext :: "nat list" where
  "aKWNext =
    [0, 0, 0, 0, 4, 0, 0, 0, 0, 0, 0, 0, 0, 0, 2, 0, 0, 0, 0, 0,
     0, 13, 0, 0, 0, 0, 0, 0, 0, 21, 0, 0, 0, 0, 12, 0, 0, 0, 0, 0,
     0, 0, 7, 0, 36, 0, 0, 28, 0, 0, 0, 31, 0, 0, 0, 40, 0, 0, 0, 0,
     0, 60, 0, 54, 0, 0, 38, 47, 0, 0, 0, 3, 0, 0, 74, 1, 73, 0, 0, 0,
     52, 0, 0, 0, 0, 0, 0, 57, 59, 56, 30, 0, 0, 0, 46, 0, 16, 49, 10, 0,
     0, 0, 0, 0, 0, 0, 11, 79, 95, 0, 0, 8, 0, 112, 0, 105, 0, 43, 62, 0,
     77, 0, 116, 0, 61, 0, 0, 94, 42, 55, 0, 75, 34, 90, 32, 33, 27, 25, 18, 96,
     0, 71, 85]"

definition aKWLen :: "nat list" where
  "aKWLen =
    [7, 7, 5, 4, 6, 4, 5, 3, 6, 7, 3, 6, 6, 7, 7, 3, 8, 2, 6, 5, 4, 4, 3, 10,
     4, 7, 6, 9, 4, 2, 6, 5, 9, 9, 4, 7, 3, 2, 4, 4, 6, 11, 6, 2, 7, 5, 5, 9,
     6, 10, 4, 6, 2, 3, 7, 10, 6, 5, 7, 4, 5, 7, 6, 6, 4, 5, 5, 5, 7, 7, 6, 5,
     7, 3, 6, 4, 7, 6, 12, 9, 4, 6, 5, 4, 7, 6, 5, 6, 6, 7, 4, 4, 5, 9, 5, 6,
     3, 7, 13, 2, 2, 4, 6, 6, 8, 5, 17, 12, 7, 9, 8, 8, 2, 4, 9, 4, 5, 6, 7, 5,
     9, 4, 4, 2, 5, 8, 6, 4, 5, 8, 4, 3, 9, 5, 5, 6, 4, 6, 2, 2, 9, 3, 7]"

definition aKWOffset :: "nat list" where
  "aKWOffset =
    [0, 2, 2, 8, 9, 14, 16, 20, 23, 25, 25, 29, 33, 36, 41, 46, 48, 53, 54, 59,
     62, 65, 67, 69, 78, 81, 86, 90, 90, 94, 99, 101, 105, 111, 119, 123, 123, 123, 126, 129,
     132, 137, 142, 146, 147, 152, 156, 160, 168, 174, 181, 184, 184, 187, 189, 195, 205, 208, 213, 213,
     217, 221, 228, 233, 238, 241, 244, 248, 253, 259, 265, 265, 271, 272, 276, 282, 286, 293, 299, 311,
     320, 322, 328, 333, 335, 342, 347, 352, 358, 364, 370, 374, 378, 381, 390, 394, 400, 402, 409, 411,
     413, 422, 426, 432, 438, 446, 451, 451, 451, 467, 476, 483, 484, 491, 494, 503, 506, 511, 516, 523,
     528, 537, 541, 545, 547, 551, 559, 565, 568, 573, 581, 581, 585, 594, 599, 604, 610, 613, 616, 619,
     621, 626, 630]"

definition aKWCode :: "nat list" where
  "aKWCode =
    [TK_REINDEX, TK_INDEXED, TK_INDEX, TK_DESC, TK_ESCAPE,
     TK_EACH, TK_CHECK, TK_KEY, TK_BEFORE, TK_FOREIGN,
     TK_FOR, TK_IGNORE, TK_LIKE_KW, TK_EXPLAIN, TK_INSTEAD,
     TK_ADD, TK_DATABASE, TK_AS, TK_SELECT, TK_TABLE,
     TK_JOIN_KW, TK_THEN, TK_END, TK_DEFERRABLE, TK_ELSE,
     TK_EXCLUDE, TK_DELETE, TK_TEMP, TK_TEMP, TK_OR,
     TK_ISNULL, TK_NULLS, TK_SAVEPOINT, TK_INTERSECT, TK_TIES,
     TK_NOTNULL, TK_NOT, TK_NO, TK_NULL, TK_LIKE_KW,
     TK_EXCEPT, TK_TRANSACTION, TK_ACTION, TK_ON, TK_JOIN_KW,
     TK_ALTER, TK_RAISE, TK_EXCLUSIVE, TK_EXISTS, TK_CONSTRAINT,
     TK_INTO, TK_OFFSET, TK_OF, TK_SET, TK_TRIGGER,
     TK_REFERENCES, TK_UNIQUE, TK_QUERY, TK_WITHOUT, TK_WITH,
     TK_JOIN_KW, TK_RELEASE, TK_ATTACH, TK_HAVING, TK_LIKE_KW,
     TK_BEGIN, TK_JOIN_KW, TK_RANGE, TK_BETWEEN, TK_NOTHING,
     TK_GROUPS, TK_GROUP, TK_CASCADE, TK_ASC, TK_DETACH,
     TK_CASE, TK_COLLATE, TK_CREATE, TK_CTIME_KW, TK_IMMEDIATE,
     TK_JOIN, TK_INSERT, TK_MATCH, TK_PLAN, TK_ANALYZE,
     TK_PRAGMA, TK_ABORT, TK_UPDATE, TK_VALUES, TK_VIRTUAL,
     TK_LAST, TK_WHEN, TK_WHERE, TK_RECURSIVE, TK_AFTER,
     TK_RENAME, TK_AND, TK_DEFAULT, TK_AUTOINCR, TK_TO,
     TK_IN, TK_CAST, TK_COLUMNKW, TK_COMMIT, TK_CONFLICT,
     TK_JOIN_KW, TK_CTIME_KW, TK_CTIME_KW, TK_CURRENT, TK_PARTITION,
     TK_DEFERRED, TK_DISTINCT, TK_IS, TK_DROP, TK_PRECEDING,
     TK_FAIL, TK_LIMIT, TK_FILTER, TK_REPLACE, TK_FIRST,
     TK_FOLLOWING, TK_FROM, TK_JOIN_KW, TK_IF, TK_ORDER,
     TK_RESTRICT, TK_OTHERS, TK_OVER, TK_JOIN_KW, TK_ROLLBACK,
     TK_ROWS, TK_ROW, TK_UNBOUNDED, TK_UNION, TK_USING,
     TK_VACUUM, TK_VIEW, TK_WINDOW, TK_DO, TK_BY,
     TK_INITIALLY, TK_ALL, TK_PRIMARY]"

lemma kw_lengths [simp]:
  "length aKWHash = 127" "length aKWNext = 143" "length aKWLen = 143" "length aKWOffset = 143" "length aKWCode = 143"
  by (simp_all add: aKWHash_def aKWNext_def aKWLen_def aKWOffset_def aKWCode_def)

section \<open>Lookup\<close>

definition charMap :: "8 word \<Rightarrow> nat" where
  "charMap c = unat (UpperToLower c)"

fun kw_match :: "bytes \<Rightarrow> string \<Rightarrow> bool option" where
  "kw_match [] zKW = Some True"
| "kw_match (c # z) [] = None"
| "kw_match (c # z) (k # zKW) = (if c AND NOT 0x20 = of_char k then kw_match z zKW else Some False)"

text \<open>A chain goes to smaller and smaller indices.\<close>

lemma chain_decreases: "i < 143 \<Longrightarrow> aKWNext ! i \<le> i"
proof -
  have "list_all2 (\<le>) aKWNext [0..<143]" by code_simp
  then show "i < 143 \<Longrightarrow> ?thesis" by (simp add: list_all2_conv_all_nth)
qed

text \<open>The loop over a chain; the argument is the index plus one, as the tables store it.\<close>

function kw_loop :: "nat \<Rightarrow> bytes \<Rightarrow> nat \<Rightarrow> nat option" where
  "kw_loop 0 z pType = Some pType"
| "kw_loop (Suc i) z pType =
     (if length aKWLen \<le> i then None
      else if aKWLen ! i \<noteq> length z then kw_loop (aKWNext ! i) z pType
      else do {
        b \<leftarrow> kw_match z (drop (aKWOffset ! i) zKWText);
        if b then Some (aKWCode ! i) else kw_loop (aKWNext ! i) z pType })"
  by pat_completeness auto
termination
  by (relation "measure fst") (auto simp: le_imp_less_Suc chain_decreases)

definition keywordCode :: "bytes \<Rightarrow> nat \<Rightarrow> nat \<Rightarrow> (nat \<times> nat) option" where
  "keywordCode z n pType =
     (if n \<ge> 2 then
        if length z < n then None
        else do {
          t \<leftarrow> kw_loop (aKWHash ! ((charMap (z ! 0) * 4 XOR charMap (z ! (n - 1)) * 3 XOR n) mod 127)) (take n z) pType;
          Some (n, t) }
      else Some (n, pType))"

definition sqlite3KeywordCode :: "bytes \<Rightarrow> nat \<Rightarrow> nat option" where
  "sqlite3KeywordCode z n = map_option snd (keywordCode z n TK_ID)"

definition SQLITE_N_KEYWORD :: nat where "SQLITE_N_KEYWORD = 143"

text \<open>The name and its length, for a valid index.\<close>

definition sqlite3_keyword_name :: "int \<Rightarrow> (string \<times> nat) option" where
  "sqlite3_keyword_name i =
     (if i < 0 \<or> i \<ge> int SQLITE_N_KEYWORD then None
      else Some (drop (aKWOffset ! nat i) zKWText, aKWLen ! nat i))"

definition sqlite3_keyword_count :: nat where "sqlite3_keyword_count = SQLITE_N_KEYWORD"

definition sqlite3_keyword_check :: "bytes \<Rightarrow> nat \<Rightarrow> bool option" where
  "sqlite3_keyword_check zName nName = map_option (\<lambda>t. TK_ID \<noteq> t) (sqlite3KeywordCode zName nName)"

end
