(* ===== verification/Sqlite_Tokenize.thy ===== *)
theory Sqlite_Tokenize
  imports Sqlite_Keywords Sqlite_Codes
begin

text \<open>
  The SQL tokenizer (\<open>tokenize.c\<close> in \<open>sqlite3.c\<close>) and the loop that gives the tokens of a statement to the parser.
  A pointer into the statement is the list of the bytes from there on; reading past its end is \<^term>\<open>None\<close>. The parser
  that Lemon generates is a parameter of the loop.
\<close>

section \<open>Character classes\<close>

named_theorems class_codes \<open>the character classes as numbers\<close>

definition CC_X :: nat where [class_codes]: "CC_X = 0"
definition CC_KYWD :: nat where [class_codes]: "CC_KYWD = 1"
definition CC_ID :: nat where [class_codes]: "CC_ID = 2"
definition CC_DIGIT :: nat where [class_codes]: "CC_DIGIT = 3"
definition CC_DOLLAR :: nat where [class_codes]: "CC_DOLLAR = 4"
definition CC_VARALPHA :: nat where [class_codes]: "CC_VARALPHA = 5"
definition CC_VARNUM :: nat where [class_codes]: "CC_VARNUM = 6"
definition CC_SPACE :: nat where [class_codes]: "CC_SPACE = 7"
definition CC_QUOTE :: nat where [class_codes]: "CC_QUOTE = 8"
definition CC_QUOTE2 :: nat where [class_codes]: "CC_QUOTE2 = 9"
definition CC_PIPE :: nat where [class_codes]: "CC_PIPE = 10"
definition CC_MINUS :: nat where [class_codes]: "CC_MINUS = 11"
definition CC_LT :: nat where [class_codes]: "CC_LT = 12"
definition CC_GT :: nat where [class_codes]: "CC_GT = 13"
definition CC_EQ :: nat where [class_codes]: "CC_EQ = 14"
definition CC_BANG :: nat where [class_codes]: "CC_BANG = 15"
definition CC_SLASH :: nat where [class_codes]: "CC_SLASH = 16"
definition CC_LP :: nat where [class_codes]: "CC_LP = 17"
definition CC_RP :: nat where [class_codes]: "CC_RP = 18"
definition CC_SEMI :: nat where [class_codes]: "CC_SEMI = 19"
definition CC_PLUS :: nat where [class_codes]: "CC_PLUS = 20"
definition CC_STAR :: nat where [class_codes]: "CC_STAR = 21"
definition CC_PERCENT :: nat where [class_codes]: "CC_PERCENT = 22"
definition CC_COMMA :: nat where [class_codes]: "CC_COMMA = 23"
definition CC_AND :: nat where [class_codes]: "CC_AND = 24"
definition CC_TILDA :: nat where [class_codes]: "CC_TILDA = 25"
definition CC_DOT :: nat where [class_codes]: "CC_DOT = 26"
definition CC_ILLEGAL :: nat where [class_codes]: "CC_ILLEGAL = 27"
definition CC_NUL :: nat where [class_codes]: "CC_NUL = 28"

definition aiClass :: "nat list" where
  "aiClass =
    [28, 27, 27, 27, 27, 27, 27, 27, 27, 7, 7, 27, 7, 7, 27, 27,
     27, 27, 27, 27, 27, 27, 27, 27, 27, 27, 27, 27, 27, 27, 27, 27,
     7, 15, 8, 5, 4, 22, 24, 8, 17, 18, 21, 20, 23, 11, 26, 16,
     3, 3, 3, 3, 3, 3, 3, 3, 3, 3, 5, 19, 12, 14, 13, 6,
     5, 1, 1, 1, 1, 1, 1, 1, 1, 1, 1, 1, 1, 1, 1, 1,
     1, 1, 1, 1, 1, 1, 1, 1, 0, 1, 1, 9, 27, 27, 27, 1,
     8, 1, 1, 1, 1, 1, 1, 1, 1, 1, 1, 1, 1, 1, 1, 1,
     1, 1, 1, 1, 1, 1, 1, 1, 0, 1, 1, 27, 10, 27, 25, 27,
     2, 2, 2, 2, 2, 2, 2, 2, 2, 2, 2, 2, 2, 2, 2, 2,
     2, 2, 2, 2, 2, 2, 2, 2, 2, 2, 2, 2, 2, 2, 2, 2,
     2, 2, 2, 2, 2, 2, 2, 2, 2, 2, 2, 2, 2, 2, 2, 2,
     2, 2, 2, 2, 2, 2, 2, 2, 2, 2, 2, 2, 2, 2, 2, 2,
     2, 2, 2, 2, 2, 2, 2, 2, 2, 2, 2, 2, 2, 2, 2, 2,
     2, 2, 2, 2, 2, 2, 2, 2, 2, 2, 2, 2, 2, 2, 2, 2,
     2, 2, 2, 2, 2, 2, 2, 2, 2, 2, 2, 2, 2, 2, 2, 2,
     2, 2, 2, 2, 2, 2, 2, 2, 2, 2, 2, 2, 2, 2, 2, 2]"

definition char_class :: "8 word \<Rightarrow> nat" where
  "char_class c = aiClass ! unat c"

section \<open>Reading and scanning\<close>

definition at :: "bytes \<Rightarrow> nat \<Rightarrow> 8 word option" where
  "at z i = (if i < length z then Some (z ! i) else None)"

text \<open>The loop \<open>while( P(z[i]) ) i++\<close>; the list starts at \<open>z[i]\<close>.\<close>

fun skip :: "(8 word \<Rightarrow> bool) \<Rightarrow> bytes \<Rightarrow> nat \<Rightarrow> nat option" where
  "skip P [] i = None"
| "skip P (c # z) i = (if P c then skip P z (Suc i) else Some i)"

section \<open>Tokens\<close>

text \<open>Every function returns the length of the token and its type.\<close>

type_synonym token = "nat \<times> nat"

definition tok_space :: "bytes \<Rightarrow> token option" where
  "tok_space z = do { i \<leftarrow> skip sqlite3Isspace (drop 1 z) 1; Some (i, TK_SPACE) }"

definition tok_minus :: "bytes \<Rightarrow> token option" where
  "tok_minus z = do {
     c \<leftarrow> at z 1;
     if c = 0x2d then do { i \<leftarrow> skip (\<lambda>c. c \<noteq> 0 \<and> c \<noteq> 0x0a) (drop 2 z) 2; Some (i, TK_SPACE) }
     else Some (1, TK_MINUS) }"

text \<open>The loop over a comment, from \<open>z[i]\<close> with the character before it; the last character is 0 at the end of the text.\<close>

fun comment_loop :: "8 word \<Rightarrow> bytes \<Rightarrow> nat \<Rightarrow> (8 word \<times> nat) option" where
  "comment_loop c [] i = None"
| "comment_loop c (x # z) i =
     (if c = 0x2a \<and> x = 0x2f then Some (c, i) else if x = 0 then Some (x, i) else comment_loop x z (Suc i))"

definition tok_slash :: "bytes \<Rightarrow> token option" where
  "tok_slash z = do {
     c1 \<leftarrow> at z 1;
     if c1 \<noteq> 0x2a then Some (1, TK_SLASH)
     else do {
       c2 \<leftarrow> at z 2;
       if c2 = 0 then Some (1, TK_SLASH)
       else do {
         (c, i) \<leftarrow> comment_loop c2 (drop 3 z) 3;
         Some (if c \<noteq> 0 then i + 1 else i, TK_SPACE) } } }"

definition tok_eq :: "bytes \<Rightarrow> token option" where
  "tok_eq z = do { c \<leftarrow> at z 1; Some (1 + (if c = 0x3d then 1 else 0), TK_EQ) }"

definition tok_lt :: "bytes \<Rightarrow> token option" where
  "tok_lt z = do {
     c \<leftarrow> at z 1;
     Some (if c = 0x3d then (2, TK_LE) else if c = 0x3e then (2, TK_NE)
           else if c = 0x3c then (2, TK_LSHIFT) else (1, TK_LT)) }"

definition tok_gt :: "bytes \<Rightarrow> token option" where
  "tok_gt z = do {
     c \<leftarrow> at z 1;
     Some (if c = 0x3d then (2, TK_GE) else if c = 0x3e then (2, TK_RSHIFT) else (1, TK_GT)) }"

definition tok_bang :: "bytes \<Rightarrow> token option" where
  "tok_bang z = do { c \<leftarrow> at z 1; Some (if c \<noteq> 0x3d then (1, TK_ILLEGAL) else (2, TK_NE)) }"

definition tok_pipe :: "bytes \<Rightarrow> token option" where
  "tok_pipe z = do { c \<leftarrow> at z 1; Some (if c \<noteq> 0x7c then (1, TK_BITOR) else (2, TK_CONCAT)) }"

text \<open>The loop to the closing quote, where a doubled quote stands for itself.\<close>

fun quote_loop :: "8 word \<Rightarrow> bytes \<Rightarrow> nat \<Rightarrow> (8 word \<times> nat) option" where
  "quote_loop delim [] i = None"
| "quote_loop delim [c] i = (if c = 0 then Some (c, i) else None)"
| "quote_loop delim (c # d # z) i =
     (if c = 0 then Some (c, i)
      else if c = delim then if d = delim then quote_loop delim z (i + 2) else Some (c, i)
      else quote_loop delim (d # z) (i + 1))"

definition tok_quote :: "bytes \<Rightarrow> token option" where
  "tok_quote z = do {
     delim \<leftarrow> at z 0;
     (c, i) \<leftarrow> quote_loop delim (drop 1 z) 1;
     Some (if c = 0x27 then (i + 1, TK_STRING) else if c \<noteq> 0 then (i + 1, TK_ID) else (i, TK_ILLEGAL)) }"

definition is_hex :: "bytes \<Rightarrow> bool option" where
  "is_hex z = do {
     c0 \<leftarrow> at z 0;
     if c0 \<noteq> 0x30 then Some False
     else do {
       c1 \<leftarrow> at z 1;
       if c1 \<noteq> 0x78 \<and> c1 \<noteq> 0x58 then Some False else map_option sqlite3Isxdigit (at z 2) } }"

definition fraction :: "bytes \<Rightarrow> nat \<Rightarrow> token option" where
  "fraction z i = do {
     c \<leftarrow> at z i;
     if c = 0x2e then do { i \<leftarrow> skip sqlite3Isdigit (drop (i + 1) z) (i + 1); Some (i, TK_FLOAT) }
     else Some (i, TK_INTEGER) }"

definition exponent :: "bytes \<Rightarrow> nat \<Rightarrow> nat \<Rightarrow> token option" where
  "exponent z i t = do {
     c \<leftarrow> at z i;
     if c \<noteq> 0x65 \<and> c \<noteq> 0x45 then Some (i, t)
     else do {
       d \<leftarrow> at z (i + 1);
       b \<leftarrow> (if sqlite3Isdigit d then Some True
             else if d = 0x2b \<or> d = 0x2d then map_option sqlite3Isdigit (at z (i + 2)) else Some False);
       if b then do { i \<leftarrow> skip sqlite3Isdigit (drop (i + 2) z) (i + 2); Some (i, TK_FLOAT) } else Some (i, t) } }"

definition tok_digit :: "bytes \<Rightarrow> token option" where
  "tok_digit z = do {
     hex \<leftarrow> is_hex z;
     if hex then do { i \<leftarrow> skip sqlite3Isxdigit (drop 3 z) 3; Some (i, TK_INTEGER) }
     else do {
       i \<leftarrow> skip sqlite3Isdigit z 0;
       (i, t) \<leftarrow> fraction z i;
       (i, t) \<leftarrow> exponent z i t;
       j \<leftarrow> skip IdChar (drop i z) i;
       Some (j, if j = i then t else TK_ILLEGAL) } }"

definition tok_dot :: "bytes \<Rightarrow> token option" where
  "tok_dot z = do { c \<leftarrow> at z 1; if \<not> sqlite3Isdigit c then Some (1, TK_DOT) else tok_digit z }"

text \<open>The loop \<open>for(i=1, c=z[0]; c!=']' && (c=z[i])!=0; i++)\<close>.\<close>

fun bracket_loop :: "8 word \<Rightarrow> bytes \<Rightarrow> nat \<Rightarrow> (8 word \<times> nat) option" where
  "bracket_loop c [] i = (if c = 0x5d then Some (c, i) else None)"
| "bracket_loop c (x # z) i =
     (if c = 0x5d then Some (c, i) else if x = 0 then Some (x, i) else bracket_loop x z (i + 1))"

definition tok_quote2 :: "bytes \<Rightarrow> token option" where
  "tok_quote2 z = do {
     c \<leftarrow> at z 0;
     (c, i) \<leftarrow> bracket_loop c (drop 1 z) 1;
     Some (i, if c = 0x5d then TK_ID else TK_ILLEGAL) }"

definition tok_varnum :: "bytes \<Rightarrow> token option" where
  "tok_varnum z = do { i \<leftarrow> skip sqlite3Isdigit (drop 1 z) 1; Some (i, TK_VARIABLE) }"

text \<open>The length of a variable, the number of its identifier characters, and whether its parentheses are closed.\<close>

fun var_loop :: "bytes \<Rightarrow> nat \<Rightarrow> nat \<Rightarrow> (nat \<times> nat \<times> bool) option" where
  "var_loop [] i n = None"
| "var_loop (c # z) i n =
     (if c = 0 then Some (i, n, True)
      else if IdChar c then var_loop z (i + 1) (n + 1)
      else if c = 0x28 \<and> n > 0 then do {
        j \<leftarrow> skip (\<lambda>c. c \<noteq> 0 \<and> \<not> sqlite3Isspace c \<and> c \<noteq> 0x29) z 0;
        Some (if z ! j = 0x29 then (i + 1 + j + 1, n, True) else (i + 1 + j, n, False)) }
      else if c = 0x3a then
        (case z of [] \<Rightarrow> None | d # z' \<Rightarrow> if d = 0x3a then var_loop z' (i + 2) n else Some (i, n, True))
      else Some (i, n, True))"

definition tok_var :: "bytes \<Rightarrow> token option" where
  "tok_var z = do {
     (i, n, ok) \<leftarrow> var_loop (drop 1 z) 1 0;
     Some (i, if \<not> ok \<or> n = 0 then TK_ILLEGAL else TK_VARIABLE) }"

text \<open>The end of the function, for identifiers of which \<open>i\<close> bytes are known.\<close>

definition tok_id :: "bytes \<Rightarrow> nat \<Rightarrow> token option" where
  "tok_id z i = do { i \<leftarrow> skip IdChar (drop i z) i; Some (i, TK_ID) }"

definition tok_kywd :: "bytes \<Rightarrow> token option" where
  "tok_kywd z = do {
     i \<leftarrow> skip (\<lambda>c. char_class c \<le> CC_KYWD) (drop 1 z) 1;
     c \<leftarrow> at z i;
     if IdChar c then tok_id z (i + 1) else keywordCode z i TK_ID }"

definition tok_x :: "bytes \<Rightarrow> token option" where
  "tok_x z = do {
     c1 \<leftarrow> at z 1;
     if c1 = 0x27 then do {
       i \<leftarrow> skip sqlite3Isxdigit (drop 2 z) 2;
       c \<leftarrow> at z i;
       (i, t) \<leftarrow>
         (if c \<noteq> 0x27 \<or> odd i then do { i \<leftarrow> skip (\<lambda>c. c \<noteq> 0 \<and> c \<noteq> 0x27) (drop i z) i; Some (i, TK_ILLEGAL) }
          else Some (i, TK_BLOB));
       c \<leftarrow> at z i;
       Some (if c \<noteq> 0 then i + 1 else i, t) }
     else tok_id z 1 }"

definition sqlite3GetToken :: "bytes \<Rightarrow> token option" where
  "sqlite3GetToken z = do {
     c \<leftarrow> at z 0;
     let k = char_class c;
     if k = CC_SPACE then tok_space z
     else if k = CC_MINUS then tok_minus z
     else if k = CC_LP then Some (1, TK_LP)
     else if k = CC_RP then Some (1, TK_RP)
     else if k = CC_SEMI then Some (1, TK_SEMI)
     else if k = CC_PLUS then Some (1, TK_PLUS)
     else if k = CC_STAR then Some (1, TK_STAR)
     else if k = CC_SLASH then tok_slash z
     else if k = CC_PERCENT then Some (1, TK_REM)
     else if k = CC_EQ then tok_eq z
     else if k = CC_LT then tok_lt z
     else if k = CC_GT then tok_gt z
     else if k = CC_BANG then tok_bang z
     else if k = CC_PIPE then tok_pipe z
     else if k = CC_COMMA then Some (1, TK_COMMA)
     else if k = CC_AND then Some (1, TK_BITAND)
     else if k = CC_TILDA then Some (1, TK_BITNOT)
     else if k = CC_QUOTE then tok_quote z
     else if k = CC_DOT then tok_dot z
     else if k = CC_DIGIT then tok_digit z
     else if k = CC_QUOTE2 then tok_quote2 z
     else if k = CC_VARNUM then tok_varnum z
     else if k = CC_DOLLAR \<or> k = CC_VARALPHA then tok_var z
     else if k = CC_KYWD then tok_kywd z
     else if k = CC_X then tok_x z
     else if k = CC_ID then tok_id z 1
     else if k = CC_NUL then Some (0, TK_ILLEGAL)
     else Some (1, TK_ILLEGAL) }"

section \<open>Progress\<close>

lemma skip_ge: "skip P z i = Some j \<Longrightarrow> i \<le> j"
  by (induction P z i rule: skip.induct) (auto split: if_splits)

lemma comment_loop_ge: "comment_loop c z i = Some (d, j) \<Longrightarrow> i \<le> j"
  by (induction c z i rule: comment_loop.induct) (auto split: if_splits)

lemma quote_loop_ge: "quote_loop delim z i = Some (c, j) \<Longrightarrow> i \<le> j"
  by (induction delim z i rule: quote_loop.induct) (auto split: if_splits)

lemma bracket_loop_ge: "bracket_loop c z i = Some (d, j) \<Longrightarrow> i \<le> j"
  by (induction c z i rule: bracket_loop.induct) (auto split: if_splits)

lemma var_loop_ge: "var_loop z i n = Some (j, m, ok) \<Longrightarrow> i \<le> j"
  by (induction z i n rule: var_loop.induct) (auto simp: bind_eq_Some_conv split: if_splits list.splits)

lemmas loops_ge = skip_ge comment_loop_ge quote_loop_ge bracket_loop_ge var_loop_ge

text \<open>Only the end of the text gives a token without bytes.\<close>

lemmas simple_tokens = tok_space_def tok_minus_def tok_slash_def tok_eq_def tok_lt_def tok_gt_def tok_bang_def
  tok_pipe_def tok_quote_def tok_quote2_def tok_varnum_def tok_var_def tok_id_def tok_x_def

lemma simple_tokens_pos:
  "tok_space z = Some (n, t) \<Longrightarrow> 0 < n" "tok_minus z = Some (n, t) \<Longrightarrow> 0 < n" "tok_slash z = Some (n, t) \<Longrightarrow> 0 < n"
  "tok_eq z = Some (n, t) \<Longrightarrow> 0 < n" "tok_lt z = Some (n, t) \<Longrightarrow> 0 < n" "tok_gt z = Some (n, t) \<Longrightarrow> 0 < n"
  "tok_bang z = Some (n, t) \<Longrightarrow> 0 < n" "tok_pipe z = Some (n, t) \<Longrightarrow> 0 < n" "tok_quote z = Some (n, t) \<Longrightarrow> 0 < n"
  "tok_quote2 z = Some (n, t) \<Longrightarrow> 0 < n" "tok_varnum z = Some (n, t) \<Longrightarrow> 0 < n" "tok_var z = Some (n, t) \<Longrightarrow> 0 < n"
  "tok_id z i = Some (n, t) \<Longrightarrow> 0 < i \<Longrightarrow> 0 < n" "tok_x z = Some (n, t) \<Longrightarrow> 0 < n"
  by (fastforce simp: simple_tokens bind_eq_Some_conv dest!: loops_ge split: if_splits)+

lemma table_lengths [simp]: "length aiClass = 256" "length sqlite3CtypeMap = 256"
  by (simp_all add: aiClass_def sqlite3CtypeMap_def)

lemma byte_range: "unat (c :: 8 word) < 256"
  using unsigned_less [of c, where ?'a = nat] by simp

lemma class_digit: "char_class c = CC_DIGIT \<Longrightarrow> sqlite3Isdigit c"
proof -
  have "list_all2 (\<lambda>k m. k = 3 \<longrightarrow> m AND 0x04 \<noteq> 0) aiClass sqlite3CtypeMap" by code_simp
  then show "char_class c = CC_DIGIT \<Longrightarrow> ?thesis"
    using byte_range [of c] by (simp add: list_all2_conv_all_nth char_class_def sqlite3Isdigit_def CC_DIGIT_def)
qed

lemma class_dot: "char_class c = CC_DOT \<Longrightarrow> c = 0x2e"
proof -
  have "list_all2 (\<lambda>i k. k = 26 \<longrightarrow> i = 46) [0..<256] aiClass" by code_simp
  then show "char_class c = CC_DOT \<Longrightarrow> ?thesis"
    using byte_range [of c]
    by (auto simp: list_all2_conv_all_nth char_class_def CC_DOT_def word_unat_eq_iff simp del: upt_rec_numeral)
qed

lemma number_pos:
  assumes "tok_digit z = Some (n, t)" and "at z 0 = Some c" and "sqlite3Isdigit c \<or> c = 0x2e"
  shows "0 < n"
proof -
  obtain cs where z: "z = c # cs" using assms(2) by (cases z) (auto simp: at_def)
  obtain hex where hex: "is_hex z = Some hex" using assms(1) by (auto simp: tok_digit_def bind_eq_Some_conv)
  show ?thesis
  proof (cases hex)
    case True
    then show ?thesis using assms(1) hex by (auto simp: tok_digit_def bind_eq_Some_conv dest!: skip_ge)
  next
    case False
    then obtain i j k t1 t2 where i: "skip sqlite3Isdigit z 0 = Some i" "fraction z i = Some (j, t1)"
      "exponent z j t1 = Some (k, t2)" "k \<le> n"
      using assms(1) hex by (auto simp: tok_digit_def bind_eq_Some_conv dest: skip_ge)
    have "j \<le> k" using i(3) by (auto simp: exponent_def bind_eq_Some_conv dest!: skip_ge split: if_splits)
    moreover have "0 < j"
      using i(1,2) assms(3) by (cases "sqlite3Isdigit c") (auto simp: z fraction_def at_def bind_eq_Some_conv dest!: skip_ge split: if_splits)
    ultimately show ?thesis using i(4) by simp
  qed
qed

lemma keywordCode_length: "keywordCode z n t0 = Some (m, t) \<Longrightarrow> m = n"
  by (auto simp: keywordCode_def bind_eq_Some_conv split: if_splits)

lemma get_token_pos:
  assumes "sqlite3GetToken z = Some (n, t)" and "at z 0 = Some c" and "char_class c \<noteq> CC_NUL"
  shows "0 < n"
proof -
  have "tok_dot z = Some (n, t) \<Longrightarrow> char_class c = CC_DOT \<Longrightarrow> 0 < n"
    using assms(2) number_pos [of z n t c] class_dot [of c] by (auto simp: tok_dot_def bind_eq_Some_conv split: if_splits)
  moreover have "tok_digit z = Some (n, t) \<Longrightarrow> char_class c = CC_DIGIT \<Longrightarrow> 0 < n"
    using assms(2) number_pos [of z n t c] class_digit [of c] by blast
  moreover have "tok_kywd z = Some (n, t) \<Longrightarrow> 0 < n"
    by (auto simp: tok_kywd_def bind_eq_Some_conv dest!: skip_ge keywordCode_length split: if_splits intro: simple_tokens_pos)
  moreover have "tok_id z 1 = Some (n, t) \<Longrightarrow> 0 < n" by (rule simple_tokens_pos) auto
  ultimately show ?thesis
    using assms simple_tokens_pos(1-12,14) [of z n t]
    by (simp add: sqlite3GetToken_def Let_def split: if_splits)
qed

lemma class_nul: "char_class c = CC_NUL \<longleftrightarrow> c = 0"
proof -
  have "list_all2 (\<lambda>i k. (k = 28) = (i = 0)) [0..<256] aiClass" by code_simp
  then show ?thesis
    using byte_range [of c]
    by (auto simp: list_all2_conv_all_nth char_class_def CC_NUL_def word_unat_eq_iff simp del: upt_rec_numeral)
qed

text \<open>A token that is not the end of the text shortens it.\<close>

lemma token_shortens:
  assumes "sqlite3GetToken z = Some (n, t)" and "t \<noteq> TK_ILLEGAL \<or> at z 0 \<noteq> Some 0"
  shows "length (drop n z) < length z"
proof -
  obtain c where c: "at z 0 = Some c" using assms(1) by (auto simp: sqlite3GetToken_def bind_eq_Some_conv)
  then have "z \<noteq> []" by (auto simp: at_def)
  moreover have "0 < n"
  proof (cases "c = 0")
    case True
    then have "char_class c = CC_NUL" by (simp add: class_nul)
    then have "t = TK_ILLEGAL" using assms(1) c by (simp add: sqlite3GetToken_def class_codes)
    then show ?thesis using assms(2) c True by simp
  next
    case False
    then show ?thesis using get_token_pos [OF assms(1) c] by (simp add: class_nul)
  qed
  ultimately show ?thesis by simp
qed

section \<open>Keywords that may be identifiers\<close>

definition yyFallback :: "nat list" where
  "yyFallback =
    [0, 0, 59, 59, 59, 59, 0, 59, 59, 59, 0, 59, 59, 59, 59, 0, 0, 0, 59, 0, 0, 59, 0, 0,
     0, 59, 0, 59, 59, 59, 59, 59, 59, 59, 59, 59, 59, 59, 59, 59, 59, 59, 59, 0, 0, 0, 59, 59,
     0, 0, 0, 0, 0, 0, 0, 0, 0, 0, 0, 0, 59, 59, 59, 59, 59, 59, 59, 59, 59, 59, 59, 59,
     59, 59, 59, 59, 59, 59, 59, 59, 59, 59, 59, 59, 59, 59, 59, 59, 59, 59, 59, 59, 59, 59, 59, 59,
     59, 59, 0, 0, 0, 0, 0, 0, 0, 0, 0, 0, 0, 0, 0, 0, 0, 0, 0, 0, 0, 0, 0, 0,
     0, 0, 0, 0, 0, 0, 0, 0, 0, 0, 0, 0, 0, 0, 0, 0, 0, 0, 0, 0, 0, 0, 0, 0,
     0, 0, 0, 0, 0, 0, 0, 0, 0, 0, 0, 0, 0, 0, 0, 0, 0, 0, 0, 0, 0, 0, 0, 0,
     0, 0, 0, 0, 0, 0, 0, 0, 0, 0, 0]"

definition sqlite3ParserFallback :: "nat \<Rightarrow> nat option" where
  "sqlite3ParserFallback iToken = (if iToken < length yyFallback then Some (yyFallback ! iToken) else None)"

text \<open>The type of the next token that is not a space, and the text behind it.\<close>

function getToken :: "bytes \<Rightarrow> (nat \<times> bytes) option" where
  "getToken z = do {
     (n, t) \<leftarrow> sqlite3GetToken z;
     if t = TK_SPACE then getToken (drop n z)
     else do {
       t \<leftarrow> (if t = TK_ID \<or> t = TK_STRING \<or> t = TK_JOIN_KW \<or> t = TK_WINDOW \<or> t = TK_OVER then Some TK_ID
             else do { f \<leftarrow> sqlite3ParserFallback t; Some (if f = TK_ID then TK_ID else t) });
       Some (t, drop n z) } }"
  by pat_completeness auto
termination
  by (relation "measure length") (auto simp: token_codes dest: token_shortens)

declare getToken.simps [simp del]

definition analyzeWindowKeyword :: "bytes \<Rightarrow> nat option" where
  "analyzeWindowKeyword z = do {
     (t, z) \<leftarrow> getToken z;
     if t \<noteq> TK_ID then Some TK_ID
     else do { (t, z) \<leftarrow> getToken z; Some (if t \<noteq> TK_AS then TK_ID else TK_WINDOW) } }"

definition analyzeOverKeyword :: "bytes \<Rightarrow> int \<Rightarrow> nat option" where
  "analyzeOverKeyword z lastToken =
     (if lastToken = int TK_RP then do {
        (t, z) \<leftarrow> getToken z; Some (if t = TK_LP \<or> t = TK_ID then TK_OVER else TK_ID) }
      else Some TK_ID)"

definition analyzeFilterKeyword :: "bytes \<Rightarrow> int \<Rightarrow> nat option" where
  "analyzeFilterKeyword z lastToken =
     (if lastToken = int TK_RP then do { (t, z) \<leftarrow> getToken z; Some (if t = TK_LP then TK_FILTER else TK_ID) }
      else Some TK_ID)"

section \<open>The loop of sqlite3RunParser\<close>

text \<open>
  What an iteration does with a token: leave the loop with a result code, pass over it, or give the parser a token
  of a type and a length.
\<close>

datatype loop_action = Stop int | Pass | Feed nat nat

definition loop_step :: "bool \<Rightarrow> bytes \<Rightarrow> nat \<Rightarrow> nat \<Rightarrow> int \<Rightarrow> loop_action option" where
  "loop_step isInterrupted zSql n tokenType lastTokenParsed =
     (if tokenType \<ge> TK_WINDOW then
        if \<not> (tokenType = TK_SPACE \<or> tokenType = TK_OVER \<or> tokenType = TK_FILTER \<or> tokenType = TK_ILLEGAL \<or>
             tokenType = TK_WINDOW) then None
        else if isInterrupted then Some (Stop SQLITE_INTERRUPT)
        else if tokenType = TK_SPACE then Some Pass
        else do {
          c \<leftarrow> at zSql 0;
          if c = 0 then
            Some (if lastTokenParsed = int TK_SEMI then Feed 0 0
                  else if lastTokenParsed = 0 then Stop SQLITE_OK
                  else Feed TK_SEMI 0)
          else if tokenType = TK_WINDOW then
            if n \<noteq> 6 then None else map_option (\<lambda>t. Feed t n) (analyzeWindowKeyword (drop 6 zSql))
          else if tokenType = TK_OVER then
            if n \<noteq> 4 then None else map_option (\<lambda>t. Feed t n) (analyzeOverKeyword (drop 4 zSql) lastTokenParsed)
          else if tokenType = TK_FILTER then
            if n \<noteq> 6 then None else map_option (\<lambda>t. Feed t n) (analyzeFilterKeyword (drop 6 zSql) lastTokenParsed)
          else Some (Stop SQLITE_ERROR) }
      else Some (Feed tokenType n))"

text \<open>Every iteration shortens the text or, at its end, comes closer to the token 0.\<close>

definition stage :: "int \<Rightarrow> nat" where
  "stage lastToken = (if lastToken = 0 then 0 else if lastToken = int TK_SEMI then 1 else 2)"

lemma loop_step_cases:
  assumes "loop_step b zSql n t lst = Some r"
  shows "(\<exists>rc. r = Stop rc) \<or> r = Pass \<and> t = TK_SPACE \<or> (\<exists>t'. r = Feed t' n \<and> t \<noteq> TK_ILLEGAL) \<or>
    (\<exists>t'. r = Feed t' 0 \<and> at zSql 0 = Some 0 \<and> stage (int t') < stage lst)"
  using assms
  by (auto simp: loop_step_def bind_eq_Some_conv token_codes stage_def split: if_splits)

text \<open>
  \<open>parse\<close> stands for \<open>sqlite3Parser\<close>: it gets a type and a token, as text and length, and sets the result code of
  the statement. \<open>interrupts k\<close> is the flag as iteration \<open>k\<close> reads it.
\<close>

function parser_loop ::
  "('s \<Rightarrow> nat \<Rightarrow> bytes \<Rightarrow> nat \<Rightarrow> int \<times> 's) \<Rightarrow> (nat \<Rightarrow> bool) \<Rightarrow> nat \<Rightarrow> bytes \<Rightarrow> int \<Rightarrow> int \<Rightarrow> 's \<Rightarrow>
   (int \<times> bytes \<times> 's) option" where
  "parser_loop parse interrupts k zSql mxSqlLen lastTokenParsed s = do {
     (n, tokenType) \<leftarrow> sqlite3GetToken zSql;
     let mxSqlLen = mxSqlLen - int n;
     if mxSqlLen < 0 then Some (SQLITE_TOOBIG, zSql, s)
     else do {
       r \<leftarrow> loop_step (interrupts k) zSql n tokenType lastTokenParsed;
       (case r of
          Stop rc \<Rightarrow> Some (rc, zSql, s)
        | Pass \<Rightarrow> parser_loop parse interrupts (Suc k) (drop n zSql) mxSqlLen lastTokenParsed s
        | Feed t n \<Rightarrow>
            (case parse s t zSql n of (rc, s) \<Rightarrow>
               if rc \<noteq> SQLITE_OK then Some (rc, drop n zSql, s)
               else parser_loop parse interrupts (Suc k) (drop n zSql) mxSqlLen (int t) s)) } }"
  by pat_completeness auto
termination
proof (relation "measures [\<lambda>(parse, interrupts, k, zSql, mx, lst, s). length zSql,
    \<lambda>(parse, interrupts, k, zSql, mx, lst, s). stage lst]", goal_cases)
  case (2 parse interrupts k zSql mx lst s tok n t mx' r)
  then have "length (drop n zSql) < length zSql"
    using loop_step_cases [of "interrupts k" zSql n t lst Pass] token_shortens [of zSql n t] by (auto simp: token_codes)
  then show ?case by simp
next
  case (3 parse interrupts k zSql mx lst s tok n t mx' r t' n' rc s')
  then show ?case
    using loop_step_cases [of "interrupts k" zSql n t lst "Feed t' n'"] token_shortens [of zSql n t] by auto
qed simp

declare parser_loop.simps [simp del]

end

