(* ===== verification/Sqlite_Keywords_Spec.thy ===== *)
theory Sqlite_Keywords_Spec
  imports Sqlite_Keywords
begin

text \<open>
  The hash table recognises the keywords of a plain list, in any mixture of cases, and nothing else but words with
  the delete character in the place of an underscore.
\<close>

section \<open>The keywords\<close>

definition sql_keywords :: "(string \<times> nat) list" where
  "sql_keywords =
    [(''REINDEX'', TK_REINDEX), (''INDEXED'', TK_INDEXED), (''INDEX'', TK_INDEX), (''DESC'', TK_DESC),
     (''ESCAPE'', TK_ESCAPE), (''EACH'', TK_EACH), (''CHECK'', TK_CHECK), (''KEY'', TK_KEY),
     (''BEFORE'', TK_BEFORE), (''FOREIGN'', TK_FOREIGN), (''FOR'', TK_FOR), (''IGNORE'', TK_IGNORE),
     (''REGEXP'', TK_LIKE_KW), (''EXPLAIN'', TK_EXPLAIN), (''INSTEAD'', TK_INSTEAD), (''ADD'', TK_ADD),
     (''DATABASE'', TK_DATABASE), (''AS'', TK_AS), (''SELECT'', TK_SELECT), (''TABLE'', TK_TABLE),
     (''LEFT'', TK_JOIN_KW), (''THEN'', TK_THEN), (''END'', TK_END), (''DEFERRABLE'', TK_DEFERRABLE),
     (''ELSE'', TK_ELSE), (''EXCLUDE'', TK_EXCLUDE), (''DELETE'', TK_DELETE), (''TEMPORARY'', TK_TEMP),
     (''TEMP'', TK_TEMP), (''OR'', TK_OR), (''ISNULL'', TK_ISNULL), (''NULLS'', TK_NULLS),
     (''SAVEPOINT'', TK_SAVEPOINT), (''INTERSECT'', TK_INTERSECT), (''TIES'', TK_TIES), (''NOTNULL'', TK_NOTNULL),
     (''NOT'', TK_NOT), (''NO'', TK_NO), (''NULL'', TK_NULL), (''LIKE'', TK_LIKE_KW),
     (''EXCEPT'', TK_EXCEPT), (''TRANSACTION'', TK_TRANSACTION), (''ACTION'', TK_ACTION), (''ON'', TK_ON),
     (''NATURAL'', TK_JOIN_KW), (''ALTER'', TK_ALTER), (''RAISE'', TK_RAISE), (''EXCLUSIVE'', TK_EXCLUSIVE),
     (''EXISTS'', TK_EXISTS), (''CONSTRAINT'', TK_CONSTRAINT), (''INTO'', TK_INTO), (''OFFSET'', TK_OFFSET),
     (''OF'', TK_OF), (''SET'', TK_SET), (''TRIGGER'', TK_TRIGGER), (''REFERENCES'', TK_REFERENCES),
     (''UNIQUE'', TK_UNIQUE), (''QUERY'', TK_QUERY), (''WITHOUT'', TK_WITHOUT), (''WITH'', TK_WITH),
     (''OUTER'', TK_JOIN_KW), (''RELEASE'', TK_RELEASE), (''ATTACH'', TK_ATTACH), (''HAVING'', TK_HAVING),
     (''GLOB'', TK_LIKE_KW), (''BEGIN'', TK_BEGIN), (''INNER'', TK_JOIN_KW), (''RANGE'', TK_RANGE),
     (''BETWEEN'', TK_BETWEEN), (''NOTHING'', TK_NOTHING), (''GROUPS'', TK_GROUPS), (''GROUP'', TK_GROUP),
     (''CASCADE'', TK_CASCADE), (''ASC'', TK_ASC), (''DETACH'', TK_DETACH), (''CASE'', TK_CASE),
     (''COLLATE'', TK_COLLATE), (''CREATE'', TK_CREATE), (''CURRENT_DATE'', TK_CTIME_KW), (''IMMEDIATE'', TK_IMMEDIATE),
     (''JOIN'', TK_JOIN), (''INSERT'', TK_INSERT), (''MATCH'', TK_MATCH), (''PLAN'', TK_PLAN),
     (''ANALYZE'', TK_ANALYZE), (''PRAGMA'', TK_PRAGMA), (''ABORT'', TK_ABORT), (''UPDATE'', TK_UPDATE),
     (''VALUES'', TK_VALUES), (''VIRTUAL'', TK_VIRTUAL), (''LAST'', TK_LAST), (''WHEN'', TK_WHEN),
     (''WHERE'', TK_WHERE), (''RECURSIVE'', TK_RECURSIVE), (''AFTER'', TK_AFTER), (''RENAME'', TK_RENAME),
     (''AND'', TK_AND), (''DEFAULT'', TK_DEFAULT), (''AUTOINCREMENT'', TK_AUTOINCR), (''TO'', TK_TO),
     (''IN'', TK_IN), (''CAST'', TK_CAST), (''COLUMN'', TK_COLUMNKW), (''COMMIT'', TK_COMMIT),
     (''CONFLICT'', TK_CONFLICT), (''CROSS'', TK_JOIN_KW), (''CURRENT_TIMESTAMP'', TK_CTIME_KW), (''CURRENT_TIME'', TK_CTIME_KW),
     (''CURRENT'', TK_CURRENT), (''PARTITION'', TK_PARTITION), (''DEFERRED'', TK_DEFERRED), (''DISTINCT'', TK_DISTINCT),
     (''IS'', TK_IS), (''DROP'', TK_DROP), (''PRECEDING'', TK_PRECEDING), (''FAIL'', TK_FAIL),
     (''LIMIT'', TK_LIMIT), (''FILTER'', TK_FILTER), (''REPLACE'', TK_REPLACE), (''FIRST'', TK_FIRST),
     (''FOLLOWING'', TK_FOLLOWING), (''FROM'', TK_FROM), (''FULL'', TK_JOIN_KW), (''IF'', TK_IF),
     (''ORDER'', TK_ORDER), (''RESTRICT'', TK_RESTRICT), (''OTHERS'', TK_OTHERS), (''OVER'', TK_OVER),
     (''RIGHT'', TK_JOIN_KW), (''ROLLBACK'', TK_ROLLBACK), (''ROWS'', TK_ROWS), (''ROW'', TK_ROW),
     (''UNBOUNDED'', TK_UNBOUNDED), (''UNION'', TK_UNION), (''USING'', TK_USING), (''VACUUM'', TK_VACUUM),
     (''VIEW'', TK_VIEW), (''WINDOW'', TK_WINDOW), (''DO'', TK_DO), (''BY'', TK_BY),
     (''INITIALLY'', TK_INITIALLY), (''ALL'', TK_ALL), (''PRIMARY'', TK_PRIMARY)]"

definition keyword :: "nat \<Rightarrow> string" where
  "keyword i = take (aKWLen ! i) (drop (aKWOffset ! i) zKWText)"

text \<open>Cutting the words out of the text from left to right.\<close>

fun slices :: "nat \<Rightarrow> 'a list \<Rightarrow> (nat \<times> nat) list \<Rightarrow> 'a list list" where
  "slices p t [] = []"
| "slices p t ((off, l) # r) = (let t' = drop (off - p) t in take l t' # slices off t' r)"

lemma slices_map:
  "sorted_wrt (\<lambda>x y. fst x \<le> fst y) r \<Longrightarrow> \<forall>x \<in> set r. p \<le> fst x \<Longrightarrow>
   slices p (drop p t) r = map (\<lambda>(off, l). take l (drop off t)) r"
  by (induction r arbitrary: p) (auto simp: Let_def)

lemma keyword_list: "map keyword [0..<143] = map fst sql_keywords"
proof -
  have "slices 0 zKWText (zip aKWOffset aKWLen) = map fst sql_keywords" by code_simp
  moreover have "sorted aKWOffset"
    unfolding successively_conv_sorted_wrt [OF transp_on_le, symmetric] by code_simp
  then have "sorted_wrt (\<lambda>x y. fst x \<le> fst y) (zip aKWOffset aKWLen)"
    by (auto simp: sorted_wrt_iff_nth_less)
  ultimately have "map (\<lambda>(off, l). take l (drop off zKWText)) (zip aKWOffset aKWLen) = map fst sql_keywords"
    using slices_map [of "zip aKWOffset aKWLen" 0 zKWText] by simp
  moreover have "map keyword [0..<143] = map (\<lambda>(off, l). take l (drop off zKWText)) (zip aKWOffset aKWLen)"
    by (rule nth_equalityI) (auto simp: keyword_def simp del: upt_rec_numeral)
  ultimately show ?thesis by simp
qed

lemma keyword_codes: "aKWCode = map snd sql_keywords"
  by (simp add: aKWCode_def sql_keywords_def)

lemma sql_keywords_length [simp]: "length sql_keywords = 143"
  using arg_cong [OF keyword_codes, of length] by simp

lemma keyword_nth: "i < 143 \<Longrightarrow> keyword i = fst (sql_keywords ! i)"
proof -
  assume i: "i < 143"
  have "keyword i = map keyword [0..<143] ! i" using i by (simp del: upt_rec_numeral)
  also have "\<dots> = map fst sql_keywords ! i" unfolding keyword_list ..
  also have "\<dots> = fst (sql_keywords ! i)" using i by simp
  finally show "keyword i = fst (sql_keywords ! i)" .
qed

lemma keywords_distinct: "distinct (map fst sql_keywords)"
  by (simp add: sql_keywords_def)

lemma keyword_bounds: "i < 143 \<Longrightarrow> aKWOffset ! i + aKWLen ! i \<le> length zKWText"
proof -
  have "list_all2 (\<lambda>off l. off + l \<le> 637) aKWOffset aKWLen" by code_simp
  moreover have "length zKWText = 637" by (simp add: zKWText_def)
  ultimately show "i < 143 \<Longrightarrow> ?thesis" by (simp add: list_all2_conv_all_nth)
qed

lemma keyword_length: "i < 143 \<Longrightarrow> length (keyword i) = aKWLen ! i"
  using keyword_bounds [of i] by (simp add: keyword_def)

section \<open>Chains\<close>

function chain :: "nat \<Rightarrow> nat list" where
  "chain 0 = []"
| "chain (Suc i) = i # (if i < 143 then chain (aKWNext ! i) else [])"
  by pat_completeness auto
termination
  by (relation "measure id") (auto simp: le_imp_less_Suc chain_decreases)

text \<open>The hash of a keyword, written for capital letters, and the buckets of all keywords.\<close>

definition word_hash :: "string \<Rightarrow> nat" where
  "word_hash k = ((of_char (hd k) + 32) * 4 XOR (of_char (last k) + 32) * 3 XOR length k) mod 127"

definition kw_buckets :: "nat list" where
  "kw_buckets =
    [40, 16, 74, 62, 62, 41, 73, 69, 34, 86, 78, 14, 31, 90, 16, 44, 56, 96, 23, 123,
     105, 31, 60, 54, 64, 61, 58, 51, 5, 105, 103, 101, 26, 114, 14, 124, 104, 120, 121, 28,
     79, 18, 73, 117, 124, 88, 99, 51, 76, 91, 110, 103, 13, 20, 2, 28, 126, 43, 8, 97,
     112, 97, 59, 20, 63, 72, 120, 99, 70, 11, 68, 74, 37, 47, 47, 40, 37, 38, 48, 3,
     103, 0, 10, 15, 45, 102, 94, 126, 8, 28, 105, 19, 119, 111, 88, 98, 44, 76, 86, 32,
     109, 85, 65, 87, 89, 81, 78, 48, 88, 4, 53, 69, 1, 69, 125, 89, 106, 73, 97, 66,
     37, 92, 89, 21, 112, 29, 100, 111, 18, 2, 22, 47, 114, 28, 101, 26, 58, 64, 96, 98,
     71, 68, 45]"

lemma length_plus1: "length (x # xs) = length xs + 1"
  by simp

lemma kw_buckets_hash: "map (word_hash \<circ> fst) sql_keywords = kw_buckets"
  by (simp add: sql_keywords_def word_hash_def kw_buckets_def length_plus1 del: list.size(4) One_nat_def)

lemma kw_buckets_chain: "list_all (\<lambda>(i, b). i \<in> set (chain (aKWHash ! b))) (zip [0..<143] kw_buckets)"
  by code_simp

lemma keyword_in_chain:
  assumes "i < 143"
  shows "i \<in> set (chain (aKWHash ! word_hash (keyword i)))"
proof -
  have len: "length kw_buckets = 143" using arg_cong [OF kw_buckets_hash, of length] by simp
  have "kw_buckets ! i = map (word_hash \<circ> fst) sql_keywords ! i" unfolding kw_buckets_hash ..
  then have "kw_buckets ! i = word_hash (keyword i)" using assms by (simp add: keyword_nth)
  then show ?thesis
    using kw_buckets_chain assms len by (auto simp: list_all_length simp del: upt_rec_numeral)
qed

text \<open>The comparison of the code, which clears bit 5.\<close>

abbreviation upper :: "bytes \<Rightarrow> bytes" where
  "upper \<equiv> map (\<lambda>c. c AND NOT 0x20)"

lemma kw_match_upper: "length z \<le> length t \<Longrightarrow> kw_match z t = Some (upper z = map of_char (take (length z) t))"
  by (induction z t rule: kw_match.induct) auto

lemma kw_loop_chain:
  "k \<le> 143 \<Longrightarrow> kw_loop k z pType =
   Some (case List.find (\<lambda>i. upper z = map of_char (keyword i)) (chain k) of None \<Rightarrow> pType | Some i \<Rightarrow> aKWCode ! i)"
proof (induction k z pType rule: kw_loop.induct)
  case (2 i z pType)
  then have i: "i < 143" by simp
  then have nxt: "aKWNext ! i \<le> 143" using chain_decreases [OF i] by simp
  show ?case
  proof (cases "aKWLen ! i = length z")
    case True
    then have "kw_match z (drop (aKWOffset ! i) zKWText) = Some (upper z = map of_char (keyword i))"
      using keyword_bounds [OF i] kw_match_upper [of z "drop (aKWOffset ! i) zKWText"] by (simp add: keyword_def)
    then show ?thesis using 2 i nxt True by auto
  next
    case False
    then have "upper z \<noteq> map of_char (keyword i)" using keyword_length [OF i] by (metis length_map)
    then show ?thesis using 2 i nxt False by auto
  qed
qed simp

section \<open>Hashes\<close>

lemma UpperToLower_capital:
  fixes z w :: "8 word"
  assumes "z AND NOT 0x20 = w" and "65 \<le> w" and "w \<le> 90"
  shows "UpperToLower z = w + 32"
proof -
  have "z = (z AND NOT 0x20) + (z AND 0x20)"
    by (subst disjunctive_add_eq_or) (auto simp: bit_eq_iff bit_simps)
  moreover have "z AND 2 ^ 5 = 0 \<or> z AND 2 ^ 5 = 2 ^ 5"
    by (cases "bit z 5") (auto intro!: bit_word_eqI simp: bit_and_iff bit_exp_iff simp del: power_numeral power_Suc)
  ultimately have "z = w \<or> z = w + 32" using assms(1) by force
  then show ?thesis
    using assms(2,3) by (auto simp: UpperToLower_eq word_le_nat_alt unat_word_ariths)
qed

abbreviation capital :: "char \<Rightarrow> bool" where
  "capital c \<equiv> 65 \<le> (of_char c :: nat) \<and> of_char c \<le> (90 :: nat)"

lemma unat_of_char: "unat (of_char c :: 8 word) = of_char c"
proof -
  have "unat (of_nat (of_char c) :: 8 word) = of_char c mod 256" by (simp add: unat_of_nat)
  then show ?thesis by (simp add: of_nat_of_char)
qed

lemma of_char_inj: "map of_char s = (map of_char t :: bytes) \<longleftrightarrow> s = t"
  using unat_of_char by (intro inj_eq inj_mapI injI) (metis of_char_eq_iff)

lemma charMap_capital:
  assumes "z AND NOT 0x20 = of_char c" and "capital c"
  shows "charMap z = of_char c + 32"
proof -
  have u: "unat (of_char c :: 8 word) = of_char c" by (rule unat_of_char)
  have "UpperToLower z = of_char c + 32"
    using UpperToLower_capital [OF assms(1)] assms(2) u by (simp add: word_le_nat_alt)
  then show ?thesis using u assms(2) by (simp add: charMap_def unat_word_ariths)
qed

lemma keyword_capital:
  assumes "i < 143"
  shows "2 \<le> length (keyword i) \<and> capital (hd (keyword i)) \<and> capital (last (keyword i))"
proof -
  have "list_all (\<lambda>(k, c). 2 \<le> length k \<and> capital (hd k) \<and> capital (last k)) sql_keywords"
    by (simp add: sql_keywords_def)
  then show ?thesis using assms by (simp add: list_all_length keyword_nth case_prod_beta)
qed

lemma hash_of_keyword:
  assumes "i < 143" and "upper z = map of_char (keyword i)"
  shows "(charMap (z ! 0) * 4 XOR charMap (z ! (length z - 1)) * 3 XOR length z) mod 127 = word_hash (keyword i)"
proof -
  have len: "length z = length (keyword i)" using arg_cong [OF assms(2), of length] by simp
  have at: "z ! j AND NOT 0x20 = of_char (keyword i ! j)" if "j < length z" for j
    using arg_cong [OF assms(2), of "\<lambda>l. l ! j"] that len by simp
  have ne: "keyword i \<noteq> []" using keyword_capital [OF assms(1)] by auto
  have "charMap (z ! 0) = of_char (hd (keyword i)) + 32"
    using at [of 0] keyword_capital [OF assms(1)] ne len by (intro charMap_capital) (auto simp: hd_conv_nth)
  moreover have "charMap (z ! (length z - 1)) = of_char (last (keyword i)) + 32"
    using at [of "length z - 1"] keyword_capital [OF assms(1)] ne len by (intro charMap_capital) (auto simp: last_conv_nth)
  ultimately show ?thesis by (simp add: word_hash_def len)
qed

section \<open>Lookup in the list\<close>

definition keyword_code :: "bytes \<Rightarrow> nat" where
  "keyword_code z = (case List.find (\<lambda>(k, c). map of_char k = upper z) sql_keywords of None \<Rightarrow> TK_ID | Some (k, c) \<Rightarrow> c)"

lemma keyword_find:
  assumes "i < 143" and "upper z = map of_char (keyword i)"
  shows "keyword_code z = aKWCode ! i"
proof -
  have "List.find (\<lambda>(k, c). map of_char k = upper z) sql_keywords = Some (sql_keywords ! i)"
    unfolding find_Some_iff
  proof (intro exI [of _ i] conjI allI impI)
    fix j assume "j < i"
    then have "fst (sql_keywords ! j) \<noteq> fst (sql_keywords ! i)"
      using keywords_distinct assms(1) by (auto simp: distinct_conv_nth)
    then show "\<not> (case sql_keywords ! j of (k, c) \<Rightarrow> map of_char k = upper z)"
      using assms by (simp add: case_prod_beta of_char_inj keyword_nth)
  qed (use assms in \<open>simp_all add: case_prod_beta keyword_nth\<close>)
  then show ?thesis using assms(1) by (simp add: keyword_code_def keyword_codes case_prod_beta)
qed

lemma keyword_none:
  assumes "\<And>i. i < 143 \<Longrightarrow> upper z \<noteq> map of_char (keyword i)"
  shows "keyword_code z = TK_ID"
proof -
  have "\<not> (case x of (k, c) \<Rightarrow> map of_char k = upper z)" if "x \<in> set sql_keywords" for x
  proof -
    have "\<exists>i < 143. x = sql_keywords ! i" using that by (auto simp: in_set_conv_nth)
    then obtain i where "i < 143" "x = sql_keywords ! i" by blast
    then show ?thesis using assms [of i] by (auto simp: keyword_nth)
  qed
  then have "List.find (\<lambda>(k, c). map of_char k = upper z) sql_keywords = None" by (auto simp: find_None_iff)
  then show ?thesis by (simp add: keyword_code_def)
qed

lemma kw_loop_code:
  assumes "2 \<le> length z"
  shows "kw_loop (aKWHash ! ((charMap (z ! 0) * 4 XOR charMap (z ! (length z - 1)) * 3 XOR length z) mod 127)) z TK_ID =
    Some (keyword_code z)"
proof -
  let ?b = "(charMap (z ! 0) * 4 XOR charMap (z ! (length z - 1)) * 3 XOR length z) mod 127"
  let ?L = "chain (aKWHash ! ?b)"
  have "list_all (\<lambda>k. k \<le> 143) aKWHash" by code_simp
  then have head: "aKWHash ! ?b \<le> 143" by (simp add: list_all_length)
  have chain: "set (chain k) \<subseteq> {..<143}" if "k \<le> 143" for k
    using that
  proof (induction k rule: chain.induct)
    case (2 i)
    then show ?case using chain_decreases [of i] by auto
  qed simp
  show ?thesis
  proof (cases "List.find (\<lambda>i. upper z = map of_char (keyword i)) ?L")
    case None
    have "upper z \<noteq> map of_char (keyword i)" if "i < 143" for i
      using None keyword_in_chain [OF that] hash_of_keyword [OF that, of z] by (auto simp: find_None_iff)
    then show ?thesis using kw_loop_chain [OF head, of z TK_ID] None keyword_none [of z] by simp
  next
    case (Some i)
    then have "i \<in> set ?L" "upper z = map of_char (keyword i)" by (auto simp: find_Some_iff)
    moreover have "i < 143" using chain [OF head] \<open>i \<in> set ?L\<close> by auto
    ultimately show ?thesis using kw_loop_chain [OF head, of z TK_ID] Some keyword_find [of i z] by simp
  qed
qed

lemma keyword_lookup: "sqlite3KeywordCode (z @ rest) (length z) = Some (keyword_code z)"
proof (cases "2 \<le> length z")
  case True
  then have "(z @ rest) ! 0 = z ! 0" "(z @ rest) ! (length z - 1) = z ! (length z - 1)"
    by (auto simp: nth_append)
  then show ?thesis using True kw_loop_code [OF True] by (simp add: sqlite3KeywordCode_def keywordCode_def)
next
  case False
  have "upper z \<noteq> map of_char (keyword i)" if "i < 143" for i
    using False keyword_capital [OF that] by (metis length_map)
  then show ?thesis using False keyword_none [of z] by (simp add: sqlite3KeywordCode_def keywordCode_def)
qed

text \<open>The codes that the loop of the parser treats specially belong to one word each.\<close>

lemma keyword_code_cases:
  "keyword_code z = TK_WINDOW \<and> length z = 6 \<or> keyword_code z = TK_OVER \<and> length z = 4 \<or>
   keyword_code z = TK_FILTER \<and> length z = 6 \<or> 0 < keyword_code z \<and> keyword_code z < TK_WINDOW"
proof (cases "List.find (\<lambda>(k, c). map of_char k = upper z) sql_keywords")
  case None
  then show ?thesis by (simp add: keyword_code_def token_codes)
next
  case (Some x)
  then obtain i where i: "i < length sql_keywords" "x = sql_keywords ! i" "map of_char (fst x) = upper z"
    unfolding find_Some_iff by (auto simp: case_prod_beta simp del: sql_keywords_length)
  have "list_all (\<lambda>(k, c). c = TK_WINDOW \<and> length k = 6 \<or> c = TK_OVER \<and> length k = 4 \<or>
      c = TK_FILTER \<and> length k = 6 \<or> 0 < c \<and> c < TK_WINDOW) sql_keywords"
    by (simp add: sql_keywords_def token_codes)
  then have "case x of (k, c) \<Rightarrow> c = TK_WINDOW \<and> length k = 6 \<or> c = TK_OVER \<and> length k = 4 \<or>
      c = TK_FILTER \<and> length k = 6 \<or> 0 < c \<and> c < TK_WINDOW"
    using i(1,2) unfolding list_all_length by simp
  moreover have "length (fst x) = length z" using arg_cong [OF i(3), of length] by simp
  moreover have "keyword_code z = snd x" using Some by (simp add: keyword_code_def case_prod_beta)
  ultimately show ?thesis by (simp add: case_prod_beta)
qed

text \<open>A delete character passes for an underscore.\<close>

lemma keyword_check_delete: "sqlite3_keyword_check (map of_char ''CURRENT'' @ [0x7f] @ map of_char ''DATE'') 12 = Some True"
proof -
  let ?z = "map of_char ''CURRENT'' @ [0x7f] @ map of_char ''DATE'' :: bytes"
  have "keyword_code ?z = TK_CTIME_KW" by (simp add: keyword_code_def sql_keywords_def)
  moreover have len: "length ?z = 12" by simp
  ultimately show ?thesis
    using keyword_lookup [of ?z "[]", unfolded len append_Nil2] by (simp only: sqlite3_keyword_check_def) (simp add: token_codes)
qed

section \<open>Letters in capitals\<close>

text \<open>ASCII capitals, defined on the small letters only, and the lookup of a word in the list.\<close>

definition ascii_upper :: "byte \<Rightarrow> byte" where
  "ascii_upper c = (if 0x61 \<le> c \<and> c \<le> 0x7a then c - 0x20 else c)"

definition keyword_token :: "bytes \<Rightarrow> nat" where
  "keyword_token z =
     (case List.find (\<lambda>(k, c). map of_char k = map ascii_upper z) sql_keywords of None \<Rightarrow> TK_ID | Some (k, c) \<Rightarrow> c)"

definition delete_to_underscore :: "byte \<Rightarrow> byte" where
  "delete_to_underscore c = (if c = 0x7f then 0x5f else c)"

text \<open>On the characters of the keywords, clearing bit 5 is the ASCII mapping but for the delete character.\<close>

abbreviation kw_char :: "nat \<Rightarrow> bool" where
  "kw_char n \<equiv> 65 \<le> n \<and> n \<le> 90 \<or> n = 95"

lemma clear_bit5_table:
  "list_all (\<lambda>n. (let c = of_nat n :: byte; u = c AND NOT 0x20; a = ascii_upper (delete_to_underscore c)
      in u = a \<or> \<not> kw_char (unat u) \<and> \<not> kw_char (unat a))) [0..<256]"
  by code_simp

lemma clear_bit5:
  assumes "kw_char (of_char k)"
  shows "c AND NOT 0x20 = of_char k \<longleftrightarrow> ascii_upper (delete_to_underscore c) = of_char k"
proof -
  let ?u = "c AND NOT 0x20" and ?a = "ascii_upper (delete_to_underscore c)"
  have "unat c < 256" using unsigned_less [of c, where 'a = nat] by simp
  then have "?u = ?a \<or> \<not> kw_char (unat ?u) \<and> \<not> kw_char (unat ?a)"
    using clear_bit5_table unfolding list_all_iff Let_def by (metis atLeast_upt lessThan_iff of_nat_unat ucast_id)
  then show ?thesis using assms unat_of_char by metis
qed

lemma keyword_chars: "(k, c) \<in> set sql_keywords \<Longrightarrow> x \<in> set k \<Longrightarrow> kw_char (of_char x)"
proof -
  have "list_all (\<lambda>(k, c). list_all (\<lambda>x. kw_char (of_char x)) k) sql_keywords" by (simp add: sql_keywords_def)
  then show "(k, c) \<in> set sql_keywords \<Longrightarrow> x \<in> set k \<Longrightarrow> ?thesis" by (auto simp: list_all_iff)
qed

lemma same_word:
  assumes "\<forall>x \<in> set k. kw_char (of_char x)"
  shows "map of_char k = upper z \<longleftrightarrow> map of_char k = map ascii_upper (map delete_to_underscore z)"
  using assms
proof (induction k arbitrary: z)
  case (Cons x k)
  then show ?case using clear_bit5 [of x] by (cases z) (auto simp: eq_commute)
qed simp

lemma keyword_code_token: "keyword_code z = keyword_token (map delete_to_underscore z)"
proof -
  have "List.find (\<lambda>(k, c). map of_char k = upper z) sql_keywords =
      List.find (\<lambda>(k, c). map of_char k = map ascii_upper (map delete_to_underscore z)) sql_keywords"
  proof (rule find_cong [OF refl])
    fix x assume "x \<in> set sql_keywords"
    then show "(case x of (k, c) \<Rightarrow> map of_char k = upper z) =
        (case x of (k, c) \<Rightarrow> map of_char k = map ascii_upper (map delete_to_underscore z))"
      using same_word [of "fst x" z] keyword_chars [of "fst x" "snd x"] by (auto simp: case_prod_beta)
  qed
  then show ?thesis by (simp only: keyword_code_def keyword_token_def)
qed

text \<open>
  Property C12: the lookup by hash finds the keywords. For every identifier without the delete character (0x7f),
  whatever follows it in memory, \<open>sqlite3KeywordCode\<close> stays inside its tables and returns the code that the list of
  keywords gives for the identifier with its small ASCII letters turned into capitals, and the code of identifiers for
  any other word. A delete character is taken for an underscore. \<open>sqlite3_keyword_name\<close> enumerates the list.
\<close>
theorem keyword_lookup_exact:
  "(0x7f \<notin> set z \<longrightarrow> sqlite3KeywordCode (z @ rest) (length z) = Some (keyword_token z)) \<and>
   sqlite3KeywordCode (z @ rest) (length z) = Some (keyword_token (map delete_to_underscore z)) \<and>
   map_option (\<lambda>(t, n). take n t) (sqlite3_keyword_name i) =
     (if 0 \<le> i \<and> i < int sqlite3_keyword_count then Some (fst (sql_keywords ! nat i)) else None)"
proof -
  have "map delete_to_underscore z = z" if "0x7f \<notin> set z"
    using that by (intro map_idI) (auto simp: delete_to_underscore_def)
  then show ?thesis
    using keyword_lookup [of z rest] keyword_code_token [of z] keyword_nth [of "nat i"]
    by (auto simp: sqlite3_keyword_name_def sqlite3_keyword_count_def SQLITE_N_KEYWORD_def keyword_def)
qed

theorem keyword_lookup_exact_witness:
  "sqlite3KeywordCode (map of_char ''sElect x'') 6 = Some TK_SELECT \<and>
   sqlite3KeywordCode (map of_char ''selects '') 7 = Some TK_ID"
proof -
  let ?y = "map of_char ''sElect'' :: bytes" and ?n = "map of_char ''selects'' :: bytes"
  have t: "keyword_token ?y = TK_SELECT" "keyword_token ?n = TK_ID"
    by (simp_all add: keyword_token_def sql_keywords_def ascii_upper_def)
  have l: "length ?y = 6" "length ?n = 7" "0x7f \<notin> set ?y" "0x7f \<notin> set ?n" by simp_all
  have z: "map of_char ''sElect x'' = ?y @ map of_char '' x''" "map of_char ''selects '' = ?n @ map of_char '' ''" by simp_all
  have "sqlite3KeywordCode (?y @ map of_char '' x'') 6 = Some TK_SELECT"
    using keyword_lookup_exact [of ?y "map of_char '' x''" 0, unfolded l t] l(3) by blast
  moreover have "sqlite3KeywordCode (?n @ map of_char '' '') 7 = Some TK_ID"
    using keyword_lookup_exact [of ?n "map of_char '' ''" 0, unfolded l t] l(4) by blast
  ultimately show ?thesis unfolding z by blast
qed

end
