(* ===== verification/Sqlite_Tokenize_Spec.thy ===== *)
theory Sqlite_Tokenize_Spec
  imports Sqlite_Tokenize Sqlite_Keywords_Spec
begin

text \<open>
  The tokenizer splits every statement into tokens: on a terminated text every function returns a token inside the text,
  and what lies behind the terminator does not matter.
\<close>

section \<open>Terminated text\<close>

fun ends :: "bytes \<Rightarrow> bool" where
  "ends [] = False"
| "ends (c # z) = (if c = 0 then z = [] else ends z)"

lemma ends_iff: "ends z \<longleftrightarrow> (\<exists>text. z = text @ [0] \<and> 0 \<notin> set text)"
proof (induction z)
  case (Cons c z)
  show ?case
  proof (cases "c = 0")
    case True
    then show ?thesis by (auto simp: Cons_eq_append_conv)
  next
    case False
    then have "(\<exists>text. z = text @ [0] \<and> 0 \<notin> set text) \<longleftrightarrow> (\<exists>text. c # z = text @ [0] \<and> 0 \<notin> set text)"
      by (auto simp: Cons_eq_append_conv intro: exI [of _ "c # _"])
    then show ?thesis using Cons False by simp
  qed
qed simp

lemma ends_drop: "ends z \<Longrightarrow> i < length z \<Longrightarrow> ends (drop i z)"
proof (induction z arbitrary: i)
  case (Cons c z)
  then show ?case by (cases i) (auto split: if_splits)
qed simp

lemma ends_zero: "ends z \<Longrightarrow> i < length z \<Longrightarrow> z ! i = 0 \<longleftrightarrow> Suc i = length z"
proof (induction z arbitrary: i)
  case (Cons c z)
  then show ?case by (cases i) (auto split: if_splits)
qed simp

lemma at_ends: "i < length z \<Longrightarrow> at z i = Some (z ! i)"
  by (simp add: at_def)

lemma ends_more: "ends z \<Longrightarrow> i < length z \<Longrightarrow> z ! i \<noteq> 0 \<Longrightarrow> Suc i < length z"
  using ends_zero [of z i] by (cases "Suc i = length z") auto

lemma first_ends:
  assumes "ends z" and "1 < length z"
  shows "at z 0 = Some (z ! 0)" and "z ! 0 \<noteq> 0"
proof -
  have "0 < length z" using assms(2) by linarith
  then show "at z 0 = Some (z ! 0)" "z ! 0 \<noteq> 0" using assms ends_zero [of z 0] by (auto simp: at_ends)
qed

lemma behind_first: "1 < length z \<Longrightarrow> 1 + length (drop 1 z) = length z"
  by simp

section \<open>Loops\<close>

lemma skip_within:
  "ends z \<Longrightarrow> \<not> P 0 \<Longrightarrow> \<exists>j. skip P z i = Some j \<and> i \<le> j \<and> j < i + length z"
  by (induction P z i rule: skip.induct) (auto split: if_splits)

lemma skip_ends:
  "ends z \<Longrightarrow> \<not> P 0 \<Longrightarrow> i < length z \<Longrightarrow> \<exists>j. skip P (drop i z) i = Some j \<and> i \<le> j \<and> j < length z"
  using skip_within [OF ends_drop, of z i P i] by auto

lemma comment_ends:
  "ends z \<Longrightarrow> \<exists>d j. comment_loop c z i = Some (d, j) \<and> i \<le> j \<and> j < i + length z \<and> (d \<noteq> 0 \<longrightarrow> Suc j < i + length z)"
  by (induction c z i rule: comment_loop.induct) (auto split: if_splits)

lemma quote_ends:
  "ends z \<Longrightarrow> delim \<noteq> 0 \<Longrightarrow>
   \<exists>c j. quote_loop delim z i = Some (c, j) \<and> i \<le> j \<and> j < i + length z \<and> (c \<noteq> 0 \<longrightarrow> Suc j < i + length z)"
  by (induction delim z i rule: quote_loop.induct) (auto split: if_splits)

lemma bracket_ends:
  "ends z \<Longrightarrow> \<exists>d j. bracket_loop c z i = Some (d, j) \<and> i \<le> j \<and> j < i + length z"
  by (induction c z i rule: bracket_loop.induct) (auto split: if_splits)

lemma var_ends:
  "ends z \<Longrightarrow> \<exists>j m ok. var_loop z i n = Some (j, m, ok) \<and> i \<le> j \<and> j < i + length z"
proof (induction z i n rule: var_loop.induct)
  case (2 c z i n)
  consider "c = 0" | "c \<noteq> 0" "IdChar c" | "c \<noteq> 0" "\<not> IdChar c" "c = 0x28 \<and> n > 0"
    | "c \<noteq> 0" "\<not> IdChar c" "\<not> (c = 0x28 \<and> n > 0)" "c = 0x3a"
    | "c \<noteq> 0" "\<not> IdChar c" "\<not> (c = 0x28 \<and> n > 0)" "c \<noteq> 0x3a" by blast
  then show ?case
  proof cases
    case 2
    then show ?thesis using "2.IH"(1) "2.prems" by auto
  next
    case 3
    then have z: "ends z" using "2.prems" by auto
    let ?P = "\<lambda>c. c \<noteq> 0 \<and> \<not> sqlite3Isspace c \<and> c \<noteq> (0x29 :: 8 word)"
    obtain j where j: "skip ?P z 0 = Some j" "j < length z" using skip_within [OF z, of ?P 0] by auto
    moreover have "Suc j < length z" if "z ! j = 0x29" using ends_more [OF z j(2)] that by simp
    ultimately show ?thesis using 3 by auto
  next
    case 4
    then have z: "ends z" using "2.prems" by auto
    then obtain d z' where d: "z = d # z'" by (cases z) auto
    show ?thesis
    proof (cases "d = 0x3a")
      case True
      then have "ends z'" using z d by auto
      then show ?thesis using "2.IH"(2) [OF 4(1-4) d True] 4 d True by auto
    next
      case False
      then show ?thesis using 4 d by auto
    qed
  qed auto
qed simp

section \<open>Tokens of a terminated text\<close>

text \<open>The types that the loop of the parser expects: special words have their length.\<close>

definition token_valid :: "nat \<Rightarrow> nat \<Rightarrow> bool" where
  "token_valid n t \<longleftrightarrow> 0 < t \<and> t < TK_WINDOW \<or> t = TK_SPACE \<or> t = TK_ILLEGAL \<or>
     t = TK_WINDOW \<and> n = 6 \<or> t = TK_OVER \<and> n = 4 \<or> t = TK_FILTER \<and> n = 6"

definition good :: "bytes \<Rightarrow> token option \<Rightarrow> bool" where
  "good z r \<longleftrightarrow> (\<exists>n t. r = Some (n, t) \<and> n < length z \<and> token_valid n t)"

lemma classes_of_zero [simp]:
  "\<not> sqlite3Isspace 0" "\<not> sqlite3Isdigit 0" "\<not> sqlite3Isxdigit 0" "\<not> IdChar 0" "\<not> char_class 0 \<le> CC_KYWD"
  by (simp_all add: sqlite3Isspace_def sqlite3Isdigit_def sqlite3Isxdigit_def IdChar_def char_class_def class_codes
      sqlite3CtypeMap_def aiClass_def)

lemma plain_valid: "0 < t \<Longrightarrow> t < 159 \<or> 176 < t \<and> t < 179 \<Longrightarrow> token_valid n t"
  by (auto simp: token_valid_def token_codes)

lemma id_good: "ends z \<Longrightarrow> i < length z \<Longrightarrow> good z (tok_id z i)"
  using skip_ends [of z IdChar i] by (auto simp: tok_id_def good_def plain_valid token_codes)

lemma space_good: "ends z \<Longrightarrow> 1 < length z \<Longrightarrow> good z (tok_space z)"
  using skip_ends [of z sqlite3Isspace 1] by (auto simp: tok_space_def good_def plain_valid token_codes)

lemma varnum_good: "ends z \<Longrightarrow> 1 < length z \<Longrightarrow> good z (tok_varnum z)"
  using skip_ends [of z sqlite3Isdigit 1] by (auto simp: tok_varnum_def good_def plain_valid token_codes)

lemma operators_good:
  assumes "ends z" and "1 < length z"
  shows "good z (tok_eq z)" "good z (tok_lt z)" "good z (tok_gt z)" "good z (tok_bang z)" "good z (tok_pipe z)"
proof -
  have "at z 1 = Some (z ! 1)" "z ! 1 \<noteq> 0 \<Longrightarrow> 2 < length z"
    using assms at_ends [of 1 z] ends_more [of z 1] by auto
  then show "good z (tok_eq z)" "good z (tok_lt z)" "good z (tok_gt z)" "good z (tok_bang z)" "good z (tok_pipe z)"
    using assms(2)
    by (auto simp: tok_eq_def tok_lt_def tok_gt_def tok_bang_def tok_pipe_def good_def plain_valid token_codes)
qed

lemma minus_good:
  assumes "ends z" and "1 < length z"
  shows "good z (tok_minus z)"
proof -
  have "at z 1 = Some (z ! 1)" "z ! 1 = 0x2d \<Longrightarrow> 2 < length z"
    using assms at_ends [of 1 z] ends_more [of z 1] by auto
  then show ?thesis
    using assms skip_ends [of z "\<lambda>c. c \<noteq> 0 \<and> c \<noteq> 0x0a" 2]
    by (auto simp: tok_minus_def good_def plain_valid token_codes)
qed

lemma slash_good:
  assumes "ends z" and "1 < length z"
  shows "good z (tok_slash z)"
proof (cases "z ! 1 = 0x2a")
  case True
  then have len: "2 < length z" using assms ends_more [of z 1] by auto
  show ?thesis
  proof (cases "z ! 2 = 0")
    case False
    then have "3 < length z" using assms(1) len ends_more [of z 2] by auto
    then obtain d j where "comment_loop (z ! 2) (drop 3 z) 3 = Some (d, j)" "j < length z" "d \<noteq> 0 \<longrightarrow> Suc j < length z"
      using comment_ends [OF ends_drop [OF assms(1)], of 3 "z ! 2" 3] by auto
    then show ?thesis
      using True False len at_ends [of 1 z] at_ends [of 2 z] by (auto simp: tok_slash_def good_def plain_valid token_codes)
  qed (use True len at_ends [of 1 z] at_ends [of 2 z] in \<open>auto simp: tok_slash_def good_def plain_valid token_codes\<close>)
qed (use assms at_ends [of 1 z] in \<open>auto simp: tok_slash_def good_def plain_valid token_codes\<close>)

lemma quote_good:
  assumes "ends z" and "1 < length z"
  shows "good z (tok_quote z)"
proof -
  obtain c j where "quote_loop (z ! 0) (drop 1 z) 1 = Some (c, j)" "j < length z" "c \<noteq> 0 \<longrightarrow> Suc j < length z"
    using quote_ends [OF ends_drop [OF assms] first_ends(2) [OF assms], of 1] unfolding behind_first [OF assms(2)] by blast
  then show ?thesis using first_ends [OF assms] by (auto simp: tok_quote_def good_def plain_valid token_codes)
qed

lemma quote2_good:
  assumes "ends z" and "1 < length z"
  shows "good z (tok_quote2 z)"
proof -
  obtain c j where "bracket_loop (z ! 0) (drop 1 z) 1 = Some (c, j)" "j < length z"
    using bracket_ends [OF ends_drop [OF assms], of "z ! 0" 1] unfolding behind_first [OF assms(2)] by blast
  then show ?thesis using first_ends [OF assms] by (auto simp: tok_quote2_def good_def plain_valid token_codes)
qed

lemma var_good:
  assumes "ends z" and "1 < length z"
  shows "good z (tok_var z)"
  using var_ends [OF ends_drop [OF assms], of 1 0] assms by (auto simp: tok_var_def good_def plain_valid token_codes)

text \<open>Numbers.\<close>

lemma fraction_ends:
  assumes "ends z" and "i < length z"
  shows "\<exists>j t. fraction z i = Some (j, t) \<and> j < length z \<and> (t = TK_FLOAT \<or> t = TK_INTEGER)"
proof (cases "z ! i = 0x2e")
  case True
  then have "i + 1 < length z" using ends_more [OF assms] by simp
  then show ?thesis
    using skip_ends [of z sqlite3Isdigit "i + 1"] assms True by (auto simp: fraction_def at_ends)
qed (use assms in \<open>auto simp: fraction_def at_ends\<close>)

lemma exponent_ends:
  assumes "ends z" and "i < length z"
  shows "\<exists>j t'. exponent z i t = Some (j, t') \<and> j < length z \<and> (t' = TK_FLOAT \<or> t' = t)"
proof (cases "z ! i = 0x65 \<or> z ! i = 0x45")
  case True
  then have len: "i + 1 < length z" using ends_more [OF assms] by auto
  have more: "i + 2 < length z" if "z ! (i + 1) \<noteq> 0" using ends_more [OF assms(1) len that] by simp
  have digit: "z ! (i + 1) \<noteq> 0" if "sqlite3Isdigit (z ! (i + 1))" using that classes_of_zero(2) by metis
  consider "sqlite3Isdigit (z ! (i + 1))" | "\<not> sqlite3Isdigit (z ! (i + 1))" "z ! (i + 1) = 0x2b \<or> z ! (i + 1) = 0x2d"
    | "\<not> sqlite3Isdigit (z ! (i + 1))" "\<not> (z ! (i + 1) = 0x2b \<or> z ! (i + 1) = 0x2d)" by blast
  then show ?thesis
  proof cases
    case 1
    then show ?thesis
      using assms True len more [OF digit] skip_ends [of z sqlite3Isdigit "i + 2"] by (auto simp: exponent_def at_ends)
  next
    case 2
    then have "i + 2 < length z" using more by auto
    then show ?thesis
      using assms True len 2 skip_ends [of z sqlite3Isdigit "i + 2"]
      by (cases "sqlite3Isdigit (z ! (i + 2))") (auto simp: exponent_def at_ends)
  next
    case 3
    then show ?thesis using assms True len by (auto simp: exponent_def at_ends)
  qed
qed (use assms in \<open>auto simp: exponent_def at_ends\<close>)

lemma hex_ends:
  assumes "ends z" and "1 < length z"
  shows "\<exists>b. is_hex z = Some b \<and> (b \<longrightarrow> 3 < length z)"
proof (cases "z ! 0 = 0x30 \<and> (z ! 1 = 0x78 \<or> z ! 1 = 0x58)")
  case True
  then have len: "2 < length z" using ends_more [of z 1] assms by auto
  have "3 < length z" if "sqlite3Isxdigit (z ! 2)"
    using ends_more [of z 2] assms(1) len that classes_of_zero(3) by (metis Suc_numeral semiring_norm(5))
  then show ?thesis using True assms(2) len first_ends [OF assms] by (auto simp: is_hex_def at_ends)
qed (use assms first_ends [OF assms] in \<open>auto simp: is_hex_def at_ends\<close>)

lemma digit_good:
  assumes "ends z" and "1 < length z"
  shows "good z (tok_digit z)"
proof -
  obtain b where b: "is_hex z = Some b" "b \<longrightarrow> 3 < length z" using hex_ends [OF assms] by blast
  show ?thesis
  proof (cases b)
    case True
    then show ?thesis
      using b skip_ends [of z sqlite3Isxdigit 3] assms(1) by (auto simp: tok_digit_def good_def plain_valid token_codes)
  next
    case False
    obtain i where i: "skip sqlite3Isdigit z 0 = Some i" "i < length z"
      using skip_within [OF assms(1), of sqlite3Isdigit 0] by auto
    obtain j t where j: "fraction z i = Some (j, t)" "j < length z" "t = TK_FLOAT \<or> t = TK_INTEGER"
      using fraction_ends [OF assms(1) i(2)] by blast
    obtain k t' where k: "exponent z j t = Some (k, t')" "k < length z" "t' = TK_FLOAT \<or> t' = t"
      using exponent_ends [OF assms(1) j(2)] by blast
    obtain l where l: "skip IdChar (drop k z) k = Some l" "l < length z"
      using skip_ends [of z IdChar k] assms(1) k(2) by auto
    have "token_valid l (if l = k then t' else TK_ILLEGAL)"
      using j(3) k(3) by (auto simp: plain_valid token_codes)
    then show ?thesis using b(1) False i j k l by (auto simp: tok_digit_def good_def)
  qed
qed

lemma dot_good:
  assumes "ends z" and "1 < length z"
  shows "good z (tok_dot z)"
  using assms digit_good [OF assms] by (auto simp: tok_dot_def at_ends good_def plain_valid token_codes)

text \<open>Words and blobs.\<close>

lemma keyword_good:
  assumes "i < length z"
  shows "good z (keywordCode z i TK_ID)"
proof -
  have "sqlite3KeywordCode (take i z @ drop i z) (length (take i z)) = Some (keyword_code (take i z))"
    by (rule keyword_lookup)
  then have "map_option snd (keywordCode z i TK_ID) = Some (keyword_code (take i z))"
    using assms by (simp add: sqlite3KeywordCode_def)
  then obtain n where n: "keywordCode z i TK_ID = Some (n, keyword_code (take i z))" by auto
  then have "n = i" by (rule keywordCode_length)
  moreover have "token_valid i (keyword_code (take i z))"
    using keyword_code_cases [of "take i z"] assms by (auto simp: token_valid_def)
  ultimately show ?thesis using n assms by (simp add: good_def)
qed

lemma kywd_good:
  assumes "ends z" and "1 < length z"
  shows "good z (tok_kywd z)"
proof -
  obtain i where i: "skip (\<lambda>c. char_class c \<le> CC_KYWD) (drop 1 z) 1 = Some i" "i < length z"
    using skip_ends [OF assms(1) _ assms(2), of "\<lambda>c. char_class c \<le> CC_KYWD"] classes_of_zero by auto
  show ?thesis
  proof (cases "IdChar (z ! i)")
    case True
    then have "z ! i \<noteq> 0" using classes_of_zero(4) by metis
    then have "good z (tok_id z (i + 1))" using id_good [of z "i + 1"] ends_more [OF assms(1) i(2)] assms(1) by simp
    then show ?thesis using i True by (simp add: tok_kywd_def at_ends)
  next
    case False
    then show ?thesis using i keyword_good [OF i(2)] by (simp add: tok_kywd_def at_ends)
  qed
qed

lemma x_good:
  assumes "ends z" and "1 < length z"
  shows "good z (tok_x z)"
proof (cases "z ! 1 = 0x27")
  case True
  then have "2 < length z" using ends_more [of z 1] assms by auto
  then obtain i where i: "skip sqlite3Isxdigit (drop 2 z) 2 = Some i" "i < length z"
    using skip_ends [OF assms(1), of sqlite3Isxdigit 2] by auto
  obtain j where j: "skip (\<lambda>c. c \<noteq> 0 \<and> c \<noteq> 0x27) (drop i z) i = Some j" "j < length z"
    using skip_ends [OF assms(1) _ i(2), of "\<lambda>c. c \<noteq> 0 \<and> c \<noteq> 0x27"] by auto
  have "z ! k \<noteq> 0 \<Longrightarrow> Suc k < length z" if "k < length z" for k using ends_more [OF assms(1) that] .
  then show ?thesis
    using True assms(2) i j by (auto simp: tok_x_def at_ends good_def plain_valid token_codes)
next
  case False
  then show ?thesis using assms id_good [of z 1] by (simp add: tok_x_def at_ends)
qed

lemma get_token_good:
  assumes "ends z"
  shows "good z (sqlite3GetToken z)"
proof (cases "length z = 1")
  case True
  then have "at z 0 = Some 0" "0 < length z" using ends_zero [OF assms, of 0] by (auto simp: at_def)
  moreover have "char_class 0 = CC_NUL" by (simp add: class_nul)
  ultimately show ?thesis by (simp add: sqlite3GetToken_def good_def plain_valid class_codes token_codes)
next
  case False
  moreover have "0 < length z" using assms by (cases z) auto
  ultimately have len: "1 < length z" by linarith
  have one: "good z (Some (1, t))" if "0 < t" "t < 159 \<or> 176 < t \<and> t < 179" for t
    using len that by (simp add: good_def plain_valid)
  have nul: "char_class (z ! 0) \<noteq> CC_NUL" using first_ends [OF assms len] by (simp add: class_nul)
  note goods = space_good minus_good slash_good operators_good quote_good quote2_good varnum_good var_good
    digit_good dot_good kywd_good x_good
  show ?thesis
    using first_ends(1) [OF assms len] nul goods [OF assms len] one id_good [OF assms len]
    by (simp add: sqlite3GetToken_def Let_def token_codes)
qed

section \<open>More memory\<close>

text \<open>What lies behind the bytes that were read does not matter.\<close>

lemma at_mono: "at z i = Some c \<Longrightarrow> at (z @ w) i = Some c"
  by (auto simp: at_def nth_append split: if_splits)

lemma skip_mono: "skip P z i = Some j \<Longrightarrow> skip P (z @ w) i = Some j"
  by (induction P z i rule: skip.induct) auto

lemma skip_drop_mono: "skip P (drop k z) i = Some j \<Longrightarrow> skip P (drop k (z @ w)) i = Some j"
  using skip_mono [of P "drop k z" i j "drop (k - length z) w"] by simp

lemma comment_loop_mono: "comment_loop c z i = Some r \<Longrightarrow> comment_loop c (z @ w) i = Some r"
  by (induction c z i rule: comment_loop.induct) auto

lemma quote_loop_mono: "quote_loop delim z i = Some r \<Longrightarrow> quote_loop delim (z @ w) i = Some r"
proof (induction delim z i rule: quote_loop.induct)
  case (2 delim c i)
  then show ?case by (cases w) (auto split: if_splits)
qed (auto split: if_splits)

lemma bracket_loop_mono: "bracket_loop c z i = Some r \<Longrightarrow> bracket_loop c (z @ w) i = Some r"
proof (induction c z i rule: bracket_loop.induct)
  case (1 c i)
  then show ?case by (cases w) (auto split: if_splits)
qed (auto split: if_splits)

lemma skip_length: "skip P z i = Some j \<Longrightarrow> j < i + length z"
  by (induction P z i rule: skip.induct) (auto split: if_splits)

lemma var_loop_mono: "var_loop z i n = Some r \<Longrightarrow> var_loop (z @ w) i n = Some r"
proof (induction z i n rule: var_loop.induct)
  case (2 c z i n)
  show ?case
  proof (cases "c = 0x28 \<and> n > 0 \<and> \<not> IdChar c")
    case True
    let ?P = "\<lambda>c. c \<noteq> 0 \<and> \<not> sqlite3Isspace c \<and> c \<noteq> (0x29 :: 8 word)"
    obtain j where j: "skip ?P z 0 = Some j" using 2(3) True by (auto simp: bind_eq_Some_conv)
    then have "skip ?P (z @ w) 0 = Some j" "j < length z" using skip_mono skip_length [of ?P z 0 j] by auto
    then show ?thesis using 2(3) True j by (auto simp: nth_append)
  next
    case False
    then show ?thesis using 2 by (cases z) (auto split: if_splits)
  qed
qed simp

text \<open>A result that is kept, when there is one.\<close>

named_theorems kept_rules \<open>results that are kept\<close>

definition kept :: "'a option \<Rightarrow> 'a option \<Rightarrow> bool" where
  "kept x y \<longleftrightarrow> x = None \<or> y = x"

lemma kept_Some: "kept x y \<Longrightarrow> x = Some r \<Longrightarrow> y = Some r"
  by (auto simp: kept_def)

lemma keptI: "(\<And>r. x = Some r \<Longrightarrow> y = Some r) \<Longrightarrow> kept x y"
  by (cases x) (auto simp: kept_def)

lemma kept_refl [kept_rules]: "kept x x"
  by (simp add: kept_def)

lemma kept_bind [kept_rules]: "kept x y \<Longrightarrow> (\<And>v. kept (f v) (g v)) \<Longrightarrow> kept (x \<bind> f) (y \<bind> g)"
  by (cases x) (auto simp: kept_def)

lemma kept_if [kept_rules]: "(b \<Longrightarrow> kept x y) \<Longrightarrow> (\<not> b \<Longrightarrow> kept x' y') \<Longrightarrow> kept (if b then x else x') (if b then y else y')"
  by simp

lemma kept_prod [kept_rules]: "(\<And>a b. kept (f a b) (g a b)) \<Longrightarrow> kept (case p of (a, b) \<Rightarrow> f a b) (case p of (a, b) \<Rightarrow> g a b)"
  by (cases p) simp

lemma kept_map [kept_rules]: "kept x y \<Longrightarrow> kept (map_option f x) (map_option f y)"
  by (auto simp: kept_def)

lemma kept_at [kept_rules]: "kept (at z i) (at (z @ w) i)"
  by (rule keptI) (rule at_mono)

lemma kept_skip [kept_rules]: "kept (skip P z i) (skip P (z @ w) i)"
  by (rule keptI) (rule skip_mono)

lemma kept_loops [kept_rules]:
  "kept (skip P (drop k z) i) (skip P (drop k (z @ w)) i)"
  "kept (comment_loop c (drop k z) i) (comment_loop c (drop k (z @ w)) i)"
  "kept (quote_loop c (drop k z) i) (quote_loop c (drop k (z @ w)) i)"
  "kept (bracket_loop c (drop k z) i) (bracket_loop c (drop k (z @ w)) i)"
  "kept (var_loop (drop k z) i n) (var_loop (drop k (z @ w)) i n)"
  unfolding drop_append
  by (intro keptI skip_mono comment_loop_mono quote_loop_mono bracket_loop_mono var_loop_mono; assumption)+

lemma kept_keyword [kept_rules]: "kept (keywordCode z n t) (keywordCode (z @ w) n t)"
  by (cases "z = []") (auto simp: kept_def keywordCode_def nth_append)

lemma kept_tokens [kept_rules]:
  "kept (tok_space z) (tok_space (z @ w))" "kept (tok_minus z) (tok_minus (z @ w))"
  "kept (tok_slash z) (tok_slash (z @ w))" "kept (tok_eq z) (tok_eq (z @ w))"
  "kept (tok_lt z) (tok_lt (z @ w))" "kept (tok_gt z) (tok_gt (z @ w))"
  "kept (tok_bang z) (tok_bang (z @ w))" "kept (tok_pipe z) (tok_pipe (z @ w))"
  "kept (tok_quote z) (tok_quote (z @ w))" "kept (tok_quote2 z) (tok_quote2 (z @ w))"
  "kept (tok_varnum z) (tok_varnum (z @ w))" "kept (tok_var z) (tok_var (z @ w))"
  "kept (tok_id z i) (tok_id (z @ w) i)" "kept (tok_x z) (tok_x (z @ w))"
  unfolding simple_tokens by (intro kept_rules)+

lemma kept_numbers [kept_rules]:
  "kept (is_hex z) (is_hex (z @ w))" "kept (fraction z i) (fraction (z @ w) i)"
  "kept (exponent z i t) (exponent (z @ w) i t)"
  unfolding is_hex_def fraction_def exponent_def by (intro kept_rules)+

lemma kept_digit [kept_rules]: "kept (tok_digit z) (tok_digit (z @ w))"
  unfolding tok_digit_def by (intro kept_rules)

lemma kept_dot [kept_rules]: "kept (tok_dot z) (tok_dot (z @ w))"
  unfolding tok_dot_def by (intro kept_rules)

lemma kept_kywd [kept_rules]: "kept (tok_kywd z) (tok_kywd (z @ w))"
  unfolding tok_kywd_def by (intro kept_rules)

lemma kept_token [kept_rules]: "kept (sqlite3GetToken z) (sqlite3GetToken (z @ w))"
  unfolding sqlite3GetToken_def Let_def by (intro kept_rules)

section \<open>All tokens of a text\<close>

function tokens :: "bytes \<Rightarrow> (nat \<times> bytes) list" where
  "tokens z = (case sqlite3GetToken z of None \<Rightarrow> [] | Some (n, t) \<Rightarrow>
     if n = 0 then [] else (t, take n z) # tokens (drop n z))"
  by pat_completeness auto
termination
proof (relation "measure length", goal_cases)
  case (2 z r n t)
  then have "at z 0 \<noteq> None" by (auto simp: sqlite3GetToken_def bind_eq_Some_conv)
  then have "z \<noteq> []" by (auto simp: at_def)
  then show ?case using 2 by simp
qed simp

declare tokens.simps [simp del]

text \<open>The next token of a terminated text: nothing at its end, and otherwise a part of the text.\<close>

lemma token_ends:
  assumes "ends z"
  obtains "z = [0]" "\<And>w. sqlite3GetToken (z @ w) = Some (0, TK_ILLEGAL)" "tokens z = []"
  | n t where "z ! 0 \<noteq> 0" "\<And>w. sqlite3GetToken (z @ w) = Some (n, t)" "0 < n" "n < length z" "token_valid n t"
      "ends (drop n z)" "tokens z = (t, take n z) # tokens (drop n z)"
proof -
  obtain n t where t: "sqlite3GetToken z = Some (n, t)" "n < length z" "token_valid n t"
    using get_token_good [OF assms] by (auto simp: good_def)
  have w: "sqlite3GetToken (z @ w) = Some (n, t)" for w by (rule kept_Some [OF kept_token t(1)])
  show ?thesis
  proof (cases "z = [0]")
    case True
    then have "char_class 0 = CC_NUL" "at z 0 = Some 0" by (simp_all add: class_nul at_def)
    then have "n = 0" "t = TK_ILLEGAL" using t(1) by (simp_all add: sqlite3GetToken_def class_codes)
    then show ?thesis using w t(1) by (intro that(1) [OF True]) (simp_all add: tokens.simps [of z])
  next
    case False
    moreover have "z \<noteq> []" using assms by auto
    ultimately have "1 < length z" using assms by (cases z rule: ends.cases) (auto split: if_splits)
    note first = first_ends [OF assms this]
    then have "0 < n" using get_token_pos [OF t(1) first(1)] by (simp add: class_nul)
    then show ?thesis
      using first t w ends_drop [OF assms t(2)] by (intro that(2) [of n t]) (simp_all add: tokens.simps [of z])
  qed
qed

lemma tokens_ends:
  "ends z \<Longrightarrow> concat (map snd (tokens z)) @ [0] = z \<and>
   list_all (\<lambda>(t, w). w \<noteq> [] \<and> token_valid (length w) t) (tokens z) \<and> tokens (z @ w) = tokens z"
proof (induction z rule: measure_induct_rule [of length])
  case (less z)
  from less.prems show ?case
  proof (cases rule: token_ends)
    case 1
    then show ?thesis using 1(2) [of w] by (simp add: tokens.simps [of "0 # w"])
  next
    case (2 n t)
    have "length (drop n z) < length z" using 2(3,4) by simp
    note IH = less.IH [OF this 2(6)]
    have "tokens (z @ w) = (t, take n z) # tokens (drop n z @ w)"
      using 2(2) [of w] 2(3,4) by (simp add: tokens.simps [of "z @ w"])
    moreover have "concat (map snd (tokens z)) @ [0] = z" using conjunct1 [OF IH] by (simp add: 2(7))
    moreover have "take n z \<noteq> []" "length (take n z) = n" using 2(3,4) by auto
    ultimately show ?thesis using 2(5,7) IH by simp
  qed
qed

section \<open>Properties\<close>

lemma ends_text: "0 \<notin> set text \<Longrightarrow> ends (text @ [0])"
  unfolding ends_iff by blast

text \<open>
  Property C11: the tokenizer splits every statement into tokens. Calling \<open>sqlite3GetToken\<close> again and again from the
  start of a text without 0 bytes never reads behind the terminator and stops there: the tokens are not empty, their
  texts make up the statement, their types are such that the loop of the parser finds its assertions satisfied, and
  nothing behind the terminator has an influence.
\<close>
theorem tokenizer_partitions:
  assumes "0 \<notin> set text"
  shows "concat (map snd (tokens (text @ 0 # rest))) = text \<and>
    list_all (\<lambda>(t, w). w \<noteq> [] \<and> token_valid (length w) t) (tokens (text @ 0 # rest)) \<and>
    tokens (text @ 0 # rest) = tokens (text @ [0])"
  using tokens_ends [OF ends_text [OF assms], of rest] by simp

text \<open>The witness: a statement with a keyword, an identifier, a number and garbage behind the terminator.\<close>
theorem tokenizer_partitions_witness:
  "concat (map snd (tokens (map of_char ''SELECT a+1'' @ 0 # [7, 7]))) = map of_char ''SELECT a+1''"
  by (rule conjunct1 [OF tokenizer_partitions]) simp

end
