(* ===== verification/Sqlite_Parser_Spec.thy ===== *)
theory Sqlite_Parser_Spec
  imports Sqlite_Tokenize_Spec
begin

text \<open>
  The loop of \<open>sqlite3RunParser\<close> gives the tokens of a statement to the parser and ends, whatever the parser does.
\<close>

section \<open>Keywords that may be identifiers\<close>

text \<open>What the words \<open>WINDOW\<close>, \<open>OVER\<close> and \<open>FILTER\<close> mean, in terms of the tokens that follow.\<close>

definition plain_type :: "nat \<Rightarrow> nat" where
  "plain_type t = (if t = TK_ID \<or> t = TK_STRING \<or> t = TK_JOIN_KW \<or> t = TK_WINDOW \<or> t = TK_OVER \<or> yyFallback ! t = TK_ID
     then TK_ID else t)"

fun next_token :: "(nat \<times> bytes) list \<Rightarrow> nat \<times> (nat \<times> bytes) list" where
  "next_token [] = (TK_ILLEGAL, [])"
| "next_token ((t, w) # ts) = (if t = TK_SPACE then next_token ts else (plain_type t, ts))"

definition resolve :: "int \<Rightarrow> nat \<Rightarrow> (nat \<times> bytes) list \<Rightarrow> nat" where
  "resolve lastToken t ts =
     (if t = TK_WINDOW then
        case next_token ts of (a, ts') \<Rightarrow> if a = TK_ID \<and> fst (next_token ts') = TK_AS then TK_WINDOW else TK_ID
      else if t = TK_OVER then
        if lastToken = int TK_RP \<and> (fst (next_token ts) = TK_LP \<or> fst (next_token ts) = TK_ID) then TK_OVER else TK_ID
      else if t = TK_FILTER then
        if lastToken = int TK_RP \<and> fst (next_token ts) = TK_LP then TK_FILTER else TK_ID
      else t)"

lemma yyFallback_length: "length yyFallback = 179"
  by (simp add: yyFallback_def)

lemma valid_range: "token_valid n t \<Longrightarrow> t < 179"
  by (auto simp: token_valid_def token_codes)

lemma plain_illegal: "plain_type TK_ILLEGAL = TK_ILLEGAL"
  by (simp add: plain_type_def token_codes yyFallback_def)

lemma getToken_ends:
  "ends z \<Longrightarrow> \<exists>z'. getToken (z @ w) = Some (fst (next_token (tokens z)), z' @ w) \<and> ends z' \<and>
     tokens z' = snd (next_token (tokens z))"
proof (induction z rule: measure_induct_rule [of length])
  case (less z)
  from less.prems show ?case
  proof (cases rule: token_ends)
    case 1
    then show ?thesis using 1(2) [of w] plain_illegal
      by (intro exI [of _ z])
         (auto simp: getToken.simps [of "0 # w"] sqlite3ParserFallback_def yyFallback_length plain_type_def token_codes split: if_splits)
  next
    case (2 n t)
    show ?thesis
    proof (cases "t = TK_SPACE")
      case True
      have "length (drop n z) < length z" using 2(3,4) by simp
      from less.IH [OF this 2(6)] show ?thesis
        using 2 True by (simp add: getToken.simps [of "z @ w"])
    next
      case False
      have "getToken (z @ w) = Some (plain_type t, drop n z @ w)"
        using 2(2) [of w] 2(4) False valid_range [OF 2(5)]
        by (auto simp: getToken.simps [of "z @ w"] sqlite3ParserFallback_def yyFallback_length plain_type_def)
      then show ?thesis using 2 False by auto
    qed
  qed
qed

lemma analyze_ends:
  assumes "ends z"
  shows "analyzeWindowKeyword (z @ w) = Some (resolve lst TK_WINDOW (tokens z))"
    and "analyzeOverKeyword (z @ w) lst = Some (resolve lst TK_OVER (tokens z))"
    and "analyzeFilterKeyword (z @ w) lst = Some (resolve lst TK_FILTER (tokens z))"
proof -
  obtain z' where z': "getToken (z @ w) = Some (fst (next_token (tokens z)), z' @ w)" "ends z'"
    "tokens z' = snd (next_token (tokens z))"
    using getToken_ends [OF assms] by blast
  obtain z'' where z'': "getToken (z' @ w) = Some (fst (next_token (tokens z')), z'' @ w)"
    using getToken_ends [OF z'(2)] by blast
  show "analyzeWindowKeyword (z @ w) = Some (resolve lst TK_WINDOW (tokens z))"
    using z' z'' by (simp add: analyzeWindowKeyword_def resolve_def case_prod_beta)
  show "analyzeOverKeyword (z @ w) lst = Some (resolve lst TK_OVER (tokens z))"
    using z' by (simp add: analyzeOverKeyword_def resolve_def token_codes)
  show "analyzeFilterKeyword (z @ w) lst = Some (resolve lst TK_FILTER (tokens z))"
    using z' by (simp add: analyzeFilterKeyword_def resolve_def token_codes)
qed

section \<open>The loop of the parser\<close>

lemma loop_step_token:
  assumes "ends z" and "n < length z" and "z ! 0 \<noteq> 0" and "token_valid n t" and "ends (drop n z)"
  shows "loop_step b (z @ w) n t lst = Some (
     if TK_WINDOW \<le> t \<and> b then Stop SQLITE_INTERRUPT else if t = TK_SPACE then Pass
     else if t = TK_ILLEGAL then Stop SQLITE_ERROR else Feed (resolve lst t (tokens (drop n z))) n)"
proof -
  have first: "at (z @ w) 0 = Some (z ! 0)" using assms(2) by (auto simp: at_def nth_append)
  have rest: "drop n (z @ w) = drop n z @ w" using assms(2) by simp
  note words = analyze_ends [OF assms(5), of w, folded rest]
  consider "t < TK_WINDOW" | "t = TK_SPACE" | "t = TK_ILLEGAL" | "t = TK_WINDOW" "n = 6" | "t = TK_OVER" "n = 4"
    | "t = TK_FILTER" "n = 6" using assms(4) by (auto simp: token_valid_def)
  then show ?thesis
  proof cases
    case 1
    then show ?thesis by (simp add: loop_step_def resolve_def token_codes)
  next
    case 4
    then show ?thesis using first assms(3) words(1) [of lst] by (simp add: loop_step_def TK_WINDOW_def TK_SPACE_def TK_ILLEGAL_def)
  next
    case 5
    then show ?thesis using first assms(3) words(2) [of lst]
      by (simp add: loop_step_def TK_OVER_def TK_WINDOW_def TK_SPACE_def TK_ILLEGAL_def)
  next
    case 6
    then show ?thesis using first assms(3) words(3) [of lst]
      by (simp add: loop_step_def TK_FILTER_def TK_OVER_def TK_WINDOW_def TK_SPACE_def TK_ILLEGAL_def)
  qed (use first assms(3) in \<open>simp_all add: loop_step_def token_codes\<close>)
qed

lemma loop_step_end:
  "loop_step b (0 # w) 0 TK_ILLEGAL lst = Some (
     if b then Stop SQLITE_INTERRUPT else if lst = int TK_SEMI then Feed 0 0 else if lst = 0 then Stop SQLITE_OK
     else Feed TK_SEMI 0)"
  by (simp add: loop_step_def at_def token_codes)

text \<open>The tokens that the parser should get, and a parser that records the tokens it gets.\<close>

fun stream :: "int \<Rightarrow> (nat \<times> bytes) list \<Rightarrow> (nat \<times> bytes) list" where
  "stream lst [] = (if lst = 0 then [] else if lst = int TK_SEMI then [(0, [])] else [(TK_SEMI, []), (0, [])])"
| "stream lst ((t, w) # ts) =
     (if t = TK_SPACE then stream lst ts else if t = TK_ILLEGAL then []
      else (resolve lst t ts, w) # stream (int (resolve lst t ts)) ts)"

definition logged ::
  "('s \<Rightarrow> nat \<Rightarrow> bytes \<Rightarrow> nat \<Rightarrow> int \<times> 's) \<Rightarrow> 's \<times> (nat \<times> bytes) list \<Rightarrow> nat \<Rightarrow> bytes \<Rightarrow> nat \<Rightarrow>
   int \<times> 's \<times> (nat \<times> bytes) list" where
  "logged parse = (\<lambda>(s, log) t z n. case parse s t z n of (rc, s) \<Rightarrow> (rc, s, log @ [(t, take n z)]))"

text \<open>Nothing goes wrong: the parser accepts, nobody interrupts, the text is not too long, and all tokens are legal.\<close>

definition smooth :: "('s \<Rightarrow> nat \<Rightarrow> bytes \<Rightarrow> nat \<Rightarrow> int \<times> 's) \<Rightarrow> (nat \<Rightarrow> bool) \<Rightarrow> int \<Rightarrow> bytes \<Rightarrow> bool" where
  "smooth parse interrupts mxSqlLen z \<longleftrightarrow> (\<forall>s t z n. fst (parse s t z n) = SQLITE_OK) \<and> (\<forall>k. \<not> interrupts k) \<and>
     int (length z) \<le> mxSqlLen + 1 \<and> list_all (\<lambda>(t, w). t \<noteq> TK_ILLEGAL) (tokens z)"

definition served ::
  "('s \<Rightarrow> nat \<Rightarrow> bytes \<Rightarrow> nat \<Rightarrow> int \<times> 's) \<Rightarrow> (nat \<Rightarrow> bool) \<Rightarrow> int \<Rightarrow> bytes \<Rightarrow> bytes \<Rightarrow> int \<Rightarrow>
   (nat \<times> bytes) list \<Rightarrow> (int \<times> bytes \<times> 's \<times> (nat \<times> bytes) list) option \<Rightarrow> bool" where
  "served parse interrupts mxSqlLen z w lst log r \<longleftrightarrow>
     (\<exists>rc tail s new more. r = Some (rc, tail, s, log @ new) \<and> stream lst (tokens z) = new @ more \<and>
        (rc = SQLITE_OK \<longrightarrow> more = [] \<and> tail = 0 # w) \<and> (smooth parse interrupts mxSqlLen z \<longrightarrow> rc = SQLITE_OK))"

lemma served_stop:
  "rc \<noteq> SQLITE_OK \<Longrightarrow> \<not> smooth parse interrupts mx z \<Longrightarrow>
   served parse interrupts mx z w lst log (Some (rc, tail, s, log))"
  by (auto simp: served_def)

lemma served_pass:
  assumes "served parse interrupts mx' z' w lst log r" and "stream lst (tokens z) = stream lst (tokens z')"
    and "smooth parse interrupts mx z \<Longrightarrow> smooth parse interrupts mx' z'"
  shows "served parse interrupts mx z w lst log r"
  using assms unfolding served_def by metis

text \<open>A token goes to the parser, which accepts or rejects it.\<close>

lemma served_feed:
  assumes "stream lst (tokens z) = (t, take n zSql) # stream (int t) (tokens z')"
    and "smooth parse interrupts mx z \<Longrightarrow> smooth parse interrupts mx' z'"
    and "\<And>s log. served parse interrupts mx' z' w (int t) log (parser_loop (logged parse) interrupts k zSql' mx' (int t) (s, log))"
  shows "served parse interrupts mx z w lst log
    (case logged parse (s, log) t zSql n of (rc, s) \<Rightarrow>
       if rc \<noteq> SQLITE_OK then Some (rc, zSql', s) else parser_loop (logged parse) interrupts k zSql' mx' (int t) s)"
proof -
  obtain rc s' where p: "parse s t zSql n = (rc, s')" by fastforce
  show ?thesis
  proof (cases "rc = SQLITE_OK")
    case True
    then show ?thesis
      using assms(1,2) assms(3) [of "log @ [(t, take n zSql)]" s'] p unfolding served_def logged_def by fastforce
  next
    case False
    then have "\<not> smooth parse interrupts mx z" using p unfolding smooth_def by (metis fst_conv)
    then show ?thesis
      using assms(1) p False unfolding served_def logged_def
      by (auto intro!: exI [of _ "[(t, take n zSql)]"])
  qed
qed

lemma smooth_step:
  assumes "smooth parse interrupts mx z" and "tokens z = (t, u) # tokens (drop n z)" and "n < length z"
  shows "smooth parse interrupts (mx - int n) (drop n z)" and "t \<noteq> TK_ILLEGAL"
  using assms by (auto simp: smooth_def)

text \<open>At the end of the text, and at a token, when the rest of the loop is served.\<close>

lemma loop_at_end:
  assumes "tokens [0] = []" and "sqlite3GetToken (0 # w) = Some (0, TK_ILLEGAL)"
    and again: "\<And>t s log. stage (int t) < stage lst \<Longrightarrow> served parse interrupts mx [0] w (int t) log
      (parser_loop (logged parse) interrupts (Suc k) (0 # w) mx (int t) (s, log))"
  shows "served parse interrupts mx [0] w lst log (parser_loop (logged parse) interrupts k (0 # w) mx lst (s, log))"
proof -
  note loop = parser_loop.simps [of "logged parse" interrupts k "0 # w" mx lst "(s, log)", unfolded assms(2)]
  have feed: "served parse interrupts mx [0] w lst log
      (case logged parse (s, log) t (0 # w) 0 of (rc, s) \<Rightarrow>
         if rc \<noteq> SQLITE_OK then Some (rc, drop 0 (0 # w), s)
         else parser_loop (logged parse) interrupts (Suc k) (drop 0 (0 # w)) mx (int t) s)"
    if "stream lst [] = (t, []) # stream (int t) []" "stage (int t) < stage lst" for t
    by (rule served_feed [where z' = "[0]"]) (use that again assms(1) in simp_all)
  consider "mx < 0" | "0 \<le> mx" "interrupts k" | "0 \<le> mx" "\<not> interrupts k" "lst = int TK_SEMI"
    | "0 \<le> mx" "\<not> interrupts k" "lst = 0" | "0 \<le> mx" "\<not> interrupts k" "lst \<noteq> int TK_SEMI" "lst \<noteq> 0"
    by linarith
  then show ?thesis
  proof cases
    case 1
    then have "\<not> smooth parse interrupts mx [0]" by (simp add: smooth_def)
    then show ?thesis using loop 1 by (simp add: served_stop SQLITE_TOOBIG_def SQLITE_OK_def)
  next
    case 2
    then have "\<not> smooth parse interrupts mx [0]" by (auto simp: smooth_def)
    then show ?thesis using loop 2 by (simp add: loop_step_end served_stop SQLITE_INTERRUPT_def SQLITE_OK_def)
  next
    case 3
    then have "stream lst [] = (0, []) # stream (int 0) []" "stage (int 0) < stage lst" by (simp_all add: stage_def token_codes)
    from feed [OF this] show ?thesis using loop 3 by (simp add: loop_step_end)
  next
    case 4
    moreover have "TK_SEMI \<noteq> 0" by (simp add: token_codes)
    ultimately show ?thesis using loop assms(1) by (simp add: loop_step_end served_def)
  next
    case 5
    then have "stream lst [] = (TK_SEMI, []) # stream (int TK_SEMI) []" "stage (int TK_SEMI) < stage lst"
      by (simp_all add: stage_def token_codes)
    from feed [OF this] show ?thesis using loop 5 by (simp add: loop_step_end)
  qed
qed

lemma loop_at_token:
  assumes "ends z" "n < length z" "z ! 0 \<noteq> 0" "token_valid n t" "ends (drop n z)"
    and tok: "sqlite3GetToken (z @ w) = Some (n, t)" "tokens z = (t, take n z) # tokens (drop n z)"
    and again: "\<And>lst s log. served parse interrupts (mx - int n) (drop n z) w lst log
      (parser_loop (logged parse) interrupts (Suc k) (drop n z @ w) (mx - int n) lst (s, log))"
  shows "served parse interrupts mx z w lst log (parser_loop (logged parse) interrupts k (z @ w) mx lst (s, log))"
proof -
  note loop = parser_loop.simps [of "logged parse" interrupts k "z @ w" mx lst "(s, log)", unfolded tok(1)]
  note step = loop_step_token [OF assms(1-5), of "interrupts k" w lst]
  have smooth: "smooth parse interrupts mx z \<Longrightarrow> smooth parse interrupts (mx - int n) (drop n z) \<and> t \<noteq> TK_ILLEGAL"
    using smooth_step [OF _ tok(2) assms(2)] by blast
  have rest: "drop n (z @ w) = drop n z @ w" "take n (z @ w) = take n z" using assms(2) by simp_all
  consider "mx < int n" | "int n \<le> mx" "TK_WINDOW \<le> t" "interrupts k"
    | "int n \<le> mx" "\<not> (TK_WINDOW \<le> t \<and> interrupts k)" "t = TK_SPACE"
    | "int n \<le> mx" "\<not> (TK_WINDOW \<le> t \<and> interrupts k)" "t \<noteq> TK_SPACE" "t = TK_ILLEGAL"
    | "int n \<le> mx" "\<not> (TK_WINDOW \<le> t \<and> interrupts k)" "t \<noteq> TK_SPACE" "t \<noteq> TK_ILLEGAL" by linarith
  then show ?thesis
  proof cases
    case 1
    then have "\<not> smooth parse interrupts mx z" using assms(2) by (simp add: smooth_def)
    then show ?thesis using loop 1 by (simp add: served_stop SQLITE_TOOBIG_def SQLITE_OK_def)
  next
    case 2
    then have "\<not> smooth parse interrupts mx z" by (auto simp: smooth_def)
    moreover have "loop_step (interrupts k) (z @ w) n t lst = Some (Stop SQLITE_INTERRUPT)" using step 2(2,3) by simp
    ultimately show ?thesis using loop 2(1) by (simp add: served_stop SQLITE_INTERRUPT_def SQLITE_OK_def Let_def)
  next
    case 3
    have "stream lst (tokens z) = stream lst (tokens (drop n z))" using tok(2) 3(3) by simp
    moreover have step': "loop_step (interrupts k) (z @ w) n t lst = Some Pass" using step 3(2,3) by simp
    have "parser_loop (logged parse) interrupts k (z @ w) mx lst (s, log) =
        parser_loop (logged parse) interrupts (Suc k) (drop n z @ w) (mx - int n) lst (s, log)"
      using loop 3 step' rest by (simp add: Let_def)
    ultimately show ?thesis using served_pass [OF again] smooth by simp
  next
    case 4
    then have "\<not> smooth parse interrupts mx z" using smooth by blast
    moreover have "loop_step (interrupts k) (z @ w) n t lst = Some (Stop SQLITE_ERROR)" using step 4(2-4) by auto
    ultimately show ?thesis using loop 4(1) by (simp add: served_stop SQLITE_ERROR_def SQLITE_OK_def Let_def)
  next
    case 5
    let ?t = "resolve lst t (tokens (drop n z))"
    have stream: "stream lst (tokens z) = (?t, take n (z @ w)) # stream (int ?t) (tokens (drop n z))"
      using tok(2) 5(3,4) rest by simp
    have "served parse interrupts mx z w lst log
      (case logged parse (s, log) ?t (z @ w) n of (rc, s) \<Rightarrow>
         if rc \<noteq> SQLITE_OK then Some (rc, drop n z @ w, s)
         else parser_loop (logged parse) interrupts (Suc k) (drop n z @ w) (mx - int n) (int ?t) s)"
      by (rule served_feed [OF stream _ again]) (use smooth in blast)
    moreover have "loop_step (interrupts k) (z @ w) n t lst = Some (Feed ?t n)" using step 5(2-4) by simp
    ultimately show ?thesis using loop 5(1) unfolding rest(1) [symmetric] by (simp add: Let_def del: drop_append)
  qed
qed

lemma loop_served:
  "ends z \<Longrightarrow> served parse interrupts mx z w lst log (parser_loop (logged parse) interrupts k (z @ w) mx lst (s, log))"
proof (induction "3 * length z + stage lst" arbitrary: z lst k mx s log rule: less_induct)
  case less
  from less.prems show ?case
  proof (cases rule: token_ends)
    case 1
    then show ?thesis
      using loop_at_end [of w lst parse interrupts mx k log s] 1(2) [of w] less.hyps [of "[0]"] by simp
  next
    case (2 n t)
    have "3 * length (drop n z) + 3 \<le> 3 * length z" using 2(3,4) by simp
    then have "3 * length (drop n z) + stage l < 3 * length z + stage lst" for l
      using trans_le_add1 [of "stage l" 2] by (simp add: stage_def)
    then show ?thesis
      using less.hyps [OF _ 2(6)] by (intro loop_at_token [OF less.prems 2(4,1,5,6,2,7)]) simp
  qed
qed

section \<open>Property\<close>

text \<open>
  Property C10: the loop of \<open>sqlite3RunParser\<close> ends for every statement, every parser and every pattern of interrupts,
  and reads nothing behind the terminator. The parser gets the tokens of the statement without spaces, in order, the
  words \<open>WINDOW\<close>, \<open>OVER\<close> and \<open>FILTER\<close> resolved by the tokens around them, then a semicolon unless there was one, and
  the token 0: all of them when the result is \<open>SQLITE_OK\<close>, and otherwise (after an error, an interrupt or an illegal
  token, or when the parser stops with \<open>SQLITE_DONE\<close>) a first part of them. When the parser accepts every
  token, nobody interrupts, the statement is not longer than the limit and has no illegal token, the result is
  \<open>SQLITE_OK\<close> and the tail is empty.
\<close>
theorem parser_gets_all_tokens:
  assumes "0 \<notin> set text"
  shows "\<exists>rc tail s' fed more.
    parser_loop (logged parse) interrupts 0 (text @ 0 # rest) mxSqlLen (- 1) (s, []) = Some (rc, tail, s', fed) \<and>
    stream (- 1) (tokens (text @ [0])) = fed @ more \<and> (rc = SQLITE_OK \<longrightarrow> more = [] \<and> tail = 0 # rest) \<and>
    (smooth parse interrupts mxSqlLen (text @ [0]) \<longrightarrow> rc = SQLITE_OK)"
  using loop_served [OF ends_text [OF assms], of parse interrupts mxSqlLen rest "- 1" "[]" 0 s]
  unfolding served_def by simp

text \<open>The witness: a lone semicolon reaches a parser that accepts everything, followed by the token 0.\<close>
theorem parser_gets_all_tokens_witness:
  "\<exists>s'. parser_loop (logged (\<lambda>s t z n. (0, s + n))) (\<lambda>k. False) 0 [59, 0, 7] 1000 (- 1) (0, []) =
     Some (0, [0, 7], s', [(TK_SEMI, [59]), (0, [])])"
proof -
  have "sqlite3GetToken [59, 0] = Some (1, TK_SEMI)" "sqlite3GetToken [0] = Some (0, TK_ILLEGAL)"
    by (simp_all add: sqlite3GetToken_def at_def char_class_def aiClass_def class_codes)
  then have tok: "tokens [59, 0] = [(TK_SEMI, [59])]"
    by (simp add: tokens.simps [of "[59, 0]"] tokens.simps [of "[0]"])
  then have "stream (- 1) (tokens [59, 0]) = [(TK_SEMI, [59]), (0, [])]"
    by (simp add: resolve_def token_codes)
  moreover have "smooth (\<lambda>s t z n. (0, s + n)) (\<lambda>k. False) 1000 [59, 0]"
    by (simp add: smooth_def tok SQLITE_OK_def token_codes)
  ultimately show ?thesis
    using parser_gets_all_tokens [of "[59]" "\<lambda>s t z n. (0, s + n)" "\<lambda>k. False" "[7]" 1000 0] by (auto simp: SQLITE_OK_def)
qed

end
