(* ===== verification/Sqlite_Utf.thy ===== *)
theory Sqlite_Utf
  imports Prelude
begin

text \<open>
  The conversions between UTF-8 and UTF-16 (\<open>utf.c\<close> in \<open>sqlite3.c\<close>): the readers and writers of one character, and
  the loops of \<open>sqlite3VdbeMemTranslate\<close> that convert a string. A pointer into a string is the list of the bytes
  from there on. In a string that ends at \<open>zTerm\<close> the list ends there; a string that ends with a zero byte is the list of
  the bytes before it, and reading at its end gives that zero. A character is a \<open>u32\<close>.
\<close>

section \<open>Encodings\<close>

definition SQLITE_UTF8 :: nat where "SQLITE_UTF8 = 1"
definition SQLITE_UTF16LE :: nat where "SQLITE_UTF16LE = 2"
definition SQLITE_UTF16BE :: nat where "SQLITE_UTF16BE = 3"

lemmas encodings = SQLITE_UTF8_def SQLITE_UTF16LE_def SQLITE_UTF16BE_def

section \<open>UTF-8\<close>

definition sqlite3Utf8Trans1 :: "8 word list" where
  "sqlite3Utf8Trans1 =
    [0x00, 0x01, 0x02, 0x03, 0x04, 0x05, 0x06, 0x07,
     0x08, 0x09, 0x0a, 0x0b, 0x0c, 0x0d, 0x0e, 0x0f,
     0x10, 0x11, 0x12, 0x13, 0x14, 0x15, 0x16, 0x17,
     0x18, 0x19, 0x1a, 0x1b, 0x1c, 0x1d, 0x1e, 0x1f,
     0x00, 0x01, 0x02, 0x03, 0x04, 0x05, 0x06, 0x07,
     0x08, 0x09, 0x0a, 0x0b, 0x0c, 0x0d, 0x0e, 0x0f,
     0x00, 0x01, 0x02, 0x03, 0x04, 0x05, 0x06, 0x07,
     0x00, 0x01, 0x02, 0x03, 0x00, 0x01, 0x00, 0x00]"

definition WRITE_UTF8 :: "32 word \<Rightarrow> bytes" where
  "WRITE_UTF8 c =
    (if c < 0x80 then [ucast (c AND 0xFF)]
     else if c < 0x800 then
       [0xC0 + ucast (drop_bit 6 c AND 0x1F), 0x80 + ucast (c AND 0x3F)]
     else if c < 0x10000 then
       [0xE0 + ucast (drop_bit 12 c AND 0x0F), 0x80 + ucast (drop_bit 6 c AND 0x3F), 0x80 + ucast (c AND 0x3F)]
     else
       [0xF0 + ucast (drop_bit 18 c AND 0x07), 0x80 + ucast (drop_bit 12 c AND 0x3F),
        0x80 + ucast (drop_bit 6 c AND 0x3F), 0x80 + ucast (c AND 0x3F)])"

text \<open>The loop over the bytes \<open>10xxxxxx\<close> that continue a character.\<close>

fun continuation :: "bytes \<Rightarrow> 32 word \<Rightarrow> 32 word \<times> bytes" where
  "continuation [] c = (c, [])"
| "continuation (b # z) c =
    (if b AND 0xc0 = 0x80 then continuation z (push_bit 6 c + ucast (0x3f AND b)) else (c, b # z))"

definition replace_invalid :: "32 word \<Rightarrow> 32 word" where
  "replace_invalid c =
    (if c < 0x80 \<or> c AND 0xFFFFF800 = 0xD800 \<or> c AND 0xFFFFFFFE = 0xFFFE then 0xFFFD else c)"

fun READ_UTF8 :: "bytes \<Rightarrow> (32 word \<times> bytes) option" where
  "READ_UTF8 [] = None"
| "READ_UTF8 (b # z) =
    Some (if b \<ge> 0xc0
      then let (c, z') = continuation z (ucast (sqlite3Utf8Trans1 ! unat (b - 0xc0))) in (replace_invalid c, z')
      else (ucast b, z))"

fun sqlite3Utf8Read :: "bytes \<Rightarrow> 32 word \<times> bytes" where
  "sqlite3Utf8Read [] = (0, [])"
| "sqlite3Utf8Read (b # z) =
    (if b \<ge> 0xc0
      then let (c, z') = continuation z (ucast (sqlite3Utf8Trans1 ! unat (b - 0xc0))) in (replace_invalid c, z')
      else (ucast b, z))"

fun SQLITE_SKIP_UTF8 :: "bytes \<Rightarrow> bytes" where
  "SQLITE_SKIP_UTF8 [] = []"
| "SQLITE_SKIP_UTF8 (b # z) = (if b \<ge> 0xc0 then dropWhile (\<lambda>b. b AND 0xc0 = 0x80) z else z)"

lemma continuation_length: "continuation z c = (c', z') \<Longrightarrow> length z' \<le> length z"
  by (induction z c rule: continuation.induct) (auto split: if_splits)

lemma sqlite3Utf8Read_length:
  assumes "sqlite3Utf8Read z = (c, z')"
  shows "length z' \<le> length z" and "c \<noteq> 0 \<Longrightarrow> length z' < length z"
  using assms continuation_length by (cases z; fastforce split: if_splits prod.splits simp: less_Suc_eq_le)+

lemma SQLITE_SKIP_UTF8_length: "z \<noteq> [] \<Longrightarrow> length (SQLITE_SKIP_UTF8 z) < length z"
  by (cases z) (auto simp: less_Suc_eq_le length_dropWhile_le)

text \<open>The loop of \<open>sqlite3Utf8CharLen\<close>; the limit is the number of bytes up to \<open>zTerm\<close>, if there is one.\<close>

function char_len_loop :: "bytes \<Rightarrow> nat option \<Rightarrow> nat" where
  "char_len_loop z lim =
    (if z = [] \<or> hd z = 0 \<or> lim = Some 0 then 0
     else let z' = SQLITE_SKIP_UTF8 z in Suc (char_len_loop z' (map_option (\<lambda>n. n - (length z - length z')) lim)))"
  by auto
termination by (relation "measure (\<lambda>(z, _). length z)") (auto simp: SQLITE_SKIP_UTF8_length)

declare char_len_loop.simps [simp del]

definition sqlite3Utf8CharLen :: "bytes \<Rightarrow> int \<Rightarrow> nat" where
  "sqlite3Utf8CharLen zIn nByte = char_len_loop zIn (if nByte \<ge> 0 then Some (nat nByte) else None)"

section \<open>UTF-16\<close>

definition WRITE_UTF16LE :: "32 word \<Rightarrow> bytes" where
  "WRITE_UTF16LE c =
    (if c \<le> 0xFFFF then [ucast (c AND 0x00FF), ucast (drop_bit 8 c AND 0x00FF)]
     else
       [ucast ((drop_bit 10 c AND 0x003F) + (drop_bit 10 (c - 0x10000) AND 0x00C0)),
        ucast (0x00D8 + (drop_bit 18 (c - 0x10000) AND 0x03)),
        ucast (c AND 0x00FF),
        ucast (0x00DC + (drop_bit 8 c AND 0x03))])"

definition WRITE_UTF16BE :: "32 word \<Rightarrow> bytes" where
  "WRITE_UTF16BE c =
    (if c \<le> 0xFFFF then [ucast (drop_bit 8 c AND 0x00FF), ucast (c AND 0x00FF)]
     else
       [ucast (0x00D8 + (drop_bit 18 (c - 0x10000) AND 0x03)),
        ucast ((drop_bit 10 c AND 0x003F) + (drop_bit 10 (c - 0x10000) AND 0x00C0)),
        ucast (0x00DC + (drop_bit 8 c AND 0x03)),
        ucast (c AND 0x00FF)])"

text \<open>The test \<open>TERM\<close> of the two readers is \<open>zIn<zTerm\<close>, that bytes are left; reading past the end is \<^term>\<open>None\<close>.\<close>

definition surrogates :: "32 word \<Rightarrow> 32 word \<Rightarrow> 32 word" where
  "surrogates c c2 = (c2 AND 0x03FF) + push_bit 10 (c AND 0x003F) + push_bit 10 ((c AND 0x03C0) + 0x0040)"

fun READ_UTF16LE :: "bytes \<Rightarrow> (32 word \<times> bytes) option" where
  "READ_UTF16LE (b0 # b1 # z) =
    (let c = ucast b0 + push_bit 8 (ucast b1) in
     if 0xD800 \<le> c \<and> c < 0xE000 \<and> z \<noteq> []
     then (case z of
         b2 # b3 # z' \<Rightarrow> Some (surrogates c (ucast b2 + push_bit 8 (ucast b3)), z')
       | _ \<Rightarrow> None)
     else Some (c, z))"
| "READ_UTF16LE _ = None"

fun READ_UTF16BE :: "bytes \<Rightarrow> (32 word \<times> bytes) option" where
  "READ_UTF16BE (b0 # b1 # z) =
    (let c = push_bit 8 (ucast b0) + ucast b1 in
     if 0xD800 \<le> c \<and> c < 0xE000 \<and> z \<noteq> []
     then (case z of
         b2 # b3 # z' \<Rightarrow> Some (surrogates c (push_bit 8 (ucast b2) + ucast b3), z')
       | _ \<Rightarrow> None)
     else Some (c, z))"
| "READ_UTF16BE _ = None"

section \<open>Translation of a string\<close>

text \<open>The loop \<open>while( zIn<zTerm ){ READ(zIn, c); WRITE(z, c); }\<close>. A reader that would not advance would make it run
  forever; the loop then has the value \<^term>\<open>None\<close>, as when the reader leaves the string.\<close>

function translate_loop :: "(bytes \<Rightarrow> (32 word \<times> bytes) option) \<Rightarrow> (32 word \<Rightarrow> bytes) \<Rightarrow> bytes \<Rightarrow> bytes option" where
  "translate_loop rdc wrc z =
    (if z = [] then Some [] else
       case rdc z of
         None \<Rightarrow> None
       | Some (c, z') \<Rightarrow>
           if length z' < length z then map_option ((@) (wrc c)) (translate_loop rdc wrc z') else None)"
  by auto
termination by (relation "measure (\<lambda>(_, _, z). length z)") auto

declare translate_loop.simps [simp del]

fun swap_bytes :: "bytes \<Rightarrow> bytes" where
  "swap_bytes (b0 # b1 # z) = b1 # b0 # swap_bytes z"
| "swap_bytes z = z"

text \<open>The output buffer that \<open>sqlite3VdbeMemTranslate\<close> asks for, for an input of \<open>n\<close> bytes.\<close>

definition translate_len :: "nat \<Rightarrow> nat \<Rightarrow> nat" where
  "translate_len desiredEnc n = (if desiredEnc = SQLITE_UTF8 then 2 * (n - n mod 2) + 1 else 2 * n + 2)"

definition terminator :: "nat \<Rightarrow> bytes" where
  "terminator enc = (if enc = SQLITE_UTF8 then [0] else [0, 0])"

text \<open>The content that \<open>sqlite3VdbeMemTranslate\<close> gives to the value: the bytes of the string in the desired encoding,
  without the terminator.\<close>

definition translate_content :: "nat \<Rightarrow> nat \<Rightarrow> bytes \<Rightarrow> bytes option" where
  "translate_content enc desiredEnc z =
    (if enc \<noteq> SQLITE_UTF8 \<and> desiredEnc \<noteq> SQLITE_UTF8 then Some (swap_bytes z)
     else if enc = SQLITE_UTF8 then
       (if desiredEnc = SQLITE_UTF16LE then translate_loop READ_UTF8 WRITE_UTF16LE z
        else translate_loop READ_UTF8 WRITE_UTF16BE z)
     else (let z = take (length z - length z mod 2) z in
       if enc = SQLITE_UTF16LE then translate_loop READ_UTF16LE WRITE_UTF8 z
       else translate_loop READ_UTF16BE WRITE_UTF8 z))"

end
