(* ===== verification/Sqlite_Like.thy ===== *)
theory Sqlite_Like
  imports Sqlite_Utf Sqlite_Ctype
begin

text \<open>
  The operators LIKE and GLOB (\<open>func.c\<close> in \<open>sqlite3.c\<close>): the pattern matcher \<open>patternCompare\<close>, its two C interfaces
  and the SQL function \<open>likeFunc\<close>. Strings are zero-terminated, as in \<open>Sqlite_Utf\<close>.
\<close>

section \<open>Case\<close>

definition sqlite3Toupper :: "32 word \<Rightarrow> 32 word" where
  "sqlite3Toupper x = x AND NOT (ucast (sqlite3CtypeMap ! unat (ucast x :: 8 word) AND 0x20))"

definition sqlite3Tolower :: "32 word \<Rightarrow> 8 word" where
  "sqlite3Tolower x = sqlite3UpperToLower ! unat (ucast x :: 8 word)"

section \<open>Wildcards\<close>

record compareInfo =
  matchAll :: "8 word"
  matchOne :: "8 word"
  matchSet :: "8 word"
  noCase :: bool

definition globInfo :: compareInfo where
  "globInfo = \<lparr>matchAll = 0x2a, matchOne = 0x3f, matchSet = 0x5b, noCase = False\<rparr>"

definition likeInfoNorm :: compareInfo where
  "likeInfoNorm = \<lparr>matchAll = 0x25, matchOne = 0x5f, matchSet = 0, noCase = True\<rparr>"

definition likeInfoAlt :: compareInfo where
  "likeInfoAlt = \<lparr>matchAll = 0x25, matchOne = 0x5f, matchSet = 0, noCase = False\<rparr>"

definition SQLITE_MATCH :: nat where "SQLITE_MATCH = 0"
definition SQLITE_NOMATCH :: nat where "SQLITE_NOMATCH = 1"
definition SQLITE_NOWILDCARDMATCH :: nat where "SQLITE_NOWILDCARDMATCH = 2"

lemmas match_codes = SQLITE_MATCH_def SQLITE_NOMATCH_def SQLITE_NOWILDCARDMATCH_def

section \<open>Reading\<close>

text \<open>\<open>*z\<close>\<close>

fun byte_at :: "bytes \<Rightarrow> 8 word" where
  "byte_at [] = 0"
| "byte_at (b # z) = b"

definition Utf8Read :: "bytes \<Rightarrow> 32 word \<times> bytes" where
  "Utf8Read z = (if byte_at z < 0x80 then (ucast (byte_at z), tl z) else sqlite3Utf8Read z)"

lemma Utf8Read_eq: "Utf8Read z = sqlite3Utf8Read z"
  by (cases z) (auto simp: Utf8Read_def word_le_nat_alt word_less_nat_alt)

lemmas Utf8Read_length = sqlite3Utf8Read_length [folded Utf8Read_eq]

section \<open>The matcher\<close>

text \<open>The loop over the wildcards after a \<open>*\<close>; \<^term>\<open>None\<close> is its early return. It gives the first character that
  is not a wildcard, the pattern after it and the string. No wildcard is zero, so the loop ends at the end of the pattern.\<close>

function skip_wildcards :: "compareInfo \<Rightarrow> bytes \<Rightarrow> bytes \<Rightarrow> (32 word \<times> bytes \<times> bytes) option" where
  "skip_wildcards pInfo zPattern zString =
    (let (c, zPattern') = Utf8Read zPattern in
     if c \<noteq> 0 \<and> (c = ucast (matchAll pInfo) \<or> c = ucast (matchOne pInfo)) then
       if c = ucast (matchOne pInfo) then
         let (c2, zString') = sqlite3Utf8Read zString in
         if c2 = 0 then None else skip_wildcards pInfo zPattern' zString'
       else skip_wildcards pInfo zPattern' zString
     else Some (c, zPattern', zString))"
  by auto
termination by (relation "measure (\<lambda>(_, p, _). length p)") (auto dest: Utf8Read_length(2) [OF sym])

declare skip_wildcards.simps [simp del]

text \<open>The loop over the members of a set \<open>[...]\<close>, for the character \<open>c\<close> of the string. It gives whether \<open>c\<close> was seen
  and the pattern after the set; \<^term>\<open>None\<close> is a set that is not closed.\<close>

function set_members :: "32 word \<Rightarrow> 32 word \<Rightarrow> bytes \<Rightarrow> 32 word \<Rightarrow> bool \<Rightarrow> (bool \<times> bytes) option" where
  "set_members c c2 zPattern prior_c seen =
    (if c2 = 0 then None
     else if c2 = 0x5d then Some (seen, zPattern)
     else if c2 = 0x2d \<and> byte_at zPattern \<noteq> 0x5d \<and> byte_at zPattern \<noteq> 0 \<and> prior_c > 0 then
       let (hi, zPattern') = sqlite3Utf8Read zPattern;
           (c2', zPattern'') = sqlite3Utf8Read zPattern' in
       set_members c c2' zPattern'' 0 (seen \<or> prior_c \<le> c \<and> c \<le> hi)
     else
       let (c2', zPattern') = sqlite3Utf8Read zPattern in
       set_members c c2' zPattern' c2 (seen \<or> c = c2))"
  by auto
termination
proof (relation "measure (\<lambda>(_, c2, p, _, _). if c2 = 0 then 0 else Suc (length p))", goal_cases)
  case (2 c c2 p prior_c seen x hi p' y c2' p'')
  then show ?case
    using sqlite3Utf8Read_length [of p hi p'] sqlite3Utf8Read_length [of p' c2' p''] by auto
next
  case (3 c c2 p prior_c seen x c2' p')
  then show ?case using sqlite3Utf8Read_length [of p c2' p'] by auto
qed simp

declare set_members.simps [simp del]

text \<open>A set, from the byte after \<open>[\<close>.\<close>

definition set_matches :: "32 word \<Rightarrow> bytes \<Rightarrow> (bool \<times> bytes) option" where
  "set_matches c zPattern =
    (let (c2, zPattern) = sqlite3Utf8Read zPattern;
         invert = (c2 = 0x5e);
         (c2, zPattern) = (if invert then sqlite3Utf8Read zPattern else (c2, zPattern));
         first = (c2 = 0x5d);
         seen = (first \<and> c = 0x5d);
         (c2, zPattern) = (if first then sqlite3Utf8Read zPattern else (c2, zPattern)) in
     map_option (\<lambda>(seen, zPattern). (seen \<noteq> invert, zPattern)) (set_members c c2 zPattern 0 seen))"

text \<open>The comparison of one character at the end of the loop.\<close>

definition char_matches :: "compareInfo \<Rightarrow> 32 word \<Rightarrow> 32 word \<Rightarrow> bool \<Rightarrow> bool" where
  "char_matches pInfo c c2 escaped \<longleftrightarrow>
     c = c2 \<or>
     noCase pInfo \<and> sqlite3Tolower c = sqlite3Tolower c2 \<and> c < 0x80 \<and> c2 < 0x80 \<or>
     c = ucast (matchOne pInfo) \<and> \<not> escaped \<and> c2 \<noteq> 0"

definition zStop :: "compareInfo \<Rightarrow> 32 word \<Rightarrow> bytes" where
  "zStop pInfo c = (if noCase pInfo then [ucast (sqlite3Toupper c), sqlite3Tolower c] else [ucast c])"

text \<open>\<open>zString += strcspn(zString, stop)\<close>\<close>

definition skip_to :: "bytes \<Rightarrow> bytes \<Rightarrow> bytes" where
  "skip_to stop z = dropWhile (\<lambda>b. b \<noteq> 0 \<and> b \<notin> set stop) z"

lemma skip_wildcards_length:
  "skip_wildcards pInfo p s = Some (c, p', s') \<Longrightarrow> length p' \<le> length p \<and> (c \<noteq> 0 \<longrightarrow> length p' < length p)"
proof (induction pInfo p s rule: skip_wildcards.induct)
  case (1 pInfo p s)
  obtain c1 p1 where r: "Utf8Read p = (c1, p1)" by fastforce
  obtain c2 s1 where r2: "sqlite3Utf8Read s = (c2, s1)" by fastforce
  note len = Utf8Read_length [OF r]
  show ?case
    using "1.prems" "1.IH"(1) [OF r [symmetric] refl _ _ r2 [symmetric] refl] "1.IH"(2) [OF r [symmetric] refl] len
    by (simp add: r r2 skip_wildcards.simps [of pInfo p s] split: if_splits)
qed

lemma set_members_length: "set_members c c2 p prior_c seen = Some (m, p') \<Longrightarrow> length p' \<le> length p"
proof (induction c c2 p prior_c seen rule: set_members.induct)
  case (1 c c2 p prior_c seen)
  obtain c1 p1 where r: "sqlite3Utf8Read p = (c1, p1)" by fastforce
  obtain c3 p3 where r3: "sqlite3Utf8Read p1 = (c3, p3)" by fastforce
  note len = sqlite3Utf8Read_length(1) [OF r] sqlite3Utf8Read_length(1) [OF r3]
  show ?case
    using "1.prems" "1.IH"(1) [OF _ _ _ r [symmetric] refl r3 [symmetric] refl] "1.IH"(2) [OF _ _ _ r [symmetric] refl] len
    by (simp add: r r3 set_members.simps [of c c2 p prior_c seen] split: if_splits)
qed

lemma set_matches_length: "set_matches c p = Some (m, p') \<Longrightarrow> length p' \<le> length p"
  by (auto simp: set_matches_def Let_def split: prod.splits if_splits
      dest!: set_members_length sqlite3Utf8Read_length(1))

lemma read_shorter: "sqlite3Utf8Read z = (c, z') \<Longrightarrow> length z' \<le> length z \<and> (c \<noteq> 0 \<longrightarrow> length z' < length z)"
  using sqlite3Utf8Read_length by blast

lemma byte_at_nonempty: "byte_at z \<noteq> 0 \<Longrightarrow> z \<noteq> []"
  by auto

lemma skip_to_shorter: "byte_at (skip_to stop z) \<noteq> 0 \<Longrightarrow> length (skip_to stop z) - Suc 0 < length z"
proof -
  assume "byte_at (skip_to stop z) \<noteq> 0"
  then have "0 < length (skip_to stop z)" using byte_at_nonempty by blast
  moreover have "length (skip_to stop z) \<le> length z" by (simp add: skip_to_def length_dropWhile_le)
  ultimately show ?thesis by linarith
qed

text \<open>The main loop, which carries \<open>zEscaped\<close>, and the three searches after a \<open>*\<close>. In the search for a set the pattern
  starts again at its \<open>[\<close>, which is one byte.\<close>

function (sequential) pattern_loop :: "compareInfo \<Rightarrow> 32 word \<Rightarrow> bytes \<Rightarrow> bytes \<Rightarrow> bytes option \<Rightarrow> nat"
  and search_set :: "compareInfo \<Rightarrow> 32 word \<Rightarrow> bytes \<Rightarrow> bytes \<Rightarrow> nat"
  and search_ascii :: "compareInfo \<Rightarrow> 32 word \<Rightarrow> bytes \<Rightarrow> bytes \<Rightarrow> bytes \<Rightarrow> nat"
  and search_char :: "compareInfo \<Rightarrow> 32 word \<Rightarrow> 32 word \<Rightarrow> bytes \<Rightarrow> bytes \<Rightarrow> nat" where
  "pattern_loop pInfo matchOther zPattern zString zEscaped =
    (let (c, zPattern) = Utf8Read zPattern in
     if c = 0 then if byte_at zString = 0 then SQLITE_MATCH else SQLITE_NOMATCH
     else if c = ucast (matchAll pInfo) then
       (case skip_wildcards pInfo zPattern zString of
         None \<Rightarrow> SQLITE_NOWILDCARDMATCH
       | Some (c, zPattern, zString) \<Rightarrow>
           if c = 0 then SQLITE_MATCH
           else if c = matchOther \<and> matchSet pInfo \<noteq> 0 then search_set pInfo matchOther (ucast c # zPattern) zString
           else let (c, zPattern) = (if c = matchOther then sqlite3Utf8Read zPattern else (c, zPattern)) in
             if c = 0 then SQLITE_NOWILDCARDMATCH
             else if c \<le> 0x80 then search_ascii pInfo matchOther (zStop pInfo c) zPattern zString
             else search_char pInfo matchOther c zPattern zString)
     else if c = matchOther \<and> matchSet pInfo \<noteq> 0 then
       let (c, zString) = sqlite3Utf8Read zString in
       if c = 0 then SQLITE_NOMATCH
       else (case set_matches c zPattern of
           None \<Rightarrow> SQLITE_NOMATCH
         | Some (m, zPattern) \<Rightarrow> if m then pattern_loop pInfo matchOther zPattern zString zEscaped else SQLITE_NOMATCH)
     else
       let escape = (c = matchOther);
           (c, zPattern) = (if escape then sqlite3Utf8Read zPattern else (c, zPattern));
           zEscaped = (if escape then Some zPattern else zEscaped) in
       if c = 0 then SQLITE_NOMATCH
       else let (c2, zString) = Utf8Read zString in
         if char_matches pInfo c c2 (zEscaped = Some zPattern)
         then pattern_loop pInfo matchOther zPattern zString zEscaped else SQLITE_NOMATCH)"
| "search_set pInfo matchOther zPattern zString =
    (if byte_at zString = 0 then SQLITE_NOWILDCARDMATCH
     else let bMatch = pattern_loop pInfo matchOther zPattern zString None in
       if bMatch \<noteq> SQLITE_NOMATCH then bMatch
       else search_set pInfo matchOther zPattern (SQLITE_SKIP_UTF8 zString))"
| "search_ascii pInfo matchOther stop zPattern zString =
    (let zString = skip_to stop zString in
     if byte_at zString = 0 then SQLITE_NOWILDCARDMATCH
     else let bMatch = pattern_loop pInfo matchOther zPattern (tl zString) None in
       if bMatch \<noteq> SQLITE_NOMATCH then bMatch
       else search_ascii pInfo matchOther stop zPattern (tl zString))"
| "search_char pInfo matchOther c zPattern zString =
    (let (c2, zString') = Utf8Read zString in
     if c2 = 0 then SQLITE_NOWILDCARDMATCH
     else if c2 \<noteq> c then search_char pInfo matchOther c zPattern zString'
     else let bMatch = pattern_loop pInfo matchOther zPattern zString' None in
       if bMatch \<noteq> SQLITE_NOMATCH then bMatch
       else search_char pInfo matchOther c zPattern zString')"
  by pat_completeness auto
termination
proof (relation "inv_image (less_than <*lex*> less_than <*lex*> less_than)
    (case_sum (case_sum (\<lambda>(_, _, p, s, _). (length p, 0, length s)) (\<lambda>(_, _, p, s). (length p, 1, length s)))
      (case_sum (\<lambda>(_, _, _, p, s). (length p, 1, length s)) (\<lambda>(_, _, _, p, s). (length p, 1, length s))))", goal_cases)
  case 1
  show ?case by (intro wf_inv_image wf_lex_prod wf_less_than)
qed (auto simp: Utf8Read_eq skip_to_shorter SQLITE_SKIP_UTF8_length byte_at_nonempty split: if_splits
    dest!: read_shorter [OF sym] skip_wildcards_length set_matches_length)

declare pattern_loop.simps [simp del] search_set.simps [simp del] search_ascii.simps [simp del] search_char.simps [simp del]

definition patternCompare :: "bytes \<Rightarrow> bytes \<Rightarrow> compareInfo \<Rightarrow> 32 word \<Rightarrow> nat" where
  "patternCompare zPattern zString pInfo matchOther = pattern_loop pInfo matchOther zPattern zString None"

definition sqlite3_strglob :: "bytes \<Rightarrow> bytes \<Rightarrow> nat" where
  "sqlite3_strglob zGlobPattern zString = patternCompare zGlobPattern zString globInfo 0x5b"

definition sqlite3_strlike :: "bytes \<Rightarrow> bytes \<Rightarrow> 32 word \<Rightarrow> nat" where
  "sqlite3_strlike zPattern zStr esc = patternCompare zPattern zStr likeInfoNorm esc"

section \<open>The SQL function\<close>

text \<open>What \<open>likeFunc\<close> leaves in the context: NULL when it sets nothing, an integer, or an error message.\<close>

datatype like_result = Like_Null | Like_Int int | Like_Error string

text \<open>The arguments are the texts of the SQL values, \<^term>\<open>None\<close> for NULL, and the third is there when \<open>argc\<close> is 3;
  \<open>nPat\<close> is \<open>sqlite3_value_bytes\<close> of the pattern, and \<open>limit\<close> is the limit of the connection on its length.\<close>

definition like_operands :: "compareInfo \<Rightarrow> 32 word \<Rightarrow> bytes option \<Rightarrow> bytes option \<Rightarrow> like_result" where
  "like_operands pInfo escape zB zA =
    (case (zA, zB) of
       (Some zA, Some zB) \<Rightarrow> Like_Int (if patternCompare zB zA pInfo escape = SQLITE_MATCH then 1 else 0)
     | _ \<Rightarrow> Like_Null)"

definition likeFunc :: "compareInfo \<Rightarrow> nat \<Rightarrow> nat \<Rightarrow> bytes option \<Rightarrow> bytes option \<Rightarrow> bytes option option \<Rightarrow> like_result" where
  "likeFunc pInfo limit nPat argv0 argv1 argv2 =
    (if nPat > limit then Like_Error ''LIKE or GLOB pattern too complex''
     else case argv2 of
       Some None \<Rightarrow> Like_Null
     | Some (Some zEsc) \<Rightarrow>
         if sqlite3Utf8CharLen zEsc (-1) \<noteq> 1 then Like_Error ''ESCAPE expression must be a single character''
         else like_operands pInfo (fst (sqlite3Utf8Read zEsc)) argv0 argv1
     | None \<Rightarrow> like_operands pInfo (ucast (matchSet pInfo)) argv0 argv1)"

end
