(* ===== verification/Sqlite_Like_Spec.thy ===== *)
theory Sqlite_Like_Spec
  imports Sqlite_Like
begin

text \<open>
  What LIKE and GLOB mean: the pattern is parsed once into a list of elements, and the list is matched against the
  characters of the string by trying every split at a \<open>*\<close>. The matcher of \<open>Sqlite_Like\<close>, which searches for the first
  character after the \<open>*\<close> byte by byte and gives up at the first failure behind a second \<open>*\<close>, gives the same answers.
\<close>

section \<open>Reference matcher\<close>

function chars :: "bytes \<Rightarrow> 32 word list" where
  "chars z = (let (c, z') = sqlite3Utf8Read z in if c = 0 then [] else c # chars z')"
  by auto
termination by (relation "measure length") (auto dest: sqlite3Utf8Read_length(2) [OF sym])

declare chars.simps [simp del]

datatype element = Any | One | Lit "32 word" | Member bool "(32 word \<times> 32 word) list" | Malformed

text \<open>The members of a set as intervals, up to the \<open>]\<close> that closes it. A \<open>-\<close> after a character and before another that
  is not the closing one makes an interval of the two.\<close>

fun intervals :: "32 word \<Rightarrow> 32 word list \<Rightarrow> ((32 word \<times> 32 word) list \<times> 32 word list) option" where
  "intervals prior [] = None"
| "intervals prior (c # cs) =
    (if c = 0x5d then Some ([], cs)
     else if c = 0x2d \<and> prior > 0 \<and> cs \<noteq> [] \<and> hd cs \<noteq> 0x5d
     then map_option (apfst (Cons (prior, hd cs))) (intervals 0 (tl cs))
     else map_option (apfst (Cons (c, c))) (intervals c cs))"

definition parse_set :: "32 word list \<Rightarrow> (element \<times> 32 word list) option" where
  "parse_set cs =
    (let invert = (cs \<noteq> [] \<and> hd cs = 0x5e);
         cs = (if invert then tl cs else cs);
         bracket = (cs \<noteq> [] \<and> hd cs = 0x5d) in
     map_option (\<lambda>(is, cs). (Member invert ((if bracket then [(0x5d, 0x5d)] else []) @ is), cs))
       (intervals 0 (if bracket then tl cs else cs)))"

lemma intervals_length: "intervals prior cs = Some (is, cs') \<Longrightarrow> length cs' < length cs"
  by (induction prior cs arbitrary: "is" rule: intervals.induct) (fastforce split: if_splits)+

lemma parse_set_length: "parse_set cs = Some (e, cs') \<Longrightarrow> length cs' < length cs"
  by (auto simp: parse_set_def Let_def length_tl dest!: intervals_length split: if_splits)

function parse :: "compareInfo \<Rightarrow> 32 word \<Rightarrow> 32 word list \<Rightarrow> element list" where
  "parse info other [] = []"
| "parse info other (c # cs) =
    (if c = ucast (matchAll info) then Any # parse info other cs
     else if c = other \<and> matchSet info \<noteq> 0 then
       (case parse_set cs of None \<Rightarrow> [Malformed] | Some (e, cs') \<Rightarrow> e # parse info other cs')
     else if c = other then
       (case cs of [] \<Rightarrow> [Malformed] | d # cs' \<Rightarrow> Lit d # parse info other cs')
     else (if c = ucast (matchOne info) then One else Lit c) # parse info other cs)"
  by pat_completeness auto
termination by (relation "measure (\<lambda>(_, _, cs). length cs)") (auto dest: parse_set_length)

definition lower :: "32 word \<Rightarrow> 32 word" where
  "lower c = (if 0x41 \<le> c \<and> c \<le> 0x5a then c + 0x20 else c)"

fun fits :: "bool \<Rightarrow> element \<Rightarrow> 32 word \<Rightarrow> bool" where
  "fits nocase One c = True"
| "fits nocase (Lit d) c = (if nocase then lower c = lower d else c = d)"
| "fits nocase (Member invert is) c = ((\<exists>(lo, hi) \<in> set is. lo \<le> c \<and> c \<le> hi) \<noteq> invert)"
| "fits nocase _ c = False"

fun matches :: "bool \<Rightarrow> element list \<Rightarrow> 32 word list \<Rightarrow> bool" where
  "matches nocase [] cs = (cs = [])"
| "matches nocase (Any # ps) cs = (matches nocase ps cs \<or> (case cs of [] \<Rightarrow> False | _ # cs' \<Rightarrow> matches nocase (Any # ps) cs'))"
| "matches nocase (p # ps) cs = (case cs of [] \<Rightarrow> False | c # cs' \<Rightarrow> fits nocase p c \<and> matches nocase ps cs')"

section \<open>Characters\<close>

lemma ucast_byte_inj: "ucast b = (ucast b' :: 32 word) \<Longrightarrow> b = (b' :: 8 word)"
  by (metis unat_ucast_byte(1) word_unat_eq_iff)

lemma replace_invalid_ge: "0x80 \<le> replace_invalid c"
  by (auto simp: replace_invalid_def not_less)

lemma read_zero_iff: "fst (sqlite3Utf8Read z) = 0 \<longleftrightarrow> byte_at z = 0"
proof (cases z)
  case (Cons b z')
  have "replace_invalid c \<noteq> 0" for c using replace_invalid_ge [of c] by auto
  moreover have "ucast b = (0 :: 32 word) \<longleftrightarrow> b = 0" by (simp add: word_unat_eq_iff)
  ultimately show ?thesis using Cons by (auto split: prod.splits)
qed simp

lemma read_ascii: "byte_at z < 0x80 \<Longrightarrow> sqlite3Utf8Read z = (ucast (byte_at z), tl z)"
  using Utf8Read_eq [of z] by (simp add: Utf8Read_def)

lemma read_not_ascii: "0x80 \<le> byte_at z \<Longrightarrow> 0x80 \<le> fst (sqlite3Utf8Read z)"
  using replace_invalid_ge by (cases z) (auto split: prod.splits simp: word_le_nat_alt)

lemma chars_Nil_iff: "chars z = [] \<longleftrightarrow> byte_at z = 0"
  using read_zero_iff [of z] by (auto simp: chars.simps [of z] split: prod.splits)

lemma chars_read: "sqlite3Utf8Read z = (c, z') \<Longrightarrow> c \<noteq> 0 \<Longrightarrow> chars z = c # chars z'"
  by (simp add: chars.simps [of z])

lemma chars_hd_ascii: "0 < b \<Longrightarrow> b < 0x80 \<Longrightarrow> byte_at z = b \<longleftrightarrow> chars z \<noteq> [] \<and> hd (chars z) = ucast b"
proof (cases "byte_at z < 0x80")
  case True
  then have "chars z = (if byte_at z = 0 then [] else ucast (byte_at z) # chars (tl z))"
    using chars_read [of z] chars_Nil_iff [of z] read_zero_iff [of z] by (simp add: read_ascii)
  moreover assume "0 < b"
  ultimately show ?thesis by (auto dest: ucast_byte_inj)
next
  case False
  then have "chars z \<noteq> [] \<and> 0x80 \<le> hd (chars z)"
    using chars_read [of z] read_zero_iff [of z] read_not_ascii [of z] by (cases "sqlite3Utf8Read z") auto
  moreover assume "b < 0x80"
  ultimately show ?thesis using False by (auto simp: word_le_nat_alt word_less_nat_alt)
qed

lemma continuation_rest: "snd (continuation z c) = dropWhile (\<lambda>b. b AND 0xc0 = 0x80) z"
  by (induction z c rule: continuation.induct) auto

lemma skip_is_read: "SQLITE_SKIP_UTF8 z = snd (sqlite3Utf8Read z)"
  by (cases z) (auto split: prod.splits, metis continuation_rest snd_conv)

lemma chars_skip: "byte_at z \<noteq> 0 \<Longrightarrow> chars (SQLITE_SKIP_UTF8 z) = tl (chars z)"
  using read_zero_iff [of z] chars_read [of z] by (cases "sqlite3Utf8Read z") (auto simp: skip_is_read)

section \<open>Wildcards\<close>

lemma matches_any_iff: "matches nocase (Any # ps) cs \<longleftrightarrow> (\<exists>k. matches nocase ps (drop k cs))"
proof (induction cs)
  case (Cons c cs)
  then show ?case by simp (metis drop0 drop_Suc_Cons not0_implies_Suc)
qed simp

lemma matches_any_drop: "matches nocase (Any # ps) (drop k cs) \<Longrightarrow> matches nocase (Any # ps) cs"
  by (auto simp only: matches_any_iff drop_drop)

lemma matches_any_any: "matches nocase (Any # Any # ps) cs = matches nocase (Any # ps) cs"
  by (auto simp only: matches_any_iff drop_drop) (metis add_0)

lemma matches_any_one: "matches nocase (Any # One # ps) cs \<longleftrightarrow> cs \<noteq> [] \<and> matches nocase (Any # ps) (tl cs)"
  by (induction cs) (auto split: list.splits)

lemma matches_any_skip: "\<not> fits nocase p c \<Longrightarrow> p \<noteq> Any \<Longrightarrow> matches nocase (Any # p # ps) (c # cs) = matches nocase (Any # p # ps) cs"
  by (cases p) auto

lemma matches_cons: "p \<noteq> Any \<Longrightarrow> matches nocase (p # ps) (c # cs) \<longleftrightarrow> fits nocase p c \<and> matches nocase ps cs"
  by (cases p) auto

lemma matches_cons_Nil: "p \<noteq> Any \<Longrightarrow> \<not> matches nocase (p # ps) []"
  by (cases p) auto

section \<open>Case\<close>

lemma ascii_table:
  assumes "list_all (\<lambda>n. P (word_of_nat n)) [0..<128]" and "c < (0x80 :: 32 word)"
  shows "P c"
proof -
  have "unat c < 128" using assms(2) by (simp add: word_less_nat_alt)
  moreover have "\<forall>n<128. P (word_of_nat n)"
    using assms(1) by (simp add: list_all_iff del: upt_rec_numeral)
  ultimately have "P (word_of_nat (unat c))" by blast
  then show ?thesis by simp
qed

lemma sqlite3Tolower_eq: "c < 0x80 \<Longrightarrow> ucast (sqlite3Tolower c) = lower c"
  by (rule ascii_table [where P = "\<lambda>c. ucast (sqlite3Tolower c) = lower c"]) code_simp

lemma sqlite3Toupper_eq: "c < 0x80 \<Longrightarrow> sqlite3Toupper c = (if 0x61 \<le> c \<and> c \<le> 0x7a then c - 0x20 else c)"
  by (rule ascii_table [where P = "\<lambda>c. sqlite3Toupper c = (if 0x61 \<le> c \<and> c \<le> 0x7a then c - 0x20 else c)"]) code_simp

lemma unat_lower: "unat (lower c) = (if 65 \<le> unat c \<and> unat c \<le> 90 then unat c + 32 else unat c)"
  by (auto simp: lower_def word_le_nat_alt unat_word_ariths)

lemma lower_ascii: "lower c < 0x80 \<longleftrightarrow> c < 0x80"
  by (simp add: word_less_nat_alt unat_lower)

lemma lower_eq_iff:
  assumes "c < 0x80"
  shows "lower d = lower c \<longleftrightarrow> d = sqlite3Toupper c \<or> d = ucast (sqlite3Tolower c)"
proof -
  have "unat (sqlite3Toupper c) = (if 97 \<le> unat c \<and> unat c \<le> 122 then unat c - 32 else unat c)"
    using assms by (auto simp: sqlite3Toupper_eq word_le_nat_alt unat_sub)
  then show ?thesis
    unfolding sqlite3Tolower_eq [OF assms] word_unat_eq_iff unat_lower by auto
qed

section \<open>Steps of the matcher\<close>

text \<open>The wildcards of LIKE or GLOB, with an escape character that is not one of them.\<close>

definition wildcards_ok :: "compareInfo \<Rightarrow> 32 word \<Rightarrow> bool" where
  "wildcards_ok info other \<longleftrightarrow>
     info \<in> {globInfo, likeInfoNorm, likeInfoAlt} \<and>
     (matchSet info \<noteq> 0 \<longrightarrow> other = ucast (matchSet info)) \<and>
     other \<noteq> ucast (matchAll info) \<and> other \<noteq> ucast (matchOne info)"

definition read_chars :: "32 word \<Rightarrow> bytes \<Rightarrow> 32 word list" where
  "read_chars c z = (if c = 0 then [] else c # chars z)"

lemma chars_eq_read: "sqlite3Utf8Read z = (c, z') \<Longrightarrow> chars z = read_chars c z'"
  by (simp add: read_chars_def chars.simps [of z])

lemma wildcards_ok_zero: "wildcards_ok info other \<Longrightarrow> ucast (matchAll info) \<noteq> (0 :: 32 word) \<and> ucast (matchOne info) \<noteq> (0 :: 32 word)
    \<and> matchAll info \<noteq> matchOne info"
  by (auto simp: wildcards_ok_def globInfo_def likeInfoNorm_def likeInfoAlt_def)

lemma skip_wildcards_rest:
  "skip_wildcards info p s = Some (c, p', s') \<Longrightarrow> wildcards_ok info other \<Longrightarrow>
   c \<noteq> ucast (matchAll info) \<and> c \<noteq> ucast (matchOne info) \<and> set (read_chars c p') \<subseteq> set (chars p)"
proof (induction info p s rule: skip_wildcards.induct)
  case (1 info p s)
  obtain c1 p1 where r: "Utf8Read p = (c1, p1)" by fastforce
  obtain c2 s1 where r2: "sqlite3Utf8Read s = (c2, s1)" by fastforce
  have p: "chars p = read_chars c1 p1" using chars_eq_read r by (simp add: Utf8Read_eq)
  have IH1: "c1 \<noteq> 0 \<Longrightarrow> c1 = ucast (matchOne info) \<Longrightarrow> c2 \<noteq> 0 \<Longrightarrow> skip_wildcards info p1 s1 = Some (c, p', s') \<Longrightarrow> ?case"
    using "1.IH"(1) [OF r [symmetric] refl _ _ r2 [symmetric] refl] "1.prems"(2) p by (auto simp: read_chars_def)
  have IH2: "c1 \<noteq> 0 \<Longrightarrow> c1 = ucast (matchAll info) \<Longrightarrow> c1 \<noteq> ucast (matchOne info)
      \<Longrightarrow> skip_wildcards info p1 s = Some (c, p', s') \<Longrightarrow> ?case"
    using "1.IH"(2) [OF r [symmetric] refl] "1.prems"(2) p by (auto simp: read_chars_def)
  show ?case
    using "1.prems" IH1 IH2 wildcards_ok_zero [OF "1.prems"(2)]
    by (auto simp add: r r2 p skip_wildcards.simps [of info p s] split: if_splits)
qed

lemma skip_wildcards_correct:
  "wildcards_ok info other \<Longrightarrow> matches nc (Any # parse info other (chars p)) (chars s) =
    (case skip_wildcards info p s of None \<Rightarrow> False
     | Some (c, p', s') \<Rightarrow> matches nc (Any # parse info other (read_chars c p')) (chars s'))"
proof (induction info p s rule: skip_wildcards.induct)
  case (1 info p s)
  obtain c1 p1 where r: "Utf8Read p = (c1, p1)" by fastforce
  obtain c2 s1 where r2: "sqlite3Utf8Read s = (c2, s1)" by fastforce
  have p: "chars p = read_chars c1 p1" using chars_eq_read r by (simp add: Utf8Read_eq)
  have s: "chars s = read_chars c2 s1" using chars_eq_read r2 by simp
  note ok = "1.prems" wildcards_ok_zero [OF "1.prems"]
  consider (one) "c1 \<noteq> 0" "c1 = ucast (matchOne info)" | (all) "c1 \<noteq> 0" "c1 = ucast (matchAll info)" "c1 \<noteq> ucast (matchOne info)"
    | (other) "c1 = 0 \<or> c1 \<noteq> ucast (matchAll info) \<and> c1 \<noteq> ucast (matchOne info)" by blast
  then show ?case
  proof cases
    case one
    have "parse info other (chars p) = One # parse info other (chars p1)"
      using one ok by (auto simp: p read_chars_def wildcards_ok_def dest: ucast_byte_inj)
    then show ?thesis
      using "1.IH"(1) [OF r [symmetric] refl _ _ r2 [symmetric] refl] one ok
      by (auto simp add: matches_any_one s read_chars_def skip_wildcards.simps [of info p s] r r2 simp del: matches.simps)
  next
    case all
    have "parse info other (chars p) = Any # parse info other (chars p1)" using all by (simp add: p read_chars_def)
    then show ?thesis
      using "1.IH"(2) [OF r [symmetric] refl] all ok
      by (simp add: matches_any_any skip_wildcards.simps [of info p s] r del: matches.simps)
  next
    case other
    then show ?thesis by (auto simp add: skip_wildcards.simps [of info p s] r p simp del: matches.simps)
  qed
qed

text \<open>Sets\<close>

definition within :: "(32 word \<times> 32 word) list \<Rightarrow> 32 word \<Rightarrow> bool" where
  "within is c \<longleftrightarrow> (\<exists>(lo, hi) \<in> set is. lo \<le> c \<and> c \<le> hi)"

lemma within_simps [simp]: "within [] c = False" "within ((lo, hi) # is) c = (lo \<le> c \<and> c \<le> hi \<or> within is c)"
  by (simp_all add: within_def)

lemma set_members_correct:
  "case set_members c c2 p prior seen of
     None \<Rightarrow> intervals prior (read_chars c2 p) = None
   | Some (m, p') \<Rightarrow> \<exists>is. intervals prior (read_chars c2 p) = Some (is, chars p') \<and> m = (seen \<or> within is c)"
proof (induction c c2 p prior seen rule: set_members.induct)
  case (1 c c2 p prior seen)
  obtain c1 p1 where r: "sqlite3Utf8Read p = (c1, p1)" by fastforce
  obtain c3 p3 where r3: "sqlite3Utf8Read p1 = (c3, p3)" by fastforce
  have p: "chars p = read_chars c1 p1" "chars p1 = read_chars c3 p3" using chars_eq_read r r3 by auto
  have h: "byte_at p = 0x5d \<longleftrightarrow> chars p \<noteq> [] \<and> hd (chars p) = 0x5d" using chars_hd_ascii [of "0x5d" p] by simp
  consider (stop) "c2 = 0 \<or> c2 = 0x5d"
    | (range) "c2 = 0x2d" "byte_at p \<noteq> 0x5d \<and> byte_at p \<noteq> 0 \<and> prior > 0"
    | (single) "c2 \<noteq> 0" "c2 \<noteq> 0x5d" "\<not> (c2 = 0x2d \<and> byte_at p \<noteq> 0x5d \<and> byte_at p \<noteq> 0 \<and> prior > 0)" by auto
  then show ?case
  proof cases
    case stop
    then show ?thesis by (auto simp: set_members.simps [of c c2] read_chars_def)
  next
    case range
    have "intervals prior (read_chars c2 p) = map_option (apfst (Cons (prior, c1))) (intervals 0 (read_chars c3 p3))"
      using range h chars_Nil_iff [of p] by (auto simp: read_chars_def p)
    moreover have "set_members c c2 p prior seen = set_members c c3 p3 0 (seen \<or> prior \<le> c \<and> c \<le> c1)"
      using range by (subst set_members.simps) (simp add: r r3)
    ultimately show ?thesis
      using "1.IH"(1) [OF _ _ _ r [symmetric] refl r3 [symmetric] refl] range by (auto split: option.splits)
  next
    case single
    have "intervals prior (read_chars c2 p) = map_option (apfst (Cons (c2, c2))) (intervals c2 (chars p))"
      using single h chars_Nil_iff [of p] by (auto simp: read_chars_def)
    moreover have "set_members c c2 p prior seen = set_members c c1 p1 c2 (seen \<or> c = c2)"
      using single by (subst set_members.simps) (auto simp: r)
    ultimately show ?thesis
      using "1.IH"(2) [OF _ _ _ r [symmetric] refl] single p(1) by (auto split: option.splits)
  qed
qed

lemma read_chars_hd: "d \<noteq> 0 \<Longrightarrow> (read_chars c p \<noteq> [] \<and> hd (read_chars c p) = d) = (c = d)"
  and read_chars_tl: "c \<noteq> 0 \<Longrightarrow> tl (read_chars c p) = chars p"
  by (auto simp: read_chars_def)

lemma set_matches_correct:
  "case set_matches c p of
     None \<Rightarrow> parse_set (chars p) = None
   | Some (m, p') \<Rightarrow> \<exists>e. parse_set (chars p) = Some (e, chars p') \<and> m = fits nc e c \<and> e \<noteq> Any"
proof -
  obtain c1 p1 where r1: "sqlite3Utf8Read p = (c1, p1)" by fastforce
  define inv where "inv = (c1 = 0x5e)"
  obtain c2 p2 where r2: "(if inv then sqlite3Utf8Read p1 else (c1, p1)) = (c2, p2)" by fastforce
  define bracket where "bracket = (c2 = 0x5d)"
  obtain c3 p3 where r3: "(if bracket then sqlite3Utf8Read p2 else (c2, p2)) = (c3, p3)" by fastforce
  define seen where "seen = (bracket \<and> c = 0x5d)"
  have sm: "set_matches c p = map_option (\<lambda>(m, p). (m \<noteq> inv, p)) (set_members c c3 p3 0 seen)"
    using r2 r3 unfolding set_matches_def seen_def by (simp add: r1 flip: inv_def) (simp flip: bracket_def)
  have c1: "chars p = read_chars c1 p1" using chars_eq_read r1 by blast
  have c2: "(if inv then tl (chars p) else chars p) = read_chars c2 p2"
    using r2 chars_eq_read [of p1] c1 by (auto simp: inv_def read_chars_tl split: if_splits)
  have c3: "(if bracket then tl (read_chars c2 p2) else read_chars c2 p2) = read_chars c3 p3"
    using r3 chars_eq_read [of p2] by (auto simp: bracket_def read_chars_tl split: if_splits)
  have i: "(chars p \<noteq> [] \<and> hd (chars p) = 0x5e) = inv" unfolding c1 inv_def by (rule read_chars_hd) simp
  have b: "(read_chars c2 p2 \<noteq> [] \<and> hd (read_chars c2 p2) = 0x5d) = bracket" unfolding bracket_def by (rule read_chars_hd) simp
  define pre :: "(32 word \<times> 32 word) list" where "pre = (if bracket then [(0x5d, 0x5d)] else [])"
  have ps: "parse_set (chars p) = map_option (\<lambda>(is, cs). (Member inv (pre @ is), cs)) (intervals 0 (read_chars c3 p3))"
    unfolding parse_set_def Let_def i c2 b c3 pre_def ..
  have m: "fits nc (Member inv (pre @ is)) c \<longleftrightarrow> (seen \<or> within is c) \<noteq> inv" for "is"
    by (auto simp: within_def seen_def pre_def)
  show ?thesis
    using set_members_correct [where c = c and prior = 0 and ?c2.0 = c3 and p = p3 and seen = seen] unfolding sm ps
    by (auto split: option.splits simp: m simp del: fits.simps)
qed

text \<open>Characters\<close>

lemma lower_high: "\<not> c < 0x80 \<Longrightarrow> lower c = c"
  by (auto simp: lower_def word_less_nat_alt word_le_nat_alt)

lemma fits_lit: "fits (noCase info) (Lit c) c2 \<longleftrightarrow>
    c = c2 \<or> noCase info \<and> sqlite3Tolower c = sqlite3Tolower c2 \<and> c < 0x80 \<and> c2 < 0x80"
proof -
  have "lower c2 = lower c \<longleftrightarrow> c = c2 \<or> sqlite3Tolower c = sqlite3Tolower c2 \<and> c < 0x80 \<and> c2 < 0x80"
  proof (cases "c < 0x80 \<and> c2 < 0x80")
    case True
    then show ?thesis by (metis sqlite3Tolower_eq ucast_byte_inj)
  next
    case False
    then show ?thesis using lower_ascii [of c] lower_ascii [of c2] lower_high [of c] lower_high [of c2] by metis
  qed
  then show ?thesis by auto
qed

lemma fits_lit_zero: "c \<noteq> 0 \<Longrightarrow> \<not> fits nc (Lit c) 0"
  by (auto simp: lower_def word_le_nat_alt word_unat_eq_iff unat_word_ariths split: if_splits)

lemma char_matches_correct:
  assumes "c \<noteq> 0"
  shows "char_matches info c c2 False \<longleftrightarrow> c2 \<noteq> 0 \<and> fits (noCase info) (if c = ucast (matchOne info) then One else Lit c) c2"
    and "char_matches info c c2 True \<longleftrightarrow> c2 \<noteq> 0 \<and> fits (noCase info) (Lit c) c2"
  using fits_lit [of info c c2] fits_lit_zero [OF assms, of "noCase info"] assms
  by (cases "c2 = 0"; simp add: char_matches_def del: fits.simps(2); blast?)+

lemma zStop_correct:
  assumes "c \<noteq> 0" "c < 0x80"
  shows "b \<in> set (zStop info c) \<longleftrightarrow> b \<noteq> 0 \<and> b < 0x80 \<and> fits (noCase info) (Lit c) (ucast b)"
proof -
  have b: "ucast b < (0x80 :: 32 word) \<longleftrightarrow> b < 0x80" by (simp add: word_less_nat_alt)
  have c: "(ucast (ucast c :: 8 word) :: 32 word) = c" if "c < 0x80" for c :: "32 word"
    using that by (simp add: word_unat_eq_iff word_less_nat_alt unsigned_ucast_eq unsigned_take_bit_eq take_bit_nat_eq_self)
  have up: "sqlite3Toupper c < 0x80"
    using assms(2) by (auto simp: sqlite3Toupper_eq word_less_nat_alt word_le_nat_alt unat_sub)
  have z: "b \<noteq> 0 \<or> \<not> fits (noCase info) (Lit c) (ucast b)"
    using fits_lit_zero [OF assms(1), of "noCase info"] by (auto simp del: fits.simps)
  show ?thesis
  proof (cases "noCase info")
    case True
    have "ucast b = sqlite3Toupper c \<or> ucast b = (ucast (sqlite3Tolower c) :: 32 word) \<longleftrightarrow> lower (ucast b) = lower c"
      using lower_eq_iff [OF assms(2)] by blast
    moreover have "ucast b = sqlite3Toupper c \<longleftrightarrow> b = ucast (sqlite3Toupper c)"
      using c [OF up] ucast_byte_inj by metis
    moreover have "lower (ucast b) = lower c \<Longrightarrow> b < 0x80" using lower_ascii assms(2) b by metis
    ultimately show ?thesis using True z ucast_byte_inj by (auto simp: zStop_def)
  next
    case False
    moreover have "b = ucast c \<longleftrightarrow> ucast b = c" using c [OF assms(2)] ucast_byte_inj by metis
    ultimately show ?thesis using z b assms(2) by (auto simp: zStop_def)
  qed
qed

section \<open>Searches\<close>

lemma continuation_high: "b AND 0xc0 = (0x80 :: 8 word) \<Longrightarrow> 0x80 \<le> b"
  by (metis word_and_le2)

lemma dropWhile_dropWhile: "(\<And>x. Q x \<Longrightarrow> P x) \<Longrightarrow> dropWhile P (dropWhile Q xs) = dropWhile P xs"
  by (induction xs) auto

lemma skip_to_next:
  assumes "\<not> (byte_at s = 0 \<or> byte_at s \<in> set (zStop info c))" "c \<noteq> 0" "c < 0x80"
  shows "skip_to (zStop info c) s = skip_to (zStop info c) (SQLITE_SKIP_UTF8 s)"
proof (cases s)
  case (Cons b z)
  have "dropWhile (\<lambda>b. b \<noteq> 0 \<and> b \<notin> set (zStop info c)) (dropWhile (\<lambda>b. b AND 0xc0 = 0x80) z)
      = dropWhile (\<lambda>b. b \<noteq> 0 \<and> b \<notin> set (zStop info c)) z"
    by (rule dropWhile_dropWhile) (use zStop_correct [OF assms(2,3)] continuation_high in \<open>force simp: not_less\<close>)
  then show ?thesis using assms(1) Cons by (simp add: skip_to_def)
qed simp

lemma skip_to_correct:
  assumes "c \<noteq> 0" "c < 0x80"
  shows "matches (noCase info) (Any # Lit c # ps) (chars s) =
    matches (noCase info) (Any # Lit c # ps) (chars (skip_to (zStop info c) s))"
proof (induction s rule: chars.induct)
  case (1 s)
  obtain c1 s1 where r: "sqlite3Utf8Read s = (c1, s1)" by fastforce
  show ?case
  proof (cases "byte_at s = 0 \<or> byte_at s \<in> set (zStop info c)")
    case True
    then have "skip_to (zStop info c) s = s" by (cases s) (auto simp: skip_to_def)
    then show ?thesis by simp
  next
    case False
    then have "c1 \<noteq> 0" using read_zero_iff [of s] r by auto
    have "skip_to (zStop info c) s = skip_to (zStop info c) (SQLITE_SKIP_UTF8 s)"
      using False assms by (rule skip_to_next)
    then have "skip_to (zStop info c) s = skip_to (zStop info c) s1" by (simp add: skip_is_read r)
    moreover have "\<not> fits (noCase info) (Lit c) c1"
    proof (cases "byte_at s < 0x80")
      case True
      then show ?thesis using False zStop_correct [OF assms] r by (auto simp: read_ascii simp del: fits.simps)
    next
      case F: False
      then have "0x80 \<le> c1" using read_not_ascii [of s] r by simp
      then show ?thesis using assms(2) by (auto simp: fits_lit simp del: fits.simps)
    qed
    ultimately show ?thesis
      using 1 [OF r [symmetric] refl \<open>c1 \<noteq> 0\<close>] chars_read [OF r \<open>c1 \<noteq> 0\<close>] by (simp add: matches_any_skip del: matches.simps fits.simps)
  qed
qed

lemma skip_to_found:
  assumes "c \<noteq> 0" "c < 0x80" and "byte_at (skip_to (zStop info c) s) \<noteq> 0"
  shows "\<exists>c1. chars (skip_to (zStop info c) s) = c1 # chars (tl (skip_to (zStop info c) s)) \<and> fits (noCase info) (Lit c) c1"
proof -
  let ?s = "skip_to (zStop info c) s"
  have "?s \<noteq> []" using assms(3) byte_at_nonempty by blast
  then have "\<not> (hd ?s \<noteq> 0 \<and> hd ?s \<notin> set (zStop info c))" unfolding skip_to_def by (rule hd_dropWhile)
  then have "byte_at ?s \<in> set (zStop info c)" using assms(3) \<open>?s \<noteq> []\<close> by (cases ?s) auto
  then have b: "byte_at ?s < 0x80" "fits (noCase info) (Lit c) (ucast (byte_at ?s))"
    using zStop_correct [OF assms(1,2)] by (auto simp del: fits.simps)
  then have "chars ?s = ucast (byte_at ?s) # chars (tl ?s)"
    using chars_read [OF read_ascii [OF b(1)]] read_zero_iff [of ?s] assms(3) by (simp add: read_ascii)
  then show ?thesis using b(2) by blast
qed

section \<open>The matcher\<close>

definition verdict :: "nat \<Rightarrow> bool \<Rightarrow> element list \<Rightarrow> 32 word list \<Rightarrow> bool" where
  "verdict r nc ps cs \<longleftrightarrow>
     r = SQLITE_MATCH \<and> matches nc ps cs \<or>
     r = SQLITE_NOMATCH \<and> \<not> matches nc ps cs \<or>
     r = SQLITE_NOWILDCARDMATCH \<and> \<not> matches nc (Any # ps) cs"

definition searched :: "nat \<Rightarrow> bool \<Rightarrow> element list \<Rightarrow> 32 word list \<Rightarrow> bool" where
  "searched r nc ps cs \<longleftrightarrow>
     r = SQLITE_MATCH \<and> matches nc (Any # ps) cs \<or> r = SQLITE_NOWILDCARDMATCH \<and> \<not> matches nc (Any # ps) cs"

lemma searched_verdict: "searched r nc ps cs \<Longrightarrow> verdict r nc (Any # ps) cs"
  by (auto simp: searched_def verdict_def matches_any_any simp del: matches.simps)

lemma verdict_cons:
  "verdict r nc ps cs \<Longrightarrow> fits nc p c \<Longrightarrow> p \<noteq> Any \<Longrightarrow> verdict r nc (p # ps) (c # cs)"
proof -
  assume v: "verdict r nc ps cs" and p: "fits nc p c" "p \<noteq> Any"
  have "matches nc (Any # ps) cs" if m: "matches nc (Any # p # ps) (c # cs)"
  proof -
    obtain k where k: "matches nc (p # ps) (drop k (c # cs))" using m matches_any_iff by blast
    then obtain d cs' where d: "drop k (c # cs) = d # cs'" using matches_cons_Nil [OF p(2)] by (metis neq_Nil_conv)
    then have "matches nc ps cs'" using k matches_cons [OF p(2)] by simp
    moreover have "cs' = drop k cs" using d by (metis drop_Suc drop_tl list.sel(3) tl_drop)
    ultimately show ?thesis using matches_any_iff by blast
  qed
  then show ?thesis using v p by (auto simp: verdict_def matches_cons simp del: matches.simps)
qed

lemma searched_here:
  "verdict r nc ps (c # cs) \<Longrightarrow> (r = SQLITE_NOMATCH \<Longrightarrow> searched r' nc ps cs) \<Longrightarrow>
   searched (if r \<noteq> SQLITE_NOMATCH then r else r') nc ps (c # cs)"
  by (auto simp: verdict_def searched_def match_codes)

lemma searched_after:
  assumes "verdict r nc ps cs" "fits nc p c" "p \<noteq> Any" and "r = SQLITE_NOMATCH \<Longrightarrow> searched r' nc (p # ps) cs"
  shows "searched (if r \<noteq> SQLITE_NOMATCH then r else r') nc (p # ps) (c # cs)"
  using verdict_cons [OF assms(1-3)] assms(4) by (rule searched_here)

lemma searched_rest:
  "searched r nc ps' cs' \<Longrightarrow> matches nc (Any # ps) cs = matches nc (Any # ps') cs' \<Longrightarrow> verdict r nc (Any # ps) cs"
  using searched_verdict [of r nc ps cs] by (simp add: searched_def)

lemma searched_end: "searched SQLITE_MATCH nc [] cs"
  by (induction cs) (auto simp: searched_def)

lemma searched_malformed: "searched SQLITE_NOWILDCARDMATCH nc [Malformed] cs"
  by (induction cs) (auto simp: searched_def)

lemma chars_ascii:
  assumes "c < 0x80" "c \<noteq> 0"
  shows "chars (ucast c # z) = c # chars z"
proof -
  have c: "ucast (ucast c :: 8 word) = c" using assms(1)
    by (simp add: word_unat_eq_iff word_less_nat_alt unsigned_ucast_eq unsigned_take_bit_eq take_bit_nat_eq_self)
  then have "(ucast c :: 8 word) < 0x80" using assms(1) unat_ucast_byte(1) [of "ucast c"] by (simp add: word_less_nat_alt)
  then show ?thesis using read_ascii [of "ucast c # z"] c assms(2) by (intro chars_read) auto
qed

lemma parse_starts:
  assumes "c \<noteq> ucast (matchAll info)"
  obtains e ps where "parse info other (c # cs) = e # ps" "e \<noteq> Any"
proof -
  have "\<exists>e ps. parse info other (c # cs) = e # ps \<and> e \<noteq> Any"
    using assms by (auto simp: parse_set_def Let_def split: option.splits list.splits)
  then show thesis using that by blast
qed

lemma set_tl_subset: "set (tl xs) \<subseteq> set xs"
  by (cases xs) auto

lemma intervals_subset: "intervals prior cs = Some (is, cs') \<Longrightarrow> set cs' \<subseteq> set cs"
proof (induction prior cs arbitrary: "is" rule: intervals.induct)
  case (2 prior c cs)
  then show ?case by (cases cs) (fastforce split: if_splits)+
qed simp

lemma parse_set_subset: "parse_set cs = Some (e, cs') \<Longrightarrow> set cs' \<subseteq> set cs"
  by (auto simp: parse_set_def Let_def dest!: intervals_subset set_tl_subset [THEN subsetD] split: if_splits)

text \<open>The element that starts with the character \<open>c\<close>, when it is not a set, and the pattern after it.\<close>

lemma parse_char:
  assumes "c \<noteq> 0" "c \<noteq> ucast (matchAll info)" "\<not> (c = other \<and> matchSet info \<noteq> 0)"
    and "(if c = other then sqlite3Utf8Read p else (c, p)) = (c', p')"
  shows "parse info other (c # chars p) =
      (if c' = 0 then [Malformed]
       else (if c \<noteq> other \<and> c = ucast (matchOne info) then One else Lit c') # parse info other (chars p'))"
    and "c' \<noteq> 0 \<Longrightarrow> c' \<in> set (c # chars p)" and "c' \<noteq> 0 \<Longrightarrow> set (chars p') \<subseteq> set (c # chars p)"
    and "length p' \<le> length p"
  using assms chars_eq_read [of p c' p'] sqlite3Utf8Read_length(1) [of p c' p']
  by (auto simp: read_chars_def split: if_splits)

text \<open>The three kinds of step of the loop, with what the recursive calls give.\<close>

lemma star_step:
  fixes info :: compareInfo
  defines "nc \<equiv> noCase info"
  assumes ok: "wildcards_ok info other" and r: "Utf8Read p = (c1, p1)" and all: "c1 \<noteq> 0" "c1 = ucast (matchAll info)"
    and sk: "skip_wildcards info p1 s = Some (c, p2, s2)" and chars: "0x80 \<notin> set (chars p)"
    and set: "\<lbrakk>c \<noteq> 0; c = other; matchSet info \<noteq> 0; 0x80 \<notin> set (chars (ucast c # p2));
        \<not> matches nc (parse info other (chars (ucast c # p2))) []\<rbrakk> \<Longrightarrow>
      searched (search_set info other (ucast c # p2) s2) nc (parse info other (chars (ucast c # p2))) (chars s2)"
    and ascii: "\<And>d p3. \<lbrakk>c \<noteq> 0; \<not> (c = other \<and> matchSet info \<noteq> 0);
        (if c = other then sqlite3Utf8Read p2 else (c, p2)) = (d, p3); d \<noteq> 0; d < 0x80; 0x80 \<notin> set (chars p3)\<rbrakk> \<Longrightarrow>
      searched (search_ascii info other (zStop info d) p3 s2) nc (Lit d # parse info other (chars p3)) (chars s2)"
    and high: "\<And>d p3. \<lbrakk>c \<noteq> 0; \<not> (c = other \<and> matchSet info \<noteq> 0);
        (if c = other then sqlite3Utf8Read p2 else (c, p2)) = (d, p3); d \<noteq> 0; 0x80 < d; 0x80 \<notin> set (chars p3)\<rbrakk> \<Longrightarrow>
      searched (search_char info other d p3 s2) nc (Lit d # parse info other (chars p3)) (chars s2)"
  shows "searched (pattern_loop info other p s zEscaped) nc (parse info other (read_chars c p2)) (chars s2)"
proof -
  have p: "chars p = read_chars c1 p1" using r chars_eq_read by (simp add: Utf8Read_eq)
  have rest: "c \<noteq> ucast (matchAll info)" "c \<noteq> ucast (matchOne info)" "0x80 \<notin> set (read_chars c p2)"
    using skip_wildcards_rest [OF sk ok] chars all by (auto simp: p read_chars_def)
  consider "c = 0" | "c \<noteq> 0" "c = other" "matchSet info \<noteq> 0" | (lit) "c \<noteq> 0" "\<not> (c = other \<and> matchSet info \<noteq> 0)" by blast
  then show ?thesis
  proof cases
    case 1
    then show ?thesis using all sk searched_end by (subst pattern_loop.simps) (simp add: r read_chars_def)
  next
    case 2
    then have "c < 0x80" using ok by (auto simp: wildcards_ok_def globInfo_def likeInfoNorm_def likeInfoAlt_def)
    then have c: "chars (ucast c # p2) = c # chars p2" using chars_ascii 2 by blast
    obtain e ps' where "parse info other (c # chars p2) = e # ps'" "e \<noteq> Any" using parse_starts rest(1) by blast
    then have "searched (search_set info other (ucast c # p2) s2) nc (parse info other (c # chars p2)) (chars s2)"
      using set 2 c rest(3) matches_cons_Nil
      by (simp add: read_chars_def)
    then show ?thesis using all sk 2 by (subst pattern_loop.simps) (simp add: r read_chars_def)
  next
    case lit
    obtain c' p3 where r3: "(if c = other then sqlite3Utf8Read p2 else (c, p2)) = (c', p3)" by fastforce
    note pc = parse_char [OF lit(1) rest(1) lit(2) r3]
    have pl: "pattern_loop info other p s zEscaped =
        (if c' = 0 then SQLITE_NOWILDCARDMATCH
         else if c' \<le> 0x80 then search_ascii info other (zStop info c') p3 s2 else search_char info other c' p3 s2)"
      using all sk lit by (subst pattern_loop.simps) (auto simp: r r3)
    show ?thesis
    proof (cases "c' = 0")
      case True
      then show ?thesis using pl pc(1) lit(1) searched_malformed by (simp add: read_chars_def)
    next
      case False
      have "c' \<noteq> 0x80" "0x80 \<notin> set (chars p3)" using pc(2,3) [OF False] rest(3) lit(1) by (auto simp: read_chars_def)
      moreover have "c' \<le> 0x80 \<Longrightarrow> c' \<noteq> 0x80 \<Longrightarrow> c' < 0x80" by (rule order_neq_le_trans)
      ultimately show ?thesis
        using ascii [OF lit r3 False] high [OF lit r3 False] lit False rest(2) pl pc(1)
        by (simp add: read_chars_def not_le)
    qed
  qed
qed
lemma set_step:
  fixes info :: compareInfo
  defines "nc \<equiv> noCase info"
  assumes r: "Utf8Read p = (c1, p1)" and set: "c1 \<noteq> 0" "c1 \<noteq> ucast (matchAll info)" "c1 = other" "matchSet info \<noteq> 0"
    and chars: "0x80 \<notin> set (chars p)"
    and rec: "\<And>d s1 p2. \<lbrakk>sqlite3Utf8Read s = (d, s1); d \<noteq> 0; set_matches d p1 = Some (True, p2);
        length p2 < length p; 0x80 \<notin> set (chars p2)\<rbrakk> \<Longrightarrow>
      verdict (pattern_loop info other p2 s1 zEscaped) nc (parse info other (chars p2)) (chars s1)"
  shows "verdict (pattern_loop info other p s zEscaped) nc (parse info other (chars p)) (chars s)"
proof -
  have p: "chars p = read_chars c1 p1" using r chars_eq_read by (simp add: Utf8Read_eq)
  obtain d s1 where rs: "sqlite3Utf8Read s = (d, s1)" by fastforce
  have s: "chars s = read_chars d s1" using rs chars_eq_read by blast
  have ps: "parse info other (chars p) =
      (case parse_set (chars p1) of None \<Rightarrow> [Malformed] | Some (e, cs) \<Rightarrow> e # parse info other cs)"
    using set by (simp add: p read_chars_def)
  have len: "length p1 < length p" using Utf8Read_length(2) [OF r] set by blast
  note sm = set_matches_correct [where c = d and p = p1 and nc = nc]
  consider (stop) "d = 0" | (none) "d \<noteq> 0" "set_matches d p1 = None" | (some) m p2 where "d \<noteq> 0" "set_matches d p1 = Some (m, p2)"
    by (cases "set_matches d p1") auto
  then show ?thesis
  proof cases
    case stop
    obtain e ps' where e: "parse info other (c1 # chars p1) = e # ps'" "e \<noteq> Any" using parse_starts set(2) by blast
    then have "\<not> matches nc (parse info other (chars p)) []" using matches_cons_Nil set by (simp add: p read_chars_def)
    then show ?thesis using set stop unfolding s by (subst pattern_loop.simps) (simp add: r rs read_chars_def verdict_def)
  next
    case none
    then have "parse info other (chars p) = [Malformed]" using sm ps by simp
    then show ?thesis using set none unfolding s
      by (subst pattern_loop.simps) (simp add: r rs read_chars_def verdict_def)
  next
    case some
    then obtain e where e: "parse_set (chars p1) = Some (e, chars p2)" "m = fits nc e d" "e \<noteq> Any" using sm by auto
    have sub: "0x80 \<notin> set (chars p2)" using parse_set_subset [OF e(1)] chars set by (auto simp: p read_chars_def)
    have len2: "length p2 \<le> length p1" using set_matches_length some by blast
    show ?thesis
    proof (cases m)
      case True
      have "verdict (pattern_loop info other p2 s1 zEscaped) nc (parse info other (chars p2)) (chars s1)"
        using rec [OF rs some(1)] some(2) True sub len len2 by simp
      then show ?thesis using verdict_cons [of _ nc _ _ e d] e True set some unfolding s ps
        by (subst pattern_loop.simps) (simp add: r rs read_chars_def)
    next
      case False
      then show ?thesis using e set some unfolding s ps
        by (subst pattern_loop.simps) (simp add: r rs read_chars_def verdict_def matches_cons del: matches.simps)
    qed
  qed
qed

lemma char_step:
  fixes info :: compareInfo
  defines "nc \<equiv> noCase info"
  assumes r: "Utf8Read p = (c1, p1)" and char: "c1 \<noteq> 0" "c1 \<noteq> ucast (matchAll info)" "\<not> (c1 = other \<and> matchSet info \<noteq> 0)"
    and chars: "0x80 \<notin> set (chars p)" and esc: "\<And>e. zEscaped = Some e \<Longrightarrow> length p \<le> length e"
    and rec: "\<And>c p2 c2 s1. \<lbrakk>(if c1 = other then sqlite3Utf8Read p1 else (c1, p1)) = (c, p2); c \<noteq> 0; Utf8Read s = (c2, s1);
        char_matches info c c2 ((if c1 = other then Some p2 else zEscaped) = Some p2); length p2 < length p; 0x80 \<notin> set (chars p2)\<rbrakk> \<Longrightarrow>
      verdict (pattern_loop info other p2 s1 (if c1 = other then Some p2 else zEscaped)) nc (parse info other (chars p2)) (chars s1)"
  shows "verdict (pattern_loop info other p s zEscaped) nc (parse info other (chars p)) (chars s)"
proof -
  have p: "chars p = read_chars c1 p1" using r chars_eq_read by (simp add: Utf8Read_eq)
  obtain c p2 where r2: "(if c1 = other then sqlite3Utf8Read p1 else (c1, p1)) = (c, p2)" by fastforce
  note pc = parse_char [OF char r2]
  obtain c2 s1 where rs: "Utf8Read s = (c2, s1)" by fastforce
  have s: "chars s = read_chars c2 s1" using rs chars_eq_read by (simp add: Utf8Read_eq)
  have len: "length p1 < length p" using Utf8Read_length(2) [OF r] char by blast
  have flag: "((if c1 = other then Some p2 else zEscaped) = Some p2) = (c1 = other)"
    using esc [of p2] pc(4) len by auto
  define e where "e = (if c1 \<noteq> other \<and> c1 = ucast (matchOne info) then One else Lit c)"
  have pl: "pattern_loop info other p s zEscaped =
      (if c = 0 then SQLITE_NOMATCH
       else if char_matches info c c2 (c1 = other)
       then pattern_loop info other p2 s1 (if c1 = other then Some p2 else zEscaped) else SQLITE_NOMATCH)"
    by (cases "c1 = other") (use char flag r2 in \<open>subst pattern_loop.simps, simp add: r rs\<close>)+
  show ?thesis
  proof (cases "c = 0")
    case True
    then have "parse info other (chars p) = [Malformed]" using pc(1) char by (simp add: p read_chars_def del: parse.simps)
      then show ?thesis using pl True by (simp add: verdict_def split: list.splits)
  next
    case False
    have ps: "parse info other (chars p) = e # parse info other (chars p2)"
      using pc(1) False char by (simp add: p read_chars_def e_def del: parse.simps)
    have cm: "char_matches info c c2 (c1 = other) \<longleftrightarrow> c2 \<noteq> 0 \<and> fits nc e c2"
      using char_matches_correct [OF False] r2 by (cases "c1 = other") (auto simp: e_def nc_def simp del: fits.simps)
    have "e \<noteq> Any" by (simp add: e_def)
    have sub: "0x80 \<notin> set (chars p2)" using pc(3) [OF False] chars char by (auto simp: p read_chars_def)
    show ?thesis
    proof (cases "c2 \<noteq> 0 \<and> fits nc e c2")
      case True
      have "verdict (pattern_loop info other p2 s1 (if c1 = other then Some p2 else zEscaped)) nc (parse info other (chars p2)) (chars s1)"
        using rec [OF r2 False rs] cm True flag sub len pc(4) by simp
      then show ?thesis unfolding ps s pl using True False cm \<open>e \<noteq> Any\<close> verdict_cons by (simp add: read_chars_def)
    next
      case F: False
      then have "\<not> matches nc (parse info other (chars p)) (chars s)" unfolding ps s
        using \<open>e \<noteq> Any\<close> by (auto simp: read_chars_def matches_cons matches_cons_Nil simp del: matches.simps)
      then show ?thesis unfolding pl cm using False F by (auto simp: verdict_def)
    qed
  qed
qed

lemma search_set_step:
  fixes info :: compareInfo
  defines "nc \<equiv> noCase info"
  assumes "\<not> matches nc (parse info other (chars p)) []"
    and here: "byte_at s \<noteq> 0 \<Longrightarrow> verdict (pattern_loop info other p s None) nc (parse info other (chars p)) (chars s)"
    and later: "\<lbrakk>byte_at s \<noteq> 0; pattern_loop info other p s None = SQLITE_NOMATCH\<rbrakk> \<Longrightarrow>
      searched (search_set info other p (SQLITE_SKIP_UTF8 s)) nc (parse info other (chars p)) (chars (SQLITE_SKIP_UTF8 s))"
  shows "searched (search_set info other p s) nc (parse info other (chars p)) (chars s)"
proof (cases "byte_at s = 0")
  case True
  then show ?thesis using assms(2) chars_Nil_iff [of s] by (simp add: search_set.simps [of info other p s] searched_def)
next
  case False
  then obtain d where s: "chars s = d # chars (SQLITE_SKIP_UTF8 s)"
    using chars_skip chars_Nil_iff by (metis list.collapse)
  show ?thesis
    using False here later searched_here [of _ nc _ d] unfolding s by (subst search_set.simps) (simp add: Let_def)
qed

lemma search_ascii_step:
  fixes info :: compareInfo and c :: "32 word"
  defines "nc \<equiv> noCase info" and "stop \<equiv> zStop info c"
  assumes c: "c \<noteq> 0" "c < 0x80"
    and here: "byte_at (skip_to stop s) \<noteq> 0 \<Longrightarrow>
      verdict (pattern_loop info other p (tl (skip_to stop s)) None) nc (parse info other (chars p)) (chars (tl (skip_to stop s)))"
    and later: "\<lbrakk>byte_at (skip_to stop s) \<noteq> 0; pattern_loop info other p (tl (skip_to stop s)) None = SQLITE_NOMATCH\<rbrakk> \<Longrightarrow>
      searched (search_ascii info other stop p (tl (skip_to stop s))) nc (Lit c # parse info other (chars p)) (chars (tl (skip_to stop s)))"
  shows "searched (search_ascii info other stop p s) nc (Lit c # parse info other (chars p)) (chars s)"
proof -
  let ?s = "skip_to stop s"
  have skip: "searched r nc (Lit c # parse info other (chars p)) (chars s) = searched r nc (Lit c # parse info other (chars p)) (chars ?s)" for r
    using skip_to_correct [OF c, where info = info] by (simp add: searched_def nc_def stop_def)
  show ?thesis
  proof (cases "byte_at ?s = 0")
    case True
    then show ?thesis unfolding skip using chars_Nil_iff [of ?s]
      by (simp add: search_ascii.simps [of info other stop p s] searched_def)
  next
    case False
    obtain c1 where c1: "chars ?s = c1 # chars (tl ?s)" "fits nc (Lit c) c1"
      using skip_to_found [OF c] False unfolding nc_def stop_def by blast
    show ?thesis unfolding skip c1(1)
      using False searched_after [OF here c1(2) _ later] by (subst search_ascii.simps) (simp add: Let_def)
  qed
qed

lemma search_char_step:
  fixes info :: compareInfo
  defines "nc \<equiv> noCase info"
  assumes r: "Utf8Read s = (c1, s1)" and d: "0x80 < d"
    and here: "\<lbrakk>c1 \<noteq> 0; c1 = d\<rbrakk> \<Longrightarrow> verdict (pattern_loop info other p s1 None) nc (parse info other (chars p)) (chars s1)"
    and later: "c1 \<noteq> 0 \<Longrightarrow> c1 \<noteq> d \<or> pattern_loop info other p s1 None = SQLITE_NOMATCH \<Longrightarrow>
      searched (search_char info other d p s1) nc (Lit d # parse info other (chars p)) (chars s1)"
  shows "searched (search_char info other d p s) nc (Lit d # parse info other (chars p)) (chars s)"
proof -
  have s: "chars s = read_chars c1 s1" using r chars_eq_read by (simp add: Utf8Read_eq)
  consider "c1 = 0" | "c1 \<noteq> 0" "c1 \<noteq> d" | "c1 \<noteq> 0" "c1 = d" by blast
  then show ?thesis
  proof cases
    case 1
    then show ?thesis by (simp add: search_char.simps [of info other d p s] r s read_chars_def searched_def)
  next
    case 2
    then have "\<not> fits nc (Lit d) c1" using d by (auto simp: fits_lit nc_def simp del: fits.simps)
    then show ?thesis
      using later 2
      by (simp add: search_char.simps [of info other d p s] r s read_chars_def searched_def matches_any_skip del: matches.simps fits.simps)
  next
    case 3
    moreover have "fits nc (Lit d) d" by simp
    ultimately show ?thesis unfolding s
      using here later searched_after by (subst search_char.simps) (simp add: Let_def r read_chars_def)
  qed
qed

lemma pattern_loop_correct:
  fixes info :: compareInfo
  shows "\<lbrakk>wildcards_ok info other; 0x80 \<notin> set (chars p); \<And>e. zEscaped = Some e \<Longrightarrow> length p \<le> length e\<rbrakk> \<Longrightarrow>
      verdict (pattern_loop info other p s zEscaped) (noCase info) (parse info other (chars p)) (chars s)"
    and "\<lbrakk>wildcards_ok info other; 0x80 \<notin> set (chars p); \<not> matches (noCase info) (parse info other (chars p)) []\<rbrakk> \<Longrightarrow>
      searched (search_set info other p s) (noCase info) (parse info other (chars p)) (chars s)"
    and "\<lbrakk>wildcards_ok info other; 0x80 \<notin> set (chars p); stop = zStop info c; c \<noteq> 0; c < 0x80\<rbrakk> \<Longrightarrow>
      searched (search_ascii info other stop p s) (noCase info) (Lit c # parse info other (chars p)) (chars s)"
    and "\<lbrakk>wildcards_ok info other; 0x80 \<notin> set (chars p); 0x80 < d\<rbrakk> \<Longrightarrow>
      searched (search_char info other d p s) (noCase info) (Lit d # parse info other (chars p)) (chars s)"
proof (induction info other p s zEscaped and info other p s and info other stop p s and info other d p s
    arbitrary: and and c and rule: pattern_loop_search_set_search_ascii_search_char.induct)
  case (1 info other p s zEscaped)
  obtain c1 p1 where r: "Utf8Read p = (c1, p1)" by fastforce
  have p: "chars p = read_chars c1 p1" using r chars_eq_read by (simp add: Utf8Read_eq)
  note ok = "1.prems"(1)
  consider (zero) "c1 = 0" | (all) "c1 \<noteq> 0" "c1 = ucast (matchAll info)"
    | (set) "c1 \<noteq> 0" "c1 \<noteq> ucast (matchAll info)" "c1 = other" "matchSet info \<noteq> 0"
    | (char) "c1 \<noteq> 0" "c1 \<noteq> ucast (matchAll info)" "\<not> (c1 = other \<and> matchSet info \<noteq> 0)" by blast
  then show ?case
  proof cases
    case zero
    then show ?thesis
      using chars_Nil_iff [of s] by (simp add: pattern_loop.simps [of info other p] r p read_chars_def verdict_def match_codes)
  next
    case all
    have ps: "parse info other (chars p) = Any # parse info other (chars p1)" using all by (simp add: p read_chars_def)
    note sc = skip_wildcards_correct [OF ok, of "noCase info" p1 s]
    show ?thesis
    proof (cases "skip_wildcards info p1 s")
      case None
      then show ?thesis unfolding ps using all sc
        by (subst pattern_loop.simps) (simp add: r verdict_def matches_any_any del: matches.simps)
    next
      case (Some x)
      then obtain c p2 s2 where sk: "skip_wildcards info p1 s = Some (c, p2, s2)" by (cases x) auto
      have "searched (pattern_loop info other p s zEscaped) (noCase info) (parse info other (read_chars c p2)) (chars s2)"
        by (rule star_step [OF ok r all sk "1.prems"(2)])
          (use "1.IH"(1) [OF r [symmetric] refl all sk refl refl] ok in blast,
            simp_all add: "1.IH"(2,3) [OF r [symmetric] refl all sk refl refl] ok)
      then show ?thesis unfolding ps using sc sk by (auto intro: searched_rest)
    qed
  next
    case set
    show ?thesis
      by (rule set_step [OF r set "1.prems"(2)]) (rule "1.IH"(4) [OF r [symmetric] refl]; use set ok "1.prems"(3) in \<open>force intro: less_imp_le\<close>)
  next
    case char
    show ?thesis
    proof (rule char_step [OF r char "1.prems"(2,3)])
      fix c p2 c2 s1
      assume 2: "(if c1 = other then sqlite3Utf8Read p1 else (c1, p1)) = (c, p2)" and c: "c \<noteq> 0" and s: "Utf8Read s = (c2, s1)"
        and m: "char_matches info c c2 ((if c1 = other then Some p2 else zEscaped) = Some p2)"
        and p2: "length p2 < length p" "0x80 \<notin> set (chars p2)"
      have "length p2 \<le> length e" if "(if c1 = other then Some p2 else zEscaped) = Some e" for e
        using that "1.prems"(3) [of e] p2(1) by (auto split: if_splits)
      then show "verdict (pattern_loop info other p2 s1 (if c1 = other then Some p2 else zEscaped)) (noCase info)
          (parse info other (chars p2)) (chars s1)"
        using "1.IH"(5) [OF r [symmetric] refl char refl 2 [symmetric] refl refl c s [symmetric] refl m ok p2(2)] by blast
    qed
  qed
next
  case (2 info other p s)
  show ?case by (rule search_set_step [OF "2.prems"(3)]) (use "2.IH" "2.prems" in auto)
next
  case (3 info other stop p s)
  show ?case unfolding "3.prems"(3)
    by (rule search_ascii_step [OF "3.prems"(4,5)]) (use 3 in auto)
next
  case (4 info other d p s)
  obtain c1 s1 where r: "Utf8Read s = (c1, s1)" by fastforce
  show ?case
    by (rule search_char_step [OF r "4.prems"(3)]) (use "4.IH" [OF r [symmetric] refl] "4.prems" in auto)
qed

section \<open>The operators\<close>

lemma char_len_loop_chars: "char_len_loop z None = length (chars z)"
proof (induction z rule: chars.induct)
  case (1 z)
  obtain c z' where r: "sqlite3Utf8Read z = (c, z')" by fastforce
  have b: "z = [] \<or> hd z = 0 \<longleftrightarrow> byte_at z = 0" by (cases z) auto
  show ?case
    using 1 [OF r [symmetric] refl] b r read_zero_iff [of z] skip_is_read [of z]
    by (simp add: char_len_loop.simps [of z] chars.simps [of z] Let_def)
qed

lemma sqlite3Utf8CharLen_chars: "sqlite3Utf8CharLen z (-1) = length (chars z)"
  by (simp add: sqlite3Utf8CharLen_def char_len_loop_chars)

text \<open>The escape character of the operator: the one character of the third argument, or the opening bracket of GLOB.\<close>

definition escape_char :: "compareInfo \<Rightarrow> bytes option option \<Rightarrow> 32 word option" where
  "escape_char info argv2 =
    (case argv2 of
       None \<Rightarrow> Some (ucast (matchSet info))
     | Some None \<Rightarrow> None
     | Some (Some z) \<Rightarrow> (case chars z of [c] \<Rightarrow> Some c | _ \<Rightarrow> None))"

lemma likeFunc_operands:
  assumes "escape_char info argv2 = Some other" and "nPat \<le> limit"
  shows "likeFunc info limit nPat zB zA argv2 = like_operands info other zB zA"
proof -
  have "fst (sqlite3Utf8Read z) = c \<and> sqlite3Utf8CharLen z (-1) = 1" if "chars z = [c]" for z c
    using that by (cases "sqlite3Utf8Read z") (simp add: sqlite3Utf8CharLen_chars chars.simps [of z] split: if_splits)
  then show ?thesis
    using assms by (auto simp: likeFunc_def escape_char_def split: option.splits list.splits)
qed

text \<open>Property C13: LIKE and GLOB answer what the reference matcher answers. With a pattern within the length limit, an
  escape argument that is absent or one character, and neither of the wildcards as the escape character, the SQL function
  returns 1 when some way of giving characters to the wildcards of the pattern matches the string and 0 when none does: the
  search by bytes, the single retry position behind each \<open>*\<close> and the early end of the search lose no match and add none.
  The pattern must not contain the character U+0080.\<close>
theorem likeFunc_matches:
  assumes "nPat \<le> limit" and "escape_char info argv2 = Some other" and "wildcards_ok info other" and "0x80 \<notin> set (chars p)"
  shows "likeFunc info limit nPat (Some p) (Some s) argv2 =
    Like_Int (if matches (noCase info) (parse info other (chars p)) (chars s) then 1 else 0)"
proof -
  have "verdict (patternCompare p s info other) (noCase info) (parse info other (chars p)) (chars s)"
    unfolding patternCompare_def by (rule pattern_loop_correct(1) [OF assms(3,4)]) simp
  then have "patternCompare p s info other = SQLITE_MATCH \<longleftrightarrow> matches (noCase info) (parse info other (chars p)) (chars s)"
    by (auto simp: verdict_def match_codes)
  then show ?thesis using likeFunc_operands [OF assms(2,1)] by (simp add: like_operands_def)
qed

text \<open>The pattern \<open>%a/_c\<close> with the escape character \<open>/\<close>, on \<open>xA_C\<close>.\<close>

theorem likeFunc_matches_witness:
  "likeFunc likeInfoNorm 50000 6 (Some [0x25, 0x61, 0x2f, 0x5f, 0x63]) (Some [0x78, 0x41, 0x5f, 0x43]) (Some (Some [0x2f])) = Like_Int 1"
proof -
  have "escape_char likeInfoNorm (Some (Some [0x2f])) = Some 0x2f" by code_simp
  moreover have "wildcards_ok likeInfoNorm 0x2f" by (simp add: wildcards_ok_def likeInfoNorm_def)
  moreover have "0x80 \<notin> set (chars [0x25, 0x61, 0x2f, 0x5f, 0x63])" by code_simp
  moreover have "matches (noCase likeInfoNorm) (parse likeInfoNorm 0x2f (chars [0x25, 0x61, 0x2f, 0x5f, 0x63])) (chars [0x78, 0x41, 0x5f, 0x43])"
    by code_simp
  ultimately show ?thesis
    using likeFunc_matches [where nPat = 6 and limit = 50000 and info = likeInfoNorm and ?argv2.0 = "Some (Some [0x2f])" and other = "0x2f"
        and p = "[0x25, 0x61, 0x2f, 0x5f, 0x63]" and s = "[0x78, 0x41, 0x5f, 0x43]"] by simp
qed

text \<open>A \<open>%\<close> before U+0080 is searched byte by byte, although that character has two bytes: it is found inside U+00C0.\<close>

lemma like_u0080: "patternCompare [0x25, 0xC2, 0x80] [0xC3, 0x80] likeInfoNorm 0 = SQLITE_MATCH
    \<and> \<not> matches True (parse likeInfoNorm 0 (chars [0x25, 0xC2, 0x80])) (chars [0xC3, 0x80])
    \<and> patternCompare [0xC2, 0x80] [0xC3, 0x80] likeInfoNorm 0 = SQLITE_NOMATCH"
  by code_simp

text \<open>An escape character that is also a wildcard is a wildcard: \<open>%%\<close> with the escape character \<open>%\<close> matches any string,
  and \<open>_\<close> escapes except behind \<open>%\<close>.\<close>

lemma like_escape_wildcard: "patternCompare [0x25, 0x25] [0x71] likeInfoNorm 0x25 = SQLITE_MATCH
    \<and> patternCompare [0x5f, 0x5f] [0x5f] likeInfoNorm 0x5f = SQLITE_MATCH
    \<and> patternCompare [0x25, 0x5f, 0x5f] [0x5f] likeInfoNorm 0x5f = SQLITE_NOWILDCARDMATCH"
  by code_simp

end
