(* ===== verification/Sqlite_Mem.thy ===== *)
theory Sqlite_Mem
  imports Sqlite_Utf Sqlite_Codes
begin

text \<open>
  The memory cells of SQLite (\<open>vdbemem.c\<close> in \<open>sqlite3.c\<close>): the values of registers, bound parameters and results, with the
  four ways in which a cell holds its text or blob. Memory is a heap of blocks; a text that somebody else keeps is external
  memory, which is only read, and which is given back by calling its destructor. \<^term>\<open>None\<close> is an access outside a
  block, to a freed block, to external memory that was given back or by a null pointer, a second \<open>free\<close>, a call of a
  missing destructor, or an overflow of a length.
\<close>

section \<open>Memory\<close>

datatype mem_ptr = Null | Block nat | Extern nat

record mheap =
  blocks :: "nat \<rightharpoonup> bytes"
  next_block :: nat
  mallocs :: nat
  deleted :: "(nat \<times> nat) list"

text \<open>Which allocations fail; how large a block is for a request, and what it contains; the external memory; and the limit
  of the connection on the length of a value.\<close>

record mem_env =
  no_memory :: "nat \<Rightarrow> bool"
  usable :: "nat \<Rightarrow> nat"
  junk :: "nat \<Rightarrow> nat \<Rightarrow> 8 word"
  extern :: "nat \<Rightarrow> bytes"
  limit_length :: nat

definition bytes_at :: "mem_env \<Rightarrow> mheap \<Rightarrow> mem_ptr \<Rightarrow> bytes option" where
  "bytes_at e h p = (case p of Null \<Rightarrow> None | Block b \<Rightarrow> blocks h b 
     | Extern x \<Rightarrow> if x \<in> snd ` set (deleted h) then None else Some (extern e x))"

definition read_mem :: "mem_env \<Rightarrow> mheap \<Rightarrow> mem_ptr \<Rightarrow> nat \<Rightarrow> bytes option" where
  "read_mem e h p n =
    (if n = 0 then Some [] else do { s \<leftarrow> bytes_at e h p; if n \<le> length s then Some (take n s) else None })"

definition write_mem :: "mem_ptr \<Rightarrow> nat \<Rightarrow> bytes \<Rightarrow> mheap \<Rightarrow> mheap option" where
  "write_mem p off bs h =
    (case p of
       Block b \<Rightarrow> do {
         s \<leftarrow> blocks h b;
         s' \<leftarrow> wr s (int off) bs;
         Some (h\<lparr>blocks := (blocks h)(b \<mapsto> s')\<rparr>) }
     | _ \<Rightarrow> None)"

text \<open>Requests that \<open>sqlite3Malloc\<close> and \<open>sqlite3Realloc\<close> pass on to the allocator.\<close>

definition malloc_range :: "nat \<Rightarrow> bool" where
  "malloc_range n \<longleftrightarrow> n \<noteq> 0 \<and> n < 0x7fffff00"

text \<open>\<open>sqlite3DbMallocRaw\<close>, \<open>sqlite3DbFreeNN\<close>, \<open>sqlite3DbReallocOrFree\<close> and \<open>sqlite3DbMallocSize\<close>.\<close>

definition new_block :: "mem_env \<Rightarrow> nat \<Rightarrow> bytes \<Rightarrow> mheap \<Rightarrow> mem_ptr \<times> mheap" where
  "new_block e n old h =
    (let b = next_block h; h' = h\<lparr>mallocs := Suc (mallocs h)\<rparr> in
     if no_memory e (mallocs h) \<or> \<not> malloc_range n then (Null, h')
     else (Block b, h'\<lparr>next_block := Suc b,
       blocks := (blocks h)(b \<mapsto> take (usable e n) old @ map (junk e b) [length old..<usable e n])\<rparr>))"

definition malloc_raw :: "mem_env \<Rightarrow> nat \<Rightarrow> mheap \<Rightarrow> mem_ptr \<times> mheap" where
  "malloc_raw e n h = new_block e n [] h"

definition free_block :: "mem_ptr \<Rightarrow> mheap \<Rightarrow> mheap option" where
  "free_block p h =
    (case p of
       Block b \<Rightarrow> if blocks h b = None then None else Some (h\<lparr>blocks := (blocks h)(b := None)\<rparr>)
     | _ \<Rightarrow> None)"

definition realloc_or_free :: "mem_env \<Rightarrow> mem_ptr \<Rightarrow> nat \<Rightarrow> mheap \<Rightarrow> (mem_ptr \<times> mheap) option" where
  "realloc_or_free e p n h = do {
     s \<leftarrow> bytes_at e h p;
     h \<leftarrow> free_block p h;
     Some (new_block e n s h) }"

definition malloc_size :: "mem_ptr \<Rightarrow> mheap \<Rightarrow> nat option" where
  "malloc_size p h = (case p of Block b \<Rightarrow> map_option length (blocks h b) | _ \<Rightarrow> None)"

section \<open>Cells\<close>

definition MEM_Null :: "16 word" where "MEM_Null = 0x0001"
definition MEM_Str :: "16 word" where "MEM_Str = 0x0002"
definition MEM_Int :: "16 word" where "MEM_Int = 0x0004"
definition MEM_Real :: "16 word" where "MEM_Real = 0x0008"
definition MEM_Blob :: "16 word" where "MEM_Blob = 0x0010"
definition MEM_IntReal :: "16 word" where "MEM_IntReal = 0x0020"
definition MEM_AffMask :: "16 word" where "MEM_AffMask = 0x003f"
definition MEM_FromBind :: "16 word" where "MEM_FromBind = 0x0040"
definition MEM_Undefined :: "16 word" where "MEM_Undefined = 0x0080"
definition MEM_Cleared :: "16 word" where "MEM_Cleared = 0x0100"
definition MEM_TypeMask :: "16 word" where "MEM_TypeMask = 0xc1bf"
definition MEM_Term :: "16 word" where "MEM_Term = 0x0200"
definition MEM_Dyn :: "16 word" where "MEM_Dyn = 0x0400"
definition MEM_Static :: "16 word" where "MEM_Static = 0x0800"
definition MEM_Ephem :: "16 word" where "MEM_Ephem = 0x1000"
definition MEM_Agg :: "16 word" where "MEM_Agg = 0x2000"
definition MEM_Zero :: "16 word" where "MEM_Zero = 0x4000"
definition MEM_Subtype :: "16 word" where "MEM_Subtype = 0x8000"

datatype MemValue = U_none | U_r "64 word" | U_i "64 word" | U_nZero nat | U_zPType string

text \<open>The destructor of a cell is a number; it is not set in a cell that never had one.\<close>

record sqlite3_value =
  mu :: MemValue
  flags :: "16 word"
  enc :: nat
  eSubtype :: "8 word"
  mn :: nat
  mz :: mem_ptr
  zMalloc :: mem_ptr
  szMalloc :: nat
  xDel :: "nat option"

type_synonym mem = sqlite3_value

definition has :: "mem \<Rightarrow> 16 word \<Rightarrow> bool" where
  "has m f \<longleftrightarrow> flags m AND f \<noteq> 0"

definition VdbeMemDynamic :: "mem \<Rightarrow> bool" where
  "VdbeMemDynamic m \<longleftrightarrow> has m (MEM_Agg OR MEM_Dyn)"

text \<open>The invariants that the debugging build checks.\<close>

definition sqlite3VdbeCheckMemInvariants :: "mheap \<Rightarrow> mem \<Rightarrow> bool" where
  "sqlite3VdbeCheckMemInvariants h p \<longleftrightarrow>
     (has p MEM_Dyn \<longrightarrow> xDel p \<noteq> None) \<and>
     (has p MEM_Dyn \<longrightarrow> szMalloc p = 0) \<and>
     (let x = flags p AND (MEM_Int OR MEM_Real OR MEM_IntReal) in x AND (x - 1) = 0) \<and>
     (if has p MEM_Null
      then \<not> has p (MEM_Int OR MEM_Real OR MEM_Str OR MEM_Blob OR MEM_Agg) \<and>
        (flags p AND (MEM_Term OR MEM_Subtype) = MEM_Term OR MEM_Subtype \<longrightarrow>
           of_bool (has p MEM_Dyn) + of_bool (has p MEM_Ephem) + of_bool (has p MEM_Static) \<le> (1 :: nat) \<and>
           flags p AND NOT (MEM_Null OR MEM_Term OR MEM_Subtype OR MEM_FromBind OR MEM_Dyn OR MEM_Ephem OR MEM_Static) = 0)
      else \<not> has p MEM_Cleared) \<and>
     (szMalloc p = 0 \<or> malloc_size (zMalloc p) h = Some (szMalloc p)) \<and>
     (has p (MEM_Str OR MEM_Blob) \<and> mn p > 0 \<longrightarrow>
        of_bool (szMalloc p > 0 \<and> mz p = zMalloc p) + of_bool (has p MEM_Dyn) + of_bool (has p MEM_Ephem) + of_bool (has p MEM_Static)
          = (1 :: nat))"

section \<open>Releasing\<close>

definition call_xDel :: "mem \<Rightarrow> mheap \<Rightarrow> mheap option" where
  "call_xDel p h =
    (case (xDel p, mz p) of
       (Some d, Extern x) \<Rightarrow> Some (h\<lparr>deleted := (d, x) # deleted h\<rparr>)
     | _ \<Rightarrow> None)"

text \<open>A cell that holds the context of an aggregate function is finalized by that function, which is not modelled.\<close>

definition vdbeMemClearExternAndSetNull :: "mem \<Rightarrow> mheap \<Rightarrow> (mem \<times> mheap) option" where
  "vdbeMemClearExternAndSetNull p h =
    (if has p MEM_Agg then None else do {
       h \<leftarrow> (if has p MEM_Dyn then call_xDel p h else Some h);
       Some (p\<lparr>flags := MEM_Null\<rparr>, h) })"

definition vdbeMemClear :: "mem \<Rightarrow> mheap \<Rightarrow> (mem \<times> mheap) option" where
  "vdbeMemClear p h = do {
     (p, h) \<leftarrow> (if VdbeMemDynamic p then vdbeMemClearExternAndSetNull p h else Some (p, h));
     (p, h) \<leftarrow> (if szMalloc p \<noteq> 0 then do { h \<leftarrow> free_block (zMalloc p) h; Some (p\<lparr>szMalloc := 0\<rparr>, h) } else Some (p, h));
     Some (p\<lparr>mz := Null\<rparr>, h) }"

definition sqlite3VdbeMemRelease :: "mem \<Rightarrow> mheap \<Rightarrow> (mem \<times> mheap) option" where
  "sqlite3VdbeMemRelease p h = (if VdbeMemDynamic p \<or> szMalloc p \<noteq> 0 then vdbeMemClear p h else Some (p, h))"

definition sqlite3VdbeMemInit :: "16 word \<Rightarrow> mem \<Rightarrow> mem" where
  "sqlite3VdbeMemInit f p = p\<lparr>flags := f, szMalloc := 0\<rparr>"

definition sqlite3VdbeMemSetNull :: "mem \<Rightarrow> mheap \<Rightarrow> (mem \<times> mheap) option" where
  "sqlite3VdbeMemSetNull p h =
    (if VdbeMemDynamic p then vdbeMemClearExternAndSetNull p h else Some (p\<lparr>flags := MEM_Null\<rparr>, h))"

section \<open>Space\<close>

text \<open>The first half of \<open>sqlite3VdbeMemGrow\<close>: the new allocation, and whether the content is still to be copied. With and
  without a connection the reallocation frees the old block when it fails.\<close>

definition grow_alloc :: "mem_env \<Rightarrow> mem \<Rightarrow> nat \<Rightarrow> bool \<Rightarrow> mheap \<Rightarrow> (mem \<times> bool \<times> mheap) option" where
  "grow_alloc e p n bPreserve h =
    (if szMalloc p > 0 \<and> bPreserve \<and> mz p = zMalloc p then do {
       (z, h) \<leftarrow> realloc_or_free e (mz p) n h;
       Some (p\<lparr>mz := z, zMalloc := z\<rparr>, False, h) }
     else do {
       h \<leftarrow> (if szMalloc p > 0 then free_block (zMalloc p) h else Some h);
       let (z, h) = malloc_raw e n h;
       Some (p\<lparr>zMalloc := z\<rparr>, bPreserve, h) })"

definition sqlite3VdbeMemGrow :: "mem_env \<Rightarrow> mem \<Rightarrow> nat \<Rightarrow> bool \<Rightarrow> mheap \<Rightarrow> (int \<times> mem \<times> mheap) option" where
  "sqlite3VdbeMemGrow e p n bPreserve h = do {
     (p, bPreserve, h) \<leftarrow> grow_alloc e p n bPreserve h;
     if zMalloc p = Null then do {
       (p, h) \<leftarrow> sqlite3VdbeMemSetNull p h;
       Some (SQLITE_NOMEM, p\<lparr>mz := Null, szMalloc := 0\<rparr>, h) }
     else do {
       sz \<leftarrow> malloc_size (zMalloc p) h;
       let p = p\<lparr>szMalloc := sz\<rparr>;
       h \<leftarrow> (if bPreserve \<and> mz p \<noteq> Null then do { s \<leftarrow> read_mem e h (mz p) (mn p); write_mem (zMalloc p) 0 s h } else Some h);
       h \<leftarrow> (if has p MEM_Dyn then call_xDel p h else Some h);
       Some (SQLITE_OK, p\<lparr>mz := zMalloc p, flags := flags p AND NOT (MEM_Dyn OR MEM_Ephem OR MEM_Static)\<rparr>, h) } }"

definition sqlite3VdbeMemClearAndResize :: "mem_env \<Rightarrow> mem \<Rightarrow> nat \<Rightarrow> mheap \<Rightarrow> (int \<times> mem \<times> mheap) option" where
  "sqlite3VdbeMemClearAndResize e p szNew h =
    (if szMalloc p < szNew then sqlite3VdbeMemGrow e p szNew False h
     else Some (SQLITE_OK, p\<lparr>mz := zMalloc p, flags := flags p AND (MEM_Null OR MEM_Int OR MEM_Real OR MEM_IntReal)\<rparr>, h))"

definition vdbeMemAddTerminator :: "mem_env \<Rightarrow> mem \<Rightarrow> mheap \<Rightarrow> (int \<times> mem \<times> mheap) option" where
  "vdbeMemAddTerminator e p h = (if mn p + 3 \<ge> 2 ^ 31 then None else do {
     (rc, p, h) \<leftarrow> sqlite3VdbeMemGrow e p (mn p + 3) True h;
     if rc \<noteq> SQLITE_OK then Some (SQLITE_NOMEM, p, h)
     else do {
       h \<leftarrow> write_mem (mz p) (mn p) [0, 0, 0] h;
       Some (SQLITE_OK, p\<lparr>flags := flags p OR MEM_Term\<rparr>, h) } })"

definition sqlite3VdbeMemExpandBlob :: "mem_env \<Rightarrow> mem \<Rightarrow> mheap \<Rightarrow> (int \<times> mem \<times> mheap) option" where
  "sqlite3VdbeMemExpandBlob e p h =
    (case mu p of
       U_nZero nZero \<Rightarrow>
         let nByte = mn p + nZero in
         if nByte \<ge> 2 ^ 31 then None
         else if nByte = 0 \<and> \<not> has p MEM_Blob then Some (SQLITE_OK, p, h)
         else do {
           (rc, p, h) \<leftarrow> sqlite3VdbeMemGrow e p (if nByte = 0 then 1 else nByte) True h;
           if rc \<noteq> SQLITE_OK then Some (SQLITE_NOMEM, p, h)
           else do {
             h \<leftarrow> write_mem (mz p) (mn p) (replicate nZero 0) h;
             Some (SQLITE_OK, p\<lparr>mn := mn p + nZero, flags := flags p AND NOT (MEM_Zero OR MEM_Term)\<rparr>, h) } }
     | _ \<Rightarrow> None)"

definition ExpandBlob :: "mem_env \<Rightarrow> mem \<Rightarrow> mheap \<Rightarrow> (int \<times> mem \<times> mheap) option" where
  "ExpandBlob e p h = (if has p MEM_Zero then sqlite3VdbeMemExpandBlob e p h else Some (SQLITE_OK, p, h))"

definition sqlite3VdbeMemMakeWriteable :: "mem_env \<Rightarrow> mem \<Rightarrow> mheap \<Rightarrow> (int \<times> mem \<times> mheap) option" where
  "sqlite3VdbeMemMakeWriteable e p h = do {
     (rc, p, h) \<leftarrow>
       (if has p (MEM_Str OR MEM_Blob) then do {
          (rc, p, h) \<leftarrow> ExpandBlob e p h;
          if rc \<noteq> SQLITE_OK then Some (SQLITE_NOMEM, p, h)
          else if szMalloc p = 0 \<or> mz p \<noteq> zMalloc p then vdbeMemAddTerminator e p h
          else Some (SQLITE_OK, p, h) }
        else Some (SQLITE_OK, p, h));
     if rc \<noteq> SQLITE_OK then Some (rc, p, h) else Some (SQLITE_OK, p\<lparr>flags := flags p AND NOT MEM_Ephem\<rparr>, h) }"

definition sqlite3VdbeMemNulTerminate :: "mem_env \<Rightarrow> mem \<Rightarrow> mheap \<Rightarrow> (int \<times> mem \<times> mheap) option" where
  "sqlite3VdbeMemNulTerminate e p h =
    (if flags p AND (MEM_Term OR MEM_Str) \<noteq> MEM_Str then Some (SQLITE_OK, p, h) else vdbeMemAddTerminator e p h)"

section \<open>Numbers, pointers and blobs of zeros\<close>

definition sqlite3VdbeMemSetZeroBlob :: "mem \<Rightarrow> int \<Rightarrow> mheap \<Rightarrow> (mem \<times> mheap) option" where
  "sqlite3VdbeMemSetZeroBlob p n h = do {
     (p, h) \<leftarrow> sqlite3VdbeMemRelease p h;
     Some (p\<lparr>flags := MEM_Blob OR MEM_Zero, mn := 0, mu := U_nZero (nat n), enc := SQLITE_UTF8, mz := Null\<rparr>, h) }"

definition vdbeReleaseAndSetInt64 :: "mem \<Rightarrow> 64 word \<Rightarrow> mheap \<Rightarrow> (mem \<times> mheap) option" where
  "vdbeReleaseAndSetInt64 p val h = do {
     (p, h) \<leftarrow> sqlite3VdbeMemSetNull p h;
     Some (p\<lparr>mu := U_i val, flags := MEM_Int\<rparr>, h) }"

definition sqlite3VdbeMemSetInt64 :: "mem \<Rightarrow> 64 word \<Rightarrow> mheap \<Rightarrow> (mem \<times> mheap) option" where
  "sqlite3VdbeMemSetInt64 p val h =
    (if VdbeMemDynamic p then vdbeReleaseAndSetInt64 p val h else Some (p\<lparr>mu := U_i val, flags := MEM_Int\<rparr>, h))"

text \<open>A double is the word of its bits.\<close>

definition sqlite3IsNaN :: "64 word \<Rightarrow> bool" where
  "sqlite3IsNaN x \<longleftrightarrow> x AND push_bit 52 0x7ff = push_bit 52 0x7ff \<and> x AND (push_bit 52 1 - 1) \<noteq> 0"

definition sqlite3VdbeMemSetDouble :: "mem \<Rightarrow> 64 word \<Rightarrow> mheap \<Rightarrow> (mem \<times> mheap) option" where
  "sqlite3VdbeMemSetDouble p val h = do {
     (p, h) \<leftarrow> sqlite3VdbeMemSetNull p h;
     Some (if sqlite3IsNaN val then p else p\<lparr>mu := U_r val, flags := MEM_Real\<rparr>, h) }"

text \<open>The destructor 0 is \<open>sqlite3NoopDestructor\<close>.\<close>

definition sqlite3VdbeMemSetPointer :: "mem \<Rightarrow> nat \<Rightarrow> string option \<Rightarrow> nat option \<Rightarrow> mem" where
  "sqlite3VdbeMemSetPointer p pPtr zPType xDestructor =
     p\<lparr>mu := U_zPType (case zPType of None \<Rightarrow> [] | Some t \<Rightarrow> t), mz := Extern pPtr,
       flags := MEM_Null OR MEM_Dyn OR MEM_Subtype OR MEM_Term, eSubtype := 0x70,
       xDel := Some (case xDestructor of None \<Rightarrow> 0 | Some d \<Rightarrow> d)\<rparr>"

definition sqlite3_result_pointer :: "mem \<Rightarrow> nat \<Rightarrow> string option \<Rightarrow> nat option \<Rightarrow> mheap \<Rightarrow> (mem \<times> mheap) option" where
  "sqlite3_result_pointer pOut pPtr zPType xDestructor h = do {
     (pOut, h) \<leftarrow> sqlite3VdbeMemRelease pOut h;
     Some (sqlite3VdbeMemSetPointer (pOut\<lparr>flags := MEM_Null\<rparr>) pPtr zPType xDestructor, h) }"

definition sqlite3VdbeMemTooBig :: "mem_env \<Rightarrow> mem \<Rightarrow> bool" where
  "sqlite3VdbeMemTooBig e p \<longleftrightarrow>
     has p (MEM_Str OR MEM_Blob) \<and>
     mn p + (if has p MEM_Zero then case mu p of U_nZero n \<Rightarrow> n | _ \<Rightarrow> 0 else 0) > limit_length e"

section \<open>Copying\<close>

text \<open>\<open>memcpy(pTo, pFrom, MEMCELLSIZE)\<close>: all but the allocation and the destructor.\<close>

definition copy_cell :: "mem \<Rightarrow> mem \<Rightarrow> mem" where
  "copy_cell pTo pFrom =
     pTo\<lparr>mu := mu pFrom, flags := flags pFrom, enc := enc pFrom, eSubtype := eSubtype pFrom, mn := mn pFrom, mz := mz pFrom\<rparr>"

definition shallow_copy :: "mem \<Rightarrow> mem \<Rightarrow> 16 word \<Rightarrow> mem" where
  "shallow_copy pTo pFrom srcType =
    (let pTo = copy_cell pTo pFrom in
     if has pFrom MEM_Static then pTo
     else pTo\<lparr>flags := flags pTo AND NOT (MEM_Dyn OR MEM_Static OR MEM_Ephem) OR srcType\<rparr>)"

definition sqlite3VdbeMemShallowCopy :: "mem \<Rightarrow> mem \<Rightarrow> 16 word \<Rightarrow> mheap \<Rightarrow> (mem \<times> mheap) option" where
  "sqlite3VdbeMemShallowCopy pTo pFrom srcType h =
    (if VdbeMemDynamic pTo then do {
       (pTo, h) \<leftarrow> vdbeMemClearExternAndSetNull pTo h;
       Some (shallow_copy pTo pFrom srcType, h) }
     else Some (shallow_copy pTo pFrom srcType, h))"

definition sqlite3VdbeMemCopy :: "mem_env \<Rightarrow> mem \<Rightarrow> mem \<Rightarrow> mheap \<Rightarrow> (int \<times> mem \<times> mheap) option" where
  "sqlite3VdbeMemCopy e pTo pFrom h = do {
     (pTo, h) \<leftarrow> (if VdbeMemDynamic pTo then vdbeMemClearExternAndSetNull pTo h else Some (pTo, h));
     let pTo = copy_cell pTo pFrom;
     let pTo = pTo\<lparr>flags := flags pTo AND NOT MEM_Dyn\<rparr>;
     if has pTo (MEM_Str OR MEM_Blob) \<and> \<not> has pFrom MEM_Static
     then sqlite3VdbeMemMakeWriteable e (pTo\<lparr>flags := flags pTo OR MEM_Ephem\<rparr>) h
     else Some (SQLITE_OK, pTo, h) }"

text \<open>The new cells \<open>pTo\<close> and \<open>pFrom\<close>.\<close>

definition sqlite3VdbeMemMove :: "mem \<Rightarrow> mem \<Rightarrow> mheap \<Rightarrow> (mem \<times> mem \<times> mheap) option" where
  "sqlite3VdbeMemMove pTo pFrom h = do {
     (_, h) \<leftarrow> sqlite3VdbeMemRelease pTo h;
     Some (pFrom, pFrom\<lparr>flags := MEM_Null, szMalloc := 0\<rparr>, h) }"

section \<open>Texts and blobs\<close>

definition sqlite3VdbeMemHandleBom :: "mem_env \<Rightarrow> mem \<Rightarrow> mheap \<Rightarrow> (int \<times> mem \<times> mheap) option" where
  "sqlite3VdbeMemHandleBom e p h = do {
     bom \<leftarrow> (if mn p > 1 then do {
         s \<leftarrow> read_mem e h (mz p) 2;
         Some (if s = [0xFE, 0xFF] then SQLITE_UTF16BE else if s = [0xFF, 0xFE] then SQLITE_UTF16LE else 0) }
       else Some 0);
     if bom = 0 then Some (SQLITE_OK, p, h)
     else do {
       (rc, p, h) \<leftarrow> sqlite3VdbeMemMakeWriteable e p h;
       if rc \<noteq> SQLITE_OK then Some (rc, p, h)
       else do {
         s \<leftarrow> read_mem e h (mz p) (mn p);
         h \<leftarrow> write_mem (mz p) 0 (drop 2 s @ [0, 0]) h;
         Some (SQLITE_OK, p\<lparr>mn := mn p - 2, flags := flags p OR MEM_Term, enc := bom\<rparr>, h) } } }"

text \<open>The destructor argument of \<open>sqlite3VdbeMemSetStr\<close>.\<close>

datatype xdel = SQLITE_STATIC | SQLITE_TRANSIENT | SQLITE_DYNAMIC | Destructor nat

text \<open>The length of a text that ends with a zero character; \<^term>\<open>None\<close> when there is none.\<close>

fun strlen_mem :: "bytes \<Rightarrow> nat option" where
  "strlen_mem [] = None"
| "strlen_mem (b # s) = (if b = 0 then Some 0 else map_option Suc (strlen_mem s))"

fun strlen16_mem :: "nat \<Rightarrow> bytes \<Rightarrow> nat \<Rightarrow> nat option" where
  "strlen16_mem iLimit (b0 # b1 # s) nByte =
    (if nByte \<le> iLimit \<and> b0 OR b1 \<noteq> 0 then strlen16_mem iLimit s (nByte + 2) else Some nByte)"
| "strlen16_mem iLimit _ nByte = (if nByte \<le> iLimit then None else Some nByte)"

definition str_length :: "mem_env \<Rightarrow> mem_ptr \<Rightarrow> int \<Rightarrow> nat \<Rightarrow> mheap \<Rightarrow> nat option" where
  "str_length e z n en h =
    (if n \<ge> 0 then Some (nat n)
     else do {
       s \<leftarrow> bytes_at e h z;
       if en = SQLITE_UTF8 then map_option (\<lambda>n. n mod 2 ^ 31) (strlen_mem s) else strlen16_mem (limit_length e) s 0 })"

text \<open>How the cell gets hold of the text; the flags say which. That a text too long for a copy is also reported to the parser of
  the connection is not part of the model.\<close>

definition set_text :: "mem_env \<Rightarrow> mem \<Rightarrow> mem_ptr \<Rightarrow> nat \<Rightarrow> nat \<Rightarrow> 16 word \<Rightarrow> xdel \<Rightarrow> mheap \<Rightarrow> (int \<times> mem \<times> 16 word \<times> mheap) option" where
  "set_text e p z nByte en fl del h =
    (if del = SQLITE_TRANSIENT then
       let nAlloc = nByte + (if fl AND MEM_Term \<noteq> 0 then if en = SQLITE_UTF8 then 1 else 2 else 0) in
       if nByte > limit_length e then Some (SQLITE_TOOBIG, p, fl, h)
       else do {
         (rc, p, h) \<leftarrow> sqlite3VdbeMemClearAndResize e p (max nAlloc 32) h;
         if rc \<noteq> SQLITE_OK then Some (SQLITE_NOMEM, p, fl, h)
         else do {
           s \<leftarrow> read_mem e h z nAlloc;
           h \<leftarrow> write_mem (mz p) 0 s h;
           Some (SQLITE_OK, p, fl, h) } }
     else do {
       (p, h) \<leftarrow> sqlite3VdbeMemRelease p h;
       let p = p\<lparr>mz := z\<rparr>;
       (case del of
          SQLITE_DYNAMIC \<Rightarrow> do {
            sz \<leftarrow> malloc_size z h;
            Some (SQLITE_OK, p\<lparr>zMalloc := z, szMalloc := sz\<rparr>, fl, h) }
        | Destructor d \<Rightarrow> Some (SQLITE_OK, p\<lparr>xDel := Some d\<rparr>, fl OR MEM_Dyn, h)
        | _ \<Rightarrow> Some (SQLITE_OK, p\<lparr>xDel := None\<rparr>, fl OR MEM_Static, h)) })"

definition sqlite3VdbeMemSetStr :: "mem_env \<Rightarrow> mem \<Rightarrow> mem_ptr \<Rightarrow> int \<Rightarrow> nat \<Rightarrow> xdel \<Rightarrow> mheap \<Rightarrow> (int \<times> mem \<times> mheap) option" where
  "sqlite3VdbeMemSetStr e p z n en del h =
    (if z = Null then do { (p, h) \<leftarrow> sqlite3VdbeMemSetNull p h; Some (SQLITE_OK, p, h) }
     else do {
       nByte \<leftarrow> str_length e z n en h;
       let fl = (if en = 0 then MEM_Blob else MEM_Str) OR (if n < 0 then MEM_Term else 0);
       (rc, p, fl, h) \<leftarrow> set_text e p z nByte en fl del h;
       if rc \<noteq> SQLITE_OK then Some (rc, p, h)
       else do {
         let p = p\<lparr>mn := nByte, flags := fl, enc := (if en = 0 then SQLITE_UTF8 else en)\<rparr>;
         (rc, p, h) \<leftarrow> (if enc p \<noteq> SQLITE_UTF8 then sqlite3VdbeMemHandleBom e p h else Some (SQLITE_OK, p, h));
         Some (if rc \<noteq> SQLITE_OK then SQLITE_NOMEM else if nByte > limit_length e then SQLITE_TOOBIG else SQLITE_OK, p, h) } })"

section \<open>Encodings\<close>

definition sqlite3VdbeMemTranslate :: "mem_env \<Rightarrow> mem \<Rightarrow> nat \<Rightarrow> mheap \<Rightarrow> (int \<times> mem \<times> mheap) option" where
  "sqlite3VdbeMemTranslate e p desiredEnc h =
    (if enc p \<noteq> SQLITE_UTF8 \<and> desiredEnc \<noteq> SQLITE_UTF8 then do {
       (rc, p, h) \<leftarrow> sqlite3VdbeMemMakeWriteable e p h;
       if rc \<noteq> SQLITE_OK then Some (SQLITE_NOMEM, p, h)
       else do {
         s \<leftarrow> read_mem e h (mz p) (mn p);
         out \<leftarrow> translate_content (enc p) desiredEnc s;
         h \<leftarrow> write_mem (mz p) 0 out h;
         Some (SQLITE_OK, p\<lparr>enc := desiredEnc\<rparr>, h) } }
     else do {
       let p = (if desiredEnc = SQLITE_UTF8 then p\<lparr>mn := mn p - mn p mod 2\<rparr> else p);
       s \<leftarrow> read_mem e h (mz p) (mn p);
       let (zOut, h) = malloc_raw e (translate_len desiredEnc (mn p)) h;
       if zOut = Null then Some (SQLITE_NOMEM, p, h)
       else do {
         out \<leftarrow> translate_content (enc p) desiredEnc s;
         h \<leftarrow> write_mem zOut 0 (out @ terminator desiredEnc) h;
         let c = flags p;
         (p, h) \<leftarrow> sqlite3VdbeMemRelease p h;
         sz \<leftarrow> malloc_size zOut h;
         Some (SQLITE_OK, p\<lparr>mn := length out, flags := MEM_Str OR MEM_Term OR (c AND (MEM_AffMask OR MEM_Subtype)),
           enc := desiredEnc, mz := zOut, zMalloc := zOut, szMalloc := sz\<rparr>, h) } })"

definition sqlite3VdbeChangeEncoding :: "mem_env \<Rightarrow> mem \<Rightarrow> nat \<Rightarrow> mheap \<Rightarrow> (int \<times> mem \<times> mheap) option" where
  "sqlite3VdbeChangeEncoding e p desiredEnc h =
    (if \<not> has p MEM_Str \<or> enc p = desiredEnc then Some (SQLITE_OK, p, h) else sqlite3VdbeMemTranslate e p desiredEnc h)"

end
