(* ===== verification/Sqlite_Utf_Spec.thy ===== *)
theory Sqlite_Utf_Spec
  imports Sqlite_Utf
begin

text \<open>
  The conversions between UTF-8 and UTF-16: each reader inverts its writer on the characters of Unicode, the translation
  of the encoding of a text is its encoding in the other form, and the translation of any bytes fits in the buffer that
  the code allocates.
\<close>

section \<open>Bit fields as numbers\<close>

lemma and_field: "(x :: 32 word) AND push_bit k (mask j) = push_bit k (take_bit j (drop_bit k x))"
  by (rule bit_word_eqI) (auto simp: bit_simps)

lemma unat_drop: "unat (drop_bit k (x :: 32 word)) = unat x div 2 ^ k"
proof -
  have "unat x < 2 ^ 32" using unsigned_less [of x, where ?'a = nat] by simp
  then show ?thesis by (simp only: unsigned_drop_bit_eq) (simp add: take_bit_nat_eq_self drop_bit_eq_div)
qed

lemma unat_take_drop: "unat (take_bit j (drop_bit k (x :: 32 word))) = unat x div 2 ^ k mod 2 ^ j"
  by (simp only: unsigned_take_bit_eq unat_drop) (simp add: take_bit_eq_mod)

lemma ucast_nat: "(ucast (x :: 32 word) :: 8 word) = word_of_nat (unat x)"
  by (simp add: unsigned_ucast_eq)

lemma ucast_drop_mask: "(ucast (drop_bit k (x :: 32 word) AND mask j) :: 8 word) = word_of_nat (unat x div 2 ^ k mod 2 ^ j)"
  by (simp only: ucast_nat flip: take_bit_eq_mask) (simp add: unat_take_drop)

lemma ucast_mask: "(ucast (x AND mask j :: 32 word) :: 8 word) = word_of_nat (unat x mod 2 ^ j)"
  using ucast_drop_mask [of 0 x j] by simp

lemma masks: "(0x03 :: 32 word) = mask 2" "(0x07 :: 32 word) = mask 3" "(0x0F :: 32 word) = mask 4" "(0x1F :: 32 word) = mask 5"
  "(0x3F :: 32 word) = mask 6" "(0xFF :: 32 word) = mask 8" "(0x03FF :: 32 word) = mask 10"
  by (simp_all add: mask_eq_exp_minus_1)

section \<open>UTF-8\<close>

lemma WRITE_UTF8_nat:
  "WRITE_UTF8 c = (let n = unat c in map word_of_nat
    (if n < 0x80 then [n mod 256]
     else if n < 0x800 then [0xC0 + n div 64 mod 32, 0x80 + n mod 64]
     else if n < 0x10000 then [0xE0 + n div 4096 mod 16, 0x80 + n div 64 mod 64, 0x80 + n mod 64]
     else [0xF0 + n div 262144 mod 8, 0x80 + n div 4096 mod 64, 0x80 + n div 64 mod 64, 0x80 + n mod 64]))"
  unfolding WRITE_UTF8_def masks Let_def unfolding ucast_drop_mask unfolding ucast_mask by (simp add: word_less_nat_alt)

lemma table:
  assumes "list_all P [0..<n]" "x < (n :: nat)" shows "P x"
  using assms by (simp add: list_all_iff del: upt_rec_numeral)

lemma continuation_byte:
  "x < 64 \<Longrightarrow> (word_of_nat (0x80 + x) AND 0xc0 = (0x80 :: 8 word)) \<and> ucast (0x3f AND word_of_nat (0x80 + x) :: 8 word) = (word_of_nat x :: 32 word)"
  by (rule table [where n = 64 and P = "\<lambda>x. (word_of_nat (0x80 + x) AND 0xc0 = (0x80 :: 8 word))
    \<and> ucast (0x3f AND word_of_nat (0x80 + x) :: 8 word) = (word_of_nat x :: 32 word)"]) code_simp

definition starts :: "bytes \<Rightarrow> bool" where
  "starts z \<longleftrightarrow> z = [] \<or> hd z AND 0xc0 \<noteq> 0x80"

lemma continuation_stop: "starts z \<Longrightarrow> continuation z c = (c, z)"
  by (cases z) (auto simp: starts_def)

lemma continuation_step:
  assumes "x < 64"
  shows "continuation (word_of_nat (0x80 + x) # z) (word_of_nat m) = continuation z (word_of_nat (m * 64 + x))"
proof -
  have "push_bit 6 (word_of_nat m) + word_of_nat x = (word_of_nat (m * 64 + x) :: 32 word)"
    by (simp add: push_bit_eq_mult)
  then show ?thesis using continuation_byte [OF assms] by (simp del: of_nat_add of_nat_mult)
qed

text \<open>The first byte of a character of several bytes, and the bits it holds.\<close>

definition lead :: "nat \<Rightarrow> nat \<Rightarrow> bool" where
  "lead b x \<longleftrightarrow> 0xc0 \<le> (word_of_nat b :: 8 word) \<and>
     ucast (sqlite3Utf8Trans1 ! unat (word_of_nat b - 0xc0 :: 8 word)) = (word_of_nat x :: 32 word)"

lemma lead_bytes: "x < 32 \<Longrightarrow> lead (0xC0 + x) x" "x < 16 \<Longrightarrow> lead (0xE0 + x) x" "x < 8 \<Longrightarrow> lead (0xF0 + x) x"
  by (rule table [where P = "\<lambda>x. lead (0xC0 + x) x" and n = 32], code_simp, assumption)
    (rule table [where P = "\<lambda>x. lead (0xE0 + x) x" and n = 16], code_simp, assumption,
     rule table [where P = "\<lambda>x. lead (0xF0 + x) x" and n = 8], code_simp, assumption)

lemma read_lead: "lead b x \<Longrightarrow> sqlite3Utf8Read (word_of_nat b # z) =
    (let (c, z') = continuation z (word_of_nat x) in (replace_invalid c, z'))"
  by (simp add: lead_def)

text \<open>The characters that UTF-8 keeps: the code points of Unicode, less the surrogates and U+FFFE and U+FFFF.\<close>

definition scalar :: "32 word \<Rightarrow> bool" where
  "scalar c \<longleftrightarrow> c < 0x110000 \<and> \<not> (0xD800 \<le> c \<and> c < 0xE000) \<and> c \<noteq> 0xFFFE \<and> c \<noteq> 0xFFFF"

lemma drop_and_mask: "drop_bit k (c AND push_bit k (mask (32 - k))) = drop_bit k (c :: 32 word)"
  by (rule bit_word_eqI) (auto simp: bit_simps dest: bit_imp_le_length)

lemma replace_invalid_scalar:
  assumes "scalar c" "0x80 \<le> c"
  shows "replace_invalid c = c"
proof -
  have f: "unat c div 2 ^ k = unat (drop_bit k v)" if "c AND push_bit k (mask (32 - k)) = v" "k < 32" for k v
    using that drop_and_mask [of k c] unat_drop [of k c] by simp
  have "c AND 0xFFFFF800 \<noteq> 0xD800"
  proof
    assume "c AND 0xFFFFF800 = 0xD800"
    then have "unat c div 2048 = 27" using f [of 11 "0xD800"] by (simp add: mask_eq_exp_minus_1 push_bit_eq_mult drop_bit_eq_div)
    then have "0xD800 \<le> c \<and> c < 0xE000" by (simp add: word_le_nat_alt word_less_nat_alt) linarith
    then show False using assms(1) by (simp add: scalar_def)
  qed
  moreover have "c AND 0xFFFFFFFE \<noteq> 0xFFFE"
  proof
    assume "c AND 0xFFFFFFFE = 0xFFFE"
    then have "unat c div 2 = 0x7FFF" using f [of 1 "0xFFFE"] by (simp add: mask_eq_exp_minus_1 push_bit_eq_mult drop_bit_eq_div)
    then have "c = 0xFFFE \<or> c = 0xFFFF" by (simp add: word_unat_eq_iff) linarith
    then show False using assms(1) by (simp add: scalar_def)
  qed
  ultimately show ?thesis using assms(2) by (auto simp: replace_invalid_def)
qed

lemma sqlite3Utf8Read_WRITE_UTF8:
  assumes "scalar c" "starts z"
  shows "sqlite3Utf8Read (WRITE_UTF8 c @ z) = (c, z)"
proof -
  define n where "n = unat c"
  define q where "q = n div 64"
  define p where "p = q div 64"
  have c: "c = word_of_nat n" by (simp add: n_def)
  have n: "n = q * 64 + n mod 64" "q = p * 64 + q mod 64" "p = p div 64 * 64 + p mod 64" by (simp_all add: q_def p_def)
  have pq: "n div 4096 = p" "n div 262144 = p div 64" by (simp_all add: p_def q_def flip: div_mult2_eq)
  have lt: "n < 0x110000" using assms(1) by (simp add: scalar_def n_def word_less_nat_alt)
  have ri: "0x80 \<le> n \<Longrightarrow> replace_invalid c = c" using replace_invalid_scalar [OF assms(1)] by (simp add: n_def word_le_nat_alt)
  note cont = continuation_step continuation_stop [OF assms(2)]
  consider "n < 0x80" | "0x80 \<le> n" "n < 0x800" | "0x800 \<le> n" "n < 0x10000" | "0x10000 \<le> n" by linarith
  then show ?thesis
  proof cases
    case 1
    then have "(word_of_nat n :: 8 word) < 0xc0" "ucast (word_of_nat n :: 8 word) = c"
      by (simp_all add: c word_less_nat_alt word_unat_eq_iff unsigned_of_nat unsigned_ucast_eq take_bit_nat_eq_self)
    then show ?thesis using 1 by (auto simp: WRITE_UTF8_nat simp flip: n_def)
  next
    case 2
    then have "q < 32" by (simp add: q_def div_less_iff_less_mult)
    then show ?thesis
      using 2 ri lead_bytes(1) [of q] by (simp add: WRITE_UTF8_nat read_lead cont n [symmetric] del: sqlite3Utf8Read.simps continuation.simps of_nat_add of_nat_mult flip: n_def q_def c)
  next
    case 3
    then have "p < 16" by (simp add: p_def q_def div_less_iff_less_mult)
    then show ?thesis
      using 3 ri lead_bytes(2) [of p] pq by (simp add: WRITE_UTF8_nat read_lead cont n [symmetric] del: sqlite3Utf8Read.simps continuation.simps of_nat_add of_nat_mult flip: n_def q_def c)
  next
    case 4
    then have "p div 64 < 8" using lt by (simp add: p_def q_def div_less_iff_less_mult)
    then show ?thesis
      using 4 ri lead_bytes(3) [of "p div 64"] pq
      by (simp add: WRITE_UTF8_nat read_lead cont n [symmetric] del: sqlite3Utf8Read.simps continuation.simps of_nat_add of_nat_mult flip: n_def q_def c)
  qed
qed

lemma READ_UTF8_eq: "z \<noteq> [] \<Longrightarrow> READ_UTF8 z = Some (sqlite3Utf8Read z)"
  by (cases z) auto

section \<open>UTF-16\<close>

lemma and_field_nat: "(x :: 32 word) AND push_bit k (mask j) = word_of_nat (unat x div 2 ^ k mod 2 ^ j * 2 ^ k)"
proof -
  have "take_bit j (drop_bit k x) = word_of_nat (unat x div 2 ^ k mod 2 ^ j)"
    by (simp flip: unat_take_drop)
  then show ?thesis unfolding and_field by (simp add: push_bit_eq_mult)
qed

lemma and_mask_nat: "(x :: 32 word) AND mask j = word_of_nat (unat x mod 2 ^ j)"
  using and_field_nat [of x 0 j] by simp

lemma ucast_of_nat: "(ucast (word_of_nat a :: 32 word) :: 8 word) = word_of_nat a"
  by (rule bit_word_eqI) (simp add: bit_simps)

lemma byte_of_nat: "a < 256 \<Longrightarrow> (ucast (word_of_nat a :: 8 word) :: 32 word) = word_of_nat a"
  by (simp add: word_unat_eq_iff unsigned_of_nat unsigned_ucast_eq take_bit_nat_eq_self)

lemma unat_of_nat32: "a < 2 ^ 32 \<Longrightarrow> unat (word_of_nat a :: 32 word) = a"
  by (simp add: unsigned_of_nat take_bit_nat_eq_self)

lemma surrogates_nat:
  assumes "h < 1024" "l < 1024"
  shows "surrogates (word_of_nat (0xD800 + h)) (word_of_nat (0xDC00 + l)) = word_of_nat (h * 1024 + l + 0x10000)"
proof -
  have m: "(0x03C0 :: 32 word) = push_bit 6 (mask 4)" by (simp add: mask_eq_exp_minus_1 push_bit_eq_mult)
  have u: "unat (word_of_nat (0xD800 + h) :: 32 word) = 0xD800 + h" "unat (word_of_nat (0xDC00 + l) :: 32 word) = 0xDC00 + l"
    by (rule unat_of_nat32, use assms in simp)+
  have "(0xDC00 + l) mod 2 ^ 10 = l" using assms mod_mult_self1 [of l 55 1024] by (simp add: add.commute)
  moreover have "(0xD800 + h) mod 2 ^ 6 = h mod 64" using mod_mult_self1 [of h 864 64] by (simp add: add.commute)
  moreover have "(0xD800 + h) div 2 ^ 6 mod 2 ^ 4 = h div 64"
    using assms div_mult_self1 [of 64 h 864] mod_mult_self1 [of "h div 64" 54 16] by (simp add: add.commute div_less_iff_less_mult)
  ultimately have "surrogates (word_of_nat (0xD800 + h)) (word_of_nat (0xDC00 + l)) =
      word_of_nat (l + h mod 64 * 1024 + (h div 64 * 64 + 64) * 1024)"
    unfolding surrogates_def masks m and_field_nat and_mask_nat u by (simp add: push_bit_eq_mult)
  also have "l + h mod 64 * 1024 + (h div 64 * 64 + 64) * 1024 = h * 1024 + l + 0x10000"
  proof -
    have "l + b * 1024 + (a * 64 + 64) * 1024 = h * 1024 + l + 0x10000" if "h = a * 64 + b" for a b using that by simp
    from this [of "h div 64" "h mod 64"] show ?thesis by simp
  qed
  finally show ?thesis .
qed

text \<open>The four bytes of a character outside the basic plane: two surrogates of ten bits each.\<close>

lemma pair_bytes:
  fixes c :: "32 word"
  assumes "0xFFFF < c" "c < 0x110000" and m: "m = unat c - 0x10000"
  shows "ucast ((drop_bit 10 c AND 0x3F) + (drop_bit 10 (c - 0x10000) AND 0xC0)) = (word_of_nat (m div 1024 mod 256) :: 8 word)"
    and "ucast (0xD8 + (drop_bit 18 (c - 0x10000) AND 3)) = (word_of_nat (0xD8 + m div 1024 div 256) :: 8 word)"
    and "ucast (c AND 0xFF) = (word_of_nat (m mod 1024 mod 256) :: 8 word)"
    and "ucast (0xDC + (drop_bit 8 c AND 3)) = (word_of_nat (0xDC + m mod 1024 div 256) :: 8 word)"
proof -
  have f: "(0xC0 :: 32 word) = push_bit 6 (mask 2)" by (simp add: mask_eq_exp_minus_1 push_bit_eq_mult)
  have n: "unat c = m + 0x10000" "m < 0x100000" using assms by (simp_all add: word_less_nat_alt)
  have um: "unat (c - 0x10000) = m" using n assms by (subst unat_sub) (simp_all add: word_le_nat_alt)
  note fields = and_field_nat and_mask_nat unat_drop um n(1)
  have k: "(0xD8 :: 32 word) = word_of_nat 0xD8" "(0xDC :: 32 word) = word_of_nat 0xDC" by simp_all
  have "(m + 0x10000) div 2 ^ 10 mod 2 ^ 6 + m div 2 ^ 10 div 2 ^ 6 mod 2 ^ 2 * 2 ^ 6 = m div 1024 mod 256"
    using div_mult_self1 [of 1024 m 64] mod_mult2_eq [of "m div 1024" 64 4] by simp
  then show "ucast ((drop_bit 10 c AND 0x3F) + (drop_bit 10 (c - 0x10000) AND 0xC0)) = (word_of_nat (m div 1024 mod 256) :: 8 word)"
    unfolding f masks fields of_nat_add [symmetric] ucast_of_nat by simp
  have "m div 2 ^ 18 mod 2 ^ 2 = m div 1024 div 256" using n(2) by (simp add: div_less_iff_less_mult flip: div_mult2_eq)
  then show "ucast (0xD8 + (drop_bit 18 (c - 0x10000) AND 3)) = (word_of_nat (0xD8 + m div 1024 div 256) :: 8 word)"
    unfolding masks fields k of_nat_add [symmetric] ucast_of_nat by simp
  have "(m + 0x10000) mod 2 ^ 8 = m mod 1024 mod 256"
    using mod_mult_self1 [of m 256 256] by (simp add: mod_mod_cancel)
  then show "ucast (c AND 0xFF) = (word_of_nat (m mod 1024 mod 256) :: 8 word)"
    unfolding masks fields ucast_of_nat by simp
  have "(m + 0x10000) div 2 ^ 8 mod 2 ^ 2 = m mod 1024 div 256"
    using div_mult_self1 [of 256 m 256] mod_mult_self1 [of "m div 256" 64 4] mod_mult2_eq [of m 256 4] by (simp add: add.commute)
  then show "ucast (0xDC + (drop_bit 8 c AND 3)) = (word_of_nat (0xDC + m mod 1024 div 256) :: 8 word)"
    unfolding masks fields k of_nat_add [symmetric] ucast_of_nat by simp
qed

lemma unit_of_bytes:
  assumes "lo < 256" "hi < 256"
  shows "ucast (word_of_nat lo :: 8 word) + push_bit 8 (ucast (word_of_nat hi :: 8 word)) = (word_of_nat (hi * 256 + lo) :: 32 word)"
    and "push_bit 8 (ucast (word_of_nat hi :: 8 word)) + ucast (word_of_nat lo :: 8 word) = (word_of_nat (hi * 256 + lo) :: 32 word)"
  using assms by (simp_all add: byte_of_nat push_bit_eq_mult)

text \<open>The characters that UTF-16 keeps.\<close>

definition scalar16 :: "32 word \<Rightarrow> bool" where
  "scalar16 c \<longleftrightarrow> c < 0x110000 \<and> \<not> (0xD800 \<le> c \<and> c < 0xE000)"

lemma basic_bytes:
  assumes "c \<le> (0xFFFF :: 32 word)"
  shows "ucast (c AND 0xFF) = (word_of_nat (unat c mod 256) :: 8 word)"
    and "ucast (drop_bit 8 c AND 0xFF) = (word_of_nat (unat c div 256) :: 8 word)"
  using assms unfolding masks and_mask_nat unat_drop ucast_of_nat by (simp_all add: word_le_nat_alt)

lemma surrogate_units:
  assumes "(m :: nat) < 0x100000"
  shows "(0xD8 + m div 1024 div 256) * 256 + m div 1024 mod 256 = 0xD800 + m div 1024"
    and "(0xDC + m mod 1024 div 256) * 256 + m mod 1024 mod 256 = 0xDC00 + m mod 1024"
    and "m div 1024 < 1024" and "0xD8 + m div 1024 div 256 < 256" and "0xDC + m mod 1024 div 256 < 256"
  using assms div_mult_mod_eq [of "m div 1024" 256] div_mult_mod_eq [of "m mod 1024" 256]
  by (simp_all add: div_less_iff_less_mult)

lemma high_surrogate: "h < 1024 \<Longrightarrow> 0xD800 \<le> (word_of_nat (0xD800 + h) :: 32 word) \<and> (word_of_nat (0xD800 + h) :: 32 word) < 0xE000"
  using unat_of_nat32 [of "0xD800 + h"] by (simp add: word_le_nat_alt word_less_nat_alt del: of_nat_add)

lemma READ_UTF16_WRITE_UTF16:
  assumes "scalar16 c"
  shows "READ_UTF16LE (WRITE_UTF16LE c @ z) = Some (c, z)" and "READ_UTF16BE (WRITE_UTF16BE c @ z) = Some (c, z)"
proof -
  have "READ_UTF16LE (WRITE_UTF16LE c @ z) = Some (c, z) \<and> READ_UTF16BE (WRITE_UTF16BE c @ z) = Some (c, z)"
  proof (cases "c \<le> 0xFFFF")
    case True
    have "unat c div 256 * 256 + unat c mod 256 = unat c" "unat c div 256 < 256" using True by (simp_all add: word_le_nat_alt)
    then have "ucast (word_of_nat (unat c mod 256) :: 8 word) + push_bit 8 (ucast (word_of_nat (unat c div 256) :: 8 word)) = c"
      "push_bit 8 (ucast (word_of_nat (unat c div 256) :: 8 word)) + ucast (word_of_nat (unat c mod 256) :: 8 word) = c"
      using unit_of_bytes [of "unat c mod 256" "unat c div 256"] by simp_all
    then show ?thesis
      using True assms by (auto simp: WRITE_UTF16LE_def WRITE_UTF16BE_def basic_bytes scalar16_def Let_def simp del: of_nat_add)
  next
    case False
    define m where "m = unat c - 0x10000"
    have c: "0xFFFF < c" "c < 0x110000" using False assms by (simp_all add: scalar16_def)
    then have m: "m < 0x100000" "word_of_nat (m + 0x10000) = c" by (simp_all add: m_def word_less_nat_alt)
    note su = surrogate_units [OF m(1)]
    note pb = pair_bytes [OF c m_def]
    have units: "ucast (word_of_nat (m div 1024 mod 256) :: 8 word) + push_bit 8 (ucast (word_of_nat (0xD8 + m div 1024 div 256) :: 8 word))
        = (word_of_nat (0xD800 + m div 1024) :: 32 word)"
      "push_bit 8 (ucast (word_of_nat (0xD8 + m div 1024 div 256) :: 8 word)) + ucast (word_of_nat (m div 1024 mod 256) :: 8 word)
        = (word_of_nat (0xD800 + m div 1024) :: 32 word)"
      "ucast (word_of_nat (m mod 1024 mod 256) :: 8 word) + push_bit 8 (ucast (word_of_nat (0xDC + m mod 1024 div 256) :: 8 word))
        = (word_of_nat (0xDC00 + m mod 1024) :: 32 word)"
      "push_bit 8 (ucast (word_of_nat (0xDC + m mod 1024 div 256) :: 8 word)) + ucast (word_of_nat (m mod 1024 mod 256) :: 8 word)
        = (word_of_nat (0xDC00 + m mod 1024) :: 32 word)"
      unfolding su(1,2) [symmetric] by (rule unit_of_bytes; use su(4,5) in simp)+
    have "surrogates (word_of_nat (0xD800 + m div 1024)) (word_of_nat (0xDC00 + m mod 1024)) = c"
      using surrogates_nat [OF su(3), of "m mod 1024"] m(2) by simp
    then show ?thesis
      using False high_surrogate [OF su(3)] by (simp add: WRITE_UTF16LE_def WRITE_UTF16BE_def pb units Let_def del: of_nat_add of_nat_mult)
  qed
  then show "READ_UTF16LE (WRITE_UTF16LE c @ z) = Some (c, z)" and "READ_UTF16BE (WRITE_UTF16BE c @ z) = Some (c, z)" by auto
qed

section \<open>Translation\<close>

text \<open>The encodings of a text.\<close>

definition writer :: "nat \<Rightarrow> 32 word \<Rightarrow> bytes" where
  "writer enc = (if enc = SQLITE_UTF8 then WRITE_UTF8 else if enc = SQLITE_UTF16LE then WRITE_UTF16LE else WRITE_UTF16BE)"

definition encode :: "nat \<Rightarrow> 32 word list \<Rightarrow> bytes" where
  "encode enc us = concat (map (writer enc) us)"

lemma encode_simps [simp]: "encode enc [] = []" "encode enc (u # us) = writer enc u @ encode enc us"
  by (simp_all add: encode_def)

lemma translate_loop_encode:
  assumes "\<And>u us. u \<in> set vs \<Longrightarrow> rdc (w u @ concat (map w us)) = Some (u, concat (map w us))" "\<And>u. w u \<noteq> []"
  shows "translate_loop rdc wrc (concat (map w vs)) = Some (concat (map wrc vs))"
  using assms
proof (induction vs)
  case (Cons v vs)
  moreover have "w v @ concat (map w vs) \<noteq> []" using Cons.prems(2) by simp
  ultimately show ?case by (subst translate_loop.simps) simp
qed (simp add: translate_loop.simps)

lemma WRITE_UTF8_starts: "starts (WRITE_UTF8 c @ z)"
proof -
  have low: "(word_of_nat x :: 8 word) AND 0xc0 \<noteq> 0x80" if "x < 128" for x
    by (rule table [where n = 128 and P = "\<lambda>x. (word_of_nat x :: 8 word) AND 0xc0 \<noteq> 0x80", OF _ that]) code_simp
  have high: "(word_of_nat (0xC0 + x) :: 8 word) AND 0xc0 \<noteq> 0x80" if "x < 64" for x
    by (rule table [where n = 64 and P = "\<lambda>x. (word_of_nat (0xC0 + x) :: 8 word) AND 0xc0 \<noteq> 0x80", OF _ that]) code_simp
  define n where "n = unat c"
  have "hd (WRITE_UTF8 c) AND 0xc0 \<noteq> 0x80"
    using low [of n] high [of "n div 64"] high [of "0x20 + n div 4096"] high [of "n div 64 mod 32"] high [of "0x20 + n div 4096 mod 16"] high [of "0x30 + n div 262144 mod 8"]
      mod_less_divisor [of 32 "n div 64"] mod_less_divisor [of 16 "n div 4096"] mod_less_divisor [of 8 "n div 262144"]
    by (simp add: WRITE_UTF8_nat Let_def div_less_iff_less_mult del: mod_less_divisor of_nat_add flip: n_def)
  then show ?thesis by (auto simp: starts_def WRITE_UTF8_def)
qed

lemma encode_starts: "starts (concat (map WRITE_UTF8 us))"
  by (cases us) (simp_all add: WRITE_UTF8_starts starts_def [of "[]"])

lemma swap_encode: "swap_bytes (concat (map WRITE_UTF16LE us)) = concat (map WRITE_UTF16BE us)"
  "swap_bytes (concat (map WRITE_UTF16BE us)) = concat (map WRITE_UTF16LE us)"
  by (induction us) (simp_all add: WRITE_UTF16LE_def WRITE_UTF16BE_def)

lemma length_UTF16_even: "even (length (concat (map WRITE_UTF16LE us)))" "even (length (concat (map WRITE_UTF16BE us)))"
  by (induction us) (simp_all add: WRITE_UTF16LE_def WRITE_UTF16BE_def)

lemma scalar_16: "scalar c \<Longrightarrow> scalar16 c"
  by (auto simp: scalar_def scalar16_def)

lemma translate_from_UTF8:
  assumes "\<forall>u \<in> set us. scalar u"
  shows "translate_loop READ_UTF8 wrc (concat (map WRITE_UTF8 us)) = Some (concat (map wrc us))"
proof (rule translate_loop_encode)
  fix u and vs :: "32 word list" assume "u \<in> set us"
  then show "READ_UTF8 (WRITE_UTF8 u @ concat (map WRITE_UTF8 vs)) = Some (u, concat (map WRITE_UTF8 vs))"
    using assms sqlite3Utf8Read_WRITE_UTF8 [of u] encode_starts [of vs]
    by (subst READ_UTF8_eq) (auto simp: WRITE_UTF8_def)
qed (simp add: WRITE_UTF8_def)

lemma translate_from_UTF16:
  assumes "\<forall>u \<in> set us. scalar u"
  shows "translate_loop READ_UTF16LE wrc (concat (map WRITE_UTF16LE us)) = Some (concat (map wrc us))"
    and "translate_loop READ_UTF16BE wrc (concat (map WRITE_UTF16BE us)) = Some (concat (map wrc us))"
  by (rule translate_loop_encode; use assms READ_UTF16_WRITE_UTF16 scalar_16 in \<open>auto simp: WRITE_UTF16LE_def WRITE_UTF16BE_def\<close>)+

text \<open>Property C14: translation between the encodings keeps the text. For every sequence of Unicode characters other than
  surrogates, U+FFFE and U+FFFF, and for every two of UTF-8, UTF-16 little-endian and UTF-16 big-endian, the translation of
  its encoding in the first is its encoding in the second; so a string translated there and back is unchanged.\<close>
theorem translate_encodes:
  assumes "\<forall>u \<in> set us. scalar u" and "{e1, e2} \<subseteq> {SQLITE_UTF8, SQLITE_UTF16LE, SQLITE_UTF16BE}" and "e1 \<noteq> e2"
  shows "translate_content e1 e2 (encode e1 us) = Some (encode e2 us)"
proof -
  have e: "SQLITE_UTF8 \<noteq> SQLITE_UTF16LE" "SQLITE_UTF8 \<noteq> SQLITE_UTF16BE" "SQLITE_UTF16LE \<noteq> SQLITE_UTF16BE"
    by (simp_all add: encodings)
  show ?thesis
    using assms(2,3) e translate_from_UTF8 [OF assms(1)] translate_from_UTF16 [OF assms(1)] swap_encode [of us] length_UTF16_even [of us]
    by (auto simp: translate_content_def encode_def writer_def even_iff_mod_2_eq_zero Let_def)
qed

text \<open>Characters of one, two, three and four bytes, to UTF-16.\<close>

theorem translate_encodes_witness:
  "translate_content SQLITE_UTF8 SQLITE_UTF16LE [0x24, 0xC3, 0xA9, 0xE2, 0x82, 0xAC, 0xF0, 0x9F, 0x98, 0x80] =
    Some [0x24, 0x00, 0xE9, 0x00, 0xAC, 0x20, 0x3D, 0xD8, 0x00, 0xDE]"
proof -
  let ?us = "[0x24, 0xE9, 0x20AC, 0x1F600] :: 32 word list"
  have "encode SQLITE_UTF8 ?us = [0x24, 0xC3, 0xA9, 0xE2, 0x82, 0xAC, 0xF0, 0x9F, 0x98, 0x80]"
    and "encode SQLITE_UTF16LE ?us = [0x24, 0x00, 0xE9, 0x00, 0xAC, 0x20, 0x3D, 0xD8, 0x00, 0xDE]" by code_simp+
  moreover have "\<forall>u \<in> set ?us. scalar u" by (simp add: scalar_def)
  ultimately show ?thesis
    using translate_encodes [of ?us SQLITE_UTF8 SQLITE_UTF16LE] by (simp add: encodings)
qed

section \<open>The output buffer\<close>

lemma translate_loop_bound:
  assumes "I z"
    and "\<And>z. I z \<Longrightarrow> z \<noteq> [] \<Longrightarrow> \<exists>c z'. rdc z = Some (c, z') \<and> I z' \<and> length z' < length z \<and> length (wrc c) + 2 * length z' \<le> 2 * length z"
  shows "\<exists>out. translate_loop rdc wrc z = Some out \<and> length out \<le> 2 * length z"
  using assms(1)
proof (induction z rule: length_induct)
  case (1 z)
  show ?case
  proof (cases "z = []")
    case False
    then obtain c z' where r: "rdc z = Some (c, z')" "I z'" "length z' < length z" "length (wrc c) + 2 * length z' \<le> 2 * length z"
      using assms(2) 1(2) by blast
    then obtain out where "translate_loop rdc wrc z' = Some out" "length out \<le> 2 * length z'" using 1(1) by blast
    then show ?thesis using r False by (subst translate_loop.simps) simp
  qed (simp add: translate_loop.simps)
qed

lemma continuation_none: "continuation z c = (c', z') \<Longrightarrow> length z' = length z \<Longrightarrow> c' = c \<and> z' = z"
  by (cases z) (auto split: if_splits dest!: continuation_length)

lemma Trans1_small: "unat (sqlite3Utf8Trans1 ! unat (b - 0xc0)) < 0x20" if "0xc0 \<le> (b :: 8 word)"
proof -
  have "unat (b - 0xc0) = unat b - 192" using that by (simp add: unat_sub)
  then have "unat (b - 0xc0) < 64" using unat_byte_less [of b] by linarith
  then show ?thesis
    by (intro table [where n = 64 and P = "\<lambda>i. unat (sqlite3Utf8Trans1 ! i) < 0x20"]) (code_simp, assumption)
qed

lemma read_one_byte:
  assumes "sqlite3Utf8Read (b # z) = (c, z)"
  shows "c \<le> 0xFFFF"
proof (cases "0xc0 \<le> b")
  case True
  obtain c' where c': "continuation z (ucast (sqlite3Utf8Trans1 ! unat (b - 0xc0))) = (c', z)" "c = replace_invalid c'"
    using assms True by (auto split: prod.splits)
  then have "c' = ucast (sqlite3Utf8Trans1 ! unat (b - 0xc0))" using continuation_none by blast
  then have "c' < 0x80" using Trans1_small [OF True] by (simp add: word_less_nat_alt unsigned_ucast_eq take_bit_nat_eq_self)
  then show ?thesis using c'(2) by (simp add: replace_invalid_def)
next
  case False
  then show ?thesis
    using assms unsigned_less [of b, where ?'a = nat] by (auto simp: word_le_nat_alt unsigned_ucast_eq take_bit_nat_eq_self)
qed

lemma READ_UTF8_bound:
  assumes "z \<noteq> []" "\<And>c. length (wrc c) \<le> 4" "\<And>c. c \<le> 0xFFFF \<Longrightarrow> length (wrc c) \<le> 2"
  shows "\<exists>c z'. READ_UTF8 z = Some (c, z') \<and> length z' < length z \<and> length (wrc c) + 2 * length z' \<le> 2 * length z"
proof -
  obtain b y where z: "z = b # y" using assms(1) by (cases z) auto
  obtain c z' where r: "sqlite3Utf8Read z = (c, z')" by fastforce
  have le: "length z' \<le> length y" using r z continuation_length by (auto split: if_splits prod.splits)
  have "z' = y" if "length z' = length y" using that r z continuation_none by (auto split: if_splits prod.splits)
  then have "length (wrc c) \<le> 2 \<or> length z' < length y" using le assms(3) read_one_byte r z by fastforce
  then show ?thesis using r z le assms(2) [of c] READ_UTF8_eq [OF assms(1)] by auto
qed

lemma WRITE_UTF8_length: "length (WRITE_UTF8 c) \<le> 4" "c \<le> 0xFFFF \<Longrightarrow> length (WRITE_UTF8 c) \<le> 3"
  by (auto simp: WRITE_UTF8_def word_le_nat_alt word_less_nat_alt)

lemma unit_small: "ucast (b :: 8 word) + push_bit 8 (ucast (b' :: 8 word)) \<le> (0xFFFF :: 32 word)"
  "push_bit 8 (ucast (b' :: 8 word)) + ucast (b :: 8 word) \<le> (0xFFFF :: 32 word)"
proof -
  have le: "unat b' * 256 + unat b \<le> 65535" using unat_byte_less [of b] unat_byte_less [of b'] by linarith
  moreover have "unat (word_of_nat (unat b' * 256 + unat b) :: 32 word) = unat b' * 256 + unat b"
    by (rule unat_of_nat32, rule le_less_trans [OF le]) simp
  ultimately have "(word_of_nat (unat b' * 256 + unat b) :: 32 word) \<le> 0xFFFF" by (simp only: word_le_nat_alt) simp
  then show "ucast b + push_bit 8 (ucast b') \<le> (0xFFFF :: 32 word)" "push_bit 8 (ucast b') + ucast b \<le> (0xFFFF :: 32 word)"
    using unit_of_bytes [OF unat_byte_less [of b] unat_byte_less [of b']] by (simp_all del: of_nat_add of_nat_mult)
qed

lemma WRITE_UTF16_length: "length (WRITE_UTF16LE c) \<le> 4" "c \<le> 0xFFFF \<Longrightarrow> length (WRITE_UTF16LE c) \<le> 2"
  "length (WRITE_UTF16BE c) \<le> 4" "c \<le> 0xFFFF \<Longrightarrow> length (WRITE_UTF16BE c) \<le> 2"
  by (simp_all add: WRITE_UTF16LE_def WRITE_UTF16BE_def)

lemma READ_UTF16_bound:
  assumes "even (length z)" "z \<noteq> []"
  shows "\<exists>c z'. READ_UTF16LE z = Some (c, z') \<and> even (length z') \<and> length z' < length z \<and> length (WRITE_UTF8 c) + 2 * length z' \<le> 2 * length z"
    and "\<exists>c z'. READ_UTF16BE z = Some (c, z') \<and> even (length z') \<and> length z' < length z \<and> length (WRITE_UTF8 c) + 2 * length z' \<le> 2 * length z"
proof -
  obtain b0 b1 y where z: "z = b0 # b1 # y" using assms by (cases z rule: READ_UTF16LE.cases) auto
  have "even (length y)" using assms z by simp
  then consider "y = []" | b2 b3 y' where "y = b2 # b3 # y'" "even (length y')" by (cases y rule: READ_UTF16LE.cases) auto
  note y = this
  let ?ok = "\<lambda>c z'. even (length z') \<and> (c \<le> 0xFFFF \<and> length z = length z' + 2 \<or> length z = length z' + 4)"
  have bound: "length z' < length z \<and> length (WRITE_UTF8 c) + 2 * length z' \<le> 2 * length z" if "?ok c z'" for c z'
    using that WRITE_UTF8_length [of c] by auto
  have "\<exists>c z'. READ_UTF16LE z = Some (c, z') \<and> ?ok c z'" by (cases rule: y) (auto simp: z Let_def unit_small)
  then show "\<exists>c z'. READ_UTF16LE z = Some (c, z') \<and> even (length z') \<and> length z' < length z \<and> length (WRITE_UTF8 c) + 2 * length z' \<le> 2 * length z"
    using bound by blast
  have "\<exists>c z'. READ_UTF16BE z = Some (c, z') \<and> ?ok c z'" by (cases rule: y) (auto simp: z Let_def unit_small)
  then show "\<exists>c z'. READ_UTF16BE z = Some (c, z') \<and> even (length z') \<and> length z' < length z \<and> length (WRITE_UTF8 c) + 2 * length z' \<le> 2 * length z"
    using bound by blast
qed

lemma translate_bound:
  assumes "e1 = SQLITE_UTF8 \<and> e2 \<in> {SQLITE_UTF16LE, SQLITE_UTF16BE} \<or> e1 \<in> {SQLITE_UTF16LE, SQLITE_UTF16BE} \<and> e2 = SQLITE_UTF8"
  shows "\<exists>out. translate_content e1 e2 z = Some out \<and> length out + length (terminator e2) \<le> translate_len e2 (length z)"
proof -
  have e: "SQLITE_UTF8 \<noteq> SQLITE_UTF16LE" "SQLITE_UTF8 \<noteq> SQLITE_UTF16BE" "SQLITE_UTF16LE \<noteq> SQLITE_UTF16BE" by (simp_all add: encodings)
  define y where "y = take (length z - length z mod 2) z"
  have y: "even (length y)" "length y = length z - length z mod 2" by (simp_all add: y_def)
  have "\<exists>out. translate_loop READ_UTF8 WRITE_UTF16LE z = Some out \<and> length out \<le> 2 * length z"
    "\<exists>out. translate_loop READ_UTF8 WRITE_UTF16BE z = Some out \<and> length out \<le> 2 * length z"
    by (rule translate_loop_bound [where I = "\<lambda>_. True"]; simp add: READ_UTF8_bound WRITE_UTF16_length)+
  moreover have "\<exists>out. translate_loop READ_UTF16LE WRITE_UTF8 y = Some out \<and> length out \<le> 2 * length y"
    "\<exists>out. translate_loop READ_UTF16BE WRITE_UTF8 y = Some out \<and> length out \<le> 2 * length y"
    by (rule translate_loop_bound [where I = "\<lambda>z. even (length z)"]; use y(1) READ_UTF16_bound in auto)+
  ultimately show ?thesis
    using assms e y by (auto simp: translate_content_def translate_len_def terminator_def Let_def simp flip: y_def)
qed

text \<open>Property C15: translation stays within its buffers. Whatever bytes a string holds, valid in its encoding or not, the
  loops of \<open>sqlite3VdbeMemTranslate\<close> read no byte outside it, end, and write at most the number of bytes the function
  allocated, terminator included.\<close>
theorem translate_fits:
  assumes "e1 = SQLITE_UTF8 \<and> e2 \<in> {SQLITE_UTF16LE, SQLITE_UTF16BE} \<or> e1 \<in> {SQLITE_UTF16LE, SQLITE_UTF16BE} \<and> e2 = SQLITE_UTF8"
  shows "\<exists>out. translate_content e1 e2 z = Some out \<and> length out + length (terminator e2) \<le> translate_len e2 (length z)"
  using assms by (rule translate_bound)

text \<open>A string that ends inside a character.\<close>

theorem translate_fits_witness:
  "\<exists>out. translate_content SQLITE_UTF8 SQLITE_UTF16BE [0x61, 0xF0, 0x9F] = Some out \<and>
    length out + length (terminator SQLITE_UTF16BE) \<le> translate_len SQLITE_UTF16BE (length [0x61, 0xF0, 0x9F :: 8 word])"
  using translate_fits [of SQLITE_UTF8 SQLITE_UTF16BE "[0x61, 0xF0, 0x9F]"] by simp

end
