(* ===== verification/Sqlite_Mem_Own.thy ===== *)
theory Sqlite_Mem_Own
  imports Sqlite_Mem Sqlite_Utf_Spec "HOL-Library.Multiset"
begin

text \<open>
  How the memory cells account for memory. A cell owns at most the one block of its allocation, every operation leaves all
  other blocks as they are, and every destructor that a cell was given is called once or is still due.
\<close>

section \<open>Flags\<close>

named_theorems flag_simps \<open>the flags of a cell as bits\<close>

lemmas flag_defs = MEM_Null_def MEM_Str_def MEM_Int_def MEM_Real_def MEM_Blob_def MEM_IntReal_def MEM_FromBind_def MEM_Cleared_def
  MEM_Term_def MEM_Dyn_def MEM_Static_def MEM_Ephem_def MEM_Agg_def MEM_Zero_def MEM_Subtype_def MEM_AffMask_def

lemma flag_bits [flag_simps]:
  "bit MEM_Null k \<longleftrightarrow> k = 0" "bit MEM_Str k \<longleftrightarrow> k = 1" "bit MEM_Int k \<longleftrightarrow> k = 2" "bit MEM_Real k \<longleftrightarrow> k = 3"
  "bit MEM_Blob k \<longleftrightarrow> k = 4" "bit MEM_IntReal k \<longleftrightarrow> k = 5" "bit MEM_FromBind k \<longleftrightarrow> k = 6" "bit MEM_Cleared k \<longleftrightarrow> k = 8"
  "bit MEM_Term k \<longleftrightarrow> k = 9" "bit MEM_Dyn k \<longleftrightarrow> k = 10" "bit MEM_Static k \<longleftrightarrow> k = 11" "bit MEM_Ephem k \<longleftrightarrow> k = 12"
  "bit MEM_Agg k \<longleftrightarrow> k = 13" "bit MEM_Zero k \<longleftrightarrow> k = 14" "bit MEM_Subtype k \<longleftrightarrow> k = 15" "bit MEM_AffMask k \<longleftrightarrow> k < 6"
proof -
  have p: "bit (2 ^ i :: 16 word) k \<longleftrightarrow> k = i" if "i < 16" for i using that by (auto simp: bit_exp_iff)
  have m: "bit (mask i :: 16 word) k \<longleftrightarrow> k < i" if "i \<le> 16" for i using that by (auto simp: bit_mask_iff)
  show "bit MEM_Null k \<longleftrightarrow> k = 0" "bit MEM_Str k \<longleftrightarrow> k = 1" "bit MEM_Int k \<longleftrightarrow> k = 2" "bit MEM_Real k \<longleftrightarrow> k = 3"
    "bit MEM_Blob k \<longleftrightarrow> k = 4" "bit MEM_IntReal k \<longleftrightarrow> k = 5" "bit MEM_FromBind k \<longleftrightarrow> k = 6" "bit MEM_Cleared k \<longleftrightarrow> k = 8"
    "bit MEM_Term k \<longleftrightarrow> k = 9" "bit MEM_Dyn k \<longleftrightarrow> k = 10" "bit MEM_Static k \<longleftrightarrow> k = 11" "bit MEM_Ephem k \<longleftrightarrow> k = 12"
    "bit MEM_Agg k \<longleftrightarrow> k = 13" "bit MEM_Zero k \<longleftrightarrow> k = 14" "bit MEM_Subtype k \<longleftrightarrow> k = 15" "bit MEM_AffMask k \<longleftrightarrow> k < 6"
    using p [of 0] p [of 1] p [of 2] p [of 3] p [of 4] p [of 5] p [of 6] p [of 8] p [of 9] p [of 10] p [of 11] p [of 12] p [of 13]
      p [of 14] p [of 15] m [of 6]
    by (simp_all add: flag_defs mask_eq_exp_minus_1)
qed

lemma and_or_zero: "(x :: 16 word) AND (a OR b) = 0 \<longleftrightarrow> x AND a = 0 \<and> x AND b = 0"
  by (auto simp: bit_eq_iff bit_simps)

lemma has_or [flag_simps]: "has m (a OR b) \<longleftrightarrow> has m a \<or> has m b"
  by (auto simp: has_def and_or_zero)

lemma has_bit [flag_simps]:
  "has m MEM_Null \<longleftrightarrow> bit (flags m) 0" "has m MEM_Str \<longleftrightarrow> bit (flags m) 1" "has m MEM_Int \<longleftrightarrow> bit (flags m) 2"
  "has m MEM_Real \<longleftrightarrow> bit (flags m) 3" "has m MEM_Blob \<longleftrightarrow> bit (flags m) 4" "has m MEM_IntReal \<longleftrightarrow> bit (flags m) 5"
  "has m MEM_Cleared \<longleftrightarrow> bit (flags m) 8" "has m MEM_Term \<longleftrightarrow> bit (flags m) 9" "has m MEM_Dyn \<longleftrightarrow> bit (flags m) 10"
  "has m MEM_Static \<longleftrightarrow> bit (flags m) 11" "has m MEM_Ephem \<longleftrightarrow> bit (flags m) 12" "has m MEM_Agg \<longleftrightarrow> bit (flags m) 13"
  "has m MEM_Zero \<longleftrightarrow> bit (flags m) 14" "has m MEM_Subtype \<longleftrightarrow> bit (flags m) 15"
  using and_exp_eq_0_iff_not_bit [of "flags m" 0] and_exp_eq_0_iff_not_bit [of "flags m" 1] and_exp_eq_0_iff_not_bit [of "flags m" 2]
    and_exp_eq_0_iff_not_bit [of "flags m" 3] and_exp_eq_0_iff_not_bit [of "flags m" 4] and_exp_eq_0_iff_not_bit [of "flags m" 5]
    and_exp_eq_0_iff_not_bit [of "flags m" 8] and_exp_eq_0_iff_not_bit [of "flags m" 9] and_exp_eq_0_iff_not_bit [of "flags m" 10]
    and_exp_eq_0_iff_not_bit [of "flags m" 11] and_exp_eq_0_iff_not_bit [of "flags m" 12] and_exp_eq_0_iff_not_bit [of "flags m" 13]
    and_exp_eq_0_iff_not_bit [of "flags m" 14] and_exp_eq_0_iff_not_bit [of "flags m" 15]
  by (simp_all add: has_def flag_defs)

lemmas flag_ops = flag_simps bit_and_iff bit_or_iff bit_not_iff

section \<open>Ownership\<close>

definition env_ok :: "mem_env \<Rightarrow> bool" where
  "env_ok e \<longleftrightarrow> (\<forall>n. n \<le> usable e n)"

definition heap_ok :: "mheap \<Rightarrow> bool" where
  "heap_ok h \<longleftrightarrow> (\<forall>b \<in> dom (blocks h). b < next_block h)"

definition own :: "mem \<Rightarrow> nat set" where
  "own m = (if szMalloc m > 0 then {b. zMalloc m = Block b} else {})"

definition others :: "mheap \<Rightarrow> mem \<Rightarrow> nat \<rightharpoonup> bytes" where
  "others h m = blocks h |` (- own m)"

text \<open>The destructor call that a cell still has to make.\<close>

definition pend :: "mem \<Rightarrow> (nat \<times> nat) multiset" where
  "pend m = (if has m MEM_Dyn then case (xDel m, mz m) of (Some d, Extern x) \<Rightarrow> {#(d, x)#} | _ \<Rightarrow> {#} else {#})"

definition wf_cell :: "mheap \<Rightarrow> mem \<Rightarrow> bool" where
  "wf_cell h m \<longleftrightarrow> heap_ok h \<and> (szMalloc m > 0 \<longrightarrow> malloc_size (zMalloc m) h = Some (szMalloc m)) \<and>
     (has m MEM_Dyn \<longrightarrow> szMalloc m = 0 \<and> xDel m \<noteq> None \<and> (\<exists>x. mz m = Extern x)) \<and> \<not> has m MEM_Agg"

text \<open>One operation on a cell: the cell is well-formed again, the rest of the heap is as before, and the destructors called
  are the ones that were due. \<open>G\<close> are the destructors handed over to the cell.\<close>

definition step :: "mem \<Rightarrow> mheap \<Rightarrow> mem \<Rightarrow> mheap \<Rightarrow> (nat \<times> nat) multiset \<Rightarrow> bool" where
  "step m h m' h' G \<longleftrightarrow> wf_cell h' m' \<and> others h' m' = others h m \<and>
     mset (deleted h') + pend m' = mset (deleted h) + pend m + G"

lemma step_trans: "step m h m1 h1 G \<Longrightarrow> step m1 h1 m2 h2 G' \<Longrightarrow> step m h m2 h2 (G + G')"
  by (auto simp: step_def)

lemma step_trans0: "step m h m1 h1 {#} \<Longrightarrow> step m1 h1 m2 h2 G \<Longrightarrow> step m h m2 h2 G"
  by (drule (1) step_trans) simp

lemma step_refl: "wf_cell h m \<Longrightarrow> step m h m h {#}"
  by (simp add: step_def)

lemma step_wf: "step m h m' h' G \<Longrightarrow> wf_cell h' m'"
  by (simp add: step_def)

text \<open>The cell's text is in its own allocation, with the content \<open>buf\<close>.\<close>

definition holds :: "mheap \<Rightarrow> mem \<Rightarrow> bytes \<Rightarrow> bool" where
  "holds h m buf \<longleftrightarrow> szMalloc m > 0 \<and> szMalloc m = length buf \<and> mz m = zMalloc m \<and>
     (\<exists>b. zMalloc m = Block b \<and> blocks h b = Some buf)"

lemma wf_block:
  assumes "wf_cell h m" "szMalloc m > 0"
  obtains b s where "zMalloc m = Block b" "blocks h b = Some s" "length s = szMalloc m" "own m = {b}"
  using assms by (auto simp: wf_cell_def malloc_size_def own_def split: mem_ptr.splits)

lemma free_own:
  assumes "wf_cell h m" "szMalloc m > 0"
  shows "free_block (zMalloc m) h = Some (h\<lparr>blocks := others h m\<rparr>)"
proof -
  obtain b s where b: "zMalloc m = Block b" "blocks h b = Some s" "own m = {b}" using wf_block [OF assms] by blast
  have "(blocks h)(b := None) = others h m" by (auto simp: others_def b restrict_map_def)
  then show ?thesis by (simp add: free_block_def b)
qed

lemma others_none: "szMalloc m = 0 \<Longrightarrow> others h m = blocks h"
  by (auto simp: others_def own_def restrict_map_def)

lemma heap_ok_others: "heap_ok h \<Longrightarrow> heap_ok (h\<lparr>blocks := others h m\<rparr>)"
  by (auto simp: heap_ok_def others_def)

lemma free_if_own:
  assumes "wf_cell h m"
  shows "(if szMalloc m > 0 then free_block (zMalloc m) h else Some h) = Some (h\<lparr>blocks := others h m\<rparr>)"
  using free_own [OF assms] others_none [of m h] by auto

section \<open>Releasing a value\<close>

lemma call_due:
  assumes "has m MEM_Dyn \<longrightarrow> xDel m \<noteq> None \<and> (\<exists>x. mz m = Extern x)"
  obtains D where "(if has m MEM_Dyn then call_xDel m h else Some h) = Some (h\<lparr>deleted := D\<rparr>)" "mset D = mset (deleted h) + pend m"
proof -
  have "\<exists>D. (if has m MEM_Dyn then call_xDel m h else Some h) = Some (h\<lparr>deleted := D\<rparr>) \<and> mset D = mset (deleted h) + pend m"
  proof (cases "has m MEM_Dyn")
    case True
    then show ?thesis using assms by (auto simp: call_xDel_def pend_def)
  next
    case False
    then show ?thesis by (intro exI [of _ "deleted h"]) (simp add: pend_def)
  qed
  then show thesis using that by blast
qed

lemma SetNull_eq:
  assumes "has m MEM_Dyn \<longrightarrow> xDel m \<noteq> None \<and> (\<exists>x. mz m = Extern x)" "\<not> has m MEM_Agg"
  obtains D where "sqlite3VdbeMemSetNull m h = Some (m\<lparr>flags := MEM_Null\<rparr>, h\<lparr>deleted := D\<rparr>)" "mset D = mset (deleted h) + pend m"
proof -
  obtain D where D: "(if has m MEM_Dyn then call_xDel m h else Some h) = Some (h\<lparr>deleted := D\<rparr>)" "mset D = mset (deleted h) + pend m"
    using call_due assms(1) by blast
  then have "sqlite3VdbeMemSetNull m h = Some (m\<lparr>flags := MEM_Null\<rparr>, h\<lparr>deleted := D\<rparr>)"
    using assms(2) by (auto simp: sqlite3VdbeMemSetNull_def vdbeMemClearExternAndSetNull_def VdbeMemDynamic_def has_or split: if_splits)
  then show thesis using that D by blast
qed

lemma wf_due: "wf_cell h m \<Longrightarrow> has m MEM_Dyn \<longrightarrow> xDel m \<noteq> None \<and> (\<exists>x. mz m = Extern x)" "wf_cell h m \<Longrightarrow> \<not> has m MEM_Agg"
  by (auto simp: wf_cell_def)

lemma pend_none: "\<not> has m MEM_Dyn \<Longrightarrow> pend m = {#}"
  by (simp add: pend_def)

lemma wf_quiet:
  assumes "wf_cell h m" "\<not> has m' MEM_Dyn" "\<not> has m' MEM_Agg" "szMalloc m' = szMalloc m" "zMalloc m' = zMalloc m"
    "blocks h' = blocks h" "next_block h' = next_block h"
  shows "wf_cell h' m'" "others h' m' = others h m"
  using assms by (auto simp: wf_cell_def heap_ok_def malloc_size_def others_def own_def cong: mem_ptr.case_cong)

text \<open>Changes of the other fields of a cell.\<close>

lemma step_quiet:
  assumes "step m h m1 h1 G" "\<not> has m1 MEM_Dyn" "\<not> has m' MEM_Dyn" "\<not> has m' MEM_Agg" "szMalloc m' = szMalloc m1" "zMalloc m' = zMalloc m1"
  shows "step m h m' h1 G"
  using assms wf_quiet [OF step_wf [OF assms(1)] assms(3-6), of h1] by (simp add: step_def pend_none)

lemma SetNull_step:
  assumes "wf_cell h m"
  obtains D where "sqlite3VdbeMemSetNull m h = Some (m\<lparr>flags := MEM_Null\<rparr>, h\<lparr>deleted := D\<rparr>)"
    "step m h (m\<lparr>flags := MEM_Null\<rparr>) (h\<lparr>deleted := D\<rparr>) {#}"
proof -
  obtain D where D: "sqlite3VdbeMemSetNull m h = Some (m\<lparr>flags := MEM_Null\<rparr>, h\<lparr>deleted := D\<rparr>)" "mset D = mset (deleted h) + pend m"
    using SetNull_eq wf_due [OF assms] by blast
  have "\<not> has (m\<lparr>flags := MEM_Null\<rparr>) MEM_Dyn" "\<not> has (m\<lparr>flags := MEM_Null\<rparr>) MEM_Agg" by (simp_all add: flag_ops)
  then have "step m h (m\<lparr>flags := MEM_Null\<rparr>) (h\<lparr>deleted := D\<rparr>) {#}"
    using wf_quiet [OF assms, of "m\<lparr>flags := MEM_Null\<rparr>" "h\<lparr>deleted := D\<rparr>"] D(2) by (simp add: step_def pend_none)
  then show thesis using that D by blast
qed

text \<open>The first step of the operations that replace a value.\<close>

definition cleared :: "mem \<Rightarrow> mem" where
  "cleared m = (if has m MEM_Dyn then m\<lparr>flags := MEM_Null\<rparr> else m)"

lemma cleared_quiet: "\<not> has (cleared m) MEM_Dyn" "\<not> has m MEM_Agg \<Longrightarrow> \<not> has (cleared m) MEM_Agg"
  by (auto simp: cleared_def flag_ops)

lemma cleared_fields [simp]: "mu (cleared m) = mu m" "mn (cleared m) = mn m" "enc (cleared m) = enc m" "mz (cleared m) = mz m"
  "eSubtype (cleared m) = eSubtype m" "zMalloc (cleared m) = zMalloc m" "szMalloc (cleared m) = szMalloc m" "xDel (cleared m) = xDel m"
  by (auto simp: cleared_def)

lemma clear_due:
  assumes "wf_cell h m"
  obtains D where "(if VdbeMemDynamic m then vdbeMemClearExternAndSetNull m h else Some (m, h)) = Some (cleared m, h\<lparr>deleted := D\<rparr>)"
    "mset D = mset (deleted h) + pend m"
proof -
  obtain D where D: "(if has m MEM_Dyn then call_xDel m h else Some h) = Some (h\<lparr>deleted := D\<rparr>)" "mset D = mset (deleted h) + pend m"
    using call_due wf_due [OF assms] by blast
  then have "(if VdbeMemDynamic m then vdbeMemClearExternAndSetNull m h else Some (m, h)) = Some (cleared m, h\<lparr>deleted := D\<rparr>)"
    using wf_due(2) [OF assms] by (auto simp: vdbeMemClearExternAndSetNull_def VdbeMemDynamic_def has_or cleared_def split: if_splits)
  then show thesis using that D by blast
qed

text \<open>After a release the cell owns nothing and has nothing to call; the fields of its value are as before.\<close>

definition released :: "mem \<Rightarrow> mem" where
  "released m = (if VdbeMemDynamic m \<or> szMalloc m \<noteq> 0 then (cleared m)\<lparr>szMalloc := 0, mz := Null\<rparr> else m)"

lemma released_fields [simp]: "mu (released m) = mu m" "mn (released m) = mn m" "enc (released m) = enc m"
  "eSubtype (released m) = eSubtype m" "zMalloc (released m) = zMalloc m" "szMalloc (released m) = 0"
  by (auto simp: released_def)

lemma released_quiet: "\<not> has (released m) MEM_Dyn" "\<not> has m MEM_Agg \<Longrightarrow> \<not> has (released m) MEM_Agg"
  by (auto simp: released_def cleared_def VdbeMemDynamic_def flag_ops)

lemma Release_eq:
  assumes "wf_cell h m"
  obtains D where "sqlite3VdbeMemRelease m h = Some (released m, h\<lparr>blocks := others h m, deleted := D\<rparr>)"
    "mset D = mset (deleted h) + pend m"
proof (cases "VdbeMemDynamic m \<or> szMalloc m \<noteq> 0")
  case True
  obtain D where D: "(if VdbeMemDynamic m then vdbeMemClearExternAndSetNull m h else Some (m, h)) = Some (cleared m, h\<lparr>deleted := D\<rparr>)"
    "mset D = mset (deleted h) + pend m" by (rule clear_due [OF assms])
  have "wf_cell (h\<lparr>deleted := D\<rparr>) (cleared m)" "others (h\<lparr>deleted := D\<rparr>) (cleared m) = others h m"
    by (rule wf_quiet [OF assms]; simp add: cleared_quiet wf_due(2) [OF assms])+
  then have "vdbeMemClear m h = Some ((cleared m)\<lparr>szMalloc := 0, mz := Null\<rparr>, h\<lparr>blocks := others h m, deleted := D\<rparr>)"
    using free_own [of "h\<lparr>deleted := D\<rparr>" "cleared m"] others_none [of m h] by (simp add: vdbeMemClear_def D(1))
  then show thesis using that True D(2) by (simp add: sqlite3VdbeMemRelease_def released_def)
next
  case False
  then have "sqlite3VdbeMemRelease m h = Some (released m, h\<lparr>blocks := others h m, deleted := deleted h\<rparr>)" "pend m = {#}"
    by (simp_all add: sqlite3VdbeMemRelease_def released_def others_none pend_def VdbeMemDynamic_def has_or)
  then show thesis by (intro that) simp_all
qed

lemma wf_empty:
  assumes "wf_cell h m" "szMalloc m' = 0" "\<not> has m' MEM_Dyn" "\<not> has m' MEM_Agg" "blocks h' = others h m" "next_block h' = next_block h"
  shows "wf_cell h' m'" "others h' m' = others h m"
  using assms by (auto simp: wf_cell_def others_none) (auto simp: heap_ok_def others_def)

lemma Release_step:
  assumes "wf_cell h m"
  obtains D where "sqlite3VdbeMemRelease m h = Some (released m, h\<lparr>blocks := others h m, deleted := D\<rparr>)"
    "step m h (released m) (h\<lparr>blocks := others h m, deleted := D\<rparr>) {#}"
proof -
  obtain D where D: "sqlite3VdbeMemRelease m h = Some (released m, h\<lparr>blocks := others h m, deleted := D\<rparr>)"
    "mset D = mset (deleted h) + pend m" by (rule Release_eq [OF assms])
  have "step m h (released m) (h\<lparr>blocks := others h m, deleted := D\<rparr>) {#}"
    using wf_empty [OF assms, of "released m" "h\<lparr>blocks := others h m, deleted := D\<rparr>"] released_quiet wf_due(2) [OF assms] D(2)
    by (simp add: step_def pend_none)
  then show thesis using that D by blast
qed

section \<open>Growing\<close>

lemma new_block_cases:
  assumes "env_ok e" "heap_ok h"
  obtains (fail) "new_block e n old h = (Null, h\<lparr>mallocs := Suc (mallocs h)\<rparr>)"
  | (ok) b buf where "new_block e n old h = (Block b, h\<lparr>mallocs := Suc (mallocs h), next_block := Suc b, blocks := (blocks h)(b \<mapsto> buf)\<rparr>)"
      "b = next_block h" "b \<notin> dom (blocks h)" "n \<le> length buf" "0 < n" "n < 0x7fffff00" "take (min n (length old)) buf = take n old"
proof (cases "no_memory e (mallocs h) \<or> \<not> malloc_range n")
  case False
  define buf where "buf = take (usable e n) old @ map (junk e (next_block h)) [length old..<usable e n]"
  have "n \<le> usable e n" using assms(1) by (simp add: env_ok_def)
  then have "take (min n (length old)) buf = take n old" "n \<le> length buf" by (auto simp: buf_def min_def)
  moreover have "next_block h \<notin> dom (blocks h)" using assms(2) by (auto simp: heap_ok_def)
  moreover have "new_block e n old h =
      (Block (next_block h), h\<lparr>mallocs := Suc (mallocs h), next_block := Suc (next_block h), blocks := (blocks h)(next_block h \<mapsto> buf)\<rparr>)"
    using False by (simp add: new_block_def buf_def Let_def)
  ultimately show thesis using False ok by (simp add: malloc_range_def)
qed (simp add: fail new_block_def)

text \<open>A cell whose allocation is the new block \<open>b\<close>.\<close>

lemma wf_new:
  assumes "heap_ok h" "blocks h' = (others h m)(b \<mapsto> buf)" "b = next_block h" "next_block h' = Suc b"
    "zMalloc m' = Block b" "szMalloc m' = length buf" "0 < length buf" "\<not> has m' MEM_Dyn" "\<not> has m' MEM_Agg"
  shows "wf_cell h' m'" "others h' m' = others h m"
proof -
  have "b \<notin> dom (blocks h)" using assms(1, 3) by (auto simp: heap_ok_def)
  then have "others h m b = None" by (auto simp: others_def restrict_map_def)
  then show "others h' m' = others h m" using assms by (auto simp: others_def [of h'] own_def restrict_map_def)
  have "k < Suc b" if "blocks h' k = Some s" for k s
    using that assms(1-3) by (cases "k = b") (auto simp: heap_ok_def others_def restrict_map_def less_Suc_eq split: if_splits)
  then have "heap_ok h'" using assms(4) by (auto simp: heap_ok_def)
  then show "wf_cell h' m'" using assms by (simp add: wf_cell_def malloc_size_def)
qed

text \<open>Another cell's block, or external memory that was not given back, can still be read when the cell has given up its own
  block, and when blocks were added.\<close>

lemma read_mem_mono:
  assumes "read_mem e h p n = Some s" "\<And>b. p = Block b \<Longrightarrow> 0 < n \<Longrightarrow> blocks h' b = blocks h b" "deleted h' = deleted h"
  shows "read_mem e h' p n = Some s"
  using assms by (auto simp: read_mem_def bytes_at_def split: if_splits mem_ptr.splits bind_splits)

lemma read_mem_length: "read_mem e h p n = Some s \<Longrightarrow> length s = n"
  by (auto simp: read_mem_def split: if_splits bind_splits)

definition grown :: "mem \<Rightarrow> mem_ptr \<Rightarrow> nat \<Rightarrow> mem" where
  "grown m z sz = m\<lparr>mz := z, zMalloc := z, szMalloc := sz, flags := flags m AND NOT (MEM_Dyn OR MEM_Ephem OR MEM_Static)\<rparr>"

definition nomem :: "mem \<Rightarrow> mem" where
  "nomem m = m\<lparr>mz := Null, zMalloc := Null, szMalloc := 0, flags := MEM_Null\<rparr>"

lemma grown_quiet: "\<not> has (grown m z n) MEM_Dyn" "\<not> has m MEM_Agg \<Longrightarrow> \<not> has (grown m z n) MEM_Agg"
  by (auto simp: grown_def flag_ops)

lemma nomem_quiet: "\<not> has (nomem m) MEM_Dyn" "\<not> has (nomem m) MEM_Agg"
  by (auto simp: nomem_def flag_ops)

text \<open>The two ways in which the new allocation is made. After both the old block is gone, and the content is either in the
  new block or still to be copied.\<close>

lemma grow_alloc_cases:
  assumes "env_ok e" "wf_cell h m"
  obtains (fail) h1 where "grow_alloc e m n pre h = Some (m\<lparr>mz := Null, zMalloc := Null\<rparr>, False, h1) \<and> szMalloc m > 0 \<or>
        grow_alloc e m n pre h = Some (m\<lparr>zMalloc := Null\<rparr>, pre, h1)"
      "h1 = h\<lparr>blocks := others h m, mallocs := Suc (mallocs h)\<rparr>"
  | (copied) b buf h1 where "grow_alloc e m n pre h = Some (m\<lparr>mz := Block b, zMalloc := Block b\<rparr>, False, h1)"
      "h1 = h\<lparr>blocks := (others h m)(b \<mapsto> buf), mallocs := Suc (mallocs h), next_block := Suc b\<rparr>" "b = next_block h"
      "n \<le> length buf" "0 < n" "n < 0x7fffff00" "pre" "szMalloc m > 0"
      "mz m = zMalloc m" "\<And>k s. k \<le> n \<Longrightarrow> read_mem e h (mz m) k = Some s \<Longrightarrow> take k buf = s"
  | (fresh) b buf h1 where "grow_alloc e m n pre h = Some (m\<lparr>zMalloc := Block b\<rparr>, pre, h1)"
      "h1 = h\<lparr>blocks := (others h m)(b \<mapsto> buf), mallocs := Suc (mallocs h), next_block := Suc b\<rparr>" "b = next_block h"
      "n \<le> length buf" "0 < n" "n < 0x7fffff00"
      "pre \<longrightarrow> \<not> (szMalloc m > 0 \<and> mz m = zMalloc m)"
proof (cases "szMalloc m > 0 \<and> pre \<and> mz m = zMalloc m")
  case True
  obtain b s where b: "zMalloc m = Block b" "blocks h b = Some s" "own m = {b}" using wf_block [OF assms(2)] True by blast
  let ?h = "h\<lparr>blocks := others h m\<rparr>"
  have eq: "grow_alloc e m n pre h =
      (case new_block e n s ?h of (z, h) \<Rightarrow> Some (m\<lparr>mz := z, zMalloc := z\<rparr>, False, h))"
    using True b free_own [OF assms(2)] by (auto simp: grow_alloc_def realloc_or_free_def bytes_at_def split: prod.splits)
  have ok: "heap_ok ?h" using assms(2) by (simp add: wf_cell_def heap_ok_others)
  show thesis
  proof (rule new_block_cases [OF assms(1) ok, of n s], goal_cases)
    case 1
    then show thesis by (intro that(1)) (use True eq in simp_all)
  next
    case (2 b' buf)
    have "take k buf = t" if "k \<le> n" "read_mem e h (mz m) k = Some t" for k t
    proof -
      have "k \<le> length s \<and> t = take k s" using that(2) True b by (auto simp: read_mem_def bytes_at_def split: if_splits)
      then have "take k buf = take k (take (min n (length s)) buf)" using that(1) by simp
      also have "\<dots> = t" using 2(7) \<open>k \<le> length s \<and> t = take k s\<close> that(1) by (simp add: min_def)
      finally show ?thesis .
    qed
    then show thesis by (intro that(2) [of b']) (use True 2 eq in simp_all)
  qed
next
  case False
  let ?h = "h\<lparr>blocks := others h m\<rparr>"
  have eq: "grow_alloc e m n pre h = (case new_block e n [] ?h of (z, h) \<Rightarrow> Some (m\<lparr>zMalloc := z\<rparr>, pre, h))"
    using False free_if_own [OF assms(2)] by (auto simp: grow_alloc_def malloc_raw_def split: prod.splits)
  have ok: "heap_ok ?h" using assms(2) by (simp add: wf_cell_def heap_ok_others)
  show thesis
  proof (rule new_block_cases [OF assms(1) ok, of n "[]"], goal_cases)
    case 1
    then show thesis by (intro that(1)) (simp_all add: eq)
  next
    case (2 b' buf)
    then show thesis by (intro that(3) [of b']) (use False eq in auto)
  qed
qed

lemma pend_fields [simp]: "pend (m\<lparr>zMalloc := z\<rparr>) = pend m" "pend (m\<lparr>szMalloc := sz\<rparr>) = pend m"
  "has (m\<lparr>zMalloc := z\<rparr>) f = has m f" "has (m\<lparr>szMalloc := sz\<rparr>) f = has m f" "has (m\<lparr>mz := z\<rparr>) f = has m f"
  by (simp_all add: pend_def has_def)

lemma Grow_fail:
  assumes "wf_cell h m" "h1 = h\<lparr>blocks := others h m, mallocs := Suc (mallocs h)\<rparr>"
    "grow_alloc e m n pre h = Some (m\<lparr>mz := Null, zMalloc := Null\<rparr>, False, h1) \<and> szMalloc m > 0 \<or>
     grow_alloc e m n pre h = Some (m\<lparr>zMalloc := Null\<rparr>, pre, h1)"
  obtains h' where "sqlite3VdbeMemGrow e m n pre h = Some (SQLITE_NOMEM, nomem m, h')" "step m h (nomem m) h' {#}"
proof -
  obtain m1 p where m1: "grow_alloc e m n pre h = Some (m1, p, h1)" "m1 = m\<lparr>mz := mz m1, zMalloc := Null\<rparr>"
      "mz m1 = mz m \<or> mz m1 = Null \<and> szMalloc m > 0"
    using assms(3) by fastforce
  have "szMalloc m > 0 \<Longrightarrow> \<not> has m MEM_Dyn" using assms(1) by (simp add: wf_cell_def)
  then have m2: "has m1 MEM_Dyn \<longrightarrow> xDel m1 \<noteq> None \<and> (\<exists>x. mz m1 = Extern x)" "\<not> has m1 MEM_Agg" "pend m1 = pend m"
    "m1\<lparr>flags := MEM_Null, mz := Null, szMalloc := 0\<rparr> = nomem m" "zMalloc m1 = Null"
    using m1(2,3) wf_due [OF assms(1)] by (cases m1; cases m; auto simp: nomem_def pend_def has_def)+
  obtain D where D: "sqlite3VdbeMemSetNull m1 h1 = Some (m1\<lparr>flags := MEM_Null\<rparr>, h1\<lparr>deleted := D\<rparr>)" "mset D = mset (deleted h1) + pend m1"
    using SetNull_eq m2(1,2) by blast
  have "step m h (nomem m) (h1\<lparr>deleted := D\<rparr>) {#}"
    using wf_empty [OF assms(1), of "nomem m" "h1\<lparr>deleted := D\<rparr>"] nomem_quiet D(2) m2(3) assms(2) by (simp add: step_def pend_none nomem_def)
  then show thesis using that D(1) m1(1) m2 by (simp add: sqlite3VdbeMemGrow_def)
qed

text \<open>The tail of the function, once the content is in the new block.\<close>

lemma grown_step:
  assumes "wf_cell h m" "b = next_block h" "0 < length buf" "blocks h' = (others h m)(b \<mapsto> buf)" "next_block h' = Suc b"
    "mset (deleted h') = mset (deleted h) + pend m"
  shows "step m h (grown m (Block b) (length buf)) h' {#}"
  using wf_new [of h h' m b buf "grown m (Block b) (length buf)"] assms grown_quiet wf_due(2) [OF assms(1)]
  by (simp add: step_def pend_none wf_cell_def grown_def)

lemma Grow_ok:
  assumes "wf_cell h m" "m1 = m\<lparr>mz := p, zMalloc := Block b\<rparr>" "grow_alloc e m n pre h = Some (m1, pre', h1)"
    "h1 = h\<lparr>blocks := (others h m)(b \<mapsto> buf), mallocs := Suc (mallocs h), next_block := Suc b\<rparr>" "b = next_block h" "0 < length buf"
    "(if pre' \<and> p \<noteq> Null then do { s \<leftarrow> read_mem e h1 p (mn m); write_mem (Block b) 0 s h1 } else Some h1) =
       Some (h1\<lparr>blocks := (others h m)(b \<mapsto> buf')\<rparr>)"
    "length buf' = length buf" "has m MEM_Dyn \<longrightarrow> p = mz m"
  obtains h' where "sqlite3VdbeMemGrow e m n pre h = Some (SQLITE_OK, grown m (Block b) (length buf), h')"
    "step m h (grown m (Block b) (length buf)) h' {#}" "blocks h' b = Some buf'"
proof -
  let ?m = "m1\<lparr>szMalloc := length buf\<rparr>" and ?h = "h1\<lparr>blocks := (others h m)(b \<mapsto> buf')\<rparr>"
  have "has ?m MEM_Dyn \<longrightarrow> xDel ?m \<noteq> None \<and> (\<exists>x. mz ?m = Extern x)" using wf_due(1) [OF assms(1)] assms(2,9) by auto
  then obtain D where D: "(if has ?m MEM_Dyn then call_xDel ?m ?h else Some ?h) = Some (?h\<lparr>deleted := D\<rparr>)" "mset D = mset (deleted ?h) + pend ?m"
    using call_due by blast
  have "pend ?m = pend m" using assms(2,9) by (auto simp: pend_def)
  then have "step m h (grown m (Block b) (length buf)) (?h\<lparr>deleted := D\<rparr>) {#}"
    using grown_step [OF assms(1,5), of buf'] assms(4,6,8) D(2) by simp
  moreover have "sqlite3VdbeMemGrow e m n pre h = Some (SQLITE_OK, grown m (Block b) (length buf), ?h\<lparr>deleted := D\<rparr>)"
    using assms(2,4,7) D(1) by (simp add: sqlite3VdbeMemGrow_def assms(3) malloc_size_def grown_def cong: if_cong)
  ultimately show thesis using that by simp
qed

text \<open>\<open>sqlite3VdbeMemGrow\<close>: the cell has a new allocation of at least \<open>n\<close> bytes that begins with the content to be
  preserved, or there was no memory and the cell is null.\<close>

lemma Grow_step:
  assumes "env_ok e" "wf_cell h m" "pre \<longrightarrow> read_mem e h (mz m) (mn m) = Some s \<and> mn m \<le> n"
  obtains (fail) h' where "sqlite3VdbeMemGrow e m n pre h = Some (SQLITE_NOMEM, nomem m, h')" "step m h (nomem m) h' {#}"
  | (ok) b buf h' where "sqlite3VdbeMemGrow e m n pre h = Some (SQLITE_OK, grown m (Block b) (length buf), h')"
      "step m h (grown m (Block b) (length buf)) h' {#}" "blocks h' b = Some buf" "n \<le> length buf" "0 < n" "n < 0x7fffff00"
      "pre \<longrightarrow> take (mn m) buf = s"
proof -
  show thesis
  proof (rule grow_alloc_cases [OF assms(1,2), of n pre], goal_cases)
    case (1 h1)
    then show thesis using Grow_fail [OF assms(2) 1(2,1)] that(1) by blast
  next
    case (2 b buf h1)
    have dyn: "\<not> has m MEM_Dyn" using assms(2) 2(8) by (simp add: wf_cell_def)
    obtain h' where h': "sqlite3VdbeMemGrow e m n pre h = Some (SQLITE_OK, grown m (Block b) (length buf), h')"
        "step m h (grown m (Block b) (length buf)) h' {#}" "blocks h' b = Some buf"
      by (rule Grow_ok [OF assms(2) refl 2(1-3), of buf]) (use 2 dyn in auto)
    have "take (mn m) buf = s" using 2(7,10) assms(3) by blast
    then show thesis using that(2) h' 2(4-6) by blast
  next
    case (3 b buf h1)
    have "b \<notin> dom (blocks h)" using assms(2) 3(3) by (auto simp: wf_cell_def heap_ok_def)
    define buf' where "buf' = (if pre \<and> mz m \<noteq> Null then s @ drop (length s) buf else buf)"
    have len: "pre \<Longrightarrow> length s = mn m" using assms(3) read_mem_length by blast
    have null: "pre \<Longrightarrow> mz m = Null \<Longrightarrow> s = []" using assms(3) by (auto simp: read_mem_def bytes_at_def split: if_splits)
    have rd: "read_mem e h1 (mz m) (mn m) = Some s" if pre
    proof (rule read_mem_mono)
      show "read_mem e h (mz m) (mn m) = Some s" using assms(3) that by simp
      fix c assume c: "mz m = Block c" "0 < mn m"
      then have "c \<in> dom (blocks h)" using assms(3) that by (auto simp: read_mem_def bytes_at_def split: bind_splits)
      moreover have "c \<notin> own m" using c 3(7) that by (auto simp: own_def)
      ultimately show "blocks h1 c = blocks h c" using \<open>b \<notin> dom (blocks h)\<close> by (auto simp: 3(2) others_def)
    qed (simp add: 3(2))
    have "write_mem (Block b) 0 s h1 = Some (h1\<lparr>blocks := (others h m)(b \<mapsto> s @ drop (length s) buf)\<rparr>)" if pre
      using that len assms(3) 3(4) wr_nat [of 0 s buf] by (simp add: write_mem_def 3(2))
    then have cp: "(if pre \<and> mz m \<noteq> Null then do { s \<leftarrow> read_mem e h1 (mz m) (mn m); write_mem (Block b) 0 s h1 } else Some h1) =
        Some (h1\<lparr>blocks := (others h m)(b \<mapsto> buf')\<rparr>)"
      using rd by (auto simp: buf'_def 3(2))
    have len': "length buf' = length buf" using len assms(3) 3(4) by (auto simp: buf'_def)
    obtain h' where h': "sqlite3VdbeMemGrow e m n pre h = Some (SQLITE_OK, grown m (Block b) (length buf), h')"
        "step m h (grown m (Block b) (length buf)) h' {#}" "blocks h' b = Some buf'"
      by (rule Grow_ok [where ?m1.0 = "m\<lparr>zMalloc := Block b\<rparr>" and p = "mz m" and pre' = pre and ?h1.0 = h1 and buf = buf and buf' = buf']) (use 3 assms(2) cp len' in auto)
    have "pre \<longrightarrow> take (mn m) buf' = s" using len null by (auto simp: buf'_def)
    then show thesis using that(2) [of b buf'] h' 3(4-6) len' by simp
  qed
qed

text \<open>Writing into the cell's own buffer.\<close>

lemma write_own:
  assumes "wf_cell h m" "holds h m buf" "mz m = p" "length bs = l" "off + l \<le> length buf"
  obtains h' where "write_mem p off bs h = Some h'" "step m h m h' {#}" "holds h' m (take off buf @ bs @ drop (off + l) buf)"
    "deleted h' = deleted h"
proof -
  obtain b where b: "mz m = Block b" "zMalloc m = Block b" "blocks h b = Some buf" "szMalloc m = length buf" "0 < length buf"
    using assms(2) by (auto simp: holds_def)
  let ?buf = "take off buf @ bs @ drop (off + l) buf" and ?h = "\<lambda>s. h\<lparr>blocks := (blocks h)(b \<mapsto> s)\<rparr>"
  have len: "length ?buf = length buf" using assms(4,5) by simp
  have "write_mem p off bs h = Some (?h ?buf)" using b assms(3-5) by (simp add: write_mem_def wr_nat)
  moreover have "holds (?h s) m s" if "length s = length buf" for s using b that by (simp add: holds_def)
  moreover have "step m h m (?h s) {#}" if "length s = length buf" for s
    using assms(1) b that by (auto simp: step_def wf_cell_def heap_ok_def malloc_size_def others_def own_def restrict_map_def)
  ultimately show thesis using that len by simp
qed

end
