(* ===== verification/Sqlite_Mem_Value.thy ===== *)
theory Sqlite_Mem_Value
  imports Sqlite_Mem_Own
begin

text \<open>
  What the memory cells promise. A cell stands for an SQL value; the operations that rearrange memory keep it, and the
  others set it.
\<close>

section \<open>Values\<close>

datatype sql_value = V_null | V_int "64 word" | V_real "64 word" | V_text nat bytes | V_blob bytes

definition zeros :: "mem \<Rightarrow> nat" where
  "zeros m = (if has m MEM_Zero then case mu m of U_nZero n \<Rightarrow> n | _ \<Rightarrow> 0 else 0)"

definition cell_value :: "mem_env \<Rightarrow> mheap \<Rightarrow> mem \<Rightarrow> sql_value option" where
  "cell_value e h m =
    (if has m MEM_Null then Some V_null
     else if has m MEM_Int then (case mu m of U_i i \<Rightarrow> Some (V_int i) | _ \<Rightarrow> None)
     else if has m MEM_Real then (case mu m of U_r r \<Rightarrow> Some (V_real r) | _ \<Rightarrow> None)
     else if has m MEM_Str then map_option (V_text (enc m)) (read_mem e h (mz m) (mn m))
     else if has m MEM_Blob then map_option (\<lambda>s. V_blob (s @ replicate (zeros m) 0)) (read_mem e h (mz m) (mn m))
     else None)"

text \<open>The number of claims on where the content is.\<close>

definition places :: "mem \<Rightarrow> nat" where
  "places m = of_bool (szMalloc m > 0 \<and> mz m = zMalloc m) + of_bool (has m MEM_Dyn) + of_bool (has m MEM_Ephem) + of_bool (has m MEM_Static)"

text \<open>The representations that the operations below produce: one type at a time.\<close>

definition typed :: "mem \<Rightarrow> bool" where
  "typed m \<longleftrightarrow> \<not> has m MEM_IntReal \<and> \<not> has m MEM_Cleared \<and>
     (has m MEM_Null \<longrightarrow> flags m \<in> {MEM_Null, MEM_Null OR MEM_Subtype OR MEM_Term, MEM_Null OR MEM_Dyn OR MEM_Subtype OR MEM_Term}) \<and>
     (has m MEM_Int \<longrightarrow> \<not> has m (MEM_Real OR MEM_Str OR MEM_Blob)) \<and>
     (has m MEM_Real \<longrightarrow> \<not> has m (MEM_Str OR MEM_Blob)) \<and> (has m MEM_Str \<longrightarrow> \<not> has m MEM_Blob) \<and>
     (has m MEM_Zero \<longrightarrow> has m MEM_Blob \<and> (\<exists>n. mu m = U_nZero n)) \<and>
     (has m (MEM_Str OR MEM_Blob) \<longrightarrow> places m \<in> (if mn m > 0 then {1} else {0, 1}))"

text \<open>A text whose flags say so is followed by a zero character (\<open>sqlite3VdbeMemValidStrRep\<close>, for an even length).\<close>

definition term_ok :: "mem_env \<Rightarrow> mheap \<Rightarrow> mem \<Rightarrow> bool" where
  "term_ok e h m \<longleftrightarrow> (has m MEM_Str \<and> has m MEM_Term \<longrightarrow>
     (\<exists>s. read_mem e h (mz m) (mn m + length (terminator (enc m))) = Some (s @ terminator (enc m))))"

definition val_ok :: "sql_value \<Rightarrow> bool" where
  "val_ok v = (case v of
     V_text en s \<Rightarrow> en \<in> {SQLITE_UTF8, SQLITE_UTF16LE, SQLITE_UTF16BE} \<and> (en \<noteq> SQLITE_UTF8 \<longrightarrow> even (length s)) \<and> length s + 3 < 2 ^ 31
   | V_blob s \<Rightarrow> length s + 3 < 2 ^ 31
   | _ \<Rightarrow> True)"

definition good :: "mem_env \<Rightarrow> mheap \<Rightarrow> mem \<Rightarrow> sql_value \<Rightarrow> bool" where
  "good e h m v \<longleftrightarrow> wf_cell h m \<and> typed m \<and> cell_value e h m = Some v \<and> term_ok e h m \<and> val_ok v"

lemma good_wf: "good e h m v \<Longrightarrow> wf_cell h m"
  by (simp add: good_def)

lemma good_null: "wf_cell h m \<Longrightarrow> flags m = MEM_Null \<Longrightarrow> good e h m V_null"
  by (auto simp: good_def typed_def cell_value_def term_ok_def val_ok_def flag_ops)

lemma good_nomem: "step m0 h0 (nomem m) h G \<Longrightarrow> good e h (nomem m) V_null"
  by (rule good_null) (auto simp: step_def nomem_def)

text \<open>A cell keeps its value when the heap changes elsewhere.\<close>

lemma good_frame:
  assumes "good e h m v" "heap_ok h'" "\<And>b. b \<in> own m \<Longrightarrow> blocks h' b = blocks h b"
    "has m (MEM_Str OR MEM_Blob) \<Longrightarrow> bytes_at e h' (mz m) = bytes_at e h (mz m)"
  shows "good e h' m v"
proof -
  have rd: "read_mem e h' (mz m) n = read_mem e h (mz m) n" if "has m (MEM_Str OR MEM_Blob)" for n
    using assms(4) [OF that] by (simp add: read_mem_def)
  have "malloc_size (zMalloc m) h' = malloc_size (zMalloc m) h" if "szMalloc m > 0"
    using assms(3) that by (simp add: malloc_size_def own_def split: mem_ptr.split)
  then have "wf_cell h' m" using assms(1,2) by (simp add: good_def wf_cell_def)
  moreover have "cell_value e h' m = cell_value e h m" using rd by (simp add: cell_value_def has_or)
  moreover have "term_ok e h' m" using assms(1) rd by (simp add: good_def term_ok_def has_or)
  ultimately show ?thesis using assms(1) by (simp add: good_def)
qed

text \<open>The assertions of the debugging build hold.\<close>

lemma check_invariants:
  assumes "good e h m v"
  shows "sqlite3VdbeCheckMemInvariants h m"
proof -
  have t: "typed m" "wf_cell h m" using assms by (auto simp: good_def)
  define x where "x = flags m AND (MEM_Int OR MEM_Real OR MEM_IntReal)"
  have "x = 0 \<or> x = MEM_Int \<or> x = MEM_Real"
    using t(1) unfolding typed_def x_def bit_eq_iff by (auto simp: flag_ops)
  then have p: "x AND (x - 1) = 0" by (auto simp: MEM_Int_def MEM_Real_def)
  have n: "\<not> has m (MEM_Int OR MEM_Real OR MEM_Str OR MEM_Blob OR MEM_Agg) \<and>
      (flags m AND (MEM_Term OR MEM_Subtype) = MEM_Term OR MEM_Subtype \<longrightarrow>
         of_bool (has m MEM_Dyn) + of_bool (has m MEM_Ephem) + of_bool (has m MEM_Static) \<le> (1 :: nat) \<and>
         flags m AND NOT (MEM_Null OR MEM_Term OR MEM_Subtype OR MEM_FromBind OR MEM_Dyn OR MEM_Ephem OR MEM_Static) = 0)"
    if "has m MEM_Null"
  proof -
    have "flags m \<in> {MEM_Null, MEM_Null OR MEM_Subtype OR MEM_Term, MEM_Null OR MEM_Dyn OR MEM_Subtype OR MEM_Term}"
      using t(1) that by (simp add: typed_def)
    then show ?thesis unfolding bit_eq_iff by (elim insertE) (auto simp: flag_ops)
  qed
  have z: "szMalloc m = 0 \<or> malloc_size (zMalloc m) h = Some (szMalloc m)" "has m MEM_Dyn \<longrightarrow> xDel m \<noteq> None" "has m MEM_Dyn \<longrightarrow> szMalloc m = 0"
    using t(2) by (auto simp: wf_cell_def)
  have "has m (MEM_Str OR MEM_Blob) \<and> mn m > 0 \<longrightarrow> places m = 1" "\<not> has m MEM_Cleared" using t(1) by (auto simp: typed_def)
  then show ?thesis using p n z by (simp add: sqlite3VdbeCheckMemInvariants_def x_def [symmetric] places_def [symmetric] Let_def)
qed

section \<open>Buffers\<close>

lemma holds_read: "holds h m buf \<Longrightarrow> n \<le> length buf \<Longrightarrow> read_mem e h (mz m) n = Some (take n buf)"
  by (auto simp: holds_def read_mem_def bytes_at_def)

lemma holds_cong: "holds h m buf \<Longrightarrow> szMalloc m' = szMalloc m \<Longrightarrow> zMalloc m' = zMalloc m \<Longrightarrow> mz m' = mz m \<Longrightarrow> holds h m' buf"
  by (auto simp: holds_def)

text \<open>A cell of text or blob gives a cell of the same kind when its content is in its own buffer.\<close>

definition same_kind :: "mem \<Rightarrow> mem \<Rightarrow> bool" where
  "same_kind m m' \<longleftrightarrow> mu m' = mu m \<and> mn m' = mn m \<and> enc m' = enc m \<and>
     (\<forall>f \<in> {MEM_Null, MEM_Str, MEM_Int, MEM_Real, MEM_Blob, MEM_IntReal, MEM_Cleared, MEM_Zero}. has m' f = has m f)"

lemma same_kind_trans: "same_kind m m1 \<Longrightarrow> same_kind m1 m2 \<Longrightarrow> same_kind m m2"
  by (simp add: same_kind_def)

definition in_buffer :: "mheap \<Rightarrow> mem \<Rightarrow> bytes \<Rightarrow> bool" where
  "in_buffer h m buf \<longleftrightarrow> wf_cell h m \<and> holds h m buf \<and> mn m \<le> length buf \<and> \<not> has m (MEM_Dyn OR MEM_Ephem OR MEM_Static)"

lemma typed_kind:
  assumes "typed m" "same_kind m m'" "\<not> has m MEM_Null" "szMalloc m' > 0" "mz m' = zMalloc m'"
    "\<not> has m' (MEM_Dyn OR MEM_Ephem OR MEM_Static)"
  shows "typed m'"
  using assms by (simp add: typed_def same_kind_def has_or places_def)

lemma good_buffer:
  assumes "typed m" "same_kind m m'" "\<not> has m MEM_Null" "in_buffer h' m' buf" "cell_value e h m = Some v" "val_ok v"
    "read_mem e h (mz m) (mn m) = Some (take (mn m) buf)" "term_ok e h' m'"
  shows "good e h' m' v"
proof -
  have "read_mem e h' (mz m') (mn m') = Some (take (mn m) buf)"
    using assms(2,4) holds_read [of h' m' buf "mn m'"] by (simp add: in_buffer_def same_kind_def)
  then have "cell_value e h' m' = cell_value e h m"
    using assms(2,3,7) by (simp add: cell_value_def same_kind_def zeros_def)
  moreover have "typed m'" by (rule typed_kind [OF assms(1-3)]) (use assms(4) in \<open>auto simp: in_buffer_def holds_def\<close>)
  ultimately show ?thesis using assms by (simp add: good_def in_buffer_def)
qed

lemma content:
  assumes "good e h m v" "has m (MEM_Str OR MEM_Blob)"
  obtains s where "read_mem e h (mz m) (mn m) = Some s" "length s = mn m" "mn m + zeros m + 3 < 2 ^ 31" "\<not> has m MEM_Null"
    "v = (if has m MEM_Str then V_text (enc m) s else V_blob (s @ replicate (zeros m) 0))"
proof -
  have null: "\<not> has m MEM_Null" using assms by (auto simp: good_def typed_def flag_ops)
  have k: "\<not> has m MEM_Int" "\<not> has m MEM_Real" "has m MEM_Str \<Longrightarrow> \<not> has m MEM_Zero"
    using assms by (auto simp: good_def typed_def flag_ops)
  then obtain s where s: "read_mem e h (mz m) (mn m) = Some s" "v = (if has m MEM_Str then V_text (enc m) s else V_blob (s @ replicate (zeros m) 0))"
    using assms null by (auto simp: good_def cell_value_def has_or split: if_splits)
  moreover have "length s = mn m" using s(1) read_mem_length by blast
  moreover have "mn m + zeros m + 3 < 2 ^ 31"
    using assms(1) k(3) s(2) \<open>length s = mn m\<close> by (auto simp: good_def val_ok_def zeros_def split: if_splits)
  ultimately show thesis using that null by blast
qed

text \<open>Texts and blobs, not followed by zeros.\<close>

lemma good_plain:
  assumes "wf_cell h m" "read_mem e h (mz m) (mn m) = Some s" "term_ok e h m"
    "has m MEM_Str \<and> \<not> has m MEM_Blob \<and> v = V_text (enc m) s \<or> \<not> has m MEM_Str \<and> has m MEM_Blob \<and> v = V_blob s" "val_ok v"
    "\<not> has m (MEM_Null OR MEM_Int OR MEM_Real OR MEM_IntReal OR MEM_Cleared OR MEM_Zero)"
    "places m = 1"
  shows "good e h m v"
proof -
  have "typed m" using assms(4,6) unfolding typed_def assms(7) has_or by auto
  moreover have "cell_value e h m = Some v" using assms(2,4,6) by (auto simp: cell_value_def has_or zeros_def)
  ultimately show ?thesis using assms by (simp add: good_def)
qed

lemma good_in_buffer:
  assumes "in_buffer h m buf" "term_ok e h m" "val_ok v" "s = take (mn m) buf"
    "has m MEM_Str \<and> \<not> has m MEM_Blob \<and> v = V_text (enc m) s \<or> \<not> has m MEM_Str \<and> has m MEM_Blob \<and> v = V_blob s"
    "\<not> has m (MEM_Null OR MEM_Int OR MEM_Real OR MEM_IntReal OR MEM_Cleared OR MEM_Zero)"
  shows "good e h m v"
  by (rule good_plain [where s = s]) (use assms holds_read [of h m buf "mn m"] in \<open>auto simp: in_buffer_def has_or holds_def places_def\<close>)

lemma grown_kind: "same_kind m (grown m z n)"
  by (auto simp: same_kind_def grown_def flag_ops)

section \<open>Terminators and blobs of zeros\<close>

lemma AddTerminator_step:
  assumes "env_ok e" "wf_cell h m" "read_mem e h (mz m) (mn m) = Some s" "mn m + 3 < 2 ^ 31"
  obtains (fail) h' where "vdbeMemAddTerminator e m h = Some (SQLITE_NOMEM, nomem m, h')" "step m h (nomem m) h' {#}"
  | (ok) m' h' buf where "vdbeMemAddTerminator e m h = Some (SQLITE_OK, m', h')" "step m h m' h' {#}" "same_kind m m'"
      "in_buffer h' m' buf" "take (mn m) buf = s" "mn m + 3 \<le> length buf" "take 3 (drop (mn m) buf) = [0, 0, 0]"
      "flags m' = flags m AND NOT (MEM_Dyn OR MEM_Ephem OR MEM_Static) OR MEM_Term"
proof -
  have len: "length s = mn m" using assms(3) read_mem_length by blast
  have codes: "SQLITE_NOMEM \<noteq> SQLITE_OK" by (simp add: SQLITE_NOMEM_def SQLITE_OK_def)
  show thesis
  proof (rule Grow_step [OF assms(1,2), where pre = True and s = s and n = "mn m + 3"], goal_cases)
    case 1
    then show ?case using assms(3) by simp
  next
    case (2 h')
    then show thesis using that(1) assms(4) codes by (simp add: vdbeMemAddTerminator_def)
  next
    case (3 b buf h')
    let ?g = "grown m (Block b) (length buf)"
    have g: "wf_cell h' ?g" "holds h' ?g buf" "mn ?g = mn m" "mz ?g = Block b" using 3 by (auto simp: step_def holds_def grown_def)
    obtain h'' where w: "write_mem (Block b) (mn m) [0, 0, 0] h' = Some h''" "step ?g h' ?g h'' {#}"
        "holds h'' ?g (take (mn m) buf @ [0, 0, 0] @ drop (mn m + 3) buf)"
      by (rule write_own [OF g(1,2,4), of "[0, 0, 0]" 3 "mn m"]) (use 3(4) in simp_all)
    let ?m = "?g\<lparr>flags := flags ?g OR MEM_Term\<rparr>" and ?buf = "s @ [0, 0, 0] @ drop (mn m + 3) buf"
    have q: "\<not> has ?m MEM_Dyn" "\<not> has ?m MEM_Agg" using wf_due(2) [OF assms(2)] by (simp_all add: flag_ops grown_def)
    have st: "step m h ?m h'' {#}" by (rule step_quiet [OF step_trans0 [OF 3(2) w(2)] grown_quiet(1) q]) simp_all
    have "same_kind m ?m" using grown_kind [of m "Block b" "length buf"] by (auto simp: same_kind_def flag_ops)
    moreover have "in_buffer h'' ?m ?buf"
      using step_wf [OF st] w(3) 3(4,7) len by (auto simp: in_buffer_def holds_def grown_def flag_ops)
    moreover have "vdbeMemAddTerminator e m h = Some (SQLITE_OK, ?m, h'')"
      using 3(1) w(1) g assms(4) by (simp add: vdbeMemAddTerminator_def)
    ultimately show thesis using that(2) [OF _ st] len 3(4) by (simp add: grown_def)
  qed
qed

lemma codes [simp]: "SQLITE_NOMEM \<noteq> SQLITE_OK" "SQLITE_TOOBIG \<noteq> SQLITE_OK" "SQLITE_TOOBIG \<noteq> SQLITE_NOMEM"
  "SQLITE_OK \<noteq> SQLITE_NOMEM" "SQLITE_OK \<noteq> SQLITE_TOOBIG" "SQLITE_NOMEM \<noteq> SQLITE_TOOBIG"
  by (simp_all add: SQLITE_NOMEM_def SQLITE_OK_def SQLITE_TOOBIG_def)

lemma term_ok_not_str: "\<not> has m MEM_Str \<Longrightarrow> term_ok e h m"
  by (simp add: term_ok_def)

lemma term_ok_zeros:
  assumes "holds h m buf" "take 3 (drop (mn m) buf) = [0, 0, 0]" "mn m + 3 \<le> length buf"
  shows "term_ok e h m"
proof -
  define t where "t = length (terminator (enc m))"
  have t: "t \<le> 2" "terminator (enc m) = replicate t 0" by (auto simp: t_def terminator_def numeral_2_eq_2)
  have "take t (drop (mn m) buf) = take t (take 3 (drop (mn m) buf))" using t(1) by simp
  also have "\<dots> = replicate t 0" using t(1) unfolding assms(2) by (cases "t = 0"; cases "t = 1"; auto simp: numeral_2_eq_2 dest: le_antisym)
  finally have "take (mn m + t) buf = take (mn m) buf @ terminator (enc m)" by (simp add: take_add t(2))
  then show ?thesis using assms(3) t(1) holds_read [OF assms(1), of "mn m + t" e] by (auto simp: term_ok_def simp flip: t_def)
qed

lemma ExpandBlob_step:
  assumes "env_ok e" "good e h m v" "has m MEM_Zero"
  obtains (fail) h' where "sqlite3VdbeMemExpandBlob e m h = Some (SQLITE_NOMEM, nomem m, h')" "step m h (nomem m) h' {#}"
  | (ok) m' h' buf where "sqlite3VdbeMemExpandBlob e m h = Some (SQLITE_OK, m', h')" "step m h m' h' {#}" "good e h' m' v"
      "in_buffer h' m' buf" "\<not> has m' MEM_Zero" "has m' MEM_Blob" "\<not> has m' MEM_Str"
proof -
  obtain n where m: "has m MEM_Blob" "\<not> has m MEM_Str" "\<not> has m MEM_Int" "\<not> has m MEM_Real" "\<not> has m MEM_IntReal" "\<not> has m MEM_Cleared" "mu m = U_nZero n" "zeros m = n"
    using assms(2,3) by (auto simp: good_def typed_def zeros_def has_or)
  obtain s where s: "read_mem e h (mz m) (mn m) = Some s" "length s = mn m" "mn m + n + 3 < 2 ^ 31" "v = V_blob (s @ replicate n 0)" "\<not> has m MEM_Null"
    using content [OF assms(2)] m by (metis has_or)
  define k where "k = (if mn m + n = 0 then 1 else mn m + n)"
  have k: "mn m + n \<le> k" by (simp add: k_def)
  have eq: "sqlite3VdbeMemExpandBlob e m h = do {
      (rc, p, h) \<leftarrow> sqlite3VdbeMemGrow e m k True h;
      if rc \<noteq> SQLITE_OK then Some (SQLITE_NOMEM, p, h)
      else do {
        h \<leftarrow> write_mem (mz p) (mn p) (replicate n 0) h;
        Some (SQLITE_OK, p\<lparr>mn := mn p + n, flags := flags p AND NOT (MEM_Zero OR MEM_Term)\<rparr>, h) } }"
    using m s(3) by (simp add: sqlite3VdbeMemExpandBlob_def k_def Let_def)
  show thesis
  proof (rule Grow_step [OF assms(1) good_wf [OF assms(2)], where pre = True and s = s and n = k], goal_cases)
    case 1
    then show ?case using s(1) k by simp
  next
    case (2 h')
    then show thesis using that(1) by (simp add: eq)
  next
    case (3 b buf h')
    let ?g = "grown m (Block b) (length buf)"
    have g: "wf_cell h' ?g" "holds h' ?g buf" "mz ?g = Block b" "mn ?g = mn m" using 3 by (auto simp: step_def holds_def grown_def)
    obtain h'' where w: "write_mem (Block b) (mn m) (replicate n 0) h' = Some h''" "step ?g h' ?g h'' {#}"
        "holds h'' ?g (take (mn m) buf @ replicate n 0 @ drop (mn m + n) buf)"
      by (rule write_own [OF g(1-3), of "replicate n 0" n "mn m"]) (use 3(4) k in simp_all)
    let ?m = "?g\<lparr>mn := mn m + n, flags := flags ?g AND NOT (MEM_Zero OR MEM_Term)\<rparr>" and ?buf = "s @ replicate n 0 @ drop (mn m + n) buf"
    have q: "\<not> has ?m MEM_Dyn" "\<not> has ?m MEM_Agg" using wf_due(2) [OF good_wf [OF assms(2)]] by (simp_all add: flag_ops grown_def)
    have st: "step m h ?m h'' {#}" by (rule step_quiet [OF step_trans0 [OF 3(2) w(2)] grown_quiet(1) q]) simp_all
    have buf: "in_buffer h'' ?m ?buf"
      using step_wf [OF st] w(3) 3(4,7) s(2) k by (auto simp: in_buffer_def holds_def grown_def flag_ops)
    have f: "\<not> has ?m MEM_Zero" "has ?m MEM_Blob" "\<not> has ?m MEM_Str"
      "\<not> has ?m (MEM_Null OR MEM_Int OR MEM_Real OR MEM_IntReal OR MEM_Cleared OR MEM_Zero)"
      using m s(5) by (auto simp: flag_ops grown_def)
    have "good e h'' ?m v"
      by (rule good_in_buffer [OF buf _ _ refl _ f(4)]) (use f s(2,4) assms(2) in \<open>simp_all add: term_ok_not_str good_def\<close>)
    moreover have "sqlite3VdbeMemExpandBlob e m h = Some (SQLITE_OK, ?m, h'')" using 3(1) w(1) g by (simp add: eq)
    ultimately show thesis using that(2) st buf f(1-3) by blast
  qed
qed

text \<open>A text or blob that is not in the cell's own buffer is brought there.\<close>

lemma AddTerminator_good:
  assumes "env_ok e" "good e h m v" "has m (MEM_Str OR MEM_Blob)"
  obtains (fail) h' where "vdbeMemAddTerminator e m h = Some (SQLITE_NOMEM, nomem m, h')" "step m h (nomem m) h' {#}"
  | (ok) m' h' buf where "vdbeMemAddTerminator e m h = Some (SQLITE_OK, m', h')" "step m h m' h' {#}" "same_kind m m'"
      "in_buffer h' m' buf" "good e h' m' v" "has m' MEM_Term"
proof -
  obtain s where s: "read_mem e h (mz m) (mn m) = Some s" "mn m + zeros m + 3 < 2 ^ 31" "\<not> has m MEM_Null"
    by (rule content [OF assms(2,3)])
  show thesis
  proof (rule AddTerminator_step [OF assms(1) good_wf [OF assms(2)] s(1)], goal_cases)
    case 1
    then show ?case using s(2) by simp
  next
    case (2 h')
    then show thesis by (rule that(1))
  next
    case (3 m' h' buf)
    have mn: "mn m' = mn m" using 3(3) by (simp add: same_kind_def)
    have "term_ok e h' m'" by (rule term_ok_zeros [of h' m' buf]) (use 3 mn in \<open>simp_all add: in_buffer_def\<close>)
    then have "good e h' m' v"
      by (intro good_buffer [OF _ 3(3) s(3) 3(4)]) (use assms(2) s(1) 3(5) in \<open>simp_all add: good_def\<close>)
    moreover have "has m' MEM_Term" using 3(8) by (simp add: flag_ops)
    ultimately show thesis using that(2) 3 by blast
  qed
qed

lemma buffer_places: "good e h m v \<Longrightarrow> has m (MEM_Str OR MEM_Blob) \<Longrightarrow> szMalloc m > 0 \<Longrightarrow> mz m = zMalloc m \<Longrightarrow>
  \<not> has m (MEM_Dyn OR MEM_Ephem OR MEM_Static)"
  by (auto simp: good_def typed_def places_def has_or split: if_splits)

lemma buffer_exists:
  assumes "good e h m v" "has m (MEM_Str OR MEM_Blob)" "szMalloc m > 0" "mz m = zMalloc m"
  obtains buf where "in_buffer h m buf"
proof -
  obtain b s where b: "zMalloc m = Block b" "blocks h b = Some s" "length s = szMalloc m" using wf_block [OF good_wf] assms(1,3) by blast
  then have "holds h m s" using assms(3,4) by (simp add: holds_def)
  obtain t where "read_mem e h (mz m) (mn m) = Some t" using content [OF assms(1,2)] by blast
  then have "mn m \<le> length s" using b assms(4) by (auto simp: read_mem_def bytes_at_def split: if_splits)
  then show thesis using that \<open>holds h m s\<close> buffer_places [OF assms] good_wf [OF assms(1)] by (auto simp: in_buffer_def)
qed

lemma and_not_idle: "\<not> has m f \<Longrightarrow> m\<lparr>flags := flags m AND NOT f\<rparr> = m"
  by (cases m) (auto simp: has_def bit_eq_iff bit_simps)

lemma good_not_ephem:
  assumes "good e h m v" "\<not> has m (MEM_Str OR MEM_Blob)" "m' = m\<lparr>flags := flags m AND NOT MEM_Ephem\<rparr>"
  shows "good e h m' v" "step m h m' h {#}"
proof -
  have f: "has m' f = has m f" if "f \<in> {MEM_Null, MEM_Str, MEM_Int, MEM_Real, MEM_Blob, MEM_IntReal, MEM_Cleared, MEM_Dyn, MEM_Agg, MEM_Zero}" for f
    using that assms(3) by (auto simp: flag_ops)
  have m': "mu m' = mu m" "mz m' = mz m" "zMalloc m' = zMalloc m" "szMalloc m' = szMalloc m" "xDel m' = xDel m" by (simp_all add: assms(3))
  have "has m MEM_Null \<Longrightarrow> m' = m"
    unfolding assms(3) by (rule and_not_idle) (use assms(1) in \<open>auto simp: good_def typed_def flag_ops\<close>)
  then have "typed m'" using assms(1,2) f m' by (auto simp: good_def typed_def has_or)
  moreover have "cell_value e h m' = cell_value e h m" "term_ok e h m'" using assms(2) f m' by (auto simp: cell_value_def term_ok_def has_or)
  moreover have w: "wf_cell h m'" using assms(1) f m' by (simp add: good_def wf_cell_def)
  ultimately show "good e h m' v" using assms(1) by (simp add: good_def)
  show "step m h m' h {#}" using w f m' by (simp add: step_def others_def own_def pend_def)
qed

text \<open>\<open>sqlite3VdbeMemMakeWriteable\<close> keeps the value.\<close>

lemma MakeWriteable_text:
  assumes "env_ok e" "good e h m v" "has m (MEM_Str OR MEM_Blob)"
  obtains (fail) h' where "sqlite3VdbeMemMakeWriteable e m h = Some (SQLITE_NOMEM, nomem m, h')" "step m h (nomem m) h' {#}"
  | (ok) m' h' buf where "sqlite3VdbeMemMakeWriteable e m h = Some (SQLITE_OK, m', h')" "step m h m' h' {#}" "good e h' m' v"
      "in_buffer h' m' buf" "has m MEM_Str \<longrightarrow> same_kind m m'"
proof (cases "has m MEM_Zero")
  case True
  then have str: "\<not> has m MEM_Str" using assms(2) by (auto simp: good_def typed_def)
  show thesis
  proof (rule ExpandBlob_step [OF assms(1,2) True], goal_cases)
    case (1 h')
    then show thesis using that(1) True assms(3) by (simp add: sqlite3VdbeMemMakeWriteable_def ExpandBlob_def)
  next
    case (2 m' h' buf)
    have "\<not> has m' MEM_Ephem" "szMalloc m' \<noteq> 0" "mz m' = zMalloc m'" using 2(4) by (auto simp: in_buffer_def has_or holds_def)
    then have "sqlite3VdbeMemMakeWriteable e m h = Some (SQLITE_OK, m', h')"
      using 2(1) True assms(3) by (simp add: sqlite3VdbeMemMakeWriteable_def ExpandBlob_def and_not_idle)
    then show thesis using that(2) 2 str by blast
  qed
next
  case False
  show thesis
  proof (cases "szMalloc m = 0 \<or> mz m \<noteq> zMalloc m")
    case own: True
    show thesis
    proof (rule AddTerminator_good [OF assms], goal_cases)
      case (1 h')
      then show thesis using that(1) False own assms(3) by (auto simp: sqlite3VdbeMemMakeWriteable_def ExpandBlob_def)
    next
      case (2 m' h' buf)
      have "\<not> has m' MEM_Ephem" using 2(4) by (simp add: in_buffer_def has_or)
      then have "sqlite3VdbeMemMakeWriteable e m h = Some (SQLITE_OK, m', h')"
        using 2(1) False own assms(3) by (auto simp: sqlite3VdbeMemMakeWriteable_def ExpandBlob_def and_not_idle)
      then show thesis using that(2) 2 by blast
    qed
  next
    case own: False
    then obtain buf where buf: "in_buffer h m buf" using buffer_exists [OF assms(2,3)] by auto
    then have "\<not> has m MEM_Ephem" by (simp add: in_buffer_def has_or)
    then have "sqlite3VdbeMemMakeWriteable e m h = Some (SQLITE_OK, m, h)"
      using False own assms(3) by (simp add: sqlite3VdbeMemMakeWriteable_def ExpandBlob_def and_not_idle)
    then show thesis using that(2) buf assms(2) step_refl [OF good_wf [OF assms(2)]] by (simp add: same_kind_def)
  qed
qed

text \<open>A cell between operations: its text is in its own allocation, in memory that it has to give back, or in memory that
  stays available; the latter is the set \<open>B\<close>.\<close>

definition sound :: "nat set \<Rightarrow> mem \<Rightarrow> bool" where
  "sound B m \<longleftrightarrow> (has m (MEM_Str OR MEM_Blob) \<longrightarrow> \<not> has m MEM_Ephem \<and>
     (case mz m of Null \<Rightarrow> True | Block b \<Rightarrow> b \<in> own m | Extern x \<Rightarrow> has m MEM_Dyn \<or> x \<in> B))"

lemma sound_null: "flags m = MEM_Null \<Longrightarrow> sound B m"
  by (simp add: sound_def flag_ops)

lemma sound_other: "\<not> has m (MEM_Str OR MEM_Blob) \<Longrightarrow> sound B m"
  by (simp add: sound_def)

lemma sound_buffer: "in_buffer h m buf \<Longrightarrow> sound B m"
  by (auto simp: sound_def in_buffer_def holds_def has_or own_def)

text \<open>The result of an operation that returns a code: the code and the value are as \<open>P\<close> says.\<close>

definition outcome :: "mem_env \<Rightarrow> nat set \<Rightarrow> mem \<Rightarrow> mheap \<Rightarrow> (int \<times> mem \<times> mheap) option \<Rightarrow> (int \<Rightarrow> sql_value \<Rightarrow> bool) \<Rightarrow> (nat \<times> nat) multiset \<Rightarrow> bool" where
  "outcome e B m h r P G \<longleftrightarrow> (\<exists>rc m' h' v. r = Some (rc, m', h') \<and> step m h m' h' G \<and> good e h' m' v \<and> sound B m' \<and> P rc v)"

text \<open>The value is \<open>v\<close>, or there was no memory and the cell is null.\<close>

definition set_to :: "sql_value \<Rightarrow> int \<Rightarrow> sql_value \<Rightarrow> bool" where
  "set_to v rc v' \<longleftrightarrow> rc = SQLITE_OK \<and> v' = v \<or> rc = SQLITE_NOMEM \<and> v' = V_null"

lemma set_to_simps [simp]: "set_to v SQLITE_OK v' \<longleftrightarrow> v' = v" "set_to v SQLITE_NOMEM v' \<longleftrightarrow> v' = V_null"
  by (auto simp: set_to_def)

lemma outcome_ok: "r = Some (rc, m', h') \<Longrightarrow> step m h m' h' G \<Longrightarrow> good e h' m' v \<Longrightarrow> sound B m' \<Longrightarrow> P rc v \<Longrightarrow> outcome e B m h r P G"
  by (auto simp: outcome_def)

lemma outcome_set: "r = Some (SQLITE_OK, m', h') \<Longrightarrow> step m h m' h' G \<Longrightarrow> good e h' m' v \<Longrightarrow> sound B m' \<Longrightarrow> outcome e B m h r (set_to v) G"
  by (auto simp: outcome_def)

lemma sound_nomem: "sound B (nomem m)"
  by (rule sound_null) (simp add: nomem_def)

lemma outcome_nomem: "r = Some (SQLITE_NOMEM, nomem m1, h') \<Longrightarrow> step m h (nomem m1) h' G \<Longrightarrow> outcome e B m h r (set_to v) G"
  using good_nomem sound_nomem by (auto simp: outcome_def set_to_def)

lemma outcome_same: "good e h m v \<Longrightarrow> sound B m \<Longrightarrow> r = Some (SQLITE_OK, m, h) \<Longrightarrow> outcome e B m h r (set_to v) {#}"
  using step_refl [OF good_wf] by (auto simp: outcome_def set_to_def)

lemma outcome_step: "step m h m1 h1 G \<Longrightarrow> outcome e B m1 h1 r P {#} \<Longrightarrow> outcome e B m h r P G"
  unfolding outcome_def using step_trans [of m h m1 h1 G _ _ "{#}"] by fastforce

lemma MakeWriteable_outcome:
  assumes "env_ok e" "good e h m v"
  shows "outcome e B m h (sqlite3VdbeMemMakeWriteable e m h) (set_to v) {#}"
proof (cases "has m (MEM_Str OR MEM_Blob)")
  case True
  show ?thesis
  proof (rule MakeWriteable_text [OF assms True], goal_cases)
    case (1 h')
    then show ?case by (rule outcome_nomem)
  next
    case (2 m' h' buf)
    then show ?case by (blast intro: outcome_set sound_buffer)
  qed
next
  case False
  let ?m = "m\<lparr>flags := flags m AND NOT MEM_Ephem\<rparr>"
  have "sqlite3VdbeMemMakeWriteable e m h = Some (SQLITE_OK, ?m, h)" using False by (simp add: sqlite3VdbeMemMakeWriteable_def)
  then show ?thesis by (rule outcome_set) (use good_not_ephem [OF assms(2) False refl] False in \<open>auto simp: sound_def flag_ops\<close>)
qed

lemma NulTerminate_outcome:
  assumes "env_ok e" "good e h m v" "sound B m"
  shows "outcome e B m h (sqlite3VdbeMemNulTerminate e m h) (set_to v) {#}"
proof (cases "flags m AND (MEM_Term OR MEM_Str) \<noteq> MEM_Str")
  case True
  then show ?thesis using assms(2,3) by (intro outcome_same) (simp_all add: sqlite3VdbeMemNulTerminate_def)
next
  case False
  then have eq: "sqlite3VdbeMemNulTerminate e m h = vdbeMemAddTerminator e m h" by (simp add: sqlite3VdbeMemNulTerminate_def)
  have "bit (flags m AND (MEM_Term OR MEM_Str)) 1 = bit MEM_Str 1" using False by simp
  then have str: "has m (MEM_Str OR MEM_Blob)" by (simp add: flag_ops)
  show ?thesis unfolding eq
  proof (rule AddTerminator_good [OF assms(1,2) str], goal_cases)
    case (1 h')
    then show ?case by (rule outcome_nomem)
  next
    case (2 m' h' buf)
    then show ?case by (blast intro: outcome_set sound_buffer)
  qed
qed

lemma ExpandBlob_outcome:
  assumes "env_ok e" "good e h m v" "sound B m"
  shows "outcome e B m h (ExpandBlob e m h) (set_to v) {#}"
proof (cases "has m MEM_Zero")
  case True
  have eq: "ExpandBlob e m h = sqlite3VdbeMemExpandBlob e m h" using True by (simp add: ExpandBlob_def)
  show ?thesis unfolding eq
  proof (rule ExpandBlob_step [OF assms(1,2) True], goal_cases)
    case (1 h')
    then show ?case by (rule outcome_nomem)
  next
    case (2 m' h' buf)
    then show ?case by (blast intro: outcome_set sound_buffer)
  qed
next
  case False
  then show ?thesis using assms(2,3) by (intro outcome_same) (simp_all add: ExpandBlob_def)
qed

section \<open>Numbers, null and pointers\<close>

text \<open>A cell that is set to something that is not kept in memory.\<close>

lemma SetNull_good:
  assumes "wf_cell h m"
  obtains m' h' where "sqlite3VdbeMemSetNull m h = Some (m', h')" "step m h m' h' {#}" "good e h' m' V_null" "flags m' = MEM_Null"
proof -
  obtain D where D: "sqlite3VdbeMemSetNull m h = Some (m\<lparr>flags := MEM_Null\<rparr>, h\<lparr>deleted := D\<rparr>)"
    "step m h (m\<lparr>flags := MEM_Null\<rparr>) (h\<lparr>deleted := D\<rparr>) {#}" by (rule SetNull_step [OF assms])
  then show thesis using that good_null [OF step_wf [OF D(2)]] by simp
qed

lemma set_number:
  assumes "step m h m1 h1 G" "m' = m1\<lparr>mu := u, flags := f\<rparr>" "\<not> has m1 MEM_Dyn" "u = U_i x \<and> f = MEM_Int \<and> v = V_int x \<or> u = U_r x \<and> f = MEM_Real \<and> v = V_real x"
  shows "step m h m' h1 G" "good e h1 m' v"
proof -
  have f: "\<not> has m' MEM_Dyn" "\<not> has m' MEM_Agg" "\<not> has m' (MEM_Null OR MEM_Str OR MEM_Blob OR MEM_IntReal OR MEM_Cleared OR MEM_Zero)"
    "has m' MEM_Int = (f = MEM_Int)" "has m' MEM_Real = (f = MEM_Real)" "MEM_Int \<noteq> MEM_Real"
    using assms(2,4) by (auto simp: flag_ops) (simp_all add: flag_defs)
  show st: "step m h m' h1 G" by (rule step_quiet [OF assms(1,3) f(1,2)]) (simp_all add: assms(2))
  have "typed m'" using f by (auto simp: typed_def has_or)
  moreover have "cell_value e h1 m' = Some v" using f assms(2,4) by (auto simp: cell_value_def has_or)
  ultimately show "good e h1 m' v" using step_wf [OF st] f(3) assms(4) by (auto simp: good_def term_ok_def has_or val_ok_def)
qed

lemma SetInt64_good:
  assumes "wf_cell h m"
  obtains m' h' where "sqlite3VdbeMemSetInt64 m i h = Some (m', h')" "step m h m' h' {#}" "good e h' m' (V_int i)"
proof (cases "VdbeMemDynamic m")
  case True
  obtain m' h' where n: "sqlite3VdbeMemSetNull m h = Some (m', h')" "step m h m' h' {#}" "flags m' = MEM_Null"
    by (rule SetNull_good [OF assms])
  then have "\<not> has m' MEM_Dyn" by (simp add: flag_ops)
  then show thesis using that set_number [OF n(2) refl, where x = i and u = "U_i i" and f = MEM_Int and v = "V_int i"] n(1) True
    by (simp add: sqlite3VdbeMemSetInt64_def vdbeReleaseAndSetInt64_def)
next
  case False
  then have "\<not> has m MEM_Dyn" by (simp add: VdbeMemDynamic_def has_or)
  then show thesis using that set_number [OF step_refl [OF assms] refl, where x = i and u = "U_i i" and f = MEM_Int and v = "V_int i"] False
    by (simp add: sqlite3VdbeMemSetInt64_def)
qed

lemma SetDouble_good:
  assumes "wf_cell h m"
  obtains m' h' where "sqlite3VdbeMemSetDouble m r h = Some (m', h')" "step m h m' h' {#}"
    "good e h' m' (if sqlite3IsNaN r then V_null else V_real r)"
proof -
  obtain m' h' where n: "sqlite3VdbeMemSetNull m h = Some (m', h')" "step m h m' h' {#}" "good e h' m' V_null" "flags m' = MEM_Null"
    by (rule SetNull_good [OF assms])
  then have "\<not> has m' MEM_Dyn" by (simp add: flag_ops)
  then show thesis using that set_number [OF n(2) refl, where x = r and u = "U_r r" and f = MEM_Real and v = "V_real r"] n
    by (cases "sqlite3IsNaN r") (simp_all add: sqlite3VdbeMemSetDouble_def)
qed

lemma SetZeroBlob_good:
  assumes "wf_cell h m" "nat n + 3 < 2 ^ 31"
  obtains m' h' where "sqlite3VdbeMemSetZeroBlob m n h = Some (m', h')" "step m h m' h' {#}" "good e h' m' (V_blob (replicate (nat n) 0))" "sound B m'"
proof -
  obtain D where r: "sqlite3VdbeMemRelease m h = Some (released m, h\<lparr>blocks := others h m, deleted := D\<rparr>)"
    "step m h (released m) (h\<lparr>blocks := others h m, deleted := D\<rparr>) {#}" by (rule Release_step [OF assms(1)])
  let ?h = "h\<lparr>blocks := others h m, deleted := D\<rparr>"
  define m' where "m' = (released m)\<lparr>flags := MEM_Blob OR MEM_Zero, mn := 0, mu := U_nZero (nat n), enc := SQLITE_UTF8, mz := Null\<rparr>"
  have f: "\<not> has m' MEM_Dyn" "\<not> has m' MEM_Agg" "has m' MEM_Blob" "has m' MEM_Zero"
    "\<not> has m' (MEM_Null OR MEM_Int OR MEM_Real OR MEM_IntReal OR MEM_Cleared OR MEM_Str OR MEM_Ephem OR MEM_Static)"
    and m': "mu m' = U_nZero (nat n)" "mn m' = 0" "szMalloc m' = 0" "zMalloc m' = zMalloc m" "mz m' = Null"
    by (auto simp: m'_def flag_ops)
  have st: "step m h m' ?h {#}" by (rule step_quiet [OF r(2) released_quiet(1) f(1,2)]) (simp_all add: m'_def)
  have "typed m'" using f m' unfolding typed_def by (simp add: has_or places_def)
  moreover have "sound B m'" using f m' by (simp add: sound_def has_or)
  moreover have "cell_value e ?h m' = Some (V_blob (replicate (nat n) 0))"
    using f m' by (simp add: cell_value_def has_or read_mem_def zeros_def)
  ultimately show thesis
    using that r(1) st step_wf [OF st] f assms(2) by (simp add: good_def sqlite3VdbeMemSetZeroBlob_def term_ok_def has_or val_ok_def flip: m'_def)
qed

text \<open>A pointer is given to a cell that was released and set to null.\<close>

lemma SetPointer_good:
  assumes "wf_cell h m" "szMalloc m = 0" "\<not> has m MEM_Dyn"
  shows "step m h (sqlite3VdbeMemSetPointer m x t d) h {#(case d of None \<Rightarrow> 0 | Some d \<Rightarrow> d, x)#}"
    "good e h (sqlite3VdbeMemSetPointer m x t d) V_null"
proof -
  define m' where "m' = sqlite3VdbeMemSetPointer m x t d"
  have f: "flags m' = MEM_Null OR MEM_Dyn OR MEM_Subtype OR MEM_Term" "has m' MEM_Dyn" "has m' MEM_Null" "\<not> has m' (MEM_IntReal OR MEM_Cleared OR MEM_Agg OR MEM_Int OR MEM_Real OR MEM_Str OR MEM_Blob OR MEM_Zero)"
    and m': "szMalloc m' = 0" "mz m' = Extern x" "xDel m' = Some (case d of None \<Rightarrow> 0 | Some d \<Rightarrow> d)"
    using assms(2) by (auto simp: m'_def sqlite3VdbeMemSetPointer_def flag_ops)
  have w: "wf_cell h m'" using assms(1) f m' by (simp add: wf_cell_def has_or)
  have "others h m' = others h m" using assms(2) m' by (simp add: others_none)
  then show "step m h m' h {#(case d of None \<Rightarrow> 0 | Some d \<Rightarrow> d, x)#}" using w f m' assms(3) by (simp add: step_def pend_def)
  have "typed m'" using f unfolding typed_def has_or by simp
  then show "good e h m' V_null" using w f by (simp add: good_def cell_value_def term_ok_def val_ok_def has_or)
qed

section \<open>Byte order marks\<close>

definition bom_value :: "nat \<Rightarrow> bytes \<Rightarrow> sql_value" where
  "bom_value en s = (if take 2 s = [0xFE, 0xFF] then V_text SQLITE_UTF16BE (drop 2 s)
     else if take 2 s = [0xFF, 0xFE] then V_text SQLITE_UTF16LE (drop 2 s) else V_text en s)"

lemma read_mem_take: "read_mem e h p n = Some s \<Longrightarrow> k \<le> n \<Longrightarrow> read_mem e h p k = Some (take k s)"
  by (auto simp: read_mem_def min_def split: if_splits bind_splits)

text \<open>A text in its own buffer is overwritten from the start with \<open>bs\<close> and the rest of the old content; the new text is
  \<open>s'\<close>, in the encoding \<open>en\<close>.\<close>

lemma rewrite_text:
  assumes "in_buffer h m buf" "length bs \<le> length buf" "m' = m\<lparr>mn := k, enc := en, flags := f\<rparr>" "f = flags m \<or> f = flags m OR MEM_Term"
    "has m MEM_Str" "good e h m v" "s' = take k (bs @ drop (length bs) buf)" "k \<le> length buf" "val_ok (V_text en s')"
    "bit f 9 \<longrightarrow> k + length (terminator en) \<le> length buf \<and> take (length (terminator en)) (drop k (bs @ drop (length bs) buf)) = terminator en"
  obtains h' where "write_mem (mz m) 0 bs h = Some h'" "step m h m' h' {#}" "good e h' m' (V_text en s')" "sound B m'"
proof -
  let ?buf = "bs @ drop (length bs) buf"
  obtain h' where w: "write_mem (mz m) 0 bs h = Some h'" "step m h m h' {#}" "holds h' m ?buf"
    by (rule write_own [of h m buf "mz m" bs "length bs" 0]) (use assms(1,2) in \<open>simp_all add: in_buffer_def\<close>)
  have k: "has m' g = has m g" if "g \<in> {MEM_Null, MEM_Str, MEM_Int, MEM_Real, MEM_Blob, MEM_IntReal, MEM_Cleared, MEM_Dyn, MEM_Agg, MEM_Zero, MEM_Ephem, MEM_Static}" for g
    using that assms(3,4) by (auto simp: flag_ops)
  have q: "\<not> has m MEM_Dyn" "\<not> has m MEM_Agg" using assms(1) by (auto simp: in_buffer_def has_or wf_cell_def)
  have st: "step m h m' h' {#}" by (rule step_quiet [OF w(2)]) (use q k assms(3) in simp_all)
  have len: "length ?buf = length buf" using assms(2) by simp
  have "holds h' m' ?buf" by (rule holds_cong [OF w(3)]) (simp_all add: assms(3))
  moreover have "\<not> has m' (MEM_Dyn OR MEM_Ephem OR MEM_Static)" using k assms(1) by (simp add: in_buffer_def has_or)
  ultimately have buf: "in_buffer h' m' ?buf"
    using step_wf [OF st] assms(3,8) unfolding in_buffer_def len by simp
  have "term_ok e h' m'"
  proof (cases "has m' MEM_Term")
    case True
    define t where "t = length (terminator en)"
    have "bit f 9" using True assms(3) by (simp add: flag_ops)
    then have "take (k + t) ?buf = s' @ terminator en" "k + t \<le> length ?buf"
      using assms(10) unfolding len take_add assms(7) t_def by blast+
    then show ?thesis using holds_read [of h' m' ?buf "k + t" e] buf assms(3) by (auto simp: term_ok_def in_buffer_def t_def)
  qed (simp add: term_ok_def)
  moreover have "\<not> has m (MEM_Null OR MEM_Int OR MEM_Real OR MEM_IntReal OR MEM_Cleared OR MEM_Zero)" "\<not> has m MEM_Blob"
    using assms(5,6) by (auto simp: good_def typed_def flag_ops)
  ultimately have "good e h' m' (V_text en s')"
    by (intro good_in_buffer [OF buf _ assms(9), where s = s']) (use k assms(3,5,7) in \<open>simp_all add: has_or\<close>)
  then show thesis using that w(1) st sound_buffer [OF buf] by blast
qed

lemma text_content:
  assumes "good e h m (V_text en s)" "in_buffer h m buf" "has m MEM_Str"
  shows "take (mn m) buf = s" "enc m = en" "length s = mn m" "mn m \<le> length buf"
proof -
  obtain t where t: "read_mem e h (mz m) (mn m) = Some t" "length t = mn m" "V_text en s = V_text (enc m) t"
    using content [OF assms(1)] assms(3) by (metis has_or)
  then show "take (mn m) buf = s" "enc m = en" "length s = mn m" "mn m \<le> length buf"
    using holds_read [of h m buf "mn m" e] assms(2) by (auto simp: in_buffer_def)
qed

lemma HandleBom_outcome:
  assumes "env_ok e" "good e h m (V_text en s)" "has m MEM_Str" "en \<noteq> SQLITE_UTF8" "sound B m"
  shows "outcome e B m h (sqlite3VdbeMemHandleBom e m h) (set_to (bom_value en s)) {#}"
proof -
  obtain t where "read_mem e h (mz m) (mn m) = Some t" "length t = mn m" "V_text en s = V_text (enc m) t"
    using content [OF assms(2)] assms(3) by (metis has_or)
  then have s: "read_mem e h (mz m) (mn m) = Some s" "length s = mn m" "enc m = en" by simp_all
  have b2: "read_mem e h (mz m) 2 = Some (take 2 s)" if "mn m > 1" using read_mem_take [OF s(1), of 2] that by simp
  define bom where "bom = (if take 2 s = [0xFE, 0xFF] then SQLITE_UTF16BE else if take 2 s = [0xFF, 0xFE] then SQLITE_UTF16LE else 0)"
  have long: "mn m > 1" if "bom \<noteq> 0" using that s(2) by (cases s; cases "tl s") (auto simp: bom_def split: if_splits)
  have "(if mn m > 1 then do {
         s \<leftarrow> read_mem e h (mz m) 2;
         Some (if s = [0xFE, 0xFF] then SQLITE_UTF16BE else if s = [0xFF, 0xFE] then SQLITE_UTF16LE else 0) }
       else Some 0) = Some bom"
    using b2 long by (cases "bom = 0") (auto simp: bom_def)
  then have eq: "sqlite3VdbeMemHandleBom e m h = (if bom = 0 then Some (SQLITE_OK, m, h)
     else do {
       (rc, p, h) \<leftarrow> sqlite3VdbeMemMakeWriteable e m h;
       if rc \<noteq> SQLITE_OK then Some (rc, p, h)
       else do {
         s \<leftarrow> read_mem e h (mz p) (mn p);
         h \<leftarrow> write_mem (mz p) 0 (drop 2 s @ [0, 0]) h;
         Some (SQLITE_OK, p\<lparr>mn := mn p - 2, flags := flags p OR MEM_Term, enc := bom\<rparr>, h) } })"
    by (simp only: sqlite3VdbeMemHandleBom_def bind.bind_lunit)
  have val: "val_ok (V_text en s)" using assms(2) by (simp add: good_def)
  show ?thesis
  proof (cases "bom = 0")
    case True
    then have "bom_value en s = V_text en s" by (auto simp: bom_def bom_value_def encodings split: if_splits)
    then show ?thesis using True assms(2,5) by (intro outcome_same) (simp_all add: eq)
  next
    case False
    have bv: "bom_value en s = V_text bom (drop 2 s)" "bom \<in> {SQLITE_UTF16LE, SQLITE_UTF16BE}"
      using False by (auto simp: bom_def bom_value_def split: if_splits)
    have tm: "terminator bom = [0, 0]" using bv(2) by (auto simp: terminator_def encodings)
    show ?thesis
    proof (rule MakeWriteable_text [OF assms(1,2)], goal_cases)
      case 1
      then show ?case using assms(3) by (simp add: has_or)
    next
      case (2 h')
      then show ?case using False by (intro outcome_nomem [where h' = h']) (simp_all add: eq)
    next
      case (3 m1 h1 buf)
      then have k: "same_kind m m1" "has m1 MEM_Str" using assms(3) by (auto simp: same_kind_def)
      note c = text_content [OF 3(3,4) k(2)]
      have rd: "read_mem e h1 (mz m1) (mn m1) = Some s" using holds_read [of h1 m1 buf "mn m1" e] 3(4) c by (simp add: in_buffer_def)
      have n: "1 < mn m1" "even (mn m1)" "length s + 3 < 2 ^ 31" using long [OF False] c(3) s(2) val assms(4) by (simp_all add: val_ok_def)
      let ?m = "m1\<lparr>mn := mn m1 - 2, enc := bom, flags := flags m1 OR MEM_Term\<rparr>" and ?bs = "drop 2 s @ [0, 0]"
      obtain h2 where w: "write_mem (mz m1) 0 ?bs h1 = Some h2" "step m1 h1 ?m h2 {#}" "good e h2 ?m (V_text bom (drop 2 s))" "sound B ?m"
        by (rule rewrite_text [OF 3(4) _ refl _ k(2) 3(3), where bs = ?bs and f = "flags m1 OR MEM_Term" and k = "mn m1 - 2" and s' = "drop 2 s" and en = bom])
          (use c n tm bv(2) in \<open>auto simp: val_ok_def\<close>)
      have "sqlite3VdbeMemHandleBom e m h = Some (SQLITE_OK, ?m, h2)" using False 3(1) rd w(1) by (simp add: eq)
      then show ?case unfolding bv(1) using step_trans0 [OF 3(2) w(2)] w(3,4) by (rule outcome_set)
    qed
  qed
qed

section \<open>Encodings\<close>

lemma swap_bytes_length [simp]: "length (swap_bytes z) = length z"
  by (induction z rule: swap_bytes.induct) simp_all

lemma translate_loop_even:
  assumes "translate_loop rdc wrc z = Some out" "\<And>c. even (length (wrc c))"
  shows "even (length out)"
  using assms(1)
proof (induction z arbitrary: out rule: length_induct)
  case (1 z)
  then show ?case
    by (subst (asm) (2) translate_loop.simps) (auto simp: assms(2) split: if_splits option.splits prod.splits)
qed

definition encs :: "nat set" where
  "encs = {SQLITE_UTF8, SQLITE_UTF16LE, SQLITE_UTF16BE}"

lemma UTF16_even: "even (length (WRITE_UTF16LE c))" "even (length (WRITE_UTF16BE c))"
  by (simp_all add: WRITE_UTF16LE_def WRITE_UTF16BE_def)

lemma translate_even:
  assumes "translate_content SQLITE_UTF8 e2 z = Some out" "e2 \<noteq> SQLITE_UTF8"
  shows "even (length out)"
  using assms translate_loop_even [OF _ UTF16_even(1)] translate_loop_even [OF _ UTF16_even(2)]
  by (auto simp: translate_content_def split: if_splits)

text \<open>\<open>sqlite3VdbeMemTranslate\<close> between the two encodings of UTF-16.\<close>

definition translated :: "nat \<Rightarrow> nat \<Rightarrow> bytes \<Rightarrow> int \<Rightarrow> sql_value \<Rightarrow> bool" where
  "translated en en' s rc v \<longleftrightarrow>
     rc = SQLITE_OK \<and> (\<exists>out. translate_content en en' s = Some out \<and> v = V_text en' out) \<or>
     rc = SQLITE_NOMEM \<and> v \<in> {V_text en s, V_null}"

lemma Translate_swap:
  assumes "env_ok e" "good e h m (V_text en s)" "has m MEM_Str" "en \<noteq> SQLITE_UTF8" "en' \<noteq> SQLITE_UTF8" "en' \<in> encs"
  shows "outcome e B m h (sqlite3VdbeMemTranslate e m en' h) (translated en en' s) {#}"
proof -
  have str: "has m (MEM_Str OR MEM_Blob)" using assms(3) by (simp add: has_or)
  have en: "enc m = en" using content [OF assms(2) str] assms(3) by auto
  have tc: "translate_content en en' z = Some (swap_bytes z)" for z using assms(4,5) by (simp add: translate_content_def)
  show ?thesis
  proof (rule MakeWriteable_text [OF assms(1,2) str], goal_cases)
    case (1 h')
    then have "sqlite3VdbeMemTranslate e m en' h = Some (SQLITE_NOMEM, nomem m, h')"
      using assms(4,5) en by (simp add: sqlite3VdbeMemTranslate_def)
    then show ?case using 1(2) good_nomem [OF 1(2)] sound_nomem by (rule outcome_ok) (simp add: translated_def)
  next
    case (2 m1 h1 buf)
    then have k: "has m1 MEM_Str" "mn m1 = mn m" "enc m1 = en" using assms(3) en by (auto simp: same_kind_def)
    note c = text_content [OF 2(3,4) k(1)]
    have rd: "read_mem e h1 (mz m1) (mn m1) = Some s" using holds_read [of h1 m1 buf "mn m1" e] 2(4) c by (simp add: in_buffer_def)
    have n: "even (length s)" "length s + 3 < 2 ^ 31" using assms(2,4) by (simp_all add: good_def val_ok_def)
    have tm: "terminator en = [0, 0]" "terminator en' = [0, 0]" using assms(4,5) by (simp_all add: terminator_def)
    have tok: "mn m1 + 2 \<le> length buf \<and> take 2 (drop (mn m1) buf) = [0, 0]" if b9: "bit (flags m1) 9"
    proof -
      obtain t where t: "read_mem e h1 (mz m1) (mn m1 + 2) = Some (t @ [0, 0])"
        using b9 2(3) k(1,3) tm by (auto simp: good_def term_ok_def flag_ops)
      obtain b where "mz m1 = Block b" "blocks h1 b = Some buf" using 2(4) by (auto simp: in_buffer_def holds_def)
      then have t': "mn m1 + 2 \<le> length buf" "take (mn m1 + 2) buf = t @ [0, 0]"
        using t by (auto simp: read_mem_def bytes_at_def split: if_splits)
      have "length (take (mn m1 + 2) buf) = length (t @ [0, 0])" by (simp only: t'(2))
      then have "length t = mn m1" using t'(1) by simp
      moreover have "take (mn m1) buf @ take 2 (drop (mn m1) buf) = t @ [0, 0]" using t'(2) by (simp only: take_add)
      ultimately show "mn m1 + 2 \<le> length buf \<and> take 2 (drop (mn m1) buf) = [0, 0]" using t'(1) by simp
    qed
    have tok': "bit (flags m1) 9 \<longrightarrow> mn m1 + length (terminator en') \<le> length buf \<and>
        take (length (terminator en')) (drop (mn m1) (swap_bytes s @ drop (length (swap_bytes s)) buf)) = terminator en'"
      using tok c(3) tm(2) by (simp add: numeral_2_eq_2)
    let ?m = "m1\<lparr>mn := mn m1, enc := en', flags := flags m1\<rparr>"
    obtain h2 where w: "write_mem (mz m1) 0 (swap_bytes s) h1 = Some h2" "step m1 h1 ?m h2 {#}" "good e h2 ?m (V_text en' (swap_bytes s))" "sound B ?m"
      by (rule rewrite_text [OF 2(4) _ refl _ k(1) 2(3), where bs = "swap_bytes s" and f = "flags m1" and k = "mn m1" and s' = "swap_bytes s" and en = en'])
        (use c n tok' assms(6) in \<open>simp_all add: val_ok_def encs_def\<close>)
    have "sqlite3VdbeMemTranslate e m en' h = Some (SQLITE_OK, ?m, h2)"
      using 2(1) rd w(1) assms(4,5) k(3) en by (simp add: sqlite3VdbeMemTranslate_def tc)
    then show ?case using step_trans0 [OF 2(2) w(2)] w(3,4) by (rule outcome_ok) (simp add: translated_def tc)
  qed
qed

text \<open>A block that nobody owns yet is added to the heap.\<close>

lemma wf_extend:
  assumes "wf_cell h m" "blocks h' = (blocks h)(b \<mapsto> s)" "b = next_block h" "next_block h' = Suc b"
  shows "wf_cell h' m" "others h' m = (others h m)(b \<mapsto> s)"
proof -
  have b: "b \<notin> dom (blocks h)" using assms(1,3) by (auto simp: wf_cell_def heap_ok_def)
  have "heap_ok h'" using assms unfolding wf_cell_def heap_ok_def by (auto simp: less_Suc_eq)
  then show "wf_cell h' m" using assms b by (auto simp: wf_cell_def malloc_size_def split: mem_ptr.splits)
  have "own m \<subseteq> dom (blocks h)" using assms(1) by (auto simp: own_def wf_cell_def malloc_size_def split: if_splits mem_ptr.splits)
  then have "b \<notin> own m" using b by blast
  then show "others h' m = (others h m)(b \<mapsto> s)" using assms(2) by (auto simp: others_def restrict_map_def)
qed

text \<open>The cell releases what it has and takes over a block.\<close>

lemma take_over:
  assumes "wf_cell h m" "blocks h1 = (blocks h)(b \<mapsto> buf)" "b = next_block h" "next_block h1 = Suc b" "deleted h1 = deleted h" "0 < length buf"
  obtains D where "sqlite3VdbeMemRelease m h1 = Some (released m, h1\<lparr>blocks := (others h m)(b \<mapsto> buf), deleted := D\<rparr>)"
    "\<And>m' h'. h' = h1\<lparr>blocks := (others h m)(b \<mapsto> buf), deleted := D\<rparr> \<Longrightarrow> zMalloc m' = Block b \<Longrightarrow> mz m' = Block b \<Longrightarrow> szMalloc m' = length buf \<Longrightarrow>
      \<not> has m' (MEM_Dyn OR MEM_Agg OR MEM_Ephem OR MEM_Static) \<Longrightarrow> mn m' \<le> length buf \<Longrightarrow> step m h m' h' {#} \<and> in_buffer h' m' buf"
proof -
  note x = wf_extend [OF assms(1-4)]
  obtain D where D: "sqlite3VdbeMemRelease m h1 = Some (released m, h1\<lparr>blocks := others h1 m, deleted := D\<rparr>)"
    "mset D = mset (deleted h1) + pend m" by (rule Release_eq [OF x(1)])
  have "step m h m' h' {#} \<and> in_buffer h' m' buf"
    if "h' = h1\<lparr>blocks := (others h m)(b \<mapsto> buf), deleted := D\<rparr>" "zMalloc m' = Block b" "mz m' = Block b" "szMalloc m' = length buf"
      "\<not> has m' (MEM_Dyn OR MEM_Agg OR MEM_Ephem OR MEM_Static)" "mn m' \<le> length buf" for m' h'
  proof -
    have w: "wf_cell h' m'" "others h' m' = others h m"
      by (rule wf_new [where h = h and m = m and b = b and buf = buf]; use that assms in \<open>auto simp: wf_cell_def has_or\<close>)+
    have "pend m' = {#}" using that(5) by (simp add: pend_def has_or)
    then have "step m h m' h' {#}" using w D(2) assms(5) that(1) by (simp add: step_def)
    moreover have "holds h' m' buf" using that assms(6) by (simp add: holds_def)
    ultimately show ?thesis using w(1) that(5,6) by (simp add: in_buffer_def has_or)
  qed
  then show thesis using that D(1) by (simp add: x(2))
qed

lemma Translate_convert:
  assumes "env_ok e" "good e h m (V_text en s)" "has m MEM_Str" "sound B m"
    "en = SQLITE_UTF8 \<and> en' \<in> {SQLITE_UTF16LE, SQLITE_UTF16BE} \<or> en \<in> {SQLITE_UTF16LE, SQLITE_UTF16BE} \<and> en' = SQLITE_UTF8"
  shows "outcome e B m h (sqlite3VdbeMemTranslate e m en' h) (translated en en' s) {#}"
proof -
  have str: "has m (MEM_Str OR MEM_Blob)" using assms(3) by (simp add: has_or)
  have m: "enc m = en" "read_mem e h (mz m) (mn m) = Some s" "length s = mn m"
    using content [OF assms(2) str] assms(3) by auto
  have ev: "en' = SQLITE_UTF8 \<Longrightarrow> even (mn m)" using assms(2,5) m(3) by (auto simp: good_def val_ok_def encodings)
  obtain out where out: "translate_content en en' s = Some out" "length out + length (terminator en') \<le> translate_len en' (length s)"
    using translate_bound [OF assms(5)] by blast
  define bs where "bs = out @ terminator en'"
  have eq: "sqlite3VdbeMemTranslate e m en' h = (let (zOut, h) = malloc_raw e (translate_len en' (mn m)) h in
       if zOut = Null then Some (SQLITE_NOMEM, m, h)
       else do {
         h \<leftarrow> write_mem zOut 0 bs h;
         (p, h) \<leftarrow> sqlite3VdbeMemRelease m h;
         sz \<leftarrow> malloc_size zOut h;
         Some (SQLITE_OK, p\<lparr>mn := length out, flags := MEM_Str OR MEM_Term OR (flags m AND (MEM_AffMask OR MEM_Subtype)),
           enc := en', mz := zOut, zMalloc := zOut, szMalloc := sz\<rparr>, h) })"
  proof -
    have c: "\<not> (en \<noteq> SQLITE_UTF8 \<and> en' \<noteq> SQLITE_UTF8)" using assms(5) by auto
    have pm: "(if en' = SQLITE_UTF8 then m\<lparr>mn := mn m - mn m mod 2\<rparr> else m) = m" using ev by (cases "en' = SQLITE_UTF8") simp_all
    show ?thesis
      by (cases "malloc_raw e (translate_len en' (mn m)) h")
        (simp only: sqlite3VdbeMemTranslate_def m(1,2) if_not_P [OF c] pm Let_def bind.bind_lunit out(1) bs_def prod.case)
  qed
  have hok: "heap_ok h" using good_wf [OF assms(2)] by (simp add: wf_cell_def)
  show ?thesis
  proof (rule new_block_cases [OF assms(1) hok, of "translate_len en' (mn m)" "[]"], goal_cases)
    case 1
    let ?h = "h\<lparr>mallocs := Suc (mallocs h)\<rparr>"
    have r: "sqlite3VdbeMemTranslate e m en' h = Some (SQLITE_NOMEM, m, ?h)" using 1 by (simp add: eq malloc_raw_def)
    have g: "good e ?h m (V_text en s)"
      by (rule good_frame [OF assms(2)]) (use hok in \<open>simp_all add: heap_ok_def bytes_at_def cong: mem_ptr.case_cong\<close>)
    have "step m h m ?h {#}" using good_wf [OF g] by (simp add: step_def others_def)
    with r show ?case using g assms(4) by (rule outcome_ok) (simp add: translated_def)
  next
    case (2 b buf)
    let ?h1 = "h\<lparr>mallocs := Suc (mallocs h), next_block := Suc b, blocks := (blocks h)(b \<mapsto> buf)\<rparr>"
    define buf' where "buf' = bs @ drop (length bs) buf"
    have len: "length bs \<le> length buf" using out(2) 2(4) m(3) by (simp add: bs_def)
    let ?h2 = "?h1\<lparr>blocks := (blocks h)(b \<mapsto> buf')\<rparr>"
    have w: "write_mem (Block b) 0 bs ?h1 = Some ?h2" using len wr_nat [of 0 bs buf] by (simp add: write_mem_def buf'_def)
    have len': "length buf' = length buf" "0 < length buf'" using len 2(4,5) by (auto simp: buf'_def)
    obtain D where D: "sqlite3VdbeMemRelease m ?h2 = Some (released m, ?h2\<lparr>blocks := (others h m)(b \<mapsto> buf'), deleted := D\<rparr>)"
      "\<And>m' h'. h' = ?h2\<lparr>blocks := (others h m)(b \<mapsto> buf'), deleted := D\<rparr> \<Longrightarrow> zMalloc m' = Block b \<Longrightarrow> mz m' = Block b \<Longrightarrow> szMalloc m' = length buf' \<Longrightarrow>
        \<not> has m' (MEM_Dyn OR MEM_Agg OR MEM_Ephem OR MEM_Static) \<Longrightarrow> mn m' \<le> length buf' \<Longrightarrow> step m h m' h' {#} \<and> in_buffer h' m' buf'"
      by (rule take_over [OF good_wf [OF assms(2)], of ?h2 b buf']) (use 2(2) len'(2) in auto)
    let ?h3 = "?h2\<lparr>blocks := (others h m)(b \<mapsto> buf'), deleted := D\<rparr>"
    define m' where "m' = (released m)\<lparr>mn := length out, flags := MEM_Str OR MEM_Term OR (flags m AND (MEM_AffMask OR MEM_Subtype)),
        enc := en', mz := Block b, zMalloc := Block b, szMalloc := length buf'\<rparr>"
    have res: "sqlite3VdbeMemTranslate e m en' h = Some (SQLITE_OK, m', ?h3)"
      using 2(1) w D(1) by (simp add: eq malloc_raw_def malloc_size_def m'_def)
    have f: "\<not> has m' (MEM_Dyn OR MEM_Agg OR MEM_Ephem OR MEM_Static)" "has m' MEM_Str" "\<not> has m' MEM_Blob"
      "\<not> has m' (MEM_Null OR MEM_Int OR MEM_Real OR MEM_IntReal OR MEM_Cleared OR MEM_Zero)"
      using assms(2,3) by (auto simp: m'_def good_def typed_def flag_ops)
    have st: "step m h m' ?h3 {#}" "in_buffer ?h3 m' buf'"
      using D(2) [OF refl, of m'] f(1) len len'(1) by (simp_all add: m'_def bs_def)
    have ok: "val_ok (V_text en' out)"
      using out translate_even [of en' s out] assms(5) 2(4-6) m(3) by (auto simp: val_ok_def encodings terminator_def)
    have "take (length out + length (terminator en')) buf' = out @ terminator en'" by (simp add: buf'_def bs_def)
    then have "term_ok e ?h3 m'" using holds_read [of ?h3 m' buf' "length out + length (terminator en')" e] st(2) len len'(1)
      by (simp add: term_ok_def in_buffer_def m'_def bs_def)
    then have g: "good e ?h3 m' (V_text en' out)"
      by (intro good_in_buffer [OF st(2) _ ok, where s = out]) (use f in \<open>simp_all add: m'_def buf'_def bs_def\<close>)
    from res st(1) g sound_buffer [OF st(2)] show ?case by (rule outcome_ok) (simp add: translated_def out(1))
  qed
qed

lemma ChangeEncoding_outcome:
  assumes "env_ok e" "good e h m v" "en' \<in> encs" "sound B m"
  shows "outcome e B m h (sqlite3VdbeChangeEncoding e m en' h)
    (case v of V_text en s \<Rightarrow> if en = en' then set_to v else translated en en' s | _ \<Rightarrow> set_to v) {#}"
proof (cases "has m MEM_Str")
  case True
  then have str: "has m (MEM_Str OR MEM_Blob)" by (simp add: has_or)
  obtain s where v: "v = V_text (enc m) s" using content [OF assms(2) str] True by auto
  have e: "enc m \<in> encs" using assms(2) v by (simp add: good_def val_ok_def encs_def)
  show ?thesis
  proof (cases "enc m = en'")
    case False
    then have "outcome e B m h (sqlite3VdbeMemTranslate e m en' h) (translated (enc m) en' s) {#}"
      using Translate_swap [OF assms(1) _ True _ _ assms(3), of h "enc m" s] Translate_convert [OF assms(1) _ True assms(4), of h "enc m" s en'] assms(2,3) e v
      by (auto simp: encs_def encodings)
    then show ?thesis using False True v by (simp add: sqlite3VdbeChangeEncoding_def)
  qed (use v assms(2,4) in \<open>auto intro!: outcome_same simp: sqlite3VdbeChangeEncoding_def\<close>)
next
  case False
  then have "\<nexists>en s. v = V_text en s" using assms(2) by (auto simp: good_def cell_value_def split: if_splits MemValue.splits)
  then have "outcome e B m h (sqlite3VdbeChangeEncoding e m en' h) (set_to v) {#}"
    using False assms(2,4) by (intro outcome_same) (simp_all add: sqlite3VdbeChangeEncoding_def)
  with \<open>\<nexists>en s. v = V_text en s\<close> show ?thesis by (auto split: sql_value.split)
qed

end
