(* ===== verification/Sqlite_Mem_Text.thy ===== *)
theory Sqlite_Mem_Text
  imports Sqlite_Mem_Value
begin

text \<open>
  Setting a cell to a text or blob, with the ways of handing over memory.
\<close>

section \<open>Texts\<close>

text \<open>The number of bytes of a text that is given with the length \<open>n\<close>, or up to its zero character when \<open>n\<close> is negative.\<close>

definition text_length :: "nat \<Rightarrow> bytes \<Rightarrow> int \<Rightarrow> nat \<Rightarrow> nat option" where
  "text_length lim s n en =
    (if n \<ge> 0 then Some (nat n)
     else if en = SQLITE_UTF8 then map_option (\<lambda>n. n mod 2 ^ 31) (strlen_mem s) else strlen16_mem lim s 0)"

text \<open>What the caller of \<open>sqlite3VdbeMemSetStr\<close> promises of the memory: the text is there, in UTF-16 it consists of whole
  units, and a text without a length ends with a zero character within the limit.\<close>

definition text_given :: "nat \<Rightarrow> bytes \<Rightarrow> int \<Rightarrow> nat \<Rightarrow> nat \<Rightarrow> bool" where
  "text_given lim s n en k \<longleftrightarrow> text_length lim s n en = Some k \<and> en \<in> insert 0 encs \<and> k + 3 < 2 ^ 31 \<and> k \<le> length s \<and>
     (en \<noteq> 0 \<and> en \<noteq> SQLITE_UTF8 \<longrightarrow> even k) \<and>
     (n < 0 \<longrightarrow> en \<noteq> 0 \<and> k + length (terminator en) \<le> length s \<and> take (length (terminator en)) (drop k s) = terminator en)"

definition text_value :: "nat \<Rightarrow> bytes \<Rightarrow> sql_value" where
  "text_value en s = (if en = 0 then V_blob s else if en = SQLITE_UTF8 then V_text en s else bom_value en s)"

text \<open>The end of the function, once the cell has got hold of the text.\<close>

definition raw_value :: "nat \<Rightarrow> bytes \<Rightarrow> sql_value" where
  "raw_value en s = (if en = 0 then V_blob s else V_text en s)"

lemma bom_value_ok: "val_ok (V_text en s) \<Longrightarrow> en \<noteq> SQLITE_UTF8 \<Longrightarrow> val_ok (bom_value en s)"
  by (auto simp: val_ok_def bom_value_def)

definition stored :: "nat \<Rightarrow> nat \<Rightarrow> nat \<Rightarrow> bytes \<Rightarrow> int \<Rightarrow> sql_value \<Rightarrow> bool" where
  "stored lim k en s rc v \<longleftrightarrow> rc = (if k > lim then SQLITE_TOOBIG else SQLITE_OK) \<and> v = text_value en s \<or> rc = SQLITE_NOMEM \<and> v = V_null"

lemma SetStr_tail:
  assumes "env_ok e" "step m h p h1 G" "good e h1 p (raw_value en s)" "enc p = (if en = 0 then SQLITE_UTF8 else en)" "en \<noteq> 0 \<longrightarrow> has p MEM_Str" "sound B p"
  shows "outcome e B m h (do {
      (rc, p, h) \<leftarrow> (if enc p \<noteq> SQLITE_UTF8 then sqlite3VdbeMemHandleBom e p h1 else Some (SQLITE_OK, p, h1));
      Some (if rc \<noteq> SQLITE_OK then SQLITE_NOMEM else if k > lim then SQLITE_TOOBIG else SQLITE_OK, p, h) }) (stored lim k en s) G"
proof (cases "enc p = SQLITE_UTF8")
  case True
  then have "raw_value en s = text_value en s" using assms(4) by (auto simp: raw_value_def text_value_def split: if_splits)
  then show ?thesis using True assms(2,3,6) by (auto simp: outcome_def stored_def)
next
  case False
  then have en: "en \<noteq> 0" "en \<noteq> SQLITE_UTF8" using assms(4) by (auto split: if_splits)
  then have "outcome e B p h1 (sqlite3VdbeMemHandleBom e p h1) (set_to (bom_value en s)) {#}"
    using HandleBom_outcome [OF assms(1), of h1 p en s B] assms(3,5,6) by (simp add: raw_value_def)
  then have "outcome e B p h1 (do {
      (rc, p, h) \<leftarrow> sqlite3VdbeMemHandleBom e p h1;
      Some (if rc \<noteq> SQLITE_OK then SQLITE_NOMEM else if k > lim then SQLITE_TOOBIG else SQLITE_OK, p, h) }) (stored lim k en s) {#}"
    using en by (fastforce simp: outcome_def stored_def text_value_def set_to_def)
  then show ?thesis using outcome_step [OF assms(2)] False by simp
qed

definition text_flags :: "int \<Rightarrow> nat \<Rightarrow> 16 word" where
  "text_flags n en = (if en = 0 then MEM_Blob else MEM_Str) OR (if n < 0 then MEM_Term else 0)"

text \<open>The number of bytes with the zero character, if there is one.\<close>

definition text_size :: "int \<Rightarrow> nat \<Rightarrow> nat \<Rightarrow> nat" where
  "text_size n en k = k + (if n < 0 then length (terminator en) else 0)"

lemma text_size_given: "text_given lim s n en k \<Longrightarrow> k \<le> text_size n en k \<and> text_size n en k \<le> length s"
  by (auto simp: text_given_def text_size_def)

lemma text_cell:
  assumes "wf_cell h p" "places p = 1" "mn p = k" "enc p = (if en = 0 then SQLITE_UTF8 else en)" "flags p = text_flags n en OR g"
    "g \<in> {0, MEM_Dyn, MEM_Static}" "text_given lim s n en k" "read_mem e h (mz p) (text_size n en k) = Some (take (text_size n en k) s)"
  shows "good e h p (raw_value en (take k s))"
proof -
  have f: "has p MEM_Str = (en \<noteq> 0)" "has p MEM_Blob = (en = 0)" "has p MEM_Term = (n < 0)"
    "\<not> has p (MEM_Null OR MEM_Int OR MEM_Real OR MEM_IntReal OR MEM_Cleared OR MEM_Zero)"
    using assms(5,6) by (auto simp: text_flags_def flag_ops)
  have sz: "k \<le> text_size n en k" using text_size_given [OF assms(7)] by simp
  have rd: "read_mem e h (mz p) (mn p) = Some (take k s)"
    using read_mem_take [OF assms(8) sz] sz by (simp add: assms(3) min_def)
  have "term_ok e h p"
  proof (cases "en \<noteq> 0 \<and> n < 0")
    case True
    then have "take (k + length (terminator en)) s = take k s @ terminator en" using assms(7) by (simp add: text_given_def take_add)
    then show ?thesis using assms(3,4,8) True f by (auto simp: term_ok_def text_size_def)
  qed (use f in \<open>auto simp: term_ok_def\<close>)
  moreover have "val_ok (raw_value en (take k s))" using assms(7) by (auto simp: raw_value_def val_ok_def text_given_def encs_def encodings)
  ultimately show ?thesis
    by (intro good_plain [OF assms(1) rd _ _ _ f(4) assms(2)]) (use f assms(4) in \<open>auto simp: raw_value_def\<close>)
qed

lemma holds_places: "holds h m buf \<Longrightarrow> \<not> has m (MEM_Dyn OR MEM_Ephem OR MEM_Static) \<Longrightarrow> places m = 1"
  by (auto simp: places_def holds_def has_or)

lemma str_length_given:
  assumes "text_given (limit_length e) s n en k" "bytes_at e h z = Some s"
  shows "str_length e z n en h = Some k"
  using assms by (auto simp: str_length_def text_given_def text_length_def split: if_splits)

lemma step_deleted: "step m h m' h' {#} \<Longrightarrow> set (deleted h') \<subseteq> set (deleted h) \<union> set_mset (pend m)"
  unfolding step_def by (metis Un_upper1 add.right_neutral set_mset_mset set_mset_union)

lemma ClearAndResize_step:
  assumes "env_ok e" "wf_cell h m" "0 < n"
  obtains (fail) h' where "sqlite3VdbeMemClearAndResize e m n h = Some (SQLITE_NOMEM, nomem m, h')" "step m h (nomem m) h' {#}"
  | (ok) m' h' buf where "sqlite3VdbeMemClearAndResize e m n h = Some (SQLITE_OK, m', h')" "step m h m' h' {#}" "holds h' m' buf"
      "n \<le> length buf" "\<not> has m' MEM_Dyn" "\<not> has m' MEM_Agg"
proof (cases "szMalloc m < n")
  case True
  show thesis
  proof (rule Grow_step [OF assms(1,2), where pre = False and n = n and s = "[]"], goal_cases)
    case (2 h')
    then show thesis using that(1) True by (simp add: sqlite3VdbeMemClearAndResize_def)
  next
    case (3 b buf h')
    have "holds h' (grown m (Block b) (length buf)) buf" using 3(3-5) by (auto simp: holds_def grown_def)
    then show thesis using that(2) 3 True grown_quiet [of m] wf_due(2) [OF assms(2)] by (simp add: sqlite3VdbeMemClearAndResize_def)
  qed simp
next
  case False
  let ?m = "m\<lparr>mz := zMalloc m, flags := flags m AND (MEM_Null OR MEM_Int OR MEM_Real OR MEM_IntReal)\<rparr>"
  have q: "\<not> has ?m MEM_Dyn" "\<not> has ?m MEM_Agg" by (simp_all add: flag_ops)
  have sz: "szMalloc m > 0" using False assms(3) by simp
  then have "\<not> has m MEM_Dyn" using assms(2) by (simp add: wf_cell_def)
  then have st: "step m h ?m h {#}" using step_quiet [OF step_refl [OF assms(2)] _ q] by simp
  obtain b s where b: "zMalloc m = Block b" "blocks h b = Some s" "length s = szMalloc m" using wf_block [OF assms(2) sz] by blast
  then have "holds h ?m s" using sz by (simp add: holds_def)
  then show thesis using that(2) [OF _ st _ _ q] b(3) False by (simp add: sqlite3VdbeMemClearAndResize_def)
qed

text \<open>A copy of the text is made.\<close>

lemma SetStr_transient:
  assumes "env_ok e" "wf_cell h m" "text_given (limit_length e) (extern e x) n en k" "k \<le> limit_length e"
    "x \<notin> snd ` (set (deleted h) \<union> set_mset (pend m))"
  shows "outcome e B m h (sqlite3VdbeMemSetStr e m (Extern x) n en SQLITE_TRANSIENT h) (stored (limit_length e) k en (take k (extern e x))) {#}"
proof -
  let ?s = "extern e x"
  define sz where "sz = text_size n en k"
  have sz: "k \<le> sz" "sz \<le> length ?s" using text_size_given [OF assms(3)] by (simp_all add: sz_def)
  have at: "bytes_at e h (Extern x) = Some ?s" using assms(5) by (auto simp: bytes_at_def)
  have al: "k + (if text_flags n en AND MEM_Term \<noteq> 0 then if en = SQLITE_UTF8 then 1 else 2 else 0) = sz"
  proof -
    have "text_flags n en AND MEM_Term \<noteq> 0 \<longleftrightarrow> n < 0" by (cases "en = 0"; cases "n < 0") (simp_all add: text_flags_def flag_defs)
    then show ?thesis by (simp add: sz_def text_size_def terminator_def)
  qed
  show ?thesis
  proof (rule ClearAndResize_step [OF assms(1,2), of "max sz 32"], goal_cases)
    case (2 h')
    then have "sqlite3VdbeMemSetStr e m (Extern x) n en SQLITE_TRANSIENT h = Some (SQLITE_NOMEM, nomem m, h')"
      using assms(4) by (simp add: sqlite3VdbeMemSetStr_def str_length_given [OF assms(3) at] set_text_def Let_def al flip: text_flags_def)
    then show ?case using 2(2) good_nomem [OF 2(2)] sound_nomem by (rule outcome_ok) (simp add: stored_def)
  next
    case (3 p h1 buf)
    have "x \<notin> snd ` set (deleted h1)" using step_deleted [OF 3(2)] assms(5) by blast
    then have rd: "read_mem e h1 (Extern x) sz = Some (take sz ?s)" using sz(2) by (auto simp: read_mem_def bytes_at_def)
    obtain h2 where w: "write_mem (mz p) 0 (take sz ?s) h1 = Some h2" "step p h1 p h2 {#}" "holds h2 p (take sz ?s @ drop sz buf)"
      by (rule write_own [of h1 p buf "mz p" "take sz ?s" sz 0]) (use 3 sz(2) step_wf [OF 3(2)] in simp_all)
    define p' where "p' = p\<lparr>mn := k, flags := text_flags n en, enc := (if en = 0 then SQLITE_UTF8 else en)\<rparr>"
    have q: "\<not> has p' (MEM_Dyn OR MEM_Agg OR MEM_Ephem OR MEM_Static)" "en \<noteq> 0 \<longrightarrow> has p' MEM_Str" by (auto simp: p'_def text_flags_def flag_ops)
    have st: "step m h p' h2 {#}"
      by (rule step_quiet [OF step_trans0 [OF 3(2) w(2)] 3(5)]) (use q in \<open>simp_all add: has_or p'_def\<close>)
    have hd: "holds h2 p' (take sz ?s @ drop sz buf)" by (rule holds_cong [OF w(3)]) (simp_all add: p'_def)
    have snd: "sound B p'" using q hd by (auto simp: sound_def holds_def own_def has_or)
    have "places p' = 1" using q hd by (intro holds_places) (simp_all add: has_or)
    then have "good e h2 p' (raw_value en (take k ?s))"
      using hd sz(2) holds_read [OF hd, of sz e]
      by (intro text_cell [OF step_wf [OF st], where g = 0 and n = n and lim = "limit_length e"]) (simp_all add: p'_def assms(3) flip: sz_def)
    then have "outcome e B m h (do {
        (rc, p, h) \<leftarrow> (if enc p' \<noteq> SQLITE_UTF8 then sqlite3VdbeMemHandleBom e p' h2 else Some (SQLITE_OK, p', h2));
        Some (if rc \<noteq> SQLITE_OK then SQLITE_NOMEM else if k > limit_length e then SQLITE_TOOBIG else SQLITE_OK, p, h) })
      (stored (limit_length e) k en (take k ?s)) {#}"
      by (intro SetStr_tail [OF assms(1) st _ _ q(2) snd]) (simp_all add: p'_def)
    moreover have "sqlite3VdbeMemSetStr e m (Extern x) n en SQLITE_TRANSIENT h = do {
        (rc, p, h) \<leftarrow> (if enc p' \<noteq> SQLITE_UTF8 then sqlite3VdbeMemHandleBom e p' h2 else Some (SQLITE_OK, p', h2));
        Some (if rc \<noteq> SQLITE_OK then SQLITE_NOMEM else if k > limit_length e then SQLITE_TOOBIG else SQLITE_OK, p, h) }"
      using 3(1) rd w(1) assms(4)
      by (simp add: sqlite3VdbeMemSetStr_def str_length_given [OF assms(3) at] set_text_def Let_def al p'_def flip: text_flags_def)
    ultimately show ?case by simp
  qed simp
qed

text \<open>The text stays where it is; its owner keeps it alive or gives the cell a destructor.\<close>

lemma SetStr_extern:
  assumes "env_ok e" "wf_cell h m" "text_given (limit_length e) (extern e x) n en k" "x \<notin> snd ` (set (deleted h) \<union> set_mset (pend m))"
    "del = SQLITE_STATIC \<and> G = {#} \<and> x \<in> B \<or> (\<exists>d. del = Destructor d \<and> G = {#(d, x)#})"
  shows "outcome e B m h (sqlite3VdbeMemSetStr e m (Extern x) n en del h) (stored (limit_length e) k en (take k (extern e x))) G"
proof -
  let ?s = "extern e x"
  define g where "g = (if del = SQLITE_STATIC then MEM_Static else MEM_Dyn)"
  define xd where "xd = (case del of Destructor d \<Rightarrow> Some d | _ \<Rightarrow> None)"
  have at: "bytes_at e h (Extern x) = Some ?s" using assms(4) by (auto simp: bytes_at_def)
  obtain D where r: "sqlite3VdbeMemRelease m h = Some (released m, h\<lparr>blocks := others h m, deleted := D\<rparr>)"
    "step m h (released m) (h\<lparr>blocks := others h m, deleted := D\<rparr>) {#}" by (rule Release_step [OF assms(2)])
  define h1 where "h1 = h\<lparr>blocks := others h m, deleted := D\<rparr>"
  have "x \<notin> snd ` set (deleted h1)" using step_deleted [OF r(2)] assms(4) unfolding h1_def by blast
  then have rd: "read_mem e h1 (Extern x) j = Some (take j ?s)" if "j \<le> length ?s" for j using that by (auto simp: read_mem_def bytes_at_def)
  define p where "p = (released m)\<lparr>mz := Extern x, xDel := xd, mn := k, flags := text_flags n en OR g, enc := (if en = 0 then SQLITE_UTF8 else en)\<rparr>"
  have f: "has p MEM_Dyn = (del \<noteq> SQLITE_STATIC)" "has p MEM_Static = (del = SQLITE_STATIC)" "\<not> has p MEM_Agg" "\<not> has p MEM_Ephem" "en \<noteq> 0 \<longrightarrow> has p MEM_Str"
    by (auto simp: p_def text_flags_def g_def flag_ops)
  have p: "szMalloc p = 0" "mz p = Extern x" "xDel p = xd" by (simp_all add: p_def)
  have w: "wf_cell h1 p" using step_wf [OF r(2)] f p assms(5) by (auto simp: wf_cell_def h1_def xd_def)
  have "pend p = G" using f p assms(5) by (auto simp: pend_def xd_def)
  moreover have "others h1 p = others h m" by (simp add: others_none p h1_def)
  ultimately have st: "step m h p h1 G" using r(2) w released_quiet [of m] by (simp add: step_def pend_none h1_def)
  have snd: "sound B p" using f p assms(5) by (auto simp: sound_def)
  have "places p = 1" using f p by (simp add: places_def)
  then have "good e h1 p (raw_value en (take k ?s))"
    using rd [of "text_size n en k"] text_size_given [OF assms(3)]
    by (intro text_cell [OF w, where g = g and n = n and lim = "limit_length e"]) (simp_all add: p_def assms(3) g_def)
  then have "outcome e B m h (do {
      (rc, p, h) \<leftarrow> (if enc p \<noteq> SQLITE_UTF8 then sqlite3VdbeMemHandleBom e p h1 else Some (SQLITE_OK, p, h1));
      Some (if rc \<noteq> SQLITE_OK then SQLITE_NOMEM else if k > limit_length e then SQLITE_TOOBIG else SQLITE_OK, p, h) })
    (stored (limit_length e) k en (take k ?s)) G"
    by (intro SetStr_tail [OF assms(1) st _ _ f(5) snd]) (simp_all add: p_def)
  moreover have "sqlite3VdbeMemSetStr e m (Extern x) n en del h = do {
      (rc, p, h) \<leftarrow> (if enc p \<noteq> SQLITE_UTF8 then sqlite3VdbeMemHandleBom e p h1 else Some (SQLITE_OK, p, h1));
      Some (if rc \<noteq> SQLITE_OK then SQLITE_NOMEM else if k > limit_length e then SQLITE_TOOBIG else SQLITE_OK, p, h) }"
    using assms(5) r(1)
    by (auto simp: sqlite3VdbeMemSetStr_def str_length_given [OF assms(3) at] set_text_def Let_def p_def xd_def g_def h1_def simp flip: text_flags_def)
  ultimately show ?thesis by simp
qed

text \<open>The cell takes over a block that the caller allocated for a text \<open>s\<close>; the block may be longer.\<close>

lemma strlen_mem_append: "strlen_mem s = Some k \<Longrightarrow> strlen_mem (s @ t) = Some k"
  by (induction s arbitrary: k) (auto split: if_splits)

lemma strlen16_mem_limit: "\<not> i \<le> lim \<Longrightarrow> strlen16_mem lim s i = Some i"
  by (cases "(lim, s, i)" rule: strlen16_mem.cases) auto

lemma strlen16_mem_append: "strlen16_mem lim s i = Some k \<Longrightarrow> k < i + length s \<Longrightarrow> strlen16_mem lim (s @ t) i = Some k"
  by (induction lim s i rule: strlen16_mem.induct) (auto simp: strlen16_mem_limit split: if_splits)

lemma text_given_append:
  assumes "text_given lim s n en k"
  shows "text_given lim (s @ t) n en k"
proof -
  have "length (terminator en) > 0" by (simp add: terminator_def)
  then have "n < 0 \<Longrightarrow> k < length s" using assms unfolding text_given_def by linarith
  then have "text_length lim (s @ t) n en = Some k"
    using assms strlen16_mem_append [of lim s 0 k t] by (auto simp: text_given_def text_length_def strlen_mem_append)
  then show ?thesis using assms by (auto simp: text_given_def)
qed

definition set_allocated :: "mem_env \<Rightarrow> mem \<Rightarrow> bytes \<Rightarrow> int \<Rightarrow> nat \<Rightarrow> mheap \<Rightarrow> (int \<times> mem \<times> mheap) option" where
  "set_allocated e p s n en h =
    (let (z, h) = malloc_raw e (length s) h in
     if z = Null then sqlite3VdbeMemSetStr e p Null n en SQLITE_DYNAMIC h
     else do {
       h \<leftarrow> write_mem z 0 s h;
       sqlite3VdbeMemSetStr e p z n en SQLITE_DYNAMIC h })"

lemma set_allocated_outcome:
  assumes "env_ok e" "wf_cell h m" "text_given (limit_length e) s n en k"
  shows "outcome e B m h (set_allocated e m s n en h) (\<lambda>rc v. stored (limit_length e) k en (take k s) rc v \<or> rc = SQLITE_OK \<and> v = V_null) {#}"
proof -
  have hok: "heap_ok h" using assms(2) by (simp add: wf_cell_def)
  show ?thesis
  proof (rule new_block_cases [OF assms(1) hok, of "length s" "[]"], goal_cases)
    case 1
    let ?h = "h\<lparr>mallocs := Suc (mallocs h)\<rparr>"
    have w: "wf_cell ?h m" using assms(2) by (simp add: wf_cell_def heap_ok_def malloc_size_def cong: mem_ptr.case_cong)
    then have st: "step m h m ?h {#}" by (simp add: step_def others_def)
    obtain m' h' where n: "sqlite3VdbeMemSetNull m ?h = Some (m', h')" "step m ?h m' h' {#}" "good e h' m' V_null" "flags m' = MEM_Null"
      by (rule SetNull_good [OF w])
    have "set_allocated e m s n en h = Some (SQLITE_OK, m', h')" using 1 n(1) by (simp add: set_allocated_def malloc_raw_def sqlite3VdbeMemSetStr_def)
    then show ?case using step_trans0 [OF st n(2)] n(3) sound_null [OF n(4)] by (rule outcome_ok) simp
  next
    case (2 b buf)
    let ?h1 = "h\<lparr>mallocs := Suc (mallocs h), next_block := Suc b, blocks := (blocks h)(b \<mapsto> buf)\<rparr>"
    define buf' where "buf' = s @ drop (length s) buf"
    let ?h2 = "h\<lparr>mallocs := Suc (mallocs h), next_block := Suc b, blocks := (blocks h)(b \<mapsto> buf')\<rparr>"
    have wr: "write_mem (Block b) 0 s ?h1 = Some ?h2" using 2(4) wr_nat [of 0 s buf] by (simp add: write_mem_def buf'_def)
    have len: "0 < length buf'" using 2(5) by (simp add: buf'_def)
    have tg: "text_given (limit_length e) buf' n en k" unfolding buf'_def by (rule text_given_append [OF assms(3)])
    have at: "bytes_at e ?h2 (Block b) = Some buf'" by (simp add: bytes_at_def)
    obtain D where D: "sqlite3VdbeMemRelease m ?h2 = Some (released m, ?h2\<lparr>blocks := (others h m)(b \<mapsto> buf'), deleted := D\<rparr>)"
      "\<And>m' h'. h' = ?h2\<lparr>blocks := (others h m)(b \<mapsto> buf'), deleted := D\<rparr> \<Longrightarrow> zMalloc m' = Block b \<Longrightarrow> mz m' = Block b \<Longrightarrow> szMalloc m' = length buf' \<Longrightarrow>
        \<not> has m' (MEM_Dyn OR MEM_Agg OR MEM_Ephem OR MEM_Static) \<Longrightarrow> mn m' \<le> length buf' \<Longrightarrow> step m h m' h' {#} \<and> in_buffer h' m' buf'"
      by (rule take_over [OF assms(2), of ?h2 b buf']) (use 2(2) len in auto)
    let ?h3 = "?h2\<lparr>blocks := (others h m)(b \<mapsto> buf'), deleted := D\<rparr>"
    define p where "p = (released m)\<lparr>mz := Block b, zMalloc := Block b, szMalloc := length buf', mn := k, flags := text_flags n en,
        enc := (if en = 0 then SQLITE_UTF8 else en)\<rparr>"
    have q: "\<not> has p (MEM_Dyn OR MEM_Agg OR MEM_Ephem OR MEM_Static)" "en \<noteq> 0 \<longrightarrow> has p MEM_Str" by (auto simp: p_def text_flags_def flag_ops)
    have sz: "text_size n en k \<le> length buf'" "k \<le> length buf'" using text_size_given [OF tg] by auto
    have st: "step m h p ?h3 {#}" "in_buffer ?h3 p buf'" using D(2) [OF refl, of p] q(1) sz by (simp_all add: p_def)
    have "places p = 1" using st(2) by (intro holds_places [of ?h3 p buf']) (simp_all add: in_buffer_def)
    then have "good e ?h3 p (raw_value en (take k buf'))"
      using holds_read [of ?h3 p buf' "text_size n en k" e] st(2) sz
      by (intro text_cell [OF step_wf [OF st(1)], where g = 0 and n = n and lim = "limit_length e"]) (simp_all add: p_def tg in_buffer_def)
    moreover have "take k buf' = take k s" using assms(3) by (simp add: buf'_def text_given_def)
    ultimately have g: "good e ?h3 p (raw_value en (take k s))" by simp
    have "set_allocated e m s n en h = do {
        (rc, p, h) \<leftarrow> (if enc p \<noteq> SQLITE_UTF8 then sqlite3VdbeMemHandleBom e p ?h3 else Some (SQLITE_OK, p, ?h3));
        Some (if rc \<noteq> SQLITE_OK then SQLITE_NOMEM else if k > limit_length e then SQLITE_TOOBIG else SQLITE_OK, p, h) }"
      using 2(1) wr D(1)
      by (simp add: set_allocated_def malloc_raw_def sqlite3VdbeMemSetStr_def str_length_given [OF tg at] set_text_def Let_def malloc_size_def p_def flip: text_flags_def)
    then have "outcome e B m h (set_allocated e m s n en h) (stored (limit_length e) k en (take k s)) {#}"
      using SetStr_tail [OF assms(1) st(1) g _ q(2) sound_buffer [OF st(2)], where k = k and lim = "limit_length e"] by (simp add: p_def)
    then show ?case unfolding outcome_def by blast
  qed
qed

end
