(* ===== verification/Sqlite_Mem_Spec.thy ===== *)
theory Sqlite_Mem_Spec
  imports Sqlite_Mem_Text
begin

text \<open>
  Copies of cells, and programs of operations on several cells: none of them faults or leaks, every destructor is called
  once, and the cells have the values that the operations prescribe.
\<close>

section \<open>Copies\<close>

text \<open>A cell with the value fields of another one.\<close>

lemma copy_good:
  assumes "good e h m v" "wf_cell h' m'" "mu m' = mu m" "enc m' = enc m" "mn m' = mn m" "mz m' = mz m"
    "\<And>f. f \<in> {MEM_Null, MEM_Str, MEM_Int, MEM_Real, MEM_Blob, MEM_IntReal, MEM_Cleared, MEM_Zero, MEM_Term} \<Longrightarrow> has m' f = has m f"
    "has m MEM_Null \<Longrightarrow> flags m' \<in> {MEM_Null, MEM_Null OR MEM_Subtype OR MEM_Term, MEM_Null OR MEM_Dyn OR MEM_Subtype OR MEM_Term}"
    "has m (MEM_Str OR MEM_Blob) \<Longrightarrow> places m' = 1 \<or> places m' = 0 \<and> mn m = 0"
    "has m (MEM_Str OR MEM_Blob) \<Longrightarrow> bytes_at e h' (mz m) = bytes_at e h (mz m)"
  shows "good e h' m' v"
proof -
  have rd: "read_mem e h' (mz m) n = read_mem e h (mz m) n" if "has m (MEM_Str OR MEM_Blob)" for n
    using assms(10) [OF that] by (simp add: read_mem_def)
  have k: "has m' MEM_Null = has m MEM_Null" "has m' MEM_Str = has m MEM_Str" "has m' MEM_Int = has m MEM_Int" "has m' MEM_Real = has m MEM_Real"
    "has m' MEM_Blob = has m MEM_Blob" "has m' MEM_IntReal = has m MEM_IntReal" "has m' MEM_Cleared = has m MEM_Cleared" "has m' MEM_Zero = has m MEM_Zero"
    "has m' MEM_Term = has m MEM_Term" by (rule assms(7), simp)+
  have t: "typed m" using assms(1) by (simp add: good_def)
  have pl: "has m (MEM_Str OR MEM_Blob) \<longrightarrow> places m' \<in> (if mn m > 0 then {1} else {0, 1})" using assms(9) by auto
  have "typed m'" using t pl assms(8) by (simp add: typed_def k has_or assms(3,5))
  moreover have "cell_value e h' m' = cell_value e h m" using assms(3-6) rd by (simp add: cell_value_def has_or zeros_def k)
  moreover have "term_ok e h' m'" using assms(1,4-6) rd by (simp add: good_def term_ok_def has_or k)
  ultimately show ?thesis using assms(1,2) by (simp add: good_def)
qed

text \<open>The target keeps its allocation and gets the value fields; it says that the content is somebody else's.\<close>

lemma copy_step:
  assumes "wf_cell h pTo" "good e h pFrom v" "sound B pFrom" "own pTo \<inter> own pFrom = {}"
    "\<And>x. has pFrom (MEM_Str OR MEM_Blob) \<Longrightarrow> mz pFrom = Extern x \<Longrightarrow> x \<notin> snd ` set_mset (pend pTo)"
    and D: "mset D = mset (deleted h) + pend pTo"
    and m: "mu m = mu pFrom" "enc m = enc pFrom" "mn m = mn pFrom" "mz m = mz pFrom" "szMalloc m = szMalloc pTo" "zMalloc m = zMalloc pTo"
    and f: "\<And>f. f \<in> {MEM_Null, MEM_Str, MEM_Int, MEM_Real, MEM_Blob, MEM_IntReal, MEM_Cleared, MEM_Zero, MEM_Term, MEM_Agg} \<Longrightarrow> has m f = has pFrom f"
    and dyn: "\<not> has m MEM_Dyn"
    and null: "has pFrom MEM_Null \<Longrightarrow> flags m \<in> {MEM_Null, MEM_Null OR MEM_Subtype OR MEM_Term, MEM_Null OR MEM_Dyn OR MEM_Subtype OR MEM_Term}"
    and place: "has pFrom (MEM_Str OR MEM_Blob) \<Longrightarrow> has m MEM_Static \<noteq> has m MEM_Ephem"
  shows "step pTo h m (h\<lparr>deleted := D\<rparr>) {#}" "good e (h\<lparr>deleted := D\<rparr>) m v"
proof -
  let ?h = "h\<lparr>deleted := D\<rparr>"
  have at: "bytes_at e ?h (mz pFrom) = bytes_at e h (mz pFrom)" if "has pFrom (MEM_Str OR MEM_Blob)"
  proof -
    have "set D = set (deleted h) \<union> set_mset (pend pTo)" using arg_cong [OF D, of set_mset] by simp
    then show ?thesis using assms(5) [OF that] by (auto simp: bytes_at_def image_Un split: mem_ptr.split)
  qed
  have own: "\<not> (szMalloc pTo > 0 \<and> mz pFrom = zMalloc pTo)" if "has pFrom (MEM_Str OR MEM_Blob)"
  proof
    assume a: "szMalloc pTo > 0 \<and> mz pFrom = zMalloc pTo"
    then obtain b where b: "zMalloc pTo = Block b" "own pTo = {b}" using wf_block [OF assms(1)] by blast
    then have "b \<in> own pFrom" using a assms(3) that by (simp add: sound_def)
    then show False using b assms(4) by blast
  qed
  have "\<not> has m MEM_Agg" using wf_due(2) [OF good_wf [OF assms(2)]] f by simp
  then show st: "step pTo h m ?h {#}"
    using wf_quiet [OF assms(1) dyn _ m(5,6), of ?h] D dyn by (simp add: step_def pend_none)
  have "places m = 1" if "has pFrom (MEM_Str OR MEM_Blob)" using own [OF that] place [OF that] dyn m by (auto simp: places_def)
  then show "good e ?h m v"
    by (intro copy_good [OF assms(2) step_wf [OF st] m(1-4)]) (use f null at in auto)
qed

lemma static_place:
  assumes "good e h m v" "has m (MEM_Str OR MEM_Blob)"
  shows "has m MEM_Static \<Longrightarrow> \<not> has m MEM_Dyn \<and> \<not> has m MEM_Ephem \<and> \<not> (szMalloc m > 0 \<and> mz m = zMalloc m)"
proof -
  have "places m \<le> 1" using assms by (auto simp: good_def typed_def split: if_splits)
  then show "has m MEM_Static \<Longrightarrow> \<not> has m MEM_Dyn \<and> \<not> has m MEM_Ephem \<and> \<not> (szMalloc m > 0 \<and> mz m = zMalloc m)"
    by (auto simp: places_def split: if_splits)
qed

lemma Copy_outcome:
  assumes "env_ok e" "wf_cell h pTo" "good e h pFrom v" "sound B pFrom" "own pTo \<inter> own pFrom = {}"
    "\<And>x. has pFrom (MEM_Str OR MEM_Blob) \<Longrightarrow> mz pFrom = Extern x \<Longrightarrow> x \<notin> snd ` set_mset (pend pTo)"
  shows "outcome e B pTo h (sqlite3VdbeMemCopy e pTo pFrom h) (set_to v) {#}"
proof -
  obtain D where D: "(if VdbeMemDynamic pTo then vdbeMemClearExternAndSetNull pTo h else Some (pTo, h)) = Some (cleared pTo, h\<lparr>deleted := D\<rparr>)"
    "mset D = mset (deleted h) + pend pTo" by (rule clear_due [OF assms(2)])
  define m1 where "m1 = (copy_cell (cleared pTo) pFrom)\<lparr>flags := flags pFrom AND NOT MEM_Dyn\<rparr>"
  define m2 where "m2 = m1\<lparr>flags := flags m1 OR MEM_Ephem\<rparr>"
  have f: "has m1 f = has pFrom f" "has m2 f = has pFrom f"
    if "f \<in> {MEM_Null, MEM_Str, MEM_Int, MEM_Real, MEM_Blob, MEM_IntReal, MEM_Cleared, MEM_Zero, MEM_Term, MEM_Agg, MEM_Static}" for f
    using that by (auto simp: m1_def m2_def flag_ops)
  have fl: "\<not> has m1 MEM_Dyn" "\<not> has m2 MEM_Dyn" "has m1 MEM_Ephem = has pFrom MEM_Ephem" "has m2 MEM_Ephem" by (simp_all add: m1_def m2_def flag_ops)
  have fields: "mu m1 = mu pFrom" "enc m1 = enc pFrom" "mn m1 = mn pFrom" "mz m1 = mz pFrom" "szMalloc m1 = szMalloc pTo" "zMalloc m1 = zMalloc pTo"
    "mu m2 = mu pFrom" "enc m2 = enc pFrom" "mn m2 = mn pFrom" "mz m2 = mz pFrom" "szMalloc m2 = szMalloc pTo" "zMalloc m2 = zMalloc pTo"
    by (simp_all add: m1_def m2_def copy_cell_def)
  note copied = copy_step [OF assms(2-6) D(2)]
  show ?thesis
  proof (cases "has pFrom (MEM_Str OR MEM_Blob) \<and> \<not> has pFrom MEM_Static")
    case True
    have nn: "\<not> has pFrom MEM_Null" using content [OF assms(3)] True by blast
    have s2: "step pTo h m2 (h\<lparr>deleted := D\<rparr>) {#}" "good e (h\<lparr>deleted := D\<rparr>) m2 v"
      by (rule copied; use True nn f(2) fl fields in auto)+
    moreover have "sqlite3VdbeMemCopy e pTo pFrom h = sqlite3VdbeMemMakeWriteable e m2 (h\<lparr>deleted := D\<rparr>)"
      using True f(1) D(1) by (simp add: sqlite3VdbeMemCopy_def Let_def m1_def m2_def copy_cell_def has_or)
    ultimately show ?thesis using outcome_step [OF s2(1) MakeWriteable_outcome [OF assms(1) s2(2)]] by simp
  next
    case False
    have nl: "flags m1 \<in> {MEM_Null, MEM_Null OR MEM_Subtype OR MEM_Term, MEM_Null OR MEM_Dyn OR MEM_Subtype OR MEM_Term}" if "has pFrom MEM_Null"
    proof -
      have "flags pFrom \<in> {MEM_Null, MEM_Null OR MEM_Subtype OR MEM_Term, MEM_Null OR MEM_Dyn OR MEM_Subtype OR MEM_Term}"
        using assms(3) that by (simp add: good_def typed_def)
      then have "flags m1 = MEM_Null \<or> flags m1 = MEM_Null OR MEM_Subtype OR MEM_Term" by (auto simp: m1_def flag_defs)
      then show ?thesis by auto
    qed
    have st: "\<not> has pFrom MEM_Dyn \<and> \<not> has pFrom MEM_Ephem \<and> \<not> (szMalloc pFrom > 0 \<and> mz pFrom = zMalloc pFrom) \<and> has pFrom MEM_Static"
      if "has pFrom (MEM_Str OR MEM_Blob)"
      using static_place [OF assms(3) that] False that by simp
    have s1: "step pTo h m1 (h\<lparr>deleted := D\<rparr>) {#}" "good e (h\<lparr>deleted := D\<rparr>) m1 v"
      by (rule copied [OF _ _ fields(1-6) _ fl(1) nl]; use st f(1) fl(3) in auto)+
    have "sound B m1"
    proof (cases "has pFrom (MEM_Str OR MEM_Blob)")
      case True
      show ?thesis using assms(4) True st [OF True] fl(3) fields(4) by (auto simp: sound_def own_def split: mem_ptr.splits if_splits)
    next
      case no_text: False
      then show ?thesis using f(1) by (intro sound_other) (simp add: has_or)
    qed
    moreover have "sqlite3VdbeMemCopy e pTo pFrom h = Some (SQLITE_OK, m1, h\<lparr>deleted := D\<rparr>)"
      using False f(1) D(1) by (auto simp: sqlite3VdbeMemCopy_def Let_def m1_def copy_cell_def has_or)
    ultimately show ?thesis using s1 by (intro outcome_set)
  qed
qed

text \<open>A shallow copy has the value as well; its content stays with the source.\<close>

lemma ShallowCopy_good:
  assumes "wf_cell h pTo" "good e h pFrom v" "sound B pFrom" "own pTo \<inter> own pFrom = {}"
    "\<And>x. has pFrom (MEM_Str OR MEM_Blob) \<Longrightarrow> mz pFrom = Extern x \<Longrightarrow> x \<notin> snd ` set_mset (pend pTo)"
    "has pFrom (MEM_Str OR MEM_Blob)" "srcType \<in> {MEM_Ephem, MEM_Static}"
  shows "\<exists>m h'. sqlite3VdbeMemShallowCopy pTo pFrom srcType h = Some (m, h') \<and> step pTo h m h' {#} \<and> good e h' m v \<and> mz m = mz pFrom"
proof -
  obtain D where D: "(if VdbeMemDynamic pTo then vdbeMemClearExternAndSetNull pTo h else Some (pTo, h)) = Some (cleared pTo, h\<lparr>deleted := D\<rparr>)"
    "mset D = mset (deleted h) + pend pTo" by (rule clear_due [OF assms(1)])
  define m where "m = shallow_copy (cleared pTo) pFrom srcType"
  have nn: "\<not> has pFrom MEM_Null" using content [OF assms(2,6)] by blast
  have st: "has pFrom MEM_Static \<Longrightarrow> \<not> has pFrom MEM_Dyn \<and> \<not> has pFrom MEM_Ephem" using static_place [OF assms(2,6)] by blast
  have fields: "mu m = mu pFrom" "enc m = enc pFrom" "mn m = mn pFrom" "mz m = mz pFrom" "szMalloc m = szMalloc pTo" "zMalloc m = zMalloc pTo"
    by (simp_all add: m_def shallow_copy_def copy_cell_def Let_def)
  have f: "has m f = has pFrom f"
    if "f \<in> {MEM_Null, MEM_Str, MEM_Int, MEM_Real, MEM_Blob, MEM_IntReal, MEM_Cleared, MEM_Zero, MEM_Term, MEM_Agg}" for f
    using that assms(7) by (auto simp: m_def shallow_copy_def copy_cell_def Let_def flag_ops)
  have fl: "\<not> has m MEM_Dyn" "has m MEM_Static \<noteq> has m MEM_Ephem"
    using st assms(7) by (auto simp: m_def shallow_copy_def copy_cell_def Let_def flag_ops)
  have "step pTo h m (h\<lparr>deleted := D\<rparr>) {#}" "good e (h\<lparr>deleted := D\<rparr>) m v"
    by (rule copy_step [OF assms(1-5) D(2)]; use nn f fl fields in auto)+
  moreover have "sqlite3VdbeMemShallowCopy pTo pFrom srcType h = Some (m, h\<lparr>deleted := D\<rparr>)"
    using D(1) by (auto simp: sqlite3VdbeMemShallowCopy_def m_def split: if_splits)
  ultimately show ?thesis using fields(4) by blast
qed

section \<open>Several cells\<close>

text \<open>The destructors handed over have to be called once each: their arguments differ, and are not used otherwise.\<close>

definition once :: "(nat \<times> nat) multiset \<Rightarrow> nat set \<Rightarrow> bool" where
  "once H B \<longleftrightarrow> (\<forall>x. count (image_mset snd H) x \<le> 1) \<and> B \<inter> snd ` set_mset H = {}"

lemma once_apart: "once (A + P) B \<Longrightarrow> x \<in> snd ` set_mset P \<Longrightarrow> x \<notin> snd ` set_mset A"
proof
  assume a: "once (A + P) B" "x \<in> snd ` set_mset P" "x \<in> snd ` set_mset A"
  then have "0 < count (image_mset snd P) x" "0 < count (image_mset snd A) x" by auto
  moreover have "count (image_mset snd A) x + count (image_mset snd P) x \<le> 1" using a(1) by (auto simp: once_def)
  ultimately show False by linarith
qed

lemma once_left: "once (A + P) B \<Longrightarrow> once A B"
  unfolding once_def by (auto simp: image_Un Int_Un_distrib) (metis add_leD1)

lemma once_borrowed: "once H B \<Longrightarrow> x \<in> B \<Longrightarrow> x \<notin> snd ` set_mset H"
  by (auto simp: once_def)

definition due :: "mem list \<Rightarrow> (nat \<times> nat) multiset" where
  "due cs = sum_list (map pend cs)"

lemma due_update: "i < length cs \<Longrightarrow> due (cs[i := m]) + pend (cs ! i) = due cs + pend m"
  by (induction cs arbitrary: i) (auto simp: due_def ac_simps split: nat.split)

lemma due_member: "j < length cs \<Longrightarrow> pend (cs ! j) \<subseteq># due cs"
proof (induction cs arbitrary: j)
  case (Cons m cs)
  then show ?case
    by (cases j) (auto simp: due_def intro: subset_mset.order_trans [OF _ mset_subset_eq_add_right])
qed simp

definition cells :: "mem_env \<Rightarrow> nat set \<Rightarrow> (nat \<times> nat) multiset \<Rightarrow> mem list \<Rightarrow> sql_value list \<Rightarrow> mheap \<Rightarrow> bool" where
  "cells e B H cs vs h \<longleftrightarrow> length vs = length cs \<and> heap_ok h \<and> (\<forall>i < length cs. good e h (cs ! i) (vs ! i) \<and> sound B (cs ! i)) \<and>
     (\<forall>i < length cs. \<forall>j < length cs. i \<noteq> j \<longrightarrow> own (cs ! i) \<inter> own (cs ! j) = {}) \<and>
     dom (blocks h) = (\<Union>i < length cs. own (cs ! i)) \<and> mset (deleted h) + due cs = H"

lemma cellsD:
  assumes "cells e B H cs vs h"
  shows "length vs = length cs" "heap_ok h" "i < length cs \<Longrightarrow> good e h (cs ! i) (vs ! i)" "i < length cs \<Longrightarrow> wf_cell h (cs ! i)"
    "i < length cs \<Longrightarrow> sound B (cs ! i)" "i < length cs \<Longrightarrow> j < length cs \<Longrightarrow> i \<noteq> j \<Longrightarrow> own (cs ! i) \<inter> own (cs ! j) = {}"
    "dom (blocks h) = (\<Union>i < length cs. own (cs ! i))" "mset (deleted h) + due cs = H"
  using assms by (simp_all add: cells_def good_wf [of e h "cs ! i" "vs ! i"])

lemma cells_alive:
  assumes "cells e B H cs vs h" "once H B" "j < length cs" "has (cs ! j) (MEM_Str OR MEM_Blob)" "mz (cs ! j) = Extern x"
  shows "x \<notin> snd ` set (deleted h)"
proof (cases "has (cs ! j) MEM_Dyn")
  case True
  obtain d where "pend (cs ! j) = {#(d, x)#}" using cellsD(4) [OF assms(1,3)] True assms(5) by (auto simp: pend_def wf_cell_def)
  then have "(d, x) \<in># due cs" using due_member [OF assms(3)] by simp
  then have "x \<in> snd ` set_mset (due cs)" by force
  moreover have "once (mset (deleted h) + due cs) B" using assms(2) cellsD(8) [OF assms(1)] by simp
  ultimately show ?thesis using once_apart by fastforce
next
  case False
  then have "x \<in> B" using cellsD(5) [OF assms(1,3)] assms(4,5) by (simp add: sound_def)
  then have "x \<notin> snd ` set_mset H" by (rule once_borrowed [OF assms(2)])
  then show ?thesis unfolding cellsD(8) [OF assms(1), symmetric] by auto
qed

text \<open>An operation on one cell leaves the others alone.\<close>

lemma cells_update:
  assumes "cells e B H cs vs h" "once (H + G) B" "i < length cs" "step (cs ! i) h m' h' G" "good e h' m' v" "sound B m'"
  shows "cells e B (H + G) (cs[i := m']) (vs[i := v]) h'"
proof -
  note c = cellsD [OF assms(1)]
  let ?cs = "cs[i := m']"
  have hok: "heap_ok h'" using step_wf [OF assms(4)] by (simp add: wf_cell_def)
  have oth: "others h' m' = others h (cs ! i)" and acc: "mset (deleted h') + pend m' = mset (deleted h) + pend (cs ! i) + G"
    using assms(4) by (auto simp: step_def)
  have keep: "blocks h' b = blocks h b \<and> b \<notin> own m'" if "j < length cs" "j \<noteq> i" "b \<in> own (cs ! j)" for j b
  proof -
    have "b \<notin> own (cs ! i)" using c(6) [OF that(1) assms(3) that(2)] that(3) by blast
    moreover have "b \<in> dom (blocks h)" using c(7) that(1,3) by blast
    ultimately obtain s where "others h (cs ! i) b = Some s" "blocks h b = Some s" by (auto simp: others_def)
    then have "others h' m' b = Some s" "blocks h b = Some s" using oth by simp_all
    then show ?thesis by (auto simp: others_def restrict_map_def split: if_splits)
  qed
  have total: "mset (deleted h') + due ?cs = H + G"
  proof -
    have "mset (deleted h') + due ?cs + pend (cs ! i) = mset (deleted h') + pend m' + due cs"
      using due_update [OF assms(3), of m'] by (simp add: ac_simps)
    also have "\<dots> = H + G + pend (cs ! i)" unfolding acc c(8) [symmetric] by (simp add: ac_simps)
    finally show ?thesis by simp
  qed
  have gone: "x \<notin> snd ` set (deleted h')" if j: "j < length cs" "j \<noteq> i" "has (cs ! j) (MEM_Str OR MEM_Blob)" "mz (cs ! j) = Extern x" for j x
  proof (cases "has (cs ! j) MEM_Dyn")
    case True
    then obtain d where "pend (cs ! j) = {#(d, x)#}" using c(4) [OF j(1)] j(4) by (auto simp: pend_def wf_cell_def)
    then have "(d, x) \<in># due ?cs" using due_member [of j ?cs] j(1,2) by simp
    then have "x \<in> snd ` set_mset (due ?cs)" by force
    moreover have "once (mset (deleted h') + due ?cs) B" using assms(2) total by simp
    ultimately show ?thesis using once_apart by fastforce
  next
    case False
    then have "x \<in> B" using c(5) [OF j(1)] j(3,4) by (simp add: sound_def)
    then have "x \<notin> snd ` set_mset (H + G)" by (rule once_borrowed [OF assms(2)])
    then show ?thesis unfolding total [symmetric] by auto
  qed
  have good: "good e h' (cs ! j) (vs ! j)" if "j < length cs" "j \<noteq> i" for j
  proof (rule good_frame)
    show "good e h (cs ! j) (vs ! j)" "heap_ok h'" using c(3) that hok by auto
    show "blocks h' b = blocks h b" if "b \<in> own (cs ! j)" for b using keep that \<open>j < length cs\<close> \<open>j \<noteq> i\<close> by blast
    assume t: "has (cs ! j) (MEM_Str OR MEM_Blob)"
    have "sound B (cs ! j)" using c(5) that by blast
    then show "bytes_at e h' (mz (cs ! j)) = bytes_at e h (mz (cs ! j))"
      using t keep [OF that] gone [OF that t] cells_alive [OF assms(1) once_left [OF assms(2)] that(1) t]
      by (auto simp: bytes_at_def sound_def split: mem_ptr.splits)
  qed
  have "own m' \<subseteq> dom (blocks h')"
    using step_wf [OF assms(4)] by (auto simp: own_def wf_cell_def malloc_size_def split: if_splits mem_ptr.splits)
  then have "dom (blocks h') = own m' \<union> dom (others h' m')" by (auto simp: others_def)
  also have "\<dots> = own m' \<union> (dom (blocks h) - own (cs ! i))" unfolding oth by (auto simp: others_def)
  also have "\<dots> = (\<Union>j < length ?cs. own (?cs ! j))"
    using c(6,7) assms(3) by (fastforce simp: nth_list_update split: if_splits)
  finally have dm: "dom (blocks h') = (\<Union>j < length ?cs. own (?cs ! j))" .
  have dj: "own (?cs ! j) \<inter> own (?cs ! k) = {}" if "j < length ?cs" "k < length ?cs" "j \<noteq> k" for j k
    using c(6) [of j k] keep [of j] keep [of k] that by (cases "j = i"; cases "k = i") auto
  show ?thesis
    unfolding cells_def using c(1,5) hok total dm dj good assms(3,5,6) by (simp add: nth_list_update)
qed

section \<open>Programs\<close>

text \<open>The operations on cells; the numbers of cells come first. A text is given as external memory, with its length, its
  encoding and its destructor, or as bytes for which the caller allocates a block.\<close>

datatype cell_op =
    Set_null nat
  | Set_int nat "64 word"
  | Set_real nat "64 word"
  | Set_zeroblob nat int
  | Set_pointer nat nat "string option" "nat option"
  | Set_str nat nat int nat xdel
  | Set_alloc nat bytes int nat
  | Copy nat nat
  | Move nat nat
  | Make_writeable nat
  | Nul_terminate nat
  | Expand_blob nat
  | Change_encoding nat nat

definition update_cell :: "mem list \<Rightarrow> nat \<Rightarrow> (int \<times> mem \<times> mheap) option \<Rightarrow> (int \<times> mem list \<times> mheap) option" where
  "update_cell cs i r = map_option (\<lambda>(rc, m, h). (rc, cs[i := m], h)) r"

definition void :: "(mem \<times> mheap) option \<Rightarrow> (int \<times> mem \<times> mheap) option" where
  "void r = map_option (\<lambda>(m, h). (SQLITE_OK, m, h)) r"

fun run_op :: "mem_env \<Rightarrow> cell_op \<Rightarrow> mem list \<Rightarrow> mheap \<Rightarrow> (int \<times> mem list \<times> mheap) option" where
  "run_op e (Set_null i) cs h = update_cell cs i (void (sqlite3VdbeMemSetNull (cs ! i) h))"
| "run_op e (Set_int i v) cs h = update_cell cs i (void (sqlite3VdbeMemSetInt64 (cs ! i) v h))"
| "run_op e (Set_real i v) cs h = update_cell cs i (void (sqlite3VdbeMemSetDouble (cs ! i) v h))"
| "run_op e (Set_zeroblob i n) cs h = update_cell cs i (void (sqlite3VdbeMemSetZeroBlob (cs ! i) n h))"
| "run_op e (Set_pointer i x t d) cs h = update_cell cs i (void (sqlite3_result_pointer (cs ! i) x t d h))"
| "run_op e (Set_str i x n en del) cs h = update_cell cs i (sqlite3VdbeMemSetStr e (cs ! i) (Extern x) n en del h)"
| "run_op e (Set_alloc i s n en) cs h = update_cell cs i (set_allocated e (cs ! i) s n en h)"
| "run_op e (Copy i j) cs h = update_cell cs i (sqlite3VdbeMemCopy e (cs ! i) (cs ! j) h)"
| "run_op e (Move i j) cs h =
    map_option (\<lambda>(pTo, pFrom, h). (SQLITE_OK, cs[i := pTo, j := pFrom], h)) (sqlite3VdbeMemMove (cs ! i) (cs ! j) h)"
| "run_op e (Make_writeable i) cs h = update_cell cs i (sqlite3VdbeMemMakeWriteable e (cs ! i) h)"
| "run_op e (Nul_terminate i) cs h = update_cell cs i (sqlite3VdbeMemNulTerminate e (cs ! i) h)"
| "run_op e (Expand_blob i) cs h = update_cell cs i (ExpandBlob e (cs ! i) h)"
| "run_op e (Change_encoding i en) cs h = update_cell cs i (sqlite3VdbeChangeEncoding e (cs ! i) en h)"

fun run_ops :: "mem_env \<Rightarrow> cell_op list \<Rightarrow> mem list \<Rightarrow> mheap \<Rightarrow> (int list \<times> mem list \<times> mheap) option" where
  "run_ops e [] cs h = Some ([], cs, h)"
| "run_ops e (op # ops) cs h = do {
     (rc, cs, h) \<leftarrow> run_op e op cs h;
     (rcs, cs, h) \<leftarrow> run_ops e ops cs h;
     Some (rc # rcs, cs, h) }"

fun release_all :: "mem list \<Rightarrow> mheap \<Rightarrow> mheap option" where
  "release_all [] h = Some h"
| "release_all (m # cs) h = do { (_, h) \<leftarrow> sqlite3VdbeMemRelease m h; release_all cs h }"

text \<open>What the caller of an operation promises, for \<open>k\<close> cells; and the destructors that it hands over.\<close>

fun op_ok :: "mem_env \<Rightarrow> nat set \<Rightarrow> nat \<Rightarrow> cell_op \<Rightarrow> bool" where
  "op_ok e B k (Set_null i) = (i < k)"
| "op_ok e B k (Set_int i v) = (i < k)"
| "op_ok e B k (Set_real i v) = (i < k)"
| "op_ok e B k (Set_zeroblob i n) = (i < k \<and> nat n + 3 < 2 ^ 31)"
| "op_ok e B k (Set_pointer i x t d) = (i < k)"
| "op_ok e B k (Set_str i x n en del) = (i < k \<and> del \<noteq> SQLITE_DYNAMIC \<and> (del = SQLITE_STATIC \<or> del = SQLITE_TRANSIENT \<longrightarrow> x \<in> B) \<and>
     (case text_length (limit_length e) (extern e x) n en of None \<Rightarrow> False | Some l \<Rightarrow> text_given (limit_length e) (extern e x) n en l))"
| "op_ok e B k (Set_alloc i s n en) = (i < k \<and>
     (case text_length (limit_length e) s n en of None \<Rightarrow> False | Some l \<Rightarrow> text_given (limit_length e) s n en l))"
| "op_ok e B k (Copy i j) = (i < k \<and> j < k \<and> i \<noteq> j)"
| "op_ok e B k (Move i j) = (i < k \<and> j < k \<and> i \<noteq> j)"
| "op_ok e B k (Make_writeable i) = (i < k)"
| "op_ok e B k (Nul_terminate i) = (i < k)"
| "op_ok e B k (Expand_blob i) = (i < k)"
| "op_ok e B k (Change_encoding i en) = (i < k \<and> en \<in> encs)"

fun handed :: "cell_op \<Rightarrow> (nat \<times> nat) list" where
  "handed (Set_pointer i x t d) = [(case d of None \<Rightarrow> 0 | Some d \<Rightarrow> d, x)]"
| "handed (Set_str i x n en (Destructor d)) = [(d, x)]"
| "handed op = []"

text \<open>The values after an operation that returned \<open>rc\<close>.\<close>

fun effect :: "mem_env \<Rightarrow> cell_op \<Rightarrow> int \<Rightarrow> sql_value list \<Rightarrow> sql_value list \<Rightarrow> bool" where
  "effect e (Set_null i) rc vs vs' = (rc = SQLITE_OK \<and> vs' = vs[i := V_null])"
| "effect e (Set_int i v) rc vs vs' = (rc = SQLITE_OK \<and> vs' = vs[i := V_int v])"
| "effect e (Set_real i v) rc vs vs' = (rc = SQLITE_OK \<and> vs' = vs[i := (if sqlite3IsNaN v then V_null else V_real v)])"
| "effect e (Set_zeroblob i n) rc vs vs' = (rc = SQLITE_OK \<and> vs' = vs[i := V_blob (replicate (nat n) 0)])"
| "effect e (Set_pointer i x t d) rc vs vs' = (rc = SQLITE_OK \<and> vs' = vs[i := V_null])"
| "effect e (Set_str i x n en del) rc vs vs' =
    (let l = the (text_length (limit_length e) (extern e x) n en) in
     if del = SQLITE_TRANSIENT \<and> l > limit_length e then rc = SQLITE_TOOBIG \<and> vs' = vs
     else \<exists>v. stored (limit_length e) l en (take l (extern e x)) rc v \<and> vs' = vs[i := v])"
| "effect e (Set_alloc i s n en) rc vs vs' =
    (let l = the (text_length (limit_length e) s n en) in
     \<exists>v. (stored (limit_length e) l en (take l s) rc v \<or> rc = SQLITE_OK \<and> v = V_null) \<and> vs' = vs[i := v])"
| "effect e (Copy i j) rc vs vs' = (\<exists>v. set_to (vs ! j) rc v \<and> vs' = vs[i := v])"
| "effect e (Move i j) rc vs vs' = (rc = SQLITE_OK \<and> vs' = vs[i := vs ! j, j := V_null])"
| "effect e (Make_writeable i) rc vs vs' = (\<exists>v. set_to (vs ! i) rc v \<and> vs' = vs[i := v])"
| "effect e (Nul_terminate i) rc vs vs' = (\<exists>v. set_to (vs ! i) rc v \<and> vs' = vs[i := v])"
| "effect e (Expand_blob i) rc vs vs' = (\<exists>v. set_to (vs ! i) rc v \<and> vs' = vs[i := v])"
| "effect e (Change_encoding i en) rc vs vs' =
    (\<exists>v. (case vs ! i of V_text en' s \<Rightarrow> if en' = en then set_to (vs ! i) rc v else translated en' en s rc v | _ \<Rightarrow> set_to (vs ! i) rc v) \<and> vs' = vs[i := v])"

fun effects :: "mem_env \<Rightarrow> cell_op list \<Rightarrow> int list \<Rightarrow> sql_value list \<Rightarrow> sql_value list \<Rightarrow> bool" where
  "effects e [] [] vs vs' \<longleftrightarrow> vs' = vs"
| "effects e (op # ops) (rc # rcs) vs vs' \<longleftrightarrow> (\<exists>ws. effect e op rc vs ws \<and> effects e ops rcs ws vs')"
| "effects e _ _ vs vs' \<longleftrightarrow> False"

lemma sound_value:
  assumes "good e h m v" "\<And>en s. v \<noteq> V_text en s" "\<And>s. v \<noteq> V_blob s"
  shows "sound B m"
proof (rule sound_other, rule notI)
  assume "has m (MEM_Str OR MEM_Blob)"
  from content [OF assms(1) this] show False using assms(2,3) by (metis (no_types))
qed

lemma outcome_void:
  assumes "r = Some (m', h')" "step m h m' h' G" "good e h' m' v" "sound B m'"
  shows "outcome e B m h (void r) (\<lambda>rc v'. rc = SQLITE_OK \<and> v' = v) G"
  using assms by (auto simp: outcome_def void_def)

lemma cells_outcome:
  assumes "cells e B H cs vs h" "once (H + G) B" "i < length cs" "outcome e B (cs ! i) h r P G"
  obtains rc m' v h' where "update_cell cs i r = Some (rc, cs[i := m'], h')" "cells e B (H + G) (cs[i := m']) (vs[i := v]) h'" "P rc v"
proof -
  obtain rc m' h' v where r: "r = Some (rc, m', h')" "step (cs ! i) h m' h' G" "good e h' m' v" "sound B m'" "P rc v"
    using assms(4) by (auto simp: outcome_def)
  have "update_cell cs i r = Some (rc, cs[i := m'], h')" by (simp add: update_cell_def r(1))
  then show thesis using cells_update [OF assms(1-3) r(2-4)] r(5) by (rule that)
qed

lemma result_pointer_good:
  assumes "wf_cell h m"
  obtains m' h' where "sqlite3_result_pointer m x t d h = Some (m', h')" "step m h m' h' {#(case d of None \<Rightarrow> 0 | Some d \<Rightarrow> d, x)#}"
    "good e h' m' V_null"
proof -
  obtain D where r: "sqlite3VdbeMemRelease m h = Some (released m, h\<lparr>blocks := others h m, deleted := D\<rparr>)"
    "step m h (released m) (h\<lparr>blocks := others h m, deleted := D\<rparr>) {#}" by (rule Release_step [OF assms])
  let ?m = "(released m)\<lparr>flags := MEM_Null\<rparr>" and ?h = "h\<lparr>blocks := others h m, deleted := D\<rparr>"
  have q: "\<not> has ?m MEM_Dyn" "\<not> has ?m MEM_Agg" by (simp_all add: flag_ops)
  have st: "step m h ?m ?h {#}" by (rule step_quiet [OF r(2) released_quiet(1) q]) simp_all
  note p = SetPointer_good [OF step_wf [OF st] _ q(1), where x = x and t = t and d = d]
  show thesis using that [of "sqlite3VdbeMemSetPointer ?m x t d" ?h] r(1) step_trans0 [OF st p(1)] p(2)
    by (simp add: sqlite3_result_pointer_def)
qed

text \<open>The value of the source goes to the target, and the source is null.\<close>

lemma Move_cells:
  assumes "cells e B H cs vs h" "once H B" "i < length cs" "j < length cs" "i \<noteq> j"
  obtains pTo pFrom h' where "sqlite3VdbeMemMove (cs ! i) (cs ! j) h = Some (pTo, pFrom, h')"
    "cells e B H (cs[i := pTo, j := pFrom]) (vs[i := vs ! j, j := V_null]) h'"
proof -
  note c = cellsD [OF assms(1)]
  obtain D where r: "sqlite3VdbeMemRelease (cs ! i) h = Some (released (cs ! i), h\<lparr>blocks := others h (cs ! i), deleted := D\<rparr>)"
    "step (cs ! i) h (released (cs ! i)) (h\<lparr>blocks := others h (cs ! i), deleted := D\<rparr>) {#}" by (rule Release_step [OF c(4) [OF assms(3)]])
  define h' where "h' = h\<lparr>blocks := others h (cs ! i), deleted := D\<rparr>"
  define n where "n = (released (cs ! i))\<lparr>flags := MEM_Null\<rparr>"
  define pFrom where "pFrom = (cs ! j)\<lparr>flags := MEM_Null, szMalloc := 0\<rparr>"
  have q: "\<not> has n MEM_Dyn" "\<not> has n MEM_Agg" "\<not> has pFrom MEM_Dyn" "\<not> has pFrom MEM_Agg" by (simp_all add: n_def pFrom_def flag_ops)
  have "step (cs ! i) h n h' {#}" unfolding h'_def by (rule step_quiet [OF r(2) released_quiet(1) q(1,2)]) (simp_all add: n_def)
  moreover have "good e h' n V_null" by (rule good_null [OF step_wf [OF calculation]]) (simp add: n_def)
  moreover have "sound B n" by (rule sound_null) (simp add: n_def)
  ultimately have "cells e B H (cs[i := n]) (vs[i := V_null]) h'" using cells_update [OF assms(1), of "{#}" i n h' V_null] assms(2,3) by simp
  note d = cellsD [OF this]
  have jj: "good e h' (cs ! j) (vs ! j)" "sound B (cs ! j)" "wf_cell h' (cs ! j)" using d(3-5) [of j] assms(4,5) by simp_all
  let ?cs = "cs[i := cs ! j, j := pFrom]" and ?vs = "vs[i := vs ! j, j := V_null]"
  have w: "wf_cell h' pFrom" using jj(3) q(3,4) by (simp add: wf_cell_def pFrom_def)
  have o: "own n = {}" "own pFrom = {}" "pend n = {#}" "pend pFrom = {#}" using q by (simp_all add: own_def n_def pFrom_def pend_none)
  have nth: "?cs ! k = (if k = j then pFrom else if k = i then cs ! j else cs ! k)" "?vs ! k = (if k = j then V_null else if k = i then vs ! j else vs ! k)"
    "(cs[i := n]) ! k = (if k = i then n else cs ! k)" "(vs[i := V_null]) ! k = (if k = i then V_null else vs ! k)" if "k < length cs" for k
    using that c(1) by (auto simp: nth_list_update)
  have "good e h' (?cs ! k) (?vs ! k) \<and> sound B (?cs ! k)" if "k < length cs" for k
    using d(3,5) [of k] jj that good_null [OF w] nth [OF that] sound_null [of pFrom B] by (auto simp: pFrom_def)
  moreover have "own (?cs ! k) \<inter> own (?cs ! l) = {}" if "k < length cs" "l < length cs" "k \<noteq> l" for k l
    unfolding nth(1) [OF that(1)] nth(1) [OF that(2)] using c(6) [of k l] c(6) [of j l] c(6) [of k j] that o assms(4) by auto
  moreover have same: "(\<exists>k < length cs. x \<in> own (?cs ! k)) = (\<exists>k < length cs. x \<in> own ((cs[i := n]) ! k))" for x
  proof
    assume "\<exists>k < length cs. x \<in> own (?cs ! k)"
    then obtain k where "k < length cs" "x \<in> own (?cs ! k)" by blast
    then show "\<exists>k < length cs. x \<in> own ((cs[i := n]) ! k)"
      using nth [of k] nth [of j] o assms(3-5) by (intro exI [of _ "if k = i then j else k"]) (auto split: if_splits)
  next
    assume "\<exists>k < length cs. x \<in> own ((cs[i := n]) ! k)"
    then obtain k where "k < length cs" "x \<in> own ((cs[i := n]) ! k)" by blast
    then show "\<exists>k < length cs. x \<in> own (?cs ! k)"
      using nth [of k] nth [of i] o assms(3-5) by (intro exI [of _ "if k = j then i else k"]) (auto split: if_splits)
  qed
  moreover have "dom (blocks h') = (\<Union>k < length ?cs. own (?cs ! k))" unfolding d(7) using same by (simp add: set_eq_iff Bex_def)
  moreover have "due ?cs = due (cs[i := n])"
  proof -
    have "pend (cs ! i) + (pend (cs ! j) + due ?cs) = pend (cs ! i) + due (cs[i := n]) + pend (cs ! j)"
      using due_update [of i cs "cs ! j"] due_update [of j "cs[i := cs ! j]" pFrom] due_update [of i cs n] o assms(3-5) by (simp add: ac_simps)
    then show ?thesis by (simp add: ac_simps)
  qed
  ultimately have "cells e B H ?cs ?vs h'" using c(1) d(2,8) by (simp add: cells_def)
  moreover have "sqlite3VdbeMemMove (cs ! i) (cs ! j) h = Some (cs ! j, pFrom, h')"
    using r(1) by (simp add: sqlite3VdbeMemMove_def pFrom_def h'_def)
  ultimately show thesis using that by blast
qed

text \<open>One operation runs, keeps the invariant and has its effect.\<close>

definition runs :: "mem_env \<Rightarrow> nat set \<Rightarrow> (nat \<times> nat) multiset \<Rightarrow> cell_op \<Rightarrow> mem list \<Rightarrow> sql_value list \<Rightarrow> mheap \<Rightarrow> bool" where
  "runs e B H op cs vs h \<longleftrightarrow> (\<exists>rc cs' vs' h'. run_op e op cs h = Some (rc, cs', h') \<and> cells e B (H + mset (handed op)) cs' vs' h' \<and>
     effect e op rc vs vs' \<and> length cs' = length cs)"

lemma runs_one:
  assumes "cells e B H cs vs h" "once (H + mset (handed op)) B" "i < length cs" "outcome e B (cs ! i) h r P (mset (handed op))"
    "run_op e op cs h = update_cell cs i r" "\<And>rc v. P rc v \<Longrightarrow> effect e op rc vs (vs[i := v])"
  shows "runs e B H op cs vs h"
  using cells_outcome [OF assms(1-4)] assms(5,6) unfolding runs_def by (metis length_list_update)

lemma runs_void:
  assumes "cells e B H cs vs h" "once (H + mset (handed op)) B" "i < length cs" "r = Some (m', h')" "step (cs ! i) h m' h' (mset (handed op))"
    "good e h' m' v" "sound B m'" "run_op e op cs h = update_cell cs i (void r)" "effect e op SQLITE_OK vs (vs[i := v])"
  shows "runs e B H op cs vs h"
  by (rule runs_one [OF assms(1-3) outcome_void [OF assms(4-7)] assms(8)]) (use assms(9) in simp)

lemma runs_plain:
  assumes "cells e B H cs vs h" "once (H + mset (handed op)) B" "i < length cs" "r = Some (m', h')" "step (cs ! i) h m' h' (mset (handed op))"
    "good e h' m' v" "\<nexists>en s. v = V_text en s" "\<nexists>s. v = V_blob s" "run_op e op cs h = update_cell cs i (void r)" "effect e op SQLITE_OK vs (vs[i := v])"
  shows "runs e B H op cs vs h"
  using assms(7,8) by (intro runs_void [OF assms(1-6) sound_value [OF assms(6)] assms(9,10)]) auto

lemma runs_Set_values:
  assumes "cells e B H cs vs h" "once H B" "i < length cs"
  shows "runs e B H (Set_null i) cs vs h" "runs e B H (Set_int i v) cs vs h" "runs e B H (Set_real i v) cs vs h"
    "nat n + 3 < 2 ^ 31 \<Longrightarrow> runs e B H (Set_zeroblob i n) cs vs h"
proof -
  have w: "wf_cell h (cs ! i)" by (rule cellsD(4) [OF assms(1,3)])
  show "runs e B H (Set_null i) cs vs h"
    by (rule SetNull_good [OF w, of e], rule runs_plain [OF assms(1)]) (use assms(2,3) in simp_all)
  show "runs e B H (Set_int i v) cs vs h"
    by (rule SetInt64_good [OF w, of v e], rule runs_plain [OF assms(1)]) (use assms(2,3) in simp_all)
  show "runs e B H (Set_real i v) cs vs h"
    by (rule SetDouble_good [OF w, of v e], rule runs_plain [OF assms(1)]) (use assms(2,3) in simp_all)
  show "runs e B H (Set_zeroblob i n) cs vs h" if "nat n + 3 < 2 ^ 31"
    by (rule SetZeroBlob_good [OF w that, of e B], rule runs_void [OF assms(1)]) (use assms(2,3) in simp_all)
qed

lemma runs_Set_pointer:
  assumes "cells e B H cs vs h" "once (H + mset (handed (Set_pointer i x t d))) B" "i < length cs"
  shows "runs e B H (Set_pointer i x t d) cs vs h"
  by (rule result_pointer_good [OF cellsD(4) [OF assms(1,3)], of x t d e], rule runs_plain [OF assms]) simp_all

text \<open>External memory that was not handed over before can be read.\<close>

lemma cells_free:
  assumes "cells e B H cs vs h" "i < length cs" "x \<notin> snd ` set_mset H"
  shows "x \<notin> snd ` (set (deleted h) \<union> set_mset (pend (cs ! i)))"
proof -
  have "set_mset (pend (cs ! i)) \<subseteq> set_mset (due cs)" by (rule set_mset_mono [OF due_member [OF assms(2)]])
  then show ?thesis using assms(3) unfolding cellsD(8) [OF assms(1), symmetric] by auto
qed

lemma runs_Set_str:
  assumes "env_ok e" "cells e B H cs vs h" "once (H + mset (handed (Set_str i x n en del))) B" "op_ok e B (length cs) (Set_str i x n en del)"
  shows "runs e B H (Set_str i x n en del) cs vs h"
proof -
  have i: "i < length cs" using assms(4) by simp
  obtain l where l: "text_length (limit_length e) (extern e x) n en = Some l" "text_given (limit_length e) (extern e x) n en l"
    using assms(4) by (auto split: option.splits)
  have "x \<notin> snd ` set_mset H"
  proof (cases "x \<in> B")
    case True
    then show ?thesis using once_borrowed [OF once_left [OF assms(3)]] by blast
  next
    case False
    then obtain d where "del = Destructor d" using assms(4) by (cases del) auto
    then show ?thesis using once_apart [OF assms(3), of x] by simp
  qed
  note x = cells_free [OF assms(2) i this]
  note w = cellsD(4) [OF assms(2) i]
  show ?thesis
  proof (cases "del = SQLITE_TRANSIENT")
    case tr: True
    show ?thesis
    proof (cases "l \<le> limit_length e")
      case True
      have "outcome e B (cs ! i) h (sqlite3VdbeMemSetStr e (cs ! i) (Extern x) n en del h) (stored (limit_length e) l en (take l (extern e x)))
          (mset (handed (Set_str i x n en del)))"
        using SetStr_transient [OF assms(1) w l(2) True x] tr by simp
      then show ?thesis by (rule runs_one [OF assms(2,3) i]) (use tr l(1) True in \<open>auto simp: Let_def\<close>)
    next
      case False
      have "bytes_at e h (Extern x) = Some (extern e x)" using x by (auto simp: bytes_at_def)
      then have "run_op e (Set_str i x n en del) cs h = Some (SQLITE_TOOBIG, cs[i := cs ! i], h)"
        using False tr str_length_given [OF l(2), of h "Extern x"] by (simp add: sqlite3VdbeMemSetStr_def set_text_def update_cell_def)
      then show ?thesis using tr False l(1) assms(2) by (auto simp: runs_def)
    qed
  next
    case False
    then have "del = SQLITE_STATIC \<and> mset (handed (Set_str i x n en del)) = {#} \<and> x \<in> B \<or> (\<exists>d. del = Destructor d \<and> mset (handed (Set_str i x n en del)) = {#(d, x)#})"
      using assms(4) by (cases del) auto
    from SetStr_extern [OF assms(1) w l(2) x this] show ?thesis
      by (rule runs_one [OF assms(2,3) i]) (use False l(1) in \<open>auto simp: Let_def\<close>)
  qed
qed

lemma runs_Copy:
  assumes "env_ok e" "cells e B H cs vs h" "once H B" "i < length cs" "j < length cs" "i \<noteq> j"
  shows "runs e B H (Copy i j) cs vs h"
proof -
  note c = cellsD [OF assms(2)]
  have apart: "x \<notin> snd ` set_mset (pend (cs ! i))" if j: "has (cs ! j) (MEM_Str OR MEM_Blob)" "mz (cs ! j) = Extern x" for x
  proof (cases "has (cs ! j) MEM_Dyn")
    case True
    then obtain d where d: "pend (cs ! j) = {#(d, x)#}" using c(4) [OF assms(5)] j(2) by (auto simp: pend_def wf_cell_def)
    let ?cs = "cs[i := nomem (cs ! i)]"
    have "due cs = due ?cs + pend (cs ! i)" using due_update [OF assms(4), of "nomem (cs ! i)"] nomem_quiet by (simp add: pend_none)
    then have "once (pend (cs ! i) + due ?cs) B" using assms(3) c(8) once_left [of "pend (cs ! i) + due ?cs" "mset (deleted h)" B] by (simp add: ac_simps)
    moreover have "(d, x) \<in># due ?cs" using due_member [of j ?cs] d assms(5,6) by simp
    ultimately show ?thesis using once_apart [of "pend (cs ! i)" "due ?cs" B x] by force
  next
    case False
    then have "x \<in> B" using c(5) [OF assms(5)] j by (simp add: sound_def)
    then show ?thesis using once_borrowed [OF assms(3)] cells_free [OF assms(2,4)] by blast
  qed
  have "outcome e B (cs ! i) h (sqlite3VdbeMemCopy e (cs ! i) (cs ! j) h) (set_to (vs ! j)) {#}"
    by (rule Copy_outcome [OF assms(1) c(4) [OF assms(4)] c(3) [OF assms(5)] c(5) [OF assms(5)] c(6) [OF assms(4-6)] apart])
  then show ?thesis by (intro runs_one [OF assms(2) _ assms(4), where P = "set_to (vs ! j)"]) (use assms(3) in auto)
qed

lemma runs_Move:
  assumes "cells e B H cs vs h" "once H B" "i < length cs" "j < length cs" "i \<noteq> j"
  shows "runs e B H (Move i j) cs vs h"
  by (rule Move_cells [OF assms]) (auto simp: runs_def)

text \<open>The operations that rearrange the memory of a cell share a contract.\<close>

locale rearranging =
  fixes f :: "mem_env \<Rightarrow> mem \<Rightarrow> mheap \<Rightarrow> (int \<times> mem \<times> mheap) option"
  assumes keeps: "env_ok e \<Longrightarrow> good e h m v \<Longrightarrow> sound B m \<Longrightarrow> outcome e B m h (f e m h) (set_to v) {#}"
begin

lemma runs_keep:
  assumes "env_ok e" "cells e B H cs vs h" "once H B" "i < length cs" "handed op = []" "run_op e op cs h = update_cell cs i (f e (cs ! i) h)"
    "\<And>rc v. set_to (vs ! i) rc v \<Longrightarrow> effect e op rc vs (vs[i := v])"
  shows "runs e B H op cs vs h"
  by (rule runs_one [OF assms(2) _ assms(4) _ assms(6,7)])
    (use assms(3,5) keeps [OF assms(1) cellsD(3,5) [OF assms(2,4)]] in simp_all)

end

interpretation writeable: rearranging sqlite3VdbeMemMakeWriteable
  by unfold_locales (rule MakeWriteable_outcome)

interpretation terminated: rearranging sqlite3VdbeMemNulTerminate
  by unfold_locales (rule NulTerminate_outcome)

interpretation expanded: rearranging ExpandBlob
  by unfold_locales (rule ExpandBlob_outcome)

lemma runs_any:
  assumes "env_ok e" "cells e B H cs vs h" "once (H + mset (handed op)) B" "op_ok e B (length cs) op"
  shows "runs e B H op cs vs h"
proof -
  have o: "once H B" by (rule once_left [OF assms(3)])
  note c = cellsD [OF assms(2)]
  have one: "runs e B H op cs vs h" if "i < length cs" "outcome e B (cs ! i) h r P {#}" "handed op = []" "run_op e op cs h = update_cell cs i r"
    "\<And>rc v. P rc v \<Longrightarrow> effect e op rc vs (vs[i := v])" for i r P
    by (rule runs_one [OF assms(2,3) that(1), where P = P]) (use that in simp_all)
  show ?thesis
  proof (cases op)
    case (Set_alloc i s n en)
    then obtain l where "i < length cs" "text_length (limit_length e) s n en = Some l" "text_given (limit_length e) s n en l"
      using assms(4) by (auto split: option.splits)
    then show ?thesis using Set_alloc by (intro one [OF _ set_allocated_outcome [OF assms(1) c(4)]]) (auto simp: Let_def)
  next
    case (Change_encoding i en)
    then have "i < length cs" "en \<in> encs" using assms(4) by auto
    then show ?thesis
      using Change_encoding by (intro one [OF _ ChangeEncoding_outcome [OF assms(1) c(3) _ c(5)]]) (auto split: sql_value.splits)
  next
    case (Make_writeable i)
    then show ?thesis using assms(4) by (intro writeable.runs_keep [OF assms(1,2) o]) auto
  next
    case (Nul_terminate i)
    then show ?thesis using assms(4) by (intro terminated.runs_keep [OF assms(1,2) o]) auto
  next
    case (Expand_blob i)
    then show ?thesis using assms(4) by (intro expanded.runs_keep [OF assms(1,2) o]) auto
  next
    case (Set_str i x n en del)
    then show ?thesis using runs_Set_str [OF assms(1,2)] assms(3,4) by blast
  next
    case (Set_pointer i x t d)
    then show ?thesis using runs_Set_pointer [OF assms(2)] assms(3,4) by simp
  qed (use assms(4) runs_Set_values [OF assms(2) o] runs_Copy [OF assms(1,2) o] runs_Move [OF assms(2) o] in auto)
qed

text \<open>A whole program.\<close>

lemma run_ops_cells:
  assumes "env_ok e" "cells e B H cs vs h" "once (H + mset (concat (map handed ops))) B" "\<forall>op \<in> set ops. op_ok e B (length cs) op"
  shows "\<exists>rcs cs' vs' h'. run_ops e ops cs h = Some (rcs, cs', h') \<and> cells e B (H + mset (concat (map handed ops))) cs' vs' h' \<and>
    effects e ops rcs vs vs' \<and> length cs' = length cs"
  using assms(2-4)
proof (induction ops arbitrary: H cs vs h)
  case (Cons op ops)
  have "once (H + mset (handed op)) B"
    using once_left [of "H + mset (handed op)" "mset (concat (map handed ops))" B] Cons.prems(2) by (simp add: ac_simps)
  from runs_any [OF assms(1) Cons.prems(1) this] obtain rc cs1 vs1 h1 where r: "run_op e op cs h = Some (rc, cs1, h1)"
      "cells e B (H + mset (handed op)) cs1 vs1 h1" "effect e op rc vs vs1" "length cs1 = length cs"
    using Cons.prems(3) by (auto simp: runs_def)
  moreover obtain rcs cs' vs' h' where "run_ops e ops cs1 h1 = Some (rcs, cs', h')"
      "cells e B (H + mset (handed op) + mset (concat (map handed ops))) cs' vs' h'" "effects e ops rcs vs1 vs'" "length cs' = length cs1"
    using Cons.IH [OF r(2)] Cons.prems(2,3) r(4) by (auto simp: ac_simps)
  ultimately show ?case by (auto simp: ac_simps)
qed simp

lemma release_all_cells:
  assumes "heap_ok h" "\<forall>m \<in> set cs. wf_cell h m" "sorted_wrt (\<lambda>a b. own a \<inter> own b = {}) cs" "dom (blocks h) = (\<Union>m \<in> set cs. own m)"
  shows "\<exists>h'. release_all cs h = Some h' \<and> blocks h' = Map.empty \<and> mset (deleted h') = mset (deleted h) + due cs"
  using assms
proof (induction cs arbitrary: h)
  case (Cons m cs)
  obtain D where r: "sqlite3VdbeMemRelease m h = Some (released m, h\<lparr>blocks := others h m, deleted := D\<rparr>)" "mset D = mset (deleted h) + pend m"
    using Release_eq Cons.prems(2) by (metis list.set_intros(1))
  let ?h = "h\<lparr>blocks := others h m, deleted := D\<rparr>"
  have hok: "heap_ok ?h" using heap_ok_others [OF Cons.prems(1)] by (simp add: heap_ok_def)
  have "wf_cell ?h c" if "c \<in> set cs" for c
  proof -
    have "own m \<inter> own c = {}" "wf_cell h c" using Cons.prems(2,3) that by auto
    then have "malloc_size (zMalloc c) ?h = malloc_size (zMalloc c) h" if "szMalloc c > 0"
      using that by (auto simp: malloc_size_def own_def others_def split: mem_ptr.splits)
    then show ?thesis using \<open>wf_cell h c\<close> hok by (simp add: wf_cell_def)
  qed
  moreover have "dom (blocks ?h) = (\<Union>m \<in> set cs. own m)" using Cons.prems(3,4) by (auto simp: others_def)
  ultimately obtain h' where "release_all cs ?h = Some h'" "blocks h' = Map.empty" "mset (deleted h') = mset D + due cs"
    using Cons.IH [OF hok] Cons.prems(3) by auto
  then show ?case using r by (simp add: due_def)
qed (simp add: due_def)

lemma cells_release:
  assumes "cells e B H cs vs h"
  shows "\<exists>h'. release_all cs h = Some h' \<and> blocks h' = Map.empty \<and> mset (deleted h') = H"
proof -
  note c = cellsD [OF assms]
  have "\<forall>m \<in> set cs. wf_cell h m" using c(4) by (auto simp: in_set_conv_nth)
  moreover have "sorted_wrt (\<lambda>a b. own a \<inter> own b = {}) cs" using c(6) by (auto simp: sorted_wrt_iff_nth_less)
  moreover have "dom (blocks h) = (\<Union>m \<in> set cs. own m)" unfolding c(7) by (auto simp: set_conv_nth)
  ultimately show ?thesis using release_all_cells [OF c(2), of cs] c(8) by simp
qed

text \<open>Cells that were initialised, and a heap without blocks.\<close>

definition no_blocks :: mheap where
  "no_blocks = \<lparr>blocks = Map.empty, next_block = 0, mallocs = 0, deleted = []\<rparr>"

lemma init_cells: "cells e B {#} (map (sqlite3VdbeMemInit MEM_Null) ms) (replicate (length ms) V_null) no_blocks"
proof -
  have "wf_cell no_blocks (sqlite3VdbeMemInit MEM_Null m)" for m
    by (simp add: wf_cell_def heap_ok_def no_blocks_def sqlite3VdbeMemInit_def flag_ops)
  then have "good e no_blocks (sqlite3VdbeMemInit MEM_Null m) V_null \<and> sound B (sqlite3VdbeMemInit MEM_Null m)" for m
    using good_null sound_null by (simp add: sqlite3VdbeMemInit_def)
  moreover have "own (sqlite3VdbeMemInit MEM_Null m) = {}" "pend (sqlite3VdbeMemInit MEM_Null m) = {#}" for m
    by (simp_all add: own_def sqlite3VdbeMemInit_def pend_def flag_ops)
  moreover from this(2) have "due (map (sqlite3VdbeMemInit MEM_Null) ms) = {#}" by (induction ms) (simp_all add: due_def)
  ultimately show ?thesis by (simp add: cells_def heap_ok_def no_blocks_def)
qed

lemma once_list: "once (mset xs) B \<longleftrightarrow> distinct (map snd xs) \<and> B \<inter> snd ` set xs = {}"
proof -
  have "count M x \<le> 1 \<longleftrightarrow> count M x = (if x \<in># M then 1 else 0)" for M :: "nat multiset" and x
    by (auto simp: le_Suc_eq count_eq_zero_iff)
  then have "(\<forall>x. count (image_mset snd (mset xs)) x \<le> 1) \<longleftrightarrow> distinct (map snd xs)"
    unfolding mset_map [symmetric] distinct_count_atmost_1 by simp
  then show ?thesis by (auto simp: once_def)
qed

lemma run_init:
  assumes "env_ok e" "\<forall>op \<in> set ops. op_ok e B (length ms) op" "distinct (map snd (concat (map handed ops)))"
    "B \<inter> snd ` set (concat (map handed ops)) = {}"
  obtains rcs cs h vs where "run_ops e ops (map (sqlite3VdbeMemInit MEM_Null) ms) no_blocks = Some (rcs, cs, h)"
    "cells e B (mset (concat (map handed ops))) cs vs h" "effects e ops rcs (replicate (length ms) V_null) vs"
proof -
  have "once ({#} + mset (concat (map handed ops))) B" using assms(3,4) by (simp add: once_list)
  then show thesis using run_ops_cells [OF assms(1) init_cells [of e B ms], of ops] assms(2) that by auto
qed

text \<open>Property C8: memory cells neither leak nor free twice. Whatever operations a program performs on its cells, with
  whatever texts, lengths and encodings, and whichever allocations fail, no operation accesses memory outside a block, after
  it was freed or after its destructor was called, and the assertions of the debugging build hold for all cells. When the
  cells are released in the end, every block has been freed, and every destructor that was handed over has been called
  exactly once. The caller keeps its promises: texts are readable and end where it says, and memory that is handed over is
  not used otherwise.\<close>
theorem cells_accounted:
  assumes "env_ok e" "\<forall>op \<in> set ops. op_ok e B (length ms) op" "distinct (map snd (concat (map handed ops)))"
    "B \<inter> snd ` set (concat (map handed ops)) = {}"
  shows "\<exists>rcs cs h h'. run_ops e ops (map (sqlite3VdbeMemInit MEM_Null) ms) no_blocks = Some (rcs, cs, h) \<and>
    (\<forall>m \<in> set cs. sqlite3VdbeCheckMemInvariants h m) \<and>
    release_all cs h = Some h' \<and> blocks h' = Map.empty \<and> mset (deleted h') = mset (concat (map handed ops))"
proof -
  obtain rcs cs h vs where r: "run_ops e ops (map (sqlite3VdbeMemInit MEM_Null) ms) no_blocks = Some (rcs, cs, h)"
      "cells e B (mset (concat (map handed ops))) cs vs h"
    by (rule run_init [OF assms])
  have "\<forall>m \<in> set cs. sqlite3VdbeCheckMemInvariants h m"
    using cellsD(3) [OF r(2)] check_invariants by (metis in_set_conv_nth)
  then show ?thesis using r cells_release [OF r(2)] by blast
qed

text \<open>Property C9: memory cells hold the values they are set to. After any program of operations, with any failures of the
  allocator, the values of the cells are those that the operations prescribe: setting, copying and moving, with byte order
  marks taken off and a text that was set with an encoding kept in it, the operations that rearrange memory change no value,
  and a change of the encoding gives the translated text; a call that runs out of memory leaves null, or for a change of the
  encoding possibly the old text, and a text to be copied that is too long leaves the cell alone.\<close>
theorem cells_refine:
  assumes "env_ok e" "\<forall>op \<in> set ops. op_ok e B (length ms) op" "distinct (map snd (concat (map handed ops)))"
    "B \<inter> snd ` set (concat (map handed ops)) = {}"
  shows "\<exists>rcs cs h vs. run_ops e ops (map (sqlite3VdbeMemInit MEM_Null) ms) no_blocks = Some (rcs, cs, h) \<and>
    effects e ops rcs (replicate (length ms) V_null) vs \<and> map (cell_value e h) cs = map Some vs"
proof -
  obtain rcs cs h vs where r: "run_ops e ops (map (sqlite3VdbeMemInit MEM_Null) ms) no_blocks = Some (rcs, cs, h)"
      "cells e B (mset (concat (map handed ops))) cs vs h" "effects e ops rcs (replicate (length ms) V_null) vs"
    by (rule run_init [OF assms])
  have "map (cell_value e h) cs = map Some vs"
    using cellsD(1,3) [OF r(2)] by (auto intro!: nth_equalityI simp: good_def)
  then show ?thesis using r by blast
qed

text \<open>Two texts, the first with a byte order mark, and an allocator that fails once.\<close>

definition sample_env :: mem_env where
  "sample_env = \<lparr>no_memory = (\<lambda>i. i = 2), usable = (\<lambda>n. n + 5), junk = (\<lambda>b i. 7),
     extern = (\<lambda>x. if x = 1 then [0xFF, 0xFE, 0x41, 0, 0, 0] else [0x68, 0x69, 0]), limit_length = 1000\<rparr>"

definition null_cell :: mem where
  "null_cell = \<lparr>mu = U_none, flags = MEM_Null, enc = SQLITE_UTF8, eSubtype = 0, mn = 0, mz = Null, zMalloc = Null, szMalloc = 0, xDel = None\<rparr>"

definition sample_ops :: "cell_op list" where
  "sample_ops = [Set_str 0 1 (-1) SQLITE_UTF16LE SQLITE_TRANSIENT, Set_str 1 2 2 SQLITE_UTF8 (Destructor 9), Copy 2 1, Make_writeable 1,
     Change_encoding 0 SQLITE_UTF8, Set_zeroblob 1 4, Expand_blob 1, Move 2 0, Set_pointer 0 5 None (Some 3), Set_int 1 7]"

lemma sample_ok: "env_ok sample_env" "\<forall>op \<in> set sample_ops. op_ok sample_env {1} (length [m, m, m]) op"
  "distinct (map snd (concat (map handed sample_ops)))" "{1} \<inter> snd ` set (concat (map handed sample_ops)) = {}"
  by (simp_all add: env_ok_def sample_env_def sample_ops_def text_length_def text_given_def encs_def encodings terminator_def)

theorem cells_accounted_witness:
  "\<exists>rcs cs h h'. run_ops sample_env sample_ops (map (sqlite3VdbeMemInit MEM_Null) (replicate 3 null_cell)) no_blocks = Some (rcs, cs, h) \<and>
    (\<forall>m \<in> set cs. sqlite3VdbeCheckMemInvariants h m) \<and>
    release_all cs h = Some h' \<and> blocks h' = Map.empty \<and> mset (deleted h') = {#(9, 2), (3, 5)#}"
  using cells_accounted [OF sample_ok(1), of sample_ops "{1}" "replicate 3 null_cell"] sample_ok
  by (simp add: sample_ops_def numeral_3_eq_3)

theorem cells_refine_witness:
  "\<exists>rcs cs h vs. run_ops sample_env sample_ops (map (sqlite3VdbeMemInit MEM_Null) (replicate 3 null_cell)) no_blocks = Some (rcs, cs, h) \<and>
    effects sample_env sample_ops rcs [V_null, V_null, V_null] vs \<and> map (cell_value sample_env h) cs = map Some vs"
  using cells_refine [OF sample_ok(1), of sample_ops "{1}" "replicate 3 null_cell"] sample_ok by (simp add: numeral_3_eq_3)

section \<open>Limits of the guarantees\<close>

text \<open>A text in UTF-16 with a byte order mark and an odd number of bytes: two zero bytes follow the text, but there is no zero
  character at an even offset, although the flags say so.\<close>

definition odd_env :: mem_env where
  "odd_env = sample_env\<lparr>extern := (\<lambda>x. [0xFF, 0xFE, 0x41, 0, 0x42])\<rparr>"

lemma odd_text_unterminated:
  "case sqlite3VdbeMemSetStr odd_env null_cell (Extern 1) 5 SQLITE_UTF16LE SQLITE_TRANSIENT no_blocks of
     Some (rc, m, h) \<Rightarrow> rc = SQLITE_OK \<and> has m MEM_Term \<and> mn m = 3 \<and> read_mem odd_env h (mz m) 6 = Some [0x41, 0, 0x42, 0, 0, 7]
   | None \<Rightarrow> False"
  by (simp add: sqlite3VdbeMemSetStr_def str_length_def set_text_def sqlite3VdbeMemClearAndResize_def sqlite3VdbeMemGrow_def grow_alloc_def
    malloc_raw_def new_block_def Let_def malloc_range_def malloc_size_def read_mem_def bytes_at_def write_mem_def wr_def has_def flag_defs
    sqlite3VdbeMemHandleBom_def sqlite3VdbeMemMakeWriteable_def ExpandBlob_def odd_env_def sample_env_def null_cell_def no_blocks_def encodings map_replicate_const)

text \<open>A cell whose text is kept by somebody else is moved without a copy.\<close>

lemma move_keeps_ephemeral:
  assumes "wf_cell h pTo"
  shows "\<exists>h'. sqlite3VdbeMemMove pTo pFrom h = Some (pFrom, pFrom\<lparr>flags := MEM_Null, szMalloc := 0\<rparr>, h')"
  by (rule Release_step [OF assms]) (simp add: sqlite3VdbeMemMove_def)

end
