(* ===== verification/Spec2Isabelle.thy ===== *)
theory Spec2Isabelle
  imports Rx_Concurrent Rx_Bulk Vdf_Nifs Sqlite_Spec Sqlite_Rowset_Spec Sqlite_Bitvec_Spec Sqlite_Hash_Spec Sqlite_Varint
    Sqlite_Parser_Spec Sqlite_Like_Spec Sqlite_Mem_Spec
begin

text \<open>
  Verification of the native code of the Arweave node.

  \<^bold>\<open>The program.\<close> The node is written in Erlang (\<open>src/apps/arweave/src\<close>); the parts below run as C and C++.

  \<^item> \<open>src/apps/arweave/c_src\<close> is a library of native functions (NIFs) that the Erlang VM calls on its dirty
    scheduler threads: proof-of-work hashing with RandomX, packing of data chunks with a Feistel cipher keyed by
    RandomX entropy, and the verifiable delay function (VDF), an iterated SHA-256 with checkpoints, computed
    sequentially and verified by several threads.
  \<^item> \<open>src/apps/ar_sqlite3/c_src\<close> is a port program: a separate process that reads requests from a pipe, calls
    SQLite and writes replies. SQLite itself is the amalgamation \<open>sqlite3.c\<close>.

  \<^bold>\<open>Conventions.\<close> A C function is a HOL function on the buffers and the state it gets. \<^term>\<open>None\<close> (or a \<open>Crash\<close>
  step) is undefined behaviour: an access outside a buffer, a block or object used after it was freed, a violated
  assertion, a division by zero. A theorem that a result is \<^term>\<open>Some\<close> is therefore also a memory safety
  statement. Errors that the code reports are ordinary results. A pointer is an offset into a byte list
  (\<open>Prelude\<close>: \<open>rd\<close>, \<open>wr\<close>), machine integers are words where they wrap, integers where the code stays in range, and
  signed 32-bit arithmetic that may overflow is checked (\<open>c_int\<close>: \<^term>\<open>None\<close> on overflow).
  Loops are recursive functions with termination proofs; the only bounds are the ones stated below.

  \<^bold>\<open>Packing.\<close>
  \<^item> \<open>Feistel\<close> models \<open>feistel_msgsize_key_cipher.cpp\<close>: the block functions and the two message loops. The
    locale \<open>block_cipher\<close> states what the chaining needs of a block cipher; it is interpreted on the model's
    blocks. Decryption and encryption are inverse to each other for every SHA-256, key and whole-block message.
  \<^item> \<open>Rx_Long\<close> models \<open>randomx_long_with_entropy.cpp\<close>. The RandomX machine and Blake2b are parameters. The
    first/next/last pipeline computes what separate calls compute, and chunks survive packing and unpacking. The
    hypothesis \<open>randomx_documented\<close> is about the machine's methods only: after \<open>initScratchpad\<close> and
    \<open>resetRoundingMode\<close> a run depends on its inputs and the dataset. That the functions of the file do not depend on
    what a machine computed before is proved from it.

  \<^bold>\<open>The delay function.\<close>
  \<^item> \<open>Vdf\<close> models the sequential half of \<open>vdf.cpp\<close>: \<open>long_add\<close> is 256-bit addition, and both loop shapes of
    \<open>vdf_sha2\<close> compute the honest chain, which without skipped checkpoints is also what the Erlang reference
    implementation computes. The offsets are \<open>int\<close>, so the theorems ask for at most \<open>2 ^ 26\<close> checkpoints; they also
    ask for the iterations from which on the code hashes as often as asked.
  \<^item> \<open>Vdf_Parallel\<close> is the thread pool of the verifiers as a step relation (\<open>vdf_step\<close>): the caller starts
    threads, works itself and joins; every interleaving is a path. The locale \<open>verify_work\<close> abstracts from what a
    segment computes. Every schedule ends, and all schedules decide the same question.
  \<^item> \<open>Vdf_Verify\<close> interprets the locale on the two verifiers, with and without a reset step: they return true
    exactly for honest claims, and what \<open>vdf_sha2\<close> computed is accepted. \<open>job_sizes\<close> collects the sizes that the
    native functions check, two or more iterations, and a largest offset \<open>checkpointCount*(1+skip)*32\<close> that fits
    an \<open>int\<close>; the offsets in the model overflow where those of the code do.
  \<^item> \<open>Vdf_Nifs\<close> models \<open>ar_mine_vdf.h\<close>, the native functions with their argument checks.

  \<^bold>\<open>RandomX native functions\<close> (\<open>ar_mine_randomx.c\<close>, \<open>ar_mine_randomx.h\<close>).
  \<^item> \<open>Nif\<close> holds the interface to the Erlang VM (\<open>erl_nif\<close>) as a record of functions with the laws the code relies
    on as named predicates.
  \<^item> \<open>Rx_State\<close> models the resource \<open>struct state\<close>: initialisation with its worker threads, release, destructor.
    A ledger of live objects (locks, caches, datasets, machines) makes leaks and double frees visible. Whichever of the
    checked creations fails, nothing leaks (a failing \<open>enif_alloc\<close>, which the code does not check, is undefined
    behaviour); the workers initialise every dataset item once.
  \<^item> \<open>Rx_Nifs\<close> models the functions that hash, verify, pack, unpack and repack one input, with every argument check
    and error path, the machine and the padding block of a short chunk being entries of the ledger. They restore the
    world, unpacking inverts packing, repacking is unpacking then packing.
  \<^item> \<open>Rx_Concurrent\<close> splits a call into the steps between which other threads run (\<open>call_step\<close>). The steps of the
    system (\<open>rx_step\<close>) are a new call with its own reference to the state, a step of a call, a copy of the term, and
    the garbage collection of a term, which runs the destructor on the last reference. In every reachable state
    nothing freed is used; calls can always be finished; and when the last reference is gone, all that the state owned
    and all machines of calls have been freed.
  \<^item> \<open>Rx_Bulk\<close> models the two batch functions: recall bytes, messages, their order and recipients. The locale
    \<open>pipelined_hasher\<close> is interpreted on the plain hash and on the hash with entropy. The integers of GMP are entries
    of the ledger: all are cleared but the first initialisation of \<open>mpzSearchSpaceShare\<close>, which is initialised twice.

  \<^bold>\<open>The SQLite port.\<close>
  \<^item> \<open>Erl_Comm\<close> models \<open>erl_comm.c\<close>. The pipes are scripts that say how many bytes each system call moves or that it
    fails; packets arrive under every fragmentation.
  \<^item> \<open>Sqlite_Driver\<close> models \<open>sqlite3_driver.c\<close>: every handler and the main loop, on the shared buffer with its
    index and a heap of blocks. The \<open>ei\<close> library, the C library's allocator and the SQLite API are parameters.
  \<^item> \<open>Sqlite_Port\<close> and \<open>Sqlite_Spec\<close> hold the contract: requests and replies as terms (\<open>serve\<close>), which the port
    refines; and under any pattern of failures it never faults, never loses a heap block and ends. The laws
    \<open>ei_encodings\<close>, \<open>encoders_succeed\<close>, \<open>libc_ok\<close>, \<open>sqlite_ok\<close> and \<open>column_types\<close> state documented behaviour; the
    witnesses satisfy them with concrete functions. Two conditions are about the run, because neither the program nor
    the libraries check them: the messages it handles carry honest lengths (\<open>intact\<close>; \<open>negative_length_overruns\<close> shows
    why), and the rows it asks for fit the buffer (\<open>asked_row_fits\<close>, \<open>fits_packet\<close>; \<open>large_row_overruns_buffer\<close> shows why).

  \<^bold>\<open>Inside SQLite.\<close> Nine self-contained modules of \<open>sqlite3.c\<close>, as the build of the port compiles them (64-bit, GCC).
  \<^item> \<open>Sqlite_Varint\<close>: the variable-length integers of the file format. The unrolled decoders equal a byte-by-byte
    reference on every content of memory, and encoding round-trips. \<open>sqlite3VarintLen\<close> is the number of bytes written
    below \<open>2 ^ 63\<close>; from there on it is one more.
  \<^item> \<open>Sqlite_Rowset\<close>, \<open>Sqlite_Rowset_Spec\<close>: the row set. The bucket merge sort sorts and removes duplicates, the
    forest of trees answers membership; the locale \<open>batch_set\<close> states the laws of the operations, and clients get
    the answers of plain sets. The sort has 40 buckets, so the theorems ask for fewer than 2^40 entries.
  \<^item> \<open>Sqlite_Bitvec\<close>, \<open>Sqlite_Bitvec_Spec\<close>: the bit vector with its three representations. The locale \<open>bit_set\<close>
    states the laws of a set; the interpretation rests on the invariant of linear probing. Setting a bit recurses
    through at most four divisions by 62 below 2^32, two calls each, so the bound 9 on the recursion is enough; a
    probe visits at most the 124 slots of a table.
  \<^item> \<open>Sqlite_Hash\<close>, \<open>Sqlite_Hash_List\<close>, \<open>Sqlite_Hash_Spec\<close>: the hash table that keeps schema objects by name. The
    elements are on a heap, since buckets are stretches of one doubly linked list that is updated through pointers;
    the loops are bounded by the number of elements. The locale \<open>name_map\<close> states that a table stands for a map
    whose keys ignore case; clients get the answers of that map. The theorem asks for fewer than 2^31 operations,
    because the count and its double are 32-bit numbers.
  \<^item> \<open>Sqlite_Ctype\<close>: the character tables that the hash table and the tokenizer share.
  \<^item> \<open>Sqlite_Keywords\<close>, \<open>Sqlite_Keywords_Spec\<close>: the generated keyword table. The lookup by hash, whose words overlap in
    one text, equals a search of the word in ASCII capitals in the list of the 143 keywords; only a delete character
    (0x7f) is taken for an underscore.
  \<^item> \<open>Sqlite_Tokenize\<close>, \<open>Sqlite_Tokenize_Spec\<close>, \<open>Sqlite_Parser_Spec\<close>: the tokenizer, one definition for each class of
    first characters, and the token loop of \<open>sqlite3RunParser\<close> with the generated parser as a parameter. The tokens
    make up the statement; the loop ends, since every token shortens the text and at its end only two more tokens
    follow, and gives the parser the tokens that a function on token lists (\<open>stream\<close>) prescribes.
  \<^item> \<open>Sqlite_Utf\<close>, \<open>Sqlite_Utf_Spec\<close>: the readers and writers of a character in UTF-8 and UTF-16 and the translation of a
    text. Encodings of Unicode characters are translated into each other, and for arbitrary bytes the loops stay within
    the input and the allocated output.
  \<^item> \<open>Sqlite_Like\<close>, \<open>Sqlite_Like_Spec\<close>: the matcher of LIKE and GLOB with its fast search behind a wildcard. It answers
    what a matcher that tries every split answers; the theorem excludes U+0080 in patterns and an escape character
    that is a wildcard, for which the code does otherwise (\<open>like_u0080\<close>, \<open>like_escape_wildcard\<close>).
  \<^item> \<open>Sqlite_Mem\<close>, \<open>Sqlite_Mem_Own\<close>, \<open>Sqlite_Mem_Value\<close>, \<open>Sqlite_Mem_Text\<close>, \<open>Sqlite_Mem_Spec\<close>: the memory cells of the
    virtual machine (\<open>struct sqlite3_value\<close>) on a heap of blocks, with external texts and their destructors. The relation
    \<open>step\<close> accounts for blocks and destructor calls, \<open>good\<close> relates a cell to an SQL value; the locale \<open>rearranging\<close> is
    the contract of the operations that only move content. Programs of operations on several cells neither fault nor
    leak and give the values that \<open>effect\<close> prescribes. A UTF-16 text has to consist of whole units
    (\<open>odd_text_unterminated\<close> shows why), and lengths are below 2^31 - 3, where the code adds three bytes.
  \<^item> In these modules the allocator either hands out a new block or fails, in any pattern.

  \<^bold>\<open>Not modelled.\<close> The Erlang node; the clean-up in \<open>sqlite3RunParser\<close> behind its loop, the parser that Lemon generates;
  memory cells that hold the context of an aggregate function or a row set, the conversion of numbers to and from text, and
  the other parts of SQLite, which the port reaches only through the API; the RandomX
  library, GMP, OpenSSL, Blake2b, \<open>ei\<close> and \<open>erl_nif\<close>, which are not part of the repository and appear as parameters;
  \<open>sqlite3BitvecBuiltinTest\<close> and \<open>c_src/tests\<close>, which are tests; build and deployment files. The models of the
  C library calls \<open>sqlite3_malloc\<close> and \<open>sqlite3DbMallocRawNN\<close> do not include SQLite's lookaside pools.
\<close>

end
